(* ===== verification/Prelude.thy ===== *)
theory Prelude
  imports Main "HOL-Library.Monad_Syntax"
begin

text \<open>
  Shared vocabulary of the development.

  A Rust panic (an index out of bounds, a failed \<open>assert!\<close> or \<open>expect\<close>) is the value
  \<open>None\<close>: code that can panic returns an \<open>option\<close> and is written in the option
  monad of \<open>HOL-Library.Monad_Syntax\<close>. \<open>idx\<close> and \<open>upd\<close> are the checked
  element read and write of a \<open>Vec\<close>. Lists are \<open>Vec\<close>s in source order; a stack
  (\<open>Vec::push\<close> and \<open>Vec::pop\<close>) is a list whose head is the top.
  The collection \<open>panic_simps\<close> unfolds the checked accesses where the bounds are known.
\<close>

named_theorems panic_simps

subsection \<open>Checked accesses\<close>

definition idx :: "'a list \<Rightarrow> nat \<Rightarrow> 'a option" where
  "idx xs i = (if i < length xs then Some (xs ! i) else None)"

definition upd :: "'a list \<Rightarrow> nat \<Rightarrow> 'a \<Rightarrow> 'a list option" where
  "upd xs i x = (if i < length xs then Some (xs[i := x]) else None)"

definition require :: "bool \<Rightarrow> unit option" where
  "require b = (if b then Some () else None)"

definition u32_max :: nat where
  "u32_max = 4294967295"

definition usize_max :: nat where
  "usize_max = 18446744073709551615"

text \<open>\<open>checked_add\<close> and \<open>checked_mul\<close> on \<open>usize\<close>, applied to the exact result.\<close>

definition usize_checked :: "nat \<Rightarrow> nat option" where
  "usize_checked n = (if n \<le> usize_max then Some n else None)"

lemma u32_less_usize: "n \<le> u32_max \<Longrightarrow> n < usize_max"
  by (simp add: u32_max_def usize_max_def)

lemma idx_in [panic_simps]: "i < length xs \<Longrightarrow> idx xs i = Some (xs ! i)"
  by (simp add: idx_def)

lemma upd_in [panic_simps]: "i < length xs \<Longrightarrow> upd xs i x = Some (xs[i := x])"
  by (simp add: upd_def)

lemma require_True [panic_simps]: "b \<Longrightarrow> require b = Some ()"
  by (simp add: require_def)

lemma idx_Some_iff: "idx xs i = Some x \<longleftrightarrow> i < length xs \<and> xs ! i = x"
  by (simp add: idx_def)

lemma upd_Some_iff: "upd xs i x = Some ys \<longleftrightarrow> i < length xs \<and> ys = xs[i := x]"
  by (auto simp: upd_def)

lemma require_Some_iff: "require b = Some u \<longleftrightarrow> b"
  by (simp add: require_def)

lemma idx_None_iff: "idx xs i = None \<longleftrightarrow> length xs \<le> i"
  by (simp add: idx_def)

lemmas panic_iffs = idx_Some_iff upd_Some_iff require_Some_iff idx_None_iff

subsection \<open>Counting the unset flags of a visited array\<close>

definition unset :: "bool list \<Rightarrow> nat" where
  "unset bs = length (filter Not bs)"

lemma unset_update_True:
  "i < length bs \<Longrightarrow> \<not> bs ! i \<Longrightarrow> Suc (unset (bs[i := True])) = unset bs"
proof (induction bs arbitrary: i)
  case Nil
  then show ?case by simp
next
  case (Cons b bs)
  then show ?case by (cases i) (auto simp: unset_def)
qed

lemma unset_update_less [intro]:
  "i < length bs \<Longrightarrow> \<not> bs ! i \<Longrightarrow> unset (bs[i := True]) < unset bs"
  using unset_update_True [of i bs] by simp

definition flagged :: "bool list \<Rightarrow> nat set" where
  "flagged bs = {i. i < length bs \<and> bs ! i}"

lemma flagged_replicate [simp]: "flagged (replicate n False) = {}"
  by (auto simp: flagged_def)

lemma flagged_update [simp]:
  "i < length bs \<Longrightarrow> flagged (bs[i := True]) = insert i (flagged bs)"
  by (auto simp: flagged_def nth_list_update split: if_splits)

lemma flagged_less: "i \<in> flagged bs \<Longrightarrow> i < length bs"
  by (simp add: flagged_def)

lemma finite_flagged [simp, intro]: "finite (flagged bs)"
  by (rule finite_subset [of _ "{..<length bs}"]) (auto simp: flagged_def)

lemma flagged_iff: "i < length bs \<Longrightarrow> i \<in> flagged bs \<longleftrightarrow> bs ! i"
  by (simp add: flagged_def)

subsection \<open>Closed sets and reachability\<close>

lemma rtrancl_closed:
  assumes "(a, b) \<in> R\<^sup>*" and "a \<in> S" and "\<And>x y. x \<in> S \<Longrightarrow> (x, y) \<in> R \<Longrightarrow> y \<in> S"
  shows "b \<in> S"
  using assms by (induction rule: rtrancl_induct) auto

subsection \<open>Ordered iteration of a finite set of indices\<close>

text \<open>A \<open>BTreeSet\<close> of indices is a set; iterating it is \<open>sorted_list_of_set\<close>.\<close>

lemma set_sorted_list [simp]: "finite A \<Longrightarrow> set (sorted_list_of_set (A :: nat set)) = A"
  by simp

lemma sorted_list_0:
  assumes "finite A" and "(0 :: nat) \<in> A"
  shows "sorted_list_of_set A ! 0 = 0" and "sorted_list_of_set A \<noteq> []"
proof -
  show "sorted_list_of_set A \<noteq> []" using assms by auto
  have "sorted_list_of_set A ! 0 = Min A"
    using assms by (metis empty_iff nth_Cons_0 sorted_list_of_set_nonempty)
  then show "sorted_list_of_set A ! 0 = 0"
    using assms by (metis Min_le le_zero_eq)
qed

subsection \<open>Mapping a fallible function over a list\<close>

fun traverse :: "('a \<Rightarrow> 'b option) \<Rightarrow> 'a list \<Rightarrow> 'b list option" where
  "traverse f [] = Some []"
| "traverse f (x # xs) = do { y \<leftarrow> f x; ys \<leftarrow> traverse f xs; Some (y # ys) }"

lemma traverse_Some: "(\<And>x. x \<in> set xs \<Longrightarrow> f x = Some (g x)) \<Longrightarrow> traverse f xs = Some (map g xs)"
  by (induction xs) auto

lemma traverse_cong [fundef_cong]:
  "xs = ys \<Longrightarrow> (\<And>x. x \<in> set ys \<Longrightarrow> f x = g x) \<Longrightarrow> traverse f xs = traverse g ys"
proof (induction xs arbitrary: ys)
  case (Cons x xs)
  then show ?case by (cases ys) auto
qed simp

subsection \<open>Results\<close>

text \<open>A \<open>Result\<close> is a sum, \<open>Inl\<close> the error; \<open>and_then\<close> is the \<open>?\<close> operator.
  \<open>check b e\<close> is an early return of the error \<open>e\<close> unless \<open>b\<close> holds.\<close>

definition and_then :: "'e + 'a \<Rightarrow> ('a \<Rightarrow> 'e + 'b) \<Rightarrow> 'e + 'b" where
  "and_then r f = (case r of Inl e \<Rightarrow> Inl e | Inr x \<Rightarrow> f x)"

definition check :: "bool \<Rightarrow> 'e \<Rightarrow> 'e + unit" where
  "check b e = (if b then Inr () else Inl e)"

definition ok_or :: "'a option \<Rightarrow> 'e \<Rightarrow> 'e + 'a" where
  "ok_or x e = (case x of None \<Rightarrow> Inl e | Some y \<Rightarrow> Inr y)"

definition map_err :: "('e \<Rightarrow> 'f) \<Rightarrow> 'e + 'a \<Rightarrow> 'f + 'a" where
  "map_err f r = (case r of Inl e \<Rightarrow> Inl (f e) | Inr x \<Rightarrow> Inr x)"

fun try_all :: "('a \<Rightarrow> 'e + unit) \<Rightarrow> 'a list \<Rightarrow> 'e + unit" where
  "try_all f [] = Inr ()"
| "try_all f (x # xs) = and_then (f x) (\<lambda>_. try_all f xs)"

fun try_map :: "('a \<Rightarrow> 'e + 'b) \<Rightarrow> 'a list \<Rightarrow> 'e + 'b list" where
  "try_map f [] = Inr []"
| "try_map f (x # xs) = and_then (f x) (\<lambda>y. and_then (try_map f xs) (\<lambda>ys. Inr (y # ys)))"

lemma and_then_simps [simp]: "and_then (Inl e) f = Inl e" "and_then (Inr x) f = f x"
  by (simp_all add: and_then_def)

lemma check_simps [simp]: "b \<Longrightarrow> check b e = Inr ()" "\<not> b \<Longrightarrow> check b e = Inl e"
  by (simp_all add: check_def)

lemma ok_or_simps [simp]: "ok_or None e = Inl e" "ok_or (Some x) e = Inr x"
  by (simp_all add: ok_or_def)

lemma map_err_simps [simp]: "map_err f (Inl e) = Inl (f e)" "map_err f (Inr x) = Inr x"
  by (simp_all add: map_err_def)

lemma and_then_Inr_iff: "and_then r f = Inr y \<longleftrightarrow> (\<exists>x. r = Inr x \<and> f x = Inr y)"
  by (cases r) simp_all

lemma and_then_Inl_iff: "and_then r f = Inl e \<longleftrightarrow> r = Inl e \<or> (\<exists>x. r = Inr x \<and> f x = Inl e)"
  by (cases r) auto

lemma check_Inr_iff: "check b e = Inr u \<longleftrightarrow> b"
  and check_Inl_iff: "check b e = Inl e' \<longleftrightarrow> \<not> b \<and> e' = e"
  by (auto simp: check_def)

lemma ok_or_Inr_iff: "ok_or x e = Inr y \<longleftrightarrow> x = Some y"
  and ok_or_Inl_iff: "ok_or x e = Inl e' \<longleftrightarrow> x = None \<and> e' = e"
  by (auto simp: ok_or_def split: option.splits)

lemma map_err_Inr_iff: "map_err f r = Inr y \<longleftrightarrow> r = Inr y"
  by (cases r) auto

lemma try_all_Inr_iff: "try_all f xs = Inr u \<longleftrightarrow> (\<forall>x \<in> set xs. f x = Inr ())"
  by (induction xs) (auto simp: and_then_Inr_iff)

lemma try_map_Inr_iff: "try_map f xs = Inr ys \<longleftrightarrow> list_all2 (\<lambda>x y. f x = Inr y) xs ys"
proof (induction xs arbitrary: ys)
  case (Cons x xs)
  then show ?case by (cases ys) (auto simp: and_then_Inr_iff)
qed auto

text \<open>Code that can panic and fail: \<open>seq_try\<close> is \<open>?\<close>, \<open>seq_map\<close> collects until the first error.\<close>

definition seq_try :: "('e + 'a) option \<Rightarrow> ('a \<Rightarrow> ('e + 'b) option) \<Rightarrow> ('e + 'b) option" where
  "seq_try m f = (case m of None \<Rightarrow> None | Some (Inl e) \<Rightarrow> Some (Inl e) | Some (Inr x) \<Rightarrow> f x)"

fun seq_map :: "('a \<Rightarrow> ('e + 'b) option) \<Rightarrow> 'a list \<Rightarrow> ('e + 'b list) option" where
  "seq_map f [] = Some (Inr [])"
| "seq_map f (x # xs) = seq_try (f x) (\<lambda>y. seq_try (seq_map f xs) (\<lambda>ys. Some (Inr (y # ys))))"

lemma seq_try_simps [simp]:
  "seq_try (Some (Inl e)) f = Some (Inl e)" "seq_try (Some (Inr x)) f = f x" "seq_try None f = None"
  by (simp_all add: seq_try_def)

lemma seq_try_Inr_iff: "seq_try m f = Some (Inr y) \<longleftrightarrow> (\<exists>x. m = Some (Inr x) \<and> f x = Some (Inr y))"
  by (auto simp: seq_try_def split: option.splits sum.splits)

lemma seq_try_total: "m \<noteq> None \<Longrightarrow> (\<And>x. m = Some (Inr x) \<Longrightarrow> f x \<noteq> None) \<Longrightarrow> seq_try m f \<noteq> None"
  by (auto simp: seq_try_def split: option.splits sum.splits)

lemma seq_map_Inr_iff: "seq_map f xs = Some (Inr ys) \<longleftrightarrow> list_all2 (\<lambda>x y. f x = Some (Inr y)) xs ys"
proof (induction xs arbitrary: ys)
  case (Cons x xs)
  then show ?case by (cases ys) (auto simp: seq_try_Inr_iff)
qed auto

lemma seq_map_total: "(\<And>x. x \<in> set xs \<Longrightarrow> f x \<noteq> None) \<Longrightarrow> seq_map f xs \<noteq> None"
proof (induction xs)
  case (Cons x xs)
  then show ?case unfolding seq_map.simps by (intro seq_try_total) auto
qed simp

lemmas result_iffs = and_then_Inr_iff check_Inr_iff ok_or_Inr_iff map_err_Inr_iff
  try_all_Inr_iff try_map_Inr_iff

subsection \<open>Rust's filter_map\<close>

lemma map_filter_Cons [simp]:
  "List.map_filter f (x # xs) =
     (case f x of None \<Rightarrow> List.map_filter f xs | Some y \<Rightarrow> y # List.map_filter f xs)"
  and map_filter_Nil [simp]: "List.map_filter f [] = []"
  by (simp_all add: List.map_filter_def split: option.splits)

lemma mem_map_filter: "y \<in> set (List.map_filter f xs) \<longleftrightarrow> (\<exists>x \<in> set xs. f x = Some y)"
  by (induction xs) (auto split: option.splits)

subsection \<open>Positions in a duplicate-free list\<close>

lemma distinct_split:
  "distinct (xs @ x # ys) \<Longrightarrow> xs @ x # ys = xs' @ x # ys' \<Longrightarrow> xs = xs' \<and> ys = ys'"
proof (induction xs arbitrary: xs')
  case Nil
  then show ?case by (cases xs') auto
next
  case (Cons a xs)
  show ?case
  proof (cases xs')
    case Nil
    with Cons.prems show ?thesis by auto
  next
    case (Cons b zs)
    from Cons.prems(1) have d: "distinct (xs @ x # ys)" by simp
    from Cons.prems(2) Cons have e: "xs @ x # ys = zs @ x # ys'" and ab: "a = b" by simp_all
    from d e have "xs = zs \<and> ys = ys'" by (rule Cons.IH)
    with ab Cons show ?thesis by simp
  qed
qed

end
