(* ===== verification/Cfg.thy ===== *)
theory Cfg
  imports Prelude
begin

text \<open>
  The control-flow graph of \<open>crates/hoonarqube-dataflow/src/cfg.rs\<close>: the struct
  \<open>Cfg\<close>, its constructors, queries and edge updates, the representation invariant
  \<open>wf_cfg\<close> (edge lists in range, deduplicated, mirrored between \<open>succs\<close> and
  \<open>preds\<close>) and the refinement of every update to the abstract edge set \<open>edges\<close>.
  A \<open>BlockId\<close> is its dense index; the \<open>u32\<close> bound is checked where the code
  checks it and kept by \<open>wf_cfg\<close>.
\<close>

subsection \<open>State\<close>

type_synonym block_id = nat

record 'a cfg =
  payloads :: "'a list"
  succs :: "block_id list list"
  preds :: "block_id list list"
  cfg_entry :: block_id
  cfg_exit :: block_id

subsection \<open>Constructors and queries\<close>

definition disconnected :: "'a \<Rightarrow> 'a \<Rightarrow> 'a cfg" where
  "disconnected entry_payload exit_payload =
     \<lparr>payloads = [entry_payload, exit_payload], succs = [[], []], preds = [[], []],
      cfg_entry = 0, cfg_exit = 1\<rparr>"

definition node_count :: "'a cfg \<Rightarrow> nat" where
  "node_count g = length (payloads g)"

definition contains_block :: "'a cfg \<Rightarrow> block_id \<Rightarrow> bool" where
  "contains_block g b \<longleftrightarrow> b < length (payloads g)"

definition edge_count :: "'a cfg \<Rightarrow> nat" where
  "edge_count g = sum_list (map length (succs g))"

definition payload :: "'a cfg \<Rightarrow> block_id \<Rightarrow> 'a option" where
  "payload g b = idx (payloads g) b"

definition successors :: "'a cfg \<Rightarrow> block_id \<Rightarrow> block_id list option" where
  "successors g b = idx (succs g) b"

definition predecessors :: "'a cfg \<Rightarrow> block_id \<Rightarrow> block_id list option" where
  "predecessors g b = idx (preds g) b"

definition blocks :: "'a cfg \<Rightarrow> block_id list option" where
  "blocks g = do {
     require (length (payloads g) \<le> u32_max);
     Some [0..<length (payloads g)]
   }"

definition has_edge :: "'a cfg \<Rightarrow> block_id \<Rightarrow> block_id \<Rightarrow> bool option" where
  "has_edge g from to = do {
     ss \<leftarrow> idx (succs g) from;
     Some (to \<in> set ss)
   }"

definition assert_valid_block :: "'a cfg \<Rightarrow> block_id \<Rightarrow> unit option" where
  "assert_valid_block g b = require (contains_block g b)"

definition next_block_id :: "'a cfg \<Rightarrow> block_id option" where
  "next_block_id g = do {
     require (length (payloads g) \<le> u32_max);
     require (length (payloads g) < u32_max);
     Some (length (payloads g))
   }"

subsection \<open>Updates\<close>

definition add_edge :: "'a cfg \<Rightarrow> block_id \<Rightarrow> block_id \<Rightarrow> (bool \<times> 'a cfg) option" where
  "add_edge g from to = do {
     assert_valid_block g from;
     assert_valid_block g to;
     ss \<leftarrow> idx (succs g) from;
     (if to \<in> set ss then Some (False, g)
      else do {
        succs' \<leftarrow> upd (succs g) from (ss @ [to]);
        ps \<leftarrow> idx (preds g) to;
        preds' \<leftarrow> upd (preds g) to (ps @ [from]);
        Some (True, g\<lparr>succs := succs', preds := preds'\<rparr>)
      })
   }"

text \<open>\<open>iter().position\<close> followed by \<open>Vec::remove\<close> deletes the first occurrence.\<close>

definition remove_edge :: "'a cfg \<Rightarrow> block_id \<Rightarrow> block_id \<Rightarrow> (bool \<times> 'a cfg) option" where
  "remove_edge g from to = do {
     assert_valid_block g from;
     assert_valid_block g to;
     ss \<leftarrow> idx (succs g) from;
     (if to \<notin> set ss then Some (False, g)
      else do {
        succs' \<leftarrow> upd (succs g) from (remove1 to ss);
        ps \<leftarrow> idx (preds g) to;
        require (from \<in> set ps);
        preds' \<leftarrow> upd (preds g) to (remove1 from ps);
        Some (True, g\<lparr>succs := succs', preds := preds'\<rparr>)
      })
   }"

definition append_node :: "'a cfg \<Rightarrow> 'a \<Rightarrow> (block_id \<times> 'a cfg) option" where
  "append_node g p = do {
     i \<leftarrow> next_block_id g;
     Some (i, g\<lparr>payloads := payloads g @ [p], succs := succs g @ [[]], preds := preds g @ [[]]\<rparr>)
   }"

definition cfg_new :: "'a \<Rightarrow> 'a \<Rightarrow> 'a cfg option" where
  "cfg_new entry_payload exit_payload =
     (let g = disconnected entry_payload exit_payload
      in do { (_, g') \<leftarrow> add_edge g (cfg_entry g) (cfg_exit g); Some g' })"

subsection \<open>Representation invariant and abstraction\<close>

text \<open>The abstraction of a graph: its directed edges.\<close>

definition edges :: "'a cfg \<Rightarrow> (block_id \<times> block_id) set" where
  "edges g = {(i, j). i < length (succs g) \<and> j \<in> set (succs g ! i)}"

definition adj_ok :: "nat \<Rightarrow> nat list list \<Rightarrow> bool" where
  "adj_ok n xss \<longleftrightarrow> length xss = n \<and> (\<forall>xs \<in> set xss. distinct xs \<and> set xs \<subseteq> {..<n})"

definition wf_cfg :: "'a cfg \<Rightarrow> bool" where
  "wf_cfg g \<longleftrightarrow>
     adj_ok (length (payloads g)) (succs g) \<and> adj_ok (length (payloads g)) (preds g) \<and>
     (\<forall>i < length (payloads g). \<forall>j < length (payloads g).
        j \<in> set (succs g ! i) \<longleftrightarrow> i \<in> set (preds g ! j)) \<and>
     length (payloads g) \<le> u32_max \<and>
     cfg_entry g = 0 \<and> 0 < length (payloads g) \<and> cfg_exit g < length (payloads g)"

lemma adj_okD:
  assumes "adj_ok n xss"
  shows "length xss = n" and "i < n \<Longrightarrow> distinct (xss ! i)"
    and "i < n \<Longrightarrow> j \<in> set (xss ! i) \<Longrightarrow> j < n"
  using assms by (auto simp: adj_ok_def dest: nth_mem)

lemma adj_ok_update:
  assumes "adj_ok n xss" and "distinct xs" and "set xs \<subseteq> {..<n}"
  shows "adj_ok n (xss[i := xs])"
  using assms set_update_subset_insert [of xss i xs] by (auto simp: adj_ok_def)

lemma adj_ok_append: "adj_ok n xss \<Longrightarrow> adj_ok (Suc n) (xss @ [[]])"
  by (fastforce simp: adj_ok_def less_Suc_eq subset_iff)

lemma wf_cfgI:
  assumes "adj_ok (length (payloads g)) (succs g)" and "adj_ok (length (payloads g)) (preds g)"
    and "\<And>i j. i < length (payloads g) \<Longrightarrow> j < length (payloads g) \<Longrightarrow>
       j \<in> set (succs g ! i) \<longleftrightarrow> i \<in> set (preds g ! j)"
    and "length (payloads g) \<le> u32_max" and "cfg_entry g = 0" and "0 < length (payloads g)"
    and "cfg_exit g < length (payloads g)"
  shows "wf_cfg g"
  using assms by (simp add: wf_cfg_def)

lemma wf_lengths:
  assumes "wf_cfg g"
  shows "length (succs g) = node_count g" and "length (preds g) = node_count g"
    and "length (payloads g) = node_count g"
  using assms by (auto simp: wf_cfg_def adj_ok_def node_count_def)

lemma wf_basic:
  assumes "wf_cfg g"
  shows "cfg_entry g = 0" and "0 < node_count g" and "cfg_exit g < node_count g"
    and "node_count g \<le> u32_max"
  using assms by (auto simp: wf_cfg_def node_count_def)

lemma wf_succs_less:
  "wf_cfg g \<Longrightarrow> i < node_count g \<Longrightarrow> j \<in> set (succs g ! i) \<Longrightarrow> j < node_count g"
  unfolding wf_cfg_def node_count_def by (metis adj_okD(3))

lemma wf_preds_less:
  "wf_cfg g \<Longrightarrow> i < node_count g \<Longrightarrow> j \<in> set (preds g ! i) \<Longrightarrow> j < node_count g"
  unfolding wf_cfg_def node_count_def by (metis adj_okD(3))

lemma wf_distinct:
  assumes "wf_cfg g" and "i < node_count g"
  shows "distinct (succs g ! i)" and "distinct (preds g ! i)"
  using assms unfolding wf_cfg_def node_count_def by (metis adj_okD(2))+

lemma wf_mirror:
  "wf_cfg g \<Longrightarrow> i < node_count g \<Longrightarrow> j < node_count g \<Longrightarrow>
     j \<in> set (succs g ! i) \<longleftrightarrow> i \<in> set (preds g ! j)"
  by (simp add: wf_cfg_def node_count_def)

lemma edges_iff: "wf_cfg g \<Longrightarrow> (i, j) \<in> edges g \<longleftrightarrow> i < node_count g \<and> j \<in> set (succs g ! i)"
  by (simp add: edges_def wf_lengths)

lemma edges_less: "wf_cfg g \<Longrightarrow> (i, j) \<in> edges g \<Longrightarrow> i < node_count g \<and> j < node_count g"
  by (auto simp: edges_iff intro: wf_succs_less)

lemma edges_preds:
  assumes "wf_cfg g"
  shows "(i, j) \<in> edges g \<longleftrightarrow> j < node_count g \<and> i \<in> set (preds g ! j)"
proof
  assume e: "(i, j) \<in> edges g"
  with assms have "i < node_count g" "j < node_count g" by (auto dest: edges_less)
  with e assms show "j < node_count g \<and> i \<in> set (preds g ! j)"
    by (auto simp: edges_iff wf_mirror)
next
  assume p: "j < node_count g \<and> i \<in> set (preds g ! j)"
  with assms have "i < node_count g" by (auto intro: wf_preds_less)
  with p assms show "(i, j) \<in> edges g" by (auto simp: edges_iff wf_mirror)
qed

lemma reach_less:
  assumes "wf_cfg g" and "(a, b) \<in> (edges g)\<^sup>*" and "a < node_count g"
  shows "b < node_count g"
  using assms(2,3) edges_less [OF assms(1)] by (induction rule: rtrancl_induct) auto

subsection \<open>What the operations do\<close>

lemma wf_disconnected: "wf_cfg (disconnected p q)"
  by (rule wf_cfgI)
    (auto simp: disconnected_def adj_ok_def u32_max_def less_Suc_eq nth_Cons split: nat.splits)

lemma edges_disconnected: "edges (disconnected p q) = {}"
  by (auto simp: edges_def disconnected_def less_Suc_eq nth_Cons split: nat.splits)

lemma node_count_disconnected [simp]: "node_count (disconnected p q) = 2"
  by (simp add: node_count_def disconnected_def)

lemma cfg_exit_disconnected [simp]: "cfg_exit (disconnected p q) = 1"
  and cfg_entry_disconnected [simp]: "cfg_entry (disconnected p q) = 0"
  by (simp_all add: disconnected_def)

lemma add_edge_present:
  assumes "wf_cfg g" and "from < node_count g" and "to < node_count g" and "(from, to) \<in> edges g"
  shows "add_edge g from to = Some (False, g)"
  using assms
  by (simp add: add_edge_def assert_valid_block_def contains_block_def wf_lengths panic_simps
      edges_iff)

definition with_edge :: "'a cfg \<Rightarrow> block_id \<Rightarrow> block_id \<Rightarrow> 'a cfg" where
  "with_edge g from to =
     g\<lparr>succs := (succs g)[from := succs g ! from @ [to]],
       preds := (preds g)[to := preds g ! to @ [from]]\<rparr>"

lemma add_edge_absent:
  assumes "wf_cfg g" and "from < node_count g" and "to < node_count g" and "(from, to) \<notin> edges g"
  shows "add_edge g from to = Some (True, with_edge g from to)"
  using assms
  by (simp add: add_edge_def assert_valid_block_def contains_block_def wf_lengths panic_simps
      edges_iff with_edge_def)

lemma edges_with_edge:
  assumes "wf_cfg g" and "from < node_count g"
  shows "edges (with_edge g from to) = insert (from, to) (edges g)"
  using assms by (auto simp: edges_def with_edge_def wf_lengths nth_list_update split: if_splits)

lemma wf_with_edge:
  assumes wf: "wf_cfg g" and f: "from < node_count g" and t: "to < node_count g"
    and new: "(from, to) \<notin> edges g"
  shows "wf_cfg (with_edge g from to)"
proof (rule wf_cfgI)
  have nin: "to \<notin> set (succs g ! from)" using wf f new by (simp add: edges_iff)
  then have nin': "from \<notin> set (preds g ! to)" using wf f t by (simp add: wf_mirror)
  let ?n = "length (payloads g)"
  have ok: "adj_ok ?n (succs g)" "adj_ok ?n (preds g)" using wf by (simp_all add: wf_cfg_def)
  show "adj_ok (length (payloads (with_edge g from to))) (succs (with_edge g from to))"
    using ok f t nin adj_okD(2,3) [OF ok(1)]
    by (auto simp: with_edge_def node_count_def intro!: adj_ok_update)
  show "adj_ok (length (payloads (with_edge g from to))) (preds (with_edge g from to))"
    using ok f t nin' adj_okD(2,3) [OF ok(2)]
    by (auto simp: with_edge_def node_count_def intro!: adj_ok_update)
  show "j \<in> set (succs (with_edge g from to) ! i) \<longleftrightarrow> i \<in> set (preds (with_edge g from to) ! j)"
    if "i < length (payloads (with_edge g from to))" "j < length (payloads (with_edge g from to))"
    for i j
    using that wf f t wf_mirror [OF wf, of i j]
    by (auto simp: with_edge_def nth_list_update wf_lengths)
qed (use wf in \<open>auto simp: with_edge_def wf_cfg_def\<close>)

lemma with_edge_frame [simp]:
  "payloads (with_edge g a b) = payloads g" "node_count (with_edge g a b) = node_count g"
  "cfg_entry (with_edge g a b) = cfg_entry g" "cfg_exit (with_edge g a b) = cfg_exit g"
  by (simp_all add: with_edge_def node_count_def)

definition without_edge :: "'a cfg \<Rightarrow> block_id \<Rightarrow> block_id \<Rightarrow> 'a cfg" where
  "without_edge g from to =
     g\<lparr>succs := (succs g)[from := remove1 to (succs g ! from)],
       preds := (preds g)[to := remove1 from (preds g ! to)]\<rparr>"

lemma remove_edge_present:
  assumes "wf_cfg g" and "from < node_count g" and "to < node_count g" and "(from, to) \<in> edges g"
  shows "remove_edge g from to = Some (True, without_edge g from to)"
  using assms wf_mirror [of g "from" "to"]
  by (simp add: remove_edge_def assert_valid_block_def contains_block_def wf_lengths panic_simps
      edges_iff without_edge_def)

lemma edges_without_edge:
  assumes "wf_cfg g" and "from < node_count g"
  shows "edges (without_edge g from to) = edges g - {(from, to)}"
  using assms wf_distinct(1) [of g "from"]
  by (auto simp: edges_def without_edge_def wf_lengths nth_list_update split: if_splits)

lemma wf_without_edge:
  assumes wf: "wf_cfg g" and f: "from < node_count g" and t: "to < node_count g"
  shows "wf_cfg (without_edge g from to)"
proof (rule wf_cfgI)
  let ?n = "length (payloads g)"
  have ok: "adj_ok ?n (succs g)" "adj_ok ?n (preds g)" using wf by (simp_all add: wf_cfg_def)
  show "adj_ok (length (payloads (without_edge g from to))) (succs (without_edge g from to))"
    using ok f t adj_okD(2,3) [OF ok(1)]
    by (auto simp: without_edge_def node_count_def intro!: adj_ok_update dest: notin_set_remove1)
  show "adj_ok (length (payloads (without_edge g from to))) (preds (without_edge g from to))"
    using ok f t adj_okD(2,3) [OF ok(2)]
    by (auto simp: without_edge_def node_count_def intro!: adj_ok_update dest: notin_set_remove1)
  show "j \<in> set (succs (without_edge g from to) ! i)
      \<longleftrightarrow> i \<in> set (preds (without_edge g from to) ! j)"
    if "i < length (payloads (without_edge g from to))"
      "j < length (payloads (without_edge g from to))" for i j
    using that wf f t wf_mirror [OF wf, of i j] wf_distinct [OF wf, of "from"]
      wf_distinct [OF wf, of "to"]
    by (auto simp: without_edge_def nth_list_update wf_lengths)
qed (use wf in \<open>auto simp: without_edge_def wf_cfg_def\<close>)

lemma without_edge_frame [simp]:
  "payloads (without_edge g a b) = payloads g" "node_count (without_edge g a b) = node_count g"
  "cfg_entry (without_edge g a b) = cfg_entry g" "cfg_exit (without_edge g a b) = cfg_exit g"
  by (simp_all add: without_edge_def node_count_def)

lemma append_node_spec:
  assumes "wf_cfg g" and "node_count g < u32_max"
  shows "append_node g p = Some (node_count g,
     g\<lparr>payloads := payloads g @ [p], succs := succs g @ [[]], preds := preds g @ [[]]\<rparr>)"
  using assms by (simp add: append_node_def next_block_id_def require_def node_count_def)

lemma append_node_full:
  assumes "\<not> node_count g < u32_max"
  shows "append_node g p = None"
  using assms by (simp add: append_node_def next_block_id_def require_def node_count_def)

lemma append_node_props:
  assumes wf: "wf_cfg g" and a: "append_node g p = Some (i, g')"
  shows "i = node_count g" and "wf_cfg g'" and "edges g' = edges g"
    and "payloads g' = payloads g @ [p]" and "node_count g' = Suc (node_count g)"
    and "cfg_exit g' = cfg_exit g" and "cfg_entry g' = cfg_entry g"
proof -
  have room: "node_count g < u32_max" using a append_node_full by fastforce
  note eq = append_node_spec [OF wf room, of p]
  from a eq show "i = node_count g" and "payloads g' = payloads g @ [p]"
    and "node_count g' = Suc (node_count g)" and "cfg_exit g' = cfg_exit g"
    and "cfg_entry g' = cfg_entry g"
    by (auto simp: node_count_def)
  from a eq wf show "edges g' = edges g"
    by (auto simp: edges_def nth_append wf_lengths less_Suc_eq split: if_splits)
  have ok: "adj_ok (length (payloads g)) (succs g)" "adj_ok (length (payloads g)) (preds g)"
    using wf by (simp_all add: wf_cfg_def)
  show "wf_cfg g'"
  proof (rule wf_cfgI)
    fix i j
    assume "i < length (payloads g')" and "j < length (payloads g')"
    with a eq have lt: "i < Suc (node_count g)" "j < Suc (node_count g)"
      by (auto simp: node_count_def)
    show "j \<in> set (succs g' ! i) \<longleftrightarrow> i \<in> set (preds g' ! j)"
      using a eq lt wf wf_mirror [OF wf, of i j] wf_succs_less [OF wf, of i j]
        wf_preds_less [OF wf, of j i]
      by (auto simp: nth_append wf_lengths less_Suc_eq split: if_splits)
  qed (use a eq wf room adj_ok_append ok in \<open>auto simp: wf_cfg_def node_count_def\<close>)
qed

text \<open>The three updates refine the operations on the abstract edge set.\<close>

lemma add_edge_wf:
  assumes "wf_cfg g" and "from < node_count g" and "to < node_count g"
  obtains g' where "add_edge g from to = Some ((from, to) \<notin> edges g, g')" and "wf_cfg g'"
    and "edges g' = insert (from, to) (edges g)" and "payloads g' = payloads g"
    and "cfg_exit g' = cfg_exit g" and "cfg_entry g' = cfg_entry g"
    and "node_count g' = node_count g"
proof (cases "(from, to) \<in> edges g")
  case True
  with assms add_edge_present [OF assms] show ?thesis by (intro that [of g]) auto
next
  case False
  with assms add_edge_absent [OF assms] show ?thesis
    by (intro that [of "with_edge g from to"])
      (auto simp: edges_with_edge intro: wf_with_edge)
qed

lemma remove_edge_absent:
  assumes "wf_cfg g" and "from < node_count g" and "to < node_count g" and "(from, to) \<notin> edges g"
  shows "remove_edge g from to = Some (False, g)"
  using assms
  by (simp add: remove_edge_def assert_valid_block_def contains_block_def wf_lengths panic_simps
      edges_iff)

lemma remove_edge_wf:
  assumes "wf_cfg g" and "from < node_count g" and "to < node_count g"
  obtains g' where "remove_edge g from to = Some ((from, to) \<in> edges g, g')" and "wf_cfg g'"
    and "edges g' = edges g - {(from, to)}" and "payloads g' = payloads g"
    and "cfg_exit g' = cfg_exit g" and "cfg_entry g' = cfg_entry g"
proof (cases "(from, to) \<in> edges g")
  case True
  with assms remove_edge_present [OF assms] show ?thesis
    by (intro that [of "without_edge g from to"])
      (auto simp: edges_without_edge intro: wf_without_edge)
next
  case False
  with assms remove_edge_absent [OF assms] show ?thesis by (intro that [of g]) auto
qed

lemma add_edge_invalid:
  assumes "\<not> (from < node_count g \<and> to < node_count g)"
  shows "add_edge g from to = None"
  using assms
  by (auto simp: add_edge_def assert_valid_block_def contains_block_def require_def node_count_def
      split: bind_splits)

lemma remove_edge_invalid:
  assumes "\<not> (from < node_count g \<and> to < node_count g)"
  shows "remove_edge g from to = None"
  using assms
  by (auto simp: remove_edge_def assert_valid_block_def contains_block_def require_def
      node_count_def split: bind_splits)

subsection \<open>Properties\<close>

text \<open>A loop with a branch and an unreachable block, at which the theorems are instantiated.\<close>

definition sample_cfg :: "nat cfg" where
  "sample_cfg =
     \<lparr>payloads = [0, 1, 2, 3, 4, 5], succs = [[2], [], [3, 4], [2], [1], [1]],
      preds = [[], [4, 5], [0, 3], [2], [2], []], cfg_entry = 0, cfg_exit = 1\<rparr>"

lemma wf_cfg_listed:
  "wf_cfg g \<longleftrightarrow> (let n = length (payloads g) in
     list_all (\<lambda>xs. distinct xs \<and> list_all (\<lambda>x. x < n) xs) (succs g @ preds g) \<and>
     length (succs g) = n \<and> length (preds g) = n \<and>
     list_all (\<lambda>i. list_all (\<lambda>j. (j \<in> set (succs g ! i)) = (i \<in> set (preds g ! j))) [0..<n]) [0..<n] \<and>
     n \<le> u32_max \<and> cfg_entry g = 0 \<and> 0 < n \<and> cfg_exit g < n)"
  by (auto simp: wf_cfg_def adj_ok_def list_all_iff Let_def)
lemma wf_sample: "wf_cfg sample_cfg"
  unfolding wf_cfg_listed sample_cfg_def by (simp add: upt_rec u32_max_def)

lemma sample_count [simp]: "node_count sample_cfg = 6"
  by (simp add: node_count_def sample_cfg_def)

lemma edges_listed:
  "edges g = set (concat (map (\<lambda>i. map (Pair i) (succs g ! i)) [0..<length (succs g)]))"
  by (auto simp: edges_def)

lemma edges_sample: "edges sample_cfg = {(0, 2), (2, 3), (2, 4), (3, 2), (4, 1), (5, 1)}"
  unfolding edges_listed sample_cfg_def by (simp add: upt_rec numeral_eq_Suc)

text \<open>\<open>Cfg::add_edge\<close> on two valid blocks keeps the representation invariant (the
  successor and predecessor lists stay in range, duplicate-free and mirrored), inserts exactly
  that edge, changes nothing else, and returns whether the edge is new.\<close>

theorem add_edge_refines:
  assumes "wf_cfg g" and "from < node_count g" and "to < node_count g"
  shows "\<exists>g'. add_edge g from to = Some ((from, to) \<notin> edges g, g') \<and> wf_cfg g' \<and>
    edges g' = insert (from, to) (edges g) \<and> payloads g' = payloads g \<and>
    cfg_entry g' = cfg_entry g \<and> cfg_exit g' = cfg_exit g"
  by (rule add_edge_wf [OF assms]) blast

theorem add_edge_refines_witness:
  "\<exists>g'. add_edge sample_cfg 3 1 = Some (True, g') \<and> wf_cfg g' \<and>
     edges g' = {(0, 2), (2, 3), (2, 4), (3, 1), (3, 2), (4, 1), (5, 1)}"
proof -
  have "(3, 1) \<notin> edges sample_cfg" by (simp add: edges_sample)
  then show ?thesis
    using add_edge_refines [OF wf_sample, of 3 1] unfolding edges_sample
    by (auto simp: insert_commute)
qed

text \<open>\<open>Cfg::remove_edge\<close> on two valid blocks keeps the invariant, removes exactly that
  edge from both adjacency directions, changes nothing else, and returns whether it was there;
  its \<open>expect\<close> on the mirrored predecessor entry never fires.\<close>

theorem remove_edge_refines:
  assumes wf: "wf_cfg g" and ft: "from < node_count g" "to < node_count g"
  shows "\<exists>g'. remove_edge g from to = Some ((from, to) \<in> edges g, g') \<and> wf_cfg g' \<and>
    edges g' = edges g - {(from, to)} \<and> payloads g' = payloads g \<and>
    cfg_entry g' = cfg_entry g \<and> cfg_exit g' = cfg_exit g"
  by (rule remove_edge_wf [OF assms]) blast

theorem remove_edge_refines_witness:
  "\<exists>g'. remove_edge sample_cfg 3 2 = Some (True, g') \<and> wf_cfg g' \<and>
     edges g' = {(0, 2), (2, 3), (2, 4), (4, 1), (5, 1)}"
proof -
  have "(3, 2) \<in> edges sample_cfg" by (simp add: edges_sample)
  then show ?thesis
    using remove_edge_refines [OF wf_sample, of 3 2] unfolding edges_sample
    by (auto simp: insert_Diff_if)
qed

text \<open>C33: \<open>add_edge\<close> and \<open>remove_edge\<close> panic when an endpoint is not a block of the graph;
  \<open>has_edge\<close> panics only when its first argument is not, and answers \<open>false\<close> for an invalid
  second argument.\<close>

theorem invalid_endpoints:
  assumes wf: "wf_cfg g" and inv: "\<not> (from < node_count g \<and> to < node_count g)"
  shows "add_edge g from to = None \<and> remove_edge g from to = None \<and>
    has_edge g from to = (if from < node_count g then Some False else None)"
proof -
  have "to \<notin> set (succs g ! from)" if "from < node_count g"
    using wf_succs_less [OF wf that] inv that by blast
  then have "has_edge g from to = (if from < node_count g then Some False else None)"
    by (simp add: has_edge_def idx_def wf_lengths [OF wf])
  then show ?thesis using add_edge_invalid [OF inv] remove_edge_invalid [OF inv] by simp
qed

theorem invalid_endpoints_witness:
  "add_edge sample_cfg 0 6 = None \<and> has_edge sample_cfg 0 6 = Some False"
  using invalid_endpoints [OF wf_sample, of 0 6] by simp

text \<open>\<open>Cfg::append_node\<close> returns the next dense id, keeps the invariant, adds an isolated
  block with the given payload and no edge; it panics exactly when the graph already has
  \<open>u32::MAX\<close> blocks.\<close>

theorem append_node_refines:
  assumes "wf_cfg g"
  shows "append_node g p = None \<and> node_count g = u32_max \<or>
    (\<exists>g'. append_node g p = Some (node_count g, g') \<and> node_count g < u32_max \<and> wf_cfg g' \<and>
       edges g' = edges g \<and> payloads g' = payloads g @ [p] \<and>
       cfg_entry g' = cfg_entry g \<and> cfg_exit g' = cfg_exit g)"
proof (cases "node_count g < u32_max")
  case True
  note a = append_node_spec [OF assms True, of p]
  show ?thesis using append_node_props [OF assms a] a True by blast
next
  case False
  then show ?thesis using append_node_full [OF False] wf_basic(4) [OF assms] by simp
qed

theorem append_node_refines_witness:
  "\<exists>g'. append_node sample_cfg 9 = Some (6, g') \<and> wf_cfg g' \<and> edges g' = edges sample_cfg"
  using append_node_refines [OF wf_sample, of 9] by (auto simp: u32_max_def)

end
