(* ===== verification/CfgReach.thy ===== *)
theory CfgReach
  imports Cfg
begin

text \<open>
  Forward reachability (\<open>Cfg::reachable_from_entry\<close>) and the pruning that keeps the
  reachable blocks and the exit and renumbers them (\<open>Cfg::into_reachable_subgraph\<close>,
  \<open>Cfg::prune_impl\<close>).
\<close>

subsection \<open>The exploration loop\<close>

text \<open>The inner \<open>for\<close> loop: flag and push every neighbour not yet seen.\<close>

fun mark_push :: "block_id list \<Rightarrow> bool list \<Rightarrow> block_id list \<Rightarrow> (bool list \<times> block_id list) option"
where
  "mark_push [] seen stack = Some (seen, stack)"
| "mark_push (next # rest) seen stack = do {
     s \<leftarrow> idx seen next;
     (if s then mark_push rest seen stack
      else do {
        seen' \<leftarrow> upd seen next True;
        mark_push rest seen' (next # stack)
      })
   }"

lemma mark_push_unset:
  "mark_push ns seen stack = Some (seen', stack') \<Longrightarrow>
     unset seen' + length stack' = unset seen + length stack \<and> unset seen' \<le> unset seen"
proof (induction ns seen stack rule: mark_push.induct)
  case (2 n ns seen stack)
  then show ?case
    using unset_update_True [of n seen]
    by (fastforce simp: panic_iffs upd_def idx_def split: if_splits bind_splits)
qed simp

text \<open>The outer \<open>while let Some(block) = stack.pop()\<close>.\<close>

function reach_loop ::
  "block_id list list \<Rightarrow> bool list \<Rightarrow> block_id list \<Rightarrow> bool list option" where
  "reach_loop adj seen [] = Some seen"
| "reach_loop adj seen (block # stack) =
     (case idx adj block of
        None \<Rightarrow> None
      | Some ns \<Rightarrow>
          (case mark_push ns seen stack of
             None \<Rightarrow> None
           | Some (seen', stack') \<Rightarrow> reach_loop adj seen' stack'))"
  by pat_completeness auto
termination
proof (relation "measures [\<lambda>(adj, seen, stack). unset seen, \<lambda>(adj, seen, stack). length stack]",
    goal_cases)
  case (2 adj seen block stack ns p seen' stack')
  then have "unset seen' + length stack' = unset seen + length stack \<and> unset seen' \<le> unset seen"
    by (intro mark_push_unset [of ns]) auto
  then show ?case by auto
qed simp

definition reachable_from_entry :: "'a cfg \<Rightarrow> block_id set option" where
  "reachable_from_entry g = do {
     seen \<leftarrow> upd (replicate (length (payloads g)) False) (cfg_entry g) True;
     seen' \<leftarrow> reach_loop (succs g) seen [cfg_entry g];
     bs \<leftarrow> blocks g;
     Some (set (filter (\<lambda>b. seen' ! b) bs))
   }"

subsection \<open>Correctness of the loop\<close>

definition adj_rel :: "nat list list \<Rightarrow> (nat \<times> nat) set" where
  "adj_rel adj = {(i, j). i < length adj \<and> j \<in> set (adj ! i)}"

lemma mark_push_spec:
  assumes "set ns \<subseteq> {..<length seen}"
  obtains pushed where "mark_push ns seen stack = Some (foldl (\<lambda>s n. s[n := True]) seen ns,
      pushed @ stack)"
    and "set pushed = set ns - flagged seen"
    and "flagged (foldl (\<lambda>s n. s[n := True]) seen ns) = flagged seen \<union> set ns"
    and "length (foldl (\<lambda>s n. s[n := True]) seen ns) = length seen"
  using assms
proof (induction ns arbitrary: seen stack thesis)
  case Nil
  then show ?case by simp
next
  case (Cons n ns)
  then have n: "n < length seen" and ns: "set ns \<subseteq> {..<length seen}" by auto
  show ?case
  proof (cases "seen ! n")
    case True
    then have same: "seen[n := True] = seen" by (metis list_update_id)
    from Cons.IH [OF _ ns, of stack] obtain pushed where
      "mark_push ns seen stack = Some (foldl (\<lambda>s n. s[n := True]) seen ns, pushed @ stack)"
      "set pushed = set ns - flagged seen"
      "flagged (foldl (\<lambda>s n. s[n := True]) seen ns) = flagged seen \<union> set ns"
      "length (foldl (\<lambda>s n. s[n := True]) seen ns) = length seen" by blast
    moreover have "n \<in> flagged seen" using True n by (simp add: flagged_def)
    ultimately show ?thesis
      using True n same by (intro Cons.prems(1) [of pushed]) (auto simp: panic_simps)
  next
    case False
    from ns have ns': "set ns \<subseteq> {..<length (seen[n := True])}" by simp
    from Cons.IH [OF _ ns', of "n # stack"] obtain pushed where
      "mark_push ns (seen[n := True]) (n # stack) =
         Some (foldl (\<lambda>s n. s[n := True]) (seen[n := True]) ns, pushed @ n # stack)"
      "set pushed = set ns - flagged (seen[n := True])"
      "flagged (foldl (\<lambda>s n. s[n := True]) (seen[n := True]) ns)
         = flagged (seen[n := True]) \<union> set ns"
      "length (foldl (\<lambda>s n. s[n := True]) (seen[n := True]) ns) = length (seen[n := True])"
      by blast
    moreover have "n \<notin> flagged seen" using False by (simp add: flagged_def)
    ultimately show ?thesis
      using False n by (intro Cons.prems(1) [of "pushed @ [n]"]) (auto simp: panic_simps)
  qed
qed

lemma image_absorb:
  assumes "B = A \<union> N" and "N \<subseteq> R `` A"
  shows "R\<^sup>* `` B = R\<^sup>* `` A"
proof -
  have "R\<^sup>* `` N \<subseteq> R\<^sup>* `` A"
    using assms(2) by (meson ImageE ImageI converse_rtrancl_into_rtrancl subsetD subsetI)
  with assms(1) show ?thesis by auto
qed

lemma reach_loop_correct:
  assumes "\<forall>xs \<in> set adj. set xs \<subseteq> {..<length seen}" and "length adj = length seen"
    and "set stack \<subseteq> flagged seen"
    and "\<And>x y. x \<in> flagged seen \<Longrightarrow> x \<notin> set stack \<Longrightarrow> (x, y) \<in> adj_rel adj \<Longrightarrow> y \<in> flagged seen"
  shows "\<exists>seen'. reach_loop adj seen stack = Some seen' \<and> length seen' = length seen \<and>
     flagged seen' = (adj_rel adj)\<^sup>* `` flagged seen"
  using assms
proof (induction adj seen stack rule: reach_loop.induct)
  case (1 adj seen)
  have "(adj_rel adj)\<^sup>* `` flagged seen = flagged seen"
    using "1.prems"(4) by (intro Image_closed_trancl) auto
  then show ?case by simp
next
  case (2 adj seen block stack)
  have b: "block < length seen" and bf: "block \<in> flagged seen"
    using "2.prems"(3) by (auto dest: flagged_less)
  then have i: "idx adj block = Some (adj ! block)" using "2.prems"(2) by (simp add: panic_simps)
  have ns: "set (adj ! block) \<subseteq> {..<length seen}"
    using "2.prems"(1,2) b by auto
  obtain pushed where m: "mark_push (adj ! block) seen stack =
      Some (foldl (\<lambda>s n. s[n := True]) seen (adj ! block), pushed @ stack)"
    and p: "set pushed = set (adj ! block) - flagged seen"
    and f: "flagged (foldl (\<lambda>s n. s[n := True]) seen (adj ! block))
        = flagged seen \<union> set (adj ! block)"
    and l: "length (foldl (\<lambda>s n. s[n := True]) seen (adj ! block)) = length seen"
    using mark_push_spec [OF ns] by blast
  let ?seen = "foldl (\<lambda>s n. s[n := True]) seen (adj ! block)"
  have sub: "set (adj ! block) \<subseteq> adj_rel adj `` {block}"
    using b "2.prems"(2) by (auto simp: adj_rel_def)
  have "\<exists>seen'. reach_loop adj ?seen (pushed @ stack) = Some seen' \<and>
      length seen' = length ?seen \<and> flagged seen' = (adj_rel adj)\<^sup>* `` flagged ?seen"
  proof (rule "2.IH" [OF i m refl])
    show "\<forall>xs\<in>set adj. set xs \<subseteq> {..<length ?seen}" using "2.prems"(1) l by simp
    show "length adj = length ?seen" using "2.prems"(2) l by simp
    show "set (pushed @ stack) \<subseteq> flagged ?seen" using p f "2.prems"(3) by auto
    show "y \<in> flagged ?seen"
      if "x \<in> flagged ?seen" "x \<notin> set (pushed @ stack)" "(x, y) \<in> adj_rel adj" for x y
      using that p f "2.prems"(4) [of x y] by (auto simp: adj_rel_def)
  qed
  moreover have "(adj_rel adj)\<^sup>* `` flagged ?seen = (adj_rel adj)\<^sup>* `` flagged seen"
    by (rule image_absorb [OF f]) (use bf sub in auto)
  ultimately have "\<exists>seen'. reach_loop adj ?seen (pushed @ stack) = Some seen' \<and>
      length seen' = length seen \<and> flagged seen' = (adj_rel adj)\<^sup>* `` flagged seen"
    using l by simp
  then show ?case using i m by simp
qed

lemma adj_rel_succs [simp]: "adj_rel (succs g) = edges g"
  by (simp add: adj_rel_def edges_def)

lemma adj_rel_preds: "wf_cfg g \<Longrightarrow> adj_rel (preds g) = (edges g)\<inverse>"
  by (auto simp: adj_rel_def edges_preds wf_lengths)

text \<open>Blocks of a graph reachable from its entry, the specification.\<close>

definition live :: "'a cfg \<Rightarrow> block_id set" where
  "live g = (edges g)\<^sup>* `` {cfg_entry g}"

lemma live_less: "wf_cfg g \<Longrightarrow> b \<in> live g \<Longrightarrow> b < node_count g"
  using reach_less [of g "cfg_entry g" b] by (auto simp: live_def wf_basic)

lemma live_entry [simp]: "cfg_entry g \<in> live g"
  by (simp add: live_def)

lemma live_step: "x \<in> live g \<Longrightarrow> (x, y) \<in> edges g \<Longrightarrow> y \<in> live g"
  by (auto simp: live_def intro: rtrancl_into_rtrancl)

lemma finite_live [simp]: "wf_cfg g \<Longrightarrow> finite (live g)"
  by (rule finite_subset [of _ "{..<node_count g}"]) (auto dest: live_less)

lemma blocks_wf: "wf_cfg g \<Longrightarrow> blocks g = Some [0..<node_count g]"
  by (simp add: blocks_def require_def wf_lengths wf_basic)

lemma adj_ok_bounded: "adj_ok n adj \<Longrightarrow> length seen = n \<Longrightarrow> \<forall>xs \<in> set adj. set xs \<subseteq> {..<length seen}"
  by (auto simp: adj_ok_def)

lemma wf_adj_ok:
  assumes "wf_cfg g"
  shows "adj_ok (node_count g) (succs g)" and "adj_ok (node_count g) (preds g)"
  using assms by (simp_all add: wf_cfg_def node_count_def)

lemma reachable_eq_live:
  assumes wf: "wf_cfg g"
  shows "reachable_from_entry g = Some (live g)"
proof -
  let ?n = "node_count g"
  let ?seen = "(replicate ?n False)[cfg_entry g := True]"
  have e: "cfg_entry g < ?n" using wf_basic [OF wf] by simp
  have u: "upd (replicate ?n False) (cfg_entry g) True = Some ?seen"
    using e by (simp add: panic_simps)
  have f: "flagged ?seen = {cfg_entry g}" using e by simp
  have "\<exists>seen'. reach_loop (succs g) ?seen [cfg_entry g] = Some seen' \<and>
     length seen' = length ?seen \<and> flagged seen' = (adj_rel (succs g))\<^sup>* `` flagged ?seen"
    using f e
    by (intro reach_loop_correct adj_ok_bounded [OF wf_adj_ok(1) [OF wf]])
      (auto simp: wf_lengths [OF wf])
  then obtain seen' where r: "reach_loop (succs g) ?seen [cfg_entry g] = Some seen'"
    and l: "length seen' = ?n" and fs: "flagged seen' = live g"
    using f by (auto simp: live_def)
  have "set (filter ((!) seen') [0..<?n]) = live g"
    using fs l live_less [OF wf] by (auto simp: flagged_def)
  then show ?thesis
    using u r by (simp add: reachable_from_entry_def wf_lengths [OF wf] blocks_wf [OF wf])
qed

subsection \<open>Pruning\<close>

fun prune_remap :: "block_id list \<Rightarrow> nat \<Rightarrow> nat option list \<Rightarrow> nat option list option" where
  "prune_remap [] index remap = Some remap"
| "prune_remap (old # rest) index remap = do {
     require (index \<le> u32_max);
     remap' \<leftarrow> upd remap old (Some index);
     prune_remap rest (Suc index) remap'
   }"

fun prune_targets :: "nat option list \<Rightarrow> block_id list \<Rightarrow> block_id list option" where
  "prune_targets remap [] = Some []"
| "prune_targets remap (target # rest) = do {
     r \<leftarrow> idx remap target;
     rest' \<leftarrow> prune_targets remap rest;
     Some (case r of None \<Rightarrow> rest' | Some i \<Rightarrow> i # rest')
   }"

fun prune_payloads :: "nat option list \<Rightarrow> nat \<Rightarrow> 'a list \<Rightarrow> 'a list option" where
  "prune_payloads remap i [] = Some []"
| "prune_payloads remap i (p # ps) = do {
     r \<leftarrow> idx remap i;
     ps' \<leftarrow> prune_payloads remap (Suc i) ps;
     Some (if r \<noteq> None then p # ps' else ps')
   }"

definition prune_impl :: "'a cfg \<Rightarrow> block_id set \<Rightarrow> nat option list \<Rightarrow> 'a cfg option" where
  "prune_impl g keep remap0 = do {
     remap \<leftarrow> prune_remap (sorted_list_of_set keep) 0 remap0;
     new_payloads \<leftarrow> prune_payloads remap 0 (payloads g);
     new_succs \<leftarrow> traverse (\<lambda>old. do { ss \<leftarrow> idx (succs g) old; prune_targets remap ss })
       (sorted_list_of_set keep);
     new_preds \<leftarrow> traverse (\<lambda>old. do { ps \<leftarrow> idx (preds g) old; prune_targets remap ps })
       (sorted_list_of_set keep);
     new_entry \<leftarrow> do { r \<leftarrow> idx remap (cfg_entry g); r };
     new_exit \<leftarrow> do { r \<leftarrow> idx remap (cfg_exit g); r };
     Some \<lparr>payloads = new_payloads, succs = new_succs, preds = new_preds,
           cfg_entry = new_entry, cfg_exit = new_exit\<rparr>
   }"

definition into_reachable_subgraph :: "'a cfg \<Rightarrow> 'a cfg option" where
  "into_reachable_subgraph g = do {
     keep \<leftarrow> reachable_from_entry g;
     prune_impl g (insert (cfg_exit g) keep) (replicate (length (payloads g)) None)
   }"

text \<open>The renumbering: the position of a kept block among the kept blocks.\<close>

definition kept :: "'a cfg \<Rightarrow> block_id list" where
  "kept g = sorted_list_of_set (insert (cfg_exit g) (live g))"

definition rank :: "nat list \<Rightarrow> nat \<Rightarrow> nat option" where
  "rank ks x = (if x \<in> set ks then Some (card {k \<in> set ks. k < x}) else None)"

lemma sorted_nth_card:
  assumes "sorted_wrt (<) (ks :: nat list)" and "i < length ks"
  shows "card {k \<in> set ks. k < ks ! i} = i"
proof -
  have "{k \<in> set ks. k < ks ! i} = set (take i ks)"
  proof
    show "{k \<in> set ks. k < ks ! i} \<subseteq> set (take i ks)"
    proof
      fix k assume "k \<in> {k \<in> set ks. k < ks ! i}"
      then obtain j where j: "j < length ks" "k = ks ! j" "ks ! j < ks ! i"
        by (auto simp: in_set_conv_nth)
      have "j < i"
        using j assms sorted_wrt_nth_less [of "(<)" ks i j] by (metis less_asym' linorder_neqE_nat)
      with j show "k \<in> set (take i ks)" by (auto simp: in_set_conv_nth)
    qed
    show "set (take i ks) \<subseteq> {k \<in> set ks. k < ks ! i}"
    proof
      fix k assume "k \<in> set (take i ks)"
      then obtain j where j: "j < i" "k = ks ! j" by (auto simp: in_set_conv_nth)
      with assms show "k \<in> {k \<in> set ks. k < ks ! i}"
        by (auto simp: sorted_wrt_nth_less intro!: nth_mem)
    qed
  qed
  moreover have "distinct ks" using assms(1) strict_sorted_iff by blast
  ultimately show ?thesis
    using assms(2) by (simp add: distinct_card)
qed

lemma rank_nth: "sorted_wrt (<) ks \<Longrightarrow> i < length ks \<Longrightarrow> rank ks (ks ! i) = Some i"
  by (simp add: rank_def sorted_nth_card)

lemma rank_Some_iff:
  "sorted_wrt (<) ks \<Longrightarrow> rank ks x = Some i \<longleftrightarrow> i < length ks \<and> ks ! i = x"
  using rank_nth by (fastforce simp: rank_def in_set_conv_nth sorted_nth_card split: if_splits)

lemma prune_remap_correct:
  assumes "\<forall>k \<in> set ks. k < length remap" and "distinct ks" and "index + length ks \<le> Suc u32_max"
  shows "prune_remap ks index remap =
    Some (foldl (\<lambda>r (k, i). r[k := Some i]) remap (zip ks [index..<index + length ks]))"
  using assms
proof (induction ks index remap rule: prune_remap.induct)
  case (2 k ks index remap)
  have "[index..<index + length (k # ks)] = index # [Suc index..<Suc index + length ks]"
    by (simp add: upt_conv_Cons del: upt_Suc)
  moreover have "prune_remap ks (Suc index) (remap[k := Some index]) =
      Some (foldl (\<lambda>r (k, i). r[k := Some i]) (remap[k := Some index])
        (zip ks [Suc index..<Suc index + length ks]))"
    by (rule "2.IH") (use "2.prems" in \<open>auto simp: panic_simps\<close>)
  ultimately show ?case using "2.prems" by (simp add: panic_simps del: upt_Suc)
qed simp

lemma foldl_update_nth:
  assumes "distinct ks" and "length is = length ks" and "\<forall>k \<in> set ks. k < length r"
    and "x < length r"
  shows "foldl (\<lambda>r (k, i). r[k := Some i]) r (zip ks is) ! x =
     (if x \<in> set ks then map_of (zip ks is) x else r ! x)"
  using assms
proof (induction ks arbitrary: "is" r)
  case (Cons k ks)
  then obtain i is' where "is": "is = i # is'" by (cases "is") auto
  show ?case
    using Cons.prems Cons.IH [of is' "r[k := Some i]"] by (auto simp: "is" nth_list_update)
qed simp

lemma length_foldl_update [simp]:
  "length (foldl (\<lambda>r (k, i). r[k := Some i]) r kis) = length r"
  by (induction kis arbitrary: r) auto

lemma remap_is_rank:
  assumes s: "sorted_wrt (<) ks" and b: "\<forall>k \<in> set ks. k < n" and c: "length ks \<le> Suc u32_max"
  shows "prune_remap ks 0 (replicate n None) = Some (map (rank ks) [0..<n])"
proof -
  have d: "distinct ks" using s strict_sorted_iff by blast
  let ?r = "foldl (\<lambda>r (k, i). r[k := Some i]) (replicate n None) (zip ks [0..<length ks])"
  have "?r = map (rank ks) [0..<n]"
  proof (rule nth_equalityI)
    fix x assume "x < length ?r"
    then have x: "x < n" by simp
    have "map_of (zip ks [0..<length ks]) x = rank ks x" if "x \<in> set ks"
    proof -
      from that obtain i where i: "i < length ks" "ks ! i = x" by (auto simp: in_set_conv_nth)
      then have "map_of (zip ks [0..<length ks]) x = Some i"
        using d map_of_zip_nth [of ks "[0..<length ks]" i] by simp
      then show ?thesis using i s by (metis rank_nth)
    qed
    moreover have "rank ks x = None" if "x \<notin> set ks" using that by (simp add: rank_def)
    ultimately show "?r ! x = map (rank ks) [0..<n] ! x"
      using x foldl_update_nth [OF d, of "[0..<length ks]" "replicate n None" x] b by simp
  qed simp
  then show ?thesis
    using prune_remap_correct [of ks "replicate n None" 0] b d c by simp
qed

lemma prune_targets_correct:
  "set ts \<subseteq> {..<n} \<Longrightarrow>
     prune_targets (map f [0..<n]) ts = Some (List.map_filter f ts)"
  by (induction ts) (auto simp: panic_simps List.map_filter_def split: option.splits)

lemma prune_payloads_correct:
  "i + length ps = n \<Longrightarrow> prune_payloads (map f [0..<n]) i ps =
     Some (map (\<lambda>k. ps ! (k - i)) (filter (\<lambda>k. f k \<noteq> None) [i..<n]))"
proof (induction ps arbitrary: i)
  case (Cons p ps)
  have e: "[i..<n] = i # [Suc i..<n]" using Cons.prems by (simp add: upt_conv_Cons)
  have "map (\<lambda>k. ps ! (k - Suc i)) (filter (\<lambda>k. f k \<noteq> None) [Suc i..<n]) =
      map (\<lambda>k. (p # ps) ! (k - i)) (filter (\<lambda>k. f k \<noteq> None) [Suc i..<n])"
    by (rule map_cong) (auto simp: nth_Cons')
  then show ?case
    using Cons.IH [of "Suc i"] Cons.prems by (simp add: panic_simps e del: upt_Suc)
qed simp

lemma rank_filter:
  assumes "sorted_wrt (<) ks" and "\<forall>k \<in> set ks. k < n"
  shows "filter (\<lambda>k. rank ks k \<noteq> None) [0..<n] = ks"
proof (rule sorted_distinct_set_unique)
  show "sorted ks" "distinct ks" using assms(1) strict_sorted_iff by auto
qed (use assms(2) in \<open>auto simp: rank_def intro: sorted_wrt_filter\<close>)

lemma map_filter_rank:
  assumes "sorted_wrt (<) ks" and "distinct ts"
  shows "distinct (List.map_filter (rank ks) ts)"
    and "i \<in> set (List.map_filter (rank ks) ts) \<longleftrightarrow> i < length ks \<and> ks ! i \<in> set ts"
proof -
  show "i \<in> set (List.map_filter (rank ks) ts) \<longleftrightarrow> i < length ks \<and> ks ! i \<in> set ts"
    using rank_Some_iff [OF assms(1)] by (auto simp: mem_map_filter)
  show "distinct (List.map_filter (rank ks) ts)"
    using assms(2)
  proof (induction ts)
    case (Cons t ts)
    then show ?case
      using rank_Some_iff [OF assms(1)] by (auto simp: mem_map_filter split: option.splits)
  qed simp
qed

definition pruned :: "'a cfg \<Rightarrow> 'a cfg" where
  "pruned g = (let ks = kept g in
     \<lparr>payloads = map (\<lambda>k. payloads g ! k) ks,
      succs = map (\<lambda>k. List.map_filter (rank ks) (succs g ! k)) ks,
      preds = map (\<lambda>k. List.map_filter (rank ks) (preds g ! k)) ks,
      cfg_entry = 0, cfg_exit = the (rank ks (cfg_exit g))\<rparr>)"

lemma kept_set:
  assumes wf: "wf_cfg g"
  shows "set (kept g) = insert (cfg_exit g) (live g)"
  unfolding kept_def by (rule set_sorted_list) (simp add: wf)

lemma kept_sorted: "sorted_wrt (<) (kept g)"
  by (simp add: kept_def)

lemma kept_less:
  assumes wf: "wf_cfg g"
  shows "k \<in> set (kept g) \<Longrightarrow> k < node_count g"
  using wf live_less [OF wf] by (auto simp: kept_set [OF wf] wf_basic)

lemma kept_distinct:
  assumes wf: "wf_cfg g"
  shows "distinct (kept g)"
  using kept_sorted [of g] strict_sorted_iff by blast

lemma kept_length:
  assumes wf: "wf_cfg g"
  shows "length (kept g) \<le> node_count g"
proof -
  have "card (set (kept g)) \<le> card {..<node_count g}"
    by (rule card_mono) (auto dest: kept_less [OF wf])
  then show ?thesis using kept_distinct [OF wf] by (simp add: distinct_card)
qed

lemma kept_0:
  assumes wf: "wf_cfg g"
  shows "kept g ! 0 = 0" "kept g \<noteq> []"
proof -
  have "0 \<in> insert (cfg_exit g) (live g)" using live_entry [of g] wf by (simp add: wf_basic)
  then show "kept g ! 0 = 0" "kept g \<noteq> []"
    using sorted_list_0 [of "insert (cfg_exit g) (live g)"] wf by (simp_all add: kept_def)
qed

lemma rank_exit:
  assumes wf: "wf_cfg g"
  shows "rank (kept g) (cfg_exit g) \<noteq> None"
  by (simp add: rank_def kept_set [OF wf])

lemma exit_rank:
  assumes wf: "wf_cfg g"
  obtains e where "rank (kept g) (cfg_exit g) = Some e" and "e < length (kept g)"
    and "kept g ! e = cfg_exit g"
proof -
  obtain e where e: "rank (kept g) (cfg_exit g) = Some e" using rank_exit [OF wf] by auto
  then have "e < length (kept g) \<and> kept g ! e = cfg_exit g"
    using rank_Some_iff [OF kept_sorted [of g]] by blast
  with e that show ?thesis by blast
qed

lemma rank_entry:
  assumes wf: "wf_cfg g"
  shows "rank (kept g) (cfg_entry g) = Some 0"
  using rank_nth [OF kept_sorted [of g], of 0] kept_0 [OF wf] wf by (simp add: wf_basic)

lemma into_reachable_eq:
  assumes wf: "wf_cfg g"
  shows "into_reachable_subgraph g = Some (pruned g)"
proof -
  let ?ks = "kept g" let ?n = "node_count g"
  let ?m = "map (rank ?ks) [0..<?n]"
  have n: "length ?ks \<le> Suc u32_max" using kept_length [OF wf] wf_basic(4) [OF wf] by simp
  have r: "prune_remap ?ks 0 (replicate ?n None) = Some ?m"
    by (rule remap_is_rank) (use kept_sorted [of g] kept_less [OF wf] n in auto)
  have p: "prune_payloads ?m 0 (payloads g) = Some (map (\<lambda>k. payloads g ! k) ?ks)"
    using prune_payloads_correct [of 0 "payloads g" ?n "rank ?ks"]
      rank_filter [OF kept_sorted [of g], of ?n] kept_less [OF wf]
    by (simp add: wf_lengths [OF wf])
  have adj: "traverse (\<lambda>old. do { ss \<leftarrow> idx xss old; prune_targets ?m ss }) ?ks =
      Some (map (\<lambda>k. List.map_filter (rank ?ks) (xss ! k)) ?ks)" if ok: "adj_ok ?n xss" for xss
  proof (rule traverse_Some)
    fix k assume "k \<in> set ?ks"
    then have k: "k < ?n" by (rule kept_less [OF wf])
    then have "set (xss ! k) \<subseteq> {..<?n}" using adj_okD(3) [OF ok k] by auto
    with k show "(do { ss \<leftarrow> idx xss k; prune_targets ?m ss }) =
        Some (List.map_filter (rank ?ks) (xss ! k))"
      by (simp add: panic_simps adj_okD(1) [OF ok] prune_targets_correct)
  qed
  obtain e where e: "rank ?ks (cfg_exit g) = Some e" using rank_exit [OF wf] by auto
  have i: "idx ?m (cfg_entry g) = Some (Some 0)" "idx ?m (cfg_exit g) = Some (Some e)"
    using rank_entry [OF wf] e wf_basic [OF wf] by (simp_all add: panic_simps)
  show ?thesis
    using r p adj [OF wf_adj_ok(1) [OF wf]] adj [OF wf_adj_ok(2) [OF wf]] i e
    by (simp add: into_reachable_subgraph_def prune_impl_def reachable_eq_live [OF wf]
        wf_lengths [OF wf] pruned_def Let_def flip: kept_def)
qed

lemma node_count_pruned:
  assumes wf: "wf_cfg g"
  shows "node_count (pruned g) = length (kept g)"
  by (simp add: pruned_def node_count_def Let_def)

lemma edges_pruned:
  assumes wf: "wf_cfg g"
  shows "(i, j) \<in> edges (pruned g) \<longleftrightarrow>
     i < length (kept g) \<and> j < length (kept g) \<and> (kept g ! i, kept g ! j) \<in> edges g"
  using map_filter_rank(2) [OF kept_sorted [of g] wf_distinct(1) [OF wf], of "kept g ! i" j] kept_less [OF wf]
  by (auto simp: edges_def pruned_def Let_def wf_lengths [OF wf])

lemma wf_pruned:
  assumes wf: "wf_cfg g"
  shows "wf_cfg (pruned g)"
proof (rule wf_cfgI)
  let ?ks = "kept g"
  have ok: "adj_ok (length ?ks) (map (\<lambda>k. List.map_filter (rank ?ks) (xss ! k)) ?ks)"
    if "adj_ok (node_count g) xss" for xss
    using map_filter_rank [OF kept_sorted [of g]] adj_okD(2) [OF that] kept_less [OF wf]
    by (fastforce simp: adj_ok_def)
  show "adj_ok (length (payloads (pruned g))) (succs (pruned g))"
    and "adj_ok (length (payloads (pruned g))) (preds (pruned g))"
    using ok wf_adj_ok [OF wf] by (simp_all add: pruned_def Let_def)
  show "j \<in> set (succs (pruned g) ! i) \<longleftrightarrow> i \<in> set (preds (pruned g) ! j)"
    if "i < length (payloads (pruned g))" "j < length (payloads (pruned g))" for i j
  proof -
    have ij: "i < length ?ks" "j < length ?ks" "?ks ! i < node_count g" "?ks ! j < node_count g"
      using that kept_less [OF wf] by (auto simp: pruned_def Let_def)
    then show ?thesis
      using map_filter_rank(2) [OF kept_sorted [of g] wf_distinct(1) [OF wf ij(3)], of j]
        map_filter_rank(2) [OF kept_sorted [of g] wf_distinct(2) [OF wf ij(4)], of i]
        wf_mirror [OF wf ij(3,4)]
      by (simp add: pruned_def Let_def)
  qed
  show "length (payloads (pruned g)) \<le> u32_max"
    using kept_length [OF wf] wf_basic(4) [OF wf] by (simp add: pruned_def Let_def)
  show "cfg_exit (pruned g) < length (payloads (pruned g))"
    by (rule exit_rank [OF wf]) (simp add: pruned_def Let_def)
qed (use kept_0 [OF wf] in \<open>auto simp: pruned_def Let_def\<close>)

lemma exit_pruned:
  assumes wf: "wf_cfg g"
  shows "kept g ! cfg_exit (pruned g) = cfg_exit g"
  by (rule exit_rank [OF wf]) (simp add: pruned_def Let_def)

lemma live_pruned:
  assumes wf: "wf_cfg g" and lt: "i < length (kept g)"
  shows "i \<in> live (pruned g) \<longleftrightarrow> kept g ! i \<in> live g"
proof
  have e: "cfg_entry (pruned g) = 0" by (simp add: pruned_def Let_def)
  assume "i \<in> live (pruned g)"
  then have "(0, i) \<in> (edges (pruned g))\<^sup>*" by (simp add: live_def e)
  then show "kept g ! i \<in> live g"
  proof (induction rule: rtrancl_induct)
    case base
    show ?case using kept_0 [OF wf] live_entry [of g] wf by (simp add: wf_basic)
  next
    case (step y z)
    then show ?case using edges_pruned [OF wf] live_step by blast
  qed
next
  have e: "cfg_entry (pruned g) = 0" by (simp add: pruned_def Let_def)
  assume "kept g ! i \<in> live g"
  then have "(cfg_entry g, kept g ! i) \<in> (edges g)\<^sup>*" by (simp add: live_def)
  then have "\<forall>i < length (kept g). kept g ! i = b \<longrightarrow> i \<in> live (pruned g)"
    if "b = kept g ! i" for b
    using that
  proof (induction "kept g ! i" arbitrary: i b rule: rtrancl_induct)
    case base
    then show ?case
      using kept_0 [OF wf] wf kept_distinct [OF wf] live_entry [of "pruned g"] e
      by (metis length_greater_0_conv nth_eq_iff_index_eq wf_basic(1))
  next
    case (step y)
    have "y \<in> live g" using step.hyps(1) by (simp add: live_def)
    then obtain k where k: "k < length (kept g)" "kept g ! k = y"
      using kept_set [OF wf] by (metis in_set_conv_nth insertI2)
    then have "k \<in> live (pruned g)" using step.hyps(3) by auto
    then show ?case using edges_pruned [OF wf] k step.hyps(2) step.prems live_step by metis
  qed
  then show "i \<in> live (pruned g)" using lt by blast
qed

subsection \<open>Properties\<close>

text \<open>\<open>Cfg::reachable_from_entry\<close> returns, for every well-formed graph and without a
  panic, exactly the blocks the entry reaches along edges.\<close>

theorem reachable_from_entry_correct:
  assumes "wf_cfg g"
  shows "reachable_from_entry g = Some {b. (cfg_entry g, b) \<in> (edges g)\<^sup>*}"
  using reachable_eq_live [OF assms] by (simp add: live_def Image_def)

theorem reachable_from_entry_correct_witness:
  "reachable_from_entry sample_cfg = Some {b. (0, b) \<in> (edges sample_cfg)\<^sup>*}"
  using reachable_from_entry_correct [OF wf_sample] by (simp add: wf_basic(1) [OF wf_sample])

text \<open>C32: \<open>Cfg::into_reachable_subgraph\<close> returns a well-formed graph on the reachable blocks
  and the exit, renumbered in increasing order of the old ids: block \<open>i\<close> of the result carries
  the payload of the \<open>i\<close>-th kept block, its edges are exactly the old edges between kept
  blocks, entry and exit are the old ones, and the same blocks are reachable.\<close>

theorem into_reachable_subgraph_isomorphic:
  assumes wf: "wf_cfg g"
  shows "\<exists>g' ks. into_reachable_subgraph g = Some g' \<and>
    ks = sorted_list_of_set (insert (cfg_exit g) {b. (cfg_entry g, b) \<in> (edges g)\<^sup>*}) \<and>
    wf_cfg g' \<and> payloads g' = map (\<lambda>k. payloads g ! k) ks \<and>
    edges g' = {(i, j). i < length ks \<and> j < length ks \<and> (ks ! i, ks ! j) \<in> edges g} \<and>
    ks ! cfg_entry g' = cfg_entry g \<and> ks ! cfg_exit g' = cfg_exit g \<and>
    (\<forall>i < length ks. (cfg_entry g', i) \<in> (edges g')\<^sup>* \<longleftrightarrow> (cfg_entry g, ks ! i) \<in> (edges g)\<^sup>*)"
proof (intro exI conjI)
  have k: "kept g = sorted_list_of_set (insert (cfg_exit g) {b. (cfg_entry g, b) \<in> (edges g)\<^sup>*})"
    by (simp add: kept_def live_def Image_def)
  show "into_reachable_subgraph g = Some (pruned g)" by (rule into_reachable_eq [OF wf])
  show "kept g = sorted_list_of_set (insert (cfg_exit g) {b. (cfg_entry g, b) \<in> (edges g)\<^sup>*})"
    by (rule k)
  show "wf_cfg (pruned g)" by (rule wf_pruned [OF wf])
  show "payloads (pruned g) = map (\<lambda>k. payloads g ! k) (kept g)" by (simp add: pruned_def Let_def)
  show "edges (pruned g) = {(i, j). i < length (kept g) \<and> j < length (kept g) \<and>
      (kept g ! i, kept g ! j) \<in> edges g}"
    using edges_pruned [OF wf] by auto
  show "kept g ! cfg_entry (pruned g) = cfg_entry g"
    using sorted_list_0 [of "insert (cfg_exit g) (live g)"] live_entry [of g] wf_basic(1) [OF wf] wf
    by (simp add: pruned_def Let_def kept_def)
  show "kept g ! cfg_exit (pruned g) = cfg_exit g" by (rule exit_pruned [OF wf])
  show "\<forall>i < length (kept g). (cfg_entry (pruned g), i) \<in> (edges (pruned g))\<^sup>* \<longleftrightarrow>
      (cfg_entry g, kept g ! i) \<in> (edges g)\<^sup>*"
    using live_pruned [OF wf] by (simp add: live_def)
qed

theorem into_reachable_subgraph_isomorphic_witness:
  "\<exists>g'. into_reachable_subgraph sample_cfg = Some g' \<and> wf_cfg g'"
  using into_reachable_subgraph_isomorphic [OF wf_sample] by blast

end
