(* ===== verification/CfgDfs.thy ===== *)
theory CfgDfs
  imports CfgReach
begin

text \<open>
  The iterative depth-first search with explicit frames that both
  \<open>Cfg::append_finish_order\<close> (for strongly connected components) and
  \<open>Cfg::reverse_post_order_from_entry\<close> (for dominators) run, and the laws of the finishing
  order it produces. The two source loops are the same statement by statement, so both are the
  model's \<open>dfs_loop\<close>.
\<close>

subsection \<open>The loop\<close>

type_synonym frame = "block_id \<times> nat"

definition frame_work :: "block_id list list \<Rightarrow> frame list \<Rightarrow> nat" where
  "frame_work adj stack = sum_list (map (\<lambda>(b, k). Suc (length (adj ! b) - k)) stack)"

text \<open>
  The head of \<open>stack\<close> is \<open>stack.last_mut()\<close>; \<open>order\<close> grows at its end, as
  \<open>order.push\<close> does.
\<close>

function dfs_loop :: "block_id list list \<Rightarrow> bool list \<Rightarrow> frame list \<Rightarrow> block_id list
    \<Rightarrow> (bool list \<times> block_id list) option" where
  "dfs_loop adj visited [] order = Some (visited, order)"
| "dfs_loop adj visited ((b, k) # stack) order =
     (case idx adj b of
        None \<Rightarrow> None
      | Some ss \<Rightarrow>
          (if k < length ss then
             (case idx visited (ss ! k) of
                None \<Rightarrow> None
              | Some v \<Rightarrow>
                  (if \<not> v then
                     dfs_loop adj (visited[ss ! k := True]) ((ss ! k, 0) # (b, Suc k) # stack) order
                   else dfs_loop adj visited ((b, Suc k) # stack) order))
           else dfs_loop adj visited stack (order @ [b])))"
  by pat_completeness auto
termination
  by (relation "measures [\<lambda>(adj, visited, stack, order). unset visited,
        \<lambda>(adj, visited, stack, order). frame_work adj stack]")
    (auto simp: panic_iffs frame_work_def)

declare dfs_loop.simps(2) [simp del]

definition append_finish_order :: "'a cfg \<Rightarrow> block_id \<Rightarrow> bool list \<Rightarrow> block_id list
    \<Rightarrow> (bool list \<times> block_id list) option" where
  "append_finish_order g start visited finish_order = do {
     visited' \<leftarrow> upd visited start True;
     dfs_loop (succs g) visited' [(start, 0)] finish_order
   }"

fun finish_order_from :: "'a cfg \<Rightarrow> block_id list \<Rightarrow> bool list \<Rightarrow> block_id list
    \<Rightarrow> block_id list option" where
  "finish_order_from g [] visited finish_order = Some finish_order"
| "finish_order_from g (start # starts) visited finish_order = do {
     v \<leftarrow> idx visited start;
     (if \<not> v then do {
        (visited', finish_order') \<leftarrow> append_finish_order g start visited finish_order;
        finish_order_from g starts visited' finish_order'
      } else finish_order_from g starts visited finish_order)
   }"

definition scc_finish_order :: "'a cfg \<Rightarrow> block_id list option" where
  "scc_finish_order g = do {
     bs \<leftarrow> blocks g;
     finish_order_from g bs (replicate (length (payloads g)) False) []
   }"

definition reverse_post_order_from_entry :: "'a cfg \<Rightarrow> block_id list option" where
  "reverse_post_order_from_entry g = do {
     visited \<leftarrow> upd (replicate (length (payloads g)) False) (cfg_entry g) True;
     (_, order) \<leftarrow> dfs_loop (succs g) visited [(cfg_entry g, 0)] [];
     Some (rev order)
   }"

text \<open>Flags are never cleared.\<close>

lemma dfs_loop_visited:
  "dfs_loop adj visited stack order = Some (visited', order') \<Longrightarrow>
     i < length visited \<Longrightarrow> visited ! i \<Longrightarrow> i < length visited' \<and> visited' ! i"
proof (induction adj visited stack order rule: dfs_loop.induct)
  case (2 adj visited b k stack order)
  note step = "2.prems"(1) [simplified dfs_loop.simps(2) [of adj visited b k stack order]]
  show ?case
  proof (cases "idx adj b")
    case None
    then show ?thesis using step by simp
  next
    case (Some ss)
    show ?thesis
    proof (cases "k < length ss")
      case False
      with Some step "2.IH"(3) "2.prems"(2,3) show ?thesis by auto
    next
      case k: True
      then obtain v where v: "idx visited (ss ! k) = Some v"
        using Some step by (cases "idx visited (ss ! k)") auto
      have "visited[ss ! k := True] ! i" using "2.prems"(2,3) by (cases "ss ! k = i") auto
      then show ?thesis
        using "2.IH"(1,2) [OF Some k v] Some k v step "2.prems"(2,3)
        by (cases v) auto
    qed
  qed
qed simp

text \<open>The bottom frame finishes last.\<close>

lemma dfs_loop_bottom:
  "dfs_loop adj visited stack order = Some (visited', order') \<Longrightarrow> stack \<noteq> [] \<Longrightarrow>
     order' \<noteq> [] \<and> last order' = fst (last stack)"
proof (induction adj visited stack order rule: dfs_loop.induct)
  case (2 adj visited b k stack order)
  note step = "2.prems"(1) [simplified dfs_loop.simps(2) [of adj visited b k stack order]]
  show ?case
  proof (cases "idx adj b")
    case None
    then show ?thesis using step by simp
  next
    case (Some ss)
    show ?thesis
    proof (cases "k < length ss")
      case False
      with Some step "2.IH"(3) show ?thesis by (cases stack) auto
    next
      case k: True
      then obtain v where v: "idx visited (ss ! k) = Some v"
        using Some step by (cases "idx visited (ss ! k)") auto
      then show ?thesis
        using "2.IH"(1,2) [OF Some k v] Some k v step by (cases v) (auto split: if_splits)
    qed
  qed
qed simp

subsection \<open>The invariant of the search\<close>

text \<open>
  \<open>finish_law\<close>: when a block \<open>a\<close> has finished, each of its successors \<open>b\<close> finished
  before it, or reaches everything that finished from \<open>a\<close> up to \<open>b\<close>, or is still on the
  stack and reaches everything that finished since \<open>a\<close>.
\<close>

definition finish_law ::
  "(nat \<times> nat) set \<Rightarrow> nat list \<Rightarrow> nat list \<Rightarrow> nat \<Rightarrow> nat \<Rightarrow> bool" where
  "finish_law R order st a b \<longleftrightarrow> (\<exists>xs ys. order = xs @ a # ys \<and>
     (b \<in> set (xs @ [a]) \<or>
      (\<exists>ys1 ys2. ys = ys1 @ b # ys2 \<and> (\<forall>x \<in> set (a # ys1). (b, x) \<in> R\<^sup>*)) \<or>
      (b \<in> set st \<and> (\<forall>x \<in> set (a # ys). (b, x) \<in> R\<^sup>*))))"

text \<open>\<open>parent_law\<close>: every finished block but the root has a predecessor that finishes later.\<close>

definition parent_law ::
  "(nat \<times> nat) set \<Rightarrow> nat set \<Rightarrow> nat list \<Rightarrow> nat list \<Rightarrow> nat \<Rightarrow> bool" where
  "parent_law R roots order st b \<longleftrightarrow> b \<in> roots \<or>
     (\<exists>p. (p, b) \<in> R \<and> (p \<in> set st \<or> (\<exists>xs ys. order = xs @ b # ys \<and> p \<in> set ys)))"

definition dfs_inv :: "nat list list \<Rightarrow> nat set \<Rightarrow> bool list \<Rightarrow> frame list \<Rightarrow> nat list \<Rightarrow> bool" where
  "dfs_inv adj roots visited stack order \<longleftrightarrow>
     adj_ok (length visited) adj \<and>
     distinct (map fst stack @ order) \<and>
     flagged visited = set (map fst stack @ order) \<and>
     (\<forall>(b, k) \<in> set stack. \<forall>i < min k (length (adj ! b)). adj ! b ! i \<in> flagged visited) \<and>
     successively (\<lambda>x y. (y, x) \<in> adj_rel adj) (map fst stack) \<and>
     (stack \<noteq> [] \<longrightarrow> last (map fst stack) \<in> roots) \<and>
     flagged visited \<subseteq> (adj_rel adj)\<^sup>* `` roots \<and>
     (\<forall>a \<in> set order. \<forall>b. (a, b) \<in> adj_rel adj \<longrightarrow>
        finish_law (adj_rel adj) order (map fst stack) a b) \<and>
     (\<forall>b \<in> set order. parent_law (adj_rel adj) roots order (map fst stack) b)"

lemma successively_reach:
  assumes "successively (\<lambda>x y. (y, x) \<in> R) (x # xs)" and "b \<in> set (x # xs)"
  shows "(b, x) \<in> R\<^sup>*"
  using assms
proof (induction xs arbitrary: x)
  case (Cons y ys)
  then show ?case
    by (cases "b = x") (auto intro: rtrancl_into_rtrancl)
qed auto

lemma finish_law_mono:
  "finish_law R order st a b \<Longrightarrow> set st \<subseteq> set st' \<Longrightarrow> finish_law R order st' a b"
  unfolding finish_law_def by (elim exE conjE, intro exI conjI, assumption) auto

lemma parent_law_mono:
  "parent_law R roots order st b \<Longrightarrow> set st \<subseteq> set st' \<Longrightarrow> parent_law R roots order st' b"
  unfolding parent_law_def by auto

lemma finish_law_pop:
  assumes law: "finish_law R order (t # st) a b"
    and chain: "successively (\<lambda>x y. (y, x) \<in> R) (t # st)"
  shows "finish_law R (order @ [t]) st a b"
proof -
  from law obtain xs ys where o: "order = xs @ a # ys"
    and c: "b \<in> set (xs @ [a]) \<or>
      (\<exists>ys1 ys2. ys = ys1 @ b # ys2 \<and> (\<forall>x \<in> set (a # ys1). (b, x) \<in> R\<^sup>*)) \<or>
      (b \<in> set (t # st) \<and> (\<forall>x \<in> set (a # ys). (b, x) \<in> R\<^sup>*))"
    unfolding finish_law_def by blast
  have "b \<in> set (xs @ [a]) \<or>
      (\<exists>ys1 ys2. ys @ [t] = ys1 @ b # ys2 \<and> (\<forall>x \<in> set (a # ys1). (b, x) \<in> R\<^sup>*)) \<or>
      (b \<in> set st \<and> (\<forall>x \<in> set (a # ys @ [t]). (b, x) \<in> R\<^sup>*))"
    using c
  proof (elim disjE exE conjE)
    fix ys1 ys2 assume "ys = ys1 @ b # ys2" and "\<forall>x \<in> set (a # ys1). (b, x) \<in> R\<^sup>*"
    then have "ys @ [t] = ys1 @ b # (ys2 @ [t]) \<and> (\<forall>x \<in> set (a # ys1). (b, x) \<in> R\<^sup>*)" by simp
    then show ?thesis by blast
  next
    assume "b \<in> set (t # st)" and r: "\<forall>x \<in> set (a # ys). (b, x) \<in> R\<^sup>*"
    moreover from this have "(b, t) \<in> R\<^sup>*" using successively_reach [OF chain] by blast
    ultimately show ?thesis by auto
  qed simp
  with o show ?thesis unfolding finish_law_def by (intro exI [of _ xs] exI [of _ "ys @ [t]"]) simp
qed

lemma parent_law_pop:
  assumes "parent_law R roots order (t # st) b" and "b \<in> set order"
  shows "parent_law R roots (order @ [t]) st b"
proof (cases "b \<in> roots")
  case True
  then show ?thesis by (simp add: parent_law_def)
next
  case False
  then obtain p where e: "(p, b) \<in> R"
    and p: "p = t \<or> p \<in> set st \<or> (\<exists>xs ys. order = xs @ b # ys \<and> p \<in> set ys)"
    using assms(1) by (auto simp: parent_law_def)
  have "p \<in> set st \<or> (\<exists>xs ys. order @ [t] = xs @ b # ys \<and> p \<in> set ys)"
    using p
  proof (elim disjE exE conjE)
    assume "p = t"
    moreover from assms(2) obtain xs ys where "order = xs @ b # ys" by (meson split_list)
    ultimately have "order @ [t] = xs @ b # (ys @ [t]) \<and> p \<in> set (ys @ [t])" by simp
    then show ?thesis by blast
  next
    fix xs ys assume "order = xs @ b # ys" and "p \<in> set ys"
    then have "order @ [t] = xs @ b # (ys @ [t]) \<and> p \<in> set (ys @ [t])" by simp
    then show ?thesis by blast
  qed simp
  with e show ?thesis unfolding parent_law_def by blast
qed

lemma dfs_invI:
  assumes "adj_ok (length visited) adj" and "distinct (map fst stack @ order)"
    and "flagged visited = set (map fst stack @ order)"
    and "\<And>b k i. (b, k) \<in> set stack \<Longrightarrow> i < k \<Longrightarrow> i < length (adj ! b) \<Longrightarrow> adj ! b ! i \<in> flagged visited"
    and "successively (\<lambda>x y. (y, x) \<in> adj_rel adj) (map fst stack)"
    and "stack \<noteq> [] \<Longrightarrow> last (map fst stack) \<in> roots"
    and "flagged visited \<subseteq> (adj_rel adj)\<^sup>* `` roots"
    and "\<And>a b. a \<in> set order \<Longrightarrow> (a, b) \<in> adj_rel adj \<Longrightarrow>
        finish_law (adj_rel adj) order (map fst stack) a b"
    and "\<And>b. b \<in> set order \<Longrightarrow> parent_law (adj_rel adj) roots order (map fst stack) b"
  shows "dfs_inv adj roots visited stack order"
proof -
  have "\<forall>(b, k) \<in> set stack. \<forall>i < min k (length (adj ! b)). adj ! b ! i \<in> flagged visited"
    using assms(4) by auto
  with assms(1-3,5-9) show ?thesis unfolding dfs_inv_def by blast
qed

lemma dfs_invD:
  assumes "dfs_inv adj roots visited stack order"
  shows "adj_ok (length visited) adj" and "distinct (map fst stack @ order)"
    and "flagged visited = set (map fst stack @ order)"
    and "\<And>b k i. (b, k) \<in> set stack \<Longrightarrow> i < k \<Longrightarrow> i < length (adj ! b) \<Longrightarrow> adj ! b ! i \<in> flagged visited"
    and "successively (\<lambda>x y. (y, x) \<in> adj_rel adj) (map fst stack)"
    and "stack \<noteq> [] \<Longrightarrow> last (map fst stack) \<in> roots"
    and "flagged visited \<subseteq> (adj_rel adj)\<^sup>* `` roots"
    and "\<And>a b. a \<in> set order \<Longrightarrow> (a, b) \<in> adj_rel adj \<Longrightarrow>
        finish_law (adj_rel adj) order (map fst stack) a b"
    and "\<And>b. b \<in> set order \<Longrightarrow> parent_law (adj_rel adj) roots order (map fst stack) b"
  using assms unfolding dfs_inv_def by (auto split: prod.splits)

subsection \<open>Every iteration keeps the invariant\<close>

lemma dfs_inv_push:
  assumes inv: "dfs_inv adj roots visited ((b, k) # stack) order"
    and k: "k < length (adj ! b)" and new: "\<not> visited ! (adj ! b ! k)"
  shows "dfs_inv adj roots (visited[adj ! b ! k := True])
           ((adj ! b ! k, 0) # (b, Suc k) # stack) order"
proof -
  note D = dfs_invD [OF inv]
  let ?c = "adj ! b ! k"
  have bl: "b < length visited" using D(3) flagged_less [of b visited] by simp
  have c: "?c < length visited" using adj_okD(3) [OF D(1) bl] k by simp
  have e: "(b, ?c) \<in> adj_rel adj"
    using bl k adj_okD(1) [OF D(1)] by (simp add: adj_rel_def)
  have cn: "?c \<notin> flagged visited" using new by (simp add: flagged_def)
  have fl: "flagged (visited[?c := True]) = insert ?c (flagged visited)" using c by simp
  have "b \<in> (adj_rel adj)\<^sup>* `` roots" using D(3,7) by auto
  with e have rc: "?c \<in> (adj_rel adj)\<^sup>* `` roots" by (meson Image_iff rtrancl_into_rtrancl)
  show ?thesis
  proof (rule dfs_invI)
    show "adj_ok (length (visited[?c := True])) adj" using D(1) by simp
    show "distinct (map fst ((?c, 0) # (b, Suc k) # stack) @ order)" using D(2,3) cn by auto
    show "flagged (visited[?c := True]) = set (map fst ((?c, 0) # (b, Suc k) # stack) @ order)"
      using fl D(3) by auto
    show "adj ! x ! i \<in> flagged (visited[?c := True])"
      if xm: "(x, m) \<in> set ((?c, 0) # (b, Suc k) # stack)" "i < m" and "i < length (adj ! x)"
      for x m i
    proof -
      consider "x = b" "i = k" | "x = b" "i < k" | "(x, m) \<in> set stack"
        using xm by (auto simp: less_Suc_eq)
      then have "adj ! x ! i = ?c \<or> adj ! x ! i \<in> flagged visited"
        by cases (use that D(4) [of x m i] D(4) [of b k i] in simp_all)
      then show ?thesis unfolding fl by blast
    qed
    show "successively (\<lambda>x y. (y, x) \<in> adj_rel adj) (map fst ((?c, 0) # (b, Suc k) # stack))"
      using D(5) e by simp
    show "last (map fst ((?c, 0) # (b, Suc k) # stack)) \<in> roots" using D(6) by auto
    show "flagged (visited[?c := True]) \<subseteq> (adj_rel adj)\<^sup>* `` roots"
      unfolding fl insert_subset using D(7) rc by (intro conjI)
    show "finish_law (adj_rel adj) order (map fst ((?c, 0) # (b, Suc k) # stack)) a d"
      if "a \<in> set order" "(a, d) \<in> adj_rel adj" for a d
      using D(8) [OF that] by (rule finish_law_mono) auto
    show "parent_law (adj_rel adj) roots order (map fst ((?c, 0) # (b, Suc k) # stack)) d"
      if "d \<in> set order" for d
      using D(9) [OF that] by (rule parent_law_mono) auto
  qed
qed

lemma dfs_inv_skip:
  assumes inv: "dfs_inv adj roots visited ((b, k) # stack) order"
    and k: "k < length (adj ! b)" and old: "visited ! (adj ! b ! k)"
  shows "dfs_inv adj roots visited ((b, Suc k) # stack) order"
proof -
  note D = dfs_invD [OF inv]
  have bl: "b < length visited" using D(3) flagged_less [of b visited] by simp
  have c: "adj ! b ! k \<in> flagged visited"
    using adj_okD(3) [OF D(1) bl] k old by (simp add: flagged_def)
  show ?thesis
  proof (rule dfs_invI)
    show "adj ! x ! i \<in> flagged visited"
      if "(x, m) \<in> set ((b, Suc k) # stack)" "i < m" "i < length (adj ! x)" for x m i
      using that D(4) [of x m i] D(4) [of b k i] c by (auto simp: less_Suc_eq)
  qed (use D(1-3) D(5-9) in simp_all)
qed

lemma dfs_inv_pop:
  assumes inv: "dfs_inv adj roots visited ((b, k) # stack) order"
    and k: "\<not> k < length (adj ! b)"
  shows "dfs_inv adj roots visited stack (order @ [b])"
proof -
  note D = dfs_invD [OF inv]
  let ?st = "map fst stack"
  have chain: "successively (\<lambda>x y. (y, x) \<in> adj_rel adj) (b # ?st)" using D(5) by simp
  have bn: "b \<notin> set order" using D(2) by auto
  show ?thesis
  proof (rule dfs_invI)
    show "successively (\<lambda>x y. (y, x) \<in> adj_rel adj) ?st" using D(5) by (cases stack) auto
    show "last ?st \<in> roots" if "stack \<noteq> []" using D(6) that by auto
    show "finish_law (adj_rel adj) (order @ [b]) ?st a d"
      if "a \<in> set (order @ [b])" "(a, d) \<in> adj_rel adj" for a d
    proof (cases "a = b")
      case True
      from that(2) True obtain i where i: "i < length (adj ! b)" "d = adj ! b ! i"
        by (auto simp: adj_rel_def in_set_conv_nth)
      then have "d \<in> flagged visited" using D(4) [of b k i] k by auto
      then consider "d \<in> set (order @ [b])" | "d \<in> set ?st" using D(3) by auto
      then show ?thesis
      proof cases
        case 1
        then show ?thesis
          unfolding finish_law_def True by (intro exI [of _ order] exI [of _ "[]"]) simp
      next
        case 2
        then have "(d, b) \<in> (adj_rel adj)\<^sup>*" using successively_reach [OF chain, of d] by simp
        with 2 show ?thesis
          unfolding finish_law_def True by (intro exI [of _ order] exI [of _ "[]"]) simp
      qed
    next
      case False
      with that have "finish_law (adj_rel adj) order (b # ?st) a d" using D(8) by simp
      then show ?thesis by (rule finish_law_pop [OF _ chain])
    qed
    show "parent_law (adj_rel adj) roots (order @ [b]) ?st d" if "d \<in> set (order @ [b])" for d
    proof (cases "d = b")
      case True
      show ?thesis
      proof (cases ?st)
        case Nil
        then show ?thesis using D(6) True by (simp add: parent_law_def)
      next
        case (Cons p ps)
        then show ?thesis using chain True by (auto simp: parent_law_def)
      qed
    next
      case False
      with that have "d \<in> set order" by simp
      then show ?thesis using D(9) [of d] by (intro parent_law_pop) simp_all
    qed
    show "adj ! x ! i \<in> flagged visited"
      if "(x, m) \<in> set stack" "i < m" "i < length (adj ! x)" for x m i
      using that D(4) [of x m i] by simp
    show "distinct (map fst stack @ order @ [b])" using D(2) bn by auto
    show "flagged visited = set (map fst stack @ order @ [b])" using D(3) by simp
  qed (use D(1) D(7) in simp_all)
qed

lemma dfs_loop_inv:
  assumes "dfs_inv adj roots visited stack order"
  shows "\<exists>visited' order'. dfs_loop adj visited stack order = Some (visited', order @ order') \<and>
     length visited' = length visited \<and> dfs_inv adj roots visited' [] (order @ order')"
  using assms
proof (induction adj visited stack order rule: dfs_loop.induct)
  case (1 adj visited order)
  then show ?case by (intro exI [of _ visited] exI [of _ "[]"]) simp
next
  case (2 adj visited b k stack order)
  note D = dfs_invD [OF "2.prems"]
  have bl: "b < length visited" using D(3) flagged_less [of b visited] by simp
  then have i: "idx adj b = Some (adj ! b)" using adj_okD(1) [OF D(1)] by (simp add: panic_simps)
  show ?case
  proof (cases "k < length (adj ! b)")
    case True
    then have c: "idx visited (adj ! b ! k) = Some (visited ! (adj ! b ! k))"
      using adj_okD(3) [OF D(1) bl] by (simp add: panic_simps)
    show ?thesis
    proof (cases "visited ! (adj ! b ! k)")
      case vis: True
      then show ?thesis
        using "2.IH"(2) [OF i True c _ dfs_inv_skip [OF "2.prems" True vis]] i c True
        by (simp add: dfs_loop.simps(2) [of adj visited b k stack order])
    next
      case vis: False
      then show ?thesis
        using "2.IH"(1) [OF i True c vis dfs_inv_push [OF "2.prems" True vis]] i c True
        by (simp add: dfs_loop.simps(2) [of adj visited b k stack order])
    qed
  next
    case False
    from "2.IH"(3) [OF i False dfs_inv_pop [OF "2.prems" False]] obtain visited' order' where
      "dfs_loop adj visited stack (order @ [b]) = Some (visited', (order @ [b]) @ order')"
      "length visited' = length visited" "dfs_inv adj roots visited' [] ((order @ [b]) @ order')"
      by blast
    then show ?thesis
      using i False by (intro exI [of _ visited'] exI [of _ "b # order'"])
        (simp add: dfs_loop.simps(2) [of adj visited b k stack order])
  qed
qed

subsection \<open>Searches from the empty state and from a further root\<close>

lemma dfs_inv_empty: "adj_ok n adj \<Longrightarrow> dfs_inv adj {} (replicate n False) [] []"
  by (rule dfs_invI) auto

lemma parent_law_roots:
  "parent_law R roots order st b \<Longrightarrow> roots \<subseteq> roots' \<Longrightarrow> parent_law R roots' order st b"
  unfolding parent_law_def by blast

lemma dfs_inv_root:
  assumes inv: "dfs_inv adj roots visited [] order"
    and r: "r < length visited" and new: "\<not> visited ! r"
  shows "dfs_inv adj (insert r roots) (visited[r := True]) [(r, 0)] order"
proof -
  note D = dfs_invD [OF inv]
  have rn: "r \<notin> flagged visited" using new by (simp add: flagged_def)
  have fl: "flagged (visited[r := True]) = insert r (flagged visited)" using r by simp
  show ?thesis
  proof (rule dfs_invI)
    show "flagged (visited[r := True]) \<subseteq> (adj_rel adj)\<^sup>* `` insert r roots"
      unfolding fl using D(7) by auto
    show "finish_law (adj_rel adj) order (map fst [(r, 0)]) a b"
      if "a \<in> set order" "(a, b) \<in> adj_rel adj" for a b
      using D(8) [OF that] by (rule finish_law_mono) simp
    show "parent_law (adj_rel adj) (insert r roots) order (map fst [(r, 0)]) b"
      if "b \<in> set order" for b
    proof -
      have "parent_law (adj_rel adj) roots order [] b" using D(9) [OF that] by simp
      then have "parent_law (adj_rel adj) roots order (map fst [(r, 0)]) b"
        by (rule parent_law_mono) simp
      then show ?thesis by (rule parent_law_roots) blast
    qed
    show "flagged (visited[r := True]) = set (map fst [(r, 0)] @ order)"
      unfolding fl using D(3) by simp
  qed (use D(1-3) rn in auto)
qed

lemma append_finish_order_inv:
  assumes inv: "dfs_inv (succs g) roots visited [] order"
    and r: "r < length visited" and new: "\<not> visited ! r"
  obtains visited' order' where
    "append_finish_order g r visited order = Some (visited', order @ order')"
    and "length visited' = length visited"
    and "dfs_inv (succs g) (insert r roots) visited' [] (order @ order')" and "r \<in> set (order @ order')"
proof -
  from dfs_loop_inv [OF dfs_inv_root [OF assms]] obtain visited' order' where l:
    "dfs_loop (succs g) (visited[r := True]) [(r, 0)] order = Some (visited', order @ order')"
    "length visited' = length visited" "dfs_inv (succs g) (insert r roots) visited' [] (order @ order')"
    by auto
  have u: "upd visited r True = Some (visited[r := True])" using r by (simp add: panic_simps)
  have e: "append_finish_order g r visited order = Some (visited', order @ order')"
    by (simp add: append_finish_order_def u l(1))
  show ?thesis
  proof (rule that [OF e l(2,3)])
    have "visited' ! r"
      using dfs_loop_visited [OF l(1), of r] r by simp
    then show "r \<in> set (order @ order')"
      using dfs_invD(3) [OF l(3)] l(2) r by (auto simp: flagged_def)
  qed
qed

lemma finish_order_from_inv:
  assumes "dfs_inv (succs g) roots visited [] order" and "set starts \<subseteq> {..<length visited}"
  shows "\<exists>roots' order' visited'. finish_order_from g starts visited order = Some order' \<and>
     dfs_inv (succs g) roots' visited' [] order' \<and> length visited' = length visited \<and>
     set order \<union> set starts \<subseteq> set order'"
  using assms
proof (induction starts arbitrary: roots visited order)
  case Nil
  then show ?case by auto
next
  case (Cons r starts)
  then have r: "r < length visited" by simp
  then have i: "idx visited r = Some (visited ! r)" by (simp add: panic_simps)
  show ?case
  proof (cases "visited ! r")
    case True
    then have "r \<in> set order" using dfs_invD(3) [OF Cons.prems(1)] r by (auto simp: flagged_def)
    moreover from Cons.IH [OF Cons.prems(1)] Cons.prems(2) obtain roots' order' visited' where
      "finish_order_from g starts visited order = Some order'"
      "dfs_inv (succs g) roots' visited' [] order'" "length visited' = length visited"
      "set order \<union> set starts \<subseteq> set order'" by auto
    ultimately show ?thesis using i True by auto
  next
    case False
    obtain visited' order' where a:
      "append_finish_order g r visited order = Some (visited', order @ order')"
      "length visited' = length visited"
      "dfs_inv (succs g) (insert r roots) visited' [] (order @ order')" "r \<in> set (order @ order')"
      by (rule append_finish_order_inv [OF Cons.prems(1) r False])
    from Cons.IH [OF a(3)] Cons.prems(2) a(2) obtain roots'' order'' visited'' where
      "finish_order_from g starts visited' (order @ order') = Some order''"
      "dfs_inv (succs g) roots'' visited'' [] order''" "length visited'' = length visited"
      "set (order @ order') \<union> set starts \<subseteq> set order''" by auto
    then show ?thesis using i False a by auto
  qed
qed

subsection \<open>The finishing orders and their laws\<close>

text \<open>
  What a client of a finishing order relies on: the order is duplicate-free, closed under edges,
  and satisfies \<open>finish_law\<close> with an empty stack. The strongly connected components and the
  dominators are proved from these laws alone.
\<close>

locale finishing =
  fixes ok :: "'g \<Rightarrow> bool"
    and rel :: "'g \<Rightarrow> (nat \<times> nat) set"
    and order :: "'g \<Rightarrow> nat list"
  assumes order_distinct: "ok g \<Longrightarrow> distinct (order g)"
    and order_law: "ok g \<Longrightarrow> a \<in> set (order g) \<Longrightarrow> (a, b) \<in> rel g \<Longrightarrow>
      finish_law (rel g) (order g) [] a b"
begin

lemma order_closed:
  assumes "ok g" and "a \<in> set (order g)" and "(a, b) \<in> (rel g)\<^sup>*"
  shows "b \<in> set (order g)"
  using assms(3,2)
proof (induction rule: rtrancl_induct)
  case (step y z)
  then have "finish_law (rel g) (order g) [] y z" using order_law assms(1) by blast
  then show ?case by (auto simp: finish_law_def)
qed

text \<open>
  Some block of the strongly connected component of \<open>v\<close> finishes no earlier than anything
  \<open>v\<close> reaches.
\<close>

lemma component_finishes_last:
  assumes ok: "ok g" and v: "v \<in> set (order g)" and path: "(v, w) \<in> (rel g)\<^sup>*"
  shows "\<exists>u xs ys. (v, u) \<in> (rel g)\<^sup>* \<and> (u, v) \<in> (rel g)\<^sup>* \<and> order g = xs @ w # ys \<and>
    u \<in> set (w # ys)"
  using path
proof (induction rule: rtrancl_induct)
  case base
  then show ?case using v split_list by fastforce
next
  case (step w z)
  obtain u xs ys where u: "(v, u) \<in> (rel g)\<^sup>*" "(u, v) \<in> (rel g)\<^sup>*"
    and o: "order g = xs @ w # ys" and uw: "u \<in> set (w # ys)"
    using step.IH by blast
  have w: "w \<in> set (order g)" using order_closed [OF ok v step.hyps(1)] .
  obtain xs' ys' where o': "order g = xs' @ w # ys'"
    and law: "z \<in> set (xs' @ [w]) \<or>
      (\<exists>ys1 ys2. ys' = ys1 @ z # ys2 \<and> (\<forall>x \<in> set (w # ys1). (z, x) \<in> (rel g)\<^sup>*))"
    using order_law [OF ok w step.hyps(2)] by (auto simp: finish_law_def)
  have same: "xs' = xs" "ys' = ys"
    using o o' order_distinct [OF ok] by (auto simp: append_eq_append_conv2 append_eq_Cons_conv
        Cons_eq_append_conv)
  from law show ?case
  proof (elim disjE exE conjE)
    assume "z \<in> set (xs' @ [w])"
    then obtain zs ws where "xs @ [w] = zs @ z # ws" using same by (meson split_list)
    then have "order g = zs @ z # (ws @ ys)" using o by (metis append.assoc append_Cons append_Nil)
    moreover have "u \<in> set (z # (ws @ ys))"
      using uw \<open>xs @ [w] = zs @ z # ws\<close> by (cases ws rule: rev_cases) auto
    ultimately show ?thesis using u by blast
  next
    fix ys1 ys2
    assume y: "ys' = ys1 @ z # ys2" and r: "\<forall>x \<in> set (w # ys1). (z, x) \<in> (rel g)\<^sup>*"
    have oz: "order g = (xs @ w # ys1) @ z # ys2" using o y same by simp
    show ?thesis
    proof (cases "u \<in> set (z # ys2)")
      case True
      with oz u show ?thesis by blast
    next
      case False
      then have "u \<in> set (w # ys1)" using uw y same by auto
      then have "(z, v) \<in> (rel g)\<^sup>*" using r u by (meson rtrancl_trans)
      moreover have "(v, z) \<in> (rel g)\<^sup>*" using step.hyps by (rule rtrancl_into_rtrancl)
      ultimately show ?thesis using oz by fastforce
    qed
  qed
qed

end

text \<open>
  What a client of a reverse post-order relies on: it lists exactly the blocks reachable from the
  root, without duplicates, the root first, and every other block after one of its predecessors.
\<close>

locale reverse_post_order =
  fixes ok :: "'g \<Rightarrow> bool"
    and rel :: "'g \<Rightarrow> (nat \<times> nat) set"
    and root :: "'g \<Rightarrow> nat"
    and rpo :: "'g \<Rightarrow> nat list"
  assumes rpo_distinct: "ok g \<Longrightarrow> distinct (rpo g)"
    and rpo_set: "ok g \<Longrightarrow> set (rpo g) = (rel g)\<^sup>* `` {root g}"
    and rpo_root: "ok g \<Longrightarrow> rpo g \<noteq> [] \<and> hd (rpo g) = root g"
    and rpo_parent: "ok g \<Longrightarrow> i < length (rpo g) \<Longrightarrow> rpo g ! i \<noteq> root g \<Longrightarrow>
      \<exists>j < i. (rpo g ! j, rpo g ! i) \<in> rel g"
begin

text \<open>Every block has a path from the root along which the position increases.\<close>

lemma increasing_path:
  assumes "ok g" and "i < length (rpo g)"
  shows "(0, i) \<in> {(j, k). j < k \<and> k < length (rpo g) \<and> (rpo g ! j, rpo g ! k) \<in> rel g}\<^sup>*"
  using assms(2)
proof (induction i rule: less_induct)
  case (less i)
  show ?case
  proof (cases "rpo g ! i = root g")
    case True
    then have "rpo g ! i = rpo g ! 0" using rpo_root [OF assms(1)] by (metis hd_conv_nth)
    then have "i = 0"
      using rpo_distinct [OF assms(1)] less.prems nth_eq_iff_index_eq by fastforce
    then show ?thesis by simp
  next
    case False
    then obtain j where j: "j < i" "(rpo g ! j, rpo g ! i) \<in> rel g"
      using rpo_parent [OF assms(1) less.prems] by blast
    with less.prems have "(j, i) \<in> {(j, k). j < k \<and> k < length (rpo g) \<and>
        (rpo g ! j, rpo g ! k) \<in> rel g}" by simp
    moreover have "j < length (rpo g)" using j less.prems by simp
    ultimately show ?thesis using less.IH [OF j(1)] by (meson rtrancl_into_rtrancl)
  qed
qed

end

lemma scc_finish_order_inv:
  assumes wf: "wf_cfg g"
  shows "\<exists>order roots visited. scc_finish_order g = Some order \<and> set order = {..<node_count g} \<and>
     dfs_inv (succs g) roots visited [] order"
proof -
  have i: "dfs_inv (succs g) {} (replicate (node_count g) False) [] []"
    by (rule dfs_inv_empty) (rule wf_adj_ok [OF wf])
  from finish_order_from_inv [OF i, of "[0..<node_count g]"] obtain roots order visited where
    o: "finish_order_from g [0..<node_count g] (replicate (node_count g) False) [] = Some order"
      "dfs_inv (succs g) roots visited [] order" "length visited = node_count g"
      "{..<node_count g} \<subseteq> set order"
    by (auto simp: atLeast0LessThan)
  have "set order \<subseteq> {..<node_count g}"
    using dfs_invD(3) [OF o(2)] flagged_less o(3) by fastforce
  with o show ?thesis
    by (auto simp: scc_finish_order_def blocks_wf [OF wf] wf_lengths [OF wf])
qed

lemma scc_finish_order_total:
  assumes "wf_cfg g"
  obtains order where "scc_finish_order g = Some order" and "set order = {..<node_count g}"
    and "distinct order"
  using scc_finish_order_inv [OF assms] dfs_invD(2) by fastforce

interpretation scc_order: finishing wf_cfg edges "\<lambda>g. the (scc_finish_order g)"
proof unfold_locales
  fix g :: "'a cfg"
  assume wf: "wf_cfg g"
  obtain order roots visited where o: "scc_finish_order g = Some order"
    "dfs_inv (succs g) roots visited [] order"
    using scc_finish_order_inv [OF wf] by blast
  show "distinct (the (scc_finish_order g))" using dfs_invD(2) [OF o(2)] o(1) by simp
  show "finish_law (edges g) (the (scc_finish_order g)) [] a b"
    if "a \<in> set (the (scc_finish_order g))" "(a, b) \<in> edges g" for a b
    using dfs_invD(8) [OF o(2), of a b] that o(1) by simp
qed

lemma reverse_post_order_inv:
  assumes wf: "wf_cfg g"
  obtains order visited where "reverse_post_order_from_entry g = Some (rev order)"
    and "dfs_inv (succs g) {cfg_entry g} visited [] order" and "set order = live g"
    and "order \<noteq> [] \<and> last order = cfg_entry g"
proof -
  let ?n = "node_count g" let ?r = "cfg_entry g"
  have r: "?r < length (replicate ?n False)" using wf_basic [OF wf] by simp
  have i: "dfs_inv (succs g) {} (replicate ?n False) [] []"
    by (rule dfs_inv_empty) (rule wf_adj_ok [OF wf])
  from dfs_loop_inv [OF dfs_inv_root [OF i r]] r obtain visited order where
    l: "dfs_loop (succs g) ((replicate ?n False)[?r := True]) [(?r, 0)] [] = Some (visited, order)"
    and inv: "dfs_inv (succs g) {?r} visited [] order"
    by auto
  have e: "reverse_post_order_from_entry g = Some (rev order)"
    using r l by (simp add: reverse_post_order_from_entry_def panic_simps wf_lengths [OF wf])
  note D = dfs_invD [OF inv]
  have lst: "order \<noteq> [] \<and> last order = ?r"
    using dfs_loop_bottom [OF l] by simp
  then have rin: "?r \<in> set order" by (metis last_in_set)
  have closed: "y \<in> set order" if "x \<in> set order" "(x, y) \<in> edges g" for x y
    using D(8) [OF that(1), of y] that(2) by (auto simp: finish_law_def)
  have "set order = live g"
  proof
    show "set order \<subseteq> live g" using D(3,7) by (simp add: live_def)
    show "live g \<subseteq> set order"
      using rtrancl_closed [of ?r _ "edges g" "set order"] rin closed by (auto simp: live_def)
  qed
  with e inv lst that show ?thesis by blast
qed

interpretation rpo: reverse_post_order wf_cfg edges cfg_entry
  "\<lambda>g. the (reverse_post_order_from_entry g)"
proof unfold_locales
  fix g :: "'a cfg"
  assume wf: "wf_cfg g"
  obtain order visited where o: "reverse_post_order_from_entry g = Some (rev order)"
    "dfs_inv (succs g) {cfg_entry g} visited [] order" "set order = live g"
    "order \<noteq> [] \<and> last order = cfg_entry g"
    by (rule reverse_post_order_inv [OF wf])
  let ?rpo = "the (reverse_post_order_from_entry g)"
  show "distinct ?rpo" using dfs_invD(2) [OF o(2)] o(1) by simp
  show "set ?rpo = (edges g)\<^sup>* `` {cfg_entry g}" using o by (simp add: live_def)
  show "?rpo \<noteq> [] \<and> hd ?rpo = cfg_entry g" using o by (simp add: hd_rev)
  fix i
  assume i: "i < length ?rpo" and ne: "?rpo ! i \<noteq> cfg_entry g"
  define b where "b = ?rpo ! i"
  have "b \<in> set order" using i o(1) nth_mem [OF i] by (simp add: b_def)
  then have "parent_law (edges g) {cfg_entry g} order [] b"
    using dfs_invD(9) [OF o(2)] by simp
  then obtain p xs ys where p: "(p, b) \<in> edges g" "order = xs @ b # ys" "p \<in> set ys"
    using ne by (auto simp: parent_law_def b_def)
  have rv: "?rpo = rev ys @ b # rev xs" using p(2) o(1) by simp
  then have "i = length ys"
  proof -
    have "distinct ?rpo" using dfs_invD(2) [OF o(2)] o(1) by simp
    moreover have "?rpo ! length ys = ?rpo ! i" using rv b_def by (metis length_rev nth_append_length)
    moreover have "length ys < length ?rpo" using rv by simp
    ultimately show ?thesis using i nth_eq_iff_index_eq by blast
  qed
  moreover obtain j where "j < length ys" "rev ys ! j = p"
    using p(3) by (metis in_set_conv_nth length_rev set_rev)
  ultimately show "\<exists>j < i. (?rpo ! j, ?rpo ! i) \<in> edges g"
    using p(1) rv b_def by (metis length_rev nth_append)
qed

subsection \<open>Properties\<close>

text \<open>\<open>reverse_post_order_from_entry\<close> lists each reachable block exactly once, the entry
  first, and every other block after one of its predecessors.\<close>

theorem reverse_post_order_correct:
  assumes "wf_cfg g"
  shows "\<exists>order. reverse_post_order_from_entry g = Some order \<and> distinct order \<and>
    set order = {b. (cfg_entry g, b) \<in> (edges g)\<^sup>*} \<and> order \<noteq> [] \<and> hd order = cfg_entry g \<and>
    (\<forall>i < length order. 0 < i \<longrightarrow> (\<exists>j < i. (order ! j, order ! i) \<in> edges g))"
proof -
  obtain order where o: "reverse_post_order_from_entry g = Some order"
    using reverse_post_order_inv [OF assms] by metis
  then have the: "the (reverse_post_order_from_entry g) = order" by simp
  note R = rpo.rpo_distinct [OF assms, unfolded the] rpo.rpo_root [OF assms, unfolded the]
  have "\<exists>j < i. (order ! j, order ! i) \<in> edges g" if i: "i < length order" "0 < i" for i
  proof -
    have "order ! i \<noteq> order ! 0" using R i nth_eq_iff_index_eq [of order i 0] by simp
    then have "order ! i \<noteq> cfg_entry g" using R(2) by (metis hd_conv_nth)
    then show ?thesis using rpo.rpo_parent [OF assms, unfolded the] i(1) by blast
  qed
  moreover have "set order = {b. (cfg_entry g, b) \<in> (edges g)\<^sup>*}"
    using rpo.rpo_set [OF assms, unfolded the] by (simp add: Image_def)
  ultimately show ?thesis using o R by blast
qed

theorem reverse_post_order_correct_witness:
  "\<exists>order. reverse_post_order_from_entry sample_cfg = Some order \<and> distinct order"
  using reverse_post_order_correct [OF wf_sample] by blast

end
