(* ===== verification/CfgScc.thy ===== *)
theory CfgScc
  imports CfgDfs
begin

text \<open>
  Kosaraju's second pass and cycle detection: \<open>Cfg::label_reverse_component\<close>,
  \<open>Cfg::scc_labels\<close>, \<open>Cfg::blocks_on_cycles\<close>, \<open>Cfg::contains_cycle\<close>. A label
  array holds \<open>usize::MAX\<close> where a block has no label yet.
\<close>

subsection \<open>Labelling\<close>

fun label_push :: "block_id list \<Rightarrow> nat \<Rightarrow> nat list \<Rightarrow> block_id list
    \<Rightarrow> (nat list \<times> block_id list) option" where
  "label_push [] label labels stack = Some (labels, stack)"
| "label_push (p # ps) label labels stack = do {
     l \<leftarrow> idx labels p;
     (if l = usize_max then do {
        labels' \<leftarrow> upd labels p label;
        label_push ps label labels' (p # stack)
      } else label_push ps label labels stack)
   }"

text \<open>
  \<open>while let Some(node) = stack.pop()\<close>; with a label equal to the sentinel the loop could run
  forever, hence \<open>partial_function\<close>: \<open>None\<close> is "panics or does not return".
\<close>

partial_function (option) label_loop ::
  "block_id list list \<Rightarrow> nat \<Rightarrow> nat list \<Rightarrow> block_id list \<Rightarrow> nat list option" where
  "label_loop prs label labels stack =
     (if stack = [] then Some labels
      else do {
        ps \<leftarrow> idx prs (hd stack);
        r \<leftarrow> label_push ps label labels (tl stack);
        label_loop prs label (fst r) (snd r)
      })"

definition label_reverse_component ::
  "'a cfg \<Rightarrow> block_id \<Rightarrow> nat \<Rightarrow> nat list \<Rightarrow> nat list option" where
  "label_reverse_component g block label labels = do {
     labels' \<leftarrow> upd labels block label;
     label_loop (preds g) label labels' [block]
   }"

fun label_components ::
  "'a cfg \<Rightarrow> block_id list \<Rightarrow> nat list \<Rightarrow> nat \<Rightarrow> (nat list \<times> nat) option" where
  "label_components g [] labels label = Some (labels, label)"
| "label_components g (block # rest) labels label = do {
     l \<leftarrow> idx labels block;
     (if l = usize_max then do {
        labels' \<leftarrow> label_reverse_component g block label labels;
        label_components g rest labels' (Suc label)
      } else label_components g rest labels label)
   }"

definition scc_labels :: "'a cfg \<Rightarrow> (nat list \<times> nat) option" where
  "scc_labels g = do {
     finish_order \<leftarrow> scc_finish_order g;
     label_components g (rev finish_order) (replicate (length (payloads g)) usize_max) 0
   }"

fun count_labels :: "nat list \<Rightarrow> nat list \<Rightarrow> nat list option" where
  "count_labels [] sizes = Some sizes"
| "count_labels (label # labels) sizes = do {
     s \<leftarrow> idx sizes label;
     sizes' \<leftarrow> upd sizes label (s + 1);
     count_labels labels sizes'
   }"

fun collect_cyclic :: "'a cfg \<Rightarrow> nat list \<Rightarrow> nat list \<Rightarrow> block_id list \<Rightarrow> block_id set
    \<Rightarrow> block_id set option" where
  "collect_cyclic g labels sizes [] cyclic = Some cyclic"
| "collect_cyclic g labels sizes (block # rest) cyclic = do {
     ss \<leftarrow> idx (succs g) block;
     (if block \<in> set ss then collect_cyclic g labels sizes rest (insert block cyclic)
      else do {
        l \<leftarrow> idx labels block;
        s \<leftarrow> idx sizes l;
        collect_cyclic g labels sizes rest (if s > 1 then insert block cyclic else cyclic)
      })
   }"

definition blocks_on_cycles :: "'a cfg \<Rightarrow> block_id set option" where
  "blocks_on_cycles g = do {
     (labels, count) \<leftarrow> scc_labels g;
     sizes \<leftarrow> count_labels labels (replicate count 0);
     bs \<leftarrow> blocks g;
     collect_cyclic g labels sizes bs {}
   }"

definition contains_cycle :: "'a cfg \<Rightarrow> bool option" where
  "contains_cycle g = do { cyclic \<leftarrow> blocks_on_cycles g; Some (cyclic \<noteq> {}) }"

subsection \<open>One component\<close>

definition labelled :: "nat list \<Rightarrow> nat set" where
  "labelled labels = {i. i < length labels \<and> labels ! i \<noteq> usize_max}"

definition unlabelled_count :: "nat list \<Rightarrow> nat" where
  "unlabelled_count labels = length (filter (\<lambda>l. l = usize_max) labels)"

lemma unlabelled_count_update:
  "i < length labels \<Longrightarrow> labels ! i = usize_max \<Longrightarrow> l \<noteq> usize_max \<Longrightarrow>
     Suc (unlabelled_count (labels[i := l])) = unlabelled_count labels"
proof (induction labels arbitrary: i)
  case (Cons b bs)
  then show ?case by (cases i) (auto simp: unlabelled_count_def)
qed simp

definition relabel :: "nat \<Rightarrow> nat list \<Rightarrow> nat set \<Rightarrow> nat list" where
  "relabel label labels S =
     map (\<lambda>i. if i \<in> S \<and> labels ! i = usize_max then label else labels ! i) [0..<length labels]"

lemma length_relabel [simp]: "length (relabel label labels S) = length labels"
  by (simp add: relabel_def)

lemma relabel_nth: "i < length labels \<Longrightarrow>
    relabel label labels S ! i = (if i \<in> S \<and> labels ! i = usize_max then label else labels ! i)"
  by (simp add: relabel_def)

lemma relabel_empty [simp]: "relabel label labels {} = labels"
  by (simp add: relabel_def map_nth)

lemma labelled_relabel:
  "label \<noteq> usize_max \<Longrightarrow>
     labelled (relabel label labels S) = labelled labels \<union> (S \<inter> {..<length labels})"
  by (auto simp: labelled_def relabel_nth split: if_splits)

lemma relabel_relabel:
  "label \<noteq> usize_max \<Longrightarrow> relabel label (relabel label labels S) T = relabel label labels (S \<union> T)"
  by (rule nth_equalityI) (auto simp: relabel_nth)

lemma relabel_update:
  "i < length labels \<Longrightarrow> labels ! i = usize_max \<Longrightarrow> labels[i := label] = relabel label labels {i}"
  by (rule nth_equalityI) (auto simp: relabel_nth nth_list_update)

lemma label_push_spec:
  assumes "set ps \<subseteq> {..<length labels}" and "label \<noteq> usize_max"
  shows "\<exists>pushed. label_push ps label labels stack =
      Some (relabel label labels (set ps), pushed @ stack) \<and> set pushed = set ps - labelled labels \<and>
      unlabelled_count (relabel label labels (set ps)) + length pushed = unlabelled_count labels"
  using assms
proof (induction ps arbitrary: labels stack)
  case (Cons p ps)
  then have p: "p < length labels" and ps: "set ps \<subseteq> {..<length labels}" by auto
  show ?case
  proof (cases "labels ! p = usize_max")
    case True
    have u: "labels[p := label] = relabel label labels {p}" by (rule relabel_update [OF p True])
    have r: "relabel label (relabel label labels {p}) (set ps) = relabel label labels (set (p # ps))"
      using Cons.prems(2) by (simp add: relabel_relabel)
    from ps have "set ps \<subseteq> {..<length (relabel label labels {p})}" by simp
    from Cons.IH [OF this Cons.prems(2), of "p # stack"] obtain pushed where
      q: "label_push ps label (relabel label labels {p}) (p # stack) =
        Some (relabel label labels (set (p # ps)), pushed @ p # stack)"
      "set pushed = set ps - labelled (relabel label labels {p})"
      "unlabelled_count (relabel label labels (set (p # ps))) + length pushed
        = unlabelled_count (relabel label labels {p})"
      unfolding r by blast
    have "Suc (unlabelled_count (relabel label labels {p})) = unlabelled_count labels"
      using unlabelled_count_update [OF p True Cons.prems(2)] u by simp
    moreover have "p \<notin> labelled labels" using True by (simp add: labelled_def)
    ultimately show ?thesis
      using q True p u
      by (intro exI [of _ "pushed @ [p]"])
        (auto simp: panic_simps labelled_relabel [OF Cons.prems(2)])
  next
    case False
    have "relabel label labels (set (p # ps)) = relabel label labels (set ps)"
      by (rule nth_equalityI) (auto simp: relabel_nth False)
    moreover have "p \<in> labelled labels" using False p by (simp add: labelled_def)
    ultimately show ?thesis
      using Cons.IH [OF ps Cons.prems(2), of stack] False p by (auto simp: panic_simps)
  qed
qed simp

lemma label_loop_correct:
  assumes "adj_ok (length labels) prs" and "label \<noteq> usize_max" and "set stack \<subseteq> labelled labels"
    and "\<And>x y. x \<in> labelled labels \<Longrightarrow> x \<notin> set stack \<Longrightarrow> (x, y) \<in> adj_rel prs \<Longrightarrow> y \<in> labelled labels"
  shows "label_loop prs label labels stack =
     Some (relabel label labels ((adj_rel prs)\<^sup>* `` labelled labels))"
  using assms
proof (induction "unlabelled_count labels + length stack" arbitrary: labels stack
    rule: less_induct)
  case less
  show ?case
  proof (cases stack)
    case Nil
    have "(adj_rel prs)\<^sup>* `` labelled labels = labelled labels"
      using less.prems(4) Nil by (intro Image_closed_trancl) auto
    moreover have "relabel label labels (labelled labels) = labels"
      by (rule nth_equalityI) (auto simp: relabel_nth labelled_def)
    ultimately show ?thesis by (simp add: Nil label_loop.simps)
  next
    case (Cons node st)
    let ?ps = "prs ! node" let ?L = "relabel label labels (set ?ps)"
    have n: "node < length labels" and nl: "node \<in> labelled labels"
      using less.prems(3) Cons by (auto simp: labelled_def)
    then have i: "idx prs node = Some ?ps" using adj_okD(1) [OF less.prems(1)] by (simp add: panic_simps)
    have psub: "set ?ps \<subseteq> {..<length labels}" using adj_okD(3) [OF less.prems(1) n] by auto
    obtain pushed where m: "label_push ?ps label labels st = Some (?L, pushed @ st)"
      and p: "set pushed = set ?ps - labelled labels"
      and c: "unlabelled_count ?L + length pushed = unlabelled_count labels"
      using label_push_spec [OF psub less.prems(2)] by blast
    have lab: "labelled ?L = labelled labels \<union> set ?ps"
      using labelled_relabel [OF less.prems(2)] psub by blast
    have sub: "set ?ps \<subseteq> adj_rel prs `` labelled labels"
      using n nl adj_okD(1) [OF less.prems(1)] by (auto simp: adj_rel_def)
    have "label_loop prs label ?L (pushed @ st) =
        Some (relabel label ?L ((adj_rel prs)\<^sup>* `` labelled ?L))"
    proof (rule less.hyps)
      show "unlabelled_count ?L + length (pushed @ st) < unlabelled_count labels + length stack"
        using c Cons by simp
      show "y \<in> labelled ?L"
        if "x \<in> labelled ?L" "x \<notin> set (pushed @ st)" "(x, y) \<in> adj_rel prs" for x y
        using that p lab less.prems(4) [of x y] Cons by (auto simp: adj_rel_def)
    qed (use less.prems lab p Cons in auto)
    also have "(adj_rel prs)\<^sup>* `` labelled ?L = (adj_rel prs)\<^sup>* `` labelled labels"
      by (rule image_absorb [OF lab sub])
    also have "relabel label ?L ((adj_rel prs)\<^sup>* `` labelled labels)
        = relabel label labels ((adj_rel prs)\<^sup>* `` labelled labels)"
      using sub unfolding relabel_relabel [OF less.prems(2)] by (metis Un_absorb1 Image_mono
          r_into_rtrancl subset_iff order_refl subset_trans)
    finally show ?thesis by (simp add: Cons label_loop.simps [of prs label labels] i m)
  qed
qed

subsection \<open>All components\<close>

definition same_scc :: "'a cfg \<Rightarrow> nat \<Rightarrow> nat \<Rightarrow> bool" where
  "same_scc g a b \<longleftrightarrow> (a, b) \<in> (edges g)\<^sup>* \<and> (b, a) \<in> (edges g)\<^sup>*"

lemma same_scc_refl [simp]: "same_scc g a a"
  by (simp add: same_scc_def)

lemma same_scc_sym: "same_scc g a b \<Longrightarrow> same_scc g b a"
  by (simp add: same_scc_def)

lemma same_scc_trans: "same_scc g a b \<Longrightarrow> same_scc g b c \<Longrightarrow> same_scc g a c"
  unfolding same_scc_def by (meson rtrancl_trans)

text \<open>
  The invariant of the second pass after the prefix \<open>done\<close> of the reversed finishing order:
  the labelled blocks are those that reach \<open>done\<close>, and equal labels are equal components.
\<close>

definition label_inv :: "'a cfg \<Rightarrow> nat list \<Rightarrow> nat list \<Rightarrow> nat \<Rightarrow> bool" where
  "label_inv g fin labels label \<longleftrightarrow>
     length labels = node_count g \<and> label \<le> length fin \<and>
     labelled labels = {y. y < node_count g \<and> (\<exists>x \<in> set fin. (y, x) \<in> (edges g)\<^sup>*)} \<and>
     (\<forall>y \<in> labelled labels. labels ! y < label) \<and>
     (\<forall>y \<in> labelled labels. \<forall>z < node_count g.
        same_scc g y z \<longleftrightarrow> z \<in> labelled labels \<and> labels ! z = labels ! y)"

lemma label_reverse_component_correct:
  assumes wf: "wf_cfg g" and inv: "label_inv g fin labels label" and lab: "label < usize_max"
    and x: "x < node_count g" and un: "labels ! x = usize_max"
  shows "label_reverse_component g x label labels =
    Some (relabel label labels {y. y < node_count g \<and> (y, x) \<in> (edges g)\<^sup>*})"
proof -
  have len: "length labels = node_count g" using inv by (simp add: label_inv_def)
  have labset: "labelled labels = {y. y < node_count g \<and> (\<exists>x \<in> set fin. (y, x) \<in> (edges g)\<^sup>*)}"
    using inv unfolding label_inv_def by blast
  have xl: "x < length labels" using x len by simp
  have ne: "label \<noteq> usize_max" using lab by simp
  let ?S = "{y. y < node_count g \<and> (y, x) \<in> (edges g)\<^sup>*}"
  let ?L = "relabel label labels {x}"
  have u: "upd labels x label = Some ?L"
    using xl relabel_update [OF xl un] by (simp add: panic_simps)
  have lL: "labelled ?L = insert x (labelled labels)"
    using labelled_relabel [OF ne] xl by auto
  have rel: "adj_rel (preds g) = (edges g)\<inverse>" by (rule adj_rel_preds [OF wf])
  have closed: "y \<in> labelled ?L"
    if "w \<in> labelled ?L" "w \<notin> set [x]" "(w, y) \<in> adj_rel (preds g)" for w y
    using that edges_less [OF wf, of y w] unfolding lL labset rel
    by (auto intro: converse_rtrancl_into_rtrancl)
  have "label_loop (preds g) label ?L [x] =
      Some (relabel label ?L ((adj_rel (preds g))\<^sup>* `` labelled ?L))"
    by (rule label_loop_correct) (use wf_adj_ok [OF wf] ne len closed lL in auto)
  moreover have "relabel label ?L ((adj_rel (preds g))\<^sup>* `` labelled ?L) = relabel label labels ?S"
  proof -
    have img: "(adj_rel (preds g))\<^sup>* `` labelled ?L = {y. \<exists>w \<in> labelled ?L. (y, w) \<in> (edges g)\<^sup>*}"
      unfolding rel rtrancl_converse by auto
    have reaching: "y \<in> labelled labels"
      if "y < node_count g" "w \<in> labelled labels" "(y, w) \<in> (edges g)\<^sup>*" for y w
      using that unfolding labset by (auto intro: rtrancl_trans)
    show ?thesis
      unfolding relabel_relabel [OF ne] img
    proof (rule nth_equalityI)
      fix i
      assume "i < length (relabel label labels
        ({x} \<union> {y. \<exists>w \<in> labelled ?L. (y, w) \<in> (edges g)\<^sup>*}))"
      then have i: "i < length labels" "i < node_count g" using len by auto
      have "i \<notin> labelled labels \<longleftrightarrow> labels ! i = usize_max" using i by (simp add: labelled_def)
      then show "relabel label labels ({x} \<union> {y. \<exists>w \<in> labelled ?L. (y, w) \<in> (edges g)\<^sup>*}) ! i
          = relabel label labels ?S ! i"
        using i reaching [of i] unfolding lL by (auto simp: relabel_nth)
    qed simp
  qed
  ultimately show ?thesis using u by (simp add: label_reverse_component_def)
qed

lemma label_inv_step:
  assumes wf: "wf_cfg g" and inv: "label_inv g fin labels label"
    and ord: "the (scc_finish_order g) = rest @ x # rev fin"
    and x: "x < node_count g" and un: "labels ! x = usize_max"
  shows "label_inv g (fin @ [x])
     (relabel label labels {y. y < node_count g \<and> (y, x) \<in> (edges g)\<^sup>*}) (Suc label)"
proof -
  let ?S = "{y. y < node_count g \<and> (y, x) \<in> (edges g)\<^sup>*}"
  let ?L = "relabel label labels ?S"
  have len: "length labels = node_count g" and le: "label \<le> length fin"
    using inv by (simp_all add: label_inv_def)
  have labset: "labelled labels = {y. y < node_count g \<and> (\<exists>x \<in> set fin. (y, x) \<in> (edges g)\<^sup>*)}"
    using inv unfolding label_inv_def by blast
  have small: "labels ! y < label" if "y \<in> labelled labels" for y
    using inv that unfolding label_inv_def by blast
  have cls: "same_scc g y z \<longleftrightarrow> z \<in> labelled labels \<and> labels ! z = labels ! y"
    if "y \<in> labelled labels" "z < node_count g" for y z
    using inv that unfolding label_inv_def by blast
  obtain order where so: "scc_finish_order g = Some order" "set order = {..<node_count g}"
    "distinct order" by (rule scc_finish_order_total [OF wf])
  have "length order = node_count g" using so(2,3) by (metis card_lessThan distinct_card)
  then have "length fin < node_count g" using ord so(1) by simp
  then have ne: "label \<noteq> usize_max"
    using le u32_less_usize [OF wf_basic(4) [OF wf]] by simp
  have ll: "labelled ?L = labelled labels \<union> ?S" using labelled_relabel [OF ne] len by auto
  have xn: "x \<notin> labelled labels" using un by (simp add: labelled_def)
  have new: "same_scc g y x" if y: "y \<in> ?S" "y \<notin> labelled labels" for y
  proof -
    have "y \<in> set (the (scc_finish_order g))" using y so by auto
    then obtain u xs ys where u: "(y, u) \<in> (edges g)\<^sup>*" "(u, y) \<in> (edges g)\<^sup>*"
      and o: "the (scc_finish_order g) = xs @ x # ys" and m: "u \<in> set (x # ys)"
      using scc_order.component_finishes_last [OF wf, of y x] y by auto
    have d: "distinct (xs @ x # ys)" using scc_order.order_distinct [OF wf] unfolding o .
    have e: "xs @ x # ys = rest @ x # rev fin" by (rule trans [OF o [symmetric] ord])
    have "ys = rev fin" using distinct_split [OF d e] by simp
    then have "u = x" using m u(1) y labset by auto
    then show ?thesis using u by (simp add: same_scc_def)
  qed
  have old: "z \<notin> labelled labels" if "same_scc g z x" for z
    using that xn x unfolding labset same_scc_def by (auto intro: rtrancl_trans)
  have val: "?L ! z = (if z \<in> labelled labels then labels ! z else label)"
    if "z \<in> labelled ?L" for z
    using that len unfolding ll by (auto simp: relabel_nth labelled_def)
  show ?thesis
    unfolding label_inv_def
  proof (intro conjI ballI allI impI)
    show "labelled ?L = {y. y < node_count g \<and> (\<exists>x' \<in> set (fin @ [x]). (y, x') \<in> (edges g)\<^sup>*)}"
      unfolding ll labset by auto
    show "?L ! y < Suc label" if "y \<in> labelled ?L" for y
      using val [OF that] small [of y] by (simp split: if_splits)
    show "same_scc g y z \<longleftrightarrow> z \<in> labelled ?L \<and> ?L ! z = ?L ! y"
      if y: "y \<in> labelled ?L" and z: "z < node_count g" for y z
    proof (cases "y \<in> labelled labels")
      case True
      have "?L ! z \<noteq> ?L ! y" if "z \<in> labelled ?L" "z \<notin> labelled labels"
        using val [OF that(1)] val [OF y] that True small [OF True] by simp
      moreover have "z \<in> labelled ?L \<and> ?L ! z = labels ! z" if "z \<in> labelled labels"
        using val [of z] that ll by simp
      moreover have "?L ! y = labels ! y" using val [OF y] True by simp
      ultimately show ?thesis using cls [OF True z]
        by (cases "z \<in> labelled labels") simp_all
    next
      case False
      then have yx: "same_scc g y x" using new [of y] y unfolding ll by blast
      have zx: "same_scc g z x \<longleftrightarrow> z \<in> labelled ?L \<and> z \<notin> labelled labels"
        using new [of z] old [of z] z unfolding ll by (auto simp: same_scc_def)
      have "same_scc g y z \<longleftrightarrow> same_scc g z x"
        using yx same_scc_sym same_scc_trans by blast
      moreover have "?L ! z = ?L ! y \<longleftrightarrow> z \<notin> labelled labels" if "z \<in> labelled ?L"
        using val [OF that] val [OF y] False small [of z] by auto
      ultimately show ?thesis using zx by blast
    qed
  qed (use len le in simp_all)
qed

lemma label_components_correct:
  assumes wf: "wf_cfg g"
  shows "label_inv g fin labels label \<Longrightarrow> the (scc_finish_order g) = rev (fin @ rest) \<Longrightarrow>
     \<exists>labels' label'. label_components g rest labels label = Some (labels', label') \<and>
       label_inv g (fin @ rest) labels' label'"
proof (induction rest arbitrary: fin labels label)
  case Nil
  then show ?case by simp
next
  case (Cons x rest)
  obtain order where so: "scc_finish_order g = Some order" "set order = {..<node_count g}"
    "distinct order" by (rule scc_finish_order_total [OF wf])
  have oeq: "order = rev (fin @ x # rest)" using Cons.prems(2) so(1) by simp
  then have x: "x < node_count g" using so(2) by (metis in_set_conv_decomp lessThan_iff set_rev)
  have len: "length labels = node_count g" and le: "label \<le> length fin"
    using Cons.prems(1) by (simp_all add: label_inv_def)
  have i: "idx labels x = Some (labels ! x)" using x len by (simp add: panic_simps)
  have ord: "the (scc_finish_order g) = rev rest @ x # rev fin" using Cons.prems(2) by simp
  show ?case
  proof (cases "labels ! x = usize_max")
    case True
    have "length order = node_count g" using so(2,3) by (metis card_lessThan distinct_card)
    then have "length fin < node_count g" using oeq by simp
    then have lab: "label < usize_max" using le u32_less_usize [OF wf_basic(4) [OF wf]] by simp
    note c = label_reverse_component_correct [OF wf Cons.prems(1) lab x True]
    have "the (scc_finish_order g) = rev ((fin @ [x]) @ rest)" using Cons.prems(2) by simp
    from Cons.IH [OF label_inv_step [OF wf Cons.prems(1) ord x True] this]
    show ?thesis using i c True by simp
  next
    case False
    then have "x \<in> labelled labels" using x len by (simp add: labelled_def)
    then obtain w where w: "w \<in> set fin" "(x, w) \<in> (edges g)\<^sup>*"
      using Cons.prems(1) unfolding label_inv_def by blast
    have "{y. y < node_count g \<and> (\<exists>v \<in> set fin. (y, v) \<in> (edges g)\<^sup>*)} =
        {y. y < node_count g \<and> (\<exists>v \<in> set (fin @ [x]). (y, v) \<in> (edges g)\<^sup>*)}"
      using w by (auto intro: rtrancl_trans)
    then have "label_inv g (fin @ [x]) labels label"
      using Cons.prems(1) unfolding label_inv_def by simp
    moreover have "the (scc_finish_order g) = rev ((fin @ [x]) @ rest)" using Cons.prems(2) by simp
    ultimately show ?thesis using Cons.IH [of "fin @ [x]"] i False by simp
  qed
qed

text \<open>The labels partition the blocks into strongly connected components.\<close>

lemma scc_labels_correct:
  assumes wf: "wf_cfg g"
  obtains labels count where "scc_labels g = Some (labels, count)"
    and "length labels = node_count g" and "count \<le> node_count g"
    and "\<And>a. a < node_count g \<Longrightarrow> labels ! a < count"
    and "\<And>a b. a < node_count g \<Longrightarrow> b < node_count g \<Longrightarrow>
      labels ! a = labels ! b \<longleftrightarrow> same_scc g a b"
proof -
  obtain order where so: "scc_finish_order g = Some order" "set order = {..<node_count g}"
    "distinct order" by (rule scc_finish_order_total [OF wf])
  have "label_inv g [] (replicate (node_count g) usize_max) 0"
    by (auto simp: label_inv_def labelled_def)
  from label_components_correct [OF wf this, of "rev order"] so(1) obtain labels count where
    l: "label_components g (rev order) (replicate (node_count g) usize_max) 0 = Some (labels, count)"
    and inv: "label_inv g (rev order) labels count" by auto
  have all: "labelled labels = {..<node_count g}"
    using inv so(2) unfolding label_inv_def by auto
  have "length order = node_count g" using so(2,3) by (metis card_lessThan distinct_card)
  moreover have "scc_labels g = Some (labels, count)"
    using so(1) l by (simp add: scc_labels_def wf_lengths [OF wf])
  moreover have "labels ! a = labels ! b \<longleftrightarrow> same_scc g a b"
    if "a < node_count g" "b < node_count g" for a b
    using inv that all unfolding label_inv_def by (metis lessThan_iff)
  moreover have "labels ! a < count" if "a < node_count g" for a
    using inv that all unfolding label_inv_def by blast
  ultimately show ?thesis using that inv by (auto simp: label_inv_def)
qed

subsection \<open>Cycles\<close>

lemma count_labels_correct:
  "\<forall>l \<in> set labels. l < length sizes \<Longrightarrow>
     count_labels labels sizes = Some (map (\<lambda>l. sizes ! l + count_list labels l) [0..<length sizes])"
proof (induction labels arbitrary: sizes)
  case Nil
  then show ?case by (simp add: map_nth)
next
  case (Cons l labels)
  then have l: "l < length sizes" by simp
  have "count_labels labels (sizes[l := sizes ! l + 1]) =
      Some (map (\<lambda>k. sizes[l := sizes ! l + 1] ! k + count_list labels k) [0..<length sizes])"
    using Cons.IH [of "sizes[l := sizes ! l + 1]"] Cons.prems by simp
  moreover have "map (\<lambda>k. sizes[l := sizes ! l + 1] ! k + count_list labels k) [0..<length sizes] =
      map (\<lambda>k. sizes ! k + count_list (l # labels) k) [0..<length sizes]"
    by (rule map_cong) (auto simp: nth_list_update)
  ultimately show ?case using l by (simp add: panic_simps)
qed

lemma collect_cyclic_correct:
  assumes "\<And>b. b \<in> set bs \<Longrightarrow> b < length (succs g) \<and> b < length labels \<and> labels ! b < length sizes"
  shows "collect_cyclic g labels sizes bs acc =
    Some (acc \<union> {b \<in> set bs. b \<in> set (succs g ! b) \<or> sizes ! (labels ! b) > 1})"
  using assms
proof (induction bs arbitrary: acc)
  case (Cons b bs)
  then show ?case by (auto simp: panic_simps)
qed simp

lemma count_list_gt_1:
  assumes "a < length xs"
  shows "1 < count_list xs (xs ! a) \<longleftrightarrow> (\<exists>b < length xs. b \<noteq> a \<and> xs ! b = xs ! a)"
proof -
  have c: "count_list xs y = card {i. i < length xs \<and> xs ! i = y}" for y
    by (simp add: count_list_eq_length_filter length_filter_conv_card eq_commute)
  let ?I = "{i. i < length xs \<and> xs ! i = xs ! a}"
  have a: "a \<in> ?I" and fin: "finite ?I" using assms by simp_all
  have "\<not> 1 < card ?I \<longleftrightarrow> (\<forall>x \<in> ?I. \<forall>y \<in> ?I. x = y)"
    using card_le_Suc0_iff_eq [OF fin] by (simp add: not_less)
  also have "\<dots> \<longleftrightarrow> \<not> (\<exists>b < length xs. b \<noteq> a \<and> xs ! b = xs ! a)"
    using a by auto
  finally have "1 < card ?I \<longleftrightarrow> (\<exists>b < length xs. b \<noteq> a \<and> xs ! b = xs ! a)" by blast
  then show ?thesis by (simp add: c)
qed

lemma on_cycle_iff:
  "(b, b) \<in> (edges g)\<^sup>+ \<longleftrightarrow> (b, b) \<in> edges g \<or> (\<exists>c. c \<noteq> b \<and> same_scc g c b)"
proof
  assume "(b, b) \<in> (edges g)\<^sup>+"
  then obtain c where c: "(b, c) \<in> edges g" "(c, b) \<in> (edges g)\<^sup>*" by (meson tranclD)
  then show "(b, b) \<in> edges g \<or> (\<exists>c. c \<noteq> b \<and> same_scc g c b)"
    unfolding same_scc_def by (cases "c = b") auto
next
  assume "(b, b) \<in> edges g \<or> (\<exists>c. c \<noteq> b \<and> same_scc g c b)"
  then show "(b, b) \<in> (edges g)\<^sup>+"
    unfolding same_scc_def by (metis r_into_trancl' rtranclD trancl_rtrancl_trancl)
qed

definition cyclic_blocks :: "'a cfg \<Rightarrow> block_id set" where
  "cyclic_blocks g = {b. (b, b) \<in> (edges g)\<^sup>+}"

lemma blocks_on_cycles_eq:
  assumes wf: "wf_cfg g"
  shows "blocks_on_cycles g = Some (cyclic_blocks g)"
proof -
  obtain labels count where l: "scc_labels g = Some (labels, count)"
    "length labels = node_count g"
    and small: "\<And>a. a < node_count g \<Longrightarrow> labels ! a < count"
    and cls: "\<And>a b. a < node_count g \<Longrightarrow> b < node_count g \<Longrightarrow>
      labels ! a = labels ! b \<longleftrightarrow> same_scc g a b"
    using scc_labels_correct [OF wf] by metis
  let ?sizes = "map (count_list labels) [0..<count]"
  have "\<forall>x \<in> set labels. x < count" using small l(2) by (metis in_set_conv_nth)
  then have c: "count_labels labels (replicate count 0) = Some ?sizes"
    using count_labels_correct [of labels "replicate count 0"] by (simp cong: map_cong)
  have cc: "collect_cyclic g labels ?sizes [0..<node_count g] {} =
      Some {b \<in> {..<node_count g}. b \<in> set (succs g ! b) \<or> ?sizes ! (labels ! b) > 1}"
    using collect_cyclic_correct [of "[0..<node_count g]" g labels ?sizes "{}"] small l(2)
    by (simp add: wf_lengths [OF wf] atLeast0LessThan)
  have "b \<in> set (succs g ! b) \<or> ?sizes ! (labels ! b) > 1 \<longleftrightarrow> (b, b) \<in> (edges g)\<^sup>+"
    if b: "b < node_count g" for b
  proof -
    have "?sizes ! (labels ! b) > 1 \<longleftrightarrow> (\<exists>c < node_count g. c \<noteq> b \<and> same_scc g c b)"
      using count_list_gt_1 [of b labels] b l(2) small [OF b] cls by auto
    also have "\<dots> \<longleftrightarrow> (\<exists>c. c \<noteq> b \<and> same_scc g c b)"
      using b reach_less [OF wf, of b] unfolding same_scc_def by blast
    finally show ?thesis using on_cycle_iff [of b g] b by (simp add: edges_iff [OF wf])
  qed
  moreover have "b < node_count g" if "(b, b) \<in> (edges g)\<^sup>+" for b
    using that edges_less [OF wf] by (meson tranclD)
  ultimately have "{b \<in> {..<node_count g}. b \<in> set (succs g ! b) \<or> ?sizes ! (labels ! b) > 1}
      = cyclic_blocks g"
    unfolding cyclic_blocks_def by blast
  then show ?thesis
    using l(1) c cc by (simp add: blocks_on_cycles_def blocks_wf [OF wf])
qed

lemma contains_cycle_eq:
  assumes wf: "wf_cfg g"
  shows "contains_cycle g = Some (\<not> acyclic (edges g))"
  using blocks_on_cycles_eq [OF wf] by (auto simp: contains_cycle_def cyclic_blocks_def acyclic_def)

subsection \<open>Properties\<close>

text \<open>C21: \<open>Cfg::scc_labels\<close> (Kosaraju's two traversals) returns for every well-formed graph;
  two blocks get the same label exactly when each reaches the other, and the labels are
  numbered below the returned count.\<close>

theorem scc_labels_partition:
  assumes wf: "wf_cfg g"
  shows "\<exists>labels count. scc_labels g = Some (labels, count) \<and> length labels = node_count g \<and>
    (\<forall>a < node_count g. labels ! a < count) \<and>
    (\<forall>a < node_count g. \<forall>b < node_count g. labels ! a = labels ! b \<longleftrightarrow>
       (a, b) \<in> (edges g)\<^sup>* \<and> (b, a) \<in> (edges g)\<^sup>*)"
  by (rule scc_labels_correct [OF wf]) (auto simp: same_scc_def)

theorem scc_labels_partition_witness:
  "\<exists>labels count. scc_labels sample_cfg = Some (labels, count) \<and> labels ! 2 = labels ! 3"
proof -
  have "(2, 3) \<in> (edges sample_cfg)\<^sup>*" "(3, 2) \<in> (edges sample_cfg)\<^sup>*"
    by (auto simp: edges_sample)
  then show ?thesis using scc_labels_partition [OF wf_sample] by fastforce
qed

text \<open>C29: \<open>Cfg::blocks_on_cycles\<close> returns exactly the blocks that lie on a cycle (a self-loop
  included), and \<open>Cfg::contains_cycle\<close> whether the graph has a cycle.\<close>

theorem cycles_correct:
  assumes "wf_cfg g"
  shows "blocks_on_cycles g = Some {b. (b, b) \<in> (edges g)\<^sup>+} \<and>
    contains_cycle g = Some (\<not> acyclic (edges g))"
  using blocks_on_cycles_eq [OF assms] contains_cycle_eq [OF assms] by (simp add: cyclic_blocks_def)

theorem cycles_correct_witness: "contains_cycle sample_cfg = Some True"
proof -
  have "(2, 2) \<in> (edges sample_cfg)\<^sup>+" unfolding edges_sample by (rule trancl_into_trancl2 [of 2 3]) auto
  then show ?thesis using cycles_correct [OF wf_sample] by (auto simp: acyclic_def)
qed

end
