(* ===== verification/CfgDom.thy ===== *)
theory CfgDom
  imports CfgDfs "HOL-Library.Option_ord"
begin

text \<open>
  \<open>Cfg::dominators\<close> of \<open>cfg.rs\<close>: the Cooper-Harvey-Kennedy iteration over immediate
  dominators, the dominator tree and the preorder/postorder intervals behind
  \<open>Dominators::strictly_dominates\<close>. The code's result is compared with domination by
  paths: \<open>dominating g b\<close> is the set of blocks on every path from the entry to \<open>b\<close>.
  The iteration is unbounded in the code, so it is a \<open>partial_function\<close>: that it returns
  is part of the theorem.
\<close>

subsection \<open>Definitions of the code\<close>

text \<open>\<open>Option<usize>\<close> is ordered with \<open>None\<close> first, as \<open>HOL-Library.Option_ord\<close> has it.\<close>

type_synonym idoms = "block_id option list"

partial_function (option) climb ::
  "idoms \<Rightarrow> nat option list \<Rightarrow> block_id \<Rightarrow> block_id \<Rightarrow> block_id option" where
  "climb idoms rpo_pos a b = do {
     pa \<leftarrow> idx rpo_pos a;
     pb \<leftarrow> idx rpo_pos b;
     (if pa > pb then do {
        d \<leftarrow> idx idoms a;
        a' \<leftarrow> d;
        climb idoms rpo_pos a' b
      } else Some a)
   }"

partial_function (option) intersect ::
  "block_id \<Rightarrow> block_id \<Rightarrow> idoms \<Rightarrow> nat option list \<Rightarrow> block_id option" where
  "intersect finger_a finger_b idoms rpo_pos =
     (if finger_a = finger_b then Some finger_a
      else do {
        a \<leftarrow> climb idoms rpo_pos finger_a finger_b;
        b \<leftarrow> climb idoms rpo_pos finger_b a;
        intersect a b idoms rpo_pos
      })"

fun candidate_from :: "idoms \<Rightarrow> nat option list \<Rightarrow> block_id list \<Rightarrow> block_id option
    \<Rightarrow> block_id option option" where
  "candidate_from idoms rpo_pos [] candidate = Some candidate"
| "candidate_from idoms rpo_pos (predecessor # ps) candidate = do {
     d \<leftarrow> idx idoms predecessor;
     (if d \<noteq> None then
        (case candidate of
           None \<Rightarrow> candidate_from idoms rpo_pos ps (Some predecessor)
         | Some current \<Rightarrow> do {
             m \<leftarrow> intersect current predecessor idoms rpo_pos;
             candidate_from idoms rpo_pos ps (Some m)
           })
      else candidate_from idoms rpo_pos ps candidate)
   }"

definition dominator_candidate :: "'a cfg \<Rightarrow> block_id \<Rightarrow> idoms \<Rightarrow> nat option list
    \<Rightarrow> block_id option option" where
  "dominator_candidate g block idoms rpo_pos = do {
     ps \<leftarrow> idx (preds g) block;
     candidate_from idoms rpo_pos ps None
   }"

fun idom_pass :: "'a cfg \<Rightarrow> nat option list \<Rightarrow> block_id list \<Rightarrow> idoms \<Rightarrow> bool
    \<Rightarrow> (idoms \<times> bool) option" where
  "idom_pass g rpo_pos [] idoms changed = Some (idoms, changed)"
| "idom_pass g rpo_pos (block # order) idoms changed = do {
     candidate \<leftarrow> dominator_candidate g block idoms rpo_pos;
     old \<leftarrow> idx idoms block;
     (if candidate \<noteq> old then do {
        idoms' \<leftarrow> upd idoms block candidate;
        idom_pass g rpo_pos order idoms' True
      } else idom_pass g rpo_pos order idoms changed)
   }"

partial_function (option) idom_loop :: "'a cfg \<Rightarrow> nat option list \<Rightarrow> block_id list \<Rightarrow> idoms
    \<Rightarrow> idoms option" where
  "idom_loop g rpo_pos order idoms = do {
     (idoms', changed) \<leftarrow> idom_pass g rpo_pos order idoms False;
     (if changed then idom_loop g rpo_pos order idoms' else Some idoms')
   }"

definition compute_idoms :: "'a cfg \<Rightarrow> block_id list \<Rightarrow> nat option list \<Rightarrow> idoms option" where
  "compute_idoms g order rpo_pos = do {
     let idoms = replicate (length (payloads g)) None;
     idoms \<leftarrow> (case order of
                 [] \<Rightarrow> Some idoms
               | root # _ \<Rightarrow> upd idoms root (Some root));
     require (1 \<le> length order);
     idom_loop g rpo_pos (drop 1 order) idoms
   }"

fun push_children :: "'a cfg \<Rightarrow> idoms \<Rightarrow> block_id list \<Rightarrow> block_id list list
    \<Rightarrow> block_id list list option" where
  "push_children g idoms [] children = Some children"
| "push_children g idoms (block # bs) children =
     (if block \<noteq> cfg_entry g then do {
        d \<leftarrow> idx idoms block;
        (case d of
           None \<Rightarrow> push_children g idoms bs children
         | Some parent \<Rightarrow> do {
             cs \<leftarrow> idx children parent;
             children' \<leftarrow> upd children parent (cs @ [block]);
             push_children g idoms bs children'
           })
      } else push_children g idoms bs children)"

definition dominator_children :: "'a cfg \<Rightarrow> idoms \<Rightarrow> block_id list list option" where
  "dominator_children g idoms = do {
     bs \<leftarrow> blocks g;
     push_children g idoms bs (replicate (length (payloads g)) [])
   }"

partial_function (option) interval_loop :: "block_id list list \<Rightarrow> frame list \<Rightarrow> nat list
    \<Rightarrow> nat list \<Rightarrow> nat \<Rightarrow> (nat list \<times> nat list) option" where
  "interval_loop children stack preorder postorder clock =
     (case stack of
        [] \<Rightarrow> Some (preorder, postorder)
      | (b, k) # rest \<Rightarrow> do {
          cs \<leftarrow> idx children b;
          (if k < length cs then do {
             preorder' \<leftarrow> upd preorder (cs ! k) clock;
             interval_loop children ((cs ! k, 0) # (b, k + 1) # rest) preorder' postorder (clock + 1)
           } else do {
             postorder' \<leftarrow> upd postorder b clock;
             interval_loop children rest preorder postorder' (clock + 1)
           })
        })"

definition dominator_intervals :: "block_id \<Rightarrow> block_id list list
    \<Rightarrow> (nat list \<times> nat list) option" where
  "dominator_intervals entry children = do {
     let preorder = replicate (length children) usize_max;
     let postorder = replicate (length children) usize_max;
     preorder \<leftarrow> upd preorder entry 0;
     interval_loop children [(entry, 0)] preorder postorder 1
   }"

record dominators =
  dom_entry :: block_id
  dom_idoms :: idoms
  dom_reachable :: "bool list"
  dom_children :: "block_id list list"
  dom_preorder :: "nat list"
  dom_postorder :: "nat list"

fun fill_rpo_pos :: "block_id list \<Rightarrow> nat \<Rightarrow> nat option list \<Rightarrow> nat option list option" where
  "fill_rpo_pos [] pos rpo_pos = Some rpo_pos"
| "fill_rpo_pos (block # order) pos rpo_pos = do {
     rpo_pos' \<leftarrow> upd rpo_pos block (Some pos);
     fill_rpo_pos order (pos + 1) rpo_pos'
   }"

definition dominators_of :: "'a cfg \<Rightarrow> dominators option" where
  "dominators_of g = do {
     order \<leftarrow> reverse_post_order_from_entry g;
     rpo_pos \<leftarrow> fill_rpo_pos order 0 (replicate (length (payloads g)) None);
     idoms \<leftarrow> compute_idoms g order rpo_pos;
     children \<leftarrow> dominator_children g idoms;
     (preorder, postorder) \<leftarrow> dominator_intervals (cfg_entry g) children;
     Some \<lparr>dom_entry = cfg_entry g,
           dom_idoms = map (\<lambda>i. if i = cfg_entry g then None else idoms ! i) [0..<length idoms],
           dom_reachable = map (\<lambda>p. p \<noteq> None) rpo_pos,
           dom_children = children, dom_preorder = preorder, dom_postorder = postorder\<rparr>
   }"

definition immediate_dominator :: "dominators \<Rightarrow> block_id \<Rightarrow> block_id option option" where
  "immediate_dominator d b = idx (dom_idoms d) b"

definition immediate_dominated_by :: "dominators \<Rightarrow> block_id \<Rightarrow> block_id list option" where
  "immediate_dominated_by d b = idx (dom_children d) b"

text \<open>The conjunction of \<open>strictly_dominates\<close> reads each array only when the tests before it hold.\<close>

definition strictly_dominates :: "dominators \<Rightarrow> block_id \<Rightarrow> block_id \<Rightarrow> bool option" where
  "strictly_dominates d a b = do {
     require (a < length (dom_idoms d));
     require (b < length (dom_idoms d));
     (if a = b then Some False else do {
        ra \<leftarrow> idx (dom_reachable d) a;
        (if \<not> ra then Some False else do {
           rb \<leftarrow> idx (dom_reachable d) b;
           (if \<not> rb then Some False else do {
              pa \<leftarrow> idx (dom_preorder d) a;
              pb \<leftarrow> idx (dom_preorder d) b;
              (if \<not> pa < pb then Some False else do {
                 qb \<leftarrow> idx (dom_postorder d) b;
                 qa \<leftarrow> idx (dom_postorder d) a;
                 Some (qb < qa)
               })
            })
         })
      })
   }"

definition dominates :: "dominators \<Rightarrow> block_id \<Rightarrow> block_id \<Rightarrow> bool option" where
  "dominates d a b =
     (if a = b then idx (dom_reachable d) b else strictly_dominates d a b)"

subsection \<open>Domination by paths\<close>

definition entry_path :: "'a cfg \<Rightarrow> block_id list \<Rightarrow> block_id \<Rightarrow> bool" where
  "entry_path g p b \<longleftrightarrow> p \<noteq> [] \<and> hd p = cfg_entry g \<and> last p = b \<and>
     successively (\<lambda>x y. (x, y) \<in> edges g) p"

definition dominating :: "'a cfg \<Rightarrow> block_id \<Rightarrow> block_id set" where
  "dominating g b = {a. \<forall>p. entry_path g p b \<longrightarrow> a \<in> set p}"

lemma entry_path_entry: "entry_path g [cfg_entry g] (cfg_entry g)"
  by (simp add: entry_path_def)

lemma entry_path_snoc:
  "entry_path g p a \<Longrightarrow> (a, b) \<in> edges g \<Longrightarrow> entry_path g (p @ [b]) b"
  by (auto simp: entry_path_def successively_append_iff)

lemma dominating_entry: "dominating g (cfg_entry g) = {cfg_entry g}"
  using entry_path_entry [of g] by (fastforce simp: dominating_def entry_path_def dest: hd_in_set)

lemma dominating_pred:
  assumes "(p, b) \<in> edges g" and "x \<in> dominating g b" and "x \<noteq> b"
  shows "x \<in> dominating g p"
  using assms entry_path_snoc [OF _ assms(1)] by (fastforce simp: dominating_def)

subsection \<open>Idom chains\<close>

text \<open>
  \<open>doms idoms b\<close> is the chain of immediate dominators above \<open>b\<close>, \<open>b\<close> included. In a
  forest every chain descends in the position \<open>P\<close> of the reverse post-order down to the root.
\<close>

definition chain :: "idoms \<Rightarrow> (nat \<times> nat) set" where
  "chain idoms = {(c, d). c < length idoms \<and> idoms ! c = Some d}"

definition doms :: "idoms \<Rightarrow> nat \<Rightarrow> nat set" where
  "doms idoms b = (chain idoms)\<^sup>* `` {b}"

definition processed :: "idoms \<Rightarrow> nat set" where
  "processed idoms = {c. c < length idoms \<and> idoms ! c \<noteq> None}"

definition forest :: "nat \<Rightarrow> (nat \<Rightarrow> nat) \<Rightarrow> idoms \<Rightarrow> bool" where
  "forest r P idoms \<longleftrightarrow> r < length idoms \<and> idoms ! r = Some r \<and> P r = 0 \<and>
     inj_on P (processed idoms) \<and>
     (\<forall>(c, d) \<in> chain idoms. d \<in> processed idoms \<and> (c \<noteq> r \<longrightarrow> P d < P c))"

lemma forestD:
  assumes "forest r P idoms"
  shows "r \<in> processed idoms" and "(r, d) \<in> chain idoms \<Longrightarrow> d = r" and "P r = 0"
    and "inj_on P (processed idoms)"
    and "(c, d) \<in> chain idoms \<Longrightarrow> d \<in> processed idoms"
    and "(c, d) \<in> chain idoms \<Longrightarrow> c \<noteq> r \<Longrightarrow> P d < P c"
  using assms by (auto simp: forest_def processed_def chain_def)

lemma chain_single_valued: "single_valued (chain idoms)"
  by (auto simp: single_valued_def chain_def)

lemma doms_refl [simp, intro]: "b \<in> doms idoms b"
  by (simp add: doms_def)

lemma doms_step: "(b, d) \<in> chain idoms \<Longrightarrow> doms idoms b = insert b (doms idoms d)"
  unfolding doms_def
  by (auto elim: converse_rtranclE dest: single_valuedD [OF chain_single_valued]
      intro: converse_rtrancl_into_rtrancl)

lemma doms_trans: "x \<in> doms idoms y \<Longrightarrow> y \<in> doms idoms b \<Longrightarrow> x \<in> doms idoms b"
  unfolding doms_def by auto

lemma doms_induct [consumes 1, case_names base step]:
  assumes "x \<in> doms idoms b" and "Q x"
    and "\<And>c d. (c, d) \<in> chain idoms \<Longrightarrow> x \<in> doms idoms d \<Longrightarrow> Q d \<Longrightarrow> Q c"
  shows "Q b"
  using assms unfolding doms_def Image_def
  by simp (erule converse_rtrancl_induct; auto)

lemma processed_chain: "b \<in> processed idoms \<Longrightarrow> \<exists>d. (b, d) \<in> chain idoms"
  by (auto simp: processed_def chain_def)

lemma chain_processed: "(b, d) \<in> chain idoms \<Longrightarrow> b \<in> processed idoms"
  by (auto simp: processed_def chain_def)

lemma doms_processed:
  assumes f: "forest r P idoms" and "x \<in> doms idoms b" and "b \<in> processed idoms"
  shows "x \<in> processed idoms"
proof -
  have "b \<in> processed idoms \<longrightarrow> x \<in> processed idoms"
    using assms(2) by (induction rule: doms_induct) (use forestD(5) [OF f] in blast)+
  then show ?thesis using assms(3) by simp
qed

lemma doms_root: "forest r P idoms \<Longrightarrow> doms idoms r = {r}"
proof -
  assume f: "forest r P idoms"
  have "x = r" if "(r, x) \<in> (chain idoms)\<^sup>*" for x
    using that by (induction rule: rtrancl_induct) (use forestD(2) [OF f] in auto)
  then show "doms idoms r = {r}" by (auto simp: doms_def)
qed

lemma doms_le:
  assumes f: "forest r P idoms" and "x \<in> doms idoms b"
  shows "P x \<le> P b"
  using assms(2)
proof (induction rule: doms_induct)
  case (step c d)
  then show ?case
    using forestD(2,6) [OF f] by (cases "c = r") fastforce+
qed simp

lemma doms_has_root:
  assumes f: "forest r P idoms"
  shows "b \<in> processed idoms \<Longrightarrow> r \<in> doms idoms b"
proof (induction "P b" arbitrary: b rule: less_induct)
  case less
  show ?case
  proof (cases "b = r")
    case False
    obtain d where d: "(b, d) \<in> chain idoms" using processed_chain less.prems by blast
    then have "r \<in> doms idoms d" using less.hyps forestD(5,6) [OF f d] False by blast
    then show ?thesis using doms_step [OF d] by simp
  qed simp
qed

lemma doms_linear:
  assumes f: "forest r P idoms" and x: "x \<in> doms idoms b" and y: "y \<in> doms idoms b"
    and b: "b \<in> processed idoms" and le: "P y \<le> P x"
  shows "y \<in> doms idoms x"
proof (rule ccontr)
  assume n: "y \<notin> doms idoms x"
  have "x \<in> doms idoms y"
    using single_valued_confluent [OF chain_single_valued, of b x idoms y] x y n
    unfolding doms_def by auto
  then have "P x = P y" using doms_le [OF f] le by fastforce
  then have "x = y"
    using inj_onD [OF forestD(4) [OF f]] doms_processed [OF f _ b] x y by blast
  then show False using n by simp
qed

lemma doms_sub: "x \<in> doms idoms b \<Longrightarrow> doms idoms x \<subseteq> doms idoms b"
  using doms_trans by blast

text \<open>Redirecting the idom of \<open>c\<close> keeps every chain above \<open>c\<close> and replaces what lies below.\<close>

lemma chain_update:
  assumes "c < length idoms"
  shows "chain (idoms[c := Some m]) = {(x, y) \<in> chain idoms. x \<noteq> c} \<union> {(c, m)}"
  using assms by (auto simp: chain_def nth_list_update split: if_splits)

lemma doms_update_avoid:
  assumes c: "c < length idoms" and "c \<notin> doms idoms b"
  shows "doms (idoms[c := Some m]) b = doms idoms b"
proof (intro set_eqI iffI)
  fix x
  assume "x \<in> doms (idoms[c := Some m]) b"
  then have "c \<notin> doms idoms b \<longrightarrow> x \<in> doms idoms b"
  proof (induction rule: doms_induct)
    case (step u d)
    then show ?case
      using doms_step [of u d idoms] unfolding chain_update [OF c] by auto
  qed simp
  then show "x \<in> doms idoms b" using assms by simp
next
  fix x
  assume "x \<in> doms idoms b"
  then have "c \<notin> doms idoms b \<longrightarrow> x \<in> doms (idoms[c := Some m]) b"
  proof (induction rule: doms_induct)
    case (step u d)
    show ?case
    proof
      assume a: "c \<notin> doms idoms u"
      then have n: "u \<noteq> c" "c \<notin> doms idoms d" using doms_step [OF step(1)] by auto
      then have "(u, d) \<in> chain (idoms[c := Some m])"
        using step(1) unfolding chain_update [OF c] by simp
      then show "x \<in> doms (idoms[c := Some m]) u" using doms_step step n by blast
    qed
  qed simp
  then show "x \<in> doms (idoms[c := Some m]) b" using assms by simp
qed

lemma doms_update_through:
  assumes c: "c < length idoms" and b: "c \<in> doms idoms b"
  shows "c \<in> doms (idoms[c := Some m]) b"
  using b
proof (induction rule: doms_induct)
  case (step u d)
  show ?case
  proof (cases "u = c")
    case False
    then have "(u, d) \<in> chain (idoms[c := Some m])"
      using step(1) unfolding chain_update [OF c] by simp
    then show ?thesis using doms_step step by blast
  qed simp
qed simp

lemma doms_update_above:
  assumes f: "forest r P idoms" and f': "forest r P (idoms[c := Some m])"
    and c: "c < length idoms" and x: "P c < P x"
  shows "x \<in> doms (idoms[c := Some m]) b \<longleftrightarrow> x \<in> doms idoms b"
proof
  assume "x \<in> doms (idoms[c := Some m]) b"
  then show "x \<in> doms idoms b"
  proof (induction rule: doms_induct)
    case (step u d)
    have "x \<in> doms (idoms[c := Some m]) u" using step(1,2) doms_step by blast
    then have "u \<noteq> c" using doms_le [OF f'] x by fastforce
    then have "(u, d) \<in> chain idoms" using step(1) unfolding chain_update [OF c] by simp
    then show ?case using doms_step step by blast
  qed simp
next
  assume "x \<in> doms idoms b"
  then show "x \<in> doms (idoms[c := Some m]) b"
  proof (induction rule: doms_induct)
    case (step u d)
    have "x \<in> doms idoms u" using step(1,2) doms_step by blast
    then have "u \<noteq> c" using doms_le [OF f] x by fastforce
    then have "(u, d) \<in> chain (idoms[c := Some m])"
      using step(1) unfolding chain_update [OF c] by simp
    then show ?case using doms_step step by blast
  qed simp
qed

subsection \<open>Intersection of chains\<close>

definition rpo_table :: "nat option list \<Rightarrow> (nat \<Rightarrow> nat) \<Rightarrow> nat set \<Rightarrow> bool" where
  "rpo_table rpo_pos P S \<longleftrightarrow> (\<forall>x \<in> S. x < length rpo_pos \<and> rpo_pos ! x = Some (P x))"

lemma rpo_table_idx: "rpo_table rpo_pos P S \<Longrightarrow> x \<in> S \<Longrightarrow> idx rpo_pos x = Some (Some (P x))"
  by (simp add: rpo_table_def panic_simps)

lemma climb_correct:
  assumes f: "forest r P idoms" and t: "rpo_table rpo_pos P (processed idoms)"
    and b: "b \<in> processed idoms"
  shows "a \<in> processed idoms \<Longrightarrow> \<exists>a'. climb idoms rpo_pos a b = Some a' \<and>
    a' \<in> processed idoms \<and> P a' \<le> P b \<and> (a' = a \<or> P a' < P a) \<and>
    doms idoms a' \<inter> doms idoms b = doms idoms a \<inter> doms idoms b"
proof (induction "P a" arbitrary: a rule: less_induct)
  case less
  show ?case
  proof (cases "P a > P b")
    case True
    have "a \<noteq> r" using True forestD(3) [OF f] by auto
    obtain d where d: "(a, d) \<in> chain idoms" using processed_chain less.prems by blast
    have lt: "P d < P a" and p: "d \<in> processed idoms" using forestD(5,6) [OF f d] \<open>a \<noteq> r\<close> by auto
    obtain a' where IH: "climb idoms rpo_pos d b = Some a'" "a' \<in> processed idoms" "P a' \<le> P b"
      "a' = d \<or> P a' < P d" "doms idoms a' \<inter> doms idoms b = doms idoms d \<inter> doms idoms b"
      using less.hyps [OF lt p] by blast
    have "idx idoms a = Some (Some d)" using d by (simp add: chain_def panic_simps)
    then have "climb idoms rpo_pos a b = Some a'"
      using IH(1) True rpo_table_idx [OF t] less.prems b by (subst climb.simps) simp
    moreover have "a \<notin> doms idoms b" using doms_le [OF f, of a b] True by auto
    ultimately show ?thesis using IH lt doms_step [OF d] by auto
  next
    case False
    then have "climb idoms rpo_pos a b = Some a"
      using rpo_table_idx [OF t] less.prems b by (subst climb.simps) simp
    then show ?thesis using less.prems False by auto
  qed
qed

lemma intersect_correct:
  assumes f: "forest r P idoms" and t: "rpo_table rpo_pos P (processed idoms)"
  shows "a \<in> processed idoms \<Longrightarrow> b \<in> processed idoms \<Longrightarrow>
    \<exists>m. intersect a b idoms rpo_pos = Some m \<and> m \<in> processed idoms \<and>
      doms idoms m = doms idoms a \<inter> doms idoms b"
proof (induction "P a + P b" arbitrary: a b rule: less_induct)
  case less
  show ?case
  proof (cases "a = b")
    case True
    then show ?thesis using less.prems by (subst intersect.simps) simp
  next
    case False
    obtain a' where a': "climb idoms rpo_pos a b = Some a'" "a' \<in> processed idoms" "P a' \<le> P b"
      "a' = a \<or> P a' < P a" "doms idoms a' \<inter> doms idoms b = doms idoms a \<inter> doms idoms b"
      using climb_correct [OF f t less.prems(2,1)] by blast
    obtain b' where b': "climb idoms rpo_pos b a' = Some b'" "b' \<in> processed idoms" "P b' \<le> P a'"
      "b' = b \<or> P b' < P b" "doms idoms b' \<inter> doms idoms a' = doms idoms b \<inter> doms idoms a'"
      using climb_correct [OF f t a'(2) less.prems(2)] by blast
    have "P a' + P b' < P a + P b"
    proof (cases "a' = a \<and> b' = b")
      case True
      then have "P a = P b" using a'(3) b'(3) by simp
      then have "a = b" using inj_onD [OF forestD(4) [OF f]] less.prems by blast
      then show ?thesis using False by simp
    next
      case neq: False
      then show ?thesis using a'(4) b'(4) by auto
    qed
    from less.hyps [OF this a'(2) b'(2)] obtain m where m: "intersect a' b' idoms rpo_pos = Some m"
      "m \<in> processed idoms" "doms idoms m = doms idoms a' \<inter> doms idoms b'" by blast
    have "intersect a b idoms rpo_pos = Some m"
      using a'(1) b'(1) m(1) False by (subst intersect.simps) simp
    then show ?thesis using m a'(5) b'(5) by blast
  qed
qed

lemma candidate_from_correct:
  assumes f: "forest r P idoms" and t: "rpo_table rpo_pos P (processed idoms)"
  shows "set ps \<subseteq> {..<length idoms} \<Longrightarrow> (\<forall>c. candidate = Some c \<longrightarrow> c \<in> processed idoms) \<Longrightarrow>
    set_option candidate \<union> (set ps \<inter> processed idoms) \<noteq> {} \<Longrightarrow>
    \<exists>m. candidate_from idoms rpo_pos ps candidate = Some (Some m) \<and> m \<in> processed idoms \<and>
      doms idoms m =
        (\<Inter>p \<in> set_option candidate \<union> (set ps \<inter> processed idoms). doms idoms p)"
proof (induction ps arbitrary: candidate)
  case Nil
  then show ?case by (cases candidate) auto
next
  case (Cons p ps)
  have p: "p < length idoms" and ps: "set ps \<subseteq> {..<length idoms}" using Cons.prems by auto
  show ?case
  proof (cases "p \<in> processed idoms")
    case False
    then have "idoms ! p = None" using p by (simp add: processed_def)
    then show ?thesis
      using Cons.IH [OF ps Cons.prems(2)] Cons.prems(3) False p by (simp add: panic_simps)
  next
    case True
    then have s: "idoms ! p \<noteq> None" by (simp add: processed_def)
    show ?thesis
    proof (cases candidate)
      case None
      then show ?thesis
        using Cons.IH [OF ps, of "Some p"] True s p by (auto simp: panic_simps)
    next
      case (Some c)
      obtain m where m: "intersect c p idoms rpo_pos = Some m" "m \<in> processed idoms"
        "doms idoms m = doms idoms c \<inter> doms idoms p"
        using intersect_correct [OF f t _ True, of c] Cons.prems(2) Some by blast
      have "(\<Inter>x \<in> set_option (Some m) \<union> (set ps \<inter> processed idoms). doms idoms x) =
        (\<Inter>x \<in> set_option candidate \<union> (set (p # ps) \<inter> processed idoms). doms idoms x)"
        using m(3) Some True by auto
      then show ?thesis
        using Cons.IH [OF ps, of "Some m"] m(1,2) Some s p by (auto simp: panic_simps)
    qed
  qed
qed

subsection \<open>The invariant of the iteration\<close>

text \<open>
  \<open>P\<close> numbers the live blocks in reverse post-order; every live block but the entry has a
  predecessor with a smaller number.
\<close>

definition rpo_index :: "'a cfg \<Rightarrow> block_id list \<Rightarrow> (nat \<Rightarrow> nat) \<Rightarrow> bool" where
  "rpo_index g order P \<longleftrightarrow> distinct order \<and> set order = live g \<and> order \<noteq> [] \<and>
     hd order = cfg_entry g \<and> (\<forall>i < length order. P (order ! i) = i) \<and>
     (\<forall>c \<in> live g. c \<noteq> cfg_entry g \<longrightarrow> (\<exists>p. (p, c) \<in> edges g \<and> p \<in> live g \<and> P p < P c))"

lemma rpo_indexD:
  assumes "rpo_index g order P"
  shows "inj_on P (live g)" and "b \<in> live g \<Longrightarrow> P b < length order \<and> order ! P b = b"
    and "cfg_entry g \<in> live g" and "P (cfg_entry g) = 0"
    and "c \<in> live g \<Longrightarrow> c \<noteq> cfg_entry g \<Longrightarrow> \<exists>p. (p, c) \<in> edges g \<and> p \<in> live g \<and> P p < P c"
    and "i < length order \<Longrightarrow> P (order ! i) = i" and "i < length order \<Longrightarrow> order ! i \<in> live g"
proof -
  show pos: "P (order ! i) = i" if "i < length order" for i using assms that by (simp add: rpo_index_def)
  have s: "set order = live g" using assms by (simp add: rpo_index_def)
  show b: "P b < length order \<and> order ! P b = b" if "b \<in> live g" for b
    using that pos unfolding s [symmetric] by (auto simp: in_set_conv_nth)
  then show "inj_on P (live g)" by (metis inj_onI)
  have "hd order = order ! 0" "0 < length order" using assms by (auto simp: rpo_index_def hd_conv_nth)
  then show "cfg_entry g \<in> live g" "P (cfg_entry g) = 0"
    using assms pos [of 0] s by (auto simp: rpo_index_def)
  show "i < length order \<Longrightarrow> order ! i \<in> live g" using s nth_mem by blast
qed (use assms in \<open>auto simp: rpo_index_def\<close>)

text \<open>
  The invariant while position \<open>k\<close> of the order is about to be processed. \<open>K\<close>: a chain
  passes through every block that dominates its start. \<open>M\<close>: a new candidate lies on the
  current chain. \<open>A\<close>: the chain of a forward predecessor covers the current chain from \<open>k\<close>
  on, and all of it for the blocks already visited in this pass.
\<close>

definition inv_K :: "'a cfg \<Rightarrow> idoms \<Rightarrow> bool" where
  "inv_K g idoms \<longleftrightarrow> (\<forall>c d. (c, d) \<in> chain idoms \<longrightarrow> c \<noteq> cfg_entry g \<longrightarrow>
     dominating g c - {c} \<subseteq> dominating g d)"

definition inv_M :: "'a cfg \<Rightarrow> idoms \<Rightarrow> bool" where
  "inv_M g idoms \<longleftrightarrow> (\<forall>c d x. (c, d) \<in> chain idoms \<longrightarrow> c \<noteq> cfg_entry g \<longrightarrow>
     (\<forall>p \<in> processed idoms. (p, c) \<in> edges g \<longrightarrow> x \<in> doms idoms p) \<longrightarrow> x \<in> doms idoms d)"

definition inv_A :: "'a cfg \<Rightarrow> (nat \<Rightarrow> nat) \<Rightarrow> idoms \<Rightarrow> nat \<Rightarrow> bool" where
  "inv_A g P idoms k \<longleftrightarrow> (\<forall>c d p x. (c, d) \<in> chain idoms \<longrightarrow> c \<noteq> cfg_entry g \<longrightarrow>
     (p, c) \<in> edges g \<longrightarrow> p \<in> live g \<longrightarrow> P p < P c \<longrightarrow> x \<in> doms idoms d \<longrightarrow>
     P c < k \<or> k \<le> P x \<longrightarrow> x \<in> doms idoms p)"

definition idom_inv :: "'a cfg \<Rightarrow> (nat \<Rightarrow> nat) \<Rightarrow> idoms \<Rightarrow> nat \<Rightarrow> bool" where
  "idom_inv g P idoms k \<longleftrightarrow> length idoms = node_count g \<and> forest (cfg_entry g) P idoms \<and>
     processed idoms \<subseteq> live g \<and> inv_K g idoms \<and> inv_M g idoms \<and> inv_A g P idoms k \<and>
     (\<forall>b \<in> live g. P b < k \<longrightarrow> b \<in> processed idoms) \<and>
     (\<forall>c \<in> processed idoms. \<forall>p \<in> live g. P p < P c \<longrightarrow> p \<in> processed idoms)"

lemma idom_invD:
  assumes "idom_inv g P idoms k"
  shows "length idoms = node_count g" and "forest (cfg_entry g) P idoms"
    and "processed idoms \<subseteq> live g" and "inv_K g idoms" and "inv_M g idoms" and "inv_A g P idoms k"
    and "b \<in> live g \<Longrightarrow> P b < k \<Longrightarrow> b \<in> processed idoms"
    and "c \<in> processed idoms \<Longrightarrow> p \<in> live g \<Longrightarrow> P p < P c \<Longrightarrow> p \<in> processed idoms"
  using assms by (auto simp: idom_inv_def)

lemma dominating_doms:
  assumes f: "forest (cfg_entry g) P idoms" and K: "inv_K g idoms"
  shows "b \<in> processed idoms \<Longrightarrow> dominating g b \<subseteq> doms idoms b"
proof (induction "P b" arbitrary: b rule: less_induct)
  case less
  show ?case
  proof (cases "b = cfg_entry g")
    case True
    then show ?thesis by (simp add: dominating_entry)
  next
    case False
    obtain d where d: "(b, d) \<in> chain idoms" using processed_chain less.prems by blast
    have "dominating g d \<subseteq> doms idoms d"
      using less.hyps forestD(5,6) [OF f d] False by blast
    moreover have "dominating g b - {b} \<subseteq> dominating g d"
      using K d False unfolding inv_K_def by blast
    ultimately show ?thesis using doms_step [OF d] by auto
  qed
qed

lemma dominating_along:
  assumes f: "forest (cfg_entry g) P idoms" and K: "inv_K g idoms"
    and "m \<in> doms idoms a" and x: "P x \<le> P m"
  shows "x \<in> dominating g a \<Longrightarrow> x \<in> dominating g m"
  using assms(3)
proof (induction rule: doms_induct)
  case (step u d)
  show ?case
  proof (cases "u = cfg_entry g")
    case True
    then show ?thesis using step forestD(2) [OF f] by blast
  next
    case False
    have "P m \<le> P d" "P d < P u" using doms_le [OF f step(2)] forestD(6) [OF f step(1) False] by auto
    then have "x \<noteq> u" using x by auto
    then have "x \<in> dominating g d" using K step(1,4) False unfolding inv_K_def by blast
    then show ?thesis using step by blast
  qed
qed simp

subsection \<open>One update of an idom\<close>

definition idom_step :: "'a cfg \<Rightarrow> block_id list \<Rightarrow> (nat \<Rightarrow> nat) \<Rightarrow> idoms \<Rightarrow> nat \<Rightarrow> nat \<Rightarrow> bool" where
  "idom_step g order P idoms c m \<longleftrightarrow> rpo_index g order P \<and> idom_inv g P idoms (P c) \<and>
     c < node_count g \<and> c \<in> live g \<and> c \<noteq> cfg_entry g \<and> m \<in> processed idoms \<and> P m < P c \<and>
     (\<forall>x. x \<in> doms idoms m \<longleftrightarrow> (\<forall>p \<in> processed idoms. (p, c) \<in> edges g \<longrightarrow> x \<in> doms idoms p))"

lemma idom_stepD:
  assumes "idom_step g order P idoms c m"
  shows "rpo_index g order P" and "idom_inv g P idoms (P c)" and "c < length idoms"
    and "c \<in> live g" and "c \<noteq> cfg_entry g" and "m \<in> processed idoms" and "P m < P c"
    and "x \<in> doms idoms m \<longleftrightarrow> (\<forall>p \<in> processed idoms. (p, c) \<in> edges g \<longrightarrow> x \<in> doms idoms p)"
  using assms by (auto simp: idom_step_def idom_inv_def)

lemma processed_update: "c < length idoms \<Longrightarrow> processed (idoms[c := Some m]) = insert c (processed idoms)"
  by (auto simp: processed_def nth_list_update split: if_splits)

lemma step_forest:
  assumes s: "idom_step g order P idoms c m"
  shows "forest (cfg_entry g) P (idoms[c := Some m])"
proof -
  note S = idom_stepD [OF s] and I = idom_invD [OF idom_stepD(2) [OF s]]
  have "inj_on P (insert c (processed idoms))"
    by (rule inj_on_subset [OF rpo_indexD(1) [OF S(1)]]) (use I(3) S(4) in blast)
  moreover have "idoms[c := Some m] ! cfg_entry g = Some (cfg_entry g)"
    using I(2) S(5) by (simp add: forest_def)
  ultimately show ?thesis
    using I(2) S unfolding forest_def processed_update [OF S(3)] chain_update [OF S(3)] by auto
qed

lemma step_keep:
  assumes s: "idom_step g order P idoms c m" and "P b < P c"
  shows "doms (idoms[c := Some m]) b = doms idoms b"
  using doms_update_avoid [OF idom_stepD(3) [OF s], of b m]
    doms_le [OF idom_invD(2) [OF idom_stepD(2) [OF s]], of c b] assms(2) by fastforce

lemma step_above:
  assumes s: "idom_step g order P idoms c m" and "P c < P x"
  shows "x \<in> doms (idoms[c := Some m]) b \<longleftrightarrow> x \<in> doms idoms b"
  using doms_update_above [OF idom_invD(2) [OF idom_stepD(2) [OF s]] step_forest [OF s]
      idom_stepD(3) [OF s] assms(2)] .

lemma step_doms_c:
  assumes s: "idom_step g order P idoms c m"
  shows "doms (idoms[c := Some m]) c = insert c (doms idoms m)"
proof -
  have "(c, m) \<in> chain (idoms[c := Some m])"
    unfolding chain_update [OF idom_stepD(3) [OF s]] by simp
  from doms_step [OF this] show ?thesis using step_keep [OF s idom_stepD(7) [OF s]] by simp
qed

lemma step_lower:
  assumes s: "idom_step g order P idoms c m" and d: "(c, d) \<in> chain idoms"
  shows "doms idoms m \<subseteq> doms idoms d"
  using idom_invD(5) [OF idom_stepD(2) [OF s]] d idom_stepD(5,8) [OF s]
  unfolding inv_M_def by blast

lemma step_mono:
  assumes s: "idom_step g order P idoms c m" and b: "b \<in> processed idoms"
  shows "doms (idoms[c := Some m]) b \<subseteq> doms idoms b"
proof (cases "c \<in> doms idoms b")
  case False
  then show ?thesis using doms_update_avoid [OF idom_stepD(3) [OF s]] by blast
next
  case True
  note S = idom_stepD [OF s] and I = idom_invD [OF idom_stepD(2) [OF s]]
  obtain d where d: "(c, d) \<in> chain idoms"
    using doms_processed [OF I(2) True b] processed_chain by blast
  show ?thesis
  proof
    fix x
    assume x: "x \<in> doms (idoms[c := Some m]) b"
    show "x \<in> doms idoms b"
    proof (cases "P c < P x")
      case False
      have b': "b \<in> processed (idoms[c := Some m])" using b processed_update [OF S(3)] by simp
      have "x \<in> doms (idoms[c := Some m]) c"
        using doms_linear [OF step_forest [OF s] doms_update_through [OF S(3) True] x b'] False by simp
      then have "x \<in> doms idoms c"
        using step_lower [OF s d] doms_step [OF d] unfolding step_doms_c [OF s] by blast
      then show ?thesis using True doms_trans by blast
    qed (use step_above [OF s] x in blast)
  qed
qed

lemma step_inv_K:
  assumes s: "idom_step g order P idoms c m"
  shows "inv_K g (idoms[c := Some m])"
proof -
  note S = idom_stepD [OF s] and I = idom_invD [OF idom_stepD(2) [OF s]]
  have "x \<in> dominating g m" if x: "x \<in> dominating g c" "x \<noteq> c" for x
  proof -
    have p: "x \<in> dominating g p \<and> x \<in> doms idoms p"
      if "p \<in> processed idoms" "(p, c) \<in> edges g" for p
      using dominating_pred [OF that(2) x] dominating_doms [OF I(2,4) that(1)] by blast
    have xm: "x \<in> doms idoms m" using p S(8) by blast
    obtain q where q: "(q, c) \<in> edges g" "q \<in> processed idoms"
      using rpo_indexD(5) [OF S(1,4,5)] I(7) by blast
    have "m \<in> doms idoms q" using S(8) [of m] q by simp
    from dominating_along [OF I(2,4) this doms_le [OF I(2) xm]] show ?thesis using p q by blast
  qed
  then show ?thesis
    using I(4) unfolding inv_K_def chain_update [OF S(3)] by blast
qed

lemma step_inv_M:
  assumes s: "idom_step g order P idoms c m"
  shows "inv_M g (idoms[c := Some m])"
  unfolding inv_M_def
proof (intro allI impI)
  note S = idom_stepD [OF s] and I = idom_invD [OF idom_stepD(2) [OF s]]
  let ?i = "idoms[c := Some m]"
  fix b e x
  assume be: "(b, e) \<in> chain ?i" and b: "b \<noteq> cfg_entry g"
    and all: "\<forall>p \<in> processed ?i. (p, b) \<in> edges g \<longrightarrow> x \<in> doms ?i p"
  have all': "\<forall>p \<in> processed idoms. (p, b) \<in> edges g \<longrightarrow> x \<in> doms idoms p"
    using all step_mono [OF s] unfolding processed_update [OF S(3)] by blast
  show "x \<in> doms ?i e"
  proof (cases "b = c")
    case True
    then have "e = m" using be unfolding chain_update [OF S(3)] by auto
    then show ?thesis using S(8) all' True step_keep [OF s S(7)] by simp
  next
    case False
    then have be0: "(b, e) \<in> chain idoms" using be unfolding chain_update [OF S(3)] by simp
    have xe: "x \<in> doms idoms e" using I(5) be0 b all' unfolding inv_M_def by blast
    show ?thesis
    proof (cases "c \<in> doms idoms e")
      case False
      then show ?thesis using xe doms_update_avoid [OF S(3)] by blast
    next
      case c: True
      have bl: "b \<in> live g" "b \<in> processed idoms" using chain_processed [OF be0] I(3) by auto
      obtain p where p: "(p, b) \<in> edges g" "p \<in> live g" "P p < P b"
        using rpo_indexD(5) [OF S(1) bl(1) b] by blast
      have pp: "p \<in> processed idoms" using I(8) [OF bl(2) p(2,3)] .
      have "c \<in> doms idoms p" using I(6) be0 b p c unfolding inv_A_def by blast
      then have cp: "c \<in> doms ?i p" using doms_update_through [OF S(3)] by blast
      have pp': "p \<in> processed ?i" using pp processed_update [OF S(3)] by simp
      then have xp: "x \<in> doms ?i p" using all p(1) by blast
      show ?thesis
      proof (cases "P c < P x")
        case False
        then have "x \<in> doms ?i c" using doms_linear [OF step_forest [OF s] cp xp pp'] by simp
        then show ?thesis using doms_trans doms_update_through [OF S(3) c] by blast
      qed (use step_above [OF s] xe in blast)
    qed
  qed
qed

lemma step_inv_A:
  assumes s: "idom_step g order P idoms c m"
  shows "inv_A g P (idoms[c := Some m]) (Suc (P c))"
  unfolding inv_A_def
proof (intro allI impI)
  note S = idom_stepD [OF s] and I = idom_invD [OF idom_stepD(2) [OF s]]
  let ?i = "idoms[c := Some m]"
  fix b e p x
  assume be: "(b, e) \<in> chain ?i" and b: "b \<noteq> cfg_entry g"
    and p: "(p, b) \<in> edges g" "p \<in> live g" "P p < P b" and xe: "x \<in> doms ?i e"
    and or: "P b < Suc (P c) \<or> Suc (P c) \<le> P x"
  show "x \<in> doms ?i p"
  proof (cases "b = c")
    case True
    then have "e = m" using be unfolding chain_update [OF S(3)] by auto
    then have "x \<in> doms idoms m" using xe step_keep [OF s S(7)] by simp
    then have "x \<in> doms idoms p" using S(8) I(7) [OF p(2)] p True by simp
    then show ?thesis using step_keep [OF s] p(3) True by simp
  next
    case False
    then have be0: "(b, e) \<in> chain idoms" using be unfolding chain_update [OF S(3)] by simp
    have A: "x \<in> doms idoms p" if "x \<in> doms idoms e" "P b < P c \<or> P c \<le> P x"
      using I(6) be0 b p that unfolding inv_A_def by blast
    show ?thesis
    proof (cases "P c < P x")
      case True
      then show ?thesis using A xe step_above [OF s True] by simp
    next
      case low: False
      have "b \<in> live g" using chain_processed [OF be0] I(3) by blast
      then have "P b \<noteq> P c" using inj_onD [OF rpo_indexD(1) [OF S(1)], of b c] S(4) False by blast
      then have lt: "P b < P c" using or low by simp
      then have "P e < P c" using forestD(6) [OF I(2) be0 b] by simp
      then show ?thesis using A xe lt p(3) step_keep [OF s] by simp
    qed
  qed
qed

lemma step_inv:
  assumes s: "idom_step g order P idoms c m"
  shows "idom_inv g P (idoms[c := Some m]) (Suc (P c))"
  unfolding idom_inv_def
proof (intro conjI ballI impI)
  note S = idom_stepD [OF s] and I = idom_invD [OF idom_stepD(2) [OF s]]
  show "length (idoms[c := Some m]) = node_count g" using I(1) by simp
  show "forest (cfg_entry g) P (idoms[c := Some m])" by (rule step_forest [OF s])
  show "processed (idoms[c := Some m]) \<subseteq> live g" using I(3) S(4) processed_update [OF S(3)] by simp
  show "b \<in> processed (idoms[c := Some m])" if "b \<in> live g" "P b < Suc (P c)" for b
  proof (cases "P b = P c")
    case True
    then have "b = c" using inj_onD [OF rpo_indexD(1) [OF S(1)]] that S(4) by blast
    then show ?thesis using processed_update [OF S(3)] by simp
  next
    case False
    then show ?thesis using that I(7) processed_update [OF S(3)] by simp
  qed
  then show "p \<in> processed (idoms[c := Some m])"
    if "b \<in> processed (idoms[c := Some m])" "p \<in> live g" "P p < P b" for b p
    using that I(7,8) processed_update [OF S(3)] by auto
qed (rule step_inv_K [OF s] step_inv_M [OF s] step_inv_A [OF s])+

subsection \<open>Passes and their termination\<close>

definition idom_rank :: "(nat \<Rightarrow> nat) \<Rightarrow> idoms \<Rightarrow> nat" where
  "idom_rank P idoms = (\<Sum>b < length idoms. case idoms ! b of None \<Rightarrow> length idoms | Some d \<Rightarrow> P d)"

lemma idom_rank_update:
  assumes c: "c < length idoms"
    and less: "P m < (case idoms ! c of None \<Rightarrow> length idoms | Some d \<Rightarrow> P d)"
  shows "idom_rank P (idoms[c := Some m]) < idom_rank P idoms"
  unfolding idom_rank_def length_list_update
  by (rule sum_strict_mono_ex1) (use assms in \<open>auto simp: nth_list_update split: option.splits\<close>)

text \<open>What a pass needs to know of the graph: the table and the order agree.\<close>

definition rpo_ok :: "'a cfg \<Rightarrow> block_id list \<Rightarrow> (nat \<Rightarrow> nat) \<Rightarrow> nat option list \<Rightarrow> bool" where
  "rpo_ok g order P rpo_pos \<longleftrightarrow> wf_cfg g \<and> rpo_index g order P \<and> rpo_table rpo_pos P (live g)"

lemma rpo_table_mono: "rpo_table rpo_pos P S \<Longrightarrow> T \<subseteq> S \<Longrightarrow> rpo_table rpo_pos P T"
  by (auto simp: rpo_table_def)

lemma candidate_step:
  assumes ok: "rpo_ok g order P rpo_pos" and inv: "idom_inv g P idoms (P c)"
    and c: "c \<in> live g" "c \<noteq> cfg_entry g"
  obtains m where "dominator_candidate g c idoms rpo_pos = Some (Some m)"
    and "idom_step g order P idoms c m"
proof -
  note I = idom_invD [OF inv]
  have wf: "wf_cfg g" and ri: "rpo_index g order P" and t: "rpo_table rpo_pos P (live g)"
    using ok by (simp_all add: rpo_ok_def)
  have cn: "c < node_count g" using c(1) live_less [OF wf] by blast
  have ps: "p \<in> set (preds g ! c) \<longleftrightarrow> (p, c) \<in> edges g" for p using edges_preds [OF wf] cn by simp
  obtain q where q: "(q, c) \<in> edges g" "q \<in> live g" "P q < P c"
    using rpo_indexD(5) [OF ri c] by blast
  have qp: "q \<in> processed idoms" using I(7) q by blast
  have less: "set (preds g ! c) \<subseteq> {..<length idoms}" using wf_preds_less [OF wf cn] I(1) by auto
  have ne: "set_option None \<union> (set (preds g ! c) \<inter> processed idoms) \<noteq> {}" using ps q qp by blast
  obtain m where m: "candidate_from idoms rpo_pos (preds g ! c) None = Some (Some m)"
    "m \<in> processed idoms"
    "doms idoms m = (\<Inter>p \<in> set_option None \<union> (set (preds g ! c) \<inter> processed idoms). doms idoms p)"
    using candidate_from_correct [OF I(2) rpo_table_mono [OF t I(3)] less _ ne] by auto
  have dm: "x \<in> doms idoms m \<longleftrightarrow> (\<forall>p \<in> processed idoms. (p, c) \<in> edges g \<longrightarrow> x \<in> doms idoms p)" for x
    using m(3) ps by auto
  then have "m \<in> doms idoms q" using q(1) qp by blast
  then have "P m < P c" using doms_le [OF I(2)] q(3) by fastforce
  then have "idom_step g order P idoms c m"
    using ri inv cn c m(2) dm by (simp add: idom_step_def)
  moreover have "dominator_candidate g c idoms rpo_pos = Some (Some m)"
    using m(1) cn by (simp add: dominator_candidate_def panic_simps wf_lengths [OF wf])
  ultimately show ?thesis using that by blast
qed

lemma step_rank:
  assumes wf: "wf_cfg g" and s: "idom_step g order P idoms c m" and n: "idoms ! c \<noteq> Some m"
  shows "idom_rank P (idoms[c := Some m]) < idom_rank P idoms"
proof (rule idom_rank_update [OF idom_stepD(3) [OF s]])
  note S = idom_stepD [OF s] and I = idom_invD [OF idom_stepD(2) [OF s]]
  show "P m < (case idoms ! c of None \<Rightarrow> length idoms | Some d \<Rightarrow> P d)"
  proof (cases "idoms ! c")
    case None
    have "m \<in> live g" using S(6) I(3) by blast
    then have "P m < length order" using rpo_indexD(2) [OF S(1)] by blast
    also have "length order = card (live g)"
      using S(1) by (metis distinct_card rpo_index_def)
    also have "\<dots> \<le> card {..<node_count g}"
      by (rule card_mono) (use live_less [OF wf] in auto)
    also have "\<dots> = length idoms" using I(1) by simp
    finally show ?thesis using None by simp
  next
    case (Some d)
    then have d: "(c, d) \<in> chain idoms" using S(3) by (simp add: chain_def)
    have md: "m \<in> doms idoms d" using step_lower [OF s d] by auto
    have "m \<noteq> d" using n Some by simp
    moreover have "P m \<noteq> P d"
      using inj_onD [OF forestD(4) [OF I(2)], of m d] S(6) forestD(5) [OF I(2) d] \<open>m \<noteq> d\<close> by blast
    ultimately show ?thesis using doms_le [OF I(2) md] Some by simp
  qed
qed

definition settled :: "'a cfg \<Rightarrow> idoms \<Rightarrow> nat \<Rightarrow> bool" where
  "settled g idoms c \<longleftrightarrow> (\<exists>m. idoms ! c = Some m \<and>
     (\<forall>x. x \<in> doms idoms m \<longleftrightarrow> (\<forall>p \<in> processed idoms. (p, c) \<in> edges g \<longrightarrow> x \<in> doms idoms p)))"

lemma idom_pass_correct:
  assumes ok: "rpo_ok g order P rpo_pos"
  shows "idom_inv g P idoms k \<Longrightarrow> 0 < k \<Longrightarrow> k \<le> length order \<Longrightarrow> rest = drop k order \<Longrightarrow>
    \<exists>idoms' changed'. idom_pass g rpo_pos rest idoms changed = Some (idoms', changed') \<and>
      idom_inv g P idoms' (length order) \<and> idom_rank P idoms' \<le> idom_rank P idoms \<and>
      (changed \<longrightarrow> changed') \<and> (changed' \<longrightarrow> changed \<or> idom_rank P idoms' < idom_rank P idoms) \<and>
      (\<not> changed' \<longrightarrow> idoms' = idoms \<and> (\<forall>b \<in> set rest. settled g idoms b))"
proof (induction rest arbitrary: idoms k changed)
  case Nil
  then show ?case by simp
next
  case (Cons c rest)
  have wf: "wf_cfg g" and ri: "rpo_index g order P" using ok by (simp_all add: rpo_ok_def)
  have k: "k < length order" and c: "c = order ! k" and rest: "rest = drop (Suc k) order"
    using Cons.prems(3,4) by (metis Cons_nth_drop_Suc drop_eq_Nil2 leI le_antisym list.inject
        list.distinct(1))+
  have Pc: "P c = k" and cl: "c \<in> live g" using rpo_indexD(6,7) [OF ri k] c by auto
  have ce: "c \<noteq> cfg_entry g" using rpo_indexD(4) [OF ri] Pc Cons.prems(2) by auto
  obtain m where cand: "dominator_candidate g c idoms rpo_pos = Some (Some m)"
    and s: "idom_step g order P idoms c m"
    using candidate_step [OF ok _ cl ce] Cons.prems(1) Pc by blast
  note S = idom_stepD [OF s]
  have inv': "idom_inv g P (idoms[c := Some m]) (Suc k)" using step_inv [OF s] Pc by simp
  have i: "idx idoms c = Some (idoms ! c)" using S(3) by (simp add: panic_simps)
  show ?case
  proof (cases "idoms ! c = Some m")
    case True
    then have "settled g idoms c" using S(8) unfolding settled_def by blast
    moreover have "idoms[c := Some m] = idoms" using True by (metis list_update_id)
    ultimately show ?thesis
      using Cons.IH [OF _ _ _ rest, of idoms changed] inv' k i cand True by auto
  next
    case False
    have less: "idom_rank P (idoms[c := Some m]) < idom_rank P idoms"
      by (rule step_rank [OF wf s False])
    have u: "upd idoms c (Some m) = Some (idoms[c := Some m])" using S(3) by (simp add: panic_simps)
    have "idom_pass g rpo_pos (c # rest) idoms changed =
        idom_pass g rpo_pos rest (idoms[c := Some m]) True"
      using False [THEN not_sym] i cand u by simp
    then show ?thesis
      using Cons.IH [OF inv' _ _ rest, of True] k less by (auto dest: order.strict_trans1)
  qed
qed

lemma idom_inv_restart:
  assumes ri: "rpo_index g order P" and inv: "idom_inv g P idoms (length order)"
  shows "idom_inv g P idoms 1"
proof -
  have "P c < length order" if "(c, d) \<in> chain idoms" for c d
    using rpo_indexD(2) [OF ri] idom_invD(3) [OF inv] chain_processed [OF that] by blast
  moreover have "P b < length order" if "b \<in> live g" for b using rpo_indexD(2) [OF ri that] by simp
  ultimately show ?thesis
    using inv unfolding idom_inv_def inv_A_def by blast
qed

lemma idom_loop_correct:
  assumes ok: "rpo_ok g order P rpo_pos"
  shows "idom_inv g P idoms 1 \<Longrightarrow>
    \<exists>idoms'. idom_loop g rpo_pos (drop 1 order) idoms = Some idoms' \<and>
      idom_inv g P idoms' (length order) \<and> (\<forall>b \<in> set (drop 1 order). settled g idoms' b)"
proof (induction "idom_rank P idoms" arbitrary: idoms rule: less_induct)
  case less
  have ri: "rpo_index g order P" using ok by (simp add: rpo_ok_def)
  have len: "1 \<le> length order" using ri by (cases order) (auto simp: rpo_index_def)
  obtain idoms' changed' where p: "idom_pass g rpo_pos (drop 1 order) idoms False = Some (idoms', changed')"
    "idom_inv g P idoms' (length order)" "changed' \<Longrightarrow> idom_rank P idoms' < idom_rank P idoms"
    "\<not> changed' \<Longrightarrow> idoms' = idoms \<and> (\<forall>b \<in> set (drop 1 order). settled g idoms b)"
    using idom_pass_correct [OF ok less.prems _ len refl, of False] by auto
  show ?case
  proof (cases changed')
    case True
    then show ?thesis
      using less.hyps [OF p(3) idom_inv_restart [OF ri p(2)]] p(1)
      by (subst idom_loop.simps) simp
  next
    case False
    then show ?thesis using p by (subst idom_loop.simps) auto
  qed
qed

lemma idom_inv_init:
  assumes wf: "wf_cfg g" and ri: "rpo_index g order P"
  shows "idom_inv g P ((replicate (node_count g) None)[cfg_entry g := Some (cfg_entry g)]) 1"
proof -
  let ?i = "(replicate (node_count g) None)[cfg_entry g := Some (cfg_entry g)]"
  have n: "cfg_entry g < node_count g" using wf_basic [OF wf] by simp
  have ch: "chain ?i = {(cfg_entry g, cfg_entry g)}"
    using n by (auto simp: chain_def nth_list_update split: if_splits)
  have pr: "processed ?i = {cfg_entry g}"
    using n by (auto simp: processed_def nth_list_update split: if_splits)
  have "forest (cfg_entry g) P ?i"
    unfolding forest_def ch pr using n rpo_indexD(4) [OF ri] by simp
  moreover have b: "\<forall>b \<in> live g. P b < 1 \<longrightarrow> b \<in> {cfg_entry g}"
  proof (intro ballI impI)
    fix b
    assume b: "b \<in> live g" "P b < 1"
    then have "P b = P (cfg_entry g)" using rpo_indexD(4) [OF ri] by simp
    from inj_onD [OF rpo_indexD(1) [OF ri] this b(1) rpo_indexD(3) [OF ri]]
    show "b \<in> {cfg_entry g}" by simp
  qed
  moreover have "inv_K g ?i" "inv_M g ?i" "inv_A g P ?i 1"
    unfolding inv_K_def inv_M_def inv_A_def ch by blast+
  moreover have "length ?i = node_count g" "{cfg_entry g} \<subseteq> live g" by simp_all
  moreover have "\<forall>c \<in> {cfg_entry g}. \<forall>p \<in> live g. P p < P c \<longrightarrow> p \<in> {cfg_entry g}"
    using rpo_indexD(4) [OF ri] by simp
  ultimately show ?thesis
    unfolding idom_inv_def pr by (intro conjI)
qed

text \<open>The chains of the result are exactly the dominators.\<close>

definition idoms_correct :: "'a cfg \<Rightarrow> (nat \<Rightarrow> nat) \<Rightarrow> idoms \<Rightarrow> bool" where
  "idoms_correct g P idoms \<longleftrightarrow> length idoms = node_count g \<and> forest (cfg_entry g) P idoms \<and>
     processed idoms = live g \<and> (\<forall>b \<in> live g. doms idoms b = dominating g b)"

lemma compute_idoms_correct:
  assumes ok: "rpo_ok g order P rpo_pos"
  shows "\<exists>idoms. compute_idoms g order rpo_pos = Some idoms \<and> idoms_correct g P idoms"
proof -
  have wf: "wf_cfg g" and ri: "rpo_index g order P" using ok by (simp_all add: rpo_ok_def)
  obtain tl where o: "order = cfg_entry g # tl" using ri by (cases order) (auto simp: rpo_index_def)
  from idom_loop_correct [OF ok idom_inv_init [OF wf ri]] obtain idoms where
    l: "idom_loop g rpo_pos (drop 1 order)
          ((replicate (node_count g) None)[cfg_entry g := Some (cfg_entry g)]) = Some idoms"
    and inv: "idom_inv g P idoms (length order)"
    and settled: "\<And>b. b \<in> set (drop 1 order) \<Longrightarrow> settled g idoms b" by blast
  note I = idom_invD [OF inv]
  have pl: "processed idoms = live g" using I(3,7) rpo_indexD(2) [OF ri] by blast
  have path: "x \<in> set p" if "entry_path g p b" "x \<in> doms idoms b" for x p b
    using that
  proof (induction p arbitrary: b rule: rev_induct)
    case (snoc y p)
    then have y: "y = b" by (simp add: entry_path_def)
    show ?case
    proof (cases "b = cfg_entry g \<or> x = b")
      case True
      then show ?thesis using snoc.prems doms_root [OF I(2)] y by auto
    next
      case False
      then have "p \<noteq> []" using snoc.prems(1) y by (auto simp: entry_path_def)
      then have ep: "entry_path g p (last p)" and e: "(last p, b) \<in> edges g"
        using snoc.prems(1) y by (auto simp: entry_path_def successively_append_iff)
      have "successively (\<lambda>x y. (x, y) \<in> edges g) q \<Longrightarrow> q \<noteq> [] \<Longrightarrow> hd q \<in> live g \<Longrightarrow> last q \<in> live g" for q
        by (induction q rule: induct_list012) (auto dest: live_step)
      then have lp: "last p \<in> live g" using ep rpo_indexD(3) [OF ri] unfolding entry_path_def by auto
      then have "b \<in> set (drop 1 order)"
        using live_step [OF lp e] False ri o by (auto simp: rpo_index_def)
      from settled [OF this] obtain m where m: "idoms ! b = Some m"
        "x \<in> doms idoms m \<longleftrightarrow> (\<forall>p \<in> live g. (p, b) \<in> edges g \<longrightarrow> x \<in> doms idoms p)"
        unfolding settled_def pl by blast
      have "b < length idoms" using live_less [OF wf live_step [OF lp e]] I(1) by simp
      then have "(b, m) \<in> chain idoms" using m(1) by (simp add: chain_def)
      then have "x \<in> doms idoms m" using doms_step snoc.prems(2) False by blast
      then have "x \<in> doms idoms (last p)" using m(2) lp e by blast
      then show ?thesis using snoc.IH [OF ep] by simp
    qed
  qed (simp add: entry_path_def)
  then have "doms idoms b = dominating g b" if "b \<in> live g" for b
    using dominating_doms [OF I(2,4), of b] that unfolding pl dominating_def by blast
  moreover have "compute_idoms g order rpo_pos = Some idoms"
    using l o wf_basic [OF wf]
    by (simp add: compute_idoms_def panic_simps wf_lengths [OF wf] require_def)
  ultimately show ?thesis using I(1,2) pl by (auto simp: idoms_correct_def)
qed

subsection \<open>The dominator tree and its intervals\<close>

lemma push_children_correct:
  "(\<And>b. b \<in> set bs \<Longrightarrow> b < length idoms) \<Longrightarrow>
   (\<And>b d. b \<in> set bs \<Longrightarrow> idoms ! b = Some d \<Longrightarrow> d < length children) \<Longrightarrow>
   push_children g idoms bs children =
     Some (map (\<lambda>d. children ! d @ filter (\<lambda>b. b \<noteq> cfg_entry g \<and> idoms ! b = Some d) bs)
       [0..<length children])"
proof (induction bs arbitrary: children)
  case Nil
  then show ?case by (simp add: map_nth)
next
  case (Cons b bs)
  show ?case
  proof (cases "b \<noteq> cfg_entry g \<and> idoms ! b \<noteq> None")
    case False
    have "push_children g idoms (b # bs) children = push_children g idoms bs children"
      using False Cons.prems(1) [of b] by (auto simp: panic_simps)
    also have "\<dots> = Some (map (\<lambda>d. children ! d @
        filter (\<lambda>b. b \<noteq> cfg_entry g \<and> idoms ! b = Some d) bs) [0..<length children])"
      using Cons.prems by (intro Cons.IH) auto
    also have "\<dots> = Some (map (\<lambda>d. children ! d @
        filter (\<lambda>b. b \<noteq> cfg_entry g \<and> idoms ! b = Some d) (b # bs)) [0..<length children])"
      using False by auto
    finally show ?thesis .
  next
    case True
    then obtain d where d: "idoms ! b = Some d" by auto
    have dl: "d < length children" by (rule Cons.prems(2) [OF _ d]) simp
    let ?c = "children[d := children ! d @ [b]]"
    have "push_children g idoms (b # bs) children = push_children g idoms bs ?c"
      using True Cons.prems(1) [of b] d dl by (simp add: panic_simps)
    also have "\<dots> = Some (map (\<lambda>d. ?c ! d @ filter (\<lambda>b. b \<noteq> cfg_entry g \<and> idoms ! b = Some d) bs)
        [0..<length ?c])"
      using Cons.prems by (intro Cons.IH) auto
    also have "\<dots> = Some (map (\<lambda>d. children ! d @
        filter (\<lambda>b. b \<noteq> cfg_entry g \<and> idoms ! b = Some d) (b # bs)) [0..<length children])"
      using True d dl by (auto simp: nth_list_update)
    finally show ?thesis .
  qed
qed

definition child_lists :: "nat \<Rightarrow> idoms \<Rightarrow> block_id list list \<Rightarrow> bool" where
  "child_lists r idoms ch \<longleftrightarrow> length ch = length idoms \<and>
     (\<forall>d < length idoms. ch ! d = filter (\<lambda>b. b \<noteq> r \<and> idoms ! b = Some d) [0..<length idoms])"

lemma child_listsD:
  assumes "child_lists r idoms ch"
  shows "length ch = length idoms" and "d < length idoms \<Longrightarrow> distinct (ch ! d)"
    and "d < length idoms \<Longrightarrow> c \<in> set (ch ! d) \<longleftrightarrow> c \<noteq> r \<and> (c, d) \<in> chain idoms"
  using assms by (auto simp: child_lists_def chain_def)

definition desc :: "idoms \<Rightarrow> nat \<Rightarrow> nat set" where
  "desc idoms b = {x \<in> processed idoms. b \<in> doms idoms x}"

definition desc_all :: "idoms \<Rightarrow> nat list \<Rightarrow> nat set" where
  "desc_all idoms cs = (\<Union>c \<in> set cs. desc idoms c)"

lemma processed_less: "x \<in> processed idoms \<Longrightarrow> x < length idoms"
  by (simp add: processed_def)

lemma finite_desc [simp]: "finite (desc idoms b)"
  by (rule finite_subset [of _ "{..<length idoms}"]) (auto simp: desc_def processed_def)

lemma desc_unfold:
  assumes f: "forest r P idoms" and ch: "child_lists r idoms ch" and b: "b \<in> processed idoms"
  shows "desc idoms b = insert b (desc_all idoms (ch ! b))"
proof (intro set_eqI iffI)
  note C = child_listsD(3) [OF ch processed_less [OF b]]
  fix x
  assume "x \<in> desc idoms b"
  then have x: "x \<in> processed idoms" "b \<in> doms idoms x" by (auto simp: desc_def)
  from x(2) have "x = b \<or> (\<exists>c \<in> set (ch ! b). c \<in> doms idoms x)"
  proof (induction rule: doms_induct)
    case (step u d)
    then show ?case
    proof (cases "d = b")
      case True
      have "u = r \<longrightarrow> u = b" using forestD(2) [OF f] step(1) True by blast
      then show ?thesis using C step(1) True by auto
    next
      case False
      then show ?thesis using step doms_step [OF step(1)] by blast
    qed
  qed simp
  then show "x \<in> insert b (desc_all idoms (ch ! b))"
    using x(1) by (auto simp: desc_all_def desc_def)
next
  note C = child_listsD(3) [OF ch processed_less [OF b]]
  fix x
  assume "x \<in> insert b (desc_all idoms (ch ! b))"
  then consider "x = b" | c where "c \<in> set (ch ! b)" "x \<in> processed idoms" "c \<in> doms idoms x"
    by (auto simp: desc_all_def desc_def)
  then show "x \<in> desc idoms b"
  proof cases
    case 2
    have "b \<in> doms idoms c" using C 2(1) doms_step by blast
    then show ?thesis using 2 doms_trans by (auto simp: desc_def)
  qed (use b in \<open>simp add: desc_def\<close>)
qed

lemma desc_siblings:
  assumes f: "forest r P idoms" and c: "(c, b) \<in> chain idoms" "(c', b) \<in> chain idoms"
    and r: "c \<noteq> r" "c' \<noteq> r" and ne: "c \<noteq> c'"
    and x: "x \<in> desc idoms c" and y: "y \<in> desc idoms c'"
  shows "x \<notin> doms idoms y"
proof
  have apart: "u \<notin> doms idoms v" if "(u, b) \<in> chain idoms" "(v, b) \<in> chain idoms" "u \<noteq> r" "u \<noteq> v" for u v
  proof
    assume "u \<in> doms idoms v"
    then have "u \<in> doms idoms b" using doms_step [OF that(2)] that(4) by simp
    then show False using doms_le [OF f] forestD(6) [OF f that(1,3)] by fastforce
  qed
  assume "x \<in> doms idoms y"
  then have "c \<in> doms idoms y" using x doms_trans by (auto simp: desc_def)
  moreover have "c' \<in> doms idoms y" "y \<in> processed idoms" using y by (auto simp: desc_def)
  ultimately have "c \<in> doms idoms c' \<or> c' \<in> doms idoms c"
    using doms_linear [OF f] nle_le by metis
  then show False using apart c r ne by metis
qed

text \<open>The interval of a block strictly contains exactly those of its descendants.\<close>

definition toured :: "idoms \<Rightarrow> nat set \<Rightarrow> nat \<Rightarrow> nat \<Rightarrow> nat list \<Rightarrow> nat list \<Rightarrow> bool" where
  "toured idoms S lo hi pre post \<longleftrightarrow>
     (\<forall>x \<in> S. pre ! x \<in> {lo..<hi} \<and> post ! x \<in> {lo..<hi}) \<and>
     (\<forall>x \<in> S. \<forall>y \<in> S. x \<noteq> y \<longrightarrow>
        (x \<in> doms idoms y \<longleftrightarrow> pre ! x < pre ! y \<and> post ! y < post ! x))"

lemma toured_cong:
  "toured idoms S lo hi pre post \<Longrightarrow> (\<And>x. x \<in> S \<Longrightarrow> pre' ! x = pre ! x \<and> post' ! x = post ! x) \<Longrightarrow>
     toured idoms S lo hi pre' post'"
  by (simp add: toured_def)

lemma toured_empty [simp]: "toured idoms {} lo hi pre post"
  by (simp add: toured_def)

lemma toured_union:
  assumes "toured idoms S lo mid pre post" and "toured idoms T mid hi pre post" and "lo \<le> mid"
    and "mid \<le> hi" and un: "\<And>x y. x \<in> S \<Longrightarrow> y \<in> T \<Longrightarrow> x \<notin> doms idoms y \<and> y \<notin> doms idoms x"
  shows "toured idoms (S \<union> T) lo hi pre post"
proof -
  have S: "pre ! x \<in> {lo..<mid} \<and> post ! x \<in> {lo..<mid}" if "x \<in> S" for x
    using assms(1) that by (simp add: toured_def)
  have T: "pre ! x \<in> {mid..<hi} \<and> post ! x \<in> {mid..<hi}" if "x \<in> T" for x
    using assms(2) that by (simp add: toured_def)
  have rng: "pre ! x \<in> {lo..<hi} \<and> post ! x \<in> {lo..<hi}" if "x \<in> S \<union> T" for x
    using that S [of x] T [of x] assms(3,4) by fastforce
  have mix: "\<not> (pre ! x < pre ! y \<and> post ! y < post ! x)" if "x \<in> S \<and> y \<in> T \<or> x \<in> T \<and> y \<in> S" for x y
    using that S [of x] T [of y] S [of y] T [of x] by fastforce
  show ?thesis
    unfolding toured_def
  proof (intro conjI ballI impI)
    fix x y
    assume xy: "x \<in> S \<union> T" "y \<in> S \<union> T" "x \<noteq> y"
    show "x \<in> doms idoms y \<longleftrightarrow> pre ! x < pre ! y \<and> post ! y < post ! x"
    proof (cases "x \<in> S \<and> y \<in> S \<or> x \<in> T \<and> y \<in> T")
      case True
      then show ?thesis using xy(3) assms(1,2) unfolding toured_def by blast
    next
      case False
      then show ?thesis using xy mix un by blast
    qed
  qed (use rng in blast)+
qed

lemma toured_root:
  assumes t: "toured idoms S (Suc lo) hi pre post" and pre: "pre ! c = lo" and post: "post ! c = hi"
    and lo: "lo < hi" and above: "\<And>x. x \<in> S \<Longrightarrow> c \<in> doms idoms x \<and> x \<notin> doms idoms c"
  shows "toured idoms (insert c S) lo (Suc hi) pre post"
proof -
  have S: "pre ! x \<in> {Suc lo..<hi} \<and> post ! x \<in> {Suc lo..<hi}" if "x \<in> S" for x
    using t that by (simp add: toured_def)
  have "c \<notin> S" using above by auto
  show ?thesis
    unfolding toured_def
  proof (intro conjI ballI impI)
    show "pre ! x \<in> {lo..<Suc hi}" "post ! x \<in> {lo..<Suc hi}" if "x \<in> insert c S" for x
      using that S pre post lo by fastforce+
    fix x y
    assume xy: "x \<in> insert c S" "y \<in> insert c S" "x \<noteq> y"
    consider "x = c" "y \<in> S" | "y = c" "x \<in> S" | "x \<in> S" "y \<in> S" using xy by blast
    then show "x \<in> doms idoms y \<longleftrightarrow> pre ! x < pre ! y \<and> post ! y < post ! x"
    proof cases
      case 1
      then show ?thesis using above [of y] S [of y] pre post by auto
    next
      case 2
      then show ?thesis using above [of x] S [of x] pre post by auto
    next
      case 3
      then show ?thesis using t xy(3) by (simp add: toured_def)
    qed
  qed
qed

lemma toured_widen: "toured idoms S lo hi pre post \<Longrightarrow> lo' \<le> lo \<Longrightarrow> hi \<le> hi' \<Longrightarrow> toured idoms S lo' hi' pre post"
  by (fastforce simp: toured_def)

text \<open>Popping the frame of \<open>b\<close> ends a tour of the children of \<open>b\<close> from the \<open>k\<close>-th on.\<close>

definition toured_from :: "idoms \<Rightarrow> nat \<Rightarrow> nat set \<Rightarrow> nat list \<Rightarrow> nat list \<Rightarrow> nat \<Rightarrow>
    nat list \<Rightarrow> nat list \<Rightarrow> nat \<Rightarrow> bool" where
  "toured_from idoms b S pre post clock pre' post' hi \<longleftrightarrow>
     length pre' = length idoms \<and> length post' = length idoms \<and> clock \<le> hi \<and> post' ! b = hi \<and>
     toured idoms S clock hi pre' post' \<and>
     (\<forall>x. x \<notin> S \<longrightarrow> pre' ! x = pre ! x) \<and> (\<forall>x. x \<notin> insert b S \<longrightarrow> post' ! x = post ! x)"

lemma toured_from_step:
  assumes f: "forest r P idoms" and ch: "child_lists r idoms ch" and c: "c \<in> processed idoms"
    and len: "length pre = length idoms"
    and t1: "toured_from idoms c (desc_all idoms (ch ! c)) (pre[c := clock]) post (Suc clock) pre1 post1 hi1"
    and t2: "toured_from idoms b S pre1 post1 (Suc hi1) pre2 post2 hi2"
    and un: "\<And>x y. x \<in> desc idoms c \<Longrightarrow> y \<in> S \<Longrightarrow> x \<notin> doms idoms y \<and> y \<notin> doms idoms x"
    and b: "b \<notin> desc idoms c"
  shows "toured_from idoms b (desc idoms c \<union> S) pre post clock pre2 post2 hi2"
proof -
  let ?D = "desc_all idoms (ch ! c)"
  have cl: "c < length idoms" using c by (simp add: processed_def)
  have dc: "desc idoms c = insert c ?D" by (rule desc_unfold [OF f ch c])
  have dis: "x \<notin> S" if "x \<in> desc idoms c" for x using un [OF that] by auto
  have below: "c \<in> doms idoms x \<and> x \<notin> doms idoms c" if "x \<in> ?D" for x
  proof -
    note xD = that
    obtain k where k: "k \<in> set (ch ! c)" "k \<in> doms idoms x"
      using xD by (auto simp: desc_all_def desc_def)
    then have k': "(k, c) \<in> chain idoms" "k \<noteq> r" using child_listsD(3) [OF ch cl] by blast+
    have "c \<in> doms idoms x" using dc xD by (auto simp: desc_def)
    moreover have "P c < P x" using forestD(6) [OF f k'] doms_le [OF f k(2)] by simp
    then have "x \<notin> doms idoms c" using doms_le [OF f, of x c] by auto
    ultimately show ?thesis ..
  qed
  have cD: "c \<notin> ?D" using below by blast
  have "pre1 ! c = clock" using t1 cD cl len by (simp add: toured_from_def)
  then have "toured idoms (insert c ?D) clock (Suc hi1) pre1 post1"
    using t1 below by (intro toured_root) (auto simp: toured_from_def)
  then have "toured idoms (desc idoms c) clock (Suc hi1) pre1 post1" by (simp add: dc)
  then have A: "toured idoms (desc idoms c) clock (Suc hi1) pre2 post2"
  proof (rule toured_cong)
    fix x
    assume x: "x \<in> desc idoms c"
    then have "x \<notin> S" "x \<noteq> b" using dis b by blast+
    then show "pre2 ! x = pre1 ! x \<and> post2 ! x = post1 ! x" using t2 by (simp add: toured_from_def)
  qed
  have B: "toured idoms S (Suc hi1) hi2 pre2 post2" using t2 by (simp add: toured_from_def)
  have le: "clock \<le> Suc hi1" "Suc hi1 \<le> hi2" using t1 t2 by (simp_all add: toured_from_def)
  note U = toured_union [OF A B le un]
  have "pre2 ! x = pre ! x" if "x \<notin> desc idoms c \<union> S" for x
    using t1 t2 that dc by (simp add: toured_from_def)
  moreover have "post2 ! x = post ! x" if "x \<notin> insert b (desc idoms c \<union> S)" for x
    using t1 t2 that dc by (simp add: toured_from_def)
  ultimately show ?thesis using U t2 le by (auto simp: toured_from_def)
qed

lemma interval_loop_correct:
  assumes f: "forest r P idoms" and ch: "child_lists r idoms ch"
  shows "b \<in> processed idoms \<Longrightarrow> k \<le> length (ch ! b) \<Longrightarrow> length pre = length idoms \<Longrightarrow>
    length post = length idoms \<Longrightarrow> \<exists>pre' post' hi.
      interval_loop ch ((b, k) # rest) pre post clock = interval_loop ch rest pre' post' (Suc hi) \<and>
      toured_from idoms b (desc_all idoms (drop k (ch ! b))) pre post clock pre' post' hi"
proof (induction "card (desc idoms b)" arbitrary: b k rest pre post clock rule: less_induct)
  case less
  note outer = less.hyps
  have bl: "b < length idoms" and lch: "length ch = length idoms"
    using less.prems(1) child_listsD(1) [OF ch] by (auto simp: processed_def)
  have ib: "idx ch b = Some (ch ! b)" using bl lch by (simp add: panic_simps)
  note C = child_listsD(3) [OF ch bl]
  show ?case
    using less.prems(2-)
  proof (induction "length (ch ! b) - k" arbitrary: k pre post clock)
    case 0
    have "interval_loop ch ((b, k) # rest) pre post clock =
        interval_loop ch rest pre (post[b := clock]) (Suc clock)"
      using 0 ib bl by (subst interval_loop.simps) (simp add: panic_simps)
    moreover have "toured_from idoms b (desc_all idoms (drop k (ch ! b))) pre post clock pre
        (post[b := clock]) clock"
      using 0 bl by (simp add: toured_from_def desc_all_def)
    ultimately show ?case by blast
  next
    case (Suc j)
    have k: "k < length (ch ! b)" using Suc.hyps(2) by simp
    let ?c = "ch ! b ! k"
    have cs: "?c \<in> set (ch ! b)" using k by simp
    then have cb: "(?c, b) \<in> chain idoms" "?c \<noteq> r" using C by blast+
    have cp: "?c \<in> processed idoms" using chain_processed [OF cb(1)] .
    have cl: "?c < length idoms" using cp by (simp add: processed_def)
    have Plt: "P b < P ?c" using forestD(6) [OF f cb] .
    have bn: "b \<notin> desc idoms ?c" using doms_le [OF f, of ?c b] Plt by (auto simp: desc_def)
    have "desc idoms ?c \<subseteq> desc idoms b"
      using desc_unfold [OF f ch less.prems(1)] cs by (auto simp: desc_all_def)
    moreover have "b \<in> desc idoms b" using less.prems(1) by (simp add: desc_def)
    ultimately have card: "card (desc idoms ?c) < card (desc idoms b)"
      using bn by (intro psubset_card_mono) auto
    let ?pre = "pre[?c := clock]"
    from outer [OF card cp, of 0 ?pre post "(b, Suc k) # rest" "Suc clock"] Suc.prems
    obtain pre1 post1 hi1 where
      l1: "interval_loop ch ((?c, 0) # (b, Suc k) # rest) ?pre post (Suc clock) =
        interval_loop ch ((b, Suc k) # rest) pre1 post1 (Suc hi1)"
      and t1: "toured_from idoms ?c (desc_all idoms (ch ! ?c)) ?pre post (Suc clock) pre1 post1 hi1"
      by auto
    have len1: "length pre1 = length idoms" "length post1 = length idoms"
      using t1 by (simp_all add: toured_from_def)
    have j: "j = length (ch ! b) - Suc k" using Suc.hyps(2) by simp
    from Suc.hyps(1) [OF j _ len1, of "Suc hi1"] k obtain pre2 post2 hi2 where
      l2: "interval_loop ch ((b, Suc k) # rest) pre1 post1 (Suc hi1) =
        interval_loop ch rest pre2 post2 (Suc hi2)"
      and t2: "toured_from idoms b (desc_all idoms (drop (Suc k) (ch ! b))) pre1 post1 (Suc hi1)
        pre2 post2 hi2"
      by auto
    have "interval_loop ch ((b, k) # rest) pre post clock =
        interval_loop ch ((?c, 0) # (b, Suc k) # rest) ?pre post (Suc clock)"
      using ib k cl Suc.prems by (subst interval_loop.simps) (simp add: panic_simps)
    moreover have dr: "drop k (ch ! b) = ?c # drop (Suc k) (ch ! b)"
      using k by (simp add: Cons_nth_drop_Suc)
    then have un: "desc_all idoms (drop k (ch ! b)) =
        desc idoms ?c \<union> desc_all idoms (drop (Suc k) (ch ! b))" by (simp add: desc_all_def)
    have "x \<notin> doms idoms y \<and> y \<notin> doms idoms x"
      if "x \<in> desc idoms ?c" "y \<in> desc_all idoms (drop (Suc k) (ch ! b))" for x y
    proof -
      note xy = that
      obtain c' where c': "c' \<in> set (drop (Suc k) (ch ! b))" "y \<in> desc idoms c'"
        using xy(2) by (auto simp: desc_all_def)
      have "c' \<noteq> ?c" using child_listsD(2) [OF ch bl] dr c'(1)
        by (metis distinct.simps(2) distinct_drop)
      moreover have "(c', b) \<in> chain idoms" "c' \<noteq> r" using c'(1) C in_set_dropD by fast+
      ultimately show ?thesis using desc_siblings [OF f] cb xy(1) c'(2) by metis
    qed
    from toured_from_step [OF f ch cp Suc.prems(2) t1 t2 this bn]
    have "toured_from idoms b (desc_all idoms (drop k (ch ! b))) pre post clock pre2 post2 hi2"
      unfolding un .
    ultimately show ?case using l1 l2 by metis
  qed
qed

subsection \<open>The dominator tree of a graph\<close>

lemma fill_rpo_pos_correct:
  "distinct order \<Longrightarrow> set order \<subseteq> {..<length tbl} \<Longrightarrow>
   \<exists>tbl'. fill_rpo_pos order i tbl = Some tbl' \<and> length tbl' = length tbl \<and>
     (\<forall>j < length order. tbl' ! (order ! j) = Some (i + j)) \<and>
     (\<forall>x. x \<notin> set order \<longrightarrow> tbl' ! x = tbl ! x)"
proof (induction order arbitrary: i tbl)
  case (Cons b order)
  have bl: "b < length tbl" using Cons.prems by simp
  obtain tbl' where t: "fill_rpo_pos order (Suc i) (tbl[b := Some i]) = Some tbl'"
    "length tbl' = length tbl" "\<forall>j < length order. tbl' ! (order ! j) = Some (Suc i + j)"
    "\<forall>x. x \<notin> set order \<longrightarrow> tbl' ! x = (tbl[b := Some i]) ! x"
    using Cons.IH [of "tbl[b := Some i]" "Suc i"] Cons.prems by auto
  have "tbl' ! b = Some i" using t(4) Cons.prems(1) bl by simp
  then have "tbl' ! ((b # order) ! j) = Some (i + j)" if "j < length (b # order)" for j
    using t(3) that by (cases j) auto
  moreover have "tbl' ! x = tbl ! x" if "x \<notin> set (b # order)" for x
    using t(4) that by simp
  ultimately show ?case using t(1,2) bl by (auto simp: panic_simps)
qed simp

lemma rpo_table_exists:
  assumes wf: "wf_cfg g"
  obtains order P rpo_pos where "reverse_post_order_from_entry g = Some order"
    and "fill_rpo_pos order 0 (replicate (node_count g) None) = Some rpo_pos"
    and "rpo_ok g order P rpo_pos" and "length rpo_pos = node_count g"
    and "\<And>b. b < node_count g \<Longrightarrow> rpo_pos ! b \<noteq> None \<longleftrightarrow> b \<in> live g"
proof -
  obtain order where o: "reverse_post_order_from_entry g = Some order"
    using reverse_post_order_inv [OF wf] by metis
  then have the: "the (reverse_post_order_from_entry g) = order" by simp
  have d: "distinct order" and s: "set order = live g" and h: "order \<noteq> [] \<and> hd order = cfg_entry g"
    using rpo.rpo_distinct [OF wf] rpo.rpo_set [OF wf] rpo.rpo_root [OF wf]
    unfolding the live_def by auto
  have sub: "set order \<subseteq> {..<length (replicate (node_count g) None)}"
    using s live_less [OF wf] by auto
  from fill_rpo_pos_correct [OF d sub, of 0] obtain tbl where
    t: "fill_rpo_pos order 0 (replicate (node_count g) None) = Some tbl"
    "length tbl = node_count g" "\<And>j. j < length order \<Longrightarrow> tbl ! (order ! j) = Some j"
    "\<And>x. x \<notin> set order \<Longrightarrow> tbl ! x = replicate (node_count g) None ! x" by auto
  let ?P = "\<lambda>b. the (tbl ! b)"
  have lv: "\<exists>i < length order. b = order ! i" if "b \<in> live g" for b
    using that s by (metis in_set_conv_nth)
  have "\<exists>p. (p, c) \<in> edges g \<and> p \<in> live g \<and> ?P p < ?P c"
    if c: "c \<in> live g" "c \<noteq> cfg_entry g" for c
  proof -
    obtain i where i: "i < length order" "c = order ! i" using lv [OF c(1)] by blast
    obtain j where j: "j < i" "(order ! j, order ! i) \<in> edges g"
      using rpo.rpo_parent [OF wf, of i] i c(2) unfolding the by blast
    have "order ! j \<in> live g" using j i s by (metis less_trans nth_mem)
    then show ?thesis using i j t(3) by (intro exI [of _ "order ! j"]) auto
  qed
  then have "rpo_index g order ?P" using d s h t(3) by (simp add: rpo_index_def)
  moreover have "rpo_table tbl ?P (live g)"
    unfolding rpo_table_def using lv t(3) live_less [OF wf] t(2) by fastforce
  ultimately have "rpo_ok g order ?P tbl" using wf by (simp add: rpo_ok_def)
  moreover have "tbl ! b \<noteq> None \<longleftrightarrow> b \<in> live g" if "b < node_count g" for b
    using lv [of b] t(3,4) that s by (cases "b \<in> live g") auto
  ultimately show ?thesis using that o t(1,2) by blast
qed

text \<open>
  The facts a client of the dominator tree needs: the tree belongs to a forest whose chains are
  the dominators, its child lists are complete and its intervals tour the live blocks.
\<close>

lemma dominators_of_structure:
  assumes wf: "wf_cfg g"
  obtains d idoms P where "dominators_of g = Some d" and "idoms_correct g P idoms"
    and "dom_entry d = cfg_entry g"
    and "dom_idoms d = map (\<lambda>i. if i = cfg_entry g then None else idoms ! i) [0..<node_count g]"
    and "length (dom_reachable d) = node_count g"
    and "\<And>b. b < node_count g \<Longrightarrow> dom_reachable d ! b \<longleftrightarrow> b \<in> live g"
    and "child_lists (cfg_entry g) idoms (dom_children d)"
    and "length (dom_preorder d) = node_count g" and "length (dom_postorder d) = node_count g"
    and "\<exists>hi. toured idoms (live g) 0 hi (dom_preorder d) (dom_postorder d)"
proof -
  let ?n = "node_count g" let ?r = "cfg_entry g"
  obtain order P rpo_pos where o: "reverse_post_order_from_entry g = Some order"
    and t: "fill_rpo_pos order 0 (replicate ?n None) = Some rpo_pos"
    and ok: "rpo_ok g order P rpo_pos" and lt: "length rpo_pos = ?n"
    and ro: "\<And>b. b < ?n \<Longrightarrow> rpo_pos ! b \<noteq> None \<longleftrightarrow> b \<in> live g"
    using rpo_table_exists [OF wf] by metis
  obtain idoms where ci: "compute_idoms g order rpo_pos = Some idoms" and cor: "idoms_correct g P idoms"
    using compute_idoms_correct [OF ok] by blast
  have li: "length idoms = ?n" and f: "forest ?r P idoms" and pl: "processed idoms = live g"
    using cor by (simp_all add: idoms_correct_def)
  define ch where "ch = map (\<lambda>d. filter (\<lambda>b. b \<noteq> ?r \<and> idoms ! b = Some d) [0..<?n]) [0..<?n]"
  have dl: "d < ?n" if "b \<in> set [0..<?n]" "idoms ! b = Some d" for b d
  proof -
    have "(b, d) \<in> chain idoms" using that li by (simp add: chain_def)
    then show ?thesis using forestD(5) [OF f] pl live_less [OF wf] by blast
  qed
  have "push_children g idoms [0..<?n] (replicate ?n []) = Some ch"
    using push_children_correct [of "[0..<?n]" idoms "replicate ?n []" g] li dl
    by (simp add: ch_def cong: map_cong)
  then have dc: "dominator_children g idoms = Some ch"
    using wf_basic(4) [OF wf]
    by (simp add: dominator_children_def blocks_def wf_lengths [OF wf] panic_simps)
  have cl: "child_lists ?r idoms ch" by (simp add: child_lists_def ch_def li)
  have r: "?r < ?n" "?r \<in> processed idoms" using wf_basic [OF wf] forestD(1) [OF f] by simp_all
  let ?pre = "(replicate ?n usize_max)[?r := 0]" and ?post = "replicate ?n usize_max"
  obtain pre post hi where
    l: "interval_loop ch [(?r, 0)] ?pre ?post 1 = interval_loop ch [] pre post (Suc hi)"
    and tf: "toured_from idoms ?r (desc_all idoms (ch ! ?r)) ?pre ?post 1 pre post hi"
    using interval_loop_correct [OF f cl r(2), of 0 ?pre ?post "[]" 1] li by auto
  have di: "dominator_intervals ?r ch = Some (pre, post)"
    using l r(1) by (subst (asm) (2) interval_loop.simps)
      (simp add: dominator_intervals_def ch_def panic_simps)
  have D: "desc idoms ?r = live g" using doms_has_root [OF f] pl by (auto simp: desc_def)
  have nr: "x \<noteq> ?r" if "x \<in> desc_all idoms (ch ! ?r)" for x
    using that child_listsD(3) [OF cl, of ?r] doms_root [OF f] r li
    by (auto simp: desc_all_def desc_def)
  have "toured idoms (insert ?r (desc_all idoms (ch ! ?r))) 0 (Suc hi) pre post"
  proof (rule toured_root)
    have "?r \<notin> desc_all idoms (ch ! ?r)" using nr by blast
    then have "pre ! ?r = ?pre ! ?r" using tf unfolding toured_from_def by blast
    then show "pre ! ?r = 0" using r(1) by simp
    show "?r \<in> doms idoms x \<and> x \<notin> doms idoms ?r" if "x \<in> desc_all idoms (ch ! ?r)" for x
      using that nr [OF that] doms_root [OF f] desc_unfold [OF f cl r(2)] by (auto simp: desc_def)
  qed (use tf in \<open>auto simp: toured_from_def\<close>)
  then have tr: "\<exists>hi. toured idoms (live g) 0 hi pre post"
    using desc_unfold [OF f cl r(2)] D by auto
  have "dominators_of g = Some \<lparr>dom_entry = ?r,
      dom_idoms = map (\<lambda>i. if i = ?r then None else idoms ! i) [0..<?n],
      dom_reachable = map (\<lambda>p. p \<noteq> None) rpo_pos, dom_children = ch, dom_preorder = pre,
      dom_postorder = post\<rparr>"
    using o t ci dc di li by (simp add: dominators_of_def wf_lengths [OF wf])
  then show ?thesis
    by (rule that [OF _ cor]) (use lt ro cl tr tf li in \<open>simp_all add: toured_from_def\<close>)
qed

lemma dominating_live:
  assumes wf: "wf_cfg g" and "b \<in> live g" and "a \<in> dominating g b"
  shows "a \<in> live g"
proof -
  obtain d idoms P where "idoms_correct g P idoms" by (rule dominators_of_structure [OF wf])
  then show ?thesis using doms_processed assms(2,3) unfolding idoms_correct_def by blast
qed

text \<open>The queries of the tree are domination by paths.\<close>

lemma dominators_of_queries:
  assumes wf: "wf_cfg g"
  obtains d where "dominators_of g = Some d"
    and "\<And>a b. a < node_count g \<Longrightarrow> b < node_count g \<Longrightarrow>
      strictly_dominates d a b = Some (b \<in> live g \<and> a \<noteq> b \<and> a \<in> dominating g b)"
    and "\<And>a b. a < node_count g \<Longrightarrow> b < node_count g \<Longrightarrow>
      dominates d a b = Some (b \<in> live g \<and> a \<in> dominating g b)"
    and "\<And>b. b < node_count g \<Longrightarrow> b \<notin> live g \<or> b = cfg_entry g \<Longrightarrow>
      immediate_dominator d b = Some None"
    and "\<And>b. b \<in> live g \<Longrightarrow> b \<noteq> cfg_entry g \<Longrightarrow>
      \<exists>p. immediate_dominator d b = Some (Some p) \<and> dominating g b - {b} = dominating g p"
    and "\<And>b. b < node_count g \<Longrightarrow> immediate_dominated_by d b =
      Some (filter (\<lambda>c. immediate_dominator d c = Some (Some b)) [0..<node_count g])"
proof -
  let ?n = "node_count g" let ?r = "cfg_entry g"
  obtain d idoms P hi where d: "dominators_of g = Some d" and cor: "idoms_correct g P idoms"
    and di: "dom_idoms d = map (\<lambda>i. if i = ?r then None else idoms ! i) [0..<?n]"
    and lr: "length (dom_reachable d) = ?n"
    and re: "\<And>b. b < ?n \<Longrightarrow> dom_reachable d ! b \<longleftrightarrow> b \<in> live g"
    and ch: "child_lists ?r idoms (dom_children d)"
    and lp: "length (dom_preorder d) = ?n" "length (dom_postorder d) = ?n"
    and tr: "toured idoms (live g) 0 hi (dom_preorder d) (dom_postorder d)"
  proof (rule dominators_of_structure [OF wf])
    fix d idoms P
    assume s: "dominators_of g = Some d" "idoms_correct g P idoms"
      "dom_idoms d = map (\<lambda>i. if i = ?r then None else idoms ! i) [0..<?n]"
      "length (dom_reachable d) = ?n"
      "\<And>b. b < ?n \<Longrightarrow> dom_reachable d ! b \<longleftrightarrow> b \<in> live g"
      "child_lists ?r idoms (dom_children d)"
      "length (dom_preorder d) = ?n" "length (dom_postorder d) = ?n"
      "\<exists>hi. toured idoms (live g) 0 hi (dom_preorder d) (dom_postorder d)"
    then obtain hi where "toured idoms (live g) 0 hi (dom_preorder d) (dom_postorder d)" by blast
    from that [OF s(1-8) this] show thesis .
  qed
  have li: "length idoms = ?n" and f: "forest ?r P idoms" and pl: "processed idoms = live g"
    and dm: "\<And>b. b \<in> live g \<Longrightarrow> doms idoms b = dominating g b"
    using cor by (simp_all add: idoms_correct_def)
  have sd: "strictly_dominates d a b = Some (b \<in> live g \<and> a \<noteq> b \<and> a \<in> dominating g b)"
    if ab: "a < ?n" "b < ?n" for a b
  proof (cases "a \<noteq> b \<and> a \<in> live g \<and> b \<in> live g")
    case True
    then have "a \<in> dominating g b \<longleftrightarrow> dom_preorder d ! a < dom_preorder d ! b \<and>
        dom_postorder d ! b < dom_postorder d ! a"
      using tr dm unfolding toured_def by blast
    then show ?thesis
      using True ab di lr lp re by (simp add: strictly_dominates_def panic_simps)
  next
    case False
    then show ?thesis
      using ab di lr re dominating_live [OF wf, of b a]
      by (auto simp: strictly_dominates_def panic_simps)
  qed
  have self: "b \<in> dominating g b" for b by (auto simp: dominating_def entry_path_def)
  have dom: "dominates d a b = Some (b \<in> live g \<and> a \<in> dominating g b)"
    if "a < ?n" "b < ?n" for a b
    using that sd [OF that] lr re self by (auto simp: dominates_def panic_simps)
  have im: "immediate_dominator d b = Some (if b = ?r then None else idoms ! b)" if "b < ?n" for b
    using that di by (simp add: immediate_dominator_def panic_simps)
  have none: "immediate_dominator d b = Some None" if "b < ?n" "b \<notin> live g \<or> b = ?r" for b
  proof (cases "b = ?r")
    case False
    then have "b \<notin> processed idoms" using that(2) pl by blast
    then have "idoms ! b = None" using that(1) li by (simp add: processed_def)
    then show ?thesis using im [OF that(1)] by simp
  qed (use im [OF that(1)] in simp)
  have some: "\<exists>p. immediate_dominator d b = Some (Some p) \<and> dominating g b - {b} = dominating g p"
    if b: "b \<in> live g" "b \<noteq> ?r" for b
  proof -
    have bn: "b < ?n" using live_less [OF wf b(1)] .
    obtain p where p: "(b, p) \<in> chain idoms" using processed_chain b(1) pl by blast
    have "b \<notin> doms idoms p" using doms_le [OF f, of b p] forestD(6) [OF f p b(2)] by auto
    then have "dominating g b - {b} = dominating g p"
      using doms_step [OF p] dm b(1) forestD(5) [OF f p] pl by auto
    then show ?thesis using im [OF bn] b(2) p by (auto simp: chain_def)
  qed
  have "immediate_dominated_by d b =
      Some (filter (\<lambda>c. immediate_dominator d c = Some (Some b)) [0..<?n])" if "b < ?n" for b
  proof -
    have "filter (\<lambda>c. c \<noteq> ?r \<and> idoms ! c = Some b) [0..<?n] =
        filter (\<lambda>c. immediate_dominator d c = Some (Some b)) [0..<?n]"
      by (rule filter_cong) (use im in auto)
    then show ?thesis
      using that ch li by (simp add: immediate_dominated_by_def child_lists_def panic_simps)
  qed
  with that d sd dom none some show ?thesis by blast
qed

subsection \<open>Properties\<close>



text \<open>\<open>immediate_dominator\<close> of a reachable block other than the entry is the block whose
  dominators are exactly the strict dominators of the block; it is \<open>None\<close> for the entry and for
  unreachable blocks, and \<open>immediate_dominated_by\<close> is the inverse relation in id order.\<close>

theorem immediate_dominator_correct:
  assumes wf: "wf_cfg g"
  shows "\<exists>d. dominators_of g = Some d \<and>
    (\<forall>b < node_count g.
       (if b = cfg_entry g \<or> (cfg_entry g, b) \<notin> (edges g)\<^sup>* then immediate_dominator d b = Some None
        else \<exists>p. immediate_dominator d b = Some (Some p) \<and>
               {a. \<forall>q. entry_path g q b \<longrightarrow> a \<in> set q} - {b} = {a. \<forall>q. entry_path g q p \<longrightarrow> a \<in> set q}) \<and>
       immediate_dominated_by d b =
         Some (filter (\<lambda>c. immediate_dominator d c = Some (Some b)) [0..<node_count g]))"
proof (rule dominators_of_queries [OF wf])
  fix d
  assume d: "dominators_of g = Some d"
    and none: "\<And>b. b < node_count g \<Longrightarrow> b \<notin> live g \<or> b = cfg_entry g \<Longrightarrow>
      immediate_dominator d b = Some None"
    and some: "\<And>b. b \<in> live g \<Longrightarrow> b \<noteq> cfg_entry g \<Longrightarrow>
      \<exists>p. immediate_dominator d b = Some (Some p) \<and> dominating g b - {b} = dominating g p"
    and inv: "\<And>b. b < node_count g \<Longrightarrow> immediate_dominated_by d b =
      Some (filter (\<lambda>c. immediate_dominator d c = Some (Some b)) [0..<node_count g])"
  show ?thesis
    by (rule exI [of _ d]) (use d none some inv in \<open>simp add: live_def dominating_def\<close>)
qed

theorem immediate_dominator_correct_witness:
  "\<exists>d. dominators_of sample_cfg = Some d \<and> immediate_dominator d 0 = Some None"
  using immediate_dominator_correct [OF wf_sample] wf_basic(1) [OF wf_sample] by fastforce

end
