(* ===== verification/CfgBuilder.thy ===== *)
theory CfgBuilder
  imports Cfg
begin

text \<open>
  \<open>CfgBuilder\<close> of \<open>crates/hoonarqube-dataflow/src/builder.rs\<close>: a graph under construction
  and its frontier, the blocks whose outgoing flow is still open. Every operation keeps the
  invariant \<open>builder_ok\<close>; \<open>finish\<close> routes what is still open to the exit.
\<close>

subsection \<open>State and operations\<close>

record 'a builder =
  bcfg :: "'a cfg"
  frontier :: "block_id list"

definition builder_new :: "'a \<Rightarrow> 'a \<Rightarrow> 'a builder" where
  "builder_new entry_payload exit_payload =
     \<lparr>bcfg = disconnected entry_payload exit_payload, frontier = [0]\<rparr>"

text \<open>The loop \<open>for open in sources { cfg.add_edge(open, target) }\<close>.\<close>

fun add_edges_to :: "'a cfg \<Rightarrow> block_id list \<Rightarrow> block_id \<Rightarrow> 'a cfg option" where
  "add_edges_to g [] target = Some g"
| "add_edges_to g (source # sources) target = do {
     (_, g') \<leftarrow> add_edge g source target;
     add_edges_to g' sources target
   }"

definition push_block :: "'a builder \<Rightarrow> 'a \<Rightarrow> (block_id \<times> 'a builder) option" where
  "push_block b p = do {
     (i, g) \<leftarrow> append_node (bcfg b) p;
     g' \<leftarrow> add_edges_to g (frontier b) i;
     Some (i, \<lparr>bcfg = g', frontier = [i]\<rparr>)
   }"

definition branch :: "'a builder \<Rightarrow> 'a \<Rightarrow> 'a \<Rightarrow> 'a \<Rightarrow> ((block_id \<times> block_id) \<times> 'a builder) option" where
  "branch b condition then_head else_head = do {
     (cond, b) \<leftarrow> push_block b condition;
     (then_id, g) \<leftarrow> append_node (bcfg b) then_head;
     (else_id, g) \<leftarrow> append_node g else_head;
     (_, g) \<leftarrow> add_edge g cond then_id;
     (_, g) \<leftarrow> add_edge g cond else_id;
     Some ((then_id, else_id), \<lparr>bcfg = g, frontier = [then_id, else_id]\<rparr>)
   }"

definition back_edge :: "'a builder \<Rightarrow> block_id \<Rightarrow> block_id \<Rightarrow> 'a builder option" where
  "back_edge b from to = do {
     (_, g) \<leftarrow> add_edge (bcfg b) from to;
     Some \<lparr>bcfg = g, frontier = filter (\<lambda>open. open \<noteq> from) (frontier b)\<rparr>
   }"

definition jump_to :: "'a builder \<Rightarrow> block_id \<Rightarrow> 'a builder option" where
  "jump_to b target = do {
     assert_valid_block (bcfg b) target;
     g \<leftarrow> add_edges_to (bcfg b) (frontier b) target;
     Some \<lparr>bcfg = g, frontier = []\<rparr>
   }"

definition builder_add_edge :: "'a builder \<Rightarrow> block_id \<Rightarrow> block_id \<Rightarrow> (bool \<times> 'a builder) option" where
  "builder_add_edge b from to = do {
     (new, g) \<leftarrow> add_edge (bcfg b) from to;
     Some (new, b\<lparr>bcfg := g\<rparr>)
   }"

definition create_block :: "'a builder \<Rightarrow> 'a \<Rightarrow> (block_id \<times> 'a builder) option" where
  "create_block b p = do {
     (i, g) \<leftarrow> append_node (bcfg b) p;
     Some (i, b\<lparr>bcfg := g\<rparr>)
   }"

definition set_frontier :: "'a builder \<Rightarrow> block_id list \<Rightarrow> 'a builder option" where
  "set_frontier b targets = do {
     _ \<leftarrow> traverse (assert_valid_block (bcfg b)) targets;
     Some (b\<lparr>frontier := targets\<rparr>)
   }"

definition set_valid_frontier :: "'a builder \<Rightarrow> block_id list \<Rightarrow> 'a builder" where
  "set_valid_frontier b targets = b\<lparr>frontier := targets\<rparr>"

definition take_frontier :: "'a builder \<Rightarrow> block_id list \<times> 'a builder" where
  "take_frontier b = (frontier b, b\<lparr>frontier := []\<rparr>)"

definition builder_next_block_id :: "'a builder \<Rightarrow> block_id option" where
  "builder_next_block_id b = next_block_id (bcfg b)"

definition builder_exit :: "'a builder \<Rightarrow> block_id" where
  "builder_exit b = cfg_exit (bcfg b)"

definition finish :: "'a builder \<Rightarrow> 'a cfg option" where
  "finish b = add_edges_to (bcfg b) (frontier b) (cfg_exit (bcfg b))"

subsection \<open>Invariant\<close>

definition builder_ok :: "'a builder \<Rightarrow> bool" where
  "builder_ok b \<longleftrightarrow> wf_cfg (bcfg b) \<and> set (frontier b) \<subseteq> {..<node_count (bcfg b)}"

text \<open>\<open>grown g g' E ps\<close>: \<open>g'\<close> is \<open>g\<close> with the edges \<open>E\<close> and the payloads \<open>ps\<close> added.\<close>

definition grown :: "'a cfg \<Rightarrow> 'a cfg \<Rightarrow> (block_id \<times> block_id) set \<Rightarrow> 'a list \<Rightarrow> bool" where
  "grown g g' E ps \<longleftrightarrow> wf_cfg g' \<and> edges g' = edges g \<union> E \<and> payloads g' = payloads g @ ps \<and>
     cfg_entry g' = cfg_entry g \<and> cfg_exit g' = cfg_exit g"

lemma grownD:
  assumes "grown g g' E ps"
  shows "wf_cfg g'" and "edges g' = edges g \<union> E" and "payloads g' = payloads g @ ps"
    and "cfg_entry g' = cfg_entry g" and "cfg_exit g' = cfg_exit g"
    and "node_count g' = node_count g + length ps"
  using assms by (auto simp: grown_def node_count_def)

lemma grown_refl: "wf_cfg g \<Longrightarrow> grown g g {} []"
  by (simp add: grown_def)

lemma grown_trans: "grown g g' E ps \<Longrightarrow> grown g' g'' F qs \<Longrightarrow> grown g g'' (E \<union> F) (ps @ qs)"
  by (simp add: grown_def Un_assoc)

lemma add_edge_grown:
  assumes "wf_cfg g" and "from < node_count g" and "to < node_count g"
  obtains new g' where "add_edge g from to = Some (new, g')" and "grown g g' {(from, to)} []"
  by (rule add_edge_wf [OF assms]) (auto simp: grown_def intro!: that)

lemma add_edges_to_grown:
  "wf_cfg g \<Longrightarrow> set sources \<subseteq> {..<node_count g} \<Longrightarrow> target < node_count g \<Longrightarrow>
     \<exists>g'. add_edges_to g sources target = Some g' \<and> grown g g' (set sources \<times> {target}) []"
proof (induction sources arbitrary: g)
  case Nil
  then show ?case by (simp add: grown_refl)
next
  case (Cons s sources)
  obtain new g1 where g1: "add_edge g s target = Some (new, g1)" "grown g g1 {(s, target)} []"
    by (rule add_edge_grown [of g s target]) (use Cons.prems in auto)
  note D = grownD [OF g1(2)]
  obtain g2 where g2: "add_edges_to g1 sources target = Some g2"
    "grown g1 g2 (set sources \<times> {target}) []"
    using Cons.IH [OF D(1)] Cons.prems D(6) by auto
  have "{(s, target)} \<union> set sources \<times> {target} = set (s # sources) \<times> {target}" by auto
  then show ?case using grown_trans [OF g1(2) g2(2)] g1(1) g2(1) by simp
qed

lemma append_node_grown:
  assumes "wf_cfg g" and "node_count g < u32_max"
  obtains g' where "append_node g p = Some (node_count g, g')" and "grown g g' {} [p]"
proof -
  obtain g' where a: "append_node g p = Some (node_count g, g')"
    using append_node_spec [OF assms] by blast
  from append_node_props [OF assms(1) a] that [OF a] show ?thesis by (simp add: grown_def)
qed

lemma push_block_grown:
  assumes ok: "builder_ok b" and room: "node_count (bcfg b) < u32_max"
  obtains b' where "push_block b p = Some (node_count (bcfg b), b')"
    and "grown (bcfg b) (bcfg b') (set (frontier b) \<times> {node_count (bcfg b)}) [p]"
    and "frontier b' = [node_count (bcfg b)]"
proof -
  let ?n = "node_count (bcfg b)"
  have wf: "wf_cfg (bcfg b)" and fr: "set (frontier b) \<subseteq> {..<?n}"
    using ok by (simp_all add: builder_ok_def)
  obtain g1 where g1: "append_node (bcfg b) p = Some (?n, g1)" "grown (bcfg b) g1 {} [p]"
    by (rule append_node_grown [OF wf room])
  note D = grownD [OF g1(2)]
  obtain g2 where g2: "add_edges_to g1 (frontier b) ?n = Some g2"
    "grown g1 g2 (set (frontier b) \<times> {?n}) []"
    using add_edges_to_grown [OF D(1), of "frontier b" ?n] fr D(6) by fastforce
  from grown_trans [OF g1(2) g2(2)] g1(1) g2(1) show ?thesis
    by (intro that [of "\<lparr>bcfg = g2, frontier = [?n]\<rparr>"]) (simp_all add: push_block_def)
qed

lemma push_block_ok:
  assumes ok: "builder_ok b" and p: "push_block b p = Some (i, b')"
  shows "builder_ok b'"
proof -
  have room: "node_count (bcfg b) < u32_max"
    using p append_node_full [of "bcfg b" p] by (force simp: push_block_def)
  show ?thesis
    by (rule push_block_grown [OF ok room, of p]) (use p in \<open>auto simp: builder_ok_def dest: grownD\<close>)
qed

lemma builder_new_ok: "builder_ok (builder_new p q)"
  by (simp add: builder_ok_def builder_new_def wf_disconnected)

lemma finish_grown:
  assumes "builder_ok b"
  obtains g where "finish b = Some g"
    and "grown (bcfg b) g (set (frontier b) \<times> {cfg_exit (bcfg b)}) []"
  using assms add_edges_to_grown [of "bcfg b" "frontier b" "cfg_exit (bcfg b)"]
  by (auto simp: builder_ok_def finish_def wf_basic)

lemma back_edge_ok:
  assumes ok: "builder_ok b" and s: "back_edge b from to = Some b'"
  shows "builder_ok b' \<and> edges (bcfg b') = insert (from, to) (edges (bcfg b)) \<and>
    from \<notin> set (frontier b')"
proof -
  have r: "from < node_count (bcfg b) \<and> to < node_count (bcfg b)"
  proof (rule ccontr)
    assume "\<not> ?thesis"
    from add_edge_invalid [OF this] show False using s by (simp add: back_edge_def)
  qed
  obtain new g where g: "add_edge (bcfg b) from to = Some (new, g)"
    "grown (bcfg b) g {(from, to)} []"
    by (rule add_edge_grown [of "bcfg b" "from" to]) (use ok r in \<open>auto simp: builder_ok_def\<close>)
  have "b' = \<lparr>bcfg = g, frontier = filter (\<lambda>open. open \<noteq> from) (frontier b)\<rparr>"
    using s g(1) by (simp add: back_edge_def)
  then show ?thesis using ok grownD [OF g(2)] by (auto simp: builder_ok_def)
qed

lemma jump_to_ok:
  assumes ok: "builder_ok b" and s: "jump_to b target = Some b'"
  shows "builder_ok b' \<and> frontier b' = [] \<and>
    edges (bcfg b') = edges (bcfg b) \<union> set (frontier b) \<times> {target}"
proof -
  have t: "target < node_count (bcfg b)"
    using s by (auto simp: jump_to_def assert_valid_block_def contains_block_def require_def
        node_count_def split: if_splits)
  obtain g where g: "add_edges_to (bcfg b) (frontier b) target = Some g"
    "grown (bcfg b) g (set (frontier b) \<times> {target}) []"
    using ok add_edges_to_grown [of "bcfg b" "frontier b" target] t by (auto simp: builder_ok_def)
  have "b' = \<lparr>bcfg = g, frontier = []\<rparr>"
    using s g(1) t
    by (simp add: jump_to_def assert_valid_block_def contains_block_def node_count_def panic_simps)
  then show ?thesis using grownD [OF g(2)] by (simp add: builder_ok_def)
qed

lemma set_frontier_ok:
  assumes ok: "builder_ok b"
  shows "set_frontier b ts =
    (if set ts \<subseteq> {..<node_count (bcfg b)} then Some (b\<lparr>frontier := ts\<rparr>) else None)"
proof -
  have "traverse (assert_valid_block g) ts =
      (if set ts \<subseteq> {..<node_count g} then Some (map (\<lambda>_. ()) ts) else None)" for g :: "'a cfg"
    by (induction ts) (auto simp: assert_valid_block_def contains_block_def require_def node_count_def)
  then show ?thesis by (simp add: set_frontier_def)
qed

lemma branch_grown:
  assumes ok: "builder_ok b" and room: "node_count (bcfg b) + 2 < u32_max"
  obtains b' where "branch b c t e =
      Some ((node_count (bcfg b) + 1, node_count (bcfg b) + 2), b')"
    and "grown (bcfg b) (bcfg b') (set (frontier b) \<times> {node_count (bcfg b)} \<union>
      {(node_count (bcfg b), node_count (bcfg b) + 1), (node_count (bcfg b), node_count (bcfg b) + 2)})
      [c, t, e]"
    and "frontier b' = [node_count (bcfg b) + 1, node_count (bcfg b) + 2]"
proof -
  let ?n = "node_count (bcfg b)"
  obtain b1 where b1: "push_block b c = Some (?n, b1)"
    "grown (bcfg b) (bcfg b1) (set (frontier b) \<times> {?n}) [c]"
    by (rule push_block_grown [OF ok, of c]) (use room in auto)
  note D1 = grownD [OF b1(2)]
  obtain g2 where g2: "append_node (bcfg b1) t = Some (?n + 1, g2)" "grown (bcfg b1) g2 {} [t]"
    by (rule append_node_grown [OF D1(1), of t]) (use room D1(6) in auto)
  note D2 = grownD [OF g2(2)]
  obtain g3 where g3: "append_node g2 e = Some (?n + 2, g3)" "grown g2 g3 {} [e]"
    by (rule append_node_grown [OF D2(1), of e]) (use room D1(6) D2(6) in auto)
  note D3 = grownD [OF g3(2)]
  obtain n4 g4 where g4: "add_edge g3 ?n (?n + 1) = Some (n4, g4)" "grown g3 g4 {(?n, ?n + 1)} []"
    by (rule add_edge_grown [OF D3(1), of ?n "?n + 1"]) (use D1(6) D2(6) D3(6) in auto)
  note D4 = grownD [OF g4(2)]
  obtain n5 g5 where g5: "add_edge g4 ?n (?n + 2) = Some (n5, g5)" "grown g4 g5 {(?n, ?n + 2)} []"
    by (rule add_edge_grown [OF D4(1), of ?n "?n + 2"]) (use D1(6) D2(6) D3(6) D4(6) in auto)
  have "branch b c t e = Some ((?n + 1, ?n + 2), \<lparr>bcfg = g5, frontier = [?n + 1, ?n + 2]\<rparr>)"
    using b1(1) g2(1) g3(1) g4(1) g5(1) by (simp add: branch_def)
  moreover have "grown (bcfg b) g5 (set (frontier b) \<times> {?n} \<union> {(?n, ?n + 1), (?n, ?n + 2)}) [c, t, e]"
    using grown_trans [OF grown_trans [OF grown_trans [OF grown_trans [OF b1(2) g2(2)] g3(2)] g4(2)] g5(2)]
    by (simp add: Un_assoc insert_commute)
  ultimately show ?thesis using that by simp
qed

subsection \<open>Properties\<close>

text \<open>Every frontier operation of \<open>CfgBuilder\<close> keeps the graph well-formed and the frontier
  inside it, with exactly the edges it documents: \<open>push_block\<close> wires the frontier into the new
  block, \<open>branch\<close> opens two fresh arms, \<open>back_edge\<close> closes its source, \<open>jump_to\<close> empties the
  frontier into its target, \<open>set_frontier\<close> refuses invalid blocks, and \<open>finish\<close> never panics
  and routes what is open to the exit.\<close>

theorem builder_operations:
  assumes ok: "builder_ok b"
  shows "(node_count (bcfg b) < u32_max \<longrightarrow> (\<exists>b'. push_block b p = Some (node_count (bcfg b), b') \<and>
      builder_ok b' \<and> frontier b' = [node_count (bcfg b)] \<and> payloads (bcfg b') = payloads (bcfg b) @ [p] \<and>
      edges (bcfg b') = edges (bcfg b) \<union> set (frontier b) \<times> {node_count (bcfg b)})) \<and>
    (node_count (bcfg b) + 2 < u32_max \<longrightarrow> (\<exists>b'. branch b p q r =
      Some ((node_count (bcfg b) + 1, node_count (bcfg b) + 2), b') \<and> builder_ok b' \<and>
      frontier b' = [node_count (bcfg b) + 1, node_count (bcfg b) + 2])) \<and>
    (\<forall>from to b'. back_edge b from to = Some b' \<longrightarrow> builder_ok b' \<and>
      edges (bcfg b') = insert (from, to) (edges (bcfg b)) \<and> from \<notin> set (frontier b')) \<and>
    (\<forall>t b'. jump_to b t = Some b' \<longrightarrow> builder_ok b' \<and> frontier b' = [] \<and>
      edges (bcfg b') = edges (bcfg b) \<union> set (frontier b) \<times> {t}) \<and>
    (\<forall>ts. set_frontier b ts =
      (if set ts \<subseteq> {..<node_count (bcfg b)} then Some (b\<lparr>frontier := ts\<rparr>) else None)) \<and>
    (\<exists>g. finish b = Some g \<and> wf_cfg g \<and>
      edges g = edges (bcfg b) \<union> set (frontier b) \<times> {cfg_exit (bcfg b)})"
proof (intro conjI allI impI)
  let ?n = "node_count (bcfg b)"
  assume room: "?n < u32_max"
  show "\<exists>b'. push_block b p = Some (?n, b') \<and> builder_ok b' \<and> frontier b' = [?n] \<and>
      payloads (bcfg b') = payloads (bcfg b) @ [p] \<and>
      edges (bcfg b') = edges (bcfg b) \<union> set (frontier b) \<times> {?n}"
    by (rule push_block_grown [OF ok room, of p]) (auto simp: builder_ok_def dest: grownD)
next
  let ?n = "node_count (bcfg b)"
  assume room: "?n + 2 < u32_max"
  show "\<exists>b'. branch b p q r = Some ((?n + 1, ?n + 2), b') \<and> builder_ok b' \<and>
      frontier b' = [?n + 1, ?n + 2]"
    by (rule branch_grown [OF ok room, of p q r]) (auto simp: builder_ok_def dest: grownD)
next
  show "\<exists>g. finish b = Some g \<and> wf_cfg g \<and>
      edges g = edges (bcfg b) \<union> set (frontier b) \<times> {cfg_exit (bcfg b)}"
    by (rule finish_grown [OF ok]) (auto dest: grownD)
qed (use back_edge_ok [OF ok] jump_to_ok [OF ok] set_frontier_ok [OF ok] in blast)+

theorem builder_operations_witness:
  "\<exists>g. finish (builder_new (0 :: nat) 1) = Some g \<and> edges g = {(0, 1)}"
proof -
  have "\<exists>g. finish (builder_new (0 :: nat) 1) = Some g \<and> wf_cfg g \<and>
      edges g = edges (bcfg (builder_new (0 :: nat) 1)) \<union>
        set (frontier (builder_new (0 :: nat) 1)) \<times> {cfg_exit (bcfg (builder_new (0 :: nat) 1))}"
    using builder_operations [OF builder_new_ok [of "0 :: nat" 1]] by blast
  then show ?thesis by (auto simp: builder_new_def edges_disconnected)
qed

end
