(* ===== verification/CfgSpec.thy ===== *)
theory CfgSpec
  imports CfgBuilder "HOL-Library.Sublist"
begin

text \<open>
  The lowering of structured control flow, \<open>crates/hoonarqube-dataflow/src/spec.rs\<close>. The code
  is an explicit stack machine: \<open>emit_loop\<close> pops an action and \<open>run_action\<close> executes it,
  pushing the actions for nested constructs and their continuations. \<open>lower\<close> is the same
  lowering by structural recursion on the description; \<open>emit_loop_lower\<close> shows that the machine
  implements it, and the invariants are proved over \<open>lower\<close>.
  Stacks (\<open>actions\<close>, \<open>loops\<close>) have their top at the head of the list.
\<close>

subsection \<open>Descriptions and actions\<close>

datatype 'a spec =
    Stmt 'a
  | Seq "'a spec list"
  | IfS 'a "'a spec" "'a spec option"
  | For "'a spec option" "'a option" "'a spec" "'a spec option"
  | DoWhile "'a spec" 'a
  | Break
  | Continue
  | Return
  | Try "'a spec" "'a spec option" "'a spec option"

record loop_context =
  break_sources :: "block_id list"
  continue_sources :: "block_id list"

definition loop_context_new :: loop_context where
  "loop_context_new = \<lparr>break_sources = [], continue_sources = []\<rparr>"

datatype 'a emit_action =
    Spec "'a spec"
  | ReachableSpec "'a spec"
  | StartFor "'a option" "'a spec" "'a spec option"
  | FinishIfThen block_id "'a spec option"
  | FinishIfElse "block_id list"
  | FinishTestedBody block_id "'a spec option"
  | FinishTestedStep block_id block_id "block_id list"
  | FinishEndlessBody block_id "'a spec option"
  | FinishEndlessStep "block_id option" block_id "block_id list"
  | FinishDoWhile block_id 'a
  | FinishTryBody block_id "'a spec option" "'a spec option"
  | FinishTryCatch "block_id list" block_id "'a spec option"

type_synonym 'a emit_state = "'a builder \<times> loop_context list"
type_synonym 'a emit_result = "('a builder \<times> loop_context list \<times> 'a emit_action list) option"

subsection \<open>Pieces shared by the actions\<close>

text \<open>\<open>for source in sources { builder.add_edge(source, target); }\<close>\<close>

definition wire :: "'a builder \<Rightarrow> block_id list \<Rightarrow> block_id \<Rightarrow> 'a builder option" where
  "wire b sources target = do {
     g \<leftarrow> add_edges_to (bcfg b) sources target;
     Some (b\<lparr>bcfg := g\<rparr>)
   }"

fun wire_loop_sources :: "'a builder \<Rightarrow> block_id list \<Rightarrow> block_id option \<Rightarrow> 'a builder option" where
  "wire_loop_sources b [] target = Some b"
| "wire_loop_sources b (source # sources) target = do {
     (_, b') \<leftarrow> builder_add_edge b source (case target of None \<Rightarrow> source | Some t \<Rightarrow> t);
     wire_loop_sources b' sources target
   }"

definition take_continue_sources :: "loop_context list \<Rightarrow> (block_id list \<times> loop_context list) option" where
  "take_continue_sources loops = (case loops of
     [] \<Rightarrow> None
   | c # cs \<Rightarrow> Some (continue_sources c, c\<lparr>continue_sources := []\<rparr> # cs))"

text \<open>The ids \<open>start..next\<close>, each of which has to fit 32 bits.\<close>

definition block_range :: "block_id \<Rightarrow> block_id \<Rightarrow> block_id list option" where
  "block_range start next = traverse (\<lambda>i. if i \<le> u32_max then Some i else None) [start..<next]"

definition record_return :: "'a builder \<Rightarrow> 'a builder option" where
  "record_return b = (let (sources, b) = take_frontier b in wire b sources (builder_exit b))"

definition record_loop_jump :: "'a builder \<Rightarrow> loop_context list \<Rightarrow> bool \<Rightarrow> 'a emit_state" where
  "record_loop_jump b loops is_break =
     (let (sources, b) = take_frontier b in
      case loops of
        [] \<Rightarrow> (set_valid_frontier b sources, loops)
      | c # cs \<Rightarrow>
          (b, (if is_break then c\<lparr>break_sources := break_sources c @ sources\<rparr>
               else c\<lparr>continue_sources := continue_sources c @ sources\<rparr>) # cs))"

definition finish_tested_loop :: "block_id \<Rightarrow> 'a builder \<Rightarrow> loop_context list \<Rightarrow> 'a emit_state option" where
  "finish_tested_loop header b loops = (case loops of
     [] \<Rightarrow> None
   | c # cs \<Rightarrow> Some (set_valid_frontier b (break_sources c @ [header]), cs))"

definition finish_tested_step :: "block_id \<Rightarrow> block_id \<Rightarrow> block_id list \<Rightarrow> 'a builder
    \<Rightarrow> loop_context list \<Rightarrow> 'a emit_state option" where
  "finish_tested_step header step_hint body_continues b loops = do {
     n \<leftarrow> builder_next_block_id b;
     let step_entry = (if n \<noteq> step_hint then Some step_hint else None);
     let (sources, b) = take_frontier b;
     b \<leftarrow> wire b sources header;
     b \<leftarrow> wire b body_continues (case step_entry of None \<Rightarrow> header | Some e \<Rightarrow> e);
     (cs, loops) \<leftarrow> take_continue_sources loops;
     b \<leftarrow> wire b cs header;
     finish_tested_loop header b loops
   }"

definition finish_endless_loop :: "'a builder \<Rightarrow> loop_context list \<Rightarrow> 'a emit_state option" where
  "finish_endless_loop b loops = (case loops of
     [] \<Rightarrow> None
   | c # cs \<Rightarrow> Some (set_valid_frontier b (break_sources c), cs))"

definition option_or :: "'b option \<Rightarrow> 'b option \<Rightarrow> 'b option" where
  "option_or x y = (case x of None \<Rightarrow> y | Some _ \<Rightarrow> x)"

definition finish_endless_step :: "block_id option \<Rightarrow> block_id \<Rightarrow> block_id list \<Rightarrow> 'a builder
    \<Rightarrow> loop_context list \<Rightarrow> 'a emit_state option" where
  "finish_endless_step body_entry step_hint body_continues b loops = do {
     n \<leftarrow> builder_next_block_id b;
     let step_entry = (if n \<noteq> step_hint then Some step_hint else None);
     let loop_target = option_or body_entry step_entry;
     let (step_tails, b) = take_frontier b;
     b \<leftarrow> wire_loop_sources b step_tails loop_target;
     b \<leftarrow> wire_loop_sources b body_continues (option_or step_entry body_entry);
     (step_continues, loops) \<leftarrow> take_continue_sources loops;
     b \<leftarrow> wire_loop_sources b step_continues loop_target;
     finish_endless_loop b loops
   }"

definition finish_do_while :: "block_id \<Rightarrow> 'a \<Rightarrow> 'a builder \<Rightarrow> loop_context list
    \<Rightarrow> 'a emit_state option" where
  "finish_do_while body_hint condition b loops = do {
     n \<leftarrow> builder_next_block_id b;
     let created_body = (n \<noteq> body_hint);
     (header, b) \<leftarrow> push_block b condition;
     (case loops of
        [] \<Rightarrow> None
      | c # cs \<Rightarrow> do {
          b \<leftarrow> wire b (continue_sources c) header;
          (_, b) \<leftarrow> builder_add_edge b header (if created_body then body_hint else header);
          Some (set_valid_frontier b (break_sources c @ [header]), cs)
        })
   }"

subsection \<open>The actions\<close>

definition finish_if_then :: "block_id \<Rightarrow> 'a spec option \<Rightarrow> 'a builder \<Rightarrow> 'a emit_action list
    \<Rightarrow> 'a builder \<times> 'a emit_action list" where
  "finish_if_then condition else_arm b actions =
     (let (then_sources, b) = take_frontier b in
      case else_arm of
        Some else_arm \<Rightarrow>
          (set_valid_frontier b [condition], Spec else_arm # FinishIfElse then_sources # actions)
      | None \<Rightarrow> (set_valid_frontier b (then_sources @ [condition]), actions))"

definition start_for :: "'a option \<Rightarrow> 'a spec \<Rightarrow> 'a spec option \<Rightarrow> 'a builder
    \<Rightarrow> loop_context list \<Rightarrow> 'a emit_action list \<Rightarrow> 'a emit_result" where
  "start_for condition body step b loops actions = (case condition of
     Some condition \<Rightarrow> do {
       (header, b) \<leftarrow> push_block b condition;
       Some (set_valid_frontier b [header], loop_context_new # loops,
             Spec body # FinishTestedBody header step # actions)
     }
   | None \<Rightarrow> do {
       body_hint \<leftarrow> builder_next_block_id b;
       Some (b, loop_context_new # loops, Spec body # FinishEndlessBody body_hint step # actions)
     })"

definition finish_tested_body :: "block_id \<Rightarrow> 'a spec option \<Rightarrow> 'a builder \<Rightarrow> loop_context list
    \<Rightarrow> 'a emit_action list \<Rightarrow> 'a emit_result" where
  "finish_tested_body header step b loops actions = do {
     let (tail_sources, b) = take_frontier b;
     (body_continues, loops) \<leftarrow> take_continue_sources loops;
     (case step of
        Some post \<Rightarrow> do {
          step_hint \<leftarrow> builder_next_block_id b;
          Some (set_valid_frontier b tail_sources, loops,
                Spec post # FinishTestedStep header step_hint body_continues # actions)
        }
      | None \<Rightarrow> do {
          b \<leftarrow> wire b (tail_sources @ body_continues) header;
          (b, loops) \<leftarrow> finish_tested_loop header b loops;
          Some (b, loops, actions)
        })
   }"

definition finish_endless_body :: "block_id \<Rightarrow> 'a spec option \<Rightarrow> 'a builder \<Rightarrow> loop_context list
    \<Rightarrow> 'a emit_action list \<Rightarrow> 'a emit_result" where
  "finish_endless_body body_hint step b loops actions = do {
     n \<leftarrow> builder_next_block_id b;
     let body_entry = (if n \<noteq> body_hint then Some body_hint else None);
     let (tail_sources, b) = take_frontier b;
     (body_continues, loops) \<leftarrow> take_continue_sources loops;
     (case step of
        Some step \<Rightarrow> do {
          step_hint \<leftarrow> builder_next_block_id b;
          Some (set_valid_frontier b tail_sources, loops,
                Spec step # FinishEndlessStep body_entry step_hint body_continues # actions)
        }
      | None \<Rightarrow> do {
          b \<leftarrow> wire_loop_sources b tail_sources body_entry;
          b \<leftarrow> wire_loop_sources b body_continues body_entry;
          (b, loops) \<leftarrow> finish_endless_loop b loops;
          Some (b, loops, actions)
        })
   }"

definition finish_try_body :: "block_id \<Rightarrow> 'a spec option \<Rightarrow> 'a spec option \<Rightarrow> 'a builder
    \<Rightarrow> 'a emit_action list \<Rightarrow> ('a builder \<times> 'a emit_action list) option" where
  "finish_try_body body_start catch finally b actions = do {
     let (join_sources, b) = take_frontier b;
     next \<leftarrow> builder_next_block_id b;
     exceptional_sources \<leftarrow> block_range body_start next;
     (case catch of
        Some handler \<Rightarrow> do {
          let b = set_valid_frontier b exceptional_sources;
          handler_start \<leftarrow> builder_next_block_id b;
          Some (b, Spec handler # FinishTryCatch join_sources handler_start finally # actions)
        }
      | None \<Rightarrow>
          (case finally of
             Some cleanup \<Rightarrow>
               Some (set_valid_frontier b (join_sources @ exceptional_sources), Spec cleanup # actions)
           | None \<Rightarrow> do {
               b \<leftarrow> wire b exceptional_sources (builder_exit b);
               Some (set_valid_frontier b join_sources, actions)
             }))
   }"

definition finish_try_catch :: "block_id list \<Rightarrow> block_id \<Rightarrow> 'a spec option \<Rightarrow> 'a builder
    \<Rightarrow> 'a emit_action list \<Rightarrow> ('a builder \<times> 'a emit_action list) option" where
  "finish_try_catch body_sources handler_start finally b actions = do {
     let (sources, b) = take_frontier b;
     let body_sources = body_sources @ sources;
     next \<leftarrow> builder_next_block_id b;
     exceptional_handler_sources \<leftarrow> block_range handler_start next;
     let b = set_valid_frontier b body_sources;
     (case finally of
        Some cleanup \<Rightarrow> do {
          let (cleanup_sources, b) = take_frontier b;
          Some (set_valid_frontier b (cleanup_sources @ exceptional_handler_sources),
                Spec cleanup # actions)
        }
      | None \<Rightarrow> do {
          b \<leftarrow> wire b exceptional_handler_sources (builder_exit b);
          Some (b, actions)
        })
   }"

fun schedule_spec :: "'a spec \<Rightarrow> 'a builder \<Rightarrow> loop_context list \<Rightarrow> 'a emit_action list
    \<Rightarrow> 'a emit_result" where
  "schedule_spec (Stmt p) b loops actions = do {
     (_, b) \<leftarrow> push_block b p;
     Some (b, loops, actions)
   }"
| "schedule_spec (Seq items) b loops actions =
     Some (b, loops, map ReachableSpec items @ actions)"
| "schedule_spec (IfS condition then_arm else_arm) b loops actions = do {
     (condition, b) \<leftarrow> push_block b condition;
     Some (set_valid_frontier b [condition], loops,
           Spec then_arm # FinishIfThen condition else_arm # actions)
   }"
| "schedule_spec (For init condition body step) b loops actions =
     Some (b, loops,
       (case init of None \<Rightarrow> [] | Some i \<Rightarrow> [Spec i]) @ StartFor condition body step # actions)"
| "schedule_spec (DoWhile body condition) b loops actions = do {
     body_hint \<leftarrow> builder_next_block_id b;
     Some (b, loop_context_new # loops, Spec body # FinishDoWhile body_hint condition # actions)
   }"
| "schedule_spec Break b loops actions =
     (let (b, loops) = record_loop_jump b loops True in Some (b, loops, actions))"
| "schedule_spec Continue b loops actions =
     (let (b, loops) = record_loop_jump b loops False in Some (b, loops, actions))"
| "schedule_spec Return b loops actions = do {
     b \<leftarrow> record_return b;
     Some (b, loops, actions)
   }"
| "schedule_spec (Try body catch finally) b loops actions = do {
     body_start \<leftarrow> builder_next_block_id b;
     Some (b, loops, Spec body # FinishTryBody body_start catch finally # actions)
   }"

fun run_action :: "'a emit_action \<Rightarrow> 'a builder \<Rightarrow> loop_context list \<Rightarrow> 'a emit_action list
    \<Rightarrow> 'a emit_result" where
  "run_action (Spec s) b loops actions = schedule_spec s b loops actions"
| "run_action (ReachableSpec s) b loops actions =
     (if frontier b \<noteq> [] then schedule_spec s b loops actions else Some (b, loops, actions))"
| "run_action (StartFor condition body step) b loops actions =
     start_for condition body step b loops actions"
| "run_action (FinishIfThen condition else_arm) b loops actions =
     (let (b, actions) = finish_if_then condition else_arm b actions in Some (b, loops, actions))"
| "run_action (FinishIfElse then_sources) b loops actions =
     (let (sources, b) = take_frontier b
      in Some (set_valid_frontier b (then_sources @ sources), loops, actions))"
| "run_action (FinishTestedBody header step) b loops actions =
     finish_tested_body header step b loops actions"
| "run_action (FinishTestedStep header step_hint body_continues) b loops actions = do {
     (b, loops) \<leftarrow> finish_tested_step header step_hint body_continues b loops;
     Some (b, loops, actions)
   }"
| "run_action (FinishEndlessBody body_hint step) b loops actions =
     finish_endless_body body_hint step b loops actions"
| "run_action (FinishEndlessStep body_entry step_hint body_continues) b loops actions = do {
     (b, loops) \<leftarrow> finish_endless_step body_entry step_hint body_continues b loops;
     Some (b, loops, actions)
   }"
| "run_action (FinishDoWhile body_hint condition) b loops actions = do {
     (b, loops) \<leftarrow> finish_do_while body_hint condition b loops;
     Some (b, loops, actions)
   }"
| "run_action (FinishTryBody body_start catch finally) b loops actions = do {
     (b, actions) \<leftarrow> finish_try_body body_start catch finally b actions;
     Some (b, loops, actions)
   }"
| "run_action (FinishTryCatch body_sources handler_start finally) b loops actions = do {
     (b, actions) \<leftarrow> finish_try_catch body_sources handler_start finally b actions;
     Some (b, loops, actions)
   }"

partial_function (option) emit_loop :: "'a emit_action list \<Rightarrow> 'a builder \<Rightarrow> loop_context list
    \<Rightarrow> 'a emit_state option" where
  "emit_loop actions b loops = (case actions of
     [] \<Rightarrow> Some (b, loops)
   | action # actions \<Rightarrow> do {
       (b, loops, actions) \<leftarrow> run_action action b loops actions;
       emit_loop actions b loops
     })"

definition emit_spec :: "'a spec \<Rightarrow> 'a builder \<Rightarrow> loop_context list \<Rightarrow> 'a emit_state option" where
  "emit_spec s b loops = emit_loop [Spec s] b loops"

definition build_from_blocks :: "'a spec \<Rightarrow> 'a \<Rightarrow> 'a \<Rightarrow> 'a cfg option" where
  "build_from_blocks s entry_payload exit_payload = do {
     (b, _) \<leftarrow> emit_spec s (builder_new entry_payload exit_payload) [];
     finish b
   }"

subsection \<open>The lowering by structural recursion\<close>

text \<open>
  Each construct lowers its parts in order around the same closing steps; no action stack. The
  closing of a loop body without a step is the machine's own code on an empty stack.
\<close>

definition forget :: "'a emit_result \<Rightarrow> 'a emit_state option" where
  "forget r = do { (b, loops, _) \<leftarrow> r; Some (b, loops) }"

fun lower :: "'a spec \<Rightarrow> 'a emit_state \<Rightarrow> 'a emit_state option"
and lower_items :: "'a spec list \<Rightarrow> 'a emit_state \<Rightarrow> 'a emit_state option" where
  "lower (Stmt p) (b, loops) = do { (_, b) \<leftarrow> push_block b p; Some (b, loops) }"
| "lower (Seq items) (b, loops) = lower_items items (b, loops)"
| "lower (IfS c t e) (b, loops) = do {
     (cond, b) \<leftarrow> push_block b c;
     (b, loops) \<leftarrow> lower t (set_valid_frontier b [cond], loops);
     (case e of
        None \<Rightarrow> Some (set_valid_frontier b (frontier b @ [cond]), loops)
      | Some e \<Rightarrow> do {
          let then_sources = frontier b;
          (b, loops) \<leftarrow> lower e (set_valid_frontier b [cond], loops);
          Some (set_valid_frontier b (then_sources @ frontier b), loops)
        })
   }"
| "lower (For init c body step) (b, loops) = do {
     (b, loops) \<leftarrow> (case init of None \<Rightarrow> Some (b, loops) | Some i \<Rightarrow> lower i (b, loops));
     (case c of
        Some c \<Rightarrow> do {
          (header, b) \<leftarrow> push_block b c;
          (b, loops) \<leftarrow> lower body (set_valid_frontier b [header], loop_context_new # loops);
          (case step of
             None \<Rightarrow> forget (finish_tested_body header None b loops [])
           | Some s \<Rightarrow> do {
               (body_continues, loops) \<leftarrow> take_continue_sources loops;
               step_hint \<leftarrow> builder_next_block_id b;
               (b, loops) \<leftarrow> lower s (b, loops);
               finish_tested_step header step_hint body_continues b loops
             })
        }
      | None \<Rightarrow> do {
          body_hint \<leftarrow> builder_next_block_id b;
          (b, loops) \<leftarrow> lower body (b, loop_context_new # loops);
          (case step of
             None \<Rightarrow> forget (finish_endless_body body_hint None b loops [])
           | Some s \<Rightarrow> do {
               n \<leftarrow> builder_next_block_id b;
               (body_continues, loops) \<leftarrow> take_continue_sources loops;
               step_hint \<leftarrow> builder_next_block_id b;
               (b, loops) \<leftarrow> lower s (b, loops);
               finish_endless_step (if n \<noteq> body_hint then Some body_hint else None)
                 step_hint body_continues b loops
             })
        })
   }"
| "lower (DoWhile body c) (b, loops) = do {
     body_hint \<leftarrow> builder_next_block_id b;
     (b, loops) \<leftarrow> lower body (b, loop_context_new # loops);
     finish_do_while body_hint c b loops
   }"
| "lower Break (b, loops) = Some (record_loop_jump b loops True)"
| "lower Continue (b, loops) = Some (record_loop_jump b loops False)"
| "lower Return (b, loops) = do { b \<leftarrow> record_return b; Some (b, loops) }"
| "lower (Try body catch finally) (b, loops) = do {
     body_start \<leftarrow> builder_next_block_id b;
     (b, loops) \<leftarrow> lower body (b, loops);
     next \<leftarrow> builder_next_block_id b;
     exceptional_sources \<leftarrow> block_range body_start next;
     (b, loops) \<leftarrow> (case catch of
        Some handler \<Rightarrow> do {
          let body_sources = frontier b;
          handler_start \<leftarrow> builder_next_block_id b;
          (b, loops) \<leftarrow> lower handler (set_valid_frontier b exceptional_sources, loops);
          next \<leftarrow> builder_next_block_id b;
          handler_sources \<leftarrow> block_range handler_start next;
          (case finally of
             Some _ \<Rightarrow> Some (set_valid_frontier b (body_sources @ frontier b @ handler_sources), loops)
           | None \<Rightarrow> do {
               let b = set_valid_frontier b (body_sources @ frontier b);
               b \<leftarrow> wire b handler_sources (builder_exit b);
               Some (b, loops)
             })
        }
      | None \<Rightarrow>
          (case finally of
             Some _ \<Rightarrow> Some (set_valid_frontier b (frontier b @ exceptional_sources), loops)
           | None \<Rightarrow> do {
               b' \<leftarrow> wire b exceptional_sources (builder_exit b);
               Some (b', loops)
             }));
     (case finally of None \<Rightarrow> Some (b, loops) | Some cleanup \<Rightarrow> lower cleanup (b, loops))
   }"
| "lower_items [] (b, loops) = Some (b, loops)"
| "lower_items (s # ss) (b, loops) = do {
     (b, loops) \<leftarrow> (if frontier b \<noteq> [] then lower s (b, loops) else Some (b, loops));
     lower_items ss (b, loops)
   }"

lemma emit_loop_Nil [simp]: "emit_loop [] b loops = Some (b, loops)"
  by (subst emit_loop.simps) simp

lemma emit_loop_Cons:
  "emit_loop (a # as) b loops =
     do { (b, loops, actions) \<leftarrow> run_action a b loops as; emit_loop actions b loops }"
  by (subst emit_loop.simps) simp

lemma bind_case_prod:
  "Option.bind (case p of (a, b) \<Rightarrow> f a b) k = (case p of (a, b) \<Rightarrow> Option.bind (f a b) k)"
  by (cases p) simp

lemma bind_case_option:
  "Option.bind (case x of None \<Rightarrow> f | Some a \<Rightarrow> g a) k =
     (case x of None \<Rightarrow> Option.bind f k | Some a \<Rightarrow> Option.bind (g a) k)"
  by (cases x) simp_all

lemmas emit_finish =
  emit_loop_Cons [of "StartFor c s t" for c s t] emit_loop_Cons [of "FinishIfThen c e" for c e]
  emit_loop_Cons [of "FinishIfElse t" for t] emit_loop_Cons [of "FinishTestedBody h t" for h t]
  emit_loop_Cons [of "FinishTestedStep h i c" for h i c]
  emit_loop_Cons [of "FinishEndlessBody i t" for i t]
  emit_loop_Cons [of "FinishEndlessStep e i c" for e i c]
  emit_loop_Cons [of "FinishDoWhile i c" for i c] emit_loop_Cons [of "FinishTryBody i c f" for i c f]
  emit_loop_Cons [of "FinishTryCatch t h f" for t h f]
  take_frontier_def set_valid_frontier_def builder_next_block_id_def bind_case_prod bind_case_option

definition emits :: "'a spec \<Rightarrow> bool" where
  "emits s \<longleftrightarrow> (\<forall>actions b loops. emit_loop (Spec s # actions) b loops =
     do { (b, loops) \<leftarrow> lower s (b, loops); emit_loop actions b loops })"

lemma emitsD: "emits s \<Longrightarrow> emit_loop (Spec s # actions) b loops =
     do { (b, loops) \<leftarrow> lower s (b, loops); emit_loop actions b loops }"
  by (simp add: emits_def)

lemma emits_items:
  "(\<And>s. s \<in> set items \<Longrightarrow> emits s) \<Longrightarrow> emit_loop (map ReachableSpec items @ actions) b loops =
     do { (b, loops) \<leftarrow> lower_items items (b, loops); emit_loop actions b loops }"
proof (induction items arbitrary: b loops)
  case (Cons s items)
  have "emit_loop (ReachableSpec s # as) b loops =
      (if frontier b \<noteq> [] then emit_loop (Spec s # as) b loops else emit_loop as b loops)" for as
    by (simp add: emit_loop_Cons)
  then show ?case
    using Cons emitsD [of s] by (cases "lower s (b, loops)") (auto simp: bind_case_prod)
qed simp

lemma emits_spec: "emits s"
proof (induction s)
  case (IfS c t e)
  note IH = emitsD [OF IfS.IH(1)]
  show ?case
    unfolding emits_def
    by (intro allI, subst emit_loop_Cons, cases e)
      (simp_all add: IH emit_finish emitsD [OF IfS.IH(2)] finish_if_then_def)
next
  case (Seq items)
  show ?case
    unfolding emits_def
    by (intro allI, subst emit_loop_Cons) (simp add: emits_items [OF Seq.IH])
next
  case (For init c body step)
  note IH = emitsD [OF For.IH(1)] emitsD [OF For.IH(2)] emitsD [OF For.IH(3)]
  have start: "emit_loop (StartFor c body step # actions) b loops =
      do { (b, loops) \<leftarrow> lower (For None c body step) (b, loops); emit_loop actions b loops }"
    for actions b loops
    by (cases c; cases step)
      (simp_all add: emit_finish start_for_def IH finish_tested_body_def finish_endless_body_def
        forget_def case_prod_unfold Let_def)
  have "lower (For init c body step) (b, loops) =
      do { (b, loops) \<leftarrow> (case init of None \<Rightarrow> Some (b, loops) | Some i \<Rightarrow> lower i (b, loops));
           lower (For None c body step) (b, loops) }" for b loops
    by simp
  then show ?case
    unfolding emits_def
    by (intro allI, subst emit_loop_Cons, cases init)
      (simp_all del: lower.simps(4) add: start IH case_prod_unfold)
next
  case (DoWhile body c)
  show ?case
    unfolding emits_def
    by (intro allI, subst emit_loop_Cons)
      (simp add: emit_finish emitsD [OF DoWhile.IH] case_prod_unfold)
next
  case (Try body catch fin)
  note IH = emitsD [OF Try.IH(1)] emitsD [OF Try.IH(2)] emitsD [OF Try.IH(3)]
  show ?case
    unfolding emits_def
    by (intro allI, subst emit_loop_Cons, (cases catch; cases fin))
      (simp_all add: emit_finish IH finish_try_body_def finish_try_catch_def builder_exit_def
        wire_def case_prod_unfold Let_def)
qed (simp_all add: emits_def emit_loop_Cons bind_case_prod split_beta)

text \<open>The stack machine computes the structural lowering.\<close>

lemma emit_spec_lower: "emit_spec s b loops = lower s (b, loops)"
  by (cases "lower s (b, loops)") (auto simp: emit_spec_def emitsD [OF emits_spec])

subsection \<open>Invariant of the lowering\<close>

text \<open>
  A block is \<open>pending\<close> while it is open in the frontier or recorded as a \<open>break\<close> or
  \<open>continue\<close> source. \<open>dangling X st\<close> are the blocks other than the exit that have no successor
  and are neither pending nor held in the temporary set \<open>X\<close>.
\<close>

definition pending :: "'a emit_state \<Rightarrow> block_id set" where
  "pending st = set (frontier (fst st)) \<union>
     (\<Union>c \<in> set (snd st). set (break_sources c) \<union> set (continue_sources c))"

definition inner :: "'a builder \<Rightarrow> block_id set" where
  "inner b = {..<node_count (bcfg b)} - {1}"

definition st_ok :: "'a emit_state \<Rightarrow> bool" where
  "st_ok st \<longleftrightarrow> wf_cfg (bcfg (fst st)) \<and> cfg_exit (bcfg (fst st)) = 1 \<and>
     2 \<le> node_count (bcfg (fst st)) \<and> 1 \<notin> Domain (edges (bcfg (fst st))) \<and>
     pending st \<subseteq> inner (fst st)"

definition dangling :: "block_id set \<Rightarrow> 'a emit_state \<Rightarrow> block_id set" where
  "dangling X st = inner (fst st) - Domain (edges (bcfg (fst st))) - pending st - X"

definition lowered :: "block_id set \<Rightarrow> block_id set \<Rightarrow> 'a list \<Rightarrow> 'a emit_state \<Rightarrow> 'a emit_state \<Rightarrow> bool" where
  "lowered X Y ps st st' \<longleftrightarrow> st_ok st' \<and> Y \<subseteq> inner (fst st') \<and>
     (\<exists>qs. payloads (bcfg (fst st')) = payloads (bcfg (fst st)) @ qs \<and> subseq qs ps) \<and>
     edges (bcfg (fst st)) \<subseteq> edges (bcfg (fst st')) \<and> dangling Y st' \<subseteq> dangling X st"

lemma loweredD:
  assumes "lowered X Y ps st (b, loops)"
  shows "wf_cfg (bcfg b)" and "cfg_exit (bcfg b) = 1" and "2 \<le> node_count (bcfg b)"
    and "1 \<notin> Domain (edges (bcfg b))" and "pending (b, loops) \<subseteq> inner b" and "Y \<subseteq> inner b"
    and "node_count (bcfg b) \<le> node_count (bcfg (fst st)) + length ps"
    and "builder_ok b"
proof -
  show "node_count (bcfg b) \<le> node_count (bcfg (fst st)) + length ps"
    using assms by (auto simp: lowered_def node_count_def dest: list_emb_length)
  show "builder_ok b"
    using assms by (auto simp: lowered_def st_ok_def builder_ok_def pending_def inner_def)
qed (use assms in \<open>auto simp: lowered_def st_ok_def\<close>)

lemma lowered_refl: "st_ok st \<Longrightarrow> lowered {} {} [] st st"
  by (simp add: lowered_def)

lemma lowered_trans:
  assumes "lowered X Y ps st st'" and "lowered Y Z qs st' st''"
  shows "lowered X Z (ps @ qs) st st''"
proof -
  obtain xs ys where "payloads (bcfg (fst st')) = payloads (bcfg (fst st)) @ xs" "subseq xs ps"
    "payloads (bcfg (fst st'')) = payloads (bcfg (fst st')) @ ys" "subseq ys qs"
    using assms unfolding lowered_def by blast
  then have "payloads (bcfg (fst st'')) = payloads (bcfg (fst st)) @ xs @ ys"
    "subseq (xs @ ys) (ps @ qs)" by (auto intro: list_emb_append_mono)
  then show ?thesis
    unfolding lowered_def
    by (intro conjI exI [of _ "xs @ ys"]) (use assms in \<open>auto simp: lowered_def\<close>)
qed

lemma dangling_frame: "dangling {} st' \<subseteq> dangling {} st \<Longrightarrow> dangling X st' \<subseteq> dangling X st"
  by (auto simp: dangling_def)

lemma inner_mono: "node_count (bcfg b) \<le> node_count (bcfg b') \<Longrightarrow> inner b \<subseteq> inner b'"
  by (auto simp: inner_def)

lemma lowered_move:
  assumes L: "lowered X0 X ps st0 (b, loops)" and g: "bcfg b' = bcfg b"
    and keep: "pending (b, loops) \<union> X \<subseteq> pending (b', loops') \<union> Y"
    and ok: "pending (b', loops') \<union> Y \<subseteq> inner b"
  shows "lowered X0 Y ps st0 (b', loops')"
proof -
  have i: "inner b' = inner b" by (simp add: inner_def g)
  have "dangling Y (b', loops') \<subseteq> dangling X (b, loops)"
    using keep by (auto simp: dangling_def g i)
  then show ?thesis using L ok by (auto simp: lowered_def st_ok_def g i)
qed

lemma lowered_grown:
  assumes L: "lowered X0 X ps st0 (b, loops)" and g: "grown (bcfg b) (bcfg b') E []"
    and fr: "frontier b' = frontier b" and E: "1 \<notin> Domain E" and Y: "X \<subseteq> Y \<union> Domain E" "Y \<subseteq> X"
  shows "lowered X0 Y ps st0 (b', loops)"
proof -
  note D = grownD [OF g]
  have i: "inner b' = inner b" using D(6) by (simp add: inner_def)
  have p: "pending (b', loops) = pending (b, loops)" by (simp add: pending_def fr)
  have "dangling Y (b', loops) \<subseteq> dangling X (b, loops)"
    using Y(1) by (auto simp: dangling_def D(2) i p)
  then show ?thesis using L E Y(2) by (auto simp: lowered_def st_ok_def D i p)
qed

lemma lowered_push:
  assumes L: "lowered X0 X ps st0 (b, loops)"
    and room: "node_count (bcfg (fst st0)) + length (ps @ [p]) < u32_max"
  obtains b' where "push_block b p = Some (node_count (bcfg b), b')"
    and "frontier b' = [node_count (bcfg b)]" and "node_count (bcfg b') = Suc (node_count (bcfg b))"
    and "node_count (bcfg b) \<in> inner b'" and "lowered X0 X (ps @ [p]) st0 (b', loops)"
proof -
  let ?n = "node_count (bcfg b)"
  note D = loweredD [OF L]
  have "?n < u32_max" using D(7) room by simp
  from push_block_grown [OF D(8) this, of p] obtain b' where b': "push_block b p = Some (?n, b')"
    "grown (bcfg b) (bcfg b') (set (frontier b) \<times> {?n}) [p]" "frontier b' = [?n]" by blast
  note G = grownD [OF b'(2)]
  have n: "node_count (bcfg b') = Suc ?n" using G(6) by simp
  have i: "inner b' = insert ?n (inner b)" using n D(3) by (auto simp: inner_def)
  have p: "pending (b', loops) \<subseteq> insert ?n (pending (b, loops))"
    "pending (b, loops) \<subseteq> set (frontier b) \<union> pending (b', loops)" "?n \<in> pending (b', loops)"
    by (auto simp: pending_def b'(3))
  have "1 \<notin> set (frontier b)" using D(5) by (auto simp: pending_def inner_def)
  then have "st_ok (b', loops)"
    using D p(1) unfolding st_ok_def by (auto simp: G i)
  moreover have "dangling X (b', loops) \<subseteq> dangling X (b, loops)"
    using p by (auto simp: dangling_def G i)
  moreover obtain qs where "payloads (bcfg b) = payloads (bcfg (fst st0)) @ qs" "subseq qs ps"
    using L by (auto simp: lowered_def)
  then have "\<exists>qs. payloads (bcfg b') = payloads (bcfg (fst st0)) @ qs \<and> subseq qs (ps @ [p])"
    by (auto simp: G intro: list_emb_append_mono)
  ultimately have "lowered X0 X (ps @ [p]) st0 (b', loops)"
    using L by (auto simp: lowered_def G i)
  then show ?thesis using that b' n i by blast
qed

lemma lowered_wire:
  assumes L: "lowered X0 X ps st0 (b, loops)" and s: "set srcs \<subseteq> inner b"
    and t: "t < node_count (bcfg b)"
  obtains b' where "wire b srcs t = Some b'" and "frontier b' = frontier b"
    and "node_count (bcfg b') = node_count (bcfg b)"
    and "lowered X0 (X - set srcs) ps st0 (b', loops)"
proof -
  have sub: "set srcs \<subseteq> {..<node_count (bcfg b)}" using s by (auto simp: inner_def)
  obtain g where g: "add_edges_to (bcfg b) srcs t = Some g" "grown (bcfg b) g (set srcs \<times> {t}) []"
    using add_edges_to_grown [OF loweredD(1) [OF L] sub t] by blast
  have "lowered X0 (X - set srcs) ps st0 (b\<lparr>bcfg := g\<rparr>, loops)"
    by (rule lowered_grown [OF L, of _ "set srcs \<times> {t}"]) (use g(2) s in \<open>auto simp: inner_def\<close>)
  then show ?thesis
    using that [of "b\<lparr>bcfg := g\<rparr>"] g(1) grownD(6) [OF g(2)] by (simp add: wire_def)
qed

lemma wire_loop_sources_grown:
  assumes "wf_cfg (bcfg b)" and "set srcs \<subseteq> {..<node_count (bcfg b)}"
    and "\<And>t. target = Some t \<Longrightarrow> t < node_count (bcfg b)"
  shows "\<exists>b'. wire_loop_sources b srcs target = Some b' \<and> frontier b' = frontier b \<and>
    grown (bcfg b) (bcfg b') ((\<lambda>s. (s, case target of None \<Rightarrow> s | Some t \<Rightarrow> t)) ` set srcs) []"
  using assms
proof (induction srcs arbitrary: b)
  case Nil
  then show ?case by (simp add: grown_refl)
next
  case (Cons s srcs)
  let ?t = "case target of None \<Rightarrow> s | Some t \<Rightarrow> t"
  obtain new g where g: "add_edge (bcfg b) s ?t = Some (new, g)" "grown (bcfg b) g {(s, ?t)} []"
    by (rule add_edge_grown [OF Cons.prems(1), of s ?t]) (use Cons.prems(2,3) in \<open>auto split: option.splits\<close>)
  note G = grownD [OF g(2)]
  obtain b' where b': "wire_loop_sources (b\<lparr>bcfg := g\<rparr>) srcs target = Some b'" "frontier b' = frontier b"
    "grown g (bcfg b') ((\<lambda>s. (s, case target of None \<Rightarrow> s | Some t \<Rightarrow> t)) ` set srcs) []"
    using Cons.IH [of "b\<lparr>bcfg := g\<rparr>"] Cons.prems G by auto
  then show ?case using g(1) grown_trans [OF g(2) b'(3)] by (simp add: builder_add_edge_def)
qed

lemma lowered_wire_loop:
  assumes L: "lowered X0 X ps st0 (b, loops)" and s: "set srcs \<subseteq> inner b"
    and t: "\<And>t. target = Some t \<Longrightarrow> t < node_count (bcfg b)"
  obtains b' where "wire_loop_sources b srcs target = Some b'" and "frontier b' = frontier b"
    and "node_count (bcfg b') = node_count (bcfg b)"
    and "lowered X0 (X - set srcs) ps st0 (b', loops)"
proof -
  have sub: "set srcs \<subseteq> {..<node_count (bcfg b)}" using s by (auto simp: inner_def)
  obtain b' where b': "wire_loop_sources b srcs target = Some b'" "frontier b' = frontier b"
    "grown (bcfg b) (bcfg b') ((\<lambda>s. (s, case target of None \<Rightarrow> s | Some t \<Rightarrow> t)) ` set srcs) []"
    using wire_loop_sources_grown [OF loweredD(1) [OF L] sub t] by blast
  have "Domain ((\<lambda>s. (s, case target of None \<Rightarrow> s | Some t \<Rightarrow> t)) ` set srcs) = set srcs"
    by force
  then have "lowered X0 (X - set srcs) ps st0 (b', loops)"
    by (intro lowered_grown [OF L b'(3,2)]) (use s in \<open>auto simp: inner_def\<close>)
  then show ?thesis using that b' grownD(6) [OF b'(3)] by simp
qed

subsection \<open>Every construct is lowered\<close>

text \<open>The payloads of a description in the order of the text; each becomes at most one block.\<close>

fun spec_payloads :: "'a spec \<Rightarrow> 'a list" where
  "spec_payloads (Stmt p) = [p]"
| "spec_payloads (Seq items) = concat (map spec_payloads items)"
| "spec_payloads (IfS c t e) =
     [c] @ spec_payloads t @ (case e of None \<Rightarrow> [] | Some e \<Rightarrow> spec_payloads e)"
| "spec_payloads (For init c body step) =
     (case init of None \<Rightarrow> [] | Some i \<Rightarrow> spec_payloads i) @
     (case c of None \<Rightarrow> [] | Some c \<Rightarrow> [c]) @ spec_payloads body @
     (case step of None \<Rightarrow> [] | Some s \<Rightarrow> spec_payloads s)"
| "spec_payloads (DoWhile body c) = spec_payloads body @ [c]"
| "spec_payloads (Try body catch finally) = spec_payloads body @
     (case catch of None \<Rightarrow> [] | Some h \<Rightarrow> spec_payloads h) @
     (case finally of None \<Rightarrow> [] | Some c \<Rightarrow> spec_payloads c)"
| "spec_payloads _ = []"

text \<open>\<open>lowers s\<close>: from any state with room for its payloads, \<open>s\<close> is lowered and keeps the invariant.\<close>

definition lowers :: "'a spec \<Rightarrow> bool" where
  "lowers s \<longleftrightarrow> (\<forall>b loops. st_ok (b, loops) \<longrightarrow>
     node_count (bcfg b) + length (spec_payloads s) < u32_max \<longrightarrow>
     (\<exists>b' loops'. lower s (b, loops) = Some (b', loops') \<and> length loops' = length loops \<and>
        node_count (bcfg b) \<le> node_count (bcfg b') \<and>
        lowered {} {} (spec_payloads s) (b, loops) (b', loops')))"

definition room :: "'a emit_state \<Rightarrow> 'a list \<Rightarrow> bool" where
  "room st ps \<longleftrightarrow> node_count (bcfg (fst st)) + length ps < u32_max"

lemma lowersE:
  assumes s: "lowers s" and L: "lowered X0 X ps st0 (b, loops)" and r: "room st0 (ps @ spec_payloads s)"
  obtains b' loops' where "lower s (b, loops) = Some (b', loops')" and "length loops' = length loops"
    and "node_count (bcfg b) \<le> node_count (bcfg b')" and "inner b \<subseteq> inner b'"
    and "lowered X0 X (ps @ spec_payloads s) st0 (b', loops')"
proof -
  have "st_ok (b, loops)" using L by (simp add: lowered_def)
  moreover have "node_count (bcfg b) + length (spec_payloads s) < u32_max"
    using loweredD(7) [OF L] r by (simp add: room_def)
  ultimately obtain b' loops' where l: "lower s (b, loops) = Some (b', loops')"
    "length loops' = length loops" "node_count (bcfg b) \<le> node_count (bcfg b')"
    "lowered {} {} (spec_payloads s) (b, loops) (b', loops')"
    using s unfolding lowers_def by blast
  have i: "inner b \<subseteq> inner b'" by (rule inner_mono [OF l(3)])
  have "lowered X X (spec_payloads s) (b, loops) (b', loops')"
    using l(4) loweredD(6) [OF L] i dangling_frame [of "(b', loops')" "(b, loops)" X]
    unfolding lowered_def by auto
  from that [OF l(1-3) i lowered_trans [OF L this]] show ?thesis .
qed

lemma lowersI:
  fixes s :: "'a spec"
  assumes "\<And>b loops. st_ok (b, loops) \<Longrightarrow> room (b, loops) (spec_payloads s) \<Longrightarrow>
    lowered {} {} [] (b, loops) (b, loops) \<Longrightarrow>
    \<exists>b' loops'. lower s (b, loops) = Some (b', loops') \<and> length loops' = length loops \<and>
      lowered {} {} (spec_payloads s) (b, loops) (b', loops')"
  shows "lowers s"
  unfolding lowers_def
proof (intro allI impI)
  fix b :: "'a builder" and loops
  assume st: "st_ok (b, loops)" and "node_count (bcfg b) + length (spec_payloads s) < u32_max"
  then have "room (b, loops) (spec_payloads s)" by (simp add: room_def)
  from assms [OF st this lowered_refl [OF st]] obtain b' loops' where
    l: "lower s (b, loops) = Some (b', loops')" "length loops' = length loops"
    "lowered {} {} (spec_payloads s) (b, loops) (b', loops')" by blast
  moreover have "node_count (bcfg b) \<le> node_count (bcfg b')"
    using l(3) by (auto simp: lowered_def node_count_def)
  ultimately show "\<exists>b' loops'. lower s (b, loops) = Some (b', loops') \<and> length loops' = length loops \<and>
      node_count (bcfg b) \<le> node_count (bcfg b') \<and>
      lowered {} {} (spec_payloads s) (b, loops) (b', loops')" by blast
qed

lemma room_prefix: "room st (ps @ qs) \<Longrightarrow> room st ps"
  by (simp add: room_def)

lemma lowered_next:
  assumes L: "lowered X0 X ps st0 (b, loops)" and "room st0 ps"
  shows "builder_next_block_id b = Some (node_count (bcfg b))"
  using loweredD(7) [OF L] assms(2)
  by (simp add: room_def builder_next_block_id_def next_block_id_def node_count_def panic_simps)

lemma lowers_stmt: "lowers (Stmt (p :: 'a))"
proof (rule lowersI)
  fix b :: "'a builder" and loops
  assume r: "room (b, loops) (spec_payloads (Stmt p))" and L: "lowered {} {} [] (b, loops) (b, loops)"
  show "\<exists>b' loops'. lower (Stmt p) (b, loops) = Some (b', loops') \<and> length loops' = length loops \<and>
      lowered {} {} (spec_payloads (Stmt p)) (b, loops) (b', loops')"
    by (rule lowered_push [OF L, of p]) (use r in \<open>auto simp: room_def\<close>)
qed

lemma lowers_items:
  "(\<And>s. s \<in> set items \<Longrightarrow> lowers s) \<Longrightarrow> lowered {} {} ps st0 (b, loops) \<Longrightarrow>
   room st0 (ps @ concat (map spec_payloads items)) \<Longrightarrow>
   \<exists>b' loops'. lower_items items (b, loops) = Some (b', loops') \<and> length loops' = length loops \<and>
     lowered {} {} (ps @ concat (map spec_payloads items)) st0 (b', loops')"
proof (induction items arbitrary: ps b loops)
  case (Cons s items)
  have r: "room st0 (ps @ spec_payloads s)"
    using Cons.prems(3) by (simp add: room_def)
  obtain b' loops' where l: "(if frontier b \<noteq> [] then lower s (b, loops) else Some (b, loops)) =
      Some (b', loops')" "length loops' = length loops"
    "lowered {} {} (ps @ spec_payloads s) st0 (b', loops')"
  proof (cases "frontier b = []")
    case True
    have "lowered {} {} (ps @ spec_payloads s) st0 (b, loops)"
      using Cons.prems(2) unfolding lowered_def by (auto intro: list_emb_append2)
    then show ?thesis using that True by simp
  next
    case False
    show ?thesis
      by (rule lowersE [OF Cons.prems(1) Cons.prems(2) r]) (use that False in auto)
  qed
  then show ?case
    using Cons.IH [of "ps @ spec_payloads s" b' loops'] Cons.prems(1,3) by simp
qed simp

lemma lowers_if:
  assumes t: "lowers t" and e: "\<And>x. e = Some x \<Longrightarrow> lowers x"
  shows "lowers (IfS (c :: 'a) t e)"
proof (rule lowersI)
  fix b :: "'a builder" and loops
  assume r: "room (b, loops) (spec_payloads (IfS c t e))"
    and L0: "lowered {} {} [] (b, loops) (b, loops)"
  let ?n = "node_count (bcfg b)"
  have r1: "room (b, loops) ([] @ [c])" using r by (simp add: room_def)
  obtain b1 where b1: "push_block b c = Some (?n, b1)" "frontier b1 = [?n]" "?n \<in> inner b1"
    "lowered {} {} ([] @ [c]) (b, loops) (b1, loops)"
    using lowered_push [OF L0, of c] r1 unfolding room_def by metis
  have "set_valid_frontier b1 [?n] = b1" using b1(2) by (simp add: set_valid_frontier_def)
  note p1 = b1(1) this
  have r2: "room (b, loops) (([] @ [c]) @ spec_payloads t)" using r by (simp add: room_def)
  obtain b2 loops2 where l2: "lower t (b1, loops) = Some (b2, loops2)" "length loops2 = length loops"
    "inner b1 \<subseteq> inner b2" "lowered {} {} (([] @ [c]) @ spec_payloads t) (b, loops) (b2, loops2)"
    using lowersE [OF t b1(4) r2] by metis
  have n2: "?n \<in> inner b2" using b1(3) l2(3) by blast
  note D2 = loweredD(5) [OF l2(4)]
  show "\<exists>b' loops'. lower (IfS c t e) (b, loops) = Some (b', loops') \<and> length loops' = length loops \<and>
      lowered {} {} (spec_payloads (IfS c t e)) (b, loops) (b', loops')"
  proof (cases e)
    case None
    have "lowered {} {} (([] @ [c]) @ spec_payloads t) (b, loops)
        (set_valid_frontier b2 (frontier b2 @ [?n]), loops2)"
      by (rule lowered_move [OF l2(4)])
        (use D2 n2 in \<open>auto simp: set_valid_frontier_def pending_def inner_def\<close>)
    then show ?thesis using p1 l2(1,2) None by simp
  next
    case (Some x)
    have m: "lowered {} (set (frontier b2)) (([] @ [c]) @ spec_payloads t) (b, loops)
        (set_valid_frontier b2 [?n], loops2)"
      by (rule lowered_move [OF l2(4)])
        (use D2 n2 in \<open>auto simp: set_valid_frontier_def pending_def inner_def\<close>)
    have r3: "room (b, loops) ((([] @ [c]) @ spec_payloads t) @ spec_payloads x)"
      using r Some by (simp add: room_def)
    obtain b3 loops3 where l3: "lower x (set_valid_frontier b2 [?n], loops2) = Some (b3, loops3)"
      "length loops3 = length loops2"
      "lowered {} (set (frontier b2)) ((([] @ [c]) @ spec_payloads t) @ spec_payloads x) (b, loops)
        (b3, loops3)"
      using lowersE [OF e [OF Some] m r3] by metis
    have "lowered {} {} ((([] @ [c]) @ spec_payloads t) @ spec_payloads x) (b, loops)
        (set_valid_frontier b3 (frontier b2 @ frontier b3), loops3)"
      by (rule lowered_move [OF l3(3)])
        (use loweredD(5,6) [OF l3(3)] in \<open>auto simp: set_valid_frontier_def pending_def\<close>)
    then show ?thesis using p1 l2(1,2) l3(1,2) Some by simp
  qed
qed

subsection \<open>Loops\<close>

lemma lowered_take_frontier:
  assumes L: "lowered X0 X ps st0 (b, loops)"
  shows "lowered X0 (X \<union> set (frontier b)) ps st0 (b\<lparr>frontier := []\<rparr>, loops)"
    and "set (frontier b) \<subseteq> inner b"
proof -
  show "set (frontier b) \<subseteq> inner b" using loweredD(5) [OF L] by (auto simp: pending_def)
  show "lowered X0 (X \<union> set (frontier b)) ps st0 (b\<lparr>frontier := []\<rparr>, loops)"
    by (rule lowered_move [OF L]) (use loweredD(5,6) [OF L] in \<open>auto simp: pending_def\<close>)
qed

lemma lowered_take_continue:
  assumes L: "lowered X0 X ps st0 (b, c # cs)"
  shows "take_continue_sources (c # cs) = Some (continue_sources c, c\<lparr>continue_sources := []\<rparr> # cs)"
    and "lowered X0 (X \<union> set (continue_sources c)) ps st0 (b, c\<lparr>continue_sources := []\<rparr> # cs)"
    and "set (continue_sources c) \<subseteq> inner b"
proof -
  show "set (continue_sources c) \<subseteq> inner b" using loweredD(5) [OF L] by (auto simp: pending_def)
  show "lowered X0 (X \<union> set (continue_sources c)) ps st0 (b, c\<lparr>continue_sources := []\<rparr> # cs)"
    by (rule lowered_move [OF L]) (use loweredD(5,6) [OF L] in \<open>auto simp: pending_def\<close>)
qed (simp add: take_continue_sources_def)

lemma lowered_new_context:
  assumes L: "lowered X0 X ps st0 (b, loops)"
  shows "lowered X0 X ps st0 (b, loop_context_new # loops)"
  by (rule lowered_move [OF L])
    (use loweredD(5,6) [OF L] in \<open>auto simp: pending_def loop_context_new_def\<close>)

text \<open>Leaving a loop whose \<open>continue\<close> sources have been wired.\<close>

lemma lowered_leave:
  assumes L: "lowered X0 X ps st0 (b, c # cs)" and "frontier b = []" and "continue_sources c = []"
    and "set extra \<subseteq> inner b"
  shows "lowered X0 X ps st0 (set_valid_frontier b (break_sources c @ extra), cs)"
  by (rule lowered_move [OF L])
    (use loweredD(5,6) [OF L] assms(2-4) in \<open>auto simp: pending_def set_valid_frontier_def\<close>)

lemma finish_tested_step_ok:
  assumes L: "lowered X0 (set conts) ps st0 (b, c # cs)" and r: "room st0 ps"
    and h: "header \<in> inner b" and hint: "step_hint \<le> node_count (bcfg b)"
  obtains b' where "finish_tested_step header step_hint conts b (c # cs) = Some (b', cs)"
    and "lowered X0 {} ps st0 (b', cs)"
proof -
  let ?n = "node_count (bcfg b)" let ?fr = "frontier b"
  let ?e = "if ?n \<noteq> step_hint then Some step_hint else None"
  let ?t = "case ?e of None \<Rightarrow> header | Some e \<Rightarrow> e"
  have hn: "header < ?n" using h by (simp add: inner_def)
  have tn: "?t < ?n" using hn hint by simp
  note F = lowered_take_frontier [OF L]
  obtain b1 where b1: "wire (b\<lparr>frontier := []\<rparr>) ?fr header = Some b1" "frontier b1 = []"
    "node_count (bcfg b1) = ?n" "lowered X0 (set conts \<union> set ?fr - set ?fr) ps st0 (b1, c # cs)"
    using lowered_wire [OF F(1), of ?fr header] F(2) hn by (auto simp: inner_def)
  have i1: "inner b1 = inner b" using b1(3) by (simp add: inner_def)
  obtain b2 where b2: "wire b1 conts ?t = Some b2" "frontier b2 = []" "node_count (bcfg b2) = ?n"
    "lowered X0 (set conts \<union> set ?fr - set ?fr - set conts) ps st0 (b2, c # cs)"
    using lowered_wire [OF b1(4), of conts ?t] loweredD(6) [OF L] i1 b1(2,3) tn by auto
  note C = lowered_take_continue [OF b2(4)]
  obtain b3 where b3: "wire b2 (continue_sources c) header = Some b3" "frontier b3 = []"
    "node_count (bcfg b3) = ?n"
    "lowered X0 (set conts \<union> set ?fr - set ?fr - set conts \<union> set (continue_sources c) -
       set (continue_sources c)) ps st0 (b3, c\<lparr>continue_sources := []\<rparr> # cs)"
    using lowered_wire [OF C(2,3), of header] b2(2,3) hn by auto
  have "set conts \<union> set ?fr - set ?fr - set conts \<union> set (continue_sources c) -
      set (continue_sources c) = {}" by auto
  note L3 = b3(4) [unfolded this]
  have "lowered X0 {} ps st0 (set_valid_frontier b3 (break_sources c @ [header]), cs)"
    using lowered_leave [OF L3, of "[header]"] b3(2,3) h by (simp add: inner_def)
  moreover have "finish_tested_step header step_hint conts b (c # cs) =
      Some (set_valid_frontier b3 (break_sources c @ [header]), cs)"
    using lowered_next [OF L r] b1(1) b2(1) b3(1) C(1)
    by (simp add: finish_tested_step_def take_frontier_def finish_tested_loop_def)
  ultimately show ?thesis using that by blast
qed

lemma finish_tested_body_ok:
  assumes L: "lowered X0 {} ps st0 (b, c # cs)" and h: "header \<in> inner b"
  obtains b' where "forget (finish_tested_body header None b (c # cs) []) = Some (b', cs)"
    and "lowered X0 {} ps st0 (b', cs)"
proof -
  let ?fr = "frontier b" let ?cs = "continue_sources c"
  have hn: "header < node_count (bcfg b)" using h by (simp add: inner_def)
  note F = lowered_take_frontier [OF L]
  note C = lowered_take_continue [OF F(1)]
  have s: "set (?fr @ ?cs) \<subseteq> inner (b\<lparr>frontier := []\<rparr>)" using F(2) C(3) by (simp add: inner_def)
  obtain b1 where b1: "wire (b\<lparr>frontier := []\<rparr>) (?fr @ ?cs) header = Some b1" "frontier b1 = []"
    "node_count (bcfg b1) = node_count (bcfg b)"
    "lowered X0 ({} \<union> set ?fr \<union> set ?cs - set (?fr @ ?cs)) ps st0 (b1, c\<lparr>continue_sources := []\<rparr> # cs)"
    using lowered_wire [OF C(2) s, of header] hn by auto
  have "{} \<union> set ?fr \<union> set ?cs - set (?fr @ ?cs) = {}" by auto
  note L1 = b1(4) [unfolded this]
  have "lowered X0 {} ps st0 (set_valid_frontier b1 (break_sources c @ [header]), cs)"
    using lowered_leave [OF L1, of "[header]"] b1(2,3) h by (simp add: inner_def)
  moreover have "forget (finish_tested_body header None b (c # cs) []) =
      Some (set_valid_frontier b1 (break_sources c @ [header]), cs)"
    using b1(1) C(1)
    by (simp add: forget_def finish_tested_body_def take_frontier_def finish_tested_loop_def)
  ultimately show ?thesis using that by blast
qed

lemma finish_endless_step_ok:
  assumes L: "lowered X0 (set conts) ps st0 (b, c # cs)" and r: "room st0 ps"
    and e: "\<And>x. body_entry = Some x \<Longrightarrow> x < node_count (bcfg b)"
    and hint: "step_hint \<le> node_count (bcfg b)"
  obtains b' where "finish_endless_step body_entry step_hint conts b (c # cs) = Some (b', cs)"
    and "lowered X0 {} ps st0 (b', cs)"
proof -
  let ?n = "node_count (bcfg b)" let ?fr = "frontier b"
  let ?e = "if ?n \<noteq> step_hint then Some step_hint else None"
  let ?t = "option_or body_entry ?e" and ?u = "option_or ?e body_entry"
  have tn: "x < ?n" if "?t = Some x" for x
    using that e hint by (auto simp: option_or_def split: option.splits if_splits)
  have un: "x < ?n" if "?u = Some x" for x
    using that e hint by (auto simp: option_or_def split: option.splits if_splits)
  note F = lowered_take_frontier [OF L]
  obtain b1 where b1: "wire_loop_sources (b\<lparr>frontier := []\<rparr>) ?fr ?t = Some b1" "frontier b1 = []"
    "node_count (bcfg b1) = ?n" "lowered X0 (set conts \<union> set ?fr - set ?fr) ps st0 (b1, c # cs)"
    using lowered_wire_loop [OF F(1), of ?fr ?t] F(2) tn by (auto simp: inner_def)
  have i1: "inner b1 = inner b" using b1(3) by (simp add: inner_def)
  obtain b2 where b2: "wire_loop_sources b1 conts ?u = Some b2" "frontier b2 = []"
    "node_count (bcfg b2) = ?n"
    "lowered X0 (set conts \<union> set ?fr - set ?fr - set conts) ps st0 (b2, c # cs)"
    using lowered_wire_loop [OF b1(4), of conts ?u] loweredD(6) [OF L] i1 b1(2,3) un by auto
  note C = lowered_take_continue [OF b2(4)]
  obtain b3 where b3: "wire_loop_sources b2 (continue_sources c) ?t = Some b3" "frontier b3 = []"
    "node_count (bcfg b3) = ?n"
    "lowered X0 (set conts \<union> set ?fr - set ?fr - set conts \<union> set (continue_sources c) -
       set (continue_sources c)) ps st0 (b3, c\<lparr>continue_sources := []\<rparr> # cs)"
    using lowered_wire_loop [OF C(2,3), of ?t] b2(2,3) tn by auto
  have "set conts \<union> set ?fr - set ?fr - set conts \<union> set (continue_sources c) -
      set (continue_sources c) = {}" by auto
  note L3 = b3(4) [unfolded this]
  have "lowered X0 {} ps st0 (set_valid_frontier b3 (break_sources c), cs)"
    using lowered_leave [OF L3, of "[]"] b3(2) by simp
  moreover have "finish_endless_step body_entry step_hint conts b (c # cs) =
      Some (set_valid_frontier b3 (break_sources c), cs)"
    using lowered_next [OF L r] b1(1) b2(1) b3(1) C(1)
    by (simp add: finish_endless_step_def take_frontier_def finish_endless_loop_def)
  ultimately show ?thesis using that by blast
qed

lemma finish_endless_body_ok:
  assumes L: "lowered X0 {} ps st0 (b, c # cs)" and r: "room st0 ps"
    and hint: "body_hint \<le> node_count (bcfg b)"
  obtains b' where "forget (finish_endless_body body_hint None b (c # cs) []) = Some (b', cs)"
    and "lowered X0 {} ps st0 (b', cs)"
proof -
  let ?n = "node_count (bcfg b)" let ?fr = "frontier b" let ?cs = "continue_sources c"
  let ?e = "if ?n \<noteq> body_hint then Some body_hint else None"
  have en: "x < ?n" if "?e = Some x" for x using that hint by (auto split: if_splits)
  note F = lowered_take_frontier [OF L]
  note C = lowered_take_continue [OF F(1)]
  have s: "set ?fr \<subseteq> inner (b\<lparr>frontier := []\<rparr>)" using F(2) by (simp add: inner_def)
  obtain b1 where b1: "wire_loop_sources (b\<lparr>frontier := []\<rparr>) ?fr ?e = Some b1" "frontier b1 = []"
    "node_count (bcfg b1) = ?n"
    "lowered X0 ({} \<union> set ?fr \<union> set ?cs - set ?fr) ps st0 (b1, c\<lparr>continue_sources := []\<rparr> # cs)"
    using lowered_wire_loop [OF C(2) s, of ?e] en by auto
  have s1: "set ?cs \<subseteq> inner b1" using C(3) b1(3) by (simp add: inner_def)
  obtain b2 where b2: "wire_loop_sources b1 ?cs ?e = Some b2" "frontier b2 = []"
    "lowered X0 ({} \<union> set ?fr \<union> set ?cs - set ?fr - set ?cs) ps st0
      (b2, c\<lparr>continue_sources := []\<rparr> # cs)"
    using lowered_wire_loop [OF b1(4) s1, of ?e] b1(2,3) en by auto
  have "{} \<union> set ?fr \<union> set ?cs - set ?fr - set ?cs = {}" by auto
  note L2 = b2(3) [unfolded this]
  have "lowered X0 {} ps st0 (set_valid_frontier b2 (break_sources c), cs)"
    using lowered_leave [OF L2, of "[]"] b2(2) by simp
  moreover have "forget (finish_endless_body body_hint None b (c # cs) []) =
      Some (set_valid_frontier b2 (break_sources c), cs)"
    using lowered_next [OF L r] b1(1) b2(1) C(1)
    by (simp add: forget_def finish_endless_body_def take_frontier_def finish_endless_loop_def)
  ultimately show ?thesis using that by blast
qed

lemma finish_do_while_ok:
  assumes L: "lowered X0 {} ps st0 (b, c # cs)" and r: "room st0 (ps @ [p])"
    and hint: "body_hint \<le> node_count (bcfg b)"
  obtains b' where "finish_do_while body_hint p b (c # cs) = Some (b', cs)"
    and "lowered X0 {} (ps @ [p]) st0 (b', cs)"
proof -
  let ?n = "node_count (bcfg b)" let ?cs = "continue_sources c"
  let ?t = "if ?n \<noteq> body_hint then body_hint else ?n"
  obtain b1 where b1: "push_block b p = Some (?n, b1)" "frontier b1 = [?n]"
    "node_count (bcfg b1) = Suc ?n" "?n \<in> inner b1" "lowered X0 {} (ps @ [p]) st0 (b1, c # cs)"
    using lowered_push [OF L, of p] r unfolding room_def by metis
  note C = lowered_take_continue [OF b1(5)]
  obtain b2 where b2: "wire b1 ?cs ?n = Some b2" "frontier b2 = [?n]" "node_count (bcfg b2) = Suc ?n"
    "lowered X0 ({} \<union> set ?cs - set ?cs) (ps @ [p]) st0 (b2, c\<lparr>continue_sources := []\<rparr> # cs)"
    using lowered_wire [OF C(2,3), of ?n] b1(2,3) by auto
  have n2: "?n \<in> inner b2" using b1(3,4) b2(3) by (simp add: inner_def)
  have "{} \<union> set ?cs - set ?cs = {}" by auto
  note L2 = b2(4) [unfolded this]
  obtain b3 where b3: "wire b2 [?n] ?t = Some b3" "frontier b3 = [?n]" "node_count (bcfg b3) = Suc ?n"
    "lowered X0 ({} - set [?n]) (ps @ [p]) st0 (b3, c\<lparr>continue_sources := []\<rparr> # cs)"
  proof -
    have s: "set [?n] \<subseteq> inner b2" using n2 by simp
    have t: "?t < node_count (bcfg b2)" using b2(3) hint by simp
    show thesis by (rule lowered_wire [OF L2 s t]) (use that b2(2,3) in simp)
  qed
  obtain new where e: "builder_add_edge b2 ?n ?t = Some (new, b3)"
    using b3(1) by (auto simp: wire_def builder_add_edge_def bind_eq_Some_conv)
  note L3 = b3(4) [unfolded empty_Diff]
  have "lowered X0 {} (ps @ [p]) st0 (set_valid_frontier b3 (break_sources c @ [?n]), cs)"
    by (rule lowered_move [OF L3])
      (use loweredD(5) [OF L3] n2 b2(3) b3(2,3) in
        \<open>auto simp: pending_def set_valid_frontier_def inner_def\<close>)
  moreover have "room st0 ps" using r by (simp add: room_def)
  then have "finish_do_while body_hint p b (c # cs) =
      Some (set_valid_frontier b3 (break_sources c @ [?n]), cs)"
    using lowered_next [OF L] b1(1) b2(1) e by (simp add: finish_do_while_def)
  ultimately show ?thesis using that by blast
qed

lemma lowers_do_while:
  assumes body: "lowers body"
  shows "lowers (DoWhile body (c :: 'a))"
proof (rule lowersI)
  fix b :: "'a builder" and loops
  assume r: "room (b, loops) (spec_payloads (DoWhile body c))"
    and L0: "lowered {} {} [] (b, loops) (b, loops)"
  have r0: "room (b, loops) ([] @ spec_payloads body)" and r1: "room (b, loops) []"
    and r2: "room (b, loops) (([] @ spec_payloads body) @ [c])" using r by (simp_all add: room_def)
  obtain b1 l1 where l: "lower body (b, loop_context_new # loops) = Some (b1, l1)"
    "length l1 = Suc (length loops)" "node_count (bcfg b) \<le> node_count (bcfg b1)"
    "lowered {} {} ([] @ spec_payloads body) (b, loops) (b1, l1)"
    using lowersE [OF body lowered_new_context [OF L0] r0] by (metis length_Cons)
  then obtain k ks where k: "l1 = k # ks" by (cases l1) auto
  obtain b' where "finish_do_while (node_count (bcfg b)) c b1 (k # ks) = Some (b', ks)"
    "lowered {} {} (([] @ spec_payloads body) @ [c]) (b, loops) (b', ks)"
    using finish_do_while_ok [OF l(4) [unfolded k] r2 l(3)] by metis
  then show "\<exists>b' loops'. lower (DoWhile body c) (b, loops) = Some (b', loops') \<and>
      length loops' = length loops \<and>
      lowered {} {} (spec_payloads (DoWhile body c)) (b, loops) (b', loops')"
    using lowered_next [OF L0 r1] l(1,2) k by simp
qed

lemma lowers_tested:
  assumes body: "lowers body" and step: "\<And>s. step = Some s \<Longrightarrow> lowers s"
  shows "lowers (For None (Some (c :: 'a)) body step)"
proof (rule lowersI)
  fix b :: "'a builder" and loops
  assume r: "room (b, loops) (spec_payloads (For None (Some c) body step))"
    and L0: "lowered {} {} [] (b, loops) (b, loops)"
  let ?n = "node_count (bcfg b)"
  have r1: "room (b, loops) ([] @ [c])" and r2: "room (b, loops) (([] @ [c]) @ spec_payloads body)"
    using r by (simp_all add: room_def)
  obtain b1 where b1: "push_block b c = Some (?n, b1)" "frontier b1 = [?n]" "?n \<in> inner b1"
    "lowered {} {} ([] @ [c]) (b, loops) (b1, loops)"
    using lowered_push [OF L0, of c] r1 unfolding room_def by metis
  have sv: "set_valid_frontier b1 [?n] = b1" using b1(2) by (simp add: set_valid_frontier_def)
  obtain b2 l2 where l: "lower body (b1, loop_context_new # loops) = Some (b2, l2)"
    "length l2 = Suc (length loops)" "inner b1 \<subseteq> inner b2"
    "lowered {} {} (([] @ [c]) @ spec_payloads body) (b, loops) (b2, l2)"
    using lowersE [OF body lowered_new_context [OF b1(4)] r2] by (metis length_Cons)
  obtain k ks where k: "l2 = k # ks" using l(2) by (cases l2) auto
  note L2 = l(4) [unfolded k]
  have h: "?n \<in> inner b2" using b1(3) l(3) by blast
  show "\<exists>b' loops'. lower (For None (Some c) body step) (b, loops) = Some (b', loops') \<and>
      length loops' = length loops \<and>
      lowered {} {} (spec_payloads (For None (Some c) body step)) (b, loops) (b', loops')"
  proof (cases step)
    case None
    obtain b' where "forget (finish_tested_body ?n None b2 (k # ks) []) = Some (b', ks)"
      "lowered {} {} (([] @ [c]) @ spec_payloads body) (b, loops) (b', ks)"
      using finish_tested_body_ok [OF L2 h] by metis
    then show ?thesis using None b1(1) sv l(1,2) k by simp
  next
    case (Some s)
    note C = lowered_take_continue [OF L2]
    have r3: "room (b, loops) ((([] @ [c]) @ spec_payloads body) @ spec_payloads s)"
      using r Some by (simp add: room_def)
    obtain b3 l3 where l3: "lower s (b2, k\<lparr>continue_sources := []\<rparr> # ks) = Some (b3, l3)"
      "length l3 = Suc (length ks)" "node_count (bcfg b2) \<le> node_count (bcfg b3)"
      "inner b2 \<subseteq> inner b3"
      "lowered {} ({} \<union> set (continue_sources k)) ((([] @ [c]) @ spec_payloads body) @ spec_payloads s)
         (b, loops) (b3, l3)"
      using lowersE [OF step [OF Some] C(2) r3] by (metis length_Cons)
    obtain m ms where m: "l3 = m # ms" using l3(2) by (cases l3) auto
    note L3 = l3(5) [unfolded m Un_empty_left]
    have h3: "?n \<in> inner b3" using h l3(4) by blast
    obtain b' where "finish_tested_step ?n (node_count (bcfg b2)) (continue_sources k) b3 (m # ms) =
        Some (b', ms)"
      "lowered {} {} ((([] @ [c]) @ spec_payloads body) @ spec_payloads s) (b, loops) (b', ms)"
      using finish_tested_step_ok [OF L3 r3 h3 l3(3)] by metis
    then show ?thesis
      using Some b1(1) sv l(1,2) k C(1) lowered_next [OF L2 r2] l3(1,2) m by simp
  qed
qed

lemma lowers_endless:
  assumes body: "lowers body" and step: "\<And>s. step = Some s \<Longrightarrow> lowers s"
  shows "lowers (For None None (body :: 'a spec) step)"
proof (rule lowersI)
  fix b :: "'a builder" and loops
  assume r: "room (b, loops) (spec_payloads (For None None body step))"
    and L0: "lowered {} {} [] (b, loops) (b, loops)"
  let ?n = "node_count (bcfg b)"
  have r0: "room (b, loops) []" and r2: "room (b, loops) ([] @ spec_payloads body)"
    using r by (simp_all add: room_def)
  obtain b2 l2 where l: "lower body (b, loop_context_new # loops) = Some (b2, l2)"
    "length l2 = Suc (length loops)" "?n \<le> node_count (bcfg b2)"
    "lowered {} {} ([] @ spec_payloads body) (b, loops) (b2, l2)"
    using lowersE [OF body lowered_new_context [OF L0] r2] by (metis length_Cons)
  obtain k ks where k: "l2 = k # ks" using l(2) by (cases l2) auto
  note L2 = l(4) [unfolded k]
  show "\<exists>b' loops'. lower (For None None body step) (b, loops) = Some (b', loops') \<and>
      length loops' = length loops \<and>
      lowered {} {} (spec_payloads (For None None body step)) (b, loops) (b', loops')"
  proof (cases step)
    case None
    obtain b' where "forget (finish_endless_body ?n None b2 (k # ks) []) = Some (b', ks)"
      "lowered {} {} ([] @ spec_payloads body) (b, loops) (b', ks)"
      using finish_endless_body_ok [OF L2 r2 l(3)] by metis
    then show ?thesis using None lowered_next [OF L0 r0] l(1,2) k by simp
  next
    case (Some s)
    note C = lowered_take_continue [OF L2]
    let ?e = "if node_count (bcfg b2) \<noteq> ?n then Some ?n else None"
    have r3: "room (b, loops) (([] @ spec_payloads body) @ spec_payloads s)"
      using r Some by (simp add: room_def)
    obtain b3 l3 where l3: "lower s (b2, k\<lparr>continue_sources := []\<rparr> # ks) = Some (b3, l3)"
      "length l3 = Suc (length ks)" "node_count (bcfg b2) \<le> node_count (bcfg b3)"
      "lowered {} ({} \<union> set (continue_sources k)) (([] @ spec_payloads body) @ spec_payloads s)
         (b, loops) (b3, l3)"
      using lowersE [OF step [OF Some] C(2) r3] by (metis length_Cons)
    obtain m ms where m: "l3 = m # ms" using l3(2) by (cases l3) auto
    note L3 = l3(4) [unfolded m Un_empty_left]
    have e: "x < node_count (bcfg b3)" if "?e = Some x" for x
      using that l(3) l3(3) by (auto split: if_splits)
    obtain b' where "finish_endless_step ?e (node_count (bcfg b2)) (continue_sources k) b3 (m # ms) =
        Some (b', ms)"
      "lowered {} {} (([] @ spec_payloads body) @ spec_payloads s) (b, loops) (b', ms)"
      by (rule finish_endless_step_ok [OF L3 r3 e l3(3)])
    moreover have "lower (For None None body step) (b, loops) =
        finish_endless_step ?e (node_count (bcfg b2)) (continue_sources k) b3 l3"
      by (simp only: lower.simps Some option.case bind.bind_lunit prod.case k l(1) l3(1) C(1)
          lowered_next [OF L0 r0] lowered_next [OF L2 r2])
    moreover have "length ms = length loops" using l(2) l3(2) k m by simp
    ultimately show ?thesis using Some m by simp
  qed
qed

lemma lowers_for:
  assumes init: "\<And>i. init = Some i \<Longrightarrow> lowers i" and body: "lowers body"
    and step: "\<And>s. step = Some s \<Longrightarrow> lowers s"
  shows "lowers (For init c (body :: 'a spec) step)"
proof -
  have f: "lowers (For None c body step)"
    using lowers_tested [OF body step] lowers_endless [OF body step] by (cases c) auto
  show ?thesis
  proof (cases init)
    case None
    then show ?thesis using f by simp
  next
    case (Some i)
    show ?thesis
    proof (rule lowersI)
      fix b :: "'a builder" and loops
      assume r: "room (b, loops) (spec_payloads (For init c body step))"
        and L0: "lowered {} {} [] (b, loops) (b, loops)"
      have r1: "room (b, loops) ([] @ spec_payloads i)"
        and r2: "room (b, loops) (([] @ spec_payloads i) @ spec_payloads (For None c body step))"
        using r Some by (simp_all add: room_def)
      obtain b1 l1 where l1: "lower i (b, loops) = Some (b1, l1)" "length l1 = length loops"
        "lowered {} {} ([] @ spec_payloads i) (b, loops) (b1, l1)"
        using lowersE [OF init [OF Some] L0 r1] by metis
      obtain b2 l2 where l2: "lower (For None c body step) (b1, l1) = Some (b2, l2)"
        "length l2 = length l1"
        "lowered {} {} (([] @ spec_payloads i) @ spec_payloads (For None c body step)) (b, loops) (b2, l2)"
        using lowersE [OF f l1(3) r2] by metis
      have "lower (For init c body step) (b, loops) = lower (For None c body step) (b1, l1)"
        using Some l1(1) by simp
      then show "\<exists>b' loops'. lower (For init c body step) (b, loops) = Some (b', loops') \<and>
          length loops' = length loops \<and>
          lowered {} {} (spec_payloads (For init c body step)) (b, loops) (b', loops')"
        using l1(2) l2 Some by simp
    qed
  qed
qed

subsection \<open>Jumps and protected regions\<close>

lemma lowers_jump:
  fixes b :: "'a builder"
  assumes L: "lowered {} {} [] (b, loops) (b, loops)"
  shows "\<exists>b' loops'. record_loop_jump b loops is_break = (b', loops') \<and>
    length loops' = length loops \<and> lowered {} {} [] (b, loops) (b', loops')"
proof (cases loops)
  case Nil
  have "b\<lparr>frontier := frontier b\<rparr> = b" by simp
  then show ?thesis
    using L Nil by (simp add: record_loop_jump_def take_frontier_def set_valid_frontier_def)
next
  case (Cons c cs)
  let ?c = "if is_break then c\<lparr>break_sources := break_sources c @ frontier b\<rparr>
    else c\<lparr>continue_sources := continue_sources c @ frontier b\<rparr>"
  have "lowered {} {} [] (b, loops) (b\<lparr>frontier := []\<rparr>, ?c # cs)"
    by (rule lowered_move [OF L]) (use loweredD(5) [OF L] Cons in \<open>auto simp: pending_def\<close>)
  then show ?thesis using Cons by (simp add: record_loop_jump_def take_frontier_def)
qed

lemma lowers_return:
  fixes b :: "'a builder"
  assumes L: "lowered {} {} [] (b, loops) (b, loops)"
  shows "\<exists>b'. record_return b = Some b' \<and> lowered {} {} [] (b, loops) (b', loops)"
proof -
  note F = lowered_take_frontier [OF L]
  have s: "set (frontier b) \<subseteq> inner (b\<lparr>frontier := []\<rparr>)" using F(2) by (simp add: inner_def)
  have t: "1 < node_count (bcfg (b\<lparr>frontier := []\<rparr>))" using loweredD(3) [OF L] by simp
  obtain b' where "wire (b\<lparr>frontier := []\<rparr>) (frontier b) 1 = Some b'"
    "lowered {} ({} \<union> set (frontier b) - set (frontier b)) [] (b, loops) (b', loops)"
    by (rule lowered_wire [OF F(1) s t])
  then show ?thesis
    using loweredD(2) [OF L] by (simp add: record_return_def take_frontier_def builder_exit_def)
qed

lemma block_range_ok:
  assumes "hi \<le> u32_max"
  shows "block_range lo hi = Some [lo..<hi]"
proof -
  have "block_range lo hi = Some (map id [lo..<hi])"
    unfolding block_range_def by (rule traverse_Some) (use assms in auto)
  then show ?thesis by simp
qed

lemma range_inner: "2 \<le> lo \<Longrightarrow> set [lo..<node_count (bcfg b)] \<subseteq> inner b"
  by (auto simp: inner_def)

text \<open>The part of a \<open>try\<close> before its \<open>finally\<close>.\<close>

lemma try_catch_ok:
  fixes b0 :: "'a builder"
  assumes L: "lowered {} {} ps st0 (b, loops)" and lo: "2 \<le> lo"
    and catch: "lowers h" and r: "room st0 (ps @ spec_payloads h)"
    and F: "F = (\<lambda>b loops. do {
       let body_sources = frontier b;
       handler_start \<leftarrow> builder_next_block_id b;
       (b, loops) \<leftarrow> lower h (set_valid_frontier b [lo..<node_count (bcfg b)], loops);
       next \<leftarrow> builder_next_block_id b;
       handler_sources \<leftarrow> block_range handler_start next;
       (case fin of
          Some (_ :: 'a spec) \<Rightarrow> Some (set_valid_frontier b (body_sources @ frontier b @ handler_sources), loops)
        | None \<Rightarrow> do {
            let b = set_valid_frontier b (body_sources @ frontier b);
            b \<leftarrow> wire b handler_sources (builder_exit b);
            Some (b, loops)
          })
     })"
  shows "\<exists>b' loops'. F b loops = Some (b', loops') \<and> length loops' = length loops \<and>
    lowered {} {} (ps @ spec_payloads h) st0 (b', loops')"
proof -
  let ?n = "node_count (bcfg b)" let ?bs = "frontier b"
  have r0: "room st0 ps" using r by (rule room_prefix)
  have m: "lowered {} (set ?bs) ps st0 (set_valid_frontier b [lo..<?n], loops)"
    by (rule lowered_move [OF L])
      (use loweredD(5) [OF L] range_inner [OF lo, of b] in
        \<open>auto simp: set_valid_frontier_def pending_def\<close>)
  obtain b2 l2 where l2: "lower h (set_valid_frontier b [lo..<?n], loops) = Some (b2, l2)"
    "length l2 = length loops" "lowered {} (set ?bs) (ps @ spec_payloads h) st0 (b2, l2)"
    using lowersE [OF catch m r] by metis
  let ?hs = "[?n..<node_count (bcfg b2)]"
  note D2 = loweredD [OF l2(3)]
  have n2: "builder_next_block_id b2 = Some (node_count (bcfg b2))" by (rule lowered_next [OF l2(3) r])
  have "node_count (bcfg b2) \<le> u32_max" using D2(7) r by (simp add: room_def)
  note br = block_range_ok [OF this, of ?n]
  have hs: "set ?hs \<subseteq> inner b2" using range_inner [of ?n b2] loweredD(3) [OF L] by simp
  have Fb: "F b loops = (case fin of
      Some _ \<Rightarrow> Some (set_valid_frontier b2 (?bs @ frontier b2 @ ?hs), l2)
    | None \<Rightarrow> do {
        b3 \<leftarrow> wire (set_valid_frontier b2 (?bs @ frontier b2)) ?hs
               (builder_exit (set_valid_frontier b2 (?bs @ frontier b2)));
        Some (b3, l2) })"
    unfolding F using lowered_next [OF L r0] l2(1) n2 br by (cases fin) (simp_all add: Let_def)
  show ?thesis
  proof (cases fin)
    case None
    have L3: "lowered {} {} (ps @ spec_payloads h) st0 (set_valid_frontier b2 (?bs @ frontier b2), l2)"
      by (rule lowered_move [OF l2(3)])
        (use D2(5,6) in \<open>auto simp: set_valid_frontier_def pending_def\<close>)
    let ?b3 = "set_valid_frontier b2 (?bs @ frontier b2)"
    have s: "set ?hs \<subseteq> inner ?b3" using hs by (simp add: inner_def set_valid_frontier_def)
    have t: "builder_exit ?b3 < node_count (bcfg ?b3)"
      using loweredD(2,3) [OF L3] by (simp add: builder_exit_def)
    obtain b4 where "wire ?b3 ?hs (builder_exit ?b3) = Some b4"
      "lowered {} ({} - set ?hs) (ps @ spec_payloads h) st0 (b4, l2)"
      by (rule lowered_wire [OF L3 s t])
    then show ?thesis using Fb None l2(2) by simp
  next
    case (Some x)
    have "lowered {} {} (ps @ spec_payloads h) st0
        (set_valid_frontier b2 (?bs @ frontier b2 @ ?hs), l2)"
      by (rule lowered_move [OF l2(3)])
        (use D2(5,6) hs in \<open>auto simp: set_valid_frontier_def pending_def\<close>)
    then show ?thesis using Fb Some l2(2) by simp
  qed
qed

lemma try_plain_ok:
  assumes L: "lowered {} {} ps st0 (b, loops)" and lo: "2 \<le> lo"
  shows "\<exists>b' loops'. (case fin of
      Some _ \<Rightarrow> Some (set_valid_frontier b (frontier b @ [lo..<node_count (bcfg b)]), loops)
    | None \<Rightarrow> do { b' \<leftarrow> wire b [lo..<node_count (bcfg b)] (builder_exit b); Some (b', loops) }) =
      Some (b', loops') \<and> length loops' = length loops \<and> lowered {} {} ps st0 (b', loops')"
proof (cases fin)
  case None
  have t: "builder_exit b < node_count (bcfg b)" using loweredD(2,3) [OF L] by (simp add: builder_exit_def)
  obtain b1 where "wire b [lo..<node_count (bcfg b)] (builder_exit b) = Some b1"
    "lowered {} ({} - set [lo..<node_count (bcfg b)]) ps st0 (b1, loops)"
    by (rule lowered_wire [OF L range_inner [OF lo] t])
  then show ?thesis using None by simp
next
  case (Some x)
  have "lowered {} {} ps st0 (set_valid_frontier b (frontier b @ [lo..<node_count (bcfg b)]), loops)"
    by (rule lowered_move [OF L])
      (use loweredD(5) [OF L] range_inner [OF lo, of b] in
        \<open>auto simp: set_valid_frontier_def pending_def\<close>)
  then show ?thesis using Some by simp
qed

lemma lowers_try:
  assumes body: "lowers body" and catch: "\<And>h. catch = Some h \<Longrightarrow> lowers h"
    and fin: "\<And>c. fin = Some c \<Longrightarrow> lowers c"
  shows "lowers (Try (body :: 'a spec) catch fin)"
proof (rule lowersI)
  fix b :: "'a builder" and loops
  assume r: "room (b, loops) (spec_payloads (Try body catch fin))"
    and L0: "lowered {} {} [] (b, loops) (b, loops)"
  let ?n = "node_count (bcfg b)"
  let ?hp = "case catch of None \<Rightarrow> [] | Some h \<Rightarrow> spec_payloads h"
  let ?fp = "case fin of None \<Rightarrow> [] | Some c \<Rightarrow> spec_payloads c"
  let ?ps = "([] @ spec_payloads body) @ ?hp"
  have r0: "room (b, loops) []" and r1: "room (b, loops) ([] @ spec_payloads body)"
    and r2: "room (b, loops) ?ps" and r3: "room (b, loops) (?ps @ ?fp)"
    using r by (simp_all add: room_def)
  obtain b1 l1 where l1: "lower body (b, loops) = Some (b1, l1)" "length l1 = length loops"
    "lowered {} {} ([] @ spec_payloads body) (b, loops) (b1, l1)"
    using lowersE [OF body L0 r1] by metis
  note D1 = loweredD [OF l1(3)]
  have "node_count (bcfg b1) \<le> u32_max" using D1(7) r1 by (simp add: room_def)
  note br = block_range_ok [OF this, of ?n]
  have n1: "builder_next_block_id b1 = Some (node_count (bcfg b1))" by (rule lowered_next [OF l1(3) r1])
  have lo: "2 \<le> ?n" by (rule loweredD(3) [OF L0])
  obtain b2 l2 where s2: "lower (Try body catch fin) (b, loops) =
      (case fin of None \<Rightarrow> Some (b2, l2) | Some c \<Rightarrow> lower c (b2, l2))"
    and l2: "length l2 = length loops" "lowered {} {} ?ps (b, loops) (b2, l2)"
  proof (cases catch)
    case None
    then have L1: "lowered {} {} ?ps (b, loops) (b1, l1)" using l1(3) by simp
    from try_plain_ok [OF L1 lo, of fin] obtain b2 l2 where "(case fin of
      Some _ \<Rightarrow> Some (set_valid_frontier b1 (frontier b1 @ [?n..<node_count (bcfg b1)]), l1)
    | None \<Rightarrow> do { b' \<leftarrow> wire b1 [?n..<node_count (bcfg b1)] (builder_exit b1); Some (b', l1) }) =
      Some (b2, l2)" "length l2 = length l1" "lowered {} {} ?ps (b, loops) (b2, l2)" by blast
    then show ?thesis
      using that [of b2 l2] None lowered_next [OF L0 r0] l1(1,2) n1 br by simp
  next
    case (Some h)
    have rh: "room (b, loops) (([] @ spec_payloads body) @ spec_payloads h)" using r2 Some by simp
    from try_catch_ok [OF l1(3) lo catch [OF Some] rh refl, of fin] obtain b2 l2 where
      F: "do {
       let body_sources = frontier b1;
       handler_start \<leftarrow> builder_next_block_id b1;
       (b, loops) \<leftarrow> lower h (set_valid_frontier b1 [?n..<node_count (bcfg b1)], l1);
       next \<leftarrow> builder_next_block_id b;
       handler_sources \<leftarrow> block_range handler_start next;
       (case fin of
          Some (_ :: 'a spec) \<Rightarrow> Some (set_valid_frontier b (body_sources @ frontier b @ handler_sources), loops)
        | None \<Rightarrow> do {
            let b = set_valid_frontier b (body_sources @ frontier b);
            b \<leftarrow> wire b handler_sources (builder_exit b);
            Some (b, loops)
          })
     } = Some (b2, l2)" "length l2 = length l1"
      "lowered {} {} (([] @ spec_payloads body) @ spec_payloads h) (b, loops) (b2, l2)" by blast
    have "lower (Try body catch fin) (b, loops) =
        (case fin of None \<Rightarrow> Some (b2, l2) | Some c \<Rightarrow> lower c (b2, l2))"
      by (simp only: lower.simps Some option.case bind.bind_lunit prod.case l1(1) n1 br
          F(1) [unfolded n1 bind.bind_lunit] lowered_next [OF L0 r0])
    then show ?thesis using that F(2,3) l1(2) Some by simp
  qed
  show "\<exists>b' loops'. lower (Try body catch fin) (b, loops) = Some (b', loops') \<and>
      length loops' = length loops \<and>
      lowered {} {} (spec_payloads (Try body catch fin)) (b, loops) (b', loops')"
  proof (cases fin)
    case None
    then show ?thesis using s2 l2 by simp
  next
    case (Some c)
    then have rc: "room (b, loops) (?ps @ spec_payloads c)" using r3 by simp
    obtain b3 l3 where "lower c (b2, l2) = Some (b3, l3)" "length l3 = length l2"
      "lowered {} {} (?ps @ spec_payloads c) (b, loops) (b3, l3)"
      using lowersE [OF fin [OF Some] l2(2) rc] by metis
    then show ?thesis using s2 l2(1) Some by simp
  qed
qed

lemma lowers_all: "lowers (s :: 'a spec)"
proof (induction s)
  case (Stmt p)
  then show ?case by (rule lowers_stmt)
next
  case (Seq items)
  show ?case
  proof (rule lowersI)
    fix b :: "'a builder" and loops
    assume r: "room (b, loops) (spec_payloads (Seq items))" and L: "lowered {} {} [] (b, loops) (b, loops)"
    show "\<exists>b' loops'. lower (Seq items) (b, loops) = Some (b', loops') \<and>
        length loops' = length loops \<and>
        lowered {} {} (spec_payloads (Seq items)) (b, loops) (b', loops')"
      using lowers_items [OF Seq.IH L] r by simp
  qed
next
  case (IfS c t e)
  show ?case by (rule lowers_if [OF IfS.IH(1)]) (use IfS.IH(2) in simp)
next
  case (For init c body step)
  show ?case
    by (rule lowers_for [OF _ For.IH(2)]) (use For.IH(1,3) in simp_all)
next
  case (DoWhile body c)
  show ?case by (rule lowers_do_while [OF DoWhile.IH])
next
  case (Try body catch fin)
  show ?case by (rule lowers_try [OF Try.IH(1)]) (use Try.IH(2,3) in simp_all)
next
  case Break
  show ?case by (rule lowersI) (use lowers_jump [where is_break = True] in force)
next
  case Continue
  show ?case by (rule lowersI) (use lowers_jump [where is_break = False] in force)
next
  case Return
  show ?case by (rule lowersI) (use lowers_return in force)
qed

lemma st_ok_new: "st_ok (builder_new p q, [])"
  by (auto simp: st_ok_def builder_new_def wf_disconnected edges_disconnected pending_def inner_def)

lemma build_from_blocks_ok:
  assumes room: "2 + length (spec_payloads s) < u32_max"
  obtains g qs where "build_from_blocks s p q = Some g" and "wf_cfg g" and "cfg_entry g = 0"
    and "cfg_exit g = 1" and "payloads g = [p, q] @ qs" and "subseq qs (spec_payloads s)"
    and "1 \<notin> Domain (edges g)"
    and "\<And>b. b < node_count g \<Longrightarrow> b \<noteq> 1 \<Longrightarrow> b \<in> Domain (edges g)"
proof -
  let ?b0 = "builder_new p q"
  have n0: "node_count (bcfg ?b0) = 2" by (simp add: builder_new_def)
  obtain b loops where l: "lower s (?b0, []) = Some (b, loops)" "length loops = 0"
    "lowered {} {} (spec_payloads s) (?b0, []) (b, loops)"
  proof -
    have "node_count (bcfg ?b0) + length (spec_payloads s) < u32_max" using room n0 by simp
    from lowers_all [of s, unfolded lowers_def, rule_format, OF st_ok_new this]
    show thesis using that by auto
  qed
  note D = loweredD [OF l(3)]
  obtain g where g: "finish b = Some g" "grown (bcfg b) g (set (frontier b) \<times> {cfg_exit (bcfg b)}) []"
    by (rule finish_grown [OF D(8)])
  note G = grownD [OF g(2)]
  obtain qs where qs: "payloads (bcfg b) = payloads (bcfg ?b0) @ qs" "subseq qs (spec_payloads s)"
    using l(3) by (auto simp: lowered_def)
  have dang: "dangling {} (b, loops) \<subseteq> dangling {} (?b0, [])" using l(3) by (simp add: lowered_def)
  have "dangling {} (?b0, []) = {}"
    by (auto simp: dangling_def inner_def pending_def builder_new_def less_2_cases_iff)
  then have "inner b \<subseteq> Domain (edges (bcfg b)) \<union> set (frontier b)"
    using dang l(2) by (auto simp: dangling_def pending_def)
  then have "x \<in> Domain (edges g)" if "x < node_count g" "x \<noteq> 1" for x
    using that G(2,6) by (auto simp: inner_def)
  moreover have "1 \<notin> Domain (edges g)"
    using D(4,5) G(2) by (auto simp: pending_def inner_def)
  moreover have "build_from_blocks s p q = Some g"
    using l(1) g(1) by (simp add: build_from_blocks_def emit_spec_lower)
  moreover have "cfg_entry g = 0" "cfg_exit g = 1" using wf_basic(1) [OF G(1)] G(5) D(2) by simp_all
  moreover have "payloads g = [p, q] @ qs" using G(3) qs(1) by (simp add: builder_new_def disconnected_def)
  ultimately show ?thesis using that G(1) qs(2) by blast
qed

subsection \<open>Properties\<close>

text \<open>C30: The action-stack machine of \<open>emit_spec\<close> computes the lowering by structural
  recursion: for every description, builder and loop stack, running \<open>EmitAction::Spec\<close> to an
  empty stack gives exactly the state (or panic) of \<open>lower\<close>.\<close>

theorem emit_spec_refines_lower: "emit_spec s b loops = lower s (b, loops)"
  by (rule emit_spec_lower)

text \<open>C8: \<open>build_from_blocks\<close> terminates without a panic whenever entry, exit and one block
  per payload fit the id space. The graph is well-formed with entry 0 and exit 1; its other
  blocks are a subsequence of the payloads in text order (unreachable statements of a sequence
  are skipped, nothing is duplicated); the exit has no successor and every other block has
  one, so no path gets stuck before the exit.\<close>

theorem build_from_blocks_total:
  assumes "2 + length (spec_payloads s) < u32_max"
  shows "\<exists>g qs. build_from_blocks s p q = Some g \<and> wf_cfg g \<and> cfg_entry g = 0 \<and>
    cfg_exit g = 1 \<and> payloads g = [p, q] @ qs \<and> subseq qs (spec_payloads s) \<and>
    (\<forall>b < node_count g. b \<in> Domain (edges g) \<longleftrightarrow> b \<noteq> cfg_exit g)"
proof (rule build_from_blocks_ok [OF assms, of p q])
  fix g qs
  assume g: "build_from_blocks s p q = Some g" "wf_cfg g" "cfg_entry g = 0" "cfg_exit g = 1"
    "payloads g = [p, q] @ qs" "subseq qs (spec_payloads s)" "1 \<notin> Domain (edges g)"
    "\<And>b. b < node_count g \<Longrightarrow> b \<noteq> 1 \<Longrightarrow> b \<in> Domain (edges g)"
  have "\<forall>b < node_count g. b \<in> Domain (edges g) \<longleftrightarrow> b \<noteq> cfg_exit g" using g(4,7,8) by metis
  with g show ?thesis by blast
qed

theorem build_from_blocks_total_witness:
  "\<exists>g qs. build_from_blocks
      (For None (Some (10 :: nat)) (Seq [IfS 11 Break None, Try (Stmt 12) (Some Continue) (Some (Stmt 13))]) None)
      0 1 = Some g \<and> wf_cfg g \<and> payloads g = [0, 1] @ qs \<and> subseq qs [10, 11, 12, 13]"
  using build_from_blocks_total [of "For None (Some (10 :: nat))
      (Seq [IfS 11 Break None, Try (Stmt 12) (Some Continue) (Some (Stmt 13))]) None" 0 1]
  by (fastforce simp: u32_max_def)

end
