(* ===== verification/Solver.thy ===== *)
theory Solver
  imports CfgReach
begin

text \<open>
  The worklist solver of \<open>crates/hoonarqube-dataflow/src/solve.rs\<close>. The lattice operation
  \<open>meet\<close>, the statement transfer and the block effect are closures of the caller, hence
  parameters. The loop is a \<open>partial_function\<close>: \<open>solve_solution\<close> says what a returned
  result satisfies for any closures, and the locale \<open>fact_lattice\<close> is the contract under
  which the solver is proved to return, with the least solution.
\<close>

subsection \<open>Directions and results\<close>

datatype direction = Forward | Backward

record 'f dataflow_result =
  in_facts :: "'f list"
  out_facts :: "'f list"

definition in_fact :: "'f dataflow_result \<Rightarrow> block_id \<Rightarrow> 'f option" where
  "in_fact r b = idx (in_facts r) b"

definition out_fact :: "'f dataflow_result \<Rightarrow> block_id \<Rightarrow> 'f option" where
  "out_fact r b = idx (out_facts r) b"

fun direction_root :: "direction \<Rightarrow> 'a cfg \<Rightarrow> block_id" where
  "direction_root Forward g = cfg_entry g"
| "direction_root Backward g = cfg_exit g"

fun readers :: "direction \<Rightarrow> 'a cfg \<Rightarrow> block_id \<Rightarrow> block_id list option" where
  "readers Forward g b = predecessors g b"
| "readers Backward g b = successors g b"

fun spread :: "direction \<Rightarrow> 'a cfg \<Rightarrow> block_id \<Rightarrow> block_id list option" where
  "spread Forward g b = successors g b"
| "spread Backward g b = predecessors g b"

fun prior :: "direction \<Rightarrow> 'f dataflow_result \<Rightarrow> block_id \<Rightarrow> 'f option" where
  "prior Forward r b = idx (out_facts r) b"
| "prior Backward r b = idx (in_facts r) b"

fun retained_side :: "direction \<Rightarrow> 'f dataflow_result \<Rightarrow> block_id \<Rightarrow> 'f option" where
  "retained_side Forward r b = idx (in_facts r) b"
| "retained_side Backward r b = idx (out_facts r) b"

fun store :: "direction \<Rightarrow> 'f dataflow_result \<Rightarrow> block_id \<Rightarrow> 'f \<Rightarrow> 'f \<Rightarrow> 'f dataflow_result option" where
  "store Forward r b side computed = do {
     i \<leftarrow> upd (in_facts r) b side;
     out \<leftarrow> upd (out_facts r) b computed;
     Some \<lparr>in_facts = i, out_facts = out\<rparr>
   }"
| "store Backward r b side computed = do {
     out \<leftarrow> upd (out_facts r) b side;
     i \<leftarrow> upd (in_facts r) b computed;
     Some \<lparr>in_facts = i, out_facts = out\<rparr>
   }"

subsection \<open>The worklist loop\<close>

fun meet_neighbours :: "block_id list \<Rightarrow> direction \<Rightarrow> 'f dataflow_result \<Rightarrow> bool list
    \<Rightarrow> ('f \<Rightarrow> 'f \<Rightarrow> 'f) \<Rightarrow> 'f option \<Rightarrow> 'f option option" where
  "meet_neighbours [] dir r visited meet accumulator = Some accumulator"
| "meet_neighbours (n # ns) dir r visited meet accumulator = do {
     v \<leftarrow> idx visited n;
     (if \<not> v then meet_neighbours ns dir r visited meet accumulator
      else do {
        fact \<leftarrow> (case dir of Forward \<Rightarrow> idx (out_facts r) n | Backward \<Rightarrow> idx (in_facts r) n);
        meet_neighbours ns dir r visited meet
          (Some (case accumulator of None \<Rightarrow> fact | Some current \<Rightarrow> meet current fact))
      })
   }"

text \<open>The head of \<open>worklist\<close> is its front; \<open>push_back\<close> appends.\<close>

fun enqueue_unqueued :: "block_id list \<Rightarrow> bool list \<Rightarrow> block_id list
    \<Rightarrow> (bool list \<times> block_id list) option" where
  "enqueue_unqueued [] queued worklist = Some (queued, worklist)"
| "enqueue_unqueued (n # ns) queued worklist = do {
     q \<leftarrow> idx queued n;
     (if \<not> q then do {
        queued' \<leftarrow> upd queued n True;
        enqueue_unqueued ns queued' (worklist @ [n])
      } else enqueue_unqueued ns queued worklist)
   }"

record 'f solver_state =
  sresult :: "'f dataflow_result"
  svisited :: "bool list"
  squeued :: "bool list"
  sworklist :: "block_id list"

text \<open>The closures of the caller, bundled.\<close>

record ('a, 'f) problem =
  p_boundary :: "'f"
  p_meet :: "'f \<Rightarrow> 'f \<Rightarrow> 'f"
  p_transfer :: "'f \<Rightarrow> 'a \<Rightarrow> 'f"
  p_effect :: "block_id \<Rightarrow> 'f \<Rightarrow> 'f"

definition side_fact :: "'a cfg \<Rightarrow> direction \<Rightarrow> ('a, 'f) problem \<Rightarrow> 'f dataflow_result \<Rightarrow> bool list
    \<Rightarrow> block_id \<Rightarrow> 'f option" where
  "side_fact g dir p r visited block =
     (if block = direction_root dir g then Some (p_boundary p)
      else do {
        ns \<leftarrow> readers dir g block;
        m \<leftarrow> meet_neighbours ns dir r visited (p_meet p) None;
        (case m of None \<Rightarrow> retained_side dir r block | Some f \<Rightarrow> Some f)
      })"

definition solve_step :: "'a cfg \<Rightarrow> direction \<Rightarrow> ('a, 'f) problem \<Rightarrow> block_id
    \<Rightarrow> 'f solver_state \<Rightarrow> 'f solver_state option" where
  "solve_step g dir p block s = do {
     queued \<leftarrow> upd (squeued s) block False;
     side \<leftarrow> side_fact g dir p (sresult s) (svisited s) block;
     stmt \<leftarrow> payload g block;
     let computed = p_effect p block (p_transfer p side stmt);
     old \<leftarrow> prior dir (sresult s) block;
     let changed = (computed \<noteq> old);
     r \<leftarrow> store dir (sresult s) block side computed;
     v \<leftarrow> idx (svisited s) block;
     let first_visit = (\<not> v);
     visited \<leftarrow> upd (svisited s) block True;
     (if changed \<or> first_visit then do {
        ns \<leftarrow> spread dir g block;
        (queued, worklist) \<leftarrow> enqueue_unqueued ns queued (sworklist s);
        Some \<lparr>sresult = r, svisited = visited, squeued = queued, sworklist = worklist\<rparr>
      } else Some \<lparr>sresult = r, svisited = visited, squeued = queued, sworklist = sworklist s\<rparr>)
   }"

partial_function (option) solve_loop :: "'a cfg \<Rightarrow> direction \<Rightarrow> ('a, 'f) problem
    \<Rightarrow> 'f solver_state \<Rightarrow> 'f dataflow_result option" where
  "solve_loop g dir p s = (case sworklist s of
     [] \<Rightarrow> Some (sresult s)
   | block # rest \<Rightarrow> do {
       s' \<leftarrow> solve_step g dir p block (s\<lparr>sworklist := rest\<rparr>);
       solve_loop g dir p s'
     })"

definition solve_dataflow :: "'f \<Rightarrow> 'a cfg \<Rightarrow> direction \<Rightarrow> ('a, 'f) problem
    \<Rightarrow> 'f dataflow_result option" where
  "solve_dataflow dflt g dir p = do {
     let len = node_count g;
     let root = direction_root dir g;
     queued \<leftarrow> upd (replicate len False) root True;
     solve_loop g dir p
       \<lparr>sresult = \<lparr>in_facts = replicate len dflt, out_facts = replicate len dflt\<rparr>,
        svisited = replicate len False, squeued = queued, sworklist = [root]\<rparr>
   }"

subsection \<open>The equations\<close>

text \<open>The graph seen in the direction of the solve.\<close>

fun flow_edges :: "direction \<Rightarrow> 'a cfg \<Rightarrow> (block_id \<times> block_id) set" where
  "flow_edges Forward g = edges g"
| "flow_edges Backward g = (edges g)\<inverse>"

definition reached :: "direction \<Rightarrow> 'a cfg \<Rightarrow> block_id set" where
  "reached dir g = (flow_edges dir g)\<^sup>* `` {direction_root dir g}"

fun reader_list :: "direction \<Rightarrow> 'a cfg \<Rightarrow> block_id \<Rightarrow> block_id list" where
  "reader_list Forward g b = preds g ! b"
| "reader_list Backward g b = succs g ! b"

fun spread_list :: "direction \<Rightarrow> 'a cfg \<Rightarrow> block_id \<Rightarrow> block_id list" where
  "spread_list Forward g b = succs g ! b"
| "spread_list Backward g b = preds g ! b"

fun value_at :: "direction \<Rightarrow> 'f dataflow_result \<Rightarrow> block_id \<Rightarrow> 'f" where
  "value_at Forward r b = out_facts r ! b"
| "value_at Backward r b = in_facts r ! b"

fun side_at :: "direction \<Rightarrow> 'f dataflow_result \<Rightarrow> block_id \<Rightarrow> 'f" where
  "side_at Forward r b = in_facts r ! b"
| "side_at Backward r b = out_facts r ! b"

fun meet_all :: "('f \<Rightarrow> 'f \<Rightarrow> 'f) \<Rightarrow> 'f list \<Rightarrow> 'f option" where
  "meet_all meet [] = None"
| "meet_all meet (x # xs) = Some (foldl meet x xs)"

text \<open>What flows into a block when the blocks \<open>V\<close> carry the values \<open>val\<close>.\<close>

definition inflow :: "'a cfg \<Rightarrow> direction \<Rightarrow> ('a, 'f) problem \<Rightarrow> block_id set
    \<Rightarrow> (block_id \<Rightarrow> 'f) \<Rightarrow> block_id \<Rightarrow> 'f option" where
  "inflow g dir p V val b =
     (if b = direction_root dir g then Some (p_boundary p)
      else meet_all (p_meet p) (map val (filter (\<lambda>n. n \<in> V) (reader_list dir g b))))"

definition block_fn :: "'a cfg \<Rightarrow> ('a, 'f) problem \<Rightarrow> block_id \<Rightarrow> 'f \<Rightarrow> 'f" where
  "block_fn g p b x = p_effect p b (p_transfer p x (payloads g ! b))"

text \<open>
  A solution: the reached blocks satisfy the dataflow equations over the reached neighbours, the
  other blocks keep the default fact.
\<close>

definition solution :: "'f \<Rightarrow> 'a cfg \<Rightarrow> direction \<Rightarrow> ('a, 'f) problem \<Rightarrow> 'f dataflow_result \<Rightarrow> bool" where
  "solution dflt g dir p r \<longleftrightarrow>
     length (in_facts r) = node_count g \<and> length (out_facts r) = node_count g \<and>
     (\<forall>b \<in> reached dir g. inflow g dir p (reached dir g) (value_at dir r) b = Some (side_at dir r b) \<and>
        value_at dir r b = block_fn g p b (side_at dir r b)) \<and>
     (\<forall>b < node_count g. b \<notin> reached dir g \<longrightarrow> in_facts r ! b = dflt \<and> out_facts r ! b = dflt)"

subsection \<open>Facts about the pieces\<close>

lemma readers_wf: "wf_cfg g \<Longrightarrow> b < node_count g \<Longrightarrow> readers dir g b = Some (reader_list dir g b)"
  by (cases dir) (simp_all add: predecessors_def successors_def panic_simps wf_lengths)

lemma spread_wf: "wf_cfg g \<Longrightarrow> b < node_count g \<Longrightarrow> spread dir g b = Some (spread_list dir g b)"
  by (cases dir) (simp_all add: predecessors_def successors_def panic_simps wf_lengths)

lemma reader_iff:
  "wf_cfg g \<Longrightarrow> b < node_count g \<Longrightarrow> n \<in> set (reader_list dir g b) \<longleftrightarrow> (n, b) \<in> flow_edges dir g"
  using edges_preds [of g n b] edges_iff [of g b n] by (cases dir) simp_all

lemma spread_iff:
  "wf_cfg g \<Longrightarrow> b < node_count g \<Longrightarrow> n \<in> set (spread_list dir g b) \<longleftrightarrow> (b, n) \<in> flow_edges dir g"
  using edges_preds [of g n b] edges_iff [of g b n] by (cases dir) simp_all

lemma spread_distinct: "wf_cfg g \<Longrightarrow> b < node_count g \<Longrightarrow> distinct (spread_list dir g b)"
  by (cases dir) (simp_all add: wf_distinct)

lemma flow_less: "wf_cfg g \<Longrightarrow> (a, b) \<in> flow_edges dir g \<Longrightarrow> a < node_count g \<and> b < node_count g"
  by (cases dir) (auto dest: edges_less)

lemma root_less: "wf_cfg g \<Longrightarrow> direction_root dir g < node_count g"
  by (cases dir) (simp_all add: wf_basic)

lemma reached_less: "wf_cfg g \<Longrightarrow> b \<in> reached dir g \<Longrightarrow> b < node_count g"
  using root_less [of g dir] flow_less [of g _ _ dir]
  by (auto simp: reached_def elim: rtranclE)

lemma reached_step: "a \<in> reached dir g \<Longrightarrow> (a, b) \<in> flow_edges dir g \<Longrightarrow> b \<in> reached dir g"
  by (auto simp: reached_def intro: rtrancl_into_rtrancl)

lemma meet_neighbours_eq:
  assumes "length (in_facts r) = n" and "length (out_facts r) = n" and "length visited = n"
  shows "set ns \<subseteq> {..<n} \<Longrightarrow> meet_neighbours ns dir r visited meet acc =
    Some (case acc of
        None \<Rightarrow> meet_all meet (map (value_at dir r) (filter (\<lambda>x. x \<in> flagged visited) ns))
      | Some c \<Rightarrow> Some (foldl meet c (map (value_at dir r) (filter (\<lambda>x. x \<in> flagged visited) ns))))"
proof (induction ns arbitrary: acc)
  case Nil
  then show ?case by (cases acc) simp_all
next
  case (Cons x ns)
  have x: "x < n" using Cons.prems by simp
  have f: "(case dir of Forward \<Rightarrow> idx (out_facts r) x | Backward \<Rightarrow> idx (in_facts r) x) =
      Some (value_at dir r x)"
    using assms x by (cases dir) (simp_all add: panic_simps)
  have "set ns \<subseteq> {..<n}" using Cons.prems by simp
  note IH = Cons.IH [OF this]
  show ?case
  proof (cases "visited ! x")
    case True
    then show ?thesis
      using f x assms IH by (cases acc) (simp_all add: panic_simps flagged_iff)
  next
    case False
    then show ?thesis using x assms IH by (cases acc) (simp_all add: panic_simps flagged_iff)
  qed
qed

lemma enqueue_unqueued_ok:
  "set ns \<subseteq> {..<length queued} \<Longrightarrow> distinct worklist \<Longrightarrow> set worklist = flagged queued \<Longrightarrow>
   \<exists>queued' worklist'. enqueue_unqueued ns queued worklist = Some (queued', worklist') \<and>
     length queued' = length queued \<and> flagged queued' = flagged queued \<union> set ns \<and>
     distinct worklist' \<and> set worklist' = flagged queued'"
proof (induction ns arbitrary: queued worklist)
  case (Cons x ns)
  have x: "x < length queued" using Cons.prems by simp
  show ?case
  proof (cases "queued ! x")
    case True
    then show ?thesis
      using Cons.IH [of queued worklist] Cons.prems x by (auto simp: panic_simps flagged_iff)
  next
    case False
    have "distinct (worklist @ [x])" "set (worklist @ [x]) = flagged (queued[x := True])"
      using Cons.prems False x by (auto simp: flagged_iff)
    then show ?thesis
      using Cons.IH [of "queued[x := True]" "worklist @ [x]"] Cons.prems(1) False x
      by (auto simp: panic_simps)
  qed
qed simp

definition stored :: "direction \<Rightarrow> 'f dataflow_result \<Rightarrow> block_id \<Rightarrow> 'f \<Rightarrow> 'f \<Rightarrow> 'f dataflow_result" where
  "stored dir r b x y = (case dir of
     Forward \<Rightarrow> \<lparr>in_facts = (in_facts r)[b := x], out_facts = (out_facts r)[b := y]\<rparr>
   | Backward \<Rightarrow> \<lparr>in_facts = (in_facts r)[b := y], out_facts = (out_facts r)[b := x]\<rparr>)"

lemma store_ok:
  "b < length (in_facts r) \<Longrightarrow> b < length (out_facts r) \<Longrightarrow> store dir r b x y = Some (stored dir r b x y)"
  by (cases dir) (simp_all add: stored_def panic_simps)

lemma stored_simps [simp]:
  "length (in_facts (stored dir r b x y)) = length (in_facts r)"
  "length (out_facts (stored dir r b x y)) = length (out_facts r)"
  by (cases dir; simp add: stored_def)+

lemma value_stored:
  "b < length (in_facts r) \<Longrightarrow> b < length (out_facts r) \<Longrightarrow>
     value_at dir (stored dir r b x y) c = (if c = b then y else value_at dir r c)"
  by (cases dir) (simp_all add: stored_def)

lemma side_stored:
  "b < length (in_facts r) \<Longrightarrow> b < length (out_facts r) \<Longrightarrow>
     side_at dir (stored dir r b x y) c = (if c = b then x else side_at dir r c)"
  by (cases dir) (simp_all add: stored_def)

lemma stored_other:
  "c \<noteq> b \<Longrightarrow> in_facts (stored dir r b x y) ! c = in_facts r ! c \<and>
     out_facts (stored dir r b x y) ! c = out_facts r ! c"
  by (cases dir) (simp_all add: stored_def)

lemma inflow_cong:
  assumes "\<And>n. n \<in> set (reader_list dir g b) \<Longrightarrow> (n \<in> V \<longleftrightarrow> n \<in> V') \<and> (n \<in> V \<longrightarrow> val n = val' n)"
  shows "inflow g dir p V val b = inflow g dir p V' val' b"
proof -
  have "filter (\<lambda>n. n \<in> V) (reader_list dir g b) = filter (\<lambda>n. n \<in> V') (reader_list dir g b)"
    by (rule filter_cong) (use assms in auto)
  then have "map val (filter (\<lambda>n. n \<in> V) (reader_list dir g b)) =
      map val' (filter (\<lambda>n. n \<in> V') (reader_list dir g b))"
    by (rule map_cong) (use assms in auto)
  then show ?thesis by (simp add: inflow_def)
qed

subsection \<open>Invariant of the loop\<close>

abbreviation V_of :: "'f solver_state \<Rightarrow> block_id set" where
  "V_of s \<equiv> flagged (svisited s)"

abbreviation Q_of :: "'f solver_state \<Rightarrow> block_id set" where
  "Q_of s \<equiv> flagged (squeued s)"

definition solver_shape :: "'f \<Rightarrow> 'a cfg \<Rightarrow> direction \<Rightarrow> 'f solver_state \<Rightarrow> bool" where
  "solver_shape dflt g dir s \<longleftrightarrow>
     length (in_facts (sresult s)) = node_count g \<and> length (out_facts (sresult s)) = node_count g \<and>
     length (svisited s) = node_count g \<and> length (squeued s) = node_count g \<and>
     distinct (sworklist s) \<and> set (sworklist s) = Q_of s \<and> V_of s \<union> Q_of s \<subseteq> reached dir g \<and>
     direction_root dir g \<in> V_of s \<union> Q_of s \<and>
     (\<forall>b \<in> V_of s. \<forall>c. (b, c) \<in> flow_edges dir g \<longrightarrow> c \<in> V_of s \<union> Q_of s) \<and>
     (\<forall>b \<in> Q_of s. b \<noteq> direction_root dir g \<longrightarrow> (\<exists>n \<in> V_of s. (n, b) \<in> flow_edges dir g)) \<and>
     (\<forall>b < node_count g. b \<notin> V_of s \<longrightarrow>
        in_facts (sresult s) ! b = dflt \<and> out_facts (sresult s) ! b = dflt)"

definition solver_eqs :: "'a cfg \<Rightarrow> direction \<Rightarrow> ('a, 'f) problem \<Rightarrow> 'f solver_state \<Rightarrow> bool" where
  "solver_eqs g dir p s \<longleftrightarrow>
     (\<forall>b \<in> V_of s. value_at dir (sresult s) b = block_fn g p b (side_at dir (sresult s) b)) \<and>
     (\<forall>b \<in> V_of s - Q_of s.
        inflow g dir p (V_of s) (value_at dir (sresult s)) b = Some (side_at dir (sresult s) b))"

lemma solver_shapeD:
  assumes "solver_shape dflt g dir s"
  shows "length (in_facts (sresult s)) = node_count g" and "length (out_facts (sresult s)) = node_count g"
    and "length (svisited s) = node_count g" and "length (squeued s) = node_count g"
    and "distinct (sworklist s)" and "set (sworklist s) = Q_of s" and "V_of s \<union> Q_of s \<subseteq> reached dir g"
    and "direction_root dir g \<in> V_of s \<union> Q_of s"
    and "b \<in> V_of s \<Longrightarrow> (b, c) \<in> flow_edges dir g \<Longrightarrow> c \<in> V_of s \<union> Q_of s"
    and "b \<in> Q_of s \<Longrightarrow> b \<noteq> direction_root dir g \<Longrightarrow> \<exists>n \<in> V_of s. (n, b) \<in> flow_edges dir g"
    and "b < node_count g \<Longrightarrow> b \<notin> V_of s \<Longrightarrow>
      in_facts (sresult s) ! b = dflt \<and> out_facts (sresult s) ! b = dflt"
  using assms unfolding solver_shape_def by blast+

lemma meet_all_Some: "xs \<noteq> [] \<Longrightarrow> \<exists>x. meet_all meet xs = Some x"
  by (cases xs) auto

lemma inflow_exists:
  assumes wf: "wf_cfg g" and sh: "solver_shape dflt g dir s" and b: "b \<in> Q_of s"
  shows "\<exists>x. inflow g dir p (V_of s) val b = Some x"
proof (cases "b = direction_root dir g")
  case True
  then show ?thesis by (simp add: inflow_def)
next
  case False
  obtain n where n: "n \<in> V_of s" "(n, b) \<in> flow_edges dir g"
    using solver_shapeD(10) [OF sh b False] by blast
  then have "n \<in> set (filter (\<lambda>n. n \<in> V_of s) (reader_list dir g b))"
    using reader_iff [OF wf] flow_less [OF wf n(2)] by simp
  then have "map val (filter (\<lambda>n. n \<in> V_of s) (reader_list dir g b)) \<noteq> []" by fastforce
  from meet_all_Some [OF this, of "p_meet p"] False show ?thesis by (simp add: inflow_def)
qed

text \<open>One step, described on the abstract state: \<open>retained_side\<close> is never used.\<close>

definition stepped :: "'a cfg \<Rightarrow> direction \<Rightarrow> ('a, 'f) problem \<Rightarrow> block_id \<Rightarrow> 'f solver_state
    \<Rightarrow> 'f \<Rightarrow> 'f solver_state \<Rightarrow> bool" where
  "stepped g dir p b s x s' \<longleftrightarrow>
     inflow g dir p (V_of s) (value_at dir (sresult s)) b = Some x \<and>
     sresult s' = stored dir (sresult s) b x (block_fn g p b x) \<and>
     svisited s' = (svisited s)[b := True] \<and> length (squeued s') = length (squeued s) \<and>
     distinct (sworklist s') \<and> set (sworklist s') = Q_of s' \<and>
     (if block_fn g p b x \<noteq> value_at dir (sresult s) b \<or> b \<notin> V_of s
      then Q_of s' = (Q_of s - {b}) \<union> set (spread_list dir g b)
      else Q_of s' = Q_of s - {b} \<and> sworklist s' = tl (sworklist s))"

lemma solve_step_stepped:
  assumes wf: "wf_cfg g" and sh: "solver_shape dflt g dir s" and wl: "sworklist s = b # rest"
  obtains x s' where "solve_step g dir p b (s\<lparr>sworklist := rest\<rparr>) = Some s'"
    and "stepped g dir p b s x s'"
proof -
  note S = solver_shapeD [OF sh]
  let ?n = "node_count g" let ?root = "direction_root dir g" let ?r = "sresult s"
  have bQ: "b \<in> Q_of s" and rest: "distinct rest" "b \<notin> set rest" "set rest = Q_of s - {b}"
    using S(5,6) wl by auto
  have bn: "b < ?n" using S(4) flagged_less [OF bQ] by simp
  obtain x where x: "inflow g dir p (V_of s) (value_at dir ?r) b = Some x"
    using inflow_exists [OF wf sh bQ, of p "value_at dir (sresult s)"] by blast
  let ?y = "block_fn g p b x"
  let ?q = "(squeued s)[b := False]"
  have q: "flagged ?q = Q_of s - {b}" "length ?q = ?n"
    using S(4) bn by (auto simp: flagged_def nth_list_update split: if_splits)
  have rsub: "set (reader_list dir g b) \<subseteq> {..<?n}"
    using reader_iff [OF wf bn] flow_less [OF wf] by auto
  have side: "side_fact g dir p ?r (svisited s) b = Some x"
  proof (cases "b = ?root")
    case False
    then have "meet_all (p_meet p) (map (value_at dir ?r) (filter (\<lambda>n. n \<in> V_of s) (reader_list dir g b))) =
        Some x" using x by (simp add: inflow_def)
    then show ?thesis
      using False meet_neighbours_eq [OF S(1,2,3) rsub, of dir "p_meet p" None] readers_wf [OF wf bn]
      by (simp add: side_fact_def)
  qed (use x in \<open>simp add: inflow_def side_fact_def\<close>)
  have old: "prior dir ?r b = Some (value_at dir ?r b)"
    using S(1,2) bn by (cases dir) (simp_all add: panic_simps)
  have pl: "payload g b = Some (payloads g ! b)"
    using bn by (simp add: payload_def panic_simps wf_lengths [OF wf])
  have st: "store dir ?r b x ?y = Some (stored dir ?r b x ?y)" by (rule store_ok) (use S(1,2) bn in simp_all)
  have v: "idx (svisited s) b = Some (svisited s ! b)" "svisited s ! b \<longleftrightarrow> b \<in> V_of s"
    using S(3) bn by (simp_all add: panic_simps flagged_iff)
  show ?thesis
  proof (cases "?y \<noteq> value_at dir ?r b \<or> b \<notin> V_of s")
    case True
    have "set (spread_list dir g b) \<subseteq> {..<length ?q}"
      using q(2) spread_iff [OF wf bn] flow_less [OF wf] by auto
    moreover have "set rest = flagged ?q" using rest(3) q(1) by simp
    ultimately obtain q' wl' where e: "enqueue_unqueued (spread_list dir g b) ?q rest = Some (q', wl')"
      "length q' = length ?q" "flagged q' = flagged ?q \<union> set (spread_list dir g b)"
      "distinct wl'" "set wl' = flagged q'"
      using enqueue_unqueued_ok rest(1) by blast
    let ?s' = "\<lparr>sresult = stored dir ?r b x ?y, svisited = (svisited s)[b := True], squeued = q',
      sworklist = wl'\<rparr>"
    have "solve_step g dir p b (s\<lparr>sworklist := rest\<rparr>) = Some ?s'"
      using True S(3,4) bn side old pl st v e(1) spread_wf [OF wf bn]
      by (simp add: solve_step_def panic_simps block_fn_def Let_def)
    moreover have "stepped g dir p b s x ?s'"
      using x True e q S(4) by (simp add: stepped_def)
    ultimately show ?thesis using that by blast
  next
    case False
    let ?s' = "\<lparr>sresult = stored dir ?r b x ?y, svisited = (svisited s)[b := True], squeued = ?q,
      sworklist = rest\<rparr>"
    have "solve_step g dir p b (s\<lparr>sworklist := rest\<rparr>) = Some ?s'"
      using False S(3,4) bn side old pl st v
      by (simp add: solve_step_def panic_simps block_fn_def Let_def)
    moreover have "stepped g dir p b s x ?s'"
      using x False q S(4) rest wl by (simp add: stepped_def)
    ultimately show ?thesis using that by blast
  qed
qed

lemma stepped_abs:
  assumes sh: "solver_shape dflt g dir s" and st: "stepped g dir p b s x s'" and b: "b < node_count g"
  shows "V_of s' = insert b (V_of s)"
    and "value_at dir (sresult s') = (value_at dir (sresult s))(b := block_fn g p b x)"
    and "side_at dir (sresult s') = (side_at dir (sresult s))(b := x)"
  using st b solver_shapeD(1-3) [OF sh]
  by (auto simp: stepped_def value_stored side_stored)

lemma stepped_shape:
  assumes wf: "wf_cfg g" and sh: "solver_shape dflt g dir s" and bQ: "b \<in> Q_of s"
    and st: "stepped g dir p b s x s'"
  shows "solver_shape dflt g dir s'"
proof -
  note S = solver_shapeD [OF sh]
  have bn: "b < node_count g" using S(4) flagged_less [OF bQ] by simp
  note A = stepped_abs [OF sh st bn]
  have sp: "c \<in> set (spread_list dir g b) \<longleftrightarrow> (b, c) \<in> flow_edges dir g" for c
    using spread_iff [OF wf bn] .
  have bR: "b \<in> reached dir g" using S(7) bQ by blast
  have Q: "Q_of s - {b} \<subseteq> Q_of s'" "Q_of s' \<subseteq> (Q_of s - {b}) \<union> set (spread_list dir g b)"
    and spQ: "b \<notin> V_of s \<Longrightarrow> set (spread_list dir g b) \<subseteq> Q_of s'"
    using st by (auto simp: stepped_def split: if_splits)
  have "V_of s' \<union> Q_of s' \<subseteq> reached dir g"
  proof -
    have "set (spread_list dir g b) \<subseteq> reached dir g" using sp reached_step [OF bR] by blast
    then show ?thesis using S(7) A(1) Q(2) bR by auto
  qed
  moreover have "direction_root dir g \<in> V_of s' \<union> Q_of s'" using S(8) A(1) Q(1) by blast
  moreover have "c \<in> V_of s' \<union> Q_of s'" if "a \<in> V_of s'" "(a, c) \<in> flow_edges dir g" for a c
  proof (cases "a \<in> V_of s")
    case True
    then show ?thesis using S(9) that(2) A(1) Q(1) by blast
  next
    case False
    then have "a = b" using that(1) A(1) by auto
    then have "c \<in> set (spread_list dir g b)" "b \<notin> V_of s" using sp that(2) False by auto
    then show ?thesis using spQ by auto
  qed
  moreover have "\<exists>n \<in> V_of s'. (n, c) \<in> flow_edges dir g"
    if "c \<in> Q_of s'" "c \<noteq> direction_root dir g" for c
  proof (cases "c \<in> Q_of s")
    case True
    then show ?thesis using S(10) that(2) A(1) by blast
  next
    case False
    then have "(b, c) \<in> flow_edges dir g" using Q(2) that(1) sp by auto
    then show ?thesis using A(1) by auto
  qed
  moreover have "in_facts (sresult s') ! c = dflt \<and> out_facts (sresult s') ! c = dflt"
    if "c < node_count g" "c \<notin> V_of s'" for c
    using that A(1) S(11) [of c] stored_other [of c b dir "sresult s"] st by (simp add: stepped_def)
  ultimately show ?thesis
    using st S(1-4) unfolding solver_shape_def stepped_def by auto
qed

lemma stepped_eqs:
  assumes wf: "wf_cfg g" and sh: "solver_shape dflt g dir s" and eqs: "solver_eqs g dir p s"
    and bQ: "b \<in> Q_of s" and st: "stepped g dir p b s x s'"
  shows "solver_eqs g dir p s'"
proof -
  note S = solver_shapeD [OF sh]
  have bn: "b < node_count g" using S(4) flagged_less [OF bQ] by simp
  note A = stepped_abs [OF sh st bn]
  let ?val = "value_at dir (sresult s)" and ?val' = "value_at dir (sresult s')"
  have x: "inflow g dir p (V_of s) ?val b = Some x" using st by (simp add: stepped_def)
  have old: "inflow g dir p (V_of s) ?val c = Some (side_at dir (sresult s) c)"
    if "c \<in> V_of s" "c \<notin> Q_of s" for c using eqs that by (simp add: solver_eqs_def)
  have Qb: "Q_of s - {b} \<subseteq> Q_of s'" using st by (auto simp: stepped_def split: if_splits)
  have "inflow g dir p (V_of s') ?val' c = Some (side_at dir (sresult s') c)"
    if c: "c \<in> V_of s'" "c \<notin> Q_of s'" for c
  proof -
    have cn: "c < node_count g"
    proof (cases "c = b")
      case False
      then have "c \<in> reached dir g" using c(1) A(1) S(7) by auto
      then show ?thesis by (rule reached_less [OF wf])
    qed (use bn in simp)
    have same: "inflow g dir p (V_of s') ?val' c = inflow g dir p (V_of s) ?val c"
    proof (rule inflow_cong)
      fix n
      assume n: "n \<in> set (reader_list dir g c)"
      show "(n \<in> V_of s' \<longleftrightarrow> n \<in> V_of s) \<and> (n \<in> V_of s' \<longrightarrow> ?val' n = ?val n)"
      proof (cases "n = b")
        case True
        then have "c \<in> set (spread_list dir g b)"
          using n reader_iff [OF wf cn] spread_iff [OF wf bn] by simp
        then have "\<not> (block_fn g p b x \<noteq> ?val b \<or> b \<notin> V_of s)"
          using st c(2) by (auto simp: stepped_def split: if_splits)
        then show ?thesis using True A(1,2) by auto
      qed (use A(1,2) in auto)
    qed
    show ?thesis
    proof (cases "c = b")
      case True
      then show ?thesis using same x A(3) by simp
    next
      case False
      then have "c \<in> V_of s" "c \<notin> Q_of s" using c A(1) Qb by auto
      then show ?thesis using same old A(3) False by simp
    qed
  qed
  then show ?thesis
    using eqs A unfolding solver_eqs_def by auto
qed

text \<open>Partial correctness: whatever the closures are, a returned result solves the equations.\<close>

lemma drained_solution:
  assumes wf: "wf_cfg g" and sh: "solver_shape dflt g dir s" and eqs: "solver_eqs g dir p s"
    and drained: "sworklist s = []"
  shows "solution dflt g dir p (sresult s)"
proof -
  note S = solver_shapeD [OF sh]
  have Q: "Q_of s = {}" using S(6) drained by simp
  have "b \<in> V_of s" if "b \<in> reached dir g" for b
  proof -
    have "(direction_root dir g, b) \<in> (flow_edges dir g)\<^sup>*" using that by (simp add: reached_def)
    then show ?thesis
      by (rule rtrancl_closed) (use S(8,9) Q in auto)
  qed
  then have V: "V_of s = reached dir g" using S(7) by blast
  show ?thesis
    unfolding solution_def using S(1,2,11) eqs Q V by (auto simp: solver_eqs_def)
qed

lemma solve_loop_Nil: "sworklist s = [] \<Longrightarrow> solve_loop g dir p s = Some (sresult s)"
  by (subst solve_loop.simps) simp

lemma solve_loop_Cons:
  "sworklist s = b # rest \<Longrightarrow> solve_loop g dir p s =
     do { s' \<leftarrow> solve_step g dir p b (s\<lparr>sworklist := rest\<rparr>); solve_loop g dir p s' }"
  by (subst solve_loop.simps) simp

lemma solve_loop_solution:
  assumes wf: "wf_cfg g" and r: "solve_loop g dir p s = Some r"
  shows "solver_shape dflt g dir s \<Longrightarrow> solver_eqs g dir p s \<Longrightarrow> solution dflt g dir p r"
  using r
proof (induction g\<equiv>g dir\<equiv>dir p\<equiv>p s r rule: solve_loop.raw_induct [rotated, consumes 1, case_names step])
  case (step loop s r)
  show ?case
  proof (cases "sworklist s")
    case Nil
    then show ?thesis using step.hyps(2) drained_solution [OF wf step.prems Nil] by simp
  next
    case (Cons b rest)
    obtain x s' where s': "solve_step g dir p b (s\<lparr>sworklist := rest\<rparr>) = Some s'"
      "stepped g dir p b s x s'"
      by (rule solve_step_stepped [OF wf step.prems(1) Cons])
    have bQ: "b \<in> Q_of s" using solver_shapeD(6) [OF step.prems(1)] Cons by auto
    show ?thesis
      using step.hyps s'(1) Cons stepped_shape [OF wf step.prems(1) bQ s'(2)]
        stepped_eqs [OF wf step.prems bQ s'(2)] by simp
  qed
qed

definition solver_start :: "'f \<Rightarrow> 'a cfg \<Rightarrow> direction \<Rightarrow> 'f solver_state" where
  "solver_start dflt g dir =
     \<lparr>sresult = \<lparr>in_facts = replicate (node_count g) dflt, out_facts = replicate (node_count g) dflt\<rparr>,
      svisited = replicate (node_count g) False,
      squeued = (replicate (node_count g) False)[direction_root dir g := True],
      sworklist = [direction_root dir g]\<rparr>"

lemma solve_dataflow_start:
  "wf_cfg g \<Longrightarrow> solve_dataflow dflt g dir p = solve_loop g dir p (solver_start dflt g dir)"
  using root_less [of g dir] by (simp add: solve_dataflow_def solver_start_def panic_simps Let_def)

lemma solver_start_inv:
  assumes wf: "wf_cfg g"
  shows "solver_shape dflt g dir (solver_start dflt g dir)"
    and "solver_eqs g dir p (solver_start dflt g dir)"
proof -
  have "direction_root dir g \<in> reached dir g" by (simp add: reached_def)
  then show "solver_shape dflt g dir (solver_start dflt g dir)"
    using root_less [OF wf, of dir] by (simp add: solver_shape_def solver_start_def)
  show "solver_eqs g dir p (solver_start dflt g dir)"
    by (simp add: solver_eqs_def solver_start_def)
qed

lemma solve_solution:
  assumes wf: "wf_cfg g" and "solve_dataflow dflt g dir p = Some r"
  shows "solution dflt g dir p r"
proof (rule solve_loop_solution [OF wf _ solver_start_inv [OF wf]])
  show "solve_loop g dir p (solver_start dflt g dir) = Some r"
    using assms by (simp add: solve_dataflow_start)
qed

subsection \<open>The contract of a fact lattice\<close>

text \<open>
  What the solver needs of the caller's facts: \<open>meet\<close> is the least upper bound of \<open>le\<close>
  (the order in which a solve grows), stays in the carrier of a valid universe \<open>u\<close>, and chains
  in a carrier are bounded by \<open>height u\<close>.
\<close>

locale fact_lattice =
  fixes le :: "'f \<Rightarrow> 'f \<Rightarrow> bool"
    and meet :: "'f \<Rightarrow> 'f \<Rightarrow> 'f"
    and facts :: "'u \<Rightarrow> 'f set"
    and valid :: "'u \<Rightarrow> bool"
    and level :: "'u \<Rightarrow> 'f \<Rightarrow> nat"
    and height :: "'u \<Rightarrow> nat"
  assumes le_refl: "le x x"
    and le_trans: "le x y \<Longrightarrow> le y z \<Longrightarrow> le x z"
    and meet_upper1: "le x (meet x y)"
    and meet_upper2: "le y (meet x y)"
    and meet_least: "le x z \<Longrightarrow> le y z \<Longrightarrow> le (meet x y) z"
    and meet_facts: "valid u \<Longrightarrow> x \<in> facts u \<Longrightarrow> y \<in> facts u \<Longrightarrow> meet x y \<in> facts u"
    and level_less: "valid u \<Longrightarrow> x \<in> facts u \<Longrightarrow> y \<in> facts u \<Longrightarrow> le x y \<Longrightarrow> x \<noteq> y \<Longrightarrow>
      level u x < level u y"
    and level_height: "valid u \<Longrightarrow> x \<in> facts u \<Longrightarrow> level u x \<le> height u"

text \<open>The closures respect the carrier and are monotone.\<close>

definition monotone_problem :: "('f \<Rightarrow> 'f \<Rightarrow> bool) \<Rightarrow> 'f set \<Rightarrow> 'a cfg \<Rightarrow> ('a, 'f) problem \<Rightarrow> bool" where
  "monotone_problem le C g p \<longleftrightarrow> p_boundary p \<in> C \<and>
     (\<forall>b < node_count g. \<forall>x \<in> C. block_fn g p b x \<in> C) \<and>
     (\<forall>b < node_count g. \<forall>x \<in> C. \<forall>y \<in> C. le x y \<longrightarrow> le (block_fn g p b x) (block_fn g p b y))"

text \<open>\<open>T\<close> and \<open>S\<close> satisfy the equations from above.\<close>

definition bounds_above :: "('f \<Rightarrow> 'f \<Rightarrow> bool) \<Rightarrow> 'f set \<Rightarrow> 'a cfg \<Rightarrow> direction \<Rightarrow> ('a, 'f) problem
    \<Rightarrow> (block_id \<Rightarrow> 'f) \<Rightarrow> (block_id \<Rightarrow> 'f) \<Rightarrow> bool" where
  "bounds_above le C g dir p T S \<longleftrightarrow> (\<forall>b \<in> reached dir g. T b \<in> C \<and>
     (b = direction_root dir g \<longrightarrow> le (p_boundary p) (T b)) \<and>
     (b \<noteq> direction_root dir g \<longrightarrow>
        (\<forall>n \<in> reached dir g. (n, b) \<in> flow_edges dir g \<longrightarrow> le (S n) (T b))) \<and>
     le (block_fn g p b (T b)) (S b))"

definition solver_below :: "('f \<Rightarrow> 'f \<Rightarrow> bool) \<Rightarrow> direction \<Rightarrow> (block_id \<Rightarrow> 'f) \<Rightarrow> (block_id \<Rightarrow> 'f)
    \<Rightarrow> 'f solver_state \<Rightarrow> bool" where
  "solver_below le dir T S s \<longleftrightarrow> (\<forall>b \<in> V_of s.
     le (side_at dir (sresult s) b) (T b) \<and> le (value_at dir (sresult s) b) (S b))"

definition solver_grows :: "('f \<Rightarrow> 'f \<Rightarrow> bool) \<Rightarrow> 'f set \<Rightarrow> 'a cfg \<Rightarrow> direction \<Rightarrow> ('a, 'f) problem
    \<Rightarrow> 'f solver_state \<Rightarrow> bool" where
  "solver_grows le C g dir p s \<longleftrightarrow> (\<forall>b \<in> V_of s.
     side_at dir (sresult s) b \<in> C \<and> value_at dir (sresult s) b \<in> C \<and>
     (\<exists>x. inflow g dir p (V_of s) (value_at dir (sresult s)) b = Some x \<and>
        le (side_at dir (sresult s) b) x))"

definition solver_work :: "('f \<Rightarrow> nat) \<Rightarrow> nat \<Rightarrow> 'a cfg \<Rightarrow> direction \<Rightarrow> 'f solver_state \<Rightarrow> nat" where
  "solver_work level h g dir s =
     (\<Sum>b < node_count g. if b \<in> V_of s then h - level (value_at dir (sresult s) b) else Suc h)"

context fact_lattice
begin

lemma foldl_meet:
  assumes "valid u"
  shows "x \<in> facts u \<Longrightarrow> set xs \<subseteq> facts u \<Longrightarrow> foldl meet x xs \<in> facts u \<and>
    (\<forall>y \<in> insert x (set xs). le y (foldl meet x xs)) \<and>
    (\<forall>z. (\<forall>y \<in> insert x (set xs). le y z) \<longrightarrow> le (foldl meet x xs) z)"
proof (induction xs arbitrary: x)
  case Nil
  then show ?case by (simp add: le_refl)
next
  case (Cons y xs)
  have "meet x y \<in> facts u" "set xs \<subseteq> facts u" using Cons.prems meet_facts [OF assms] by auto
  note IH = Cons.IH [OF this]
  let ?m = "foldl meet (meet x y) xs"
  have "le (meet x y) ?m" using IH by blast
  then have "le x ?m" "le y ?m" using le_trans [OF meet_upper1] le_trans [OF meet_upper2] by blast+
  moreover have "le ?m z" if "\<forall>w \<in> insert x (set (y # xs)). le w z" for z
    using IH meet_least [of x z y] that by simp
  ultimately show ?case using IH by simp
qed

lemma meet_all_lub:
  assumes "valid u" and "set xs \<subseteq> facts u" and "meet_all meet xs = Some m"
  shows "m \<in> facts u" and "y \<in> set xs \<Longrightarrow> le y m"
    and "(\<And>y. y \<in> set xs \<Longrightarrow> le y z) \<Longrightarrow> le m z"
  using assms foldl_meet [OF assms(1), of "hd xs" "tl xs"] by (cases xs; auto)+

lemma inflow_facts:
  assumes "valid u" and mp: "monotone_problem le (facts u) g p" and pm: "p_meet p = meet"
    and val: "\<And>n. n \<in> V \<Longrightarrow> val n \<in> facts u" and x: "inflow g dir p V val b = Some x"
  shows "x \<in> facts u"
proof (cases "b = direction_root dir g")
  case True
  then show ?thesis using x mp by (simp add: inflow_def monotone_problem_def)
next
  case False
  then have "meet_all meet (map val (filter (\<lambda>n. n \<in> V) (reader_list dir g b))) = Some x"
    using x pm by (simp add: inflow_def)
  from meet_all_lub(1) [OF assms(1) _ this] val show ?thesis by auto
qed

lemma inflow_mono:
  assumes v: "valid u" and mp: "monotone_problem le (facts u) g p" and pm: "p_meet p = meet"
    and V: "V \<subseteq> V'" and val: "\<And>n. n \<in> V \<Longrightarrow> le (val n) (val' n)"
    and C: "\<And>n. n \<in> V \<Longrightarrow> val n \<in> facts u" "\<And>n. n \<in> V' \<Longrightarrow> val' n \<in> facts u"
    and x: "inflow g dir p V val b = Some x"
  shows "\<exists>y. inflow g dir p V' val' b = Some y \<and> le x y"
proof (cases "b = direction_root dir g")
  case True
  then show ?thesis using x le_refl by (simp add: inflow_def)
next
  case False
  let ?xs = "map val (filter (\<lambda>n. n \<in> V) (reader_list dir g b))"
  let ?ys = "map val' (filter (\<lambda>n. n \<in> V') (reader_list dir g b))"
  have mx: "meet_all meet ?xs = Some x" using x pm False by (simp add: inflow_def)
  then have "?xs \<noteq> []" by (cases ?xs) auto
  then have "?ys \<noteq> []" using V by (auto simp: filter_empty_conv)
  from meet_all_Some [OF this, of meet] obtain y where my: "meet_all meet ?ys = Some y" ..
  have "le x y"
  proof (rule meet_all_lub(3) [OF v _ mx])
    fix z
    assume "z \<in> set ?xs"
    then obtain n where n: "n \<in> V" "n \<in> set (reader_list dir g b)" "z = val n" by auto
    have "set ?ys \<subseteq> facts u" using C(2) by auto
    moreover have "val' n \<in> set ?ys" using n V by auto
    ultimately have "le (val' n) y" using meet_all_lub(2) [OF v _ my] by blast
    then show "le z y" using val [OF n(1)] n(3) le_trans by blast
  qed (use C(1) in auto)
  then show ?thesis using my pm False by (simp add: inflow_def)
qed

lemma grows_step:
  assumes v: "valid u" and mp: "monotone_problem le (facts u) g p" and pm: "p_meet p = meet"
    and wf: "wf_cfg g" and sh: "solver_shape dflt g dir s" and eqs: "solver_eqs g dir p s"
    and gr: "solver_grows le (facts u) g dir p s" and bQ: "b \<in> Q_of s"
    and st: "stepped g dir p b s x s'"
  shows "x \<in> facts u" and "block_fn g p b x \<in> facts u"
    and "b \<in> V_of s \<Longrightarrow> le (value_at dir (sresult s) b) (block_fn g p b x)"
    and "solver_grows le (facts u) g dir p s'"
proof -
  note S = solver_shapeD [OF sh]
  have bn: "b < node_count g" using S(4) flagged_less [OF bQ] by simp
  note A = stepped_abs [OF sh st bn]
  let ?val = "value_at dir (sresult s)" and ?val' = "value_at dir (sresult s')"
  let ?side = "side_at dir (sresult s)" and ?y = "block_fn g p b x"
  have x: "inflow g dir p (V_of s) ?val b = Some x" using st by (simp add: stepped_def)
  have G: "?side n \<in> facts u \<and> ?val n \<in> facts u \<and>
      (\<exists>x. inflow g dir p (V_of s) ?val n = Some x \<and> le (?side n) x)" if "n \<in> V_of s" for n
    using gr that by (simp add: solver_grows_def)
  show xf: "x \<in> facts u" using inflow_facts [OF v mp pm _ x] G by blast
  then show yf: "?y \<in> facts u" using mp bn by (simp add: monotone_problem_def)
  show up: "le (?val b) ?y" if "b \<in> V_of s"
  proof -
    have "le (?side b) x" using G [OF that] x by auto
    moreover have "?val b = block_fn g p b (?side b)" using eqs that by (simp add: solver_eqs_def)
    ultimately show ?thesis using mp bn G [OF that] xf by (simp add: monotone_problem_def)
  qed
  have le': "le (?val n) (?val' n)" if "n \<in> V_of s" for n
    using that up A(2) le_refl by (cases "n = b") auto
  have C': "?val' n \<in> facts u" if "n \<in> V_of s'" for n
    using that yf A(1,2) G by auto
  have sub: "V_of s \<subseteq> V_of s'" using A(1) by blast
  have mono: "\<exists>z. inflow g dir p (V_of s') ?val' c = Some z \<and> le w z"
    if "inflow g dir p (V_of s) ?val c = Some w" for c w
    using inflow_mono [OF v mp pm sub le' _ C' that] G by blast
  show "solver_grows le (facts u) g dir p s'"
    unfolding solver_grows_def
  proof (intro ballI conjI)
    fix c
    assume c: "c \<in> V_of s'"
    show "side_at dir (sresult s') c \<in> facts u" using c A(1,3) xf G by auto
    show "?val' c \<in> facts u" using C' [OF c] .
    show "\<exists>z. inflow g dir p (V_of s') ?val' c = Some z \<and> le (side_at dir (sresult s') c) z"
    proof (cases "c = b")
      case True
      then show ?thesis using mono [OF x] A(3) by simp
    next
      case False
      then obtain w where w: "inflow g dir p (V_of s) ?val c = Some w" "le (?side c) w"
        using G c A(1) by auto
      from mono [OF w(1)] w(2) show ?thesis using False A(3) le_trans by auto
    qed
  qed
qed

lemma work_step:
  assumes v: "valid u" and mp: "monotone_problem le (facts u) g p" and pm: "p_meet p = meet"
    and wf: "wf_cfg g" and sh: "solver_shape dflt g dir s" and eqs: "solver_eqs g dir p s"
    and gr: "solver_grows le (facts u) g dir p s" and bQ: "b \<in> Q_of s"
    and st: "stepped g dir p b s x s'"
  shows "if block_fn g p b x \<noteq> value_at dir (sresult s) b \<or> b \<notin> V_of s
    then solver_work (level u) (height u) g dir s' < solver_work (level u) (height u) g dir s
    else solver_work (level u) (height u) g dir s' = solver_work (level u) (height u) g dir s"
proof -
  note S = solver_shapeD [OF sh]
  have bn: "b < node_count g" using S(4) flagged_less [OF bQ] by simp
  note A = stepped_abs [OF sh st bn] and G = grows_step [OF assms]
  let ?h = "height u" and ?val = "value_at dir (sresult s)" and ?y = "block_fn g p b x"
  let ?w = "\<lambda>V val n. if n \<in> V then ?h - level u (val n) else Suc ?h"
  have other: "?w (V_of s') (value_at dir (sresult s')) n = ?w (V_of s) ?val n" if "n \<noteq> b" for n
    using that A(1,2) by simp
  show ?thesis
  proof (cases "?y \<noteq> ?val b \<or> b \<notin> V_of s")
    case True
    have "?w (V_of s') (value_at dir (sresult s')) b < ?w (V_of s) ?val b"
    proof (cases "b \<in> V_of s")
      case vis: True
      then have "?val b \<in> facts u" using gr by (simp add: solver_grows_def)
      then have "level u (?val b) < level u ?y"
        using level_less [OF v _ G(2) G(3) [OF vis]] True vis by auto
      then show ?thesis
        using level_height [OF v G(2)] vis A(1,2) by simp
    qed (use A(1,2) in auto)
    then have "solver_work (level u) ?h g dir s' < solver_work (level u) ?h g dir s"
      unfolding solver_work_def
    proof (intro sum_strict_mono_ex1 ballI)
      assume less: "?w (V_of s') (value_at dir (sresult s')) b < ?w (V_of s) ?val b"
      show "\<exists>n \<in> {..<node_count g}. ?w (V_of s') (value_at dir (sresult s')) n < ?w (V_of s) ?val n"
        using less bn by blast
      show "?w (V_of s') (value_at dir (sresult s')) n \<le> ?w (V_of s) ?val n" for n
      proof (cases "n = b")
        case True
        show ?thesis unfolding True by (rule less_imp_le [OF less])
      next
        case False
        show ?thesis unfolding other [OF False] by (rule order.refl)
      qed
    qed simp
    then show ?thesis using True by simp
  next
    case False
    then have "?w (V_of s') (value_at dir (sresult s')) n = ?w (V_of s) ?val n" for n
      using A(1,2) by (cases "n = b") auto
    then show ?thesis using False unfolding solver_work_def by simp
  qed
qed

lemma below_step:
  assumes v: "valid u" and mp: "monotone_problem le (facts u) g p" and pm: "p_meet p = meet"
    and wf: "wf_cfg g" and sh: "solver_shape dflt g dir s" and eqs: "solver_eqs g dir p s"
    and gr: "solver_grows le (facts u) g dir p s" and bQ: "b \<in> Q_of s"
    and st: "stepped g dir p b s x s'"
    and up: "bounds_above le (facts u) g dir p T S" and bel: "solver_below le dir T S s"
  shows "solver_below le dir T S s'"
proof -
  note SS = solver_shapeD [OF sh]
  have bn: "b < node_count g" using SS(4) flagged_less [OF bQ] by simp
  note A = stepped_abs [OF sh st bn]
  note G = grows_step [OF v mp pm wf sh eqs gr bQ st]
  have bR: "b \<in> reached dir g" using SS(7) bQ by blast
  have U: "T b \<in> facts u" "b = direction_root dir g \<Longrightarrow> le (p_boundary p) (T b)"
    "\<And>n. b \<noteq> direction_root dir g \<Longrightarrow> n \<in> reached dir g \<Longrightarrow> (n, b) \<in> flow_edges dir g \<Longrightarrow> le (S n) (T b)"
    "le (block_fn g p b (T b)) (S b)"
    using up bR unfolding bounds_above_def by blast+
  have x: "inflow g dir p (V_of s) (value_at dir (sresult s)) b = Some x" using st by (simp add: stepped_def)
  have xT: "le x (T b)"
  proof (cases "b = direction_root dir g")
    case True
    then show ?thesis using x U(2) by (simp add: inflow_def)
  next
    case False
    let ?xs = "map (value_at dir (sresult s)) (filter (\<lambda>n. n \<in> V_of s) (reader_list dir g b))"
    have mx: "meet_all meet ?xs = Some x" using x False pm by (simp add: inflow_def)
    show ?thesis
    proof (rule meet_all_lub(3) [OF v _ mx])
      show "set ?xs \<subseteq> facts u" using gr by (auto simp: solver_grows_def)
      fix y
      assume "y \<in> set ?xs"
      then obtain n where n: "n \<in> V_of s" "n \<in> set (reader_list dir g b)"
        "y = value_at dir (sresult s) n" by auto
      have "(n, b) \<in> flow_edges dir g" using n(2) reader_iff [OF wf bn] by simp
      moreover have "n \<in> reached dir g" using SS(7) n(1) by blast
      ultimately have "le (S n) (T b)" using U(3) False by blast
      moreover have "le y (S n)" using bel n(1,3) by (simp add: solver_below_def)
      ultimately show "le y (T b)" using le_trans by blast
    qed
  qed
  have "le (block_fn g p b x) (block_fn g p b (T b))"
    using mp bn G(1) U(1) xT by (simp add: monotone_problem_def)
  then have "le (block_fn g p b x) (S b)" using U(4) le_trans by blast
  then show ?thesis using bel xT A unfolding solver_below_def by auto
qed

text \<open>The solver returns the least solution.\<close>

lemma solve_loop_total:
  assumes v: "valid u" and mp: "monotone_problem le (facts u) g p" and pm: "p_meet p = meet"
    and wf: "wf_cfg g"
  shows "solver_shape dflt g dir s \<Longrightarrow> solver_eqs g dir p s \<Longrightarrow>
    solver_grows le (facts u) g dir p s \<Longrightarrow>
    \<exists>r. solve_loop g dir p s = Some r \<and>
      (\<forall>T S. bounds_above le (facts u) g dir p T S \<longrightarrow> solver_below le dir T S s \<longrightarrow>
        (\<forall>b \<in> reached dir g. le (side_at dir r b) (T b) \<and> le (value_at dir r b) (S b)))"
proof (induction "solver_work (level u) (height u) g dir s * Suc (node_count g) + length (sworklist s)"
    arbitrary: s rule: less_induct)
  case less
  note sh = less.prems(1) and eqs = less.prems(2) and gr = less.prems(3)
  show ?case
  proof (cases "sworklist s")
    case Nil
    have "\<forall>b \<in> reached dir g. b \<in> V_of s"
    proof
      fix b
      assume "b \<in> reached dir g"
      then have "(direction_root dir g, b) \<in> (flow_edges dir g)\<^sup>*" by (simp add: reached_def)
      then show "b \<in> V_of s"
        by (rule rtrancl_closed) (use solver_shapeD(6,8,9) [OF sh] Nil in auto)
    qed
    then show ?thesis using Nil by (auto simp: solve_loop_Nil solver_below_def)
  next
    case (Cons b rest)
    obtain x s' where s': "solve_step g dir p b (s\<lparr>sworklist := rest\<rparr>) = Some s'"
      and st: "stepped g dir p b s x s'"
      by (rule solve_step_stepped [OF wf sh Cons])
    have bQ: "b \<in> Q_of s" using solver_shapeD(6) [OF sh] Cons by auto
    have sh': "solver_shape dflt g dir s'" by (rule stepped_shape [OF wf sh bQ st])
    note W = work_step [OF v mp pm wf sh eqs gr bQ st]
    have "length (sworklist s') \<le> node_count g"
    proof -
      have "length (sworklist s') = card (Q_of s')"
        using solver_shapeD(5,6) [OF sh'] by (metis distinct_card)
      also have "\<dots> \<le> card {..<node_count g}"
        using solver_shapeD(4) [OF sh'] by (intro card_mono) (auto dest: flagged_less)
      finally show ?thesis by simp
    qed
    then have "solver_work (level u) (height u) g dir s' * Suc (node_count g) + length (sworklist s') <
        solver_work (level u) (height u) g dir s * Suc (node_count g) + length (sworklist s)"
      (is "?w' * ?m + _ < ?w * ?m + _")
    proof (cases "block_fn g p b x \<noteq> value_at dir (sresult s) b \<or> b \<notin> V_of s")
      case True
      then have "Suc ?w' * ?m \<le> ?w * ?m" using W by (intro mult_le_mono1) simp
      then show ?thesis using \<open>length (sworklist s') \<le> node_count g\<close> by simp
    next
      case False
      then have "?w' = ?w" "sworklist s' = tl (sworklist s)"
        using W st by (simp_all add: stepped_def)
      then show ?thesis using Cons by simp
    qed
    from less.hyps [OF this sh' stepped_eqs [OF wf sh eqs bQ st]
        grows_step(4) [OF v mp pm wf sh eqs gr bQ st]]
    obtain r where r: "solve_loop g dir p s' = Some r"
      "\<And>T S. bounds_above le (facts u) g dir p T S \<Longrightarrow> solver_below le dir T S s' \<Longrightarrow>
        \<forall>b \<in> reached dir g. le (side_at dir r b) (T b) \<and> le (value_at dir r b) (S b)" by blast
    have "solve_loop g dir p s = Some r" by (simp add: solve_loop_Cons [OF Cons] s' r(1))
    then show ?thesis
      using r(2) below_step [OF v mp pm wf sh eqs gr bQ st] by blast
  qed
qed

lemma solve_total:
  assumes v: "valid u" and mp: "monotone_problem le (facts u) g p" and pm: "p_meet p = meet"
    and wf: "wf_cfg g"
  obtains r where "solve_dataflow dflt g dir p = Some r" and "solution dflt g dir p r"
    and "\<And>T S b. bounds_above le (facts u) g dir p T S \<Longrightarrow> b \<in> reached dir g \<Longrightarrow>
      le (side_at dir r b) (T b) \<and> le (value_at dir r b) (S b)"
proof -
  let ?s = "solver_start dflt g dir"
  have V: "V_of ?s = {}" by (simp add: solver_start_def)
  have "solver_grows le (facts u) g dir p ?s" by (simp add: solver_grows_def V)
  from solve_loop_total [OF v mp pm wf solver_start_inv [OF wf] this] obtain r where
    r: "solve_loop g dir p ?s = Some r"
    "\<And>T S. bounds_above le (facts u) g dir p T S \<Longrightarrow> solver_below le dir T S ?s \<Longrightarrow>
      \<forall>b \<in> reached dir g. le (side_at dir r b) (T b) \<and> le (value_at dir r b) (S b)" by blast
  have "solve_dataflow dflt g dir p = Some r" by (rule trans [OF solve_dataflow_start [OF wf] r(1)])
  then have "solution dflt g dir p r" by (rule solve_solution [OF wf])
  moreover have "le (side_at dir r b) (T b) \<and> le (value_at dir r b) (S b)"
    if "bounds_above le (facts u) g dir p T S" "b \<in> reached dir g" for T S b
  proof -
    have "solver_below le dir T S ?s" by (simp add: solver_below_def V)
    from r(2) [OF that(1) this] that(2) show ?thesis by blast
  qed
  ultimately show ?thesis using that \<open>solve_dataflow dflt g dir p = Some r\<close> by blast
qed

end

end
