(* ===== verification/Facts.thy ===== *)
theory Facts
  imports Solver
begin

text \<open>
  The fact lattices of \<open>crates/hoonarqube-dataflow/src/facts.rs\<close> and their contract with the
  solver: each \<open>meet\<close> is interpreted as a \<open>fact_lattice\<close>, and gen/kill problems over them
  are shown to compute exactly the facts that arrive along some path. A \<open>BTreeSet\<close> is a set,
  a \<open>BTreeMap\<close> a partial map.
\<close>

subsection \<open>Reaching definitions\<close>

record 'd reaching_facts =
  rdefs :: "'d set"

definition reaching_new :: "'d reaching_facts" where
  "reaching_new = \<lparr>rdefs = {}\<rparr>"

definition reaching_len :: "'d reaching_facts \<Rightarrow> nat" where
  "reaching_len f = card (rdefs f)"

definition reaching_is_empty :: "'d reaching_facts \<Rightarrow> bool" where
  "reaching_is_empty f \<longleftrightarrow> rdefs f = {}"

definition reaching_contains :: "'d reaching_facts \<Rightarrow> 'd \<Rightarrow> bool" where
  "reaching_contains f d \<longleftrightarrow> d \<in> rdefs f"

definition reaching_insert :: "'d reaching_facts \<Rightarrow> 'd \<Rightarrow> bool \<times> 'd reaching_facts" where
  "reaching_insert f d = (d \<notin> rdefs f, f\<lparr>rdefs := insert d (rdefs f)\<rparr>)"

definition reaching_extend :: "'d reaching_facts \<Rightarrow> 'd list \<Rightarrow> 'd reaching_facts" where
  "reaching_extend f ds = f\<lparr>rdefs := rdefs f \<union> set ds\<rparr>"

definition kill_where :: "'d reaching_facts \<Rightarrow> ('d \<Rightarrow> bool) \<Rightarrow> 'd reaching_facts" where
  "kill_where f pred = f\<lparr>rdefs := {d \<in> rdefs f. \<not> pred d}\<rparr>"

definition reaching_union :: "'d reaching_facts \<Rightarrow> 'd reaching_facts \<Rightarrow> 'd reaching_facts" where
  "reaching_union f g = f\<lparr>rdefs := rdefs f \<union> rdefs g\<rparr>"

definition reaching_intersection :: "'d reaching_facts \<Rightarrow> 'd reaching_facts \<Rightarrow> 'd reaching_facts" where
  "reaching_intersection f g = \<lparr>rdefs = rdefs f \<inter> rdefs g\<rparr>"

definition reaching_meet_union :: "'d reaching_facts \<Rightarrow> 'd reaching_facts \<Rightarrow> 'd reaching_facts" where
  "reaching_meet_union l r = reaching_union l r"

definition reaching_meet_intersection ::
  "'d reaching_facts \<Rightarrow> 'd reaching_facts \<Rightarrow> 'd reaching_facts" where
  "reaching_meet_intersection l r = reaching_intersection l r"

subsection \<open>Live variables\<close>

record 'v liveness_facts =
  live_set :: "'v set"

definition liveness_new :: "'v liveness_facts" where
  "liveness_new = \<lparr>live_set = {}\<rparr>"

definition liveness_len :: "'v liveness_facts \<Rightarrow> nat" where
  "liveness_len f = card (live_set f)"

definition liveness_is_empty :: "'v liveness_facts \<Rightarrow> bool" where
  "liveness_is_empty f \<longleftrightarrow> live_set f = {}"

definition liveness_contains :: "'v liveness_facts \<Rightarrow> 'v \<Rightarrow> bool" where
  "liveness_contains f v \<longleftrightarrow> v \<in> live_set f"

definition use_var :: "'v liveness_facts \<Rightarrow> 'v \<Rightarrow> bool \<times> 'v liveness_facts" where
  "use_var f v = (v \<notin> live_set f, f\<lparr>live_set := insert v (live_set f)\<rparr>)"

definition kill_var :: "'v liveness_facts \<Rightarrow> 'v \<Rightarrow> bool \<times> 'v liveness_facts" where
  "kill_var f v = (v \<in> live_set f, f\<lparr>live_set := live_set f - {v}\<rparr>)"

definition extend_live :: "'v liveness_facts \<Rightarrow> 'v list \<Rightarrow> 'v liveness_facts" where
  "extend_live f vs = f\<lparr>live_set := live_set f \<union> set vs\<rparr>"

definition liveness_union :: "'v liveness_facts \<Rightarrow> 'v liveness_facts \<Rightarrow> 'v liveness_facts" where
  "liveness_union f g = f\<lparr>live_set := live_set f \<union> live_set g\<rparr>"

definition liveness_intersection :: "'v liveness_facts \<Rightarrow> 'v liveness_facts \<Rightarrow> 'v liveness_facts" where
  "liveness_intersection f g = \<lparr>live_set = live_set f \<inter> live_set g\<rparr>"

definition liveness_meet_union :: "'v liveness_facts \<Rightarrow> 'v liveness_facts \<Rightarrow> 'v liveness_facts" where
  "liveness_meet_union l r = liveness_union l r"

definition liveness_meet_intersection ::
  "'v liveness_facts \<Rightarrow> 'v liveness_facts \<Rightarrow> 'v liveness_facts" where
  "liveness_meet_intersection l r = liveness_intersection l r"

subsection \<open>Taint\<close>

record ('v, 'o) taint_facts =
  taint_map :: "'v \<Rightarrow> 'o set option"

definition taint_new :: "('v, 'o) taint_facts" where
  "taint_new = \<lparr>taint_map = Map.empty\<rparr>"

definition taint_is_empty :: "('v, 'o) taint_facts \<Rightarrow> bool" where
  "taint_is_empty f \<longleftrightarrow> taint_map f = Map.empty"

definition is_tainted :: "('v, 'o) taint_facts \<Rightarrow> 'v \<Rightarrow> bool" where
  "is_tainted f v \<longleftrightarrow> taint_map f v \<noteq> None"

text \<open>\<open>entry(v).or_default()\<close> is the present set or a new empty one.\<close>

definition or_default :: "'o set option \<Rightarrow> 'o set" where
  "or_default s = (case s of None \<Rightarrow> {} | Some s \<Rightarrow> s)"

definition taint :: "('v, 'o) taint_facts \<Rightarrow> 'v \<Rightarrow> 'o \<Rightarrow> bool \<times> ('v, 'o) taint_facts" where
  "taint f v origin = (let s = or_default (taint_map f v) in
     (origin \<notin> s, f\<lparr>taint_map := (taint_map f)(v \<mapsto> insert origin s)\<rparr>))"

definition taint_clear :: "('v, 'o) taint_facts \<Rightarrow> 'v \<Rightarrow> bool \<times> ('v, 'o) taint_facts" where
  "taint_clear f v = (taint_map f v \<noteq> None, f\<lparr>taint_map := (taint_map f)(v := None)\<rparr>)"

definition taint_origins :: "('v, 'o) taint_facts \<Rightarrow> 'v \<Rightarrow> 'o set" where
  "taint_origins f v = or_default (taint_map f v)"

definition propagate :: "('v, 'o) taint_facts \<Rightarrow> 'v \<Rightarrow> 'v \<Rightarrow> bool \<times> ('v, 'o) taint_facts" where
  "propagate f source target = (case taint_map f source of
     Some origins \<Rightarrow>
       (if taint_map f target = Some origins then (False, f)
        else (True, f\<lparr>taint_map := (taint_map f)(target \<mapsto> origins)\<rparr>))
   | None \<Rightarrow> (taint_map f target \<noteq> None, f\<lparr>taint_map := (taint_map f)(target := None)\<rparr>))"

definition taint_union :: "('v, 'o) taint_facts \<Rightarrow> ('v, 'o) taint_facts \<Rightarrow> ('v, 'o) taint_facts" where
  "taint_union f g = f\<lparr>taint_map := (\<lambda>v. case taint_map g v of
     None \<Rightarrow> taint_map f v
   | Some origins \<Rightarrow> Some (or_default (taint_map f v) \<union> origins))\<rparr>"

definition taint_meet_union :: "('v, 'o) taint_facts \<Rightarrow> ('v, 'o) taint_facts \<Rightarrow> ('v, 'o) taint_facts" where
  "taint_meet_union l r = taint_union l r"

subsection \<open>The lattices\<close>

text \<open>The universe \<open>u\<close> of an interpretation is the finite set of facts of the program.\<close>

definition reaching_le :: "'d reaching_facts \<Rightarrow> 'd reaching_facts \<Rightarrow> bool" where
  "reaching_le f g \<longleftrightarrow> rdefs f \<subseteq> rdefs g"

definition liveness_le :: "'v liveness_facts \<Rightarrow> 'v liveness_facts \<Rightarrow> bool" where
  "liveness_le f g \<longleftrightarrow> live_set f \<subseteq> live_set g"

interpretation reaching_may: fact_lattice reaching_le reaching_meet_union
  "\<lambda>u. {f. rdefs f \<subseteq> u}" finite "\<lambda>u f. card (rdefs f)" card
proof unfold_locales
  fix u :: "'d set" and x y :: "'d reaching_facts"
  assume f: "finite u" "x \<in> {f. rdefs f \<subseteq> u}" "y \<in> {f. rdefs f \<subseteq> u}" "reaching_le x y" "x \<noteq> y"
  then have "rdefs x \<subset> rdefs y" by (auto simp: reaching_le_def)
  then show "card (rdefs x) < card (rdefs y)" using f by (metis finite_subset mem_Collect_eq psubset_card_mono)
qed (auto simp: reaching_le_def reaching_meet_union_def reaching_union_def intro: card_mono)

interpretation reaching_must: fact_lattice "\<lambda>f g. reaching_le g f" reaching_meet_intersection
  "\<lambda>u. {f. rdefs f \<subseteq> u}" finite "\<lambda>u f. card u - card (rdefs f)" card
proof unfold_locales
  fix u :: "'d set" and x y :: "'d reaching_facts"
  assume f: "finite u" "x \<in> {f. rdefs f \<subseteq> u}" "y \<in> {f. rdefs f \<subseteq> u}" "reaching_le y x" "x \<noteq> y"
  then have "rdefs y \<subset> rdefs x" by (auto simp: reaching_le_def)
  moreover have "card (rdefs x) \<le> card u" using f by (auto intro: card_mono)
  ultimately show "card u - card (rdefs x) < card u - card (rdefs y)"
    using f by (metis diff_less_mono2 finite_subset mem_Collect_eq order.strict_trans2 psubset_card_mono)
qed (auto simp: reaching_le_def reaching_meet_intersection_def reaching_intersection_def)

interpretation liveness_may: fact_lattice liveness_le liveness_meet_union
  "\<lambda>u. {f. live_set f \<subseteq> u}" finite "\<lambda>u f. card (live_set f)" card
proof unfold_locales
  fix u :: "'v set" and x y :: "'v liveness_facts"
  assume f: "finite u" "x \<in> {f. live_set f \<subseteq> u}" "y \<in> {f. live_set f \<subseteq> u}" "liveness_le x y" "x \<noteq> y"
  then have "live_set x \<subset> live_set y" by (auto simp: liveness_le_def)
  then show "card (live_set x) < card (live_set y)" using f by (metis finite_subset mem_Collect_eq psubset_card_mono)
qed (auto simp: liveness_le_def liveness_meet_union_def liveness_union_def intro: card_mono)

interpretation liveness_must: fact_lattice "\<lambda>f g. liveness_le g f" liveness_meet_intersection
  "\<lambda>u. {f. live_set f \<subseteq> u}" finite "\<lambda>u f. card u - card (live_set f)" card
proof unfold_locales
  fix u :: "'v set" and x y :: "'v liveness_facts"
  assume f: "finite u" "x \<in> {f. live_set f \<subseteq> u}" "y \<in> {f. live_set f \<subseteq> u}" "liveness_le y x" "x \<noteq> y"
  then have "live_set y \<subset> live_set x" by (auto simp: liveness_le_def)
  moreover have "card (live_set x) \<le> card u" using f by (auto intro: card_mono)
  ultimately show "card u - card (live_set x) < card u - card (live_set y)"
    using f by (metis diff_less_mono2 finite_subset mem_Collect_eq order.strict_trans2 psubset_card_mono)
qed (auto simp: liveness_le_def liveness_meet_intersection_def liveness_intersection_def)

text \<open>
  A taint map made by the operations never keeps a variable with an empty origin set; on such
  maps \<open>is_tainted\<close> says that an origin exists, and equality of maps is equality of the
  tainted pairs.
\<close>

definition taint_pairs :: "('v, 'o) taint_facts \<Rightarrow> ('v \<times> 'o) set" where
  "taint_pairs f = {(v, o'). o' \<in> taint_origins f v}"

definition taint_ok :: "('v, 'o) taint_facts \<Rightarrow> bool" where
  "taint_ok f \<longleftrightarrow> (\<forall>v. taint_map f v \<noteq> Some {})"

definition taint_le :: "('v, 'o) taint_facts \<Rightarrow> ('v, 'o) taint_facts \<Rightarrow> bool" where
  "taint_le f g \<longleftrightarrow> taint_pairs f \<subseteq> taint_pairs g"

lemma taint_pairs_union [simp]: "taint_pairs (taint_union f g) = taint_pairs f \<union> taint_pairs g"
  by (auto simp: taint_pairs_def taint_union_def taint_origins_def or_default_def split: option.splits)

lemma taint_ok_union: "taint_ok f \<Longrightarrow> taint_ok g \<Longrightarrow> taint_ok (taint_union f g)"
  by (auto simp: taint_ok_def taint_union_def or_default_def split: option.splits)

lemma taint_map_pairs:
  assumes "taint_ok f"
  shows "taint_map f v = (if {o'. (v, o') \<in> taint_pairs f} = {} then None
    else Some {o'. (v, o') \<in> taint_pairs f})"
  using assms by (auto simp: taint_pairs_def taint_origins_def or_default_def taint_ok_def split: option.splits)

lemma taint_pairs_inj:
  assumes "taint_ok f" and "taint_ok g" and "taint_pairs f = taint_pairs g"
  shows "f = (g :: ('v, 'o) taint_facts)"
proof -
  have "taint_map f = taint_map g"
  proof
    fix v
    show "taint_map f v = taint_map g v"
      using taint_map_pairs [OF assms(1), of v] taint_map_pairs [OF assms(2), of v] assms(3) by simp
  qed
  then show ?thesis by simp
qed

interpretation taint_may: fact_lattice taint_le taint_meet_union
  "\<lambda>u. {f. taint_ok f \<and> taint_pairs f \<subseteq> u}" finite "\<lambda>u f. card (taint_pairs f)" card
proof unfold_locales
  fix u :: "('v \<times> 'o) set" and x y :: "('v, 'o) taint_facts"
  assume f: "finite u" "x \<in> {f. taint_ok f \<and> taint_pairs f \<subseteq> u}"
    "y \<in> {f. taint_ok f \<and> taint_pairs f \<subseteq> u}" "taint_le x y" "x \<noteq> y"
  then have "taint_pairs x \<subset> taint_pairs y" using taint_pairs_inj by (auto simp: taint_le_def)
  then show "card (taint_pairs x) < card (taint_pairs y)"
    using f by (metis (mono_tags, lifting) finite_subset mem_Collect_eq psubset_card_mono)
qed (auto simp: taint_le_def taint_meet_union_def taint_ok_union intro: card_mono)

subsection \<open>Gen/kill problems\<close>

text \<open>
  \<open>arrives g dir bd gen kill b x\<close>: the fact \<open>x\<close> is in the boundary fact at the root, or is
  generated in a reached block, and travels to \<open>b\<close> along edges without being killed. The
  root keeps the boundary fact only, as the solver re-applies it on every visit.
\<close>

inductive arrives :: "'a cfg \<Rightarrow> direction \<Rightarrow> 'x set \<Rightarrow> ('a \<Rightarrow> 'x set) \<Rightarrow> ('a \<Rightarrow> 'x set)
    \<Rightarrow> block_id \<Rightarrow> 'x \<Rightarrow> bool" for g dir bd gen kill where
  start: "x \<in> bd \<Longrightarrow> arrives g dir bd gen kill (direction_root dir g) x"
| generated: "n \<in> reached dir g \<Longrightarrow> x \<in> gen (payloads g ! n) \<Longrightarrow> (n, b) \<in> flow_edges dir g \<Longrightarrow>
    b \<noteq> direction_root dir g \<Longrightarrow> arrives g dir bd gen kill b x"
| passed: "arrives g dir bd gen kill n x \<Longrightarrow> x \<notin> kill (payloads g ! n) \<Longrightarrow>
    (n, b) \<in> flow_edges dir g \<Longrightarrow> b \<noteq> direction_root dir g \<Longrightarrow> arrives g dir bd gen kill b x"

inductive_cases arrives_elim: "arrives g dir bd gen kill b x"

text \<open>A problem that is gen/kill through a set-valued view of its facts.\<close>

definition gen_kill :: "('f \<Rightarrow> 'x set) \<Rightarrow> 'a cfg \<Rightarrow> ('a, 'f) problem \<Rightarrow> 'x set \<Rightarrow> ('a \<Rightarrow> 'x set)
    \<Rightarrow> ('a \<Rightarrow> 'x set) \<Rightarrow> bool" where
  "gen_kill view g p bd gen kill \<longleftrightarrow> view (p_boundary p) = bd \<and>
     (\<forall>x y. view (p_meet p x y) = view x \<union> view y) \<and>
     (\<forall>b x. view (block_fn g p b x) = (view x - kill (payloads g ! b)) \<union> gen (payloads g ! b))"

lemma view_meet_all:
  assumes "\<And>x y. view (meet x y) = view x \<union> view y" and "meet_all meet xs = Some m"
  shows "view m = (\<Union>x \<in> set xs. view x)"
proof -
  have "view (foldl meet x xs) = view x \<union> (\<Union>y \<in> set xs. view y)" for x xs
    by (induction xs arbitrary: x) (auto simp: assms(1))
  then show ?thesis using assms(2) by (cases xs) auto
qed

text \<open>Every fact that arrives is in every solution.\<close>

lemma arrives_in_solution:
  assumes wf: "wf_cfg g" and gk: "gen_kill view g p bd gen kill" and sol: "solution dflt g dir p r"
  shows "arrives g dir bd gen kill b x \<Longrightarrow> b \<in> reached dir g \<and> x \<in> view (side_at dir r b)"
proof (induction rule: arrives.induct)
  have eq: "inflow g dir p (reached dir g) (value_at dir r) b = Some (side_at dir r b)"
    "value_at dir r b = block_fn g p b (side_at dir r b)" if "b \<in> reached dir g" for b
    using sol that by (simp_all add: solution_def)
  have meet: "view (p_meet p x y) = view x \<union> view y" for x y using gk by (simp add: gen_kill_def)
  have step: "b \<in> reached dir g \<and> x \<in> view (side_at dir r b)"
    if n: "n \<in> reached dir g" "x \<in> view (value_at dir r n)" "(n, b) \<in> flow_edges dir g"
      "b \<noteq> direction_root dir g" for n b x
  proof
    show b: "b \<in> reached dir g" using reached_step n(1,3) by blast
    let ?xs = "map (value_at dir r) (filter (\<lambda>n. n \<in> reached dir g) (reader_list dir g b))"
    have "meet_all (p_meet p) ?xs = Some (side_at dir r b)"
      using eq(1) [OF b] n(4) by (simp add: inflow_def)
    then have "view (side_at dir r b) = (\<Union>y \<in> set ?xs. view y)"
      by (rule view_meet_all [of view, OF meet])
    moreover have "n \<in> set (reader_list dir g b)"
      using reader_iff [OF wf reached_less [OF wf b]] n(3) by blast
    ultimately show "x \<in> view (side_at dir r b)" using n(1,2) by auto
  qed
  {
    case (start x)
    have "direction_root dir g \<in> reached dir g" by (simp add: reached_def)
    then show ?case using eq(1) gk start by (fastforce simp: inflow_def gen_kill_def)
  next
    case (generated n x b)
    then have "x \<in> view (value_at dir r n)" using eq(2) gk by (simp add: gen_kill_def)
    then show ?case using step generated by blast
  next
    case (passed n x b)
    then have "x \<in> view (value_at dir r n)" using eq(2) gk by (simp add: gen_kill_def)
    then show ?case using step passed by blast
  }
qed

text \<open>The facts that arrive bound the equations from above.\<close>

lemma arrives_bounds:
  assumes wf: "wf_cfg g" and gk: "gen_kill view g p bd gen kill"
    and mk: "\<And>X. view (mk X) = X" "\<And>X. X \<subseteq> u \<Longrightarrow> mk X \<in> C"
    and u: "bd \<subseteq> u" "\<And>n. n < node_count g \<Longrightarrow> gen (payloads g ! n) \<subseteq> u"
  shows "bounds_above (\<lambda>x y. view x \<subseteq> view y) C g dir p
    (\<lambda>b. mk {x. arrives g dir bd gen kill b x})
    (\<lambda>b. mk (({x. arrives g dir bd gen kill b x} - kill (payloads g ! b)) \<union> gen (payloads g ! b)))"
proof -
  have "x \<in> u" if "arrives g dir bd gen kill b x" for b x
    using that by induction (use u reached_less [OF wf] in blast)+
  then have "mk {x. arrives g dir bd gen kill b x} \<in> C" for b by (intro mk(2)) auto
  moreover have "view (p_boundary p) \<subseteq> {x. arrives g dir bd gen kill (direction_root dir g) x}"
    using gk by (auto simp: gen_kill_def intro: arrives.start)
  moreover have "({x. arrives g dir bd gen kill n x} - kill (payloads g ! n)) \<union> gen (payloads g ! n)
      \<subseteq> {x. arrives g dir bd gen kill b x}"
    if "n \<in> reached dir g" "(n, b) \<in> flow_edges dir g" "b \<noteq> direction_root dir g" for n b
    using that by (auto intro: arrives.generated arrives.passed)
  moreover have "view (block_fn g p b x) = (view x - kill (payloads g ! b)) \<union> gen (payloads g ! b)"
    for b x using gk by (simp add: gen_kill_def)
  ultimately show ?thesis by (auto simp: bounds_above_def mk(1))
qed

subsection \<open>Concrete problems over the operations of the code\<close>

definition reaching_problem :: "'d reaching_facts \<Rightarrow> ('a \<Rightarrow> 'd list) \<Rightarrow> ('a \<Rightarrow> 'd \<Rightarrow> bool)
    \<Rightarrow> ('a, 'd reaching_facts) problem" where
  "reaching_problem bd gen kill =
     \<lparr>p_boundary = bd, p_meet = reaching_meet_union,
      p_transfer = (\<lambda>f s. reaching_extend (kill_where f (kill s)) (gen s)),
      p_effect = (\<lambda>b f. f)\<rparr>"

definition liveness_problem :: "'v liveness_facts \<Rightarrow> ('a \<Rightarrow> 'v list) \<Rightarrow> ('a \<Rightarrow> 'v list)
    \<Rightarrow> ('a, 'v liveness_facts) problem" where
  "liveness_problem bd uses writes =
     \<lparr>p_boundary = bd, p_meet = liveness_meet_union,
      p_transfer = (\<lambda>f s. extend_live (fold (\<lambda>v f. snd (kill_var f v)) (writes s) f) (uses s)),
      p_effect = (\<lambda>b f. f)\<rparr>"

lemma reaching_gen_kill:
  "gen_kill rdefs g (reaching_problem bd gen kill) (rdefs bd) (\<lambda>s. set (gen s)) (\<lambda>s. Collect (kill s))"
  by (auto simp: gen_kill_def reaching_problem_def reaching_meet_union_def reaching_union_def
      block_fn_def reaching_extend_def kill_where_def)

lemma kill_vars: "live_set (fold (\<lambda>v f. snd (kill_var f v)) vs f) = live_set f - set vs"
  by (induction vs arbitrary: f) (auto simp: kill_var_def)

lemma liveness_gen_kill:
  "gen_kill live_set g (liveness_problem bd uses writes) (live_set bd) (\<lambda>s. set (uses s)) (\<lambda>s. set (writes s))"
  by (auto simp: gen_kill_def liveness_problem_def liveness_meet_union_def liveness_union_def
      block_fn_def extend_live_def kill_vars)

lemma gen_kill_monotone:
  assumes "gen_kill view g p bd gen kill" and "bd \<subseteq> u"
    and "\<And>n. n < node_count g \<Longrightarrow> gen (payloads g ! n) \<subseteq> u"
  shows "monotone_problem (\<lambda>x y. view x \<subseteq> view y) {f. view f \<subseteq> u} g p"
  using assms unfolding gen_kill_def monotone_problem_def by auto

lemma reaching_solve:
  assumes wf: "wf_cfg g" and fin: "finite (rdefs bd)"
  obtains r where "solve_dataflow reaching_new g dir (reaching_problem bd gen kill) = Some r"
    and "solution reaching_new g dir (reaching_problem bd gen kill) r"
    and "\<And>b. b \<in> reached dir g \<Longrightarrow> rdefs (side_at dir r b) =
      {d. arrives g dir (rdefs bd) (\<lambda>s. set (gen s)) (\<lambda>s. Collect (kill s)) b d}"
proof -
  let ?p = "reaching_problem bd gen kill"
  let ?u = "rdefs bd \<union> (\<Union>n < node_count g. set (gen (payloads g ! n)))"
  have u: "finite ?u" "rdefs bd \<subseteq> ?u" "\<And>n. n < node_count g \<Longrightarrow> set (gen (payloads g ! n)) \<subseteq> ?u"
    using fin by auto
  note gk = reaching_gen_kill [of g bd gen kill]
  have le: "reaching_le = (\<lambda>x y. rdefs x \<subseteq> rdefs (y :: 'b reaching_facts))"
    by (intro ext) (simp add: reaching_le_def)
  have mp: "monotone_problem reaching_le {f. rdefs f \<subseteq> ?u} g ?p"
    unfolding le by (rule gen_kill_monotone [OF gk u(2,3)])
  have pm: "p_meet ?p = reaching_meet_union" by (simp add: reaching_problem_def)
  obtain r where r: "solve_dataflow reaching_new g dir ?p = Some r" "solution reaching_new g dir ?p r"
    "\<And>T S b. bounds_above reaching_le {f. rdefs f \<subseteq> ?u} g dir ?p T S \<Longrightarrow> b \<in> reached dir g \<Longrightarrow>
      reaching_le (side_at dir r b) (T b) \<and> reaching_le (value_at dir r b) (S b)"
    using reaching_may.solve_total [OF u(1) mp pm wf] by blast
  have mk: "rdefs (\<lparr>rdefs = X\<rparr>) = X" "X \<subseteq> ?u \<Longrightarrow> \<lparr>rdefs = X\<rparr> \<in> {f. rdefs f \<subseteq> ?u}" for X by simp_all
  have "rdefs (side_at dir r b) =
      {d. arrives g dir (rdefs bd) (\<lambda>s. set (gen s)) (\<lambda>s. Collect (kill s)) b d}"
    if b: "b \<in> reached dir g" for b
  proof
    show "rdefs (side_at dir r b) \<subseteq>
        {d. arrives g dir (rdefs bd) (\<lambda>s. set (gen s)) (\<lambda>s. Collect (kill s)) b d}"
      using r(3) [unfolded le, OF arrives_bounds [OF wf gk mk u(2,3)] b] by simp
    show "{d. arrives g dir (rdefs bd) (\<lambda>s. set (gen s)) (\<lambda>s. Collect (kill s)) b d} \<subseteq>
        rdefs (side_at dir r b)"
      using arrives_in_solution [OF wf gk r(2)] by blast
  qed
  with that r(1,2) show ?thesis by blast
qed

lemma liveness_solve:
  assumes wf: "wf_cfg g" and fin: "finite (live_set bd)"
  obtains r where "solve_dataflow liveness_new g dir (liveness_problem bd uses writes) = Some r"
    and "solution liveness_new g dir (liveness_problem bd uses writes) r"
    and "\<And>b. b \<in> reached dir g \<Longrightarrow> live_set (side_at dir r b) =
      {v. arrives g dir (live_set bd) (\<lambda>s. set (uses s)) (\<lambda>s. set (writes s)) b v}"
proof -
  let ?p = "liveness_problem bd uses writes"
  let ?u = "live_set bd \<union> (\<Union>n < node_count g. set (uses (payloads g ! n)))"
  have u: "finite ?u" "live_set bd \<subseteq> ?u" "\<And>n. n < node_count g \<Longrightarrow> set (uses (payloads g ! n)) \<subseteq> ?u"
    using fin by auto
  note gk = liveness_gen_kill [of g bd uses writes]
  have le: "liveness_le = (\<lambda>x y. live_set x \<subseteq> live_set (y :: 'b liveness_facts))"
    by (intro ext) (simp add: liveness_le_def)
  have mp: "monotone_problem liveness_le {f. live_set f \<subseteq> ?u} g ?p"
    unfolding le by (rule gen_kill_monotone [OF gk u(2,3)])
  have pm: "p_meet ?p = liveness_meet_union" by (simp add: liveness_problem_def)
  obtain r where r: "solve_dataflow liveness_new g dir ?p = Some r" "solution liveness_new g dir ?p r"
    "\<And>T S b. bounds_above liveness_le {f. live_set f \<subseteq> ?u} g dir ?p T S \<Longrightarrow> b \<in> reached dir g \<Longrightarrow>
      liveness_le (side_at dir r b) (T b) \<and> liveness_le (value_at dir r b) (S b)"
    using liveness_may.solve_total [OF u(1) mp pm wf] by blast
  have mk: "live_set (\<lparr>live_set = X\<rparr>) = X"
    "X \<subseteq> ?u \<Longrightarrow> \<lparr>live_set = X\<rparr> \<in> {f. live_set f \<subseteq> ?u}" for X by simp_all
  have "live_set (side_at dir r b) =
      {v. arrives g dir (live_set bd) (\<lambda>s. set (uses s)) (\<lambda>s. set (writes s)) b v}"
    if b: "b \<in> reached dir g" for b
  proof
    show "live_set (side_at dir r b) \<subseteq>
        {v. arrives g dir (live_set bd) (\<lambda>s. set (uses s)) (\<lambda>s. set (writes s)) b v}"
      using r(3) [unfolded le, OF arrives_bounds [OF wf gk mk u(2,3)] b] by simp
    show "{v. arrives g dir (live_set bd) (\<lambda>s. set (uses s)) (\<lambda>s. set (writes s)) b v} \<subseteq>
        live_set (side_at dir r b)"
      using arrives_in_solution [OF wf gk r(2)] by blast
  qed
  with that r(1,2) show ?thesis by blast
qed

subsection \<open>Taint transfers\<close>

text \<open>The three ways the documentation of \<open>TaintFacts\<close> has an adapter model a statement.\<close>

datatype ('v, 'o) taint_op = Source 'v 'o | Assign 'v 'v | Sanitize 'v

fun apply_taint_op :: "('v, 'o) taint_op \<Rightarrow> ('v, 'o) taint_facts \<Rightarrow> ('v, 'o) taint_facts" where
  "apply_taint_op (Source v orig) f = snd (taint f v orig)"
| "apply_taint_op (Assign source target) f = snd (propagate f source target)"
| "apply_taint_op (Sanitize v) f = snd (taint_clear f v)"

lemma taint_pairs_fields:
  "taint_pairs (snd (taint f v orig)) = insert (v, orig) (taint_pairs f)"
  "taint_pairs (snd (taint_clear f v)) = {(w, o') \<in> taint_pairs f. w \<noteq> v}"
  "taint_pairs (snd (propagate f source target)) =
     {(w, o') \<in> taint_pairs f. w \<noteq> target} \<union> {(target, o') | o'. (source, o') \<in> taint_pairs f}"
  by (auto simp: taint_pairs_def taint_origins_def or_default_def taint_def taint_clear_def
      propagate_def Let_def split: option.splits if_splits)

lemma taint_ok_fields:
  assumes "taint_ok f"
  shows "taint_ok (snd (taint f v orig))" and "taint_ok (snd (taint_clear f v))"
    and "taint_ok (snd (propagate f source target))"
  using assms by (auto simp: taint_ok_def taint_def taint_clear_def propagate_def Let_def split: option.splits)

lemma apply_taint_op_ok: "taint_ok f \<Longrightarrow> taint_ok (apply_taint_op t f)"
  by (cases t) (simp_all add: taint_ok_fields)

lemma apply_taint_op_mono:
  "taint_pairs f \<subseteq> taint_pairs g \<Longrightarrow> taint_pairs (apply_taint_op t f) \<subseteq> taint_pairs (apply_taint_op t g)"
  by (cases t) (auto simp: taint_pairs_fields)

fun op_vars :: "('v, 'o) taint_op \<Rightarrow> 'v set" where
  "op_vars (Source v orig) = {v}"
| "op_vars (Assign source target) = {target}"
| "op_vars (Sanitize v) = {}"

fun op_origins :: "('v, 'o) taint_op \<Rightarrow> 'o set" where
  "op_origins (Source v orig) = {orig}"
| "op_origins _ = {}"

lemma apply_taint_op_universe:
  "taint_pairs f \<subseteq> V \<times> W \<Longrightarrow> op_vars t \<subseteq> V \<Longrightarrow> op_origins t \<subseteq> W \<Longrightarrow>
     taint_pairs (apply_taint_op t f) \<subseteq> V \<times> W"
  by (cases t) (auto simp: taint_pairs_fields)

definition taint_problem :: "('v, 'o) taint_facts \<Rightarrow> (('v, 'o) taint_op list, ('v, 'o) taint_facts) problem" where
  "taint_problem bd =
     \<lparr>p_boundary = bd, p_meet = taint_meet_union,
      p_transfer = (\<lambda>f ops. fold apply_taint_op ops f), p_effect = (\<lambda>b f. f)\<rparr>"

lemma taint_ops_ok: "taint_ok f \<Longrightarrow> taint_ok (fold apply_taint_op ops f)"
  by (induction ops arbitrary: f) (simp_all add: apply_taint_op_ok)

lemma taint_ops_mono:
  "taint_pairs f \<subseteq> taint_pairs g \<Longrightarrow>
     taint_pairs (fold apply_taint_op ops f) \<subseteq> taint_pairs (fold apply_taint_op ops g)"
  by (induction ops arbitrary: f g) (simp_all add: apply_taint_op_mono)

lemma taint_ops_universe:
  "taint_pairs f \<subseteq> V \<times> W \<Longrightarrow> (\<Union>t \<in> set ops. op_vars t) \<subseteq> V \<Longrightarrow> (\<Union>t \<in> set ops. op_origins t) \<subseteq> W \<Longrightarrow>
     taint_pairs (fold apply_taint_op ops f) \<subseteq> V \<times> W"
  by (induction ops arbitrary: f) (simp_all add: apply_taint_op_universe)

lemma taint_solve:
  fixes bd :: "('v, 'o) taint_facts" and g :: "('v, 'o) taint_op list cfg"
  assumes wf: "wf_cfg g" and ok: "taint_ok bd" and fin: "finite (taint_pairs bd)"
  obtains r C where "solve_dataflow taint_new g dir (taint_problem bd) = Some r"
    and "solution taint_new g dir (taint_problem bd) r"
    and "\<And>r' b. solution taint_new g dir (taint_problem bd) r' \<Longrightarrow>
      (\<And>b. b \<in> reached dir g \<Longrightarrow> side_at dir r' b \<in> C) \<Longrightarrow> b \<in> reached dir g \<Longrightarrow>
      taint_le (side_at dir r b) (side_at dir r' b)"
    and "C = {f. taint_ok f \<and> taint_pairs f \<subseteq>
      (fst ` taint_pairs bd \<union> (\<Union>n < node_count g. \<Union>t \<in> set (payloads g ! n). op_vars t)) \<times>
      (snd ` taint_pairs bd \<union> (\<Union>n < node_count g. \<Union>t \<in> set (payloads g ! n). op_origins t))}"
proof -
  let ?V = "fst ` taint_pairs bd \<union> (\<Union>n < node_count g. \<Union>t \<in> set (payloads g ! n). op_vars t)"
  let ?W = "snd ` taint_pairs bd \<union> (\<Union>n < node_count g. \<Union>t \<in> set (payloads g ! n). op_origins t)"
  let ?C = "{f. taint_ok f \<and> taint_pairs f \<subseteq> ?V \<times> ?W}" and ?p = "taint_problem bd"
  have "finite (op_vars t)" "finite (op_origins t)" for t :: "('v, 'o) taint_op" by (cases t; simp)+
  then have u: "finite (?V \<times> ?W)" using fin by auto
  have fn: "block_fn g ?p b f = fold apply_taint_op (payloads g ! b) f" for b f
    by (simp add: block_fn_def taint_problem_def)
  have mp: "monotone_problem taint_le ?C g ?p"
    unfolding monotone_problem_def fn
  proof (intro conjI allI impI ballI)
    have "taint_pairs bd \<subseteq> ?V \<times> ?W" by (auto simp: image_iff) force+
    then show "p_boundary ?p \<in> ?C" using ok by (simp add: taint_problem_def)
    fix b x assume "b < node_count g" "x \<in> ?C"
    then show "fold apply_taint_op (payloads g ! b) x \<in> ?C"
      using taint_ops_ok taint_ops_universe [of x ?V ?W "payloads g ! b"] by auto
  qed (simp add: taint_le_def taint_ops_mono)
  have pm: "p_meet ?p = taint_meet_union" by (simp add: taint_problem_def)
  obtain r where r: "solve_dataflow taint_new g dir ?p = Some r" "solution taint_new g dir ?p r"
    "\<And>T S b. bounds_above taint_le ?C g dir ?p T S \<Longrightarrow> b \<in> reached dir g \<Longrightarrow>
      taint_le (side_at dir r b) (T b) \<and> taint_le (value_at dir r b) (S b)"
    using taint_may.solve_total [OF u mp pm wf] by blast
  show ?thesis
  proof (rule that [OF r(1,2) _ refl])
    fix r' b
    assume sol: "solution taint_new g dir ?p r'" and C: "\<And>b. b \<in> reached dir g \<Longrightarrow> side_at dir r' b \<in> ?C"
      and b: "b \<in> reached dir g"
    have "bounds_above taint_le ?C g dir ?p (side_at dir r') (value_at dir r')"
      unfolding bounds_above_def
    proof (intro ballI conjI impI)
      fix c
      assume c: "c \<in> reached dir g"
      show "side_at dir r' c \<in> ?C" using C [OF c] .
      have eq: "inflow g dir ?p (reached dir g) (value_at dir r') c = Some (side_at dir r' c)"
        "value_at dir r' c = block_fn g ?p c (side_at dir r' c)"
        using sol c by (simp_all add: solution_def)
      show "taint_le (block_fn g ?p c (side_at dir r' c)) (value_at dir r' c)"
        using eq(2) by (simp add: taint_le_def)
      show "taint_le (p_boundary ?p) (side_at dir r' c)" if "c = direction_root dir g"
        using eq(1) that by (simp add: inflow_def taint_le_def)
      fix n
      assume n: "c \<noteq> direction_root dir g" "n \<in> reached dir g" "(n, c) \<in> flow_edges dir g"
      have ma: "meet_all taint_meet_union
          (map (value_at dir r') (filter (\<lambda>n. n \<in> reached dir g) (reader_list dir g c))) =
          Some (side_at dir r' c)" using eq(1) n(1) pm by (simp add: inflow_def)
      have "taint_pairs (side_at dir r' c) = (\<Union>f \<in> set (map (value_at dir r')
          (filter (\<lambda>n. n \<in> reached dir g) (reader_list dir g c))). taint_pairs f)"
        by (rule view_meet_all [OF _ ma]) (simp add: taint_meet_union_def)
      moreover have "n \<in> set (reader_list dir g c)"
        using reader_iff [OF wf reached_less [OF wf c]] n(3) by blast
      ultimately show "taint_le (value_at dir r' n) (side_at dir r' c)"
        using n(2) by (auto simp: taint_le_def)
    qed
    from r(3) [OF this b] show "taint_le (side_at dir r b) (side_at dir r' b)" ..
  qed
qed

subsection \<open>Properties\<close>

lemma sample_payloads: "payloads sample_cfg = [0, 1, 2, 3, 4, 5]"
  by (simp add: sample_cfg_def)

text \<open>Whatever the closures are, a result returned by \<open>solve_dataflow\<close> solves the
  dataflow equations: at every block reached from the boundary block the incoming fact is the
  boundary fact or the meet over all reached neighbours, the outgoing fact is the transfer and
  block effect of the incoming one, and blocks never reached keep the default.\<close>

theorem solve_dataflow_solution:
  assumes "wf_cfg g" and "solve_dataflow dflt g dir p = Some r"
  shows "(\<forall>b \<in> reached dir g. inflow g dir p (reached dir g) (value_at dir r) b = Some (side_at dir r b) \<and>
      value_at dir r b = p_effect p b (p_transfer p (side_at dir r b) (payloads g ! b))) \<and>
    (\<forall>b < node_count g. b \<notin> reached dir g \<longrightarrow> in_facts r ! b = dflt \<and> out_facts r ! b = dflt)"
  using solve_solution [OF assms] by (simp add: solution_def block_fn_def)

theorem solve_dataflow_solution_witness:
  "\<exists>r. solve_dataflow reaching_new sample_cfg Forward
      (reaching_problem reaching_new (\<lambda>s. [s]) (\<lambda>s d. d = 3)) = Some r \<and> in_facts r ! 5 = reaching_new"
proof -
  obtain r where r: "solve_dataflow reaching_new sample_cfg Forward
      (reaching_problem reaching_new (\<lambda>s. [s]) (\<lambda>s d. d = 3)) = Some r"
    by (rule reaching_solve [OF wf_sample, of reaching_new Forward "\<lambda>s. [s]" "\<lambda>s d. d = 3"])
      (auto simp: reaching_new_def)
  have "5 \<noteq> b" if "(0, b) \<in> (edges sample_cfg)\<^sup>*" for b
    using that by induction (auto simp: edges_sample)
  then have "5 \<notin> reached Forward sample_cfg"
    by (auto simp: reached_def wf_basic(1) [OF wf_sample])
  then show ?thesis using solve_dataflow_solution [OF wf_sample r] r by simp
qed

text \<open>C14: A forward solve of gen/kill problems over \<open>ReachingFacts\<close> with \<open>meet_union\<close> always
  returns, and the fact flowing into a reached block is exactly the set of definitions that
  arrive there: in the boundary fact, or generated in a reached block, and carried along edges
  without being killed.\<close>

theorem reaching_definitions_exact:
  assumes "wf_cfg g" and "finite (rdefs bd)"
  shows "\<exists>r. solve_dataflow reaching_new g Forward (reaching_problem bd gen kill) = Some r \<and>
    (\<forall>b. (cfg_entry g, b) \<in> (edges g)\<^sup>* \<longrightarrow> rdefs (in_facts r ! b) =
       {d. arrives g Forward (rdefs bd) (\<lambda>s. set (gen s)) (\<lambda>s. Collect (kill s)) b d})"
  by (rule reaching_solve [OF assms, of Forward gen kill]) (auto simp: reached_def)

theorem reaching_definitions_exact_witness:
  "\<exists>r. solve_dataflow reaching_new sample_cfg Forward
      (reaching_problem reaching_new (\<lambda>s. [s]) (\<lambda>s d. d = 3)) = Some r \<and> 0 \<in> rdefs (in_facts r ! 2)"
proof -
  have "arrives sample_cfg Forward (rdefs reaching_new) (\<lambda>s. set [s]) (\<lambda>s. Collect (\<lambda>d. d = 3)) 2 (0 :: nat)"
    by (rule arrives.generated [of 0])
      (simp_all add: reached_def wf_basic(1) [OF wf_sample] edges_sample sample_payloads)
  moreover have "(cfg_entry sample_cfg, 2) \<in> (edges sample_cfg)\<^sup>*"
    by (simp add: wf_basic(1) [OF wf_sample] edges_sample r_into_rtrancl)
  moreover have "finite (rdefs reaching_new)" by (simp add: reaching_new_def)
  ultimately show ?thesis
    using reaching_definitions_exact [OF wf_sample, of reaching_new "\<lambda>s. [s]" "\<lambda>s d. d = 3"] by fastforce
qed

text \<open>A backward solve over \<open>LivenessFacts\<close> always returns, and the fact at the end of a
  block from which the exit is reachable is exactly the set of variables live there: read in
  some block on the way to the exit before any block on the way writes them.\<close>

theorem liveness_exact:
  assumes "wf_cfg g" and "finite (live_set bd)"
  shows "\<exists>r. solve_dataflow liveness_new g Backward (liveness_problem bd uses writes) = Some r \<and>
    (\<forall>b. (b, cfg_exit g) \<in> (edges g)\<^sup>* \<longrightarrow> live_set (out_facts r ! b) =
       {v. arrives g Backward (live_set bd) (\<lambda>s. set (uses s)) (\<lambda>s. set (writes s)) b v})"
  by (rule liveness_solve [OF assms, of Backward uses writes]) (auto simp: reached_def rtrancl_converse)

theorem liveness_exact_witness:
  "\<exists>r. solve_dataflow liveness_new sample_cfg Backward
      (liveness_problem liveness_new (\<lambda>s. [s]) (\<lambda>s. [])) = Some r \<and> 4 \<in> live_set (out_facts r ! 2)"
proof -
  have e: "cfg_exit sample_cfg = 1" by (simp add: sample_cfg_def)
  have p: "(4, 1) \<in> (edges sample_cfg)\<^sup>*" "(2, 1) \<in> (edges sample_cfg)\<^sup>*"
    by (auto simp: edges_sample intro: rtrancl_trans r_into_rtrancl converse_rtrancl_into_rtrancl [of 2 4])
  then have "arrives sample_cfg Backward (live_set liveness_new) (\<lambda>s. set [s]) (\<lambda>s. set []) 2 (4 :: nat)"
    by (intro arrives.generated [of 4])
      (simp_all add: reached_def rtrancl_converse e edges_sample sample_payloads)
  moreover have "finite (live_set liveness_new)" by (simp add: liveness_new_def)
  ultimately show ?thesis
    using liveness_exact [OF wf_sample, of liveness_new "\<lambda>s. [s]" "\<lambda>s. []"] p(2) e by fastforce
qed

text \<open>A must-analysis over \<open>ReachingFacts\<close> with \<open>meet_intersection\<close> and monotone transfers
  within a finite universe always returns, and its facts are the greatest among all those that
  satisfy the equations.\<close>

theorem must_analysis_greatest:
  assumes "finite u" and "monotone_problem (\<lambda>f g. rdefs g \<subseteq> rdefs f) {f. rdefs f \<subseteq> u} g p"
    and "p_meet p = reaching_meet_intersection" and "wf_cfg g"
  shows "\<exists>r. solve_dataflow reaching_new g dir p = Some r \<and> solution reaching_new g dir p r \<and>
    (\<forall>T S. bounds_above (\<lambda>f g. rdefs g \<subseteq> rdefs f) {f. rdefs f \<subseteq> u} g dir p T S \<longrightarrow>
      (\<forall>b \<in> reached dir g. rdefs (T b) \<subseteq> rdefs (side_at dir r b)))"
proof -
  have le: "(\<lambda>f g. rdefs g \<subseteq> rdefs f) = (\<lambda>f g. reaching_le g (f :: 'a reaching_facts))"
    by (intro ext) (simp add: reaching_le_def)
  from reaching_must.solve_total [OF assms(1) assms(2) [unfolded le] assms(3,4)]
  obtain r where "solve_dataflow reaching_new g dir p = Some r" "solution reaching_new g dir p r"
    "\<And>T S b. bounds_above (\<lambda>f g. reaching_le g f) {f. rdefs f \<subseteq> u} g dir p T S \<Longrightarrow> b \<in> reached dir g \<Longrightarrow>
      reaching_le (T b) (side_at dir r b) \<and> reaching_le (S b) (value_at dir r b)" by blast
  then show ?thesis unfolding le by (auto simp: reaching_le_def)
qed

theorem must_analysis_greatest_witness:
  "\<exists>r. solve_dataflow reaching_new sample_cfg Forward
     \<lparr>p_boundary = reaching_new, p_meet = reaching_meet_intersection,
      p_transfer = (\<lambda>f s. reaching_extend f [s]), p_effect = (\<lambda>b f. f)\<rparr> = Some r"
proof -
  let ?p = "\<lparr>p_boundary = reaching_new, p_meet = reaching_meet_intersection,
      p_transfer = (\<lambda>f s. reaching_extend f [s]), p_effect = (\<lambda>b f. f)\<rparr>"
  have "payloads sample_cfg ! b \<in> set (payloads sample_cfg)" if "b < node_count sample_cfg" for b
    using that by (simp add: node_count_def del: sample_count)
  then have "monotone_problem (\<lambda>f g. rdefs g \<subseteq> rdefs f) {f. rdefs f \<subseteq> set (payloads sample_cfg)}
      sample_cfg ?p"
    by (auto simp: monotone_problem_def block_fn_def reaching_extend_def reaching_new_def)
  from must_analysis_greatest [OF _ this _ wf_sample, of Forward] show ?thesis by auto
qed

text \<open>The operations of \<open>TaintFacts\<close> act on the tainted (variable, origin) pairs as
  documented: \<open>taint\<close> adds a pair and reports whether it is new, \<open>clear\<close> removes all pairs of
  a variable, \<open>propagate\<close> replaces the target's origins by the source's and reports a change,
  \<open>union\<close> is the union; and they never leave a variable with an empty origin set, so
  \<open>is_tainted\<close> means that an origin exists.\<close>

theorem taint_operations:
  assumes "taint_ok f" and "taint_ok g"
  shows "taint f v orig = ((v, orig) \<notin> taint_pairs f, snd (taint f v orig)) \<and>
    taint_pairs (snd (taint f v orig)) = insert (v, orig) (taint_pairs f) \<and>
    taint_pairs (snd (taint_clear f v)) = {(w, o') \<in> taint_pairs f. w \<noteq> v} \<and>
    taint_pairs (snd (propagate f s v)) =
      {(w, o') \<in> taint_pairs f. w \<noteq> v} \<union> {(v, o') | o'. (s, o') \<in> taint_pairs f} \<and>
    (fst (propagate f s v) \<longleftrightarrow> snd (propagate f s v) \<noteq> f) \<and>
    taint_pairs (taint_union f g) = taint_pairs f \<union> taint_pairs g \<and>
    (is_tainted f v \<longleftrightarrow> (\<exists>o'. (v, o') \<in> taint_pairs f)) \<and>
    taint_ok (snd (taint f v orig)) \<and> taint_ok (snd (taint_clear f v)) \<and>
    taint_ok (snd (propagate f s v)) \<and> taint_ok (taint_union f g)"
proof -
  have "fst (taint f v orig) \<longleftrightarrow> (v, orig) \<notin> taint_pairs f"
    by (simp add: taint_def taint_pairs_def taint_origins_def Let_def)
  then have "taint f v orig = ((v, orig) \<notin> taint_pairs f, snd (taint f v orig))"
    by (simp add: prod_eq_iff)
  moreover have "is_tainted f v \<longleftrightarrow> (\<exists>o'. (v, o') \<in> taint_pairs f)"
    using assms(1) taint_map_pairs [of f v] by (auto simp: is_tainted_def)
  moreover have "fst (propagate f s v) \<longleftrightarrow> snd (propagate f s v) \<noteq> f"
  proof -
    have "f\<lparr>taint_map := m\<rparr> \<noteq> f \<longleftrightarrow> m \<noteq> taint_map f" for m by (cases f) auto
    then show ?thesis by (auto simp: propagate_def fun_upd_idem_iff split: option.splits)
  qed
  ultimately show ?thesis
    using assms by (simp add: taint_pairs_fields taint_ok_fields taint_ok_union)
qed

theorem taint_operations_witness:
  "taint_pairs (snd (taint taint_new (1 :: nat) (7 :: nat))) = {(1, 7)}"
proof -
  have "taint_ok (taint_new :: (nat, nat) taint_facts)" by (simp add: taint_ok_def taint_new_def)
  moreover have "taint_pairs (taint_new :: (nat, nat) taint_facts) = {}"
    by (simp add: taint_pairs_def taint_new_def taint_origins_def or_default_def)
  ultimately show ?thesis
    using taint_operations [of "taint_new :: (nat, nat) taint_facts" taint_new 1 7] by simp
qed

text \<open>C31: A taint solve over programs of sources, assignments and sanitizers always returns,
  in both directions, with the least solution of the equations: no variable is reported
  tainted unless every solution reports it.\<close>

theorem taint_analysis_least:
  assumes "wf_cfg g" and "taint_ok bd" and "finite (taint_pairs bd)"
  shows "\<exists>r. solve_dataflow taint_new g dir (taint_problem bd) = Some r \<and>
    solution taint_new g dir (taint_problem bd) r \<and>
    (\<forall>r'. solution taint_new g dir (taint_problem bd) r' \<longrightarrow>
      (\<forall>b \<in> reached dir g. taint_ok (side_at dir r' b) \<and> taint_pairs (side_at dir r' b) \<subseteq>
        (fst ` taint_pairs bd \<union> (\<Union>n < node_count g. \<Union>t \<in> set (payloads g ! n). op_vars t)) \<times>
        (snd ` taint_pairs bd \<union> (\<Union>n < node_count g. \<Union>t \<in> set (payloads g ! n). op_origins t))) \<longrightarrow>
      (\<forall>b \<in> reached dir g. taint_pairs (side_at dir r b) \<subseteq> taint_pairs (side_at dir r' b)))"
  by (rule taint_solve [OF assms, of dir]) (auto simp: taint_le_def)

theorem taint_analysis_least_witness:
  "\<exists>r. solve_dataflow taint_new (disconnected [Source (1 :: nat) (7 :: nat)] []) Forward
     (taint_problem taint_new) = Some r"
proof -
  have "taint_ok (taint_new :: (nat, nat) taint_facts)" by (simp add: taint_ok_def taint_new_def)
  moreover have "taint_pairs (taint_new :: (nat, nat) taint_facts) = {}"
    by (simp add: taint_pairs_def taint_new_def taint_origins_def or_default_def)
  ultimately show ?thesis
    using taint_analysis_least [OF wf_disconnected, of taint_new] by (metis finite.emptyI)
qed

end
