(* ===== verification/SourceText.thy ===== *)
theory SourceText
  imports Prelude "HOL-Library.Char_ord"
begin

text \<open>
  Text as the analyzers see it: a \<open>&[u8]\<close> or a \<open>String\<close> is a HOL \<open>string\<close>, one \<open>char\<close>
  per byte. The parts of the standard library the sources rely on are modelled here:
  UTF-8 validity (\<open>str::from_utf8\<close>), character boundaries (\<open>str::is_char_boundary\<close>),
  slicing (\<open>str::get\<close>, and \<open>&s[a..b]\<close>, which panics where \<open>get\<close> returns \<open>None\<close>),
  \<open>char_indices\<close>, \<open>trim().is_empty()\<close> and \<open>eq_ignore_ascii_case\<close>.
\<close>

type_synonym bytes = string

abbreviation byte :: "char \<Rightarrow> nat" where
  "byte c \<equiv> of_char c"

subsection \<open>UTF-8\<close>

definition cont :: "char \<Rightarrow> bool" where
  "cont c \<longleftrightarrow> 128 \<le> byte c \<and> byte c < 192"

definition utf8_width :: "char \<Rightarrow> nat" where
  "utf8_width c = (let b = byte c in
     if b < 128 then 1 else if 194 \<le> b \<and> b < 224 then 2
     else if 224 \<le> b \<and> b < 240 then 3 else if 240 \<le> b \<and> b < 245 then 4 else 0)"

text \<open>The ranges of a second byte that exclude overlong forms, surrogates and values above
  \<open>U+10FFFF\<close>.\<close>

definition second_ok :: "nat \<Rightarrow> nat \<Rightarrow> bool" where
  "second_ok a b =
     (if a = 224 then 160 \<le> b else if a = 237 then b < 160
      else if a = 240 then 144 \<le> b else if a = 244 then b < 144 else True)"

definition scalar :: "bytes \<Rightarrow> bool" where
  "scalar c \<longleftrightarrow> c \<noteq> [] \<and> utf8_width (hd c) = length c \<and> (\<forall>x \<in> set (tl c). cont x) \<and>
     (1 < length c \<longrightarrow> second_ok (byte (hd c)) (byte (c ! 1)))"

function utf8 :: "bytes \<Rightarrow> bool" where
  "utf8 [] = True"
| "utf8 (a # s) =
     (let n = utf8_width a in n \<noteq> 0 \<and> scalar (take n (a # s)) \<and> utf8 (drop (n - 1) s))"
  by pat_completeness auto
termination by (relation "measure length") auto

lemma utf8_width_lead: "utf8_width a \<noteq> 0 \<Longrightarrow> \<not> cont a"
  by (auto simp: utf8_width_def cont_def Let_def split: if_splits)

lemma utf8_width_ascii: "byte a < 128 \<Longrightarrow> utf8_width a = 1"
  by (simp add: utf8_width_def)

lemma scalar_lead: "scalar c \<Longrightarrow> c \<noteq> [] \<and> \<not> cont (hd c) \<and> (\<forall>x \<in> set (tl c). cont x)"
  unfolding scalar_def using utf8_width_lead by fastforce

lemma scalar_ascii [simp]: "byte a < 128 \<Longrightarrow> scalar [a]"
  by (simp add: scalar_def utf8_width_ascii)

text \<open>A string is valid exactly when it is a sequence of encoded characters.\<close>

lemma utf8_chars: "utf8 s \<longleftrightarrow> (\<exists>cs. s = concat cs \<and> (\<forall>c \<in> set cs. scalar c))"
proof
  show "utf8 s \<Longrightarrow> \<exists>cs. s = concat cs \<and> (\<forall>c \<in> set cs. scalar c)"
  proof (induction s rule: utf8.induct)
    case 1
    show ?case by (rule exI [of _ "[]"]) simp
  next
    case (2 a s)
    let ?n = "utf8_width a"
    from 2 obtain cs where cs: "drop (?n - 1) s = concat cs" "\<forall>c \<in> set cs. scalar c"
      by (auto simp: Let_def)
    from 2(2) have n: "?n \<noteq> 0" "scalar (take ?n (a # s))" by (auto simp: Let_def)
    then have "a # s = concat (take ?n (a # s) # cs)"
      using cs(1) append_take_drop_id [of ?n "a # s"]
      by (simp add: take_Cons' drop_Cons' del: append_take_drop_id)
    with n(2) cs(2) show ?case by (intro exI [of _ "take ?n (a # s) # cs"]) simp
  qed
next
  have step: "utf8 (c @ t)" if "scalar c" "utf8 t" for c t
  proof -
    from that(1) obtain a d where c: "c = a # d" "utf8_width a = length c"
      by (cases c) (auto simp: scalar_def)
    then show ?thesis using that by (simp add: Let_def)
  qed
  have "utf8 (concat cs)" if "\<forall>c \<in> set cs. scalar c" for cs
    using that by (induction cs) (auto intro: step)
  then show "\<exists>cs. s = concat cs \<and> (\<forall>c \<in> set cs. scalar c) \<Longrightarrow> utf8 s" by blast
qed

lemma utf8_append [intro]: "utf8 s \<Longrightarrow> utf8 t \<Longrightarrow> utf8 (s @ t)"
  by (metis utf8_chars concat_append Un_iff set_append)

lemma utf8_ascii: "(\<forall>c \<in> set s. byte c < 128) \<Longrightarrow> utf8 s"
proof (induction s)
  case (Cons a s)
  then have "utf8 ([a] @ s)"
    by (intro utf8_append) (auto simp: Let_def utf8_width_ascii)
  then show ?case by simp
qed simp

subsection \<open>Character boundaries and slices\<close>

definition boundary :: "bytes \<Rightarrow> nat \<Rightarrow> bool" where
  "boundary s i \<longleftrightarrow> i = 0 \<or> i = length s \<or> (i < length s \<and> \<not> cont (s ! i))"

definition byte_slice :: "bytes \<Rightarrow> nat \<Rightarrow> nat \<Rightarrow> bytes option" where
  "byte_slice s a b = (if a \<le> b \<and> b \<le> length s then Some (drop a (take b s)) else None)"

definition str_slice :: "bytes \<Rightarrow> nat \<Rightarrow> nat \<Rightarrow> bytes option" where
  "str_slice s a b =
     (if a \<le> b \<and> b \<le> length s \<and> boundary s a \<and> boundary s b then Some (drop a (take b s)) else None)"

definition char_indices :: "bytes \<Rightarrow> nat list" where
  "char_indices s = filter (\<lambda>i. \<not> cont (s ! i)) [0..<length s]"

lemma boundary_0 [simp]: "boundary s 0"
  and boundary_length [simp]: "boundary s (length s)"
  by (simp_all add: boundary_def)

lemma boundary_le: "boundary s i \<Longrightarrow> i \<le> length s"
  by (auto simp: boundary_def)

lemma boundary_split:
  assumes "\<forall>c \<in> set cs. scalar c" and "boundary (concat cs) i"
  shows "\<exists>n \<le> length cs. length (concat (take n cs)) = i"
  using assms
proof (induction cs arbitrary: i)
  case Nil
  then show ?case by (auto simp: boundary_def)
next
  case (Cons c cs)
  note c = scalar_lead [of c]
  consider "i = 0" | "0 < i" "i < length c" | "length c \<le> i" by linarith
  then show ?case
  proof cases
    case 1
    then show ?thesis by (intro exI [of _ 0]) simp
  next
    case 2
    have "c ! i \<in> set (tl c)"
      using 2 by (cases c) (auto simp: nth_Cons')
    then have "cont (concat (c # cs) ! i)" using 2 c Cons.prems(1) by (simp add: nth_append)
    with 2 Cons.prems(2) show ?thesis by (auto simp: boundary_def)
  next
    case 3
    then have "boundary (concat cs) (i - length c)"
      using Cons.prems(2) by (auto simp: boundary_def nth_append)
    with Cons obtain n where "n \<le> length cs" "length (concat (take n cs)) = i - length c" by auto
    with 3 show ?thesis by (intro exI [of _ "Suc n"]) simp
  qed
qed

lemma utf8_cut:
  assumes "utf8 s" and "boundary s i"
  shows "utf8 (take i s)" and "utf8 (drop i s)"
proof -
  from assms(1) obtain cs where cs: "s = concat cs" "\<forall>c \<in> set cs. scalar c" by (auto simp: utf8_chars)
  with assms(2) obtain n where n: "length (concat (take n cs)) = i" by (auto dest: boundary_split)
  have s: "s = concat (take n cs) @ concat (drop n cs)"
    by (simp add: cs(1) flip: concat_append)
  then have "take i s = concat (take n cs)" "drop i s = concat (drop n cs)" using n by simp_all
  with cs(2) show "utf8 (take i s)" "utf8 (drop i s)"
    by (auto simp: utf8_chars dest: in_set_takeD in_set_dropD)
qed

lemma boundary_drop: "boundary s i \<Longrightarrow> boundary s j \<Longrightarrow> i \<le> j \<Longrightarrow> boundary (drop i s) (j - i)"
  by (auto simp: boundary_def)

lemma boundary_take: "boundary s i \<Longrightarrow> i \<le> j \<Longrightarrow> boundary (take j s) i"
  by (auto simp: boundary_def)

lemma str_slice_Some:
  "a \<le> b \<Longrightarrow> boundary s a \<Longrightarrow> boundary s b \<Longrightarrow> str_slice s a b = Some (drop a (take b s))"
  by (simp add: str_slice_def boundary_le)

lemma utf8_slice: "utf8 s \<Longrightarrow> str_slice s a b = Some t \<Longrightarrow> utf8 t"
  by (auto simp: str_slice_def split: if_splits intro!: utf8_cut boundary_take)

text \<open>The byte after an ASCII byte starts a character.\<close>

lemma boundary_after_ascii:
  assumes "utf8 s" and "i < length s" and "byte (s ! i) < 128"
  shows "boundary s (Suc i)" and "boundary s i"
proof -
  have "\<not> cont (concat cs ! Suc i)"
    if "\<forall>c \<in> set cs. scalar c" "Suc i < length (concat cs)" "byte (concat cs ! i) < 128" for cs
    using that
  proof (induction cs arbitrary: i)
    case (Cons c cs)
    note c = scalar_lead [of c]
    show ?case
    proof (cases "i < length c")
      case True
      have "i = 0"
      proof (rule ccontr)
        assume "i \<noteq> 0"
        then have "c ! i \<in> set (tl c)" using True by (cases c) (auto simp: nth_Cons')
        then have "cont (c ! i)" using c Cons.prems(1) by simp
        with True Cons.prems(3) show False by (simp add: nth_append cont_def)
      qed
      with True Cons.prems(1,3) have "length c = 1"
        by (cases c) (auto simp: scalar_def nth_append utf8_width_ascii)
      then have s: "concat (c # cs) ! Suc i = concat cs ! 0" "concat cs \<noteq> []"
        using Cons.prems(2) \<open>i = 0\<close> by (auto simp: nth_append)
      then obtain d ds where ds: "cs = d # ds" by (cases cs) auto
      with Cons.prems(1) scalar_lead [of d] have "\<not> cont (d ! 0)" "d \<noteq> []" by (auto simp: hd_conv_nth)
      with s ds show ?thesis by (simp add: nth_append)
    next
      case False
      with Cons.prems Cons.IH [of "i - length c"] show ?thesis
        by (simp add: nth_append Suc_diff_le split: if_splits)
    qed
  qed simp
  with assms show "boundary s (Suc i)"
    by (auto simp: utf8_chars boundary_def)
  show "boundary s i" using assms by (auto simp: boundary_def cont_def)
qed

lemma char_indices_iff: "i \<in> set (char_indices s) \<longleftrightarrow> i < length s \<and> \<not> cont (s ! i)"
  by (auto simp: char_indices_def)

lemma char_indices_sorted [simp]: "sorted_wrt (<) (char_indices s)"
  by (simp add: char_indices_def strict_sorted_iff sorted_wrt_filter flip: strict_sorted_iff)

lemma char_indices_boundary: "i \<in> set (char_indices s) \<Longrightarrow> boundary s i"
  by (auto simp: char_indices_iff boundary_def)

lemma char_indices_ascii: "(\<forall>c \<in> set s. byte c < 128) \<Longrightarrow> char_indices s = [0..<length s]"
  by (auto simp: char_indices_def cont_def intro!: filter_True) (meson not_less nth_mem)

text \<open>On valid text the indices are the offsets at which the decoded characters start.\<close>

lemma char_indices_chars:
  assumes "\<forall>c \<in> set cs. scalar c"
  shows "char_indices (concat cs) = map (\<lambda>n. length (concat (take n cs))) [0..<length cs]"
proof (rule sorted_distinct_set_unique)
  show "sorted (char_indices (concat cs))" "distinct (char_indices (concat cs))"
    using char_indices_sorted [of "concat cs"] by (simp_all add: strict_sorted_iff)
  have mono: "length (concat (take m cs)) < length (concat (take n cs))" if "m < n" "n \<le> length cs" for m n
    using that
  proof (induction n)
    case (Suc n)
    then have "cs ! n \<noteq> []" using assms scalar_lead by (metis Suc_le_lessD nth_mem)
    with Suc show ?case by (cases "m = n") (auto simp: take_Suc_conv_app_nth)
  qed simp
  then have "sorted_wrt (<) (map (\<lambda>n. length (concat (take n cs))) [0..<length cs])"
    by (auto simp: sorted_wrt_iff_nth_less)
  then show "sorted (map (\<lambda>n. length (concat (take n cs))) [0..<length cs])"
    "distinct (map (\<lambda>n. length (concat (take n cs))) [0..<length cs])"
    by (simp_all add: strict_sorted_iff)
  have "\<exists>n < length cs. length (concat (take n cs)) = i" if "i < length (concat cs)" "\<not> cont (concat cs ! i)" for i
  proof -
    from that have "boundary (concat cs) i" by (simp add: boundary_def)
    with assms obtain n where n: "n \<le> length cs" "length (concat (take n cs)) = i"
      by (auto dest: boundary_split)
    with that(1) have "n \<noteq> length cs" by auto
    with n show ?thesis by (intro exI [of _ n]) simp
  qed
  moreover have "length (concat (take n cs)) < length (concat cs) \<and> \<not> cont (concat cs ! length (concat (take n cs)))"
    if "n < length cs" for n
  proof -
    from that have d: "concat cs = concat (take n cs) @ cs ! n @ concat (drop (Suc n) cs)"
      by (metis concat.simps(2) concat_append id_take_nth_drop)
    from that assms scalar_lead have "cs ! n \<noteq> [] \<and> \<not> cont (hd (cs ! n))" by (metis nth_mem)
    then have "length (concat (take n cs)) < length (concat (take n cs) @ cs ! n @ concat (drop (Suc n) cs)) \<and>
        \<not> cont ((concat (take n cs) @ cs ! n @ concat (drop (Suc n) cs)) ! length (concat (take n cs)))"
      by (auto simp: nth_append hd_conv_nth)
    then show ?thesis unfolding d [symmetric] .
  qed
  ultimately show "set (char_indices (concat cs)) = set (map (\<lambda>n. length (concat (take n cs))) [0..<length cs])"
    unfolding set_map set_upt set_eq_iff char_indices_iff image_iff by (metis atLeastLessThan_iff le0)
qed

subsection \<open>Columns\<close>

text \<open>The offsets that columns of a line address: its characters' starts and its end.\<close>

definition columns :: "bytes \<Rightarrow> nat list" where
  "columns t = char_indices t @ [length t]"

lemma columns_sorted: "sorted_wrt (<) (columns t)"
  by (auto simp: columns_def sorted_wrt_append char_indices_iff)

lemma columns_le: "c < length (columns t) \<Longrightarrow> columns t ! c \<le> length t"
  by (metis columns_def char_indices_iff in_set_conv_nth nth_append_length nth_mem set_append Un_iff
      empty_iff insert_iff list.set less_imp_le order_refl)

lemma columns_boundary: "c < length (columns t) \<Longrightarrow> boundary t (columns t ! c)"
proof -
  assume "c < length (columns t)"
  then have "columns t ! c \<in> set (char_indices t) \<union> {length t}"
    using nth_mem [of c "columns t"] by (simp add: columns_def)
  then show ?thesis by (auto simp: char_indices_boundary)
qed

lemma columns_ascii: "\<forall>c \<in> set t. byte c < 128 \<Longrightarrow> columns t = [0..<Suc (length t)]"
  by (simp add: columns_def char_indices_ascii)

text \<open>The offset after a character is a boundary.\<close>

lemma boundary_next:
  assumes "utf8 s" and "boundary s i" and "i < length s"
  shows "boundary s (i + utf8_width (s ! i))" and "0 < utf8_width (s ! i)"
    and "i + utf8_width (s ! i) \<le> length s"
proof -
  from assms(1) obtain cs where cs: "s = concat cs" "\<forall>c \<in> set cs. scalar c" by (auto simp: utf8_chars)
  with assms(2) obtain n where n: "n \<le> length cs" "length (concat (take n cs)) = i"
    by (auto dest: boundary_split)
  have "n < length cs" using n assms(3) cs(1) by (cases "n = length cs") auto
  then have d: "s = concat (take n cs) @ cs ! n @ concat (drop (Suc n) cs)"
    unfolding cs(1) by (metis concat.simps(2) concat_append id_take_nth_drop)
  have c: "scalar (cs ! n)" using cs(2) \<open>n < length cs\<close> by simp
  then have w: "utf8_width (s ! i) = length (cs ! n)" "cs ! n \<noteq> []"
    using n(2) by (auto simp: d nth_append scalar_def hd_conv_nth)
  then show "0 < utf8_width (s ! i)" by simp
  have "length s = i + (length (cs ! n) + length (concat (drop (Suc n) cs)))"
    unfolding n(2) [symmetric] by (subst d) simp
  then show "i + utf8_width (s ! i) \<le> length s" using w(1) by simp
  have r: "drop (i + length (cs ! n)) s = concat (drop (Suc n) cs)"
    by (subst d) (simp add: n(2))
  have "boundary s (i + length (cs ! n))"
  proof (cases "drop (Suc n) cs")
    case Nil
    then have "i + length (cs ! n) = length s" using r \<open>i + utf8_width (s ! i) \<le> length s\<close> w(1) by simp
    then show ?thesis by (simp add: boundary_def)
  next
    case (Cons c' rest)
    then have c': "scalar c'" using cs(2) by (metis in_set_dropD list.set_intros(1))
    then have "concat (drop (Suc n) cs) \<noteq> []" "\<not> cont (concat (drop (Suc n) cs) ! 0)"
      using Cons scalar_lead [OF c'] by (auto simp: nth_append hd_conv_nth)
    then show ?thesis unfolding r [symmetric] by (auto simp: boundary_def)
  qed
  then show "boundary s (i + utf8_width (s ! i))" using w by simp
qed

subsection \<open>Trimming and case\<close>

text \<open>\<open>s.trim().is_empty()\<close>: every character is Unicode white space, spelled in UTF-8.\<close>

fun is_blank :: "bytes \<Rightarrow> bool" where
  "is_blank [] = True"
| "is_blank (a # s) =
     (if (9 \<le> byte a \<and> byte a \<le> 13) \<or> byte a = 32 then is_blank s
      else if byte a = 194 then
        (case s of b # t \<Rightarrow> (byte b = 133 \<or> byte b = 160) \<and> is_blank t | [] \<Rightarrow> False)
      else if byte a = 225 then
        (case s of b # c # t \<Rightarrow> byte b = 154 \<and> byte c = 128 \<and> is_blank t | _ \<Rightarrow> False)
      else if byte a = 226 then
        (case s of b # c # t \<Rightarrow>
           (byte b = 128 \<and> (128 \<le> byte c \<and> byte c \<le> 138 \<or> byte c \<in> {168, 169, 175}) \<or>
            byte b = 129 \<and> byte c = 159) \<and> is_blank t | _ \<Rightarrow> False)
      else if byte a = 227 then
        (case s of b # c # t \<Rightarrow> byte b = 128 \<and> byte c = 128 \<and> is_blank t | _ \<Rightarrow> False)
      else False)"

definition ascii_lower :: "char \<Rightarrow> char" where
  "ascii_lower c = (if 65 \<le> byte c \<and> byte c \<le> 90 then char_of (byte c + 32) else c)"

definition eq_ignore_ascii_case :: "bytes \<Rightarrow> bytes \<Rightarrow> bool" where
  "eq_ignore_ascii_case s t \<longleftrightarrow> map ascii_lower s = map ascii_lower t"

end
