(* ===== verification/Findings.thy ===== *)
theory Findings
  imports SourceText "HOL-Library.Word" "HOL-Library.Product_Lexorder" "HOL-Library.List_Lexorder"
begin

text \<open>
  The findings representation of \<open>crates/hoonarqube-ir/src/lib.rs\<close>: positions, ranges,
  text edits, quick fixes and issues with the checks of their constructors and
  deserializers, and \<open>apply_fixes\<close>, the edit engine. \<open>u32\<close> and \<open>u64\<close> values are words;
  offsets and indices (\<open>usize\<close>) are natural numbers. A constructor that panics returns
  \<open>None\<close>; a deserializer is a function from the raw representation that serde produced to
  an error or a value.
\<close>

type_synonym u32 = "32 word"
type_synonym u64 = "64 word"

subsection \<open>Positions and ranges\<close>

datatype pos = Pos (line: u32) (column: u32)

text \<open>The derived order of \<open>Pos\<close> is lexicographic.\<close>

instantiation pos :: linorder
begin

definition less_eq_pos :: "pos \<Rightarrow> pos \<Rightarrow> bool" where
  "less_eq_pos p q \<longleftrightarrow> line p < line q \<or> line p = line q \<and> column p \<le> column q"

definition less_pos :: "pos \<Rightarrow> pos \<Rightarrow> bool" where
  "less_pos p q \<longleftrightarrow> line p < line q \<or> line p = line q \<and> column p < column q"

instance
  by standard (auto simp: less_eq_pos_def less_pos_def pos.expand)

end

definition u32_saturating :: "nat \<Rightarrow> u32" where
  "u32_saturating n = (if n < 2 ^ 32 then of_nat n else - 1)"

record text_range =
  range_start :: pos
  range_end :: pos

definition file_level :: text_range where
  "file_level = \<lparr>range_start = Pos 0 0, range_end = Pos 0 0\<rparr>"

definition is_file_level :: "text_range \<Rightarrow> bool" where
  "is_file_level r \<longleftrightarrow> line (range_start r) = 0 \<and> column (range_start r) = 0 \<and>
     line (range_end r) = 0 \<and> column (range_end r) = 0"

datatype de_error =
    ZeroLine | InvertedSpan | EmptyFix | FileLevelEdit | UnsortedEdits | OverlappingEdits
  | EmptyAlternativeId | EmptyFlow | DuplicateAlternative string

text \<open>A \<open>PosRepr\<close> and a \<open>RangeRepr\<close> carry the same fields, unchecked.\<close>

definition valid_pos :: "pos \<Rightarrow> de_error + pos" where
  "valid_pos p = and_then (check (line p \<noteq> 0) ZeroLine) (\<lambda>_. Inr p)"

definition deserialize_range :: "text_range \<Rightarrow> de_error + text_range" where
  "deserialize_range raw =
     (let file = line (range_start raw) = 0 \<and> column (range_start raw) = 0 \<and>
        line (range_end raw) = 0 \<and> column (range_end raw) = 0 in
      and_then (if file then Inr (Pos 0 0) else valid_pos (range_start raw)) (\<lambda>s.
      and_then (if file then Inr (Pos 0 0) else valid_pos (range_end raw)) (\<lambda>e.
      and_then (check (\<not> s > e) InvertedSpan) (\<lambda>_.
      Inr \<lparr>range_start = s, range_end = e\<rparr>))))"

subsection \<open>Text edits\<close>

record text_edit =
  edit_range :: text_range
  replacement :: bytes

abbreviation edit_start :: "text_edit \<Rightarrow> pos" where
  "edit_start e \<equiv> range_start (edit_range e)"

abbreviation edit_end :: "text_edit \<Rightarrow> pos" where
  "edit_end e \<equiv> range_end (edit_range e)"

definition overlaps :: "text_edit \<Rightarrow> text_edit \<Rightarrow> bool" where
  "overlaps a b \<longleftrightarrow>
     (let shared_start = max (edit_start a) (edit_start b);
          shared_end = min (edit_end a) (edit_end b) in
      if shared_start < shared_end then True else
        (edit_start a = edit_end a \<and> edit_start a \<ge> edit_start b \<and> edit_start a < edit_end b) \<or>
        (edit_start b = edit_end b \<and> edit_start b \<ge> edit_start a \<and> edit_start b < edit_end a) \<or>
        (edit_start a = edit_end a \<and> edit_start b = edit_end b \<and> edit_start a = edit_start b))"

text \<open>Two edits are apart when one ends before the other, which it precedes, starts. On
  ordered ranges this is the complement of \<open>overlaps\<close>.\<close>

definition before :: "text_edit \<Rightarrow> text_edit \<Rightarrow> bool" where
  "before a b \<longleftrightarrow> edit_end a \<le> edit_start b \<and> edit_start a < edit_start b"

definition ordered :: "text_edit \<Rightarrow> bool" where
  "ordered e \<longleftrightarrow> edit_start e \<le> edit_end e"

lemma overlaps_sym: "overlaps a b = overlaps b a"
  by (auto simp: overlaps_def Let_def max.commute min.commute)

lemma interval_cases:
  fixes p q r s :: "'a :: linorder"
  assumes "p \<le> q" and "r \<le> s"
  shows "(p < q \<and> r < q \<and> p < s \<and> r < s) \<or> p = q \<and> r \<le> p \<and> p < s \<or>
      r = s \<and> p \<le> r \<and> r < q \<or> p = q \<and> r = s \<and> p = r \<longleftrightarrow>
    \<not> (q \<le> r \<and> p < r) \<and> \<not> (s \<le> p \<and> r < p)"
  using assms by (cases p r rule: linorder_cases) (auto simp: not_le not_less le_less)

lemma if_True_or: "(if c then True else d) \<longleftrightarrow> c \<or> d"
  by simp

lemma overlaps_iff:
  assumes "ordered a" and "ordered b"
  shows "overlaps a b \<longleftrightarrow> \<not> before a b \<and> \<not> before b a"
  unfolding overlaps_def before_def Let_def if_True_or max_less_iff_conj min_less_iff_conj conj_assoc
  by (rule interval_cases [OF assms [unfolded ordered_def]])

subsection \<open>Quick fixes\<close>

record quick_fix =
  fix_message :: string
  edits :: "text_edit list"

text \<open>The pairs that \<open>windows(2)\<close> visits.\<close>

fun windows2 :: "'a list \<Rightarrow> ('a \<times> 'a) list" where
  "windows2 (x # y # zs) = (x, y) # windows2 (y # zs)"
| "windows2 _ = []"

definition validate_fix_edits :: "text_edit list \<Rightarrow> text_edit list option" where
  "validate_fix_edits es = do {
     require (es \<noteq> []);
     require (\<forall>e \<in> set es. (line (edit_start e), column (edit_start e)) \<le> (line (edit_end e), column (edit_end e)));
     let es = sort_key edit_start es;
     require (\<forall>(a, b) \<in> set (windows2 es). \<not> overlaps a b);
     Some es }"

definition fix_new :: "string \<Rightarrow> text_edit list \<Rightarrow> quick_fix option" where
  "fix_new message es = do {
     es \<leftarrow> validate_fix_edits es;
     Some \<lparr>fix_message = message, edits = es\<rparr> }"

definition deserialize_fix :: "quick_fix \<Rightarrow> de_error + quick_fix" where
  "deserialize_fix raw =
     and_then (check (edits raw \<noteq> []) EmptyFix) (\<lambda>_.
     and_then (try_all (\<lambda>e. check (\<not> is_file_level (edit_range e)) FileLevelEdit) (edits raw)) (\<lambda>_.
     and_then (try_all (\<lambda>(a, b).
        and_then (check (\<not> edit_start a > edit_start b) UnsortedEdits) (\<lambda>_.
        check (\<not> overlaps a b) OverlappingEdits)) (windows2 (edits raw))) (\<lambda>_.
     Inr \<lparr>fix_message = fix_message raw, edits = edits raw\<rparr>)))"

record fix_alternative =
  alternative_id :: string
  alternative_fix :: quick_fix

definition deserialize_alternative :: "fix_alternative \<Rightarrow> de_error + fix_alternative" where
  "deserialize_alternative raw =
     and_then (check (alternative_id raw \<noteq> []) EmptyAlternativeId) (\<lambda>_.
     Inr \<lparr>alternative_id = alternative_id raw, alternative_fix = alternative_fix raw\<rparr>)"

subsection \<open>Issues\<close>

record flow_location =
  flow_path :: "string option"
  flow_message :: string
  flow_range :: text_range

definition in_primary_file :: "string \<Rightarrow> text_range \<Rightarrow> flow_location" where
  "in_primary_file message r = \<lparr>flow_path = None, flow_message = message, flow_range = r\<rparr>"

record issue_flow =
  locations :: "flow_location list"

definition deserialize_flow :: "issue_flow \<Rightarrow> de_error + issue_flow" where
  "deserialize_flow raw =
     and_then (check (locations raw \<noteq> []) EmptyFlow) (\<lambda>_. Inr \<lparr>locations = locations raw\<rparr>)"

record issue =
  rule_key :: string
  issue_message :: string
  issue_range :: text_range
  issue_fix :: "quick_fix option"
  alternatives :: "fix_alternative list"
  flows :: "issue_flow list"

text \<open>\<open>duplicate_alternative\<close> is the loop over the alternatives, each compared with the ones
  before it.\<close>

fun duplicate_alternative :: "string list \<Rightarrow> fix_alternative list \<Rightarrow> de_error + unit" where
  "duplicate_alternative ids [] = Inr ()"
| "duplicate_alternative ids (a # as) =
     and_then (check (alternative_id a \<notin> set ids) (DuplicateAlternative (alternative_id a))) (\<lambda>_.
     duplicate_alternative (ids @ [alternative_id a]) as)"

definition deserialize_issue :: "issue \<Rightarrow> de_error + issue" where
  "deserialize_issue raw =
     and_then (duplicate_alternative [] (alternatives raw)) (\<lambda>_.
     Inr \<lparr>rule_key = rule_key raw, issue_message = issue_message raw, issue_range = issue_range raw,
       issue_fix = issue_fix raw, alternatives = alternatives raw, flows = flows raw\<rparr>)"

definition issue_new :: "string \<Rightarrow> string \<Rightarrow> text_range \<Rightarrow> issue" where
  "issue_new key message r =
     \<lparr>rule_key = key, issue_message = message, issue_range = r, issue_fix = None,
      alternatives = [], flows = []\<rparr>"

definition with_fix :: "issue \<Rightarrow> string \<Rightarrow> text_edit list \<Rightarrow> issue option" where
  "with_fix i message es = do { f \<leftarrow> fix_new message es; Some (i\<lparr>issue_fix := Some f\<rparr>) }"

definition add_alternative :: "issue \<Rightarrow> string \<Rightarrow> string \<Rightarrow> text_edit list \<Rightarrow> issue option" where
  "add_alternative i alt message es = do {
     require (alt \<noteq> []);
     require (\<not> (\<exists>a \<in> set (alternatives i). alternative_id a = alt));
     f \<leftarrow> fix_new message es;
     Some (i\<lparr>alternatives := alternatives i @ [\<lparr>alternative_id = alt, alternative_fix = f\<rparr>]\<rparr>) }"

definition with_alternative :: "issue \<Rightarrow> string \<Rightarrow> string \<Rightarrow> text_edit list \<Rightarrow> issue option" where
  "with_alternative i alt message es = add_alternative i alt message es"

definition with_flow :: "issue \<Rightarrow> flow_location list \<Rightarrow> issue option" where
  "with_flow i ls = do { require (ls \<noteq> []); Some (i\<lparr>flows := flows i @ [\<lparr>locations = ls\<rparr>]\<rparr>) }"

definition sort_issues :: "issue list \<Rightarrow> issue list" where
  "sort_issues is = sort_key (\<lambda>a.
     (line (range_start (issue_range a)), column (range_start (issue_range a)),
      line (range_end (issue_range a)), column (range_end (issue_range a)),
      rule_key a, issue_message a)) is"

subsection \<open>Consecutive pairs and symmetric relations\<close>

lemma windows2_all: "(\<forall>(a, b) \<in> set (windows2 xs). P a b) \<longleftrightarrow> successively P xs"
  by (induction xs rule: windows2.induct) auto

lemma sorted_wrt_insort:
  assumes "symp R"
  shows "sorted_wrt R (insort_key f x xs) \<longleftrightarrow> (\<forall>y \<in> set xs. R x y) \<and> sorted_wrt R xs"
proof -
  have "R a b = R b a" for a b using assms by (auto dest: sympD)
  then show ?thesis by (induction xs) (auto simp: set_insort_key)
qed

lemma sorted_wrt_sort_key: "symp R \<Longrightarrow> sorted_wrt R (sort_key f xs) \<longleftrightarrow> sorted_wrt R xs"
  by (induction xs) (simp_all add: sorted_wrt_insort)

subsection \<open>Compatible edits\<close>

definition compatible :: "text_edit list \<Rightarrow> bool" where
  "compatible es \<longleftrightarrow> sorted_wrt (\<lambda>a b. \<not> overlaps a b) es"

lemma symp_compatible: "symp (\<lambda>a b. \<not> overlaps a b)"
  by (simp add: symp_def overlaps_sym)

lemma compatible_sort: "compatible (sort_key f es) \<longleftrightarrow> compatible es"
  unfolding compatible_def by (rule sorted_wrt_sort_key [OF symp_compatible])

lemma before_trans: "ordered b \<Longrightarrow> before a b \<Longrightarrow> before b c \<Longrightarrow> before a c"
  by (auto simp: before_def ordered_def)

text \<open>Sorted by start position, the consecutive pairs decide compatibility.\<close>

lemma sorted_compatible:
  assumes s: "sorted (map edit_start es)" and o: "\<forall>e \<in> set es. ordered e"
  shows "successively (\<lambda>a b. \<not> overlaps a b) es \<longleftrightarrow> sorted_wrt before es"
    and "compatible es \<longleftrightarrow> sorted_wrt before es"
proof -
  have le: "successively (\<lambda>a b. edit_start a \<le> edit_start b) es"
    using s by (simp add: sorted_wrt_map successively_if_sorted_wrt)
  have "successively (\<lambda>a b. \<not> overlaps a b) es \<longleftrightarrow> successively before es"
    using le o
  proof (induction es rule: induct_list012)
    case (3 x y zs)
    then show ?case by (auto simp: overlaps_iff before_def)
  qed simp_all
  also have "\<dots> \<longleftrightarrow> sorted_wrt before es"
    by (rule successively_iff_sorted_wrt_strong) (use o before_trans in blast)
  finally show *: "successively (\<lambda>a b. \<not> overlaps a b) es \<longleftrightarrow> sorted_wrt before es" .
  have "sorted_wrt before es \<Longrightarrow> compatible es"
    unfolding compatible_def by (rule sorted_wrt_mono_rel) (use o in \<open>auto simp: overlaps_iff\<close>)
  moreover have "compatible es \<Longrightarrow> sorted_wrt before es"
    using * by (simp add: compatible_def successively_if_sorted_wrt)
  ultimately show "compatible es \<longleftrightarrow> sorted_wrt before es" by blast
qed

lemma ordered_pairs: "((line p, column p) \<le> (line q, column q)) = (p \<le> q)"
  for p q :: pos
  by (auto simp: less_eq_pos_def)

lemma before_starts: "sorted_wrt before es \<Longrightarrow> distinct (map edit_start es)"
  by (induction es) (auto simp: before_def)

lemma validate_fix_edits_iff:
  "validate_fix_edits es = Some es' \<longleftrightarrow>
     es \<noteq> [] \<and> (\<forall>e \<in> set es. ordered e) \<and> compatible es \<and> es' = sort_key edit_start es"
proof -
  have "successively (\<lambda>a b. \<not> overlaps a b) (sort_key edit_start es) \<longleftrightarrow> compatible es"
    if "\<forall>e \<in> set es. ordered e"
    using that sorted_compatible [of "sort_key edit_start es"] by (simp add: compatible_sort)
  then show ?thesis
    by (auto simp: validate_fix_edits_def bind_eq_Some_conv require_Some_iff windows2_all
        ordered_pairs ordered_def simp del: less_eq_prod_simp less_eq_pos_def)
qed

subsection \<open>Constructors against deserializers\<close>

lemma deserialize_range_iff:
  "deserialize_range raw = Inr r \<longleftrightarrow> r = raw \<and>
     (is_file_level raw \<or> line (range_start raw) \<noteq> 0 \<and> line (range_end raw) \<noteq> 0 \<and>
        range_start raw \<le> range_end raw)"
  by (cases "range_start raw"; cases "range_end raw"; cases raw; cases r)
    (auto simp: deserialize_range_def is_file_level_def valid_pos_def Let_def result_iffs not_less
      split: if_splits)

lemma deserialize_fix_iff:
  "deserialize_fix raw = Inr f \<longleftrightarrow> f = raw \<and> edits raw \<noteq> [] \<and>
     (\<forall>e \<in> set (edits raw). \<not> is_file_level (edit_range e)) \<and>
     successively (\<lambda>a b. edit_start a \<le> edit_start b \<and> \<not> overlaps a b) (edits raw)"
  unfolding windows2_all [symmetric]
  by (auto simp: deserialize_fix_def result_iffs not_less case_prod_unfold)

lemma successively_conj:
  "successively (\<lambda>a b. P a b \<and> Q a b) xs \<longleftrightarrow> successively P xs \<and> successively Q xs"
  by (induction xs rule: induct_list012) auto

lemma sorted_successively: "successively (\<lambda>a b. f a \<le> f b) xs \<longleftrightarrow> sorted (map f xs)"
  for f :: "'a \<Rightarrow> 'b :: linorder"
  by (subst successively_conv_sorted_wrt) (auto simp: transp_def sorted_wrt_map intro: order_trans)

lemma fix_new_eq:
  "fix_new m es = Some f \<longleftrightarrow> es \<noteq> [] \<and> (\<forall>e \<in> set es. ordered e) \<and> compatible es \<and>
     f = \<lparr>fix_message = m, edits = sort_key edit_start es\<rparr>"
  by (auto simp: fix_new_def bind_eq_Some_conv validate_fix_edits_iff)

lemma fix_new_deserializes:
  assumes "fix_new m es = Some f" and "\<forall>e \<in> set es. \<not> is_file_level (edit_range e)"
  shows "deserialize_fix f = Inr f"
proof -
  let ?es = "sort_key edit_start es"
  from assms(1) have "\<forall>e \<in> set ?es. ordered e" "compatible ?es" by (auto simp: fix_new_eq compatible_sort)
  then have "successively (\<lambda>a b. \<not> overlaps a b) ?es"
    by (simp add: sorted_compatible)
  with assms show ?thesis
    by (auto simp: deserialize_fix_iff fix_new_eq successively_conj sorted_successively
        simp flip: set_empty)
qed

lemma deserialize_fix_new:
  assumes "deserialize_fix raw = Inr f" and "\<forall>e \<in> set (edits raw). ordered e"
  shows "fix_new (fix_message f) (edits f) = Some f"
  using assms sorted_compatible [of "edits raw"]
  by (auto simp: deserialize_fix_iff fix_new_eq successively_conj sorted_successively sort_key_id_if_sorted)

lemma duplicate_alternative_iff:
  "duplicate_alternative ids as = Inr u \<longleftrightarrow>
     distinct (map alternative_id as) \<and> set ids \<inter> alternative_id ` set as = {}"
  by (induction as arbitrary: ids) (auto simp: result_iffs)

definition issue_ok :: "issue \<Rightarrow> bool" where
  "issue_ok i \<longleftrightarrow> deserialize_issue i = Inr i \<and>
     (\<forall>f \<in> set_option (issue_fix i). deserialize_fix f = Inr f) \<and>
     (\<forall>a \<in> set (alternatives i). deserialize_alternative a = Inr a \<and>
        deserialize_fix (alternative_fix a) = Inr (alternative_fix a)) \<and>
     (\<forall>f \<in> set (flows i). deserialize_flow f = Inr f)"

lemma deserialize_issue_iff:
  "deserialize_issue i = Inr i \<longleftrightarrow> distinct (map alternative_id (alternatives i))"
  by (simp add: deserialize_issue_def result_iffs duplicate_alternative_iff)

lemma add_alternative_eq:
  "add_alternative i alt m es = Some j \<longleftrightarrow> alt \<noteq> [] \<and> alt \<notin> alternative_id ` set (alternatives i) \<and>
     (\<exists>f. fix_new m es = Some f \<and>
       j = i\<lparr>alternatives := alternatives i @ [\<lparr>alternative_id = alt, alternative_fix = f\<rparr>]\<rparr>)"
  by (auto simp: add_alternative_def bind_eq_Some_conv require_Some_iff)

subsection \<open>Properties\<close>

text \<open>\<open>Fix::new\<close> panics exactly when there is no edit, an edit's range is inverted or two
  edits overlap, and otherwise stores the edits sorted by start position.\<close>

theorem fix_new_correct:
  "fix_new message es = Some f \<longleftrightarrow>
     es \<noteq> [] \<and> (\<forall>e \<in> set es. edit_start e \<le> edit_end e) \<and>
     (\<forall>j < length es. \<forall>i < j. \<not> overlaps (es ! i) (es ! j)) \<and>
     f = \<lparr>fix_message = message, edits = sort_key edit_start es\<rparr>"
  unfolding fix_new_eq compatible_def ordered_def sorted_wrt_iff_nth_less by blast

definition edit_at :: "u32 \<Rightarrow> u32 \<Rightarrow> u32 \<Rightarrow> bytes \<Rightarrow> text_edit" where
  "edit_at l c d r = \<lparr>edit_range = \<lparr>range_start = Pos l c, range_end = Pos l d\<rparr>, replacement = r\<rparr>"

lemma overlaps_edit_at:
  "overlaps (edit_at l c d r) (edit_at l c' d' r') \<longleftrightarrow>
     (max c c' < min d d' \<or> c = d \<and> c \<ge> c' \<and> c < d' \<or> c' = d' \<and> c' \<ge> c \<and> c' < d \<or>
      c = d \<and> c' = d' \<and> c = c')"
  by (auto simp: overlaps_def edit_at_def Let_def max_def min_def less_pos_def less_eq_pos_def)

theorem fix_new_correct_witness:
  "fix_new ''m'' [edit_at 1 4 6 ''x'', edit_at 1 0 2 ''y''] =
     Some \<lparr>fix_message = ''m'', edits = [edit_at 1 0 2 ''y'', edit_at 1 4 6 ''x'']\<rparr>"
  by (subst fix_new_correct)
    (simp add: less_Suc_eq overlaps_edit_at, simp add: edit_at_def less_eq_pos_def)

text \<open>A fix built by \<open>Fix::new\<close> from edits that are not file-level is accepted unchanged by
  its deserializer, and every deserialized fix with ordered ranges is what \<open>Fix::new\<close> builds.\<close>

theorem fix_roundtrip:
  "(fix_new message es = Some f \<and> (\<forall>e \<in> set es. \<not> is_file_level (edit_range e)) \<longrightarrow>
      deserialize_fix f = Inr f) \<and>
   (deserialize_fix raw = Inr g \<and> (\<forall>e \<in> set (edits raw). edit_start e \<le> edit_end e) \<longrightarrow>
      fix_new (fix_message g) (edits g) = Some g)"
  using fix_new_deserializes deserialize_fix_new by (auto simp: ordered_def)

theorem fix_roundtrip_witness:
  "\<exists>f. fix_new ''m'' [edit_at 1 4 6 ''x'', edit_at 1 0 2 ''y''] = Some f \<and> deserialize_fix f = Inr f \<and>
     fix_new (fix_message f) (edits f) = Some f"
proof -
  let ?es = "[edit_at 1 4 6 ''x'', edit_at 1 0 2 ''y'']"
  have "fix_new ''m'' ?es = Some \<lparr>fix_message = ''m'', edits = [edit_at 1 0 2 ''y'', edit_at 1 4 6 ''x'']\<rparr>"
    by (simp add: fix_new_eq compatible_def overlaps_edit_at, simp add: edit_at_def ordered_def less_eq_pos_def)
  then obtain f where f: "fix_new ''m'' ?es = Some f"
    and e: "edits f = [edit_at 1 0 2 ''y'', edit_at 1 4 6 ''x'']" by auto
  have d: "deserialize_fix f = Inr f"
    using fix_roundtrip [of "''m''" ?es f] f by (simp add: edit_at_def is_file_level_def)
  have "fix_new (fix_message f) (edits f) = Some f"
    using fix_roundtrip [of _ _ _ f f] d by (simp add: e edit_at_def less_eq_pos_def)
  with f d show ?thesis by blast
qed

text \<open>Issues built by the constructors stay serializable: each builder keeps every
  deserializer accepting the issue, and \<open>add_alternative\<close> panics on an empty or duplicate id.\<close>

theorem issue_builders:
  assumes "issue_ok i" and "\<forall>e \<in> set es. \<not> is_file_level (edit_range e)"
  shows "issue_ok (issue_new key message r) \<and>
    (\<forall>j. with_fix i m es = Some j \<longrightarrow> issue_ok j) \<and>
    (\<forall>j. with_alternative i alt m es = Some j \<longrightarrow> issue_ok j) \<and>
    (\<forall>j. with_flow i ls = Some j \<longrightarrow> issue_ok j) \<and>
    (with_alternative i alt m es = None \<longleftrightarrow>
       alt = [] \<or> (\<exists>a \<in> set (alternatives i). alternative_id a = alt) \<or> fix_new m es = None)"
proof (intro conjI allI impI)
  note ok = assms(1) fix_new_deserializes [OF _ assms(2)]
  show "issue_ok (issue_new key message r)"
    by (simp add: issue_ok_def issue_new_def deserialize_issue_iff)
  show "issue_ok j" if "with_fix i m es = Some j" for j
    using that ok by (auto simp: issue_ok_def with_fix_def bind_eq_Some_conv deserialize_issue_iff)
  show "issue_ok j" if "with_alternative i alt m es = Some j" for j
    using that ok
    by (auto simp: issue_ok_def with_alternative_def add_alternative_eq deserialize_issue_iff
        deserialize_alternative_def result_iffs)
  show "issue_ok j" if "with_flow i ls = Some j" for j
    using that ok
    by (auto simp: issue_ok_def with_flow_def bind_eq_Some_conv require_Some_iff deserialize_issue_iff
        deserialize_flow_def result_iffs)
  show "with_alternative i alt m es = None \<longleftrightarrow>
     alt = [] \<or> (\<exists>a \<in> set (alternatives i). alternative_id a = alt) \<or> fix_new m es = None"
    by (auto simp: with_alternative_def add_alternative_def require_def bind_eq_None_conv)
qed

theorem issue_builders_witness:
  "\<exists>i j k l. i = issue_new ''r'' ''m'' file_level \<and> with_fix i ''f'' [edit_at 1 0 2 ''y''] = Some j \<and>
     with_alternative j ''a'' ''g'' [edit_at 1 3 4 ''z''] = Some k \<and>
     with_flow k [in_primary_file ''s'' file_level] = Some l \<and> issue_ok l \<and>
     with_alternative k ''a'' ''g'' [edit_at 1 3 4 ''z''] = None"
proof -
  define i where "i = issue_new ''r'' ''m'' file_level"
  have f: "fix_new x [edit_at 1 c d y] = Some \<lparr>fix_message = x, edits = [edit_at 1 c d y]\<rparr>" if "c \<le> d" for x c d y
    using that by (simp add: fix_new_eq compatible_def edit_at_def ordered_def less_eq_pos_def)
  have n: "\<forall>e \<in> set [edit_at 1 c d y]. \<not> is_file_level (edit_range e)" for c d y
    by (simp add: edit_at_def is_file_level_def)
  obtain j where j: "with_fix i ''f'' [edit_at 1 0 2 ''y''] = Some j" "alternatives j = []"
    by (auto simp: with_fix_def f i_def issue_new_def)
  then obtain k where k: "with_alternative j ''a'' ''g'' [edit_at 1 3 4 ''z''] = Some k"
    "alternative_id ` set (alternatives k) = {''a''}"
    by (auto simp: with_alternative_def add_alternative_def f require_def)
  obtain l where l: "with_flow k [in_primary_file ''s'' file_level] = Some l"
    by (auto simp: with_flow_def require_def)
  have "issue_ok i"
    by (simp add: i_def issue_ok_def issue_new_def deserialize_issue_iff)
  then have "issue_ok j" using issue_builders [OF _ n [of 0 2 "''y''"]] j(1) by blast
  then have k': "issue_ok k" using issue_builders [OF _ n [of 3 4 "''z''"]] k(1) by blast
  then have "issue_ok l" using issue_builders [OF _ n [of 3 4 "''z''"]] l by blast
  moreover have "\<exists>a \<in> set (alternatives k). alternative_id a = ''a''"
    using k(2) by (metis image_iff insertI1)
  then have "with_alternative k ''a'' ''g'' [edit_at 1 3 4 ''z''] = None"
    using issue_builders [OF k' n [of 3 4 "''z''"]] by blast
  ultimately show ?thesis using j k l i_def by blast
qed

end
