(* ===== verification/FixEngine.thy ===== *)
theory FixEngine
  imports Findings "HOL-Library.Multiset"
begin

text \<open>
  \<open>apply_fixes\<close> of \<open>crates/hoonarqube-ir/src/lib.rs\<close>: positions are resolved to byte
  offsets, the edits are sorted, checked for conflicts and spliced in one forward pass.
\<close>

subsection \<open>Applying edits\<close>

datatype fix_apply_error =
    InvertedRange nat
  | OutOfBounds nat pos
  | Overlapping nat nat

fun newline_starts :: "nat \<Rightarrow> bytes \<Rightarrow> nat list" where
  "newline_starts offset [] = []"
| "newline_starts offset (b # bs) =
     (if b = CHR 0x0A then (offset + 1) # newline_starts (offset + 1) bs else newline_starts (offset + 1) bs)"

definition line_starts :: "bytes \<Rightarrow> nat list" where
  "line_starts source = 0 # newline_starts 0 source"

text \<open>The end of line \<open>i\<close>'s text: one byte before the next line, or the end of the source.\<close>

definition terminator_start :: "nat list \<Rightarrow> bytes \<Rightarrow> nat \<Rightarrow> nat" where
  "terminator_start starts source i =
     (if i + 1 < length starts then starts ! (i + 1) - 1 else length source)"

definition ascii_lines :: "nat list \<Rightarrow> bytes \<Rightarrow> bool list option" where
  "ascii_lines starts source = traverse (\<lambda>i. do {
     t \<leftarrow> str_slice source (starts ! i) (terminator_start starts source i);
     Some (\<forall>c \<in> set t. byte c < 128) }) [0..<length starts]"

fun find_char :: "nat list \<Rightarrow> nat \<Rightarrow> nat \<Rightarrow> nat \<Rightarrow> nat \<Rightarrow> nat option" where
  "find_char [] seen target start stop = (if seen = target then Some stop else None)"
| "find_char (o' # os) seen target start stop =
     (if seen = target then Some (start + o') else find_char os (seen + 1) target start stop)"

text \<open>The end of line \<open>i\<close>'s content: a terminated line loses its carriage return.\<close>

definition content_stop :: "nat list \<Rightarrow> bytes \<Rightarrow> nat \<Rightarrow> nat" where
  "content_stop starts source i =
     (let term = terminator_start starts source i in
      if i + 1 < length starts \<and> term > starts ! i \<and> idx source (term - 1) = Some (CHR 0x0D)
      then term - 1 else term)"

definition resolve_pos :: "nat list \<Rightarrow> bool list \<Rightarrow> bytes \<Rightarrow> pos \<Rightarrow> nat option" where
  "resolve_pos starts ascii source p =
     (if line p = 0 then None else do {
        let i = unat (line p) - 1;
        start \<leftarrow> idx starts i;
        let stop = content_stop starts source i;
        content \<leftarrow> str_slice source start stop;
        let target = unat (column p);
        if idx ascii i = Some True then (if target \<le> length content then Some (start + target) else None)
        else find_char (char_indices content) 0 target start stop })"

text \<open>\<open>map_edits\<close> is the loop that locates the edits, in input order.\<close>

fun map_edits :: "nat list \<Rightarrow> bool list \<Rightarrow> bytes \<Rightarrow> nat \<Rightarrow> text_edit list \<Rightarrow>
    fix_apply_error + (nat \<times> nat \<times> nat) list" where
  "map_edits starts ascii source index [] = Inr []"
| "map_edits starts ascii source index (e # es) =
     and_then (check (\<not> (line (edit_start e), column (edit_start e)) > (line (edit_end e), column (edit_end e)))
       (InvertedRange index)) (\<lambda>_.
     and_then (ok_or (resolve_pos starts ascii source (edit_start e)) (OutOfBounds index (edit_start e))) (\<lambda>s.
     and_then (ok_or (resolve_pos starts ascii source (edit_end e)) (OutOfBounds index (edit_end e))) (\<lambda>t.
     and_then (map_edits starts ascii source (index + 1) es) (\<lambda>ms. Inr ((s, t, index) # ms)))))"

definition competes :: "nat \<times> nat \<times> nat \<Rightarrow> nat \<times> nat \<times> nat \<Rightarrow> bool" where
  "competes a b =
     (case (a, b) of ((s1, e1, _), (s2, _, _)) \<Rightarrow> s2 < e1 \<or> (s1 = e1 \<and> s1 = s2))"

definition check_conflicts :: "(nat \<times> nat \<times> nat) list \<Rightarrow> fix_apply_error + unit" where
  "check_conflicts mapped = try_all (\<lambda>(a, b).
     check (\<not> competes a b) (Overlapping (snd (snd a)) (snd (snd b)))) (windows2 mapped)"

text \<open>The forward pass over the sorted edits; \<open>out\<close> is the text produced so far.\<close>

fun splice :: "bytes \<Rightarrow> text_edit list \<Rightarrow> nat \<Rightarrow> (nat \<times> nat \<times> nat) list \<Rightarrow> bytes \<Rightarrow> bytes option" where
  "splice source es cursor [] out = do { rest \<leftarrow> str_slice source cursor (length source); Some (out @ rest) }"
| "splice source es cursor ((s, t, i) # ms) out = do {
     kept \<leftarrow> str_slice source cursor s;
     e \<leftarrow> idx es i;
     splice source es t ms (out @ kept @ replacement e) }"

text \<open>The capacity reserved for the result; \<open>end - start\<close> and \<open>edits[index]\<close> can panic.\<close>

definition fix_capacity :: "bytes \<Rightarrow> text_edit list \<Rightarrow> (nat \<times> nat \<times> nat) list \<Rightarrow> nat option" where
  "fix_capacity source es mapped = do {
     removed \<leftarrow> traverse (\<lambda>(s, t, _). do { require (s \<le> t); Some (t - s) }) mapped;
     added \<leftarrow> traverse (\<lambda>(_, _, i). do { e \<leftarrow> idx es i; Some (length (replacement e)) }) mapped;
     Some (length source - sum_list removed + sum_list added) }"

definition apply_fixes :: "bytes \<Rightarrow> text_edit list \<Rightarrow> (fix_apply_error + bytes) option" where
  "apply_fixes source es = do {
     let starts = line_starts source;
     ascii \<leftarrow> ascii_lines starts source;
     (case map_edits starts ascii source 0 es of
        Inl e \<Rightarrow> Some (Inl e)
      | Inr mapped \<Rightarrow>
          (let mapped = sort_key (\<lambda>(s, t, _). (s, t)) mapped in
           case check_conflicts mapped of
             Inl e \<Rightarrow> Some (Inl e)
           | Inr _ \<Rightarrow> do {
               _ \<leftarrow> fix_capacity source es mapped;
               out \<leftarrow> splice source es 0 mapped [];
               Some (Inr out) })) }"

subsection \<open>Lines\<close>

lemma newline_starts_set:
  "set (newline_starts off bs) = {off + j + 1 | j. j < length bs \<and> bs ! j = CHR 0x0A}"
proof (induction bs arbitrary: off)
  case (Cons b bs)
  have "{off + j + 1 | j. j < length (b # bs) \<and> (b # bs) ! j = CHR 0x0A} =
      (if b = CHR 0x0A then {off + 1} else {}) \<union> {off + 1 + j + 1 | j. j < length bs \<and> bs ! j = CHR 0x0A}"
    by (auto simp: less_Suc_eq_0_disj)
  with Cons show ?case by simp
qed simp

lemma newline_starts_sorted: "sorted_wrt (<) (newline_starts off bs)"
  by (induction bs arbitrary: off) (auto simp: newline_starts_set)

lemma line_starts_sorted: "sorted_wrt (<) (line_starts source)"
  by (auto simp: line_starts_def newline_starts_sorted newline_starts_set)

lemma line_starts_0 [simp]: "line_starts source ! 0 = 0" "0 < length (line_starts source)"
  by (simp_all add: line_starts_def)

lemma line_starts_after:
  assumes "0 < i" and "i < length (line_starts source)"
  shows "0 < line_starts source ! i" and "line_starts source ! i \<le> length source"
    and "source ! (line_starts source ! i - 1) = CHR 0x0A"
proof -
  from assms have "line_starts source ! i \<in> set (newline_starts 0 source)"
    by (auto simp: line_starts_def nth_Cons')
  then show "0 < line_starts source ! i" "line_starts source ! i \<le> length source"
    "source ! (line_starts source ! i - 1) = CHR 0x0A"
    by (auto simp: newline_starts_set)
qed

lemma line_starts_le: "i < length (line_starts source) \<Longrightarrow> line_starts source ! i \<le> length source"
  using line_starts_after(2) [of i source] by (cases "i = 0") auto

lemma line_starts_mono:
  "i < j \<Longrightarrow> j < length (line_starts source) \<Longrightarrow> line_starts source ! i < line_starts source ! j"
  using line_starts_sorted by (simp add: sorted_wrt_iff_nth_less)

abbreviation line_stop :: "bytes \<Rightarrow> nat \<Rightarrow> nat" where
  "line_stop source i \<equiv> content_stop (line_starts source) source i"

lemma terminator_bounds:
  assumes "i < length (line_starts source)"
  shows "line_starts source ! i \<le> terminator_start (line_starts source) source i"
    and "terminator_start (line_starts source) source i \<le> length source"
    and "i < j \<Longrightarrow> j < length (line_starts source) \<Longrightarrow>
      terminator_start (line_starts source) source i < line_starts source ! j"
proof -
  show "line_starts source ! i \<le> terminator_start (line_starts source) source i"
    using assms line_starts_mono [of i "i + 1" source] line_starts_le by (auto simp: terminator_start_def)
  show "terminator_start (line_starts source) source i \<le> length source"
    using line_starts_after(2) [of "i + 1" source] by (auto simp: terminator_start_def)
  show "terminator_start (line_starts source) source i < line_starts source ! j"
    if "i < j" "j < length (line_starts source)"
    using that line_starts_mono [of "i + 1" j source] line_starts_after(1) [of "i + 1" source]
    by (cases "i + 1 = j") (auto simp: terminator_start_def)
qed

lemma line_stop_bounds:
  assumes "i < length (line_starts source)"
  shows "line_starts source ! i \<le> line_stop source i"
    and "line_stop source i \<le> terminator_start (line_starts source) source i"
  using terminator_bounds(1) [OF assms] by (auto simp: content_stop_def Let_def)

lemma line_boundaries:
  assumes u: "utf8 source" and i: "i < length (line_starts source)"
  shows "boundary source (line_starts source ! i)"
    and "boundary source (terminator_start (line_starts source) source i)"
    and "boundary source (line_stop source i)"
proof -
  have after: "boundary source (line_starts source ! k) \<and> boundary source (line_starts source ! k - 1)"
    if "0 < k" "k < length (line_starts source)" for k
    using line_starts_after [OF that] boundary_after_ascii [OF u, of "line_starts source ! k - 1"] by simp
  show "boundary source (line_starts source ! i)"
    using after [OF _ i] by (cases "i = 0") auto
  show t: "boundary source (terminator_start (line_starts source) source i)"
    using after [of "i + 1"] by (auto simp: terminator_start_def)
  show "boundary source (line_stop source i)"
    using t boundary_after_ascii(2) [OF u, of "terminator_start (line_starts source) source i - 1"]
    by (auto simp: content_stop_def Let_def idx_Some_iff)
qed

subsection \<open>Positions\<close>

text \<open>The reference: column \<open>c\<close> of a line is where its character \<open>c\<close> starts, or its end.\<close>

definition line_content :: "bytes \<Rightarrow> nat \<Rightarrow> bytes" where
  "line_content source i = drop (line_starts source ! i) (take (line_stop source i) source)"

definition locate :: "bytes \<Rightarrow> pos \<Rightarrow> nat option" where
  "locate source p =
     (let i = unat (line p) - 1; c = unat (column p) in
      if line p \<noteq> 0 \<and> i < length (line_starts source) \<and> c < length (columns (line_content source i))
      then Some (line_starts source ! i + columns (line_content source i) ! c) else None)"

lemma find_char_eq:
  "seen \<le> target \<Longrightarrow> find_char os seen target start stop =
     (if target - seen < length os then Some (start + os ! (target - seen))
      else if target - seen = length os then Some stop else None)"
proof (induction os arbitrary: seen)
  case (Cons x xs)
  then show ?case
    by (cases "seen = target") (auto simp: nth_Cons' Suc_diff_Suc diff_Suc split: nat.splits)
qed auto

lemma ascii_lines_eq:
  assumes "utf8 source"
  shows "ascii_lines (line_starts source) source = Some (map (\<lambda>i. \<forall>c \<in> set (drop (line_starts source ! i)
     (take (terminator_start (line_starts source) source i) source)). byte c < 128) [0..<length (line_starts source)])"
  unfolding ascii_lines_def
  by (rule traverse_Some)
    (simp add: str_slice_Some line_boundaries [OF assms] terminator_bounds)

lemma resolve_pos_locate:
  assumes u: "utf8 source" and a: "ascii_lines (line_starts source) source = Some ascii"
  shows "resolve_pos (line_starts source) ascii source p = locate source p"
proof (cases "line p \<noteq> 0 \<and> unat (line p) - 1 < length (line_starts source)")
  case False
  then show ?thesis by (auto simp: resolve_pos_def locate_def Let_def idx_def)
next
  case True
  let ?i = "unat (line p) - 1" and ?c = "unat (column p)"
  let ?t = "line_content source ?i"
  from True have i: "?i < length (line_starts source)" by simp
  note b = line_stop_bounds [OF i] terminator_bounds(2) [OF i]
  have t: "str_slice source (line_starts source ! ?i) (line_stop source ?i) = Some ?t"
    using line_boundaries [OF u i] b by (simp add: str_slice_Some line_content_def)
  have len: "line_starts source ! ?i + length ?t = line_stop source ?i"
    using b by (simp add: line_content_def)
  show ?thesis
  proof (cases "idx ascii ?i = Some True")
    case asc: True
    have "set ?t \<subseteq> set (drop (line_starts source ! ?i) (take (terminator_start (line_starts source) source ?i) source))"
      using b(2) by (auto simp: line_content_def drop_take intro: set_take_subset_set_take [THEN subsetD, rotated])
    then have "\<forall>c \<in> set ?t. byte c < 128"
      using asc a i by (auto simp: ascii_lines_eq [OF u] idx_Some_iff)
    then have "columns ?t = [0..<Suc (length ?t)]" by (rule columns_ascii)
    with True asc t show ?thesis
      by (auto simp: resolve_pos_def locate_def Let_def idx_in simp del: upt_Suc)
  next
    case False
    with True t len show ?thesis
      by (auto simp: resolve_pos_def locate_def Let_def idx_in find_char_eq columns_def nth_append)
  qed
qed

text \<open>Positions and offsets are in the same order.\<close>

lemma line_content_length:
  assumes "i < length (line_starts source)"
  shows "line_starts source ! i + length (line_content source i) = line_stop source i"
  using line_stop_bounds [OF assms] terminator_bounds(2) [OF assms] by (simp add: line_content_def)

lemma locate_line:
  assumes "locate source p = Some a"
  shows "line_starts source ! (unat (line p) - 1) \<le> a" and "a \<le> line_stop source (unat (line p) - 1)"
    and "unat (line p) - 1 < length (line_starts source)" and "line p \<noteq> 0"
proof -
  let ?i = "unat (line p) - 1" and ?t = "line_content source (unat (line p) - 1)"
  from assms have a: "line p \<noteq> 0" "?i < length (line_starts source)" "unat (column p) < length (columns ?t)"
    "a = line_starts source ! ?i + columns ?t ! unat (column p)"
    by (auto simp: locate_def Let_def split: if_splits)
  then show "?i < length (line_starts source)" "line p \<noteq> 0" "line_starts source ! ?i \<le> a" by simp_all
  show "a \<le> line_stop source ?i"
    unfolding a(4) using columns_le [OF a(3)] line_content_length [OF a(2)] by linarith
qed

lemma locate_less:
  assumes "locate source p = Some a" and "locate source q = Some b" and "p < q"
  shows "a < b"
proof -
  note p = locate_line [OF assms(1)] and q = locate_line [OF assms(2)]
  consider "line p < line q" | "line p = line q" "column p < column q"
    using assms(3) by (auto simp: less_pos_def)
  then show ?thesis
  proof cases
    case 1
    then have "unat (line p) - 1 < unat (line q) - 1"
      using p(4) by (simp add: word_less_nat_alt unat_eq_zero) (metis Suc_leI Suc_pred diff_less_mono less_one not_le unat_eq_zero gr0I)
    then have "line_stop source (unat (line p) - 1) < line_starts source ! (unat (line q) - 1)"
      using terminator_bounds(3) [OF p(3) _ q(3)] line_stop_bounds(2) [OF p(3)] by simp
    with p(2) q(1) show ?thesis by simp
  next
    case 2
    then have "unat (column p) < unat (column q)" by (simp add: word_less_nat_alt)
    with 2 assms(1,2) columns_sorted show ?thesis
      by (auto simp: locate_def Let_def sorted_wrt_iff_nth_less split: if_splits)
  qed
qed

lemma locate_order:
  assumes "locate source p = Some a" and "locate source q = Some b"
  shows "p < q \<longleftrightarrow> a < b" and "p \<le> q \<longleftrightarrow> a \<le> b"
  using locate_less [OF assms] locate_less [OF assms(2,1)] assms
  by (cases p q rule: linorder_cases; force)+

lemma locate_bounds:
  assumes "utf8 source" and "locate source p = Some a"
  shows "boundary source a" and "a \<le> length source"
proof -
  let ?i = "unat (line p) - 1"
  note p = locate_line [OF assms(2)]
  note b = line_stop_bounds [OF p(3)] terminator_bounds(2) [OF p(3)]
  show le: "a \<le> length source" using p(2) b by simp
  have c: "boundary (line_content source ?i) (a - line_starts source ! ?i)"
    using assms(2) by (auto simp: locate_def Let_def columns_boundary split: if_splits)
  show "boundary source a"
  proof (cases "a = line_stop source ?i")
    case True
    then show ?thesis using line_boundaries(3) [OF assms(1) p(3)] by simp
  next
    case False
    with p(1,2) b have "line_starts source ! ?i < a \<Longrightarrow> \<not> cont (source ! a)"
      using c by (auto simp: boundary_def line_content_def nth_drop)
    with False p(1,2) b line_boundaries(1) [OF assms(1) p(3)] show ?thesis
      by (cases "line_starts source ! ?i = a") (auto simp: boundary_def)
  qed
qed

subsection \<open>Spans of edits\<close>

definition span :: "bytes \<Rightarrow> text_edit \<Rightarrow> (nat \<times> nat) option" where
  "span source e = (if ordered e then do {
     a \<leftarrow> locate source (edit_start e); b \<leftarrow> locate source (edit_end e); Some (a, b) } else None)"

lemma span_eq: "span source e = Some (a, b) \<longleftrightarrow>
    ordered e \<and> locate source (edit_start e) = Some a \<and> locate source (edit_end e) = Some b"
  by (auto simp: span_def bind_eq_Some_conv)

lemma span_le: "span source e = Some (a, b) \<Longrightarrow> a \<le> b"
  by (auto simp: span_eq ordered_def dest: locate_order(2))

lemma span_order:
  assumes "span source e = Some (a, b)" and "span source f = Some (c, d)"
  shows "edit_start e < edit_start f \<longleftrightarrow> a < c" and "edit_start e \<le> edit_start f \<longleftrightarrow> a \<le> c"
    and "before e f \<longleftrightarrow> b \<le> c \<and> a < c"
  using assms by (auto simp: span_eq before_def locate_order)

definition bad_edit :: "bytes \<Rightarrow> nat \<Rightarrow> text_edit \<Rightarrow> fix_apply_error option" where
  "bad_edit source i e =
     (if \<not> ordered e then Some (InvertedRange i)
      else if locate source (edit_start e) = None then Some (OutOfBounds i (edit_start e))
      else if locate source (edit_end e) = None then Some (OutOfBounds i (edit_end e)) else None)"

lemma bad_edit_None: "bad_edit source i e = None \<longleftrightarrow> span source e \<noteq> None"
  by (auto simp: bad_edit_def span_def)

lemma pairs_less: "((line p, column p) > (line q, column q)) = (p > q)"
  for p q :: pos
  by (auto simp: less_pos_def)

lemma map_edits_step:
  assumes "\<And>p. resolve_pos starts ascii source p = locate source p"
  shows "map_edits starts ascii source i (e # es) =
    (case bad_edit source i e of Some err \<Rightarrow> Inl err
     | None \<Rightarrow> and_then (map_edits starts ascii source (i + 1) es)
         (\<lambda>ms. Inr ((fst (the (span source e)), snd (the (span source e)), i) # ms)))"
  by (auto simp: assms bad_edit_def span_def pairs_less ordered_def not_less and_then_def check_def
      ok_or_def split: sum.splits option.splits simp del: less_prod_simp)

lemma map_edits_Inr:
  assumes r: "\<And>p. resolve_pos starts ascii source p = locate source p"
    and "map_edits starts ascii source i es = Inr ms"
  shows "length ms = length es \<and> (\<forall>k < length es. span source (es ! k) \<noteq> None \<and>
      ms ! k = (fst (the (span source (es ! k))), snd (the (span source (es ! k))), i + k))"
  using assms(2)
proof (induction es arbitrary: i ms)
  case (Cons e es)
  then obtain ms' where ms': "map_edits starts ascii source (i + 1) es = Inr ms'"
    and e: "bad_edit source i e = None"
    and ms: "ms = (fst (the (span source e)), snd (the (span source e)), i) # ms'"
    by (auto simp: map_edits_step [OF r] and_then_Inr_iff simp del: map_edits.simps split: option.splits)
  show ?case
    using Cons.IH [OF ms'] e by (auto simp: ms bad_edit_None nth_Cons' gr0_conv_Suc less_Suc_eq_0_disj)
qed simp

lemma map_edits_Inl:
  assumes r: "\<And>p. resolve_pos starts ascii source p = locate source p"
    and "map_edits starts ascii source i es = Inl err"
  shows "\<exists>k < length es. (\<forall>j < k. span source (es ! j) \<noteq> None) \<and> bad_edit source (i + k) (es ! k) = Some err"
  using assms(2)
proof (induction es arbitrary: i)
  case (Cons e es)
  show ?case
  proof (cases "bad_edit source i e")
    case None
    with Cons.prems have "map_edits starts ascii source (i + 1) es = Inl err"
      by (auto simp: map_edits_step [OF r] and_then_Inl_iff simp del: map_edits.simps)
    with Cons.IH obtain k where "k < length es" "\<forall>j < k. span source (es ! j) \<noteq> None"
      "bad_edit source (i + 1 + k) (es ! k) = Some err" by blast
    with None show ?thesis
      by (intro exI [of _ "Suc k"]) (auto simp: bad_edit_None less_Suc_eq_0_disj)
  next
    case (Some x)
    with Cons.prems show ?thesis
      by (intro exI [of _ 0]) (auto simp: map_edits_step [OF r] simp del: map_edits.simps)
  qed
qed simp

subsection \<open>Sorting and conflicts\<close>

lemma windows2_split: "(a, b) \<in> set (windows2 xs) \<Longrightarrow> \<exists>us vs. xs = us @ a # b # vs"
proof (induction xs rule: windows2.induct)
  case (1 x y zs)
  then show ?case by (auto intro: exI [of _ "[]"]) (metis append_Cons)
qed auto

lemma compatible_sorted_perm:
  assumes m: "mset xs = mset ys" and s: "sorted (map edit_start ys)" and o: "\<forall>e \<in> set xs. ordered e"
  shows "compatible xs \<longleftrightarrow> compatible ys" and "compatible xs \<Longrightarrow> ys = sort_key edit_start xs"
proof -
  from o m have oy: "\<forall>e \<in> set ys. ordered e" by (metis mset_eq_setD)
  have inj: "inj_on edit_start (set zs)" if "sorted_wrt before zs" for zs
    using before_starts [OF that] by (simp add: distinct_map)
  have eq: "sort_key edit_start xs = ys" if "inj_on edit_start (set xs)"
    using m that s by (rule sort_key_inj_key_eq)
  have x: "sort_key edit_start xs = ys" if "compatible xs"
  proof -
    from that o have "sorted_wrt before (sort_key edit_start xs)"
      using sorted_compatible(2) [of "sort_key edit_start xs"] by (simp add: compatible_sort)
    then show ?thesis using inj eq by fastforce
  qed
  moreover have "sort_key edit_start xs = ys" if "compatible ys"
    using that inj sorted_compatible(2) [OF s oy] eq mset_eq_setD [OF m] by simp
  ultimately show "compatible xs \<longleftrightarrow> compatible ys" by (metis compatible_sort)
  show "ys = sort_key edit_start xs" if "compatible xs" using x [OF that] by simp
qed

definition mapped_ok :: "bytes \<Rightarrow> text_edit list \<Rightarrow> (nat \<times> nat \<times> nat) list \<Rightarrow> bool" where
  "mapped_ok source es ms \<longleftrightarrow> sorted (map (\<lambda>(s, t, _). (s, t)) ms) \<and>
     distinct (map (\<lambda>m. snd (snd m)) ms) \<and> mset (map (\<lambda>m. es ! snd (snd m)) ms) = mset es \<and>
     (\<forall>(s, t, i) \<in> set ms. i < length es \<and> span source (es ! i) = Some (s, t))"

lemma mapped_okI:
  assumes r: "\<And>p. resolve_pos starts ascii source p = locate source p"
    and ms: "map_edits starts ascii source 0 es = Inr ms"
  shows "mapped_ok source es (sort_key (\<lambda>(s, t, _). (s, t)) ms)" and "\<forall>e \<in> set es. span source e \<noteq> None"
proof -
  note m = map_edits_Inr [OF r ms]
  have i: "map (\<lambda>m. snd (snd m)) ms = [0..<length es]"
    by (rule nth_equalityI) (use m in auto)
  then have e: "map (\<lambda>m. es ! snd (snd m)) ms = es"
    using map_map [of "(!) es" "\<lambda>m. snd (snd m)" ms] by (simp add: comp_def map_nth)
  have all: "\<forall>(s, t, i) \<in> set ms. i < length es \<and> span source (es ! i) = Some (s, t)"
    using m by (auto simp: in_set_conv_nth)
  have d: "distinct (map (\<lambda>m. snd (snd m)) (sort_key f ms))" for f :: "nat \<times> nat \<times> nat \<Rightarrow> nat \<times> nat"
  proof -
    have "mset (map (\<lambda>m. snd (snd m)) (sort_key f ms)) = mset [0..<length es]"
      by (simp flip: i)
    then show ?thesis by (metis distinct_upt mset_eq_imp_distinct_iff)
  qed
  have "mset (map (\<lambda>m. es ! snd (snd m)) (sort_key f ms)) = mset es" for f :: "nat \<times> nat \<times> nat \<Rightarrow> nat \<times> nat"
    by (metis e mset_map mset_sort)
  with all d show "mapped_ok source es (sort_key (\<lambda>(s, t, _). (s, t)) ms)"
    by (simp add: mapped_ok_def)
  show "\<forall>e \<in> set es. span source e \<noteq> None" using m by (metis in_set_conv_nth)
qed

abbreviation edits_of :: "text_edit list \<Rightarrow> (nat \<times> nat \<times> nat) list \<Rightarrow> text_edit list" where
  "edits_of es ms \<equiv> map (\<lambda>m. es ! snd (snd m)) ms"

lemma mapped_edits:
  assumes "mapped_ok source es ms"
  shows "sorted (map edit_start (edits_of es ms))" and "\<forall>e \<in> set es. ordered e"
proof -
  from assms have sp: "\<And>s t i. (s, t, i) \<in> set ms \<Longrightarrow> span source (es ! i) = Some (s, t)"
    by (auto simp: mapped_ok_def)
  show "sorted (map edit_start (edits_of es ms))"
    using assms unfolding mapped_ok_def sorted_map
    by (auto elim!: sorted_wrt_mono_rel [rotated] simp: sorted_wrt_map less_eq_prod_def
        dest!: sp dest: span_order(2))
  have "set es = set (edits_of es ms)" using assms by (metis mapped_ok_def mset_eq_setD)
  then show "\<forall>e \<in> set es. ordered e" using sp by (force simp: span_eq)
qed

lemma competes_iff:
  assumes "mapped_ok source es ms" and "ms = us @ a # b # vs"
  shows "competes a b \<longleftrightarrow> overlaps (es ! snd (snd a)) (es ! snd (snd b))"
proof -
  obtain s t i u v j where ab: "a = (s, t, i)" "b = (u, v, j)" by (metis prod.collapse)
  from assms ab have sp: "span source (es ! i) = Some (s, t)" "span source (es ! j) = Some (u, v)"
    and le: "s \<le> u" by (auto simp: mapped_ok_def sorted_append less_eq_prod_def)
  have "\<not> before (es ! j) (es ! i)" using span_order [OF sp(2,1)] le by simp
  moreover have "ordered (es ! i)" "ordered (es ! j)" using sp by (simp_all add: span_eq)
  ultimately show ?thesis
    using span_order(3) [OF sp] span_le [OF sp(1)] le by (auto simp: ab competes_def overlaps_iff)
qed

lemma windows2_map: "windows2 (map f xs) = map (map_prod f f) (windows2 xs)"
  by (induction xs rule: windows2.induct) auto

lemma check_conflicts_Inr:
  assumes "mapped_ok source es ms"
  shows "check_conflicts ms = Inr u \<longleftrightarrow> compatible es"
proof -
  note e = mapped_edits [OF assms]
  have perm: "mset es = mset (edits_of es ms)" using assms by (simp add: mapped_ok_def)
  have o: "\<forall>x \<in> set (edits_of es ms). ordered x" using e(2) perm by (metis mset_eq_setD)
  have "check_conflicts ms = Inr u \<longleftrightarrow> (\<forall>(a, b) \<in> set (windows2 ms). \<not> competes a b)"
    by (auto simp: check_conflicts_def result_iffs)
  also have "\<dots> \<longleftrightarrow> (\<forall>(a, b) \<in> set (windows2 (edits_of es ms)). \<not> overlaps a b)"
  proof -
    have "competes a b \<longleftrightarrow> overlaps (es ! snd (snd a)) (es ! snd (snd b))" if "(a, b) \<in> set (windows2 ms)" for a b
      using windows2_split [OF that] competes_iff [OF assms] by blast
    then show ?thesis unfolding windows2_map by fastforce
  qed
  also have "\<dots> \<longleftrightarrow> compatible (edits_of es ms)"
    unfolding windows2_all using sorted_compatible [OF e(1) o] by simp
  also have "\<dots> \<longleftrightarrow> compatible es" using compatible_sorted_perm(1) [OF perm e(1,2)] by simp
  finally show ?thesis .
qed

lemma try_all_Inl: "try_all f xs = Inl e \<Longrightarrow> \<exists>x \<in> set xs. f x = Inl e"
  by (induction xs) (auto simp: and_then_Inl_iff)

lemma check_conflicts_Inl:
  assumes "mapped_ok source es ms" and "check_conflicts ms = Inl err"
  shows "\<exists>i j. err = Overlapping i j \<and> i < length es \<and> j < length es \<and> i \<noteq> j \<and> overlaps (es ! i) (es ! j)"
proof -
  from assms(2) obtain a b where ab: "(a, b) \<in> set (windows2 ms)" "competes a b"
    and err: "err = Overlapping (snd (snd a)) (snd (snd b))"
    by (auto simp: check_conflicts_def check_Inl_iff dest!: try_all_Inl)
  from windows2_split [OF ab(1)] obtain us vs where ms: "ms = us @ a # b # vs" by blast
  have "snd (snd a) < length es" "snd (snd b) < length es" "snd (snd a) \<noteq> snd (snd b)"
    using assms(1) unfolding mapped_ok_def ms by (auto simp: case_prod_unfold)
  with competes_iff [OF assms(1) ms] ab(2) err show ?thesis by blast
qed

subsection \<open>The forward pass\<close>

text \<open>The reference: the edits rewrite the text one after the other, the last one first.\<close>

definition rewrite :: "bytes \<Rightarrow> text_edit \<Rightarrow> bytes \<Rightarrow> bytes" where
  "rewrite source e t =
     (case span source e of Some (a, b) \<Rightarrow> take a t @ replacement e @ drop b t | None \<Rightarrow> t)"

fun assemble :: "bytes \<Rightarrow> nat \<Rightarrow> text_edit list \<Rightarrow> bytes" where
  "assemble source c [] = drop c source"
| "assemble source c (e # es) =
     (case span source e of
        Some (a, b) \<Rightarrow> drop c (take a source) @ replacement e @ assemble source b es
      | None \<Rightarrow> assemble source c es)"

lemma foldr_rewrite:
  assumes "sorted_wrt before es" and "\<forall>e \<in> set es. span source e \<noteq> None" and "c \<le> length source"
    and "\<forall>e \<in> set es. \<forall>a b. span source e = Some (a, b) \<longrightarrow> c \<le> a \<and> b \<le> length source"
  shows "foldr (rewrite source) es source = take c source @ assemble source c es"
  using assms
proof (induction es arbitrary: c)
  case (Cons e es)
  from Cons.prems(2) obtain a b where e: "span source e = Some (a, b)" by auto
  have le: "c \<le> a" "b \<le> length source" "a \<le> b" using Cons.prems(4) e span_le [OF e] by auto
  have "foldr (rewrite source) es source = take b source @ assemble source b es"
  proof (rule Cons.IH)
    show "\<forall>f \<in> set es. \<forall>u v. span source f = Some (u, v) \<longrightarrow> b \<le> u \<and> v \<le> length source"
      using Cons.prems(1,4) span_order(3) [OF e] by auto
  qed (use Cons.prems le in auto)
  moreover have "take a source @ x = take c source @ drop c (take a source) @ x" for x
    using le(1) by (metis append_assoc append_take_drop_id min.absorb1 take_take)
  ultimately show ?case using e le by (simp add: rewrite_def [of source e])
qed simp

lemma splice_eq:
  assumes "utf8 source" and "\<forall>(s, t, i) \<in> set ms. i < length es \<and> span source (es ! i) = Some (s, t)"
    and "sorted_wrt before (edits_of es ms)" and "boundary source c"
    and "\<forall>(s, t, i) \<in> set ms. c \<le> s"
  shows "splice source es c ms out = Some (out @ assemble source c (edits_of es ms))"
  using assms(2-)
proof (induction ms arbitrary: c out)
  case Nil
  then show ?case by (simp add: str_slice_Some boundary_le)
next
  case (Cons m ms)
  obtain s t i where m: "m = (s, t, i)" by (metis prod.collapse)
  with Cons.prems have i: "i < length es" "span source (es ! i) = Some (s, t)" "c \<le> s" by auto
  then have b: "boundary source s" "boundary source t"
    using locate_bounds(1) [OF assms(1)] by (auto simp: span_eq)
  have "\<forall>(u, v, j) \<in> set ms. t \<le> u"
    using Cons.prems(1,2) span_order(3) [OF i(2)] by (fastforce simp: m)
  then have "splice source es t ms out' = Some (out' @ assemble source t (edits_of es ms))" for out'
    using Cons.prems b(2) by (intro Cons.IH) auto
  with m i b Cons.prems(3) show ?case by (simp add: str_slice_Some idx_in)
qed

lemma fix_capacity_total:
  assumes "mapped_ok source es ms"
  shows "fix_capacity source es ms \<noteq> None"
proof -
  have "\<forall>(s, t, i) \<in> set ms. i < length es \<and> s \<le> t"
    using assms span_le by (fastforce simp: mapped_ok_def)
  then have "traverse (\<lambda>(s, t, _). do { require (s \<le> t); Some (t - s) }) ms = Some (map (\<lambda>(s, t, _). t - s) ms)"
    "traverse (\<lambda>(_, _, i). do { e \<leftarrow> idx es i; Some (length (replacement e)) }) ms =
      Some (map (\<lambda>(_, _, i). length (replacement (es ! i))) ms)"
    by (intro traverse_Some; auto simp: panic_simps)+
  then show ?thesis by (simp add: fix_capacity_def)
qed

lemma utf8_assemble:
  assumes "utf8 source" and "\<forall>e \<in> set es. utf8 (replacement e)" and "boundary source c"
  shows "utf8 (assemble source c es)"
  using assms(2,3)
proof (induction es arbitrary: c)
  case (Cons e es)
  show ?case
  proof (cases "span source e")
    case (Some ab)
    obtain a b where ab: "ab = (a, b)" by (cases ab)
    with Some have "boundary source a" "boundary source b"
      using locate_bounds(1) [OF assms(1)] by (auto simp: span_eq)
    with Cons Some ab assms(1) show ?thesis
      by (cases "c \<le> a") (auto intro!: utf8_append utf8_cut(2) [OF utf8_cut(1)] boundary_take)
  qed (use Cons in simp)
qed (use assms(1) utf8_cut(2) in simp)

subsection \<open>The edit engine\<close>

definition fixed_text :: "bytes \<Rightarrow> text_edit list \<Rightarrow> bytes" where
  "fixed_text source es = foldr (rewrite source) (sort_key edit_start es) source"

lemma apply_fixes_cases:
  assumes u: "utf8 source"
  shows "(\<exists>k err. apply_fixes source es = Some (Inl err) \<and> k < length es \<and>
      (\<forall>j < k. span source (es ! j) \<noteq> None) \<and> bad_edit source k (es ! k) = Some err) \<or>
    (\<forall>e \<in> set es. span source e \<noteq> None) \<and> \<not> compatible es \<and>
      (\<exists>i j. apply_fixes source es = Some (Inl (Overlapping i j)) \<and> i < length es \<and> j < length es \<and>
         i \<noteq> j \<and> overlaps (es ! i) (es ! j)) \<or>
    (\<forall>e \<in> set es. span source e \<noteq> None) \<and> compatible es \<and>
      apply_fixes source es = Some (Inr (fixed_text source es)) \<and>
      fixed_text source es = assemble source 0 (sort_key edit_start es)"
proof -
  obtain ascii where ascii: "ascii_lines (line_starts source) source = Some ascii"
    by (simp add: ascii_lines_eq [OF u])
  note r = resolve_pos_locate [OF u ascii]
  show ?thesis
  proof (cases "map_edits (line_starts source) ascii source 0 es")
    case (Inl err)
    then have "apply_fixes source es = Some (Inl err)" by (simp add: apply_fixes_def ascii)
    with map_edits_Inl [OF r Inl] show ?thesis by auto
  next
    case (Inr ms)
    define mapped where "mapped = sort_key (\<lambda>(s, t, _). (s, t)) ms"
    note ok = mapped_okI [OF r Inr, folded mapped_def]
    note e = mapped_edits [OF ok(1)]
    show ?thesis
    proof (cases "check_conflicts mapped")
      case c: (Inl err)
      with Inr have "apply_fixes source es = Some (Inl err)"
        by (simp add: apply_fixes_def ascii mapped_def)
      moreover have "\<not> compatible es" using check_conflicts_Inr [OF ok(1)] c by fastforce
      ultimately show ?thesis using ok(2) check_conflicts_Inl [OF ok(1) c] by blast
    next
      case c: (Inr v)
      let ?E = "sort_key edit_start es"
      have comp: "compatible es" using check_conflicts_Inr [OF ok(1)] c by blast
      have perm: "mset es = mset (edits_of es mapped)" using ok(1) by (simp add: mapped_ok_def)
      have E: "edits_of es mapped = ?E" using compatible_sorted_perm(2) [OF perm e comp] .
      have before: "sorted_wrt before ?E"
        using comp e(2) sorted_compatible(2) [of ?E] by (simp add: compatible_sort)
      have sp: "\<forall>(s, t, i) \<in> set mapped. i < length es \<and> span source (es ! i) = Some (s, t)"
        using ok(1) by (simp add: mapped_ok_def)
      have "splice source es 0 mapped [] = Some (assemble source 0 ?E)"
        using splice_eq [OF u sp, of 0 "[]"] before by (simp add: E)
      with Inr c have "apply_fixes source es = Some (Inr (assemble source 0 ?E))"
        using fix_capacity_total [OF ok(1)] by (auto simp: apply_fixes_def ascii mapped_def)
      moreover have "fixed_text source es = assemble source 0 ?E"
        unfolding fixed_text_def using foldr_rewrite [OF before, of source 0] ok(2) locate_bounds(2) [OF u]
        by (auto simp: span_eq)
      ultimately show ?thesis using comp ok(2) by simp
    qed
  qed
qed

lemma compatible_nth: "compatible es \<longleftrightarrow> (\<forall>j < length es. \<forall>i < j. \<not> overlaps (es ! i) (es ! j))"
  unfolding compatible_def sorted_wrt_iff_nth_less by blast

lemma apply_fixes_Inr:
  assumes "utf8 source"
  shows "apply_fixes source es = Some (Inr out) \<longleftrightarrow>
    (\<forall>e \<in> set es. span source e \<noteq> None) \<and> compatible es \<and> out = fixed_text source es"
  using apply_fixes_cases [OF assms, of es] by (auto simp: bad_edit_None [symmetric])
    (metis bad_edit_None nth_mem option.distinct(1))+

lemma fixed_text_perm:
  assumes m: "mset es = mset fs" and c: "compatible es" and sp: "\<forall>e \<in> set es. span source e \<noteq> None"
  shows "compatible fs \<and> fixed_text source es = fixed_text source fs"
proof -
  from sp have o: "\<forall>e \<in> set es. ordered e" by (auto simp: span_eq)
  have s: "sorted (map edit_start (sort_key edit_start fs))" by simp
  have m': "mset es = mset (sort_key edit_start fs)" using m by simp
  show ?thesis
    using compatible_sorted_perm [OF m' s o] c compatible_sort by (metis fixed_text_def)
qed

definition sample_source :: bytes where
  "sample_source = [CHR ''a'', CHR ''b'', CHR 0x0D, CHR 0x0A, CHR 0xC3, CHR 0xA9, CHR ''d'']"

definition sample_edits :: "text_edit list" where
  "sample_edits = [edit_at 2 1 2 ''xyz'', edit_at 1 1 2 []]"

lemma sample_utf8: "utf8 sample_source"
  by code_simp

lemma sample_fixed: "apply_fixes sample_source sample_edits =
    Some (Inr [CHR ''a'', CHR 0x0D, CHR 0x0A, CHR 0xC3, CHR 0xA9, CHR ''x'', CHR ''y'', CHR ''z''])"
  by code_simp

subsection \<open>Properties\<close>

text \<open>C1: On valid UTF-8, \<open>apply_fixes\<close> succeeds exactly when every edit has an ordered range
  that exists in the source and no two edits overlap in the sense of \<open>TextEdit::overlaps\<close>;
  the single forward pass then returns the text that rewriting the edits one by one, in
  descending start order, produces.\<close>

theorem apply_fixes_correct:
  assumes "utf8 source"
  shows "apply_fixes source es = Some (Inr out) \<longleftrightarrow>
    (\<forall>e \<in> set es. edit_start e \<le> edit_end e \<and>
       locate source (edit_start e) \<noteq> None \<and> locate source (edit_end e) \<noteq> None) \<and>
    (\<forall>j < length es. \<forall>i < j. \<not> overlaps (es ! i) (es ! j)) \<and>
    out = foldr (rewrite source) (sort_key edit_start es) source"
proof -
  have "span source e \<noteq> None \<longleftrightarrow> edit_start e \<le> edit_end e \<and>
      locate source (edit_start e) \<noteq> None \<and> locate source (edit_end e) \<noteq> None" for e
    by (cases "locate source (edit_start e)"; cases "locate source (edit_end e)")
      (simp_all add: span_def ordered_def)
  then show ?thesis
    unfolding apply_fixes_Inr [OF assms] compatible_nth fixed_text_def by simp
qed

theorem apply_fixes_correct_witness:
  "foldr (rewrite sample_source) (sort_key edit_start sample_edits) sample_source =
     [CHR ''a'', CHR 0x0D, CHR 0x0A, CHR 0xC3, CHR 0xA9, CHR ''x'', CHR ''y'', CHR ''z'']"
  using apply_fixes_correct [OF sample_utf8, THEN iffD1, OF sample_fixed] by simp

text \<open>C34: On valid UTF-8 \<open>apply_fixes\<close> never panics, and its error tells what is wrong: the
  first edit, in input order, whose range is inverted or leaves the source, and only when
  there is none, two different edits that overlap.\<close>

theorem apply_fixes_errors:
  assumes "utf8 source"
  shows "\<exists>r. apply_fixes source es = Some r \<and> (\<forall>err. r = Inl err \<longrightarrow>
    (case err of
       Overlapping i j \<Rightarrow> (\<forall>e \<in> set es. span source e \<noteq> None) \<and>
         i < length es \<and> j < length es \<and> i \<noteq> j \<and> overlaps (es ! i) (es ! j)
     | InvertedRange k \<Rightarrow> k < length es \<and> (\<forall>j < k. span source (es ! j) \<noteq> None) \<and>
         edit_end (es ! k) < edit_start (es ! k)
     | OutOfBounds k p \<Rightarrow> k < length es \<and> (\<forall>j < k. span source (es ! j) \<noteq> None) \<and>
         locate source p = None \<and> edit_start (es ! k) \<le> edit_end (es ! k) \<and>
         (p = edit_start (es ! k) \<or> locate source (edit_start (es ! k)) \<noteq> None \<and> p = edit_end (es ! k))))"
proof -
  note c = apply_fixes_cases [OF assms, of es]
  then consider
      (bad) k err where "apply_fixes source es = Some (Inl err)" "k < length es"
        "\<forall>j < k. span source (es ! j) \<noteq> None" "bad_edit source k (es ! k) = Some err"
    | (conflict) i j where "apply_fixes source es = Some (Inl (Overlapping i j))" "i < length es" "j < length es"
        "i \<noteq> j" "overlaps (es ! i) (es ! j)" "\<forall>e \<in> set es. span source e \<noteq> None"
    | (fine) "apply_fixes source es = Some (Inr (fixed_text source es))"
    by blast
  then show ?thesis
  proof cases
    case bad
    then show ?thesis by (auto simp: bad_edit_def ordered_def not_le split: if_splits)
  qed simp_all
qed

theorem apply_fixes_errors_witness:
  "\<exists>r. apply_fixes sample_source [edit_at 1 0 2 ''x'', edit_at 2 5 5 ''y''] = Some r \<and>
     r = Inl (OutOfBounds 1 (Pos 2 5)) \<and> locate sample_source (Pos 2 5) = None"
proof -
  have "apply_fixes sample_source [edit_at 1 0 2 ''x'', edit_at 2 5 5 ''y''] = Some (Inl (OutOfBounds 1 (Pos 2 5)))"
    by code_simp
  with apply_fixes_errors [OF sample_utf8, of "[edit_at 1 0 2 ''x'', edit_at 2 5 5 ''y'']"]
  show ?thesis by simp
qed

text \<open>The order in which edits are supplied does not matter, and the rewritten text is valid
  UTF-8 when the source and the replacements are.\<close>

theorem apply_fixes_order_independent:
  assumes "utf8 source" and "apply_fixes source es = Some (Inr out)" and "mset fs = mset es"
  shows "apply_fixes source fs = Some (Inr out) \<and>
    ((\<forall>e \<in> set es. utf8 (replacement e)) \<longrightarrow> utf8 out)"
proof
  from assms(2) have a: "\<forall>e \<in> set es. span source e \<noteq> None" "compatible es" "out = fixed_text source es"
    using apply_fixes_Inr [OF assms(1)] by auto
  with fixed_text_perm [OF assms(3) [symmetric], of source] mset_eq_setD [OF assms(3)]
  show "apply_fixes source fs = Some (Inr out)" by (auto simp: apply_fixes_Inr [OF assms(1)])
  have "out = assemble source 0 (sort_key edit_start es)"
    using apply_fixes_cases [OF assms(1), of es] assms(2) by auto
  then show "(\<forall>e \<in> set es. utf8 (replacement e)) \<longrightarrow> utf8 out"
    by (auto intro: utf8_assemble [OF assms(1)])
qed

theorem apply_fixes_order_independent_witness:
  "\<exists>out. apply_fixes sample_source (rev sample_edits) = Some (Inr out) \<and> utf8 out"
  using apply_fixes_order_independent [OF sample_utf8 sample_fixed, of "rev sample_edits"]
  by (auto simp: sample_edits_def edit_at_def Let_def utf8_width_ascii)

end
