(* ===== verification/OrdMap.thy ===== *)
theory OrdMap
  imports Prelude
begin

text \<open>
  \<open>BTreeMap\<close> as a list of bindings in ascending key order, so that iteration is the list
  itself. \<open>bt_put\<close> is \<open>insert\<close>, \<open>map_of\<close> is \<open>get\<close>, \<open>bt_del\<close> is \<open>remove\<close>. The locale
  \<open>keyed_store\<close> is what clients use: a lookup after an insertion. It carries the loops the
  sources write over maps: updating an entry per element and indexing elements by a key while
  rejecting duplicates.
\<close>

type_synonym ('k, 'v) btree = "('k \<times> 'v) list"

fun bt_put :: "'k :: linorder \<Rightarrow> 'v \<Rightarrow> ('k, 'v) btree \<Rightarrow> ('k, 'v) btree" where
  "bt_put k v [] = [(k, v)]"
| "bt_put k v ((l, w) # m) =
     (if k < l then (k, v) # (l, w) # m else if k = l then (l, v) # m else (l, w) # bt_put k v m)"

fun bt_del :: "'k :: linorder \<Rightarrow> ('k, 'v) btree \<Rightarrow> ('k, 'v) btree" where
  "bt_del k [] = []"
| "bt_del k ((l, w) # m) = (if k = l then m else (l, w) # bt_del k m)"

abbreviation bt_ok :: "('k :: linorder, 'v) btree \<Rightarrow> bool" where
  "bt_ok m \<equiv> sorted_wrt (<) (map fst m)"

lemma bt_put_keys [simp]: "fst ` set (bt_put k v m) = insert k (fst ` set m)"
  by (induction k v m rule: bt_put.induct) auto

lemma bt_put_get [simp]: "map_of (bt_put k v m) = (map_of m)(k \<mapsto> v)"
  by (induction k v m rule: bt_put.induct) auto

lemma bt_put_ok [simp]: "bt_ok m \<Longrightarrow> bt_ok (bt_put k v m)"
proof (induction k v m rule: bt_put.induct)
  case (2 k v l w m)
  have "\<forall>x \<in> fst ` set (bt_put k v m). l < x" if "\<not> k < l" "k \<noteq> l"
    using that 2(2) by auto
  with 2 show ?case by (auto simp: image_iff)
qed simp

lemma bt_del_keys: "bt_ok m \<Longrightarrow> fst ` set (bt_del k m) = fst ` set m - {k}"
  by (induction k m rule: bt_del.induct) auto

lemma bt_del_get: "bt_ok m \<Longrightarrow> map_of (bt_del k m) l = (if l = k then None else map_of m l)"
proof (induction k m rule: bt_del.induct)
  case (2 k l' w m)
  have "map_of m l' = None" using 2(2) by (auto simp: map_of_eq_None_iff)
  with 2 show ?case by auto
qed simp

lemma bt_del_ok: "bt_ok m \<Longrightarrow> bt_ok (bt_del k m)"
proof (induction k m rule: bt_del.induct)
  case (2 k l w m)
  then have "\<forall>x \<in> fst ` set (bt_del k m). l < x" by (auto simp: bt_del_keys)
  with 2 show ?case by (auto simp: image_iff)
qed simp

lemma bt_distinct: "bt_ok m \<Longrightarrow> distinct (map fst m)"
  by (simp add: strict_sorted_iff)

lemma bt_get_iff: "bt_ok m \<Longrightarrow> map_of m k = Some v \<longleftrightarrow> (k, v) \<in> set m"
  by (simp add: bt_distinct map_of_eq_Some_iff)

text \<open>Two maps with the same lookups are the same list.\<close>

lemma bt_ext:
  assumes "bt_ok m" "bt_ok n" "map_of m = map_of n"
  shows "m = n"
proof -
  have "set m = set n" using assms by (auto simp flip: bt_get_iff)
  moreover have "sorted_wrt (\<lambda>x y. fst x < fst y) m" "sorted_wrt (\<lambda>x y. fst x < fst y) n"
    using assms(1,2) by (simp_all add: sorted_wrt_map)
  ultimately show ?thesis
  proof (induction m arbitrary: n)
    case (Cons x m)
    then obtain y n' where n: "n = y # n'" by (cases n) auto
    have xy: "x = y"
    proof (rule ccontr)
      assume "x \<noteq> y"
      with Cons.prems n have "x \<in> set n'" "y \<in> set m" by auto
      with Cons.prems(2,3) n have "fst x < fst y" "fst y < fst x" by auto
      then show False by simp
    qed
    with Cons.prems n have "x \<notin> set m" "y \<notin> set n'" by auto
    with Cons.prems(1) n xy have "set m = set n'" by auto
    with Cons n xy show ?case by simp
  qed simp
qed

subsection \<open>Loops over maps\<close>

text \<open>One pass that updates the entry of each element's key: \<open>f x\<close> receives the old value.\<close>

definition bt_each :: "('x \<Rightarrow> 'k :: linorder) \<Rightarrow> ('x \<Rightarrow> 'v option \<Rightarrow> 'v) \<Rightarrow> 'x list \<Rightarrow> ('k, 'v) btree \<Rightarrow> ('k, 'v) btree" where
  "bt_each key f xs m = fold (\<lambda>x m. bt_put (key x) (f x (map_of m (key x))) m) xs m"

text \<open>Indexing by a fallible key: \<open>key x\<close> is the key with the value to store, and the first
  duplicate key is an error.\<close>

fun bt_index :: "('x \<Rightarrow> 'e + 'k :: linorder \<times> 'v) \<Rightarrow> ('v \<Rightarrow> 'e) \<Rightarrow> 'x list \<Rightarrow> ('k, 'v) btree \<Rightarrow> 'e + ('k, 'v) btree" where
  "bt_index key dup [] m = Inr m"
| "bt_index key dup (x # xs) m = and_then (key x) (\<lambda>(k, v).
     and_then (check (map_of m k = None) (dup v)) (\<lambda>_. bt_index key dup xs (bt_put k v m)))"

locale keyed_store =
  fixes get :: "'m \<Rightarrow> 'k \<Rightarrow> 'v option"
    and put :: "'k \<Rightarrow> 'v \<Rightarrow> 'm \<Rightarrow> 'm"
  assumes get_put: "get (put k v m) l = (if l = k then Some v else get m l)"
begin

lemma get_each:
  "get (fold (\<lambda>x m. put (key x) (f x (get m (key x))) m) xs m) k =
     fold (\<lambda>x v. Some (f x v)) (filter (\<lambda>x. key x = k) xs) (get m k)"
  by (induction xs arbitrary: m) (auto simp: get_put)

end

interpretation bt: keyed_store "map_of :: ('k :: linorder, 'v) btree \<Rightarrow> 'k \<Rightarrow> 'v option" bt_put
  by unfold_locales simp

lemma bt_each_get:
  "map_of (bt_each key f xs m) k = fold (\<lambda>x v. Some (f x v)) (filter (\<lambda>x. key x = k) xs) (map_of m k)"
  unfolding bt_each_def by (rule bt.get_each)

lemma bt_each_ok: "bt_ok m \<Longrightarrow> bt_ok (bt_each key f xs m)"
  unfolding bt_each_def by (induction xs arbitrary: m) auto

text \<open>Counting and grouping are instances.\<close>

lemma fold_count:
  "fold (\<lambda>x v. Some (Suc (case v of None \<Rightarrow> 0 | Some n \<Rightarrow> n))) ys v =
     (if ys = [] then v else Some ((case v of None \<Rightarrow> 0 | Some n \<Rightarrow> n) + length ys))"
  by (induction ys arbitrary: v) auto

lemma fold_group:
  "fold (\<lambda>x v. Some ((case v of None \<Rightarrow> [] | Some zs \<Rightarrow> zs) @ [x])) ys v =
     (if ys = [] then v else Some ((case v of None \<Rightarrow> [] | Some zs \<Rightarrow> zs) @ ys))"
  by (induction ys arbitrary: v) auto

lemma bt_count_get:
  "map_of (bt_each key (\<lambda>x v. Suc (case v of None \<Rightarrow> 0 | Some n \<Rightarrow> n)) xs []) k =
     (let n = length (filter (\<lambda>x. key x = k) xs) in if n = 0 then None else Some n)"
  by (simp add: bt_each_get fold_count Let_def)

lemma bt_group_get:
  "map_of (bt_each key (\<lambda>x v. (case v of None \<Rightarrow> [] | Some zs \<Rightarrow> zs) @ [x]) xs []) k =
     (let ys = filter (\<lambda>x. key x = k) xs in if ys = [] then None else Some ys)"
  by (simp add: bt_each_get fold_group Let_def)

lemma bt_index_Inr:
  assumes "bt_index key dup xs m = Inr n" and "bt_ok m"
  shows "bt_ok n \<and> (\<exists>kvs. list_all2 (\<lambda>x kv. key x = Inr kv) xs kvs \<and> distinct (map fst kvs) \<and>
     fst ` set kvs \<inter> fst ` set m = {} \<and> map_of n = map_of m ++ map_of kvs)"
  using assms
proof (induction xs arbitrary: m)
  case Nil
  then show ?case by auto
next
  case (Cons x xs)
  then obtain k v where k: "key x = Inr (k, v)" "map_of m k = None" "bt_index key dup xs (bt_put k v m) = Inr n"
    by (auto simp: result_iffs)
  from Cons.IH [OF k(3) bt_put_ok [OF Cons.prems(2)]] obtain kvs where n: "bt_ok n"
    "list_all2 (\<lambda>x kv. key x = Inr kv) xs kvs" "distinct (map fst kvs)" "fst ` set kvs \<inter> insert k (fst ` set m) = {}"
    "map_of n = map_of (bt_put k v m) ++ map_of kvs" unfolding bt_put_keys by blast
  have "map_of kvs k = None"
    using n(4) by (auto simp: map_of_eq_None_iff)
  then have "map_of n = map_of m ++ map_of ((k, v) # kvs)"
    by (auto simp: n(5) map_add_def fun_eq_iff split: option.splits)
  moreover have "fst ` set ((k, v) # kvs) \<inter> fst ` set m = {}" using n(4) k(2) by (auto simp: map_of_eq_None_iff)
  moreover have "list_all2 (\<lambda>x kv. key x = Inr kv) (x # xs) ((k, v) # kvs)" "distinct (map fst ((k, v) # kvs))"
    using n k(1) by auto
  ultimately show ?case using n(1) by blast
qed

lemma bt_index_exists:
  assumes "list_all2 (\<lambda>x kv. key x = Inr kv) xs kvs" and "distinct (map fst kvs)" and "fst ` set kvs \<inter> fst ` set m = {}"
  shows "\<exists>n. bt_index key dup xs m = Inr n"
  using assms
proof (induction xs arbitrary: kvs m)
  case (Cons x xs)
  then obtain k v kvs' where k: "kvs = (k, v) # kvs'" "key x = Inr (k, v)" "list_all2 (\<lambda>x kv. key x = Inr kv) xs kvs'"
    by (auto simp: list_all2_Cons1)
  moreover have "map_of m k = None" using Cons.prems(3) k(1) by (auto simp: map_of_eq_None_iff)
  moreover have "\<exists>n. bt_index key dup xs (bt_put k v m) = Inr n"
    using Cons.prems k by (intro Cons.IH) auto
  ultimately show ?case by simp
qed simp

lemma list_all2_Inr_mem: "list_all2 (\<lambda>x y. f x = Inr y) xs ys \<Longrightarrow> y \<in> set ys \<longleftrightarrow> (\<exists>x \<in> set xs. f x = Inr y)"
  by (induction rule: list_all2_induct) auto

text \<open>From the empty map: the bindings of the result are the keyed elements.\<close>

lemma bt_index_empty:
  assumes "bt_index key dup xs [] = Inr n"
  shows "bt_ok n" and "length n = length xs" and "kv \<in> set n \<longleftrightarrow> (\<exists>x \<in> set xs. key x = Inr kv)"
    and "\<exists>kvs. list_all2 (\<lambda>x kv. key x = Inr kv) xs kvs \<and> distinct (map fst kvs) \<and> set n = set kvs"
proof -
  from bt_index_Inr [OF assms] obtain kvs where n: "bt_ok n" "list_all2 (\<lambda>x kv. key x = Inr kv) xs kvs"
    "distinct (map fst kvs)" "map_of n = map_of kvs" by auto
  have set: "set n = set kvs"
  proof (rule set_eqI)
    fix kv
    show "kv \<in> set n \<longleftrightarrow> kv \<in> set kvs"
      using bt_get_iff [OF n(1)] map_of_eq_Some_iff [OF n(3)] n(4) by (cases kv) metis
  qed
  show "bt_ok n" by (rule n(1))
  have "length n = card (set n)" "length kvs = card (set kvs)"
    using bt_distinct [OF n(1)] n(3) by (metis distinct_card distinct_map)+
  then show "length n = length xs" using n(2) set by (simp add: list_all2_lengthD)
  show "kv \<in> set n \<longleftrightarrow> (\<exists>x \<in> set xs. key x = Inr kv)"
    using n(2) unfolding set by (rule list_all2_Inr_mem)
  show "\<exists>kvs. list_all2 (\<lambda>x kv. key x = Inr kv) xs kvs \<and> distinct (map fst kvs) \<and> set n = set kvs"
    using n set by blast
qed

end
