(* ===== verification/Paths.thy ===== *)
theory Paths
  imports Findings
begin

text \<open>
  Path spelling of \<open>crates/hoonarqube-ir/src/assessment.rs\<close>. A \<open>PathBuf\<close> is the string of its
  bytes. Equality, order and map lookup of \<open>Path\<close>s compare components, not bytes; \<open>path_key\<close>
  is the component list of \<open>std::path\<close> on Unix, and \<open>path_eq\<close> and \<open>path_less\<close> compare keys.
  \<open>normalize_path\<close> is the lexical normalization of the artifacts.
\<close>

type_synonym path = string

subsection \<open>Components\<close>

datatype component = RootDir | CurDir | ParentDir | Normal string

fun component_rank :: "component \<Rightarrow> nat \<times> string" where
  "component_rank RootDir = (0, [])"
| "component_rank CurDir = (1, [])"
| "component_rank ParentDir = (2, [])"
| "component_rank (Normal s) = (3, s)"

lemma component_rank_inj: "component_rank c = component_rank d \<longleftrightarrow> c = d"
  by (cases c; cases d) simp_all

instantiation component :: linorder
begin

definition less_eq_component :: "component \<Rightarrow> component \<Rightarrow> bool" where
  "less_eq_component c d \<longleftrightarrow> component_rank c \<le> component_rank d"

definition less_component :: "component \<Rightarrow> component \<Rightarrow> bool" where
  "less_component c d \<longleftrightarrow> component_rank c < component_rank d"

instance
proof
  fix c d e :: component
  show "c < d \<longleftrightarrow> c \<le> d \<and> \<not> d \<le> c"
    unfolding less_component_def less_eq_component_def by (rule less_le_not_le)
  show "c \<le> c" unfolding less_eq_component_def by (rule order_refl)
  show "c \<le> d \<Longrightarrow> d \<le> e \<Longrightarrow> c \<le> e"
    unfolding less_eq_component_def by (rule order_trans)
  show "c \<le> d \<Longrightarrow> d \<le> c \<Longrightarrow> c = d"
    unfolding less_eq_component_def using component_rank_inj antisym by blast
  show "c \<le> d \<or> d \<le> c" unfolding less_eq_component_def by (rule linear)
qed

end

text \<open>\<open>str::split\<close> on one character.\<close>

fun split_on :: "char \<Rightarrow> string \<Rightarrow> string list" where
  "split_on c [] = [[]]"
| "split_on c (x # xs) =
     (if x = c then [] # split_on c xs
      else (case split_on c xs of [] \<Rightarrow> [[x]] | y # ys \<Rightarrow> (x # y) # ys))"

definition join_with :: "char \<Rightarrow> string list \<Rightarrow> string" where
  "join_with c xs = (case xs of [] \<Rightarrow> [] | y # ys \<Rightarrow> y @ concat (map ((#) c) ys))"

definition path_component :: "string \<Rightarrow> component" where
  "path_component s = (if s = ''..'' then ParentDir else Normal s)"

definition path_key :: "path \<Rightarrow> component list" where
  "path_key p =
     (if p = [] then [] else
      (if hd p = CHR ''/'' then [RootDir]
       else if hd (split_on (CHR ''/'') p) = ''.'' then [CurDir] else []) @
      map path_component (filter (\<lambda>s. s \<noteq> [] \<and> s \<noteq> ''.'') (split_on (CHR ''/'') p)))"

abbreviation path_eq :: "path \<Rightarrow> path \<Rightarrow> bool" where
  "path_eq p q \<equiv> path_key p = path_key q"

abbreviation path_less :: "path \<Rightarrow> path \<Rightarrow> bool" where
  "path_less p q \<equiv> path_key p < path_key q"

subsection \<open>Normalization\<close>

datatype assessment_error =
    UnsupportedSchema string u32
  | Invalid string string
  | InvalidPath path
  | InvalidSource path
  | MissingSource path
  | DuplicatePath path

definition split_drive_prefix :: "string \<Rightarrow> string option \<times> string" where
  "split_drive_prefix p =
     (if 2 \<le> length p \<and> p ! 1 = CHR '':'' then (Some (take 2 p), drop 2 p) else (None, p))"

text \<open>The loop over the components; the accumulated list is kept with its last element first.\<close>

fun push_components :: "string list \<Rightarrow> string list \<Rightarrow> path \<Rightarrow> assessment_error + string list" where
  "push_components [] acc invalid = Inr (rev acc)"
| "push_components (c # cs) acc invalid =
     (if c = [] \<or> c = ''.'' then push_components cs acc invalid
      else if c = ''..'' then
        (case acc of [] \<Rightarrow> Inl (InvalidPath invalid) | _ # acc' \<Rightarrow> push_components cs acc' invalid)
      else push_components cs (c # acc) invalid)"

definition normalized_path_components :: "string \<Rightarrow> path \<Rightarrow> assessment_error + string list" where
  "normalized_path_components rest invalid = push_components (split_on (CHR ''/'') rest) [] invalid"

definition normalized_drive_path :: "string \<Rightarrow> bool \<Rightarrow> string \<Rightarrow> string" where
  "normalized_drive_path drive absolute joined =
     (if absolute then (if joined = [] then drive @ ''/'' else drive @ ''/'' @ joined)
      else if joined = [] then drive @ ''.'' else drive @ joined)"

definition normalized_non_drive_path :: "bool \<Rightarrow> string \<Rightarrow> string" where
  "normalized_non_drive_path absolute joined =
     (if absolute then (if joined = [] then ''/'' else ''/'' @ joined)
      else if joined = [] then ''.'' else joined)"

definition build_normalized_path :: "string option \<Rightarrow> bool \<Rightarrow> string \<Rightarrow> path" where
  "build_normalized_path drive absolute joined =
     (case drive of Some d \<Rightarrow> normalized_drive_path d absolute joined
      | None \<Rightarrow> normalized_non_drive_path absolute joined)"

definition replace_backslash :: "string \<Rightarrow> string" where
  "replace_backslash = map (\<lambda>c. if c = CHR 0x5C then CHR ''/'' else c)"

definition normalize_path :: "path \<Rightarrow> assessment_error + path" where
  "normalize_path raw =
     and_then (check (utf8 raw) (InvalidPath ''path is not valid UTF-8'')) (\<lambda>_.
     and_then (check (\<not> (raw = [] \<or> CHR 0x00 \<in> set raw)) (InvalidPath raw)) (\<lambda>_.
      let replaced = replace_backslash raw;
          (drive, rest) = split_drive_prefix replaced;
          absolute = (rest \<noteq> [] \<and> hd rest = CHR ''/'') in
      and_then (normalized_path_components rest replaced) (\<lambda>components.
      Inr (build_normalized_path drive absolute (join_with (CHR ''/'') components)))))"

subsection \<open>Splitting and joining\<close>

lemma split_on_nonempty [simp]: "split_on c s \<noteq> []"
  by (induction s) (auto split: list.splits)

lemma split_on_no_sep: "x \<in> set (split_on c s) \<Longrightarrow> c \<notin> set x"
  by (induction s arbitrary: x) (auto split: list.splits if_splits)

lemma split_on_absent: "c \<notin> set s \<Longrightarrow> split_on c s = [s]"
  by (induction s) auto

lemma split_on_append: "c \<notin> set x \<Longrightarrow> split_on c (x @ c # s) = x # split_on c s"
  by (induction x) auto

lemma join_with_simps [simp]: "join_with c [] = []" "join_with c [x] = x"
  "join_with c (x # y # ys) = x @ c # join_with c (y # ys)"
  by (simp_all add: join_with_def)

lemma split_join: "xs \<noteq> [] \<Longrightarrow> \<forall>x \<in> set xs. c \<notin> set x \<Longrightarrow> split_on c (join_with c xs) = xs"
  by (induction xs rule: induct_list012) (simp_all add: split_on_absent split_on_append)

lemma set_split_on: "x \<in> set (split_on c s) \<Longrightarrow> set x \<subseteq> set s"
  by (induction s arbitrary: x) (fastforce split: list.splits if_splits)+

lemma split_on_first:
  assumes "c \<in> set s"
  obtains u v where "s = u @ c # v" and "split_on c s = u # split_on c v"
  using assms split_list_first [of c s] split_on_append by metis

lemma utf8_around_ascii:
  assumes "utf8 (u @ c # v)" and "byte c < 128"
  shows "utf8 u" and "utf8 v"
proof -
  have "boundary (u @ c # v) (Suc (length u))" "boundary (u @ c # v) (length u)"
    using boundary_after_ascii [OF assms(1), of "length u"] assms(2) by simp_all
  then show "utf8 u" "utf8 v" using utf8_cut [OF assms(1)] by fastforce+
qed

lemma utf8_split_on: "utf8 s \<Longrightarrow> byte c < 128 \<Longrightarrow> x \<in> set (split_on c s) \<Longrightarrow> utf8 x"
proof (induction "length s" arbitrary: s rule: less_induct)
  case less
  show ?case
  proof (cases "c \<in> set s")
    case True
    then obtain u v where s: "s = u @ c # v" "split_on c s = u # split_on c v" by (rule split_on_first)
    with less.prems have uv: "utf8 u" "utf8 v" using utf8_around_ascii [of u c v] by auto
    show ?thesis
    proof (cases "x = u")
      case False
      with s less.prems have "x \<in> set (split_on c v)" by simp
      with uv(2) less.prems(2) less.hyps [of v] show ?thesis by (simp add: s(1))
    qed (use uv in simp)
  qed (use less in \<open>simp add: split_on_absent\<close>)
qed

lemma utf8_join: "\<forall>x \<in> set xs. utf8 x \<Longrightarrow> byte c < 128 \<Longrightarrow> utf8 (join_with c xs)"
proof (induction xs rule: induct_list012)
  case (3 x y zs)
  then have "utf8 x" "utf8 (join_with c (y # zs))" "utf8 [c]"
    by (simp_all del: utf8.simps) (rule utf8_ascii, simp)
  then have "utf8 (x @ [c] @ join_with c (y # zs))" by blast
  then show ?case by simp
qed simp_all

lemma set_join: "set (join_with c xs) \<subseteq> insert c (\<Union> (set ` set xs))"
  by (induction xs rule: induct_list012) auto

lemma utf8_replace_backslash: "utf8 s \<Longrightarrow> utf8 (replace_backslash s)"
proof -
  let ?f = "\<lambda>c. if c = CHR 0x5C then CHR ''/'' else c"
  have "scalar (map ?f c)" if "scalar c" for c
  proof (cases "CHR 0x5C \<in> set c")
    case True
    with that have "hd c = CHR 0x5C"
      using scalar_lead [OF that] by (cases c) (auto simp: cont_def)
    with that have "c = [CHR 0x5C]"
      by (cases c) (auto simp: scalar_def utf8_width_ascii)
    then show ?thesis by simp
  next
    case False
    then have "map ?f c = c" by (intro map_idI) auto
    with that show ?thesis by simp
  qed
  then show "utf8 s \<Longrightarrow> utf8 (replace_backslash s)"
    unfolding utf8_chars replace_backslash_def by (force simp: map_concat)
qed

lemma replace_backslash_idem: "CHR 0x5C \<notin> set s \<Longrightarrow> replace_backslash s = s"
  unfolding replace_backslash_def by (intro map_idI) auto

lemma backslash_replaced: "CHR 0x5C \<notin> set (replace_backslash s)"
  by (auto simp: replace_backslash_def)

subsection \<open>Clean component lists\<close>

definition clean :: "string list \<Rightarrow> bool" where
  "clean cs \<longleftrightarrow> (\<forall>c \<in> set cs. c \<noteq> [] \<and> c \<noteq> ''.'' \<and> c \<noteq> ''..'' \<and> CHR ''/'' \<notin> set c)"

lemma push_components_clean:
  "push_components cs acc bad = Inr ds \<Longrightarrow> \<forall>c \<in> set cs. CHR ''/'' \<notin> set c \<Longrightarrow> clean acc \<Longrightarrow>
     clean ds \<and> set ds \<subseteq> set acc \<union> set cs"
proof (induction cs arbitrary: acc)
  case (Cons c cs)
  have no: "\<forall>c \<in> set cs. CHR ''/'' \<notin> set c" using Cons.prems(2) by simp
  consider "c = [] \<or> c = ''.''" | a as where "c = ''..''" "acc = a # as" | "c = ''..''" "acc = []"
    | "c \<noteq> []" "c \<noteq> ''.''" "c \<noteq> ''..''"
    by (cases acc) auto
  then show ?case
  proof cases
    case 1
    with Cons.prems(1) have "push_components cs acc bad = Inr ds" by (auto split: if_splits)
    with Cons.IH [OF _ no Cons.prems(3)] show ?thesis by auto
  next
    case 2
    with Cons.prems(1) have "push_components cs as bad = Inr ds" by simp
    moreover have "clean as" using 2 Cons.prems(3) by (simp add: clean_def)
    ultimately show ?thesis using 2 Cons.IH [OF _ no, of as] by auto
  next
    case 3
    with Cons.prems(1) show ?thesis by simp
  next
    case 4
    with Cons.prems(1) have "push_components cs (c # acc) bad = Inr ds" by simp
    moreover have "clean (c # acc)" using 4 Cons.prems(2,3) by (simp add: clean_def)
    ultimately show ?thesis using Cons.IH [OF _ no, of "c # acc"] by auto
  qed
next
  case Nil
  then have "ds = rev acc" by simp
  with Nil show ?case by (simp add: clean_def)
qed

lemma push_components_id:
  "clean cs \<Longrightarrow> push_components cs acc bad = Inr (rev acc @ cs)"
  by (induction cs arbitrary: acc) (auto simp: clean_def)

lemma normalized_components_clean:
  assumes "normalized_path_components rest bad = Inr cs"
  shows "clean cs" and "set cs \<subseteq> set (split_on (CHR ''/'') rest)"
  using push_components_clean [OF assms [unfolded normalized_path_components_def]] split_on_no_sep
  by (auto simp: clean_def)

lemma clean_join_empty: "clean cs \<Longrightarrow> join_with c cs = [] \<longleftrightarrow> cs = []"
  by (induction cs rule: induct_list012) (auto simp: clean_def)

text \<open>A rendered component list is read back.\<close>

lemma rendered:
  assumes "clean cs" and r: "r = normalized_non_drive_path absolute (join_with (CHR ''/'') cs)"
  shows "r \<noteq> []" and "hd r = CHR ''/'' \<longleftrightarrow> absolute" and "normalized_path_components r bad = Inr cs"
    and "path_key r = (if absolute then [RootDir] else if cs = [] then [CurDir] else []) @ map Normal cs"
proof -
  note e = clean_join_empty [OF assms(1), of "CHR ''/''"]
  have split: "cs \<noteq> [] \<Longrightarrow> split_on (CHR ''/'') (join_with (CHR ''/'') cs) = cs"
    using assms(1) by (intro split_join) (auto simp: clean_def)
  have hd: "cs \<noteq> [] \<Longrightarrow> hd (join_with (CHR ''/'') cs) \<noteq> CHR ''/''"
  proof (cases cs)
    case (Cons x xs)
    with assms(1) have x: "x \<noteq> []" "CHR ''/'' \<notin> set x" by (simp_all add: clean_def)
    then have "hd x \<noteq> CHR ''/''" by (metis hd_in_set)
    note x = this x(1)
    with x Cons show ?thesis by (simp add: join_with_def)
  qed simp
  have "filter (\<lambda>s. s \<noteq> [] \<and> s \<noteq> ''.'') cs = cs"
    using assms(1) unfolding clean_def by (intro filter_True) blast
  moreover have "map path_component cs = map Normal cs"
    using assms(1) unfolding clean_def path_component_def by (intro map_cong) simp_all
  ultimately have f: "map path_component (filter (\<lambda>s. s \<noteq> [] \<and> s \<noteq> ''.'') cs) = map Normal cs" by simp
  have c: "cs \<noteq> [] \<Longrightarrow> hd cs \<noteq> ''.''" using assms(1) unfolding clean_def by (metis hd_in_set)
  show "r \<noteq> []" "hd r = CHR ''/'' \<longleftrightarrow> absolute"
    using e hd by (auto simp: r normalized_non_drive_path_def)
  show "normalized_path_components r bad = Inr cs"
  proof -
    have id: "push_components cs [] bad = Inr cs" using push_components_id [OF assms(1), of "[]"] by simp
    show ?thesis
    proof (cases "cs = []")
      case True
      then show ?thesis by (cases absolute) (simp_all add: r normalized_non_drive_path_def normalized_path_components_def)
    next
      case False
      with e split id show ?thesis
        by (cases absolute) (simp_all add: r normalized_non_drive_path_def normalized_path_components_def)
    qed
  qed
  consider "cs = []" "absolute" | "cs = []" "\<not> absolute" | "cs \<noteq> []" "absolute" | "cs \<noteq> []" "\<not> absolute"
    by blast
  then show "path_key r = (if absolute then [RootDir] else if cs = [] then [CurDir] else []) @ map Normal cs"
  proof cases
    case 3
    then have "r = CHR ''/'' # join_with (CHR ''/'') cs" using e by (simp add: r normalized_non_drive_path_def)
    with 3 split f show ?thesis by (simp add: path_key_def)
  next
    case 4
    then have "r = join_with (CHR ''/'') cs" using e by (simp add: r normalized_non_drive_path_def)
    with 4 e split hd f c show ?thesis by (simp add: path_key_def)
  qed (simp_all add: r normalized_non_drive_path_def path_key_def)
qed

lemma drive_path: "normalized_drive_path d absolute joined = d @ normalized_non_drive_path absolute joined"
  by (simp add: normalized_drive_path_def normalized_non_drive_path_def)

subsection \<open>Normal forms\<close>

definition drive_like :: "path \<Rightarrow> bool" where
  "drive_like p \<longleftrightarrow> 2 \<le> length p \<and> p ! 1 = CHR '':''"

lemma split_drive: "split_drive_prefix p = (if drive_like p then (Some (take 2 p), drop 2 p) else (None, p))"
  by (simp add: split_drive_prefix_def drive_like_def)

lemma normalize_path_Inr:
  assumes "normalize_path p = Inr q"
  obtains cs drive rest absolute where "clean cs" and "utf8 p" and "CHR 0x00 \<notin> set p"
    and "replace_backslash p = drive @ rest" and "drive = (if drive_like p then take 2 (replace_backslash p) else [])"
    and "absolute \<longleftrightarrow> rest \<noteq> [] \<and> hd rest = CHR ''/''"
    and "set cs \<subseteq> set (split_on (CHR ''/'') rest)"
    and "q = drive @ normalized_non_drive_path absolute (join_with (CHR ''/'') cs)"
proof -
  have drive: "drive_like (replace_backslash p) = drive_like p"
    by (auto simp: drive_like_def replace_backslash_def split: if_splits)
  define rest where "rest = (if drive_like p then drop 2 (replace_backslash p) else replace_backslash p)"
  obtain cs where cs: "normalized_path_components rest (replace_backslash p) = Inr cs"
    and u: "utf8 p" "CHR 0x00 \<notin> set p"
    and q: "q = build_normalized_path (if drive_like p then Some (take 2 (replace_backslash p)) else None)
      (rest \<noteq> [] \<and> hd rest = CHR ''/'') (join_with (CHR ''/'') cs)"
    using assms by (auto simp: normalize_path_def result_iffs Let_def split_drive drive rest_def split: if_splits)
  show thesis
    by (rule that [of cs "if drive_like p then take 2 (replace_backslash p) else []" rest "rest \<noteq> [] \<and> hd rest = CHR ''/''"])
      (use normalized_components_clean [OF cs] u q in
        \<open>auto simp: rest_def build_normalized_path_def drive_path\<close>)
qed

lemma utf8_pieces:
  assumes "utf8 (drive @ rest)" and "drive = [] \<or> (length drive = 2 \<and> drive ! 1 = CHR '':'')"
    and "set cs \<subseteq> set (split_on (CHR ''/'') rest)"
  shows "utf8 (drive @ normalized_non_drive_path absolute (join_with (CHR ''/'') cs))"
proof -
  have "utf8 drive \<and> utf8 rest"
  proof (cases "drive = []")
    case False
    with assms(2) obtain a where d: "drive = [a] @ CHR '':'' # []"
      by (cases drive; cases "tl drive") auto
    with assms(1) have "utf8 ([a] @ CHR '':'' # rest)" by simp
    then have "utf8 [a]" "utf8 rest" by (rule utf8_around_ascii; simp)+
    then show ?thesis using utf8_append [of "[a]" "'':''"] utf8_ascii [of "'':''"] d by simp
  qed (use assms in simp)
  moreover from this have "utf8 (join_with (CHR ''/'') cs)"
    using assms(3) utf8_split_on [of rest "CHR ''/''"] by (intro utf8_join) auto
  moreover have "utf8 ''/''" by (rule utf8_ascii) simp
  moreover have "utf8 ''.''" by (rule utf8_ascii) simp
  ultimately show ?thesis
    unfolding normalized_non_drive_path_def by (auto intro!: utf8_append simp: Let_def utf8_width_ascii)
qed

text \<open>A normal form is rendered from the same drive and components.\<close>

lemma normalize_path_again:
  assumes "normalize_path p = Inr q" and "drive_like p \<or> \<not> drive_like q"
  shows "normalize_path q = Inr q"
proof -
  from assms(1) obtain cs drive rest absolute where cs: "clean cs" and p: "utf8 p" "CHR 0x00 \<notin> set p"
    "replace_backslash p = drive @ rest" and d: "drive = (if drive_like p then take 2 (replace_backslash p) else [])"
    and pieces: "set cs \<subseteq> set (split_on (CHR ''/'') rest)"
    and q: "q = drive @ normalized_non_drive_path absolute (join_with (CHR ''/'') cs)"
    by (rule normalize_path_Inr)
  define r where "r = normalized_non_drive_path absolute (join_with (CHR ''/'') cs)"
  have d2: "drive = [] \<and> \<not> drive_like p \<or> length drive = 2 \<and> drive ! 1 = CHR '':'' \<and> drive_like p"
    using d by (auto simp: drive_like_def replace_backslash_def)
  note rend = rendered [OF cs r_def]
  have u: "utf8 q"
    using utf8_pieces [of drive rest cs absolute] utf8_replace_backslash [OF p(1)] p(3) d2 pieces
    by (auto simp: q)
  have set_r: "set r \<subseteq> {CHR ''/'', CHR ''.''} \<union> set rest"
  proof -
    have "set (join_with (CHR ''/'') cs) \<subseteq> insert (CHR ''/'') (set rest)"
      using set_join [of "CHR ''/''" cs] pieces set_split_on [of _ "CHR ''/''" rest] by blast
    then show ?thesis by (auto simp: r_def normalized_non_drive_path_def)
  qed
  have chars: "CHR 0x00 \<notin> set q \<and> CHR 0x5C \<notin> set q"
  proof -
    have "CHR 0x00 \<notin> set (drive @ rest)" "CHR 0x5C \<notin> set (drive @ rest)"
      using p(2) backslash_replaced [of p] unfolding p(3) [symmetric]
      by (auto simp: replace_backslash_def split: if_splits)
    with set_r show ?thesis by (auto simp: q r_def [symmetric])
  qed
  have plain: "replace_backslash q = q" using chars by (simp add: replace_backslash_idem)
  have split: "split_drive_prefix q = (if drive = [] then None else Some drive, r)"
    using assms(2) d2 q unfolding r_def [symmetric]
    by (auto simp: split_drive drive_like_def nth_append)
  have "q \<noteq> []" using rend(1) by (simp add: q r_def)
  then have "normalize_path q = and_then (normalized_path_components r q)
      (\<lambda>c. Inr (build_normalized_path (if drive = [] then None else Some drive)
        (r \<noteq> [] \<and> hd r = CHR ''/'') (join_with (CHR ''/'') c)))"
    using u chars by (simp add: normalize_path_def plain Let_def split)
  also have "\<dots> = Inr q"
    using rend by (auto simp: build_normalized_path_def drive_path q r_def)
  finally show ?thesis .
qed

lemma normal_form_key:
  assumes "normalize_path p = Inr q" and "\<not> drive_like p"
  obtains cs absolute where "clean cs" and "q = normalized_non_drive_path absolute (join_with (CHR ''/'') cs)"
    and "path_key q = (if absolute then [RootDir] else if cs = [] then [CurDir] else []) @ map Normal cs"
proof -
  from assms(1) obtain cs drive rest absolute where cs: "clean cs"
    and d: "drive = (if drive_like p then take 2 (replace_backslash p) else [])"
    and q: "q = drive @ normalized_non_drive_path absolute (join_with (CHR ''/'') cs)"
    by (rule normalize_path_Inr)
  with assms(2) have "q = normalized_non_drive_path absolute (join_with (CHR ''/'') cs)" by simp
  then show thesis using that [OF cs _ rendered(4) [OF cs]] by blast
qed

text \<open>Normal forms with the same components are the same string, so a map keyed by normalized
  \<open>PathBuf\<close>s is keyed by strings.\<close>

lemma normal_form_unique:
  assumes "normalize_path p = Inr q" "normalize_path p' = Inr q'" "\<not> drive_like p" "\<not> drive_like p'"
    and "path_eq q q'"
  shows "q = q'"
proof -
  from assms obtain cs a where q: "q = normalized_non_drive_path a (join_with (CHR ''/'') cs)"
    "path_key q = (if a then [RootDir] else if cs = [] then [CurDir] else []) @ map Normal cs"
    by (auto elim: normal_form_key)
  from assms obtain ds b where q': "q' = normalized_non_drive_path b (join_with (CHR ''/'') ds)"
    "path_key q' = (if b then [RootDir] else if ds = [] then [CurDir] else []) @ map Normal ds"
    by (auto elim: normal_form_key)
  have "a = b \<and> map Normal cs = map Normal ds"
    using assms(5) q(2) q'(2) by (cases cs; cases ds) (auto split: if_splits)
  moreover have "inj Normal" by (rule injI) simp
  ultimately have "a = b" "cs = ds" by (auto dest: map_injective)
  with q q' show ?thesis by simp
qed

subsection \<open>Lexical resolution\<close>

fun lexical :: "component list \<Rightarrow> string list \<Rightarrow> string list option" where
  "lexical [] acc = Some (rev acc)"
| "lexical (Normal s # ks) acc = lexical ks (s # acc)"
| "lexical (ParentDir # ks) acc = (case acc of [] \<Rightarrow> None | _ # acc' \<Rightarrow> lexical ks acc')"
| "lexical (_ # ks) acc = lexical ks acc"

lemma push_components_lexical:
  "push_components cs acc bad =
     (case lexical (map path_component (filter (\<lambda>s. s \<noteq> [] \<and> s \<noteq> ''.'') cs)) acc of
        None \<Rightarrow> Inl (InvalidPath bad) | Some ds \<Rightarrow> Inr ds)"
  by (induction cs arbitrary: acc) (simp_all add: path_component_def split: list.splits)

lemma lexical_key: "lexical (path_key p) [] =
    lexical (map path_component (filter (\<lambda>s. s \<noteq> [] \<and> s \<noteq> ''.'') (split_on (CHR ''/'') p))) []"
  by (simp add: path_key_def)

subsection \<open>Properties\<close>



text \<open>C37: Normalization is idempotent unless it produces a string that merely looks like a drive
  prefix, and normal forms with equal components are equal strings.\<close>

theorem normalize_path_idempotent:
  assumes "normalize_path p = Inr q" and "drive_like p \<or> \<not> drive_like q"
  shows "normalize_path q = Inr q \<and>
    (\<forall>p' q'. \<not> drive_like p \<and> \<not> drive_like p' \<and> normalize_path p' = Inr q' \<and> path_eq q q' \<longrightarrow> q = q')"
  using normalize_path_again [OF assms] normal_form_unique assms(1) by blast

theorem normalize_path_idempotent_witness:
  "normalize_path ''a/b'' = Inr ''a/b'' \<and> normalize_path ''./a//b'' = Inr ''a/b'' \<and>
     normalize_path ''./C:'' = Inr ''C:'' \<and> normalize_path ''C:'' = Inr ''C:.''"
proof -
  have u: "utf8 ''./a//b''" "utf8 ''./C:''" "utf8 ''C:''" by (rule utf8_ascii; simp)+
  have n: "normalize_path ''./a//b'' = Inr ''a/b''"
    using u(1) by (simp add: normalize_path_def replace_backslash_def split_drive drive_like_def
        normalized_path_components_def build_normalized_path_def normalized_non_drive_path_def
        del: utf8.simps)
  have "normalize_path ''./C:'' = Inr ''C:''" "normalize_path ''C:'' = Inr ''C:.''"
    using u(2,3) by (simp_all add: normalize_path_def replace_backslash_def split_drive drive_like_def
        normalized_path_components_def build_normalized_path_def normalized_non_drive_path_def
        normalized_drive_path_def del: utf8.simps)
  with n normalize_path_idempotent [OF n] show ?thesis by (simp add: drive_like_def)
qed

end
