(* ===== verification/SourceLines.thy ===== *)
theory SourceLines
  imports Findings
begin

text \<open>
  The line-boundary contract of \<open>crates/hoonarqube-ir/src/assessment.rs\<close>: which bytes end a
  line, the two forward scans that split a source into lines and list the line starts, the
  backward computation of a line's content end, and the offset of a position.
\<close>

datatype source_line_style = Generic | Ecmascript

definition line_separator :: bytes where
  "line_separator = [CHR 0xE2, CHR 0x80, CHR 0xA8]"

definition paragraph_separator :: bytes where
  "paragraph_separator = [CHR 0xE2, CHR 0x80, CHR 0xA9]"

definition starts_with :: "bytes \<Rightarrow> bytes \<Rightarrow> bool" where
  "starts_with s t \<longleftrightarrow> take (length t) s = t"

definition line_terminator_width :: "bytes \<Rightarrow> nat \<Rightarrow> source_line_style \<Rightarrow> nat option" where
  "line_terminator_width source offset style =
     (case idx source offset of None \<Rightarrow> None | Some b \<Rightarrow>
        if b = CHR 0x0A then Some 1
        else if b = CHR 0x0D \<and> idx source (offset + 1) = Some (CHR 0x0A) then Some 2
        else if b = CHR 0x0D \<and> style = Ecmascript then Some 1
        else if b = CHR 0xE2 \<and> style = Ecmascript \<and> starts_with (drop offset source) line_separator then Some 3
        else if b = CHR 0xE2 \<and> style = Ecmascript \<and> starts_with (drop offset source) paragraph_separator then Some 3
        else None)"

lemma terminator_width_pos: "line_terminator_width source offset style = Some w \<Longrightarrow> 0 < w \<and> offset < length source"
  by (auto simp: line_terminator_width_def idx_Some_iff split: option.splits if_splits)

text \<open>\<open>split_lines\<close> is an iterator; this is the list of the lines it yields.\<close>

function split_lines_from :: "bytes \<Rightarrow> source_line_style \<Rightarrow> nat \<Rightarrow> nat \<Rightarrow> bytes list" where
  "split_lines_from source style start offset =
     (if start \<ge> length source then []
      else if offset < length source then
        (case line_terminator_width source offset style of
           Some width \<Rightarrow> drop start (take offset source) # split_lines_from source style (offset + width) (offset + width)
         | None \<Rightarrow> split_lines_from source style start (offset + 1))
      else [drop start source])"
  by pat_completeness auto
termination
  by (relation "measure (\<lambda>(source, style, start, offset). length source - offset)")
    (auto dest: terminator_width_pos)

definition split_lines :: "bytes \<Rightarrow> source_line_style \<Rightarrow> bytes list" where
  "split_lines source style = split_lines_from source style 0 0"

function line_starts_from :: "bytes \<Rightarrow> source_line_style \<Rightarrow> nat \<Rightarrow> nat list" where
  "line_starts_from source style offset =
     (if offset < length source then
        (case line_terminator_width source offset style of
           Some width \<Rightarrow> (offset + width) # line_starts_from source style (offset + width)
         | None \<Rightarrow> line_starts_from source style (offset + 1))
      else [])"
  by pat_completeness auto
termination
  by (relation "measure (\<lambda>(source, style, offset). length source - offset)")
    (auto dest: terminator_width_pos)

definition source_line_starts :: "bytes \<Rightarrow> source_line_style \<Rightarrow> nat list" where
  "source_line_starts source style = 0 # line_starts_from source style 0"

declare split_lines_from.simps [simp del] line_starts_from.simps [simp del]

text \<open>\<open>end > start && source[end - 1] == c\<close>\<close>

definition byte_before :: "bytes \<Rightarrow> nat \<Rightarrow> nat \<Rightarrow> char \<Rightarrow> bool option" where
  "byte_before source start stop c =
     (if stop > start then do { b \<leftarrow> idx source (stop - 1); Some (b = c) } else Some False)"

definition line_content_end :: "bytes \<Rightarrow> nat \<Rightarrow> nat \<Rightarrow> source_line_style \<Rightarrow> nat option" where
  "line_content_end source start next style = do {
     lf \<leftarrow> byte_before source start next (CHR 0x0A);
     if lf then do {
       cr \<leftarrow> byte_before source start (next - 1) (CHR 0x0D);
       Some (if cr then next - 2 else next - 1) }
     else do {
       cr \<leftarrow> byte_before source start next (CHR 0x0D);
       if cr \<and> style = Ecmascript then Some (next - 1)
       else if next \<ge> start + 3 \<and> style = Ecmascript \<and>
         (byte_slice source (next - 3) next = Some line_separator \<or>
          byte_slice source (next - 3) next = Some paragraph_separator)
       then Some (next - 3) else Some next } }"

text \<open>The outer \<open>None\<close> is a panic, the inner one a position outside the source.\<close>

definition position_to_offset :: "bytes \<Rightarrow> nat list \<Rightarrow> pos \<Rightarrow> source_line_style \<Rightarrow> nat option option" where
  "position_to_offset source starts p style =
     (if line p = 0 then Some None
      else let i = unat (line p) - 1 in
      case idx starts i of None \<Rightarrow> Some None | Some start \<Rightarrow> do {
        let next = (case idx starts (i + 1) of None \<Rightarrow> length source | Some n \<Rightarrow> n);
        stop \<leftarrow> line_content_end source start next style;
        case str_slice source start stop of
          None \<Rightarrow> Some None
        | Some content \<Rightarrow> Some (idx (map ((+) start) (columns content)) (unat (column p))) })"

definition strip_suffix :: "bytes \<Rightarrow> bytes \<Rightarrow> bytes option" where
  "strip_suffix s t =
     (if length t \<le> length s \<and> drop (length s - length t) s = t then Some (take (length s - length t) s) else None)"

definition strip_or_same :: "bytes \<Rightarrow> bytes \<Rightarrow> bytes" where
  "strip_or_same s t = (case strip_suffix s t of None \<Rightarrow> s | Some r \<Rightarrow> r)"

definition without_final_line_ending :: "bytes \<Rightarrow> source_line_style \<Rightarrow> bytes" where
  "without_final_line_ending bs style =
     (let bs = strip_or_same bs [CHR 0x0A]; bs = strip_or_same bs [CHR 0x0D] in
      if style = Ecmascript then
        (case strip_suffix bs line_separator of Some r \<Rightarrow> r
         | None \<Rightarrow> strip_or_same bs paragraph_separator)
      else bs)"

subsection \<open>One line\<close>

text \<open>A line that starts at \<open>s\<close> has its content up to \<open>e\<close> and the next line at \<open>n\<close>.\<close>

definition line_at :: "bytes \<Rightarrow> source_line_style \<Rightarrow> nat \<Rightarrow> nat \<Rightarrow> nat \<Rightarrow> bool" where
  "line_at source style s e n \<longleftrightarrow> s \<le> e \<and>
     (\<forall>k. s \<le> k \<and> k < e \<longrightarrow> line_terminator_width source k style = None) \<and>
     (line_terminator_width source e style = Some (n - e) \<and> e < n \<and> n \<le> length source \<or>
      e = length source \<and> n = length source)"

lemma terminator_width_le:
  assumes "line_terminator_width source offset style = Some w"
  shows "offset + w \<le> length source"
proof -
  have "offset + 3 \<le> length source" if "starts_with (drop offset source) t" "length t = 3" for t
    using that unfolding starts_with_def by (metis length_drop length_take min.cobounded2 min_def not_less_eq_eq
        le_diff_conv2 nat_le_linear add.commute le_add2 drop_all list.size(3) take_Nil zero_neq_numeral)
  then show ?thesis
    using assms by (auto simp: line_terminator_width_def idx_Some_iff line_separator_def paragraph_separator_def
        split: option.splits if_splits)
qed

lemma line_at_exists:
  assumes "s \<le> length source"
  shows "\<exists>e n. line_at source style s e n"
proof -
  have "\<exists>e n. line_at source style s e n"
    if "s \<le> k" "k \<le> length source" "\<forall>j. s \<le> j \<and> j < k \<longrightarrow> line_terminator_width source j style = None" for k
    using that
  proof (induction "length source - k" arbitrary: k)
    case 0
    then show ?case by (intro exI [of _ k] exI [of _ k]) (auto simp: line_at_def)
  next
    case (Suc d)
    show ?case
    proof (cases "line_terminator_width source k style")
      case None
      with Suc.prems have "\<forall>j. s \<le> j \<and> j < k + 1 \<longrightarrow> line_terminator_width source j style = None"
        by (metis Suc_eq_plus1 less_Suc_eq)
      with Suc show ?thesis by (intro Suc.hyps(1) [of "k + 1"]) auto
    next
      case (Some w)
      with Suc.prems terminator_width_pos [OF Some] terminator_width_le [OF Some] show ?thesis
        by (intro exI [of _ k] exI [of _ "k + w"]) (simp add: line_at_def)
    qed
  qed
  from this [OF order_refl assms] show ?thesis by (meson leD)
qed

lemma line_atD:
  assumes "line_at source style s e n"
  shows "s \<le> e" "e \<le> n" "n \<le> length source" "s < length source \<Longrightarrow> s < n"
    and "line_terminator_width source e style = None \<Longrightarrow> e = length source \<and> n = length source"
    and "line_terminator_width source e style \<noteq> None \<Longrightarrow>
      line_terminator_width source e style = Some (n - e) \<and> e < n"
  using assms terminator_width_pos [of source e style] by (auto simp: line_at_def)

lemma line_starts_from_line:
  assumes "line_at source style s e n" "s \<le> k" "k \<le> e"
  shows "line_starts_from source style k =
    (if line_terminator_width source e style = None then [] else n # line_starts_from source style n)"
  using assms(2,3)
proof (induction "e - k" arbitrary: k)
  case 0
  then have k: "k = e" by simp
  show ?case
  proof (cases "line_terminator_width source e style")
    case None
    then have "e = length source" using line_atD(5) [OF assms(1)] by simp
    with k None show ?thesis by (simp add: line_starts_from.simps)
  next
    case (Some w)
    with line_atD [OF assms(1)] terminator_width_pos [OF Some] have "e + w = n" "e < length source" by auto
    with k Some show ?thesis by (subst line_starts_from.simps) simp
  qed
next
  case (Suc d)
  then have "line_terminator_width source k style = None" "k < length source"
    using assms(1) line_atD [OF assms(1)] by (auto simp: line_at_def)
  with Suc show ?case by (subst line_starts_from.simps) simp
qed

lemma split_lines_from_line:
  assumes "line_at source style s e n" "s < length source" "s \<le> k" "k \<le> e"
  shows "split_lines_from source style s k = drop s (take e source) # split_lines_from source style n n"
  using assms(3,4)
proof (induction "e - k" arbitrary: k)
  case 0
  then have k: "k = e" by simp
  show ?case
  proof (cases "line_terminator_width source e style")
    case None
    then have "e = length source" "n = length source" using line_atD(5) [OF assms(1)] by auto
    with k assms(2) show ?thesis by (simp add: split_lines_from.simps)
  next
    case (Some w)
    with line_atD [OF assms(1)] terminator_width_pos [OF Some] have "e + w = n" "e < length source" by auto
    with k Some assms(2) show ?thesis by (subst split_lines_from.simps) simp
  qed
next
  case (Suc d)
  then have "line_terminator_width source k style = None" "k < length source"
    using assms(1) line_atD [OF assms(1)] by (auto simp: line_at_def)
  with Suc assms(2) show ?case by (subst split_lines_from.simps) simp
qed

definition line_next :: "bytes \<Rightarrow> nat list \<Rightarrow> nat \<Rightarrow> nat" where
  "line_next source starts i = (if i + 1 < length starts then starts ! (i + 1) else length source)"

text \<open>Both scans see the same lines.\<close>

lemma scans:
  assumes "s \<le> length source" and "starts = s # line_starts_from source style s"
    and "ls = split_lines_from source style s s"
  shows "length starts = length ls + (if last starts = length source then 1 else 0) \<and>
    (\<forall>i < length starts. s \<le> starts ! i \<and> starts ! i \<le> length source \<and>
       (\<exists>e. line_at source style (starts ! i) e (line_next source starts i) \<and>
          (i + 1 < length starts \<longleftrightarrow> line_terminator_width source e style \<noteq> None) \<and>
          (i < length ls \<longrightarrow> ls ! i = drop (starts ! i) (take e source)))) \<and>
    sorted_wrt (<) starts"
  using assms
proof (induction "length source - s" arbitrary: s starts ls rule: less_induct)
  case less
  obtain e n where at: "line_at source style s e n" using line_at_exists [OF less.prems(1)] by blast
  note d = line_atD [OF at]
  show ?case
  proof (cases "line_terminator_width source e style")
    case None
    then have st: "starts = [s]" and en: "e = length source" "n = length source"
      using less.prems(2) line_starts_from_line [OF at order_refl d(1)] d(5) by auto
    have "ls = (if s = length source then [] else [drop s source])"
    proof (cases "s < length source")
      case True
      then show ?thesis
        using less.prems(3) split_lines_from_line [OF at True order_refl d(1)] en
        by (simp add: split_lines_from.simps)
    qed (use less.prems in \<open>simp add: split_lines_from.simps\<close>)
    with at None st en less.prems(1) show ?thesis by (auto simp: line_next_def)
  next
    case (Some w)
    with d have n: "e < n" "n \<le> length source" by auto
    then have s: "s < length source" "s < n" using d by auto
    define starts' where "starts' = n # line_starts_from source style n"
    define ls' where "ls' = split_lines_from source style n n"
    have st: "starts = s # starts'" and ls: "ls = drop s (take e source) # ls'"
      using less.prems(2,3) line_starts_from_line [OF at order_refl d(1)]
        split_lines_from_line [OF at s(1) order_refl d(1)] Some
      by (simp_all add: starts'_def ls'_def)
    have ne: "starts' \<noteq> []" "starts' ! 0 = n" by (simp_all add: starts'_def)
    have "length source - n < length source - s" using s n(2) by simp
    from less.hyps [OF this n(2) starts'_def ls'_def]
    have IH: "length starts' = length ls' + (if last starts' = length source then 1 else 0)"
      "\<And>i. i < length starts' \<Longrightarrow> n \<le> starts' ! i \<and> starts' ! i \<le> length source \<and>
       (\<exists>e. line_at source style (starts' ! i) e (line_next source starts' i) \<and>
          (i + 1 < length starts' \<longleftrightarrow> line_terminator_width source e style \<noteq> None) \<and>
          (i < length ls' \<longrightarrow> ls' ! i = drop (starts' ! i) (take e source)))"
      "sorted_wrt (<) starts'" by blast+
    have next0: "line_next source starts 0 = n" using ne by (simp add: line_next_def st)
    have nextS: "line_next source starts (Suc i) = line_next source starts' i" for i
      by (simp add: line_next_def st)
    have "s \<le> starts ! i \<and> starts ! i \<le> length source \<and>
       (\<exists>e. line_at source style (starts ! i) e (line_next source starts i) \<and>
          (i + 1 < length starts \<longleftrightarrow> line_terminator_width source e style \<noteq> None) \<and>
          (i < length ls \<longrightarrow> ls ! i = drop (starts ! i) (take e source)))" if i: "i < length starts" for i
    proof (cases i)
      case 0
      with at Some next0 ne s(1) show ?thesis by (auto simp: st ls)
    next
      case (Suc j)
      with i have "j < length starts'" by (simp add: st)
      from IH(2) [OF this] s(2) show ?thesis unfolding Suc nextS by (simp add: st ls)
    qed
    moreover have "\<forall>x \<in> set starts'. s < x" using IH(2) s(2) by (fastforce simp: in_set_conv_nth)
    then have "sorted_wrt (<) starts" using IH(3) by (simp add: st)
    ultimately show ?thesis using IH(1) ne by (simp add: st ls)
  qed
qed

subsection \<open>The content end, read backwards\<close>

lemma separators_last:
  "t \<in> {line_separator, paragraph_separator} \<Longrightarrow> length t = 3 \<and> t ! 0 = CHR 0xE2 \<and> t ! 2 \<noteq> CHR 0x0A \<and> t ! 2 \<noteq> CHR 0x0D"
  by (auto simp: line_separator_def paragraph_separator_def)

lemma starts_with_slice:
  "length t = 3 \<Longrightarrow> k + 3 \<le> length source \<Longrightarrow> starts_with (drop k source) t \<longleftrightarrow> byte_slice source k (k + 3) = Some t"
  by (simp add: starts_with_def byte_slice_def take_drop add.commute)

text \<open>What a terminator of each width looks like.\<close>

lemma terminator_cases:
  assumes "line_terminator_width source e style = Some w"
  obtains (lf) "w = 1" "source ! e = CHR 0x0A"
  | (crlf) "w = 2" "source ! e = CHR 0x0D" "source ! (e + 1) = CHR 0x0A"
  | (cr) "w = 1" "source ! e = CHR 0x0D" "style = Ecmascript"
  | (sep) t where "w = 3" "style = Ecmascript" "t \<in> {line_separator, paragraph_separator}"
      "byte_slice source e (e + 3) = Some t" "source ! (e + 2) \<noteq> CHR 0x0A" "source ! (e + 2) \<noteq> CHR 0x0D"
proof -
  have s: thesis if "starts_with (drop e source) t" "w = 3" "style = Ecmascript"
    "t \<in> {line_separator, paragraph_separator}" for t
  proof -
    have "e + 3 \<le> length source" using terminator_width_le [OF assms] that(2) by simp
    moreover note l = separators_last [OF that(4)]
    ultimately have b: "byte_slice source e (e + 3) = Some t" using that(1) by (simp add: starts_with_slice)
    then have "t = drop e (take (e + 3) source)" by (simp add: byte_slice_def split: if_splits)
    then have "source ! (e + 2) = t ! 2" using \<open>e + 3 \<le> length source\<close> by simp
    with l have "source ! (e + 2) \<noteq> CHR 0x0A" "source ! (e + 2) \<noteq> CHR 0x0D" by simp_all
    with sep [OF that(2-4) b] show thesis by blast
  qed
  show thesis
    using assms s lf crlf cr
    by (auto simp: line_terminator_width_def idx_Some_iff split: option.splits if_splits)
qed

lemma no_terminator:
  assumes "line_terminator_width source k style = None" and "k < length source"
  shows "source ! k \<noteq> CHR 0x0A" and "source ! k = CHR 0x0D \<Longrightarrow> k + 1 < length source \<Longrightarrow> source ! (k + 1) \<noteq> CHR 0x0A"
    and "source ! k = CHR 0x0D \<Longrightarrow> style = Generic"
    and "style = Ecmascript \<Longrightarrow> k + 3 \<le> length source \<Longrightarrow> t \<in> {line_separator, paragraph_separator} \<Longrightarrow>
      byte_slice source k (k + 3) \<noteq> Some t"
proof -
  show "source ! k \<noteq> CHR 0x0A" "source ! k = CHR 0x0D \<Longrightarrow> k + 1 < length source \<Longrightarrow> source ! (k + 1) \<noteq> CHR 0x0A"
    "source ! k = CHR 0x0D \<Longrightarrow> style = Generic"
    using assms by (cases style; auto simp: line_terminator_width_def idx_def split: if_splits)+
  show "byte_slice source k (k + 3) \<noteq> Some t"
    if "style = Ecmascript" "k + 3 \<le> length source" "t \<in> {line_separator, paragraph_separator}"
  proof
    assume b: "byte_slice source k (k + 3) = Some t"
    note l = separators_last [OF that(3)]
    have "source ! k = CHR 0xE2"
      using b l that(2) by (auto simp: byte_slice_def split: if_splits)
    moreover have "starts_with (drop k source) t" using b l that(2) by (simp add: starts_with_slice)
    ultimately show False
      using assms that by (auto simp: line_terminator_width_def idx_def split: if_splits)
  qed
qed

lemma line_content_end_correct:
  assumes at: "line_at source style s e n"
  shows "line_content_end source s n style = Some e"
proof -
  note d = line_atD [OF at]
  show ?thesis
  proof (cases "line_terminator_width source e style")
    case (Some w)
    with d have w: "w = n - e" "e < n" by auto
    have n: "n - 1 < length source" using d w by linarith
    from Some show ?thesis
    proof (cases rule: terminator_cases)
      case lf
      have "source ! (e - 1) \<noteq> CHR 0x0D" if "s < e"
      proof
        assume c: "source ! (e - 1) = CHR 0x0D"
        have "line_terminator_width source (e - 1) style = None" using at that by (auto simp: line_at_def)
        moreover have "e - 1 < length source" "e - 1 + 1 = e" "e < length source" using that n lf(1) w by auto
        ultimately show False using no_terminator(2) [of source "e - 1" style] c lf(2) by simp
      qed
      moreover have "n = e + 1" using w lf(1) by simp
      ultimately show ?thesis using lf n d(1)
        by (auto simp: line_content_end_def byte_before_def idx_in)
    next
      case crlf
      then have "n = e + 2" using w by simp
      with crlf n d(1) show ?thesis
        by (auto simp: line_content_end_def byte_before_def idx_in numeral_2_eq_2)
    next
      case cr
      then have "n = e + 1" using w by simp
      with cr n d(1) show ?thesis by (auto simp: line_content_end_def byte_before_def idx_in)
    next
      case (sep t)
      then have "n = e + 3" using w by simp
      with sep n d(1) show ?thesis
        by (auto simp: line_content_end_def byte_before_def idx_in numeral_3_eq_3 numeral_2_eq_2)
    qed
  next
    case None
    then have en: "e = length source" "n = length source" using d(5) by auto
    have none: "\<And>k. s \<le> k \<Longrightarrow> k < length source \<Longrightarrow> line_terminator_width source k style = None"
      using at en by (auto simp: line_at_def)
    show ?thesis
    proof (cases "s < length source")
      case True
      then have "s \<le> length source - 1" "length source - 1 < length source" by auto
      note l = no_terminator(1,3) [OF none [OF this] this(2)]
      have "byte_slice source (length source - 3) (length source) \<noteq> Some t"
        if "style = Ecmascript" "s + 3 \<le> length source" "t \<in> {line_separator, paragraph_separator}" for t
        using no_terminator(4) [OF none [of "length source - 3"] _ that(1) _ that(3)] that(2) by simp
      with True l show ?thesis
        by (auto simp: line_content_end_def byte_before_def idx_in en)
    qed (use d en in \<open>auto simp: line_content_end_def byte_before_def\<close>)
  qed
qed

subsection \<open>Positions\<close>

lemma source_lines:
  fixes source style
  defines "starts \<equiv> source_line_starts source style" and "ls \<equiv> split_lines source style"
  shows "length starts = length ls + (if last starts = length source then 1 else 0)"
    and "sorted_wrt (<) starts" and "0 < length starts" and "starts ! 0 = 0"
    and "i < length starts \<Longrightarrow> \<exists>e. line_at source style (starts ! i) e (line_next source starts i) \<and>
      (i + 1 < length starts \<longleftrightarrow> line_terminator_width source e style \<noteq> None) \<and>
      (i < length ls \<longrightarrow> ls ! i = drop (starts ! i) (take e source))"
proof -
  have "starts = 0 # line_starts_from source style 0" "ls = split_lines_from source style 0 0"
    by (simp_all add: starts_def ls_def source_line_starts_def split_lines_def)
  note s = scans [OF le0 this] and st = this(1)
  show "length starts = length ls + (if last starts = length source then 1 else 0)"
    "sorted_wrt (<) starts" using s by blast+
  show "0 < length starts" "starts ! 0 = 0" using st by simp_all
  show "\<exists>e. line_at source style (starts ! i) e (line_next source starts i) \<and>
      (i + 1 < length starts \<longleftrightarrow> line_terminator_width source e style \<noteq> None) \<and>
      (i < length ls \<longrightarrow> ls ! i = drop (starts ! i) (take e source))" if "i < length starts"
    using s that by blast
qed

lemma line_boundary:
  assumes u: "utf8 source" and at: "line_at source style s e n" and s: "boundary source s"
  shows "boundary source e" and "boundary source n"
proof -
  note d = line_atD [OF at]
  show "boundary source e"
  proof (cases "line_terminator_width source e style")
    case (Some w)
    then have "source ! e \<in> {CHR 0x0A, CHR 0x0D, CHR 0xE2}" "e < length source"
      by (auto simp: line_terminator_width_def idx_Some_iff split: option.splits if_splits)
    then show ?thesis by (auto simp: boundary_def cont_def)
  qed (use d in simp)
  then have e: "boundary source e" .
  show "boundary source n"
  proof (cases "line_terminator_width source e style")
    case (Some w)
    then have w: "w = n - e" "e < n" "e < length source" using d terminator_width_pos [OF Some] by auto
    have n: "n = e + w" using w by simp
    have le: "n \<le> length source" using d by simp
    from Some show ?thesis
    proof (cases rule: terminator_cases)
      case (sep t)
      then have "drop e (take (e + 3) source) ! 0 = CHR 0xE2" "e + 3 \<le> length source"
        using separators_last [OF sep(3)] by (auto simp: byte_slice_def split: if_splits)
      then have "source ! e = CHR 0xE2" by simp
      then show ?thesis
        using boundary_next(1) [OF u e w(3)] sep(1) by (simp add: n utf8_width_def)
    next
      case crlf
      then show ?thesis using boundary_after_ascii(1) [OF u, of "e + 1"] le by (simp add: n)
    qed (use boundary_after_ascii(1) [OF u w(3)] in \<open>simp_all add: n\<close>)
  qed (use d in simp)
qed

lemma starts_boundary:
  assumes "utf8 source" and "i < length (source_line_starts source style)"
  shows "boundary source (source_line_starts source style ! i)"
  using assms(2)
proof (induction i)
  case (Suc i)
  let ?st = "source_line_starts source style"
  from Suc.prems obtain e where "line_at source style (?st ! i) e (line_next source ?st i)"
    using source_lines(5) [of i source style] by auto
  with line_boundary(2) [OF assms(1) this] Suc show ?case by (simp add: line_next_def)
qed (simp add: source_lines)

text \<open>The offset of a position, by lines and columns.\<close>

lemma position_to_offset_line:
  assumes u: "utf8 source" and st: "starts = source_line_starts source style"
    and p: "line p \<noteq> 0" "i = unat (line p) - 1" "i < length starts"
  shows "\<exists>e. line_at source style (starts ! i) e (line_next source starts i) \<and>
    (i + 1 < length starts \<longleftrightarrow> line_terminator_width source e style \<noteq> None) \<and>
    position_to_offset source starts p style =
      Some (let cs = columns (drop (starts ! i) (take e source)); c = unat (column p) in
        if c < length cs then Some (starts ! i + cs ! c) else None)"
proof -
  obtain e where at: "line_at source style (starts ! i) e (line_next source starts i)"
    and t: "i + 1 < length starts \<longleftrightarrow> line_terminator_width source e style \<noteq> None"
    using source_lines(5) [of i source style] p(3) unfolding st by blast
  have b: "boundary source (starts ! i)" using starts_boundary [OF u] p(3) by (simp add: st)
  have "str_slice source (starts ! i) e = Some (drop (starts ! i) (take e source))"
    using line_boundary(1) [OF u at b] b line_atD(1) [OF at] by (simp add: str_slice_Some)
  moreover have "(case idx starts (i + 1) of None \<Rightarrow> length source | Some n \<Rightarrow> n) = line_next source starts i"
    by (simp add: line_next_def idx_def)
  ultimately show ?thesis
    using p line_content_end_correct [OF at] at t
    by (intro exI [of _ e]) (simp add: position_to_offset_def Let_def idx_in idx_def)
qed

lemma position_to_offset_total:
  "utf8 source \<Longrightarrow> starts = source_line_starts source style \<Longrightarrow> position_to_offset source starts p style \<noteq> None"
  using position_to_offset_line [of source starts style p "unat (line p) - 1"]
  by (cases "line p \<noteq> 0 \<and> unat (line p) - 1 < length starts")
    (auto simp: position_to_offset_def Let_def idx_def)

lemma position_to_offset_Some:
  assumes u: "utf8 source" and st: "starts = source_line_starts source style"
    and p: "position_to_offset source starts p style = Some (Some a)"
  obtains e i where "i = unat (line p) - 1" and "line p \<noteq> 0" and "i < length starts"
    and "line_at source style (starts ! i) e (line_next source starts i)"
    and "i + 1 < length starts \<longleftrightarrow> line_terminator_width source e style \<noteq> None"
    and "starts ! i \<le> a" and "a \<le> e" and "boundary source a"
    and "unat (column p) < length (columns (drop (starts ! i) (take e source)))"
    and "a = starts ! i + columns (drop (starts ! i) (take e source)) ! unat (column p)"
proof -
  let ?i = "unat (line p) - 1"
  from p have l: "line p \<noteq> 0" "?i < length starts"
    by (auto simp: position_to_offset_def Let_def idx_def split: if_splits)
  from position_to_offset_line [OF u st l(1) refl l(2)] obtain e
    where at: "line_at source style (starts ! ?i) e (line_next source starts ?i)"
    and t: "?i + 1 < length starts \<longleftrightarrow> line_terminator_width source e style \<noteq> None"
    and eq: "position_to_offset source starts p style =
      Some (let cs = columns (drop (starts ! ?i) (take e source)); c = unat (column p) in
        if c < length cs then Some (starts ! ?i + cs ! c) else None)" by blast
  let ?t = "drop (starts ! ?i) (take e source)"
  note d = line_atD [OF at]
  from eq p have c: "unat (column p) < length (columns ?t)" "a = starts ! ?i + columns ?t ! unat (column p)"
    by (auto simp: Let_def split: if_splits)
  have len: "length ?t = e - starts ! ?i" using d by simp
  have le: "a \<le> e" using columns_le [OF c(1)] d(1) unfolding len c(2) by linarith
  have sb: "boundary source (starts ! ?i)" using starts_boundary [OF u] l(2) by (simp add: st)
  have bt: "boundary ?t (a - starts ! ?i)" using columns_boundary [OF c(1)] c(2) by simp
  have "boundary source a"
  proof (cases "a = e \<or> a = starts ! ?i")
    case True
    then show ?thesis using line_boundary(1) [OF u at sb] sb by auto
  next
    case False
    with le c(2) have in_line: "starts ! ?i < a" "a < e" by auto
    then have "?t ! (a - starts ! ?i) = source ! a" "a - starts ! ?i < length ?t" "a < length source"
      using d(2,3) by simp_all
    with bt in_line show ?thesis unfolding boundary_def by auto
  qed
  with that [OF refl l(1,2) at t] c le show thesis by simp
qed

lemma position_to_offset_less:
  assumes u: "utf8 source" and st: "starts = source_line_starts source style"
    and p: "position_to_offset source starts p style = Some (Some a)"
    and q: "position_to_offset source starts q style = Some (Some b)" and "p < q"
  shows "a < b"
proof -
  obtain e i where i: "i = unat (line p) - 1" "line p \<noteq> 0" "i < length starts"
    "line_at source style (starts ! i) e (line_next source starts i)"
    "i + 1 < length starts \<longleftrightarrow> line_terminator_width source e style \<noteq> None" "a \<le> e"
    "unat (column p) < length (columns (drop (starts ! i) (take e source)))"
    "a = starts ! i + columns (drop (starts ! i) (take e source)) ! unat (column p)"
    by (rule position_to_offset_Some [OF u st p])
  obtain f j where j: "j = unat (line q) - 1" "j < length starts" "starts ! j \<le> b"
    "line_at source style (starts ! j) f (line_next source starts j)"
    "unat (column q) < length (columns (drop (starts ! j) (take f source)))"
    "b = starts ! j + columns (drop (starts ! j) (take f source)) ! unat (column q)"
    by (rule position_to_offset_Some [OF u st q])
  consider "line p < line q" | "line p = line q" "column p < column q"
    using assms(5) by (auto simp: less_pos_def)
  then show ?thesis
  proof cases
    case 1
    have "0 < unat (line p)" using i(2) by (simp add: unat_gt_0)
    with 1 have ij: "i < j" by (simp add: i(1) j(1) word_less_nat_alt)
    then have t: "i + 1 < length starts" using j(2) by simp
    with i(5) have "e < line_next source starts i" using line_atD(6) [OF i(4)] by simp
    moreover have "starts ! (i + 1) \<le> starts ! j"
      using source_lines(2) [of source style] ij j(2) unfolding st [symmetric]
      by (cases "i + 1 = j") (auto simp: sorted_wrt_iff_nth_less less_imp_le)
    ultimately show ?thesis using t i(6) j(3) by (simp add: line_next_def)
  next
    case 2
    then have ij: "i = j" by (simp add: i(1) j(1))
    have "f = e" using line_content_end_correct [OF i(4)] line_content_end_correct [OF j(4)] ij by simp
    moreover have "unat (column p) < unat (column q)" using 2 by (simp add: word_less_nat_alt)
    ultimately show ?thesis
      using i(8) j(5,6) ij columns_sorted by (simp add: sorted_wrt_iff_nth_less)
  qed
qed

definition sample_text :: bytes where
  "sample_text = [CHR ''a'', CHR 0x0D, CHR 0x0A, CHR ''b'', CHR 0xE2, CHR 0x80, CHR 0xA8, CHR ''c'']"

lemma sample_text_facts:
  shows "utf8 sample_text" and "source_line_starts sample_text Ecmascript = [0, 3, 7]"
    and "position_to_offset sample_text [0, 3, 7] (Pos 2 1) Ecmascript = Some (Some 4)"
    and "position_to_offset sample_text [0, 3, 7] (Pos 3 0) Ecmascript = Some (Some 7)"
    and "split_lines sample_text Ecmascript = [''a'', ''b'', ''c'']"
  by code_simp+

subsection \<open>Properties\<close>

text \<open>C35: The two forward scans and the backward computation describe the same lines: the starts
  ascend, \<open>line_content_end\<close> stops each line at its first terminator, which reaches exactly to
  the next start, and \<open>split_lines\<close> yields these contents, less an empty last line.\<close>

theorem source_lines_agree:
  fixes source style
  defines "starts \<equiv> source_line_starts source style" and "ls \<equiv> split_lines source style"
  shows "length starts = length ls + (if last starts = length source then 1 else 0) \<and>
    sorted_wrt (<) starts \<and>
    (\<forall>i < length starts. \<exists>e. line_content_end source (starts ! i) (line_next source starts i) style = Some e \<and>
       starts ! i \<le> e \<and> e \<le> length source \<and>
       (\<forall>k. starts ! i \<le> k \<and> k < e \<longrightarrow> line_terminator_width source k style = None) \<and>
       (i + 1 < length starts \<longrightarrow> line_terminator_width source e style = Some (starts ! (i + 1) - e)) \<and>
       (i < length ls \<longrightarrow> ls ! i = drop (starts ! i) (take e source)))"
proof (intro conjI allI impI)
  show "length starts = length ls + (if last starts = length source then 1 else 0)" "sorted_wrt (<) starts"
    unfolding starts_def ls_def by (rule source_lines)+
  fix i
  assume i: "i < length starts"
  then obtain e where at: "line_at source style (starts ! i) e (line_next source starts i)"
    and t: "i + 1 < length starts \<longleftrightarrow> line_terminator_width source e style \<noteq> None"
    and l: "i < length ls \<longrightarrow> ls ! i = drop (starts ! i) (take e source)"
    using source_lines(5) [of i source style] unfolding starts_def ls_def by blast
  note d = line_atD [OF at]
  have "\<forall>k. starts ! i \<le> k \<and> k < e \<longrightarrow> line_terminator_width source k style = None"
    using at by (simp add: line_at_def)
  moreover have "i + 1 < length starts \<longrightarrow> line_terminator_width source e style = Some (starts ! (i + 1) - e)"
    using t d(6) by (simp add: line_next_def)
  ultimately show "\<exists>e. line_content_end source (starts ! i) (line_next source starts i) style = Some e \<and>
       starts ! i \<le> e \<and> e \<le> length source \<and>
       (\<forall>k. starts ! i \<le> k \<and> k < e \<longrightarrow> line_terminator_width source k style = None) \<and>
       (i + 1 < length starts \<longrightarrow> line_terminator_width source e style = Some (starts ! (i + 1) - e)) \<and>
       (i < length ls \<longrightarrow> ls ! i = drop (starts ! i) (take e source))"
    using line_content_end_correct [OF at] l d(1-3) by auto
qed

theorem source_lines_agree_witness:
  "\<exists>e. line_content_end sample_text 0 3 Ecmascript = Some e \<and> line_terminator_width sample_text e Ecmascript = Some (3 - e) \<and>
     ''a'' = take e sample_text"
  using source_lines_agree [of sample_text Ecmascript]
  by (auto simp: sample_text_facts line_next_def dest: spec [of _ 0])

text \<open>On valid UTF-8, resolving a position against the source's own line starts never panics;
  offsets are character boundaries and follow the order of the positions strictly.\<close>

theorem position_to_offset_monotone:
  assumes "utf8 source" and "starts = source_line_starts source style"
  shows "position_to_offset source starts p style \<noteq> None \<and>
    (\<forall>a. position_to_offset source starts p style = Some (Some a) \<longrightarrow>
       boundary source a \<and>
       (\<forall>q b. position_to_offset source starts q style = Some (Some b) \<longrightarrow> (p < q \<longleftrightarrow> a < b)))"
proof (intro conjI allI impI)
  show "position_to_offset source starts p style \<noteq> None"
    using position_to_offset_total [OF assms] .
  show "boundary source a" if "position_to_offset source starts p style = Some (Some a)" for a
    using that by (rule position_to_offset_Some [OF assms])
  show "p < q \<longleftrightarrow> a < b"
    if "position_to_offset source starts p style = Some (Some a)"
      "position_to_offset source starts q style = Some (Some b)" for a q b
    using that position_to_offset_less [OF assms that] position_to_offset_less [OF assms that(2,1)]
    by (cases p q rule: linorder_cases) auto
qed

theorem position_to_offset_monotone_witness:
  "boundary sample_text 4 \<and> (Pos 2 1 < Pos 3 0 \<longleftrightarrow> (4 :: nat) < 7)"
  using position_to_offset_monotone [OF sample_text_facts(1) sample_text_facts(2) [symmetric], of "Pos 2 1"]
    sample_text_facts(3,4) by blast

end
