(* ===== verification/Snapshots.thy ===== *)
theory Snapshots
  imports OrdMap Paths SourceLines
begin

text \<open>
  Source snapshots and finding identities of \<open>crates/hoonarqube-ir/src/assessment.rs\<close>.
  SHA-256 is the \<open>sha2\<close> crate's: the parameter \<open>sha\<close> maps the hashed bytes to the digest
  bytes, and where a digest's shape matters its documented length of 32 bytes is a hypothesis.
  Everything around it is modelled: the framing of the parts, the hexadecimal rendering, the
  identities derived from a finding's source range, the occurrence ordinals and the validation
  of snapshots. The outer \<open>option\<close> of a result is \<open>None\<close> where an index or slice panics.
\<close>

subsection \<open>Digests\<close>

definition ASSESSMENT_SCHEMA_VERSION :: u32 where
  "ASSESSMENT_SCHEMA_VERSION = 3"

text \<open>\<open>to_be_bytes\<close> of an \<open>n\<close>-byte integer.\<close>

definition be_bytes :: "nat \<Rightarrow> nat \<Rightarrow> bytes" where
  "be_bytes n v = map (\<lambda>i. char_of (v div 256 ^ (n - 1 - i) mod 256)) [0..<n]"

definition digest_input :: "bytes list \<Rightarrow> bytes" where
  "digest_input parts = ''hoonarqube-assessment'' @ [CHR 0x00] @ be_bytes 4 (unat ASSESSMENT_SCHEMA_VERSION) @
     be_bytes 4 (unat (u32_saturating (length parts))) @
     concat (map (\<lambda>part. be_bytes 8 (length part mod 2 ^ 64) @ part) parts)"

definition hex_digit :: "nat \<Rightarrow> char" where
  "hex_digit n = ''0123456789abcdef'' ! n"

definition hex :: "bytes \<Rightarrow> string" where
  "hex bs = concat (map (\<lambda>b. [hex_digit (byte b div 16), hex_digit (byte b mod 16)]) bs)"

definition digest_parts :: "(bytes \<Rightarrow> bytes) \<Rightarrow> bytes list \<Rightarrow> string" where
  "digest_parts sha parts = hex (sha (digest_input parts))"

definition line_digest :: "(bytes \<Rightarrow> bytes) \<Rightarrow> bytes \<Rightarrow> string" where
  "line_digest sha content = digest_parts sha [''line'', strip_or_same content [CHR 0x0D]]"

definition is_digest :: "string \<Rightarrow> bool" where
  "is_digest s \<longleftrightarrow> length s = 64 \<and>
     (\<forall>c \<in> set s. (48 \<le> byte c \<and> byte c \<le> 57) \<or> (97 \<le> byte c \<and> byte c \<le> 102))"

subsection \<open>Finding identities\<close>

record finding_identity =
  issue_index :: nat
  finding_rule :: string
  finding_message :: string
  source_digest :: string
  context_digest :: string
  occurrence :: u32
  content_id :: string
  start_line :: u32
  end_line :: u32
  identity :: string
  ambiguous :: bool
  finding_path :: path

definition content_key :: "finding_identity \<Rightarrow> string \<times> string \<times> string" where
  "content_key f = (finding_rule f, content_id f, context_digest f)"

definition content_parts :: "finding_identity \<Rightarrow> bytes list" where
  "content_parts f = [''finding-content'', finding_rule f, source_digest f, context_digest f,
     be_bytes 4 (unat (occurrence f))]"

definition content_identity :: "(bytes \<Rightarrow> bytes) \<Rightarrow> finding_identity \<Rightarrow> string" where
  "content_identity sha f = digest_parts sha (content_parts f)"

definition refresh_finding_digests :: "(bytes \<Rightarrow> bytes) \<Rightarrow> finding_identity \<Rightarrow> finding_identity" where
  "refresh_finding_digests sha f =
     (let c = content_identity sha f in
      f\<lparr>content_id := c, identity := digest_parts sha [''finding'', finding_path f, c]\<rparr>)"

definition validate_finding :: "(bytes \<Rightarrow> bytes) \<Rightarrow> finding_identity \<Rightarrow> assessment_error + unit" where
  "validate_finding sha f =
     and_then (check (\<not> (is_blank (finding_rule f) \<or> \<not> is_digest (source_digest f) \<or>
         \<not> is_digest (context_digest f) \<or> \<not> is_digest (content_id f) \<or> \<not> is_digest (identity f) \<or>
         (start_line f = 0) \<noteq> (end_line f = 0) \<or> start_line f > end_line f))
       (Invalid ''finding identity'' ''rule, digests, identity, and line range are invalid'')) (\<lambda>_.
     and_then (check (\<not> (finding_path f = [] \<or>
         \<not> (case normalize_path (finding_path f) of Inl _ \<Rightarrow> False | Inr q \<Rightarrow> path_eq q (finding_path f))))
       (Invalid ''finding identity'' ''finding path must be normalized'')) (\<lambda>_.
     check (\<not> (content_id f \<noteq> content_identity sha f \<or>
         identity f \<noteq> digest_parts sha [''finding'', finding_path f, content_id f]))
       (Invalid ''finding identity'' ''identity does not match its path, rule, digests, and occurrence'')))"

text \<open>The digests of an issue's range; the file-level sentinel digests the whole source.\<close>

definition range_digests :: "(bytes \<Rightarrow> bytes) \<Rightarrow> text_range \<Rightarrow> bytes \<Rightarrow> nat list \<Rightarrow> source_line_style \<Rightarrow>
    (assessment_error + u32 \<times> u32 \<times> string \<times> string) option" where
  "range_digests sha r source starts style =
     (if is_file_level r then
        Some (Inr (0, 0, digest_parts sha [''file-level''],
          digest_parts sha [''context'', without_final_line_ending source style]))
      else do {
        s \<leftarrow> position_to_offset source starts (range_start r) style;
        seq_try (Some (ok_or s (Invalid ''finding identity'' ''starts outside source''))) (\<lambda>s. do {
        e \<leftarrow> position_to_offset source starts (range_end r) style;
        seq_try (Some (ok_or e (Invalid ''finding identity'' ''ends outside source''))) (\<lambda>e.
        seq_try (Some (check (\<not> s > e) (Invalid ''finding identity'' ''has an inverted range''))) (\<lambda>_. do {
          bytes \<leftarrow> byte_slice source s e;
          let first_line = unat (line (range_start r) - 1);
          let after_last_line = unat (line (range_end r) -
            (if column (range_end r) = 0 \<and> line (range_end r) > line (range_start r) then 1 else 0));
          context_start \<leftarrow> idx starts first_line;
          let context_end = (case idx starts after_last_line of None \<Rightarrow> length source | Some n \<Rightarrow> n);
          context \<leftarrow> byte_slice source context_start context_end;
          Some (Inr (line (range_start r), line (range_end r), digest_parts sha [''range'', bytes],
            digest_parts sha [''context'', without_final_line_ending context style])) })) }) })"

definition make_finding_identity :: "(bytes \<Rightarrow> bytes) \<Rightarrow> nat \<Rightarrow> issue \<Rightarrow> path \<Rightarrow> bytes \<Rightarrow> nat list \<Rightarrow> source_line_style \<Rightarrow>
    (assessment_error + finding_identity) option" where
  "make_finding_identity sha index i path source starts style =
     seq_try (range_digests sha (issue_range i) source starts style) (\<lambda>(s, e, sd, cd).
     Some (Inr (refresh_finding_digests sha
       \<lparr>issue_index = index, finding_rule = rule_key i, finding_message = issue_message i,
        source_digest = sd, context_digest = cd, occurrence = 0, content_id = [],
        start_line = s, end_line = e, identity = [], ambiguous = False, finding_path = path\<rparr>)))"

subsection \<open>Occurrence ordinals\<close>

definition ordinal_key :: "finding_identity \<Rightarrow> string \<times> string \<times> string" where
  "ordinal_key f = (finding_rule f, source_digest f, context_digest f)"

text \<open>\<open>groups.into_values()\<close>: the member lists, in key order.\<close>

definition member_lists :: "finding_identity list \<Rightarrow> nat list list" where
  "member_lists fs = map snd (bt_each (\<lambda>i. ordinal_key (fs ! i))
     (\<lambda>i v. (case v of None \<Rightarrow> [] | Some zs \<Rightarrow> zs) @ [i]) [0..<length fs] [])"

definition range_pair :: "issue \<Rightarrow> pos \<times> pos" where
  "range_pair i = (range_start (issue_range i), range_end (issue_range i))"

text \<open>\<open>binary_search(&range).unwrap_or_default()\<close> on the sorted, duplicate-free ranges.\<close>

fun rank_in :: "'a list \<Rightarrow> 'a \<Rightarrow> nat option" where
  "rank_in [] x = None"
| "rank_in (y # ys) x = (if x = y then Some 0 else map_option Suc (rank_in ys x))"

fun bind_members :: "(bytes \<Rightarrow> bytes) \<Rightarrow> issue list \<Rightarrow> (pos \<times> pos) list \<Rightarrow> nat list \<Rightarrow>
    finding_identity list \<Rightarrow> finding_identity list option" where
  "bind_members sha issues ranges [] fs = Some fs"
| "bind_members sha issues ranges (i # is) fs = do {
     issue \<leftarrow> idx issues i;
     f \<leftarrow> idx fs i;
     let rank = (case rank_in ranges (range_pair issue) of None \<Rightarrow> 0 | Some k \<Rightarrow> k);
     fs \<leftarrow> upd fs i (refresh_finding_digests sha (f\<lparr>occurrence := u32_saturating rank\<rparr>));
     bind_members sha issues ranges is fs }"

fun bind_groups :: "(bytes \<Rightarrow> bytes) \<Rightarrow> issue list \<Rightarrow> nat list list \<Rightarrow> finding_identity list \<Rightarrow> finding_identity list option" where
  "bind_groups sha issues [] fs = Some fs"
| "bind_groups sha issues (members # rest) fs = do {
     pairs \<leftarrow> traverse (\<lambda>i. map_option range_pair (idx issues i)) members;
     let ranges = remdups_adj (sort pairs);
     fs \<leftarrow> (if length ranges \<le> 1 then Some fs else bind_members sha issues ranges members fs);
     bind_groups sha issues rest fs }"

definition bind_occurrence_ordinals :: "(bytes \<Rightarrow> bytes) \<Rightarrow> finding_identity list \<Rightarrow> issue list \<Rightarrow> finding_identity list option" where
  "bind_occurrence_ordinals sha fs issues = bind_groups sha issues (member_lists fs) fs"

subsection \<open>Snapshots\<close>

record source_snapshot =
  snapshot_path :: path
  content_digest :: string
  line_digests :: "string list"
  snapshot_findings :: "finding_identity list"

definition identity_counts :: "finding_identity list \<Rightarrow> (string, nat) btree" where
  "identity_counts fs = bt_each identity (\<lambda>f v. Suc (case v of None \<Rightarrow> 0 | Some n \<Rightarrow> n)) fs []"

definition from_source_and_issues :: "(bytes \<Rightarrow> bytes) \<Rightarrow> path \<Rightarrow> bytes \<Rightarrow> issue list \<Rightarrow> source_line_style \<Rightarrow>
    (assessment_error + source_snapshot) option" where
  "from_source_and_issues sha path source issues style =
     seq_try (Some (check (utf8 source) (InvalidSource path))) (\<lambda>_.
     let starts = source_line_starts source style in
     seq_try (seq_map (\<lambda>(index, i). make_finding_identity sha index i path source starts style)
       (zip [0..<length issues] issues)) (\<lambda>fs. do {
     fs \<leftarrow> bind_occurrence_ordinals sha fs issues;
     let counts = identity_counts fs;
     Some (Inr \<lparr>snapshot_path = path,
       content_digest = digest_parts sha [''content'', source],
       line_digests = map (line_digest sha) (split_lines source style),
       snapshot_findings = map (\<lambda>f. f\<lparr>ambiguous := (case map_of counts (identity f) of None \<Rightarrow> 0 | Some n \<Rightarrow> n) > 1\<rparr>) fs\<rparr>) }))"

text \<open>\<open>Path::extension\<close> on Unix: what follows the last dot of the file name, unless the name
  is a double dot or its only dot comes first.\<close>

definition path_extension :: "path \<Rightarrow> string option" where
  "path_extension p =
     (case rev (path_key p) of
        Normal name # _ \<Rightarrow>
          (let after = takeWhile (\<lambda>c. c \<noteq> CHR ''.'') (rev name) in
           if length after = length name \<or> length after + 1 = length name then None else Some (rev after))
      | _ \<Rightarrow> None)"

definition line_style_for_path :: "path \<Rightarrow> string option \<Rightarrow> source_line_style" where
  "line_style_for_path p language =
     (case language of
        Some l \<Rightarrow>
          if eq_ignore_ascii_case l ''javascript'' \<or> eq_ignore_ascii_case l ''js'' \<or>
             eq_ignore_ascii_case l ''typescript'' \<or> eq_ignore_ascii_case l ''ts''
          then Ecmascript else Generic
      | None \<Rightarrow>
          (case path_extension p of
             Some e \<Rightarrow>
               if utf8 e \<and> (eq_ignore_ascii_case e ''js'' \<or> eq_ignore_ascii_case e ''jsx'' \<or>
                 eq_ignore_ascii_case e ''mjs'' \<or> eq_ignore_ascii_case e ''cjs'' \<or> eq_ignore_ascii_case e ''ts'' \<or>
                 eq_ignore_ascii_case e ''tsx'' \<or> eq_ignore_ascii_case e ''mts'' \<or> eq_ignore_ascii_case e ''cts'')
               then Ecmascript else Generic
           | None \<Rightarrow> Generic))"

record file_metrics =
  metric_lines :: u32
  metric_code_lines :: u32
  metric_comment_lines :: u32

record file_report =
  report_path :: path
  report_language :: string
  report_issues :: "issue list"
  report_metrics :: file_metrics

definition from_report :: "(bytes \<Rightarrow> bytes) \<Rightarrow> path \<Rightarrow> bytes \<Rightarrow> file_report option \<Rightarrow> (assessment_error + source_snapshot) option" where
  "from_report sha path source report =
     seq_try (Some (normalize_path path)) (\<lambda>path.
     seq_try (case report of None \<Rightarrow> Some (Inr ())
       | Some r \<Rightarrow> Some (and_then (normalize_path (report_path r)) (\<lambda>q.
           check (path_eq q path) (Invalid ''source snapshot'' ''report and source paths differ'')))) (\<lambda>_.
     from_source_and_issues sha path source (case report of None \<Rightarrow> [] | Some r \<Rightarrow> report_issues r)
       (line_style_for_path path (map_option report_language report))))"

definition from_source :: "(bytes \<Rightarrow> bytes) \<Rightarrow> path \<Rightarrow> bytes \<Rightarrow> issue list \<Rightarrow> (assessment_error + source_snapshot) option" where
  "from_source sha path source issues =
     seq_try (Some (normalize_path path)) (\<lambda>path.
     from_source_and_issues sha path source issues (line_style_for_path path None))"

definition validate_snapshot :: "(bytes \<Rightarrow> bytes) \<Rightarrow> source_snapshot \<Rightarrow> assessment_error + unit" where
  "validate_snapshot sha s =
     and_then (check (snapshot_path s \<noteq> []) (Invalid ''source snapshot'' ''path must not be empty'')) (\<lambda>_.
     and_then (normalize_path (snapshot_path s)) (\<lambda>normalized.
     and_then (check (path_eq normalized (snapshot_path s)) (Invalid ''source snapshot'' ''path is not normalized'')) (\<lambda>_.
     and_then (check (\<not> (\<not> is_digest (content_digest s) \<or> (\<exists>d \<in> set (line_digests s). \<not> is_digest d)))
       (Invalid ''source snapshot'' ''content and line digests must be lowercase SHA-256 hex'')) (\<lambda>_.
     try_all (\<lambda>(index, f). and_then (validate_finding sha f) (\<lambda>_.
       check (\<not> (issue_index f \<noteq> index \<or> \<not> path_eq (finding_path f) (snapshot_path s) \<or>
           unat (end_line f) > length (line_digests s) + 1))
         (Invalid ''source snapshot'' ''finding index, path, or source line is inconsistent'')))
       (zip [0..<length (snapshot_findings s)] (snapshot_findings s))))))"

subsection \<open>Digests are well formed and their input is unambiguous\<close>

lemma length_be_bytes [simp]: "length (be_bytes n v) = n"
  by (simp add: be_bytes_def)

lemma be_bytes_Suc: "be_bytes (Suc n) v = char_of (v div 256 ^ n mod 256) # be_bytes n v"
  by (simp add: be_bytes_def upt_conv_Cons map_Suc_upt [symmetric] del: upt_Suc)

lemma be_bytes_inj: "v < 256 ^ n \<Longrightarrow> w < 256 ^ n \<Longrightarrow> be_bytes n v = be_bytes n w \<Longrightarrow> v = w"
proof -
  have mod: "be_bytes n v = be_bytes n w \<Longrightarrow> v mod 256 ^ n = w mod 256 ^ n" for v w :: nat
  proof (induction n)
    case (Suc n)
    then have d: "v div 256 ^ n mod 256 = w div 256 ^ n mod 256"
      by (simp add: be_bytes_Suc)
    have split: "x mod 256 ^ Suc n = x mod 256 ^ n + 256 ^ n * (x div 256 ^ n mod 256)" for x :: nat
      by (metis mod_mult2_eq power_Suc2 add.commute)
    from Suc d show ?case by (simp add: split be_bytes_Suc del: power_Suc)
  qed simp
  show "v < 256 ^ n \<Longrightarrow> w < 256 ^ n \<Longrightarrow> be_bytes n v = be_bytes n w \<Longrightarrow> v = w"
    using mod by (metis mod_less)
qed

lemma framed_parts_inj:
  assumes "concat (map (\<lambda>p. be_bytes 8 (length p mod 2 ^ 64) @ p) ps) =
      concat (map (\<lambda>p. be_bytes 8 (length p mod 2 ^ 64) @ p) qs)"
    and "\<forall>p \<in> set ps. length p < 2 ^ 64" and "\<forall>q \<in> set qs. length q < 2 ^ 64"
  shows "ps = qs"
  using assms
proof (induction ps arbitrary: qs)
  case Nil
  then show ?case
    by (cases qs) (auto dest: arg_cong [where f = length])
next
  case (Cons p ps)
  then obtain q qs' where qs: "qs = q # qs'"
    by (cases qs) (auto dest: arg_cong [where f = length])
  from Cons.prems(1) have e: "be_bytes 8 (length p mod 2 ^ 64) = be_bytes 8 (length q mod 2 ^ 64)"
    and r: "p @ concat (map (\<lambda>p. be_bytes 8 (length p mod 2 ^ 64) @ p) ps) =
      q @ concat (map (\<lambda>p. be_bytes 8 (length p mod 2 ^ 64) @ p) qs')"
    by (simp_all add: qs)
  have "length p = length q"
    using be_bytes_inj [OF _ _ e] Cons.prems(2,3) qs by simp
  with r Cons qs show ?case by simp
qed

lemma hex_digit_ok: "n < 16 \<Longrightarrow> (48 \<le> byte (hex_digit n) \<and> byte (hex_digit n) \<le> 57) \<or>
    (97 \<le> byte (hex_digit n) \<and> byte (hex_digit n) \<le> 102)"
  and hex_digit_inj: "n < 16 \<Longrightarrow> m < 16 \<Longrightarrow> hex_digit n = hex_digit m \<Longrightarrow> n = m"
  by (simp_all add: hex_digit_def numeral_eq_Suc less_Suc_eq) (elim disjE; simp)+

lemma length_hex: "length (hex bs) = 2 * length bs"
  by (induction bs) (simp_all add: hex_def)

lemma byte_high: "byte c div 16 < 16"
  using nat_of_char_less_256 [of c] by (simp add: less_mult_imp_div_less)

lemma set_hex: "c \<in> set (hex bs) \<Longrightarrow> \<exists>n < 16. c = hex_digit n"
proof -
  assume "c \<in> set (hex bs)"
  then obtain b where "c = hex_digit (byte b div 16) \<or> c = hex_digit (byte b mod 16)" by (auto simp: hex_def)
  moreover have "byte b mod 16 < 16" by simp
  ultimately show ?thesis using byte_high by blast
qed

lemma is_digest_parts:
  assumes "length (sha (digest_input parts)) = 32"
  shows "is_digest (digest_parts sha parts)"
proof -
  have "(48 \<le> byte c \<and> byte c \<le> 57) \<or> (97 \<le> byte c \<and> byte c \<le> 102)"
    if "c \<in> set (hex (sha (digest_input parts)))" for c
    using set_hex [OF that] hex_digit_ok by blast
  then show ?thesis using assms by (simp add: is_digest_def digest_parts_def length_hex)
qed

lemma hex_inj: "hex xs = hex ys \<Longrightarrow> xs = ys"
proof (induction xs arbitrary: ys)
  case Nil
  then show ?case by (cases ys) (simp_all add: hex_def)
next
  case (Cons x xs)
  then obtain y ys' where ys: "ys = y # ys'" by (cases ys) (simp_all add: hex_def)
  with Cons.prems have "hex_digit (byte x div 16) = hex_digit (byte y div 16)"
    "hex_digit (byte x mod 16) = hex_digit (byte y mod 16)" and r: "hex xs = hex ys'"
    by (simp_all add: hex_def)
  then have "byte x div 16 = byte y div 16" "byte x mod 16 = byte y mod 16"
    using hex_digit_inj [OF byte_high byte_high] hex_digit_inj [of "byte x mod 16" "byte y mod 16"] by simp_all
  then have "byte x = byte y" by (metis div_mult_mod_eq)
  with Cons.IH [OF r] ys show ?case by simp
qed

lemma digest_input_inj:
  assumes "digest_input ps = digest_input qs"
    and "\<forall>p \<in> set ps. length p < 2 ^ 64" and "\<forall>q \<in> set qs. length q < 2 ^ 64"
  shows "ps = qs"
proof (rule framed_parts_inj [OF _ assms(2,3)])
  have "length (be_bytes 4 (unat (u32_saturating (length ps)))) = length (be_bytes 4 (unat (u32_saturating (length qs))))"
    by simp
  with assms(1) show "concat (map (\<lambda>p. be_bytes 8 (length p mod 2 ^ 64) @ p) ps) =
      concat (map (\<lambda>p. be_bytes 8 (length p mod 2 ^ 64) @ p) qs)"
    unfolding digest_input_def by (simp add: append_eq_append_conv)
qed

subsection \<open>Ranks\<close>

lemma rank_in_Some: "x \<in> set xs \<Longrightarrow> \<exists>k < length xs. rank_in xs x = Some k \<and> xs ! k = x"
  by (induction xs) fastforce+

lemma rank_in_inj: "x \<in> set xs \<Longrightarrow> y \<in> set xs \<Longrightarrow> rank_in xs x = rank_in xs y \<longleftrightarrow> x = y"
proof -
  assume "x \<in> set xs" "y \<in> set xs"
  then obtain j k where "rank_in xs x = Some j" "xs ! j = x" "rank_in xs y = Some k" "xs ! k = y"
    using rank_in_Some by metis
  then show ?thesis by (metis option.inject)
qed

lemma saturating_inj: "n < 2 ^ 32 \<Longrightarrow> m < 2 ^ 32 \<Longrightarrow> u32_saturating n = u32_saturating m \<longleftrightarrow> n = m"
proof -
  assume nm: "n < 2 ^ 32" "m < 2 ^ 32"
  then have "unat (of_nat n :: u32) = n" "unat (of_nat m :: u32) = m" by (simp_all add: unat_of_nat)
  then have "(of_nat n :: u32) = of_nat m \<longleftrightarrow> n = m" by metis
  then show ?thesis using nm unfolding u32_saturating_def by (simp only: if_True simp_thms)
qed

subsection \<open>Binding ordinals\<close>

definition with_ordinal :: "(bytes \<Rightarrow> bytes) \<Rightarrow> (pos \<times> pos) list \<Rightarrow> issue \<Rightarrow> finding_identity \<Rightarrow> finding_identity" where
  "with_ordinal sha ranges i f = refresh_finding_digests sha (f\<lparr>occurrence :=
     u32_saturating (case rank_in ranges (range_pair i) of None \<Rightarrow> 0 | Some k \<Rightarrow> k)\<rparr>)"

lemma refresh_fields [simp]:
  "ordinal_key (refresh_finding_digests sha f) = ordinal_key f"
  "issue_index (refresh_finding_digests sha f) = issue_index f"
  "finding_rule (refresh_finding_digests sha f) = finding_rule f"
  "source_digest (refresh_finding_digests sha f) = source_digest f"
  "context_digest (refresh_finding_digests sha f) = context_digest f"
  "occurrence (refresh_finding_digests sha f) = occurrence f"
  "start_line (refresh_finding_digests sha f) = start_line f"
  "end_line (refresh_finding_digests sha f) = end_line f"
  "finding_path (refresh_finding_digests sha f) = finding_path f"
  "finding_message (refresh_finding_digests sha f) = finding_message f"
  by (simp_all add: refresh_finding_digests_def Let_def ordinal_key_def)

lemma content_parts_frame [simp]:
  "content_parts (f\<lparr>content_id := c, identity := d\<rparr>) = content_parts f"
  "content_identity sha (f\<lparr>content_id := c, identity := d\<rparr>) = content_identity sha f"
  "content_parts (f\<lparr>ambiguous := b\<rparr>) = content_parts f"
  by (simp_all add: content_parts_def content_identity_def)

lemma refresh_idem: "refresh_finding_digests sha (refresh_finding_digests sha f) = refresh_finding_digests sha f"
  by (simp add: refresh_finding_digests_def Let_def)

lemma bind_members_eq:
  assumes "distinct is" and "\<forall>i \<in> set is. i < length fs" and "length issues = length fs"
  shows "\<exists>fs'. bind_members sha issues ranges is fs = Some fs' \<and> length fs' = length fs \<and>
    (\<forall>i < length fs. fs' ! i = (if i \<in> set is then with_ordinal sha ranges (issues ! i) (fs ! i) else fs ! i))"
  using assms
proof (induction "is" arbitrary: fs)
  case (Cons k ks)
  let ?f = "with_ordinal sha ranges (issues ! k) (fs ! k)"
  have "\<exists>fs'. bind_members sha issues ranges ks (fs[k := ?f]) = Some fs' \<and> length fs' = length (fs[k := ?f]) \<and>
    (\<forall>i < length (fs[k := ?f]). fs' ! i = (if i \<in> set ks then with_ordinal sha ranges (issues ! i) (fs[k := ?f] ! i)
       else fs[k := ?f] ! i))"
    using Cons.prems by (intro Cons.IH) auto
  then obtain fs' where fs': "bind_members sha issues ranges ks (fs[k := ?f]) = Some fs'" "length fs' = length fs"
    "\<forall>i < length fs. fs' ! i = (if i \<in> set ks then with_ordinal sha ranges (issues ! i) (fs[k := ?f] ! i)
       else fs[k := ?f] ! i)" by auto
  have "bind_members sha issues ranges (k # ks) fs = Some fs'"
    using fs'(1) Cons.prems by (simp add: idx_in upd_in with_ordinal_def)
  moreover have "\<forall>i \<in> set ks. fs[k := ?f] ! i = fs ! i"
    using Cons.prems(1) by (metis distinct.simps(2) nth_list_update_neq)
  ultimately show ?case using fs' Cons.prems(2) by (intro exI [of _ fs']) (auto simp: nth_list_update)
qed simp

definition group_ranges :: "issue list \<Rightarrow> nat list \<Rightarrow> (pos \<times> pos) list" where
  "group_ranges issues members = remdups_adj (sort (map (\<lambda>i. range_pair (issues ! i)) members))"

lemma set_group_ranges [simp]: "set (group_ranges issues members) = (\<lambda>i. range_pair (issues ! i)) ` set members"
  by (simp add: group_ranges_def)

lemma length_group_ranges: "length (group_ranges issues members) \<le> length members"
  unfolding group_ranges_def by (metis length_map length_sort remdups_adj_length)

lemma with_ordinal_single:
  assumes "length (group_ranges issues members) \<le> 1" and "i \<in> set members"
    and "f = refresh_finding_digests sha g" and "occurrence g = 0"
  shows "with_ordinal sha (group_ranges issues members) (issues ! i) f = f"
proof -
  have "range_pair (issues ! i) \<in> set (group_ranges issues members)" using assms(2) by simp
  with assms(1) have "group_ranges issues members = [range_pair (issues ! i)]"
    by (cases "group_ranges issues members") auto
  moreover have "f\<lparr>occurrence := 0\<rparr> = f" using assms(3,4) by simp
  ultimately show ?thesis
    by (simp add: with_ordinal_def u32_saturating_def assms(3) refresh_idem)
qed

lemma bind_groups_eq:
  assumes "distinct (concat gs)" and "\<forall>i \<in> set (concat gs). i < length fs" and "length issues = length fs"
    and "\<forall>i \<in> set (concat gs). \<exists>g. fs ! i = refresh_finding_digests sha g \<and> occurrence g = 0"
  shows "\<exists>fs'. bind_groups sha issues gs fs = Some fs' \<and> length fs' = length fs \<and>
    (\<forall>members \<in> set gs. \<forall>i \<in> set members. fs' ! i = with_ordinal sha (group_ranges issues members) (issues ! i) (fs ! i)) \<and>
    (\<forall>i < length fs. i \<notin> set (concat gs) \<longrightarrow> fs' ! i = fs ! i)"
  using assms
proof (induction gs arbitrary: fs)
  case Nil
  then show ?case by simp
next
  case (Cons g gs)
  let ?R = "group_ranges issues g"
  have pairs: "traverse (\<lambda>i. map_option range_pair (idx issues i)) g = Some (map (\<lambda>i. range_pair (issues ! i)) g)"
    using Cons.prems by (intro traverse_Some) (simp add: idx_in)
  have "\<exists>fs1. (if length ?R \<le> 1 then Some fs else bind_members sha issues ?R g fs) = Some fs1 \<and>
    length fs1 = length fs \<and>
    (\<forall>i < length fs. fs1 ! i = (if i \<in> set g then with_ordinal sha ?R (issues ! i) (fs ! i) else fs ! i))"
  proof (cases "length ?R \<le> 1")
    case True
    have "fs ! i = with_ordinal sha ?R (issues ! i) (fs ! i)" if "i \<in> set g" for i
    proof -
      from Cons.prems(4) that obtain h where "fs ! i = refresh_finding_digests sha h" "occurrence h = 0" by auto
      from with_ordinal_single [OF True that this] show ?thesis by simp
    qed
    with True show ?thesis by simp
  next
    case False
    with bind_members_eq [of g fs issues sha ?R] Cons.prems show ?thesis by simp
  qed
  then obtain fs1 where fs1: "(if length ?R \<le> 1 then Some fs else bind_members sha issues ?R g fs) = Some fs1"
    "length fs1 = length fs"
    "\<forall>i < length fs. fs1 ! i = (if i \<in> set g then with_ordinal sha ?R (issues ! i) (fs ! i) else fs ! i)" by blast
  have disj: "\<And>i. i \<in> set (concat gs) \<Longrightarrow> i \<notin> set g" using Cons.prems(1) by auto
  then have same: "\<And>i. i \<in> set (concat gs) \<Longrightarrow> fs1 ! i = fs ! i"
    using fs1(3) Cons.prems(2) by simp
  have "\<exists>fs'. bind_groups sha issues gs fs1 = Some fs' \<and> length fs' = length fs1 \<and>
    (\<forall>members \<in> set gs. \<forall>i \<in> set members. fs' ! i = with_ordinal sha (group_ranges issues members) (issues ! i) (fs1 ! i)) \<and>
    (\<forall>i < length fs1. i \<notin> set (concat gs) \<longrightarrow> fs' ! i = fs1 ! i)"
    using Cons.prems fs1(2) same by (intro Cons.IH) auto
  then obtain fs' where fs': "bind_groups sha issues gs fs1 = Some fs'" "length fs' = length fs"
    "\<forall>members \<in> set gs. \<forall>i \<in> set members. fs' ! i = with_ordinal sha (group_ranges issues members) (issues ! i) (fs1 ! i)"
    "\<forall>i < length fs. i \<notin> set (concat gs) \<longrightarrow> fs' ! i = fs1 ! i" using fs1(2) by auto
  have "bind_groups sha issues (g # gs) fs = Some fs'"
    by (simp only: bind_groups.simps pairs bind.bind_lunit Let_def fs1(1) fs'(1) flip: group_ranges_def)
  moreover have "fs' ! i = with_ordinal sha ?R (issues ! i) (fs ! i)" if "i \<in> set g" for i
    using that disj fs'(4) fs1(3) Cons.prems(2) by (metis Un_iff concat.simps(2) set_append)
  moreover have "fs' ! i = with_ordinal sha (group_ranges issues members) (issues ! i) (fs ! i)"
    if "members \<in> set gs" "i \<in> set members" for members i
  proof -
    have "fs1 ! i = fs ! i" using that by (intro same) auto
    with that fs'(3) show ?thesis by simp
  qed
  moreover have "fs' ! i = fs ! i" if "i < length fs" "i \<notin> set (concat (g # gs))" for i
    using that fs'(4) fs1(3) by simp
  ultimately show ?case using fs'(2) by (intro exI [of _ fs']) auto
qed

lemma distinct_groups:
  assumes "distinct (map fst m)" and "\<forall>(k, ys) \<in> set m. ys = filter (\<lambda>i. key i = k) xs" and "distinct xs"
  shows "distinct (concat (map snd m))"
  using assms
proof (induction m)
  case (Cons a m)
  then have "snd a = filter (\<lambda>i. key i = fst a) xs" "fst a \<notin> fst ` set m" by auto
  then have "set (snd a) \<inter> set (concat (map snd m)) = {}"
    using Cons.prems(2) by fastforce
  with Cons show ?case by auto
qed simp

definition same_key :: "finding_identity list \<Rightarrow> nat \<Rightarrow> nat list" where
  "same_key fs i = filter (\<lambda>j. ordinal_key (fs ! j) = ordinal_key (fs ! i)) [0..<length fs]"

lemma member_lists_eq:
  shows "distinct (concat (member_lists fs))"
    and "i < length fs \<Longrightarrow> same_key fs i \<in> set (member_lists fs)"
    and "set (concat (member_lists fs)) = {..<length fs}"
proof -
  define m where "m = bt_each (\<lambda>i. ordinal_key (fs ! i))
     (\<lambda>i v. (case v of None \<Rightarrow> [] | Some zs \<Rightarrow> zs) @ [i]) [0..<length fs] []"
  have ok: "bt_ok m" unfolding m_def by (rule bt_each_ok) simp
  have get: "map_of m k = (let ys = filter (\<lambda>i. ordinal_key (fs ! i) = k) [0..<length fs] in
      if ys = [] then None else Some ys)" for k
    unfolding m_def by (rule bt_group_get)
  have each: "\<forall>(k, ys) \<in> set m. ys = filter (\<lambda>i. ordinal_key (fs ! i) = k) [0..<length fs]"
    using get by (auto simp: Let_def simp flip: bt_get_iff [OF ok] split: if_splits)
  show "distinct (concat (member_lists fs))"
    unfolding member_lists_def m_def [symmetric] by (rule distinct_groups [OF bt_distinct [OF ok] each]) simp
  show mem: "same_key fs i \<in> set (member_lists fs)" if "i < length fs" for i
  proof -
    have "same_key fs i \<noteq> []" using that by (auto simp: same_key_def filter_empty_conv)
    then have "map_of m (ordinal_key (fs ! i)) = Some (same_key fs i)"
      by (simp add: get same_key_def Let_def)
    then have "(ordinal_key (fs ! i), same_key fs i) \<in> set m" by (simp add: bt_get_iff [OF ok])
    then show ?thesis unfolding member_lists_def m_def [symmetric] by force
  qed
  show "set (concat (member_lists fs)) = {..<length fs}"
  proof
    show "set (concat (member_lists fs)) \<subseteq> {..<length fs}"
      using each unfolding member_lists_def m_def [symmetric] by fastforce
    show "{..<length fs} \<subseteq> set (concat (member_lists fs))"
      using mem by (force simp: same_key_def)
  qed
qed

lemma bind_occurrence_ordinals_eq:
  assumes "length issues = length fs"
    and "\<forall>i < length fs. \<exists>g. fs ! i = refresh_finding_digests sha g \<and> occurrence g = 0"
  shows "\<exists>fs'. bind_occurrence_ordinals sha fs issues = Some fs' \<and> length fs' = length fs \<and>
    (\<forall>i < length fs. fs' ! i = with_ordinal sha (group_ranges issues (same_key fs i)) (issues ! i) (fs ! i))"
proof -
  have "\<exists>fs'. bind_groups sha issues (member_lists fs) fs = Some fs' \<and> length fs' = length fs \<and>
    (\<forall>members \<in> set (member_lists fs). \<forall>i \<in> set members.
       fs' ! i = with_ordinal sha (group_ranges issues members) (issues ! i) (fs ! i)) \<and>
    (\<forall>i < length fs. i \<notin> set (concat (member_lists fs)) \<longrightarrow> fs' ! i = fs ! i)"
    using assms member_lists_eq by (intro bind_groups_eq) auto
  moreover have "i \<in> set (same_key fs i)" if "i < length fs" for i using that by (simp add: same_key_def)
  ultimately show ?thesis
    unfolding bind_occurrence_ordinals_def using member_lists_eq(2) by blast
qed

subsection \<open>The range of a finding\<close>

lemma range_digests_ok:
  assumes u: "utf8 source" and st: "starts = source_line_starts source style"
  shows "range_digests sha r source starts style \<noteq> None"
    and "range_digests sha r source starts style = Some (Inr (s, e, sd, cd)) \<Longrightarrow>
      (s = 0 \<longleftrightarrow> e = 0) \<and> s \<le> e \<and> unat e \<le> length starts \<and>
      (\<exists>p q. sd = digest_parts sha p \<and> cd = digest_parts sha q)"
proof -
  have fine: "\<exists>sd cd. range_digests sha r source starts style =
      Some (Inr (line (range_start r), line (range_end r), digest_parts sha sd, digest_parts sha cd)) \<and>
      line (range_start r) \<noteq> 0 \<and> line (range_start r) \<le> line (range_end r) \<and>
      unat (line (range_end r)) \<le> length starts"
    if fl: "\<not> is_file_level r"
      and a: "position_to_offset source starts (range_start r) style = Some (Some a)"
      and b: "position_to_offset source starts (range_end r) style = Some (Some b)" and ab: "a \<le> b" for a b
  proof -
    have le: "range_start r \<le> range_end r"
      using position_to_offset_less [OF u st b a] ab by (metis not_le)
    from u st a obtain i where i: "i = unat (line (range_start r)) - 1" "line (range_start r) \<noteq> 0" "i < length starts"
      by (rule position_to_offset_Some)
    from u st b obtain j where j: "j = unat (line (range_end r)) - 1" "line (range_end r) \<noteq> 0" "j < length starts"
      and bb: "boundary source b" by (rule position_to_offset_Some)
    have lines: "line (range_start r) \<le> line (range_end r)" using le by (auto simp: less_eq_pos_def)
    then have nat: "unat (line (range_start r)) \<le> unat (line (range_end r))" by (simp add: word_le_nat_alt)
    have pos: "0 < unat (line (range_start r))" "0 < unat (line (range_end r))"
      using i(2) j(2) by (simp_all add: unat_gt_0)
    have first: "unat (line (range_start r) - 1) = i"
      using i(2) pos by (simp add: i(1) unat_minus_one)
    define after where "after = unat (line (range_end r) -
      (if column (range_end r) = 0 \<and> line (range_end r) > line (range_start r) then 1 else 0))"
    have after: "i < after"
    proof (cases "column (range_end r) = 0 \<and> line (range_end r) > line (range_start r)")
      case True
      then have "unat (line (range_start r)) < unat (line (range_end r))" by (simp add: word_less_nat_alt)
      with True show ?thesis using j(2) pos by (simp add: after_def i(1) unat_minus_one)
    next
      case False
      then have "after = unat (line (range_end r))" unfolding after_def by (simp only: if_False diff_zero)
      with nat pos show ?thesis by (simp add: i(1))
    qed
    have sorted: "sorted_wrt (<) starts" using source_lines(2) by (simp add: st)
    obtain e where at: "line_at source style (starts ! i) e (line_next source starts i)"
      using source_lines(5) [of i source style] i(3) unfolding st by blast
    have "starts ! i \<le> length source" using line_atD [OF at] by linarith
    moreover have "starts ! after \<le> length source" if "after < length starts"
      using source_lines(5) [of after source style] that line_atD unfolding st by (metis le_trans)
    ultimately have "\<exists>c. byte_slice source (starts ! i)
        (case idx starts after of None \<Rightarrow> length source | Some n \<Rightarrow> n) = Some c"
      using sorted after by (auto simp: byte_slice_def idx_def sorted_wrt_iff_nth_less less_imp_le)
    then obtain c where c: "byte_slice source (starts ! i)
        (case idx starts after of None \<Rightarrow> length source | Some n \<Rightarrow> n) = Some c" by blast
    have bytes: "byte_slice source a b = Some (drop a (take b source))"
      using ab boundary_le [OF bb] by (simp add: byte_slice_def)
    have "unat (line (range_end r)) \<le> length starts" using j pos by linarith
    then show ?thesis
      using fl a b ab i(2,3) lines bytes c
      by (auto simp: range_digests_def first idx_in Let_def after_def [symmetric])
  qed
  have total: "position_to_offset source starts p style \<noteq> None" for p
    by (rule position_to_offset_total [OF u st])
  show "range_digests sha r source starts style \<noteq> None"
  proof (cases "is_file_level r")
    case False
    from total obtain a b where ab: "position_to_offset source starts (range_start r) style = Some a"
      "position_to_offset source starts (range_end r) style = Some b" by (meson option.exhaust)
    show ?thesis
    proof (cases "\<exists>x y. a = Some x \<and> b = Some y \<and> x \<le> y")
      case True
      then show ?thesis using fine [OF False] ab by auto
    next
      case False
      with ab \<open>\<not> is_file_level r\<close> show ?thesis
        by (cases a; cases b) (auto simp: range_digests_def)
    qed
  qed (simp add: range_digests_def)
  show "(s = 0 \<longleftrightarrow> e = 0) \<and> s \<le> e \<and> unat e \<le> length starts \<and>
      (\<exists>p q. sd = digest_parts sha p \<and> cd = digest_parts sha q)"
    if r: "range_digests sha r source starts style = Some (Inr (s, e, sd, cd))"
  proof (cases "is_file_level r")
    case True
    with r show ?thesis by (auto simp: range_digests_def)
  next
    case False
    with r obtain a b where "position_to_offset source starts (range_start r) style = Some (Some a)"
      "position_to_offset source starts (range_end r) style = Some (Some b)" "a \<le> b"
      by (auto simp: range_digests_def bind_eq_Some_conv seq_try_Inr_iff ok_or_Inr_iff check_Inr_iff)
    from fine [OF False this] r show ?thesis by auto
  qed
qed

subsection \<open>Built snapshots\<close>

lemma make_finding_identity_ok:
  assumes u: "utf8 source" and st: "starts = source_line_starts source style"
  shows "make_finding_identity sha index i path source starts style \<noteq> None"
    and "make_finding_identity sha index i path source starts style = Some (Inr f) \<Longrightarrow>
      (\<exists>g. f = refresh_finding_digests sha g \<and> occurrence g = 0) \<and> issue_index f = index \<and>
      finding_rule f = rule_key i \<and> finding_message f = issue_message i \<and> finding_path f = path \<and>
      (start_line f = 0 \<longleftrightarrow> end_line f = 0) \<and> start_line f \<le> end_line f \<and> unat (end_line f) \<le> length starts \<and>
      (\<exists>p q. source_digest f = digest_parts sha p \<and> context_digest f = digest_parts sha q)"
proof -
  show "make_finding_identity sha index i path source starts style \<noteq> None"
    unfolding make_finding_identity_def by (intro seq_try_total range_digests_ok(1) [OF u st]) auto
  assume "make_finding_identity sha index i path source starts style = Some (Inr f)"
  then obtain s e sd cd where r: "range_digests sha (issue_range i) source starts style = Some (Inr (s, e, sd, cd))"
    and f: "f = refresh_finding_digests sha
       \<lparr>issue_index = index, finding_rule = rule_key i, finding_message = issue_message i,
        source_digest = sd, context_digest = cd, occurrence = 0, content_id = [],
        start_line = s, end_line = e, identity = [], ambiguous = False, finding_path = path\<rparr>"
    by (auto simp: make_finding_identity_def seq_try_Inr_iff)
  have "\<exists>g. f = refresh_finding_digests sha g \<and> occurrence g = 0"
    unfolding f by (intro exI conjI) (rule refl, simp)
  with range_digests_ok(2) [OF u st r] show "(\<exists>g. f = refresh_finding_digests sha g \<and> occurrence g = 0) \<and> issue_index f = index \<and>
      finding_rule f = rule_key i \<and> finding_message f = issue_message i \<and> finding_path f = path \<and>
      (start_line f = 0 \<longleftrightarrow> end_line f = 0) \<and> start_line f \<le> end_line f \<and> unat (end_line f) \<le> length starts \<and>
      (\<exists>p q. source_digest f = digest_parts sha p \<and> context_digest f = digest_parts sha q)"
    by (simp add: f)
qed

definition collect_identities :: "(bytes \<Rightarrow> bytes) \<Rightarrow> path \<Rightarrow> bytes \<Rightarrow> issue list \<Rightarrow> source_line_style \<Rightarrow>
    (assessment_error + finding_identity list) option" where
  "collect_identities sha path source issues style =
     seq_map (\<lambda>(index, i). make_finding_identity sha index i path source (source_line_starts source style) style)
       (zip [0..<length issues] issues)"

lemma collect_identities_ok:
  assumes u: "utf8 source"
  shows "collect_identities sha path source issues style \<noteq> None"
    and "collect_identities sha path source issues style = Some (Inr fs) \<Longrightarrow> length fs = length issues \<and>
      (\<forall>i < length issues. make_finding_identity sha i (issues ! i) path source (source_line_starts source style) style =
         Some (Inr (fs ! i)))"
proof -
  show "collect_identities sha path source issues style \<noteq> None"
    unfolding collect_identities_def
  proof (rule seq_map_total)
    fix x :: "nat \<times> issue"
    show "(case x of (index, i) \<Rightarrow> make_finding_identity sha index i path source (source_line_starts source style) style) \<noteq> None"
      using make_finding_identity_ok(1) [OF u refl] by (cases x) (simp only: prod.case not_False_eq_True)
  qed
  show "collect_identities sha path source issues style = Some (Inr fs) \<Longrightarrow> length fs = length issues \<and>
      (\<forall>i < length issues. make_finding_identity sha i (issues ! i) path source (source_line_starts source style) style =
         Some (Inr (fs ! i)))"
    unfolding collect_identities_def by (auto simp: seq_map_Inr_iff list_all2_conv_all_nth)
qed

text \<open>What a snapshot holds: every finding with its ordinal bound and its ambiguity computed.\<close>

definition built_finding :: "(bytes \<Rightarrow> bytes) \<Rightarrow> issue list \<Rightarrow> finding_identity list \<Rightarrow> nat \<Rightarrow> finding_identity" where
  "built_finding sha issues fs i = with_ordinal sha (group_ranges issues (same_key fs i)) (issues ! i) (fs ! i)"

lemma snapshot_structure:
  assumes "from_source_and_issues sha path source issues style = Some (Inr snap)"
  obtains fs where "utf8 source" and "collect_identities sha path source issues style = Some (Inr fs)"
    and "length fs = length issues" and "length (snapshot_findings snap) = length issues"
    and "\<And>i. i < length issues \<Longrightarrow> snapshot_findings snap ! i = (built_finding sha issues fs i)
      \<lparr>ambiguous := (1 < card {j. j < length issues \<and> identity (built_finding sha issues fs j) = identity (built_finding sha issues fs i)})\<rparr>"
    and "snapshot_path snap = path" and "content_digest snap = digest_parts sha [''content'', source]"
    and "line_digests snap = map (line_digest sha) (split_lines source style)"
proof -
  from assms obtain fs gs where u: "utf8 source" and fs: "collect_identities sha path source issues style = Some (Inr fs)"
    and gs: "bind_occurrence_ordinals sha fs issues = Some gs"
    and snap: "snap = \<lparr>snapshot_path = path, content_digest = digest_parts sha [''content'', source],
       line_digests = map (line_digest sha) (split_lines source style),
       snapshot_findings = map (\<lambda>f. f\<lparr>ambiguous := (case map_of (identity_counts gs) (identity f) of None \<Rightarrow> 0 | Some n \<Rightarrow> n) > 1\<rparr>) gs\<rparr>"
    by (auto simp: from_source_and_issues_def seq_try_Inr_iff check_Inr_iff bind_eq_Some_conv Let_def
        collect_identities_def)
  note c = collect_identities_ok(2) [OF u fs]
  then have occ: "\<forall>i < length fs. \<exists>g. fs ! i = refresh_finding_digests sha g \<and> occurrence g = 0"
    using make_finding_identity_ok(2) [OF u refl] by metis
  from bind_occurrence_ordinals_eq [of issues fs sha] c occ gs
  have g: "length gs = length issues" "\<And>i. i < length issues \<Longrightarrow> gs ! i = built_finding sha issues fs i"
    by (auto simp: built_finding_def)
  have count: "(case map_of (identity_counts gs) d of None \<Rightarrow> 0 | Some n \<Rightarrow> n) =
      card {j. j < length issues \<and> identity (built_finding sha issues fs j) = d}" for d
  proof -
    have "length (filter (\<lambda>f. identity f = d) gs) = card {j. j < length gs \<and> identity (gs ! j) = d}"
      by (rule length_filter_conv_card)
    also have "{j. j < length gs \<and> identity (gs ! j) = d} =
        {j. j < length issues \<and> identity (built_finding sha issues fs j) = d}" using g by auto
    finally show ?thesis by (simp add: identity_counts_def bt_count_get Let_def)
  qed
  show thesis
    by (rule that [OF u fs]) (use c g count in \<open>simp_all add: snap\<close>)
qed

lemma built_finding_fields:
  assumes u: "utf8 source" and fs: "collect_identities sha path source issues style = Some (Inr fs)" and i: "i < length issues"
  shows "\<exists>g. built_finding sha issues fs i = refresh_finding_digests sha g"
    and "issue_index (built_finding sha issues fs i) = i"
    and "finding_rule (built_finding sha issues fs i) = rule_key (issues ! i)"
    and "finding_path (built_finding sha issues fs i) = path"
    and "start_line (built_finding sha issues fs i) = 0 \<longleftrightarrow> end_line (built_finding sha issues fs i) = 0"
    and "start_line (built_finding sha issues fs i) \<le> end_line (built_finding sha issues fs i)"
    and "unat (end_line (built_finding sha issues fs i)) \<le> length (source_line_starts source style)"
    and "\<exists>p. source_digest (built_finding sha issues fs i) = digest_parts sha p"
    and "\<exists>p. context_digest (built_finding sha issues fs i) = digest_parts sha p"
    and "ordinal_key (built_finding sha issues fs i) = ordinal_key (fs ! i)"
    and "occurrence (built_finding sha issues fs i) = u32_saturating
      (case rank_in (group_ranges issues (same_key fs i)) (range_pair (issues ! i)) of None \<Rightarrow> 0 | Some k \<Rightarrow> k)"
proof -
  from collect_identities_ok(2) [OF u fs] i
  have f: "make_finding_identity sha i (issues ! i) path source (source_line_starts source style) style = Some (Inr (fs ! i))"
    by blast
  note ok = make_finding_identity_ok(2) [OF u refl f]
  show "\<exists>g. built_finding sha issues fs i = refresh_finding_digests sha g"
    unfolding built_finding_def with_ordinal_def by blast
  show "occurrence (built_finding sha issues fs i) = u32_saturating
      (case rank_in (group_ranges issues (same_key fs i)) (range_pair (issues ! i)) of None \<Rightarrow> 0 | Some k \<Rightarrow> k)"
    by (simp add: built_finding_def with_ordinal_def)
  show "ordinal_key (built_finding sha issues fs i) = ordinal_key (fs ! i)"
    by (simp add: built_finding_def with_ordinal_def) (simp add: ordinal_key_def)
  show "issue_index (built_finding sha issues fs i) = i"
    "finding_rule (built_finding sha issues fs i) = rule_key (issues ! i)"
    "finding_path (built_finding sha issues fs i) = path"
    "start_line (built_finding sha issues fs i) = 0 \<longleftrightarrow> end_line (built_finding sha issues fs i) = 0"
    "start_line (built_finding sha issues fs i) \<le> end_line (built_finding sha issues fs i)"
    "unat (end_line (built_finding sha issues fs i)) \<le> length (source_line_starts source style)"
    "\<exists>p. source_digest (built_finding sha issues fs i) = digest_parts sha p"
    "\<exists>p. context_digest (built_finding sha issues fs i) = digest_parts sha p"
    using ok by (simp_all add: built_finding_def with_ordinal_def)
qed

lemma validate_refreshed:
  assumes sha: "\<And>x. length (sha x) = 32" and "\<not> is_blank (finding_rule f)"
    and "source_digest f = digest_parts sha p" and "context_digest f = digest_parts sha q"
    and "start_line f = 0 \<longleftrightarrow> end_line f = 0" and "start_line f \<le> end_line f"
    and "finding_path f \<noteq> []" and "normalize_path (finding_path f) = Inr r" and "path_eq r (finding_path f)"
    and "f = (refresh_finding_digests sha g)\<lparr>ambiguous := b\<rparr>"
  shows "validate_finding sha f = Inr ()"
proof -
  have d: "is_digest (digest_parts sha ps)" for ps by (rule is_digest_parts) (rule sha)
  have c: "content_id f = content_identity sha f"
    "identity f = digest_parts sha [''finding'', finding_path f, content_id f]"
    unfolding assms(10) by (simp_all add: refresh_finding_digests_def Let_def content_identity_def)
  moreover have "is_digest (content_id f)" "is_digest (identity f)"
    unfolding c by (simp_all add: content_identity_def d)
  ultimately show ?thesis
    using assms(2-9) d by (simp add: validate_finding_def)
qed

lemma validate_built:
  assumes sha: "\<And>x. length (sha x) = 32"
    and s: "from_source_and_issues sha path source issues style = Some (Inr snap)"
    and p: "path \<noteq> []" "normalize_path path = Inr path"
    and rules: "\<forall>i \<in> set issues. \<not> is_blank (rule_key i)"
  shows "validate_snapshot sha snap = Inr ()"
proof -
  have d: "is_digest (digest_parts sha ps)" for ps by (rule is_digest_parts) (rule sha)
  show ?thesis
  proof (rule snapshot_structure [OF s])
  fix fs
  assume u: "utf8 source" and fs: "collect_identities sha path source issues style = Some (Inr fs)"
    and len: "length fs = length issues" "length (snapshot_findings snap) = length issues"
    and f: "\<And>i. i < length issues \<Longrightarrow> snapshot_findings snap ! i = (built_finding sha issues fs i)
      \<lparr>ambiguous := (1 < card {j. j < length issues \<and> identity (built_finding sha issues fs j) = identity (built_finding sha issues fs i)})\<rparr>"
    and snap: "snapshot_path snap = path" "content_digest snap = digest_parts sha [''content'', source]"
    "line_digests snap = map (line_digest sha) (split_lines source style)"
  have lines: "length (source_line_starts source style) \<le> length (line_digests snap) + 1"
    using source_lines(1) [of source style] by (simp add: snap)
  have "and_then (validate_finding sha g) (\<lambda>_.
       check (\<not> (issue_index g \<noteq> i \<or> \<not> path_eq (finding_path g) (snapshot_path snap) \<or>
           unat (end_line g) > length (line_digests snap) + 1))
         (Invalid ''source snapshot'' ''finding index, path, or source line is inconsistent'')) = Inr ()"
    if ig: "(i, g) \<in> set (zip [0..<length (snapshot_findings snap)] (snapshot_findings snap))" for i g
  proof -
    from ig have i: "i < length issues" and g: "g = snapshot_findings snap ! i"
      by (auto simp: in_set_zip len)
    note b = built_finding_fields [OF u fs i]
    from b(1) obtain h where h: "built_finding sha issues fs i = refresh_finding_digests sha h" by blast
    from b(8,9) obtain ps qs where "source_digest (built_finding sha issues fs i) = digest_parts sha ps"
      "context_digest (built_finding sha issues fs i) = digest_parts sha qs" by blast
    moreover have "\<not> is_blank (rule_key (issues ! i))" using rules i by simp
    ultimately have "validate_finding sha g = Inr ()"
      using p b by (intro validate_refreshed [OF sha, where r = path]) (simp_all add: g f [OF i] h)
    then show ?thesis using b lines by (simp add: g f [OF i] snap(1))
  qed
  then show ?thesis
    using p d by (auto simp: validate_snapshot_def snap try_all_Inr_iff line_digest_def)
  qed
qed

lemma normalize_nonempty: "normalize_path p = Inr q \<Longrightarrow> q \<noteq> []"
  by (erule normalize_path_Inr) (metis append_is_Nil_conv rendered(1))

lemma from_source_and_issues_built:
  assumes u: "utf8 source" and fs: "collect_identities sha path source issues style = Some (Inr fs)"
  shows "\<exists>snap. from_source_and_issues sha path source issues style = Some (Inr snap)"
proof -
  note c = collect_identities_ok(2) [OF u fs]
  then have "\<forall>i < length fs. \<exists>g. fs ! i = refresh_finding_digests sha g \<and> occurrence g = 0"
    using make_finding_identity_ok(2) [OF u refl] by metis
  with bind_occurrence_ordinals_eq [of issues fs sha] c obtain gs
    where "bind_occurrence_ordinals sha fs issues = Some gs" by auto
  with fs show ?thesis
    by (simp add: from_source_and_issues_def collect_identities_def Let_def u)
qed

lemma from_source_and_issues_total: "from_source_and_issues sha path source issues style \<noteq> None"
proof (cases "utf8 source")
  case u: True
  show ?thesis
  proof (cases "collect_identities sha path source issues style")
    case None
    with collect_identities_ok(1) [OF u] show ?thesis by blast
  next
    case (Some r)
    show ?thesis
    proof (cases r)
      case (Inl e)
      with Some show ?thesis by (simp add: from_source_and_issues_def collect_identities_def Let_def u)
    next
      case (Inr fs)
      with Some from_source_and_issues_built [OF u] show ?thesis by force
    qed
  qed
qed (simp add: from_source_and_issues_def)

subsection \<open>Properties\<close>

definition sample_sha :: "bytes \<Rightarrow> bytes" where
  "sample_sha x = take 32 (rev x @ replicate 32 (CHR 0x00))"

definition sample_issue :: "u32 \<Rightarrow> issue" where
  "sample_issue l = issue_new ''rule'' ''message'' \<lparr>range_start = Pos l 0, range_end = Pos l 1\<rparr>"

lemma length_sample_sha: "length (sample_sha x) = 32"
  by (simp add: sample_sha_def)




subsection \<open>Ordinals and ambiguity\<close>

lemma rank_in_mono:
  fixes xs :: "'a :: linorder list"
  assumes "sorted_wrt (<) xs" and "x \<in> set xs" and "y \<in> set xs"
  shows "\<exists>j k. rank_in xs x = Some j \<and> rank_in xs y = Some k \<and> j < length xs \<and> k < length xs \<and> (j \<le> k \<longleftrightarrow> x \<le> y)"
proof -
  from assms obtain j k where "rank_in xs x = Some j" "xs ! j = x" "rank_in xs y = Some k" "xs ! k = y"
    "j < length xs" "k < length xs" using rank_in_Some by metis
  moreover from this have "j \<le> k \<longleftrightarrow> x \<le> y"
    using assms(1) unfolding sorted_wrt_iff_nth_less by (metis leD le_less_linear less_imp_le nat_less_le order_refl)
  ultimately show ?thesis by blast
qed

lemma saturating_mono: "n < 2 ^ 32 \<Longrightarrow> m < 2 ^ 32 \<Longrightarrow> u32_saturating n \<le> u32_saturating m \<longleftrightarrow> n \<le> m"
proof -
  assume nm: "n < 2 ^ 32" "m < 2 ^ 32"
  then have "unat (of_nat n :: u32) = n" "unat (of_nat m :: u32) = m" by (simp_all add: unat_of_nat)
  then have "(of_nat n :: u32) \<le> of_nat m \<longleftrightarrow> n \<le> m" by (simp only: word_le_nat_alt)
  then show ?thesis using nm unfolding u32_saturating_def by (simp only: if_True simp_thms)
qed

lemma sorted_remdups_strict: "sorted (xs :: 'a :: linorder list) \<Longrightarrow> sorted_wrt (<) (remdups_adj xs)"
  by (induction xs rule: remdups_adj.induct) (auto simp: less_le)

lemma sorted_group_ranges: "sorted_wrt (<) (group_ranges issues members)"
  by (simp add: group_ranges_def sorted_remdups_strict)

lemma ordinal_order:
  assumes "length issues < 2 ^ 32" and "length fs = length issues" and i: "i < length issues" and j: "j < length issues"
    and key: "ordinal_key (fs ! i) = ordinal_key (fs ! j)"
    and fs: "utf8 source" "collect_identities sha path source issues style = Some (Inr fs)"
  shows "occurrence (built_finding sha issues fs i) \<le> occurrence (built_finding sha issues fs j) \<longleftrightarrow>
    range_pair (issues ! i) \<le> range_pair (issues ! j)"
proof -
  let ?R = "group_ranges issues (same_key fs i)"
  have same: "same_key fs j = same_key fs i" by (simp add: same_key_def key)
  have "i \<in> set (same_key fs i)" "j \<in> set (same_key fs i)" using i j key assms(2) by (simp_all add: same_key_def)
  then have "range_pair (issues ! i) \<in> set ?R" "range_pair (issues ! j) \<in> set ?R" by simp_all
  from rank_in_mono [OF sorted_group_ranges this] obtain a b where r: "rank_in ?R (range_pair (issues ! i)) = Some a"
    "rank_in ?R (range_pair (issues ! j)) = Some b" "a < length ?R" "b < length ?R"
    "a \<le> b \<longleftrightarrow> range_pair (issues ! i) \<le> range_pair (issues ! j)" by blast
  have "length (same_key fs i) \<le> length fs" unfolding same_key_def by (metis length_filter_le length_upt minus_nat.diff_0)
  then have "length ?R < 2 ^ 32" using length_group_ranges [of issues "same_key fs i"] assms(1,2) by linarith
  then show ?thesis
    using r saturating_mono [of a b]
    by (simp add: built_finding_fields(11) [OF fs i] built_finding_fields(11) [OF fs j] same)
qed

text \<open>C17: In the snapshot of a report with fewer than \<open>2 ^ 32\<close> issues, the findings that share rule, source
  digest and context digest are numbered in the order of their source ranges, duplicates of one range
  getting the same ordinal; a finding is marked ambiguous exactly when another one has its identity.\<close>

theorem from_report_ordinals:
  assumes "from_report sha path source (Some r) = Some (Inr snap)" and "length (report_issues r) < 2 ^ 32"
    and "i < length (report_issues r)" and "j < length (report_issues r)"
  shows "length (snapshot_findings snap) = length (report_issues r) \<and>
    finding_rule (snapshot_findings snap ! i) = rule_key (report_issues r ! i) \<and>
    (ordinal_key (snapshot_findings snap ! i) = ordinal_key (snapshot_findings snap ! j) \<longrightarrow>
       (occurrence (snapshot_findings snap ! i) \<le> occurrence (snapshot_findings snap ! j) \<longleftrightarrow>
        range_pair (report_issues r ! i) \<le> range_pair (report_issues r ! j))) \<and>
    (ambiguous (snapshot_findings snap ! i) \<longleftrightarrow>
       (\<exists>k < length (snapshot_findings snap). k \<noteq> i \<and> identity (snapshot_findings snap ! k) = identity (snapshot_findings snap ! i)))"
proof -
  let ?is = "report_issues r"
  from assms(1) obtain q style where s: "from_source_and_issues sha q source ?is style = Some (Inr snap)"
    by (auto simp: from_report_def seq_try_Inr_iff)
  show ?thesis
  proof (rule snapshot_structure [OF s])
    fix fs
    assume u: "utf8 source" and fs: "collect_identities sha q source ?is style = Some (Inr fs)"
      and len: "length fs = length ?is" "length (snapshot_findings snap) = length ?is"
      and f: "\<And>i. i < length ?is \<Longrightarrow> snapshot_findings snap ! i = (built_finding sha ?is fs i)
        \<lparr>ambiguous := (1 < card {j. j < length ?is \<and> identity (built_finding sha ?is fs j) = identity (built_finding sha ?is fs i)})\<rparr>"
    have key: "ordinal_key (snapshot_findings snap ! k) = ordinal_key (fs ! k)" if "k < length ?is" for k
    proof -
      have "ordinal_key (snapshot_findings snap ! k) = ordinal_key (built_finding sha ?is fs k)"
        unfolding f [OF that] by (simp add: ordinal_key_def)
      then show ?thesis using built_finding_fields(10) [OF u fs that] by simp
    qed
    have order: "occurrence (snapshot_findings snap ! i) \<le> occurrence (snapshot_findings snap ! j) \<longleftrightarrow>
        range_pair (?is ! i) \<le> range_pair (?is ! j)"
      if "ordinal_key (snapshot_findings snap ! i) = ordinal_key (snapshot_findings snap ! j)"
    proof -
      from that have "ordinal_key (fs ! i) = ordinal_key (fs ! j)" by (simp only: key assms(3,4))
      from ordinal_order [OF assms(2) len(1) assms(3,4) this u fs] show ?thesis
        by (simp add: f [OF assms(3)] f [OF assms(4)])
    qed
    define S where "S = {k. k < length ?is \<and> identity (built_finding sha ?is fs k) = identity (built_finding sha ?is fs i)}"
    have S: "finite S" "i \<in> S" using assms(3) by (simp_all add: S_def)
    have "1 < card S \<longleftrightarrow> (\<exists>k \<in> S. k \<noteq> i)"
    proof -
      have "\<not> card S \<le> Suc 0 \<longleftrightarrow> (\<exists>k \<in> S. k \<noteq> i)"
        using S card_le_Suc0_iff_eq [OF S(1)] by metis
      then show ?thesis by (simp add: not_le)
    qed
    then have "ambiguous (snapshot_findings snap ! i) \<longleftrightarrow> (\<exists>k \<in> S. k \<noteq> i)"
      using f [OF assms(3)] by (simp add: S_def)
    also have "\<dots> \<longleftrightarrow> (\<exists>k < length ?is. k \<noteq> i \<and> identity (snapshot_findings snap ! k) = identity (snapshot_findings snap ! i))"
      unfolding S_def using f assms(3) by auto
    finally have amb: "ambiguous (snapshot_findings snap ! i) \<longleftrightarrow>
       (\<exists>k < length (snapshot_findings snap). k \<noteq> i \<and> identity (snapshot_findings snap ! k) = identity (snapshot_findings snap ! i))"
      by (simp add: len)
    have "finding_rule (snapshot_findings snap ! i) = rule_key (?is ! i)"
      using built_finding_fields(3) [OF u fs assms(3)] f [OF assms(3)] by simp
    with len order amb show ?thesis by blast
  qed
qed


theorem from_report_ordinals_witness:
  "\<exists>snap. from_report sample_sha ''a.py'' ''xx'' (Some \<lparr>report_path = ''a.py'', report_language = ''python'',
      report_issues = [sample_issue 1, issue_new ''rule'' ''message'' \<lparr>range_start = Pos 1 1, range_end = Pos 1 2\<rparr>],
      report_metrics = \<lparr>metric_lines = 1, metric_code_lines = 1, metric_comment_lines = 0\<rparr>\<rparr>) = Some (Inr snap) \<and>
    length (snapshot_findings snap) = 2 \<and>
    (ordinal_key (snapshot_findings snap ! 1) = ordinal_key (snapshot_findings snap ! 0) \<longrightarrow>
       \<not> occurrence (snapshot_findings snap ! 1) \<le> occurrence (snapshot_findings snap ! 0))"
proof -
  let ?second = "issue_new ''rule'' ''message'' \<lparr>range_start = Pos 1 1, range_end = Pos 1 2\<rparr>"
  let ?r = "\<lparr>report_path = ''a.py'', report_language = ''python'', report_issues = [sample_issue 1, ?second],
      report_metrics = \<lparr>metric_lines = 1, metric_code_lines = 1, metric_comment_lines = 0\<rparr>\<rparr>"
  have path: "normalize_path ''a.py'' = Inr ''a.py''" by code_simp
  have pos: "position_to_offset ''xx'' (source_line_starts ''xx'' Generic) (Pos 1 0) Generic = Some (Some 0)"
    "position_to_offset ''xx'' (source_line_starts ''xx'' Generic) (Pos 1 1) Generic = Some (Some 1)"
    "position_to_offset ''xx'' (source_line_starts ''xx'' Generic) (Pos 1 2) Generic = Some (Some 2)"
    "source_line_starts ''xx'' Generic = [0]" by code_simp+
  have "\<exists>fs. collect_identities sample_sha ''a.py'' ''xx'' [sample_issue 1, ?second] Generic = Some (Inr fs)"
    using pos by (simp add: collect_identities_def make_finding_identity_def range_digests_def sample_issue_def
        issue_new_def is_file_level_def byte_slice_def idx_def)
  moreover have "utf8 ''xx''" "line_style_for_path ''a.py'' (Some ''python'') = Generic" "path_eq ''a.py'' ''a.py''"
    by code_simp+
  ultimately obtain snap where s: "from_report sample_sha ''a.py'' ''xx'' (Some ?r) = Some (Inr snap)"
    using from_source_and_issues_built [of "''xx''" sample_sha "''a.py''" "[sample_issue 1, ?second]" Generic]
    by (auto simp: from_report_def path)
  from from_report_ordinals [OF s, of 1 0] show ?thesis
    using s by (simp add: sample_issue_def issue_new_def range_pair_def less_pos_def less_eq_pos_def)
qed


subsection \<open>Identities tell findings apart\<close>

lemma digest_parts_inj:
  assumes "digest_parts sha ps = digest_parts sha qs" and "inj_on sha {digest_input ps, digest_input qs}"
    and "\<forall>p \<in> set ps. length p < 2 ^ 64" and "\<forall>q \<in> set qs. length q < 2 ^ 64"
  shows "ps = qs"
proof (rule digest_input_inj [OF _ assms(3,4)])
  from assms(1) have "sha (digest_input ps) = sha (digest_input qs)"
    unfolding digest_parts_def by (rule hex_inj)
  with assms(2) show "digest_input ps = digest_input qs" by (rule inj_onD) simp_all
qed

lemma be_bytes_u32: "be_bytes 4 (unat (v :: u32)) = be_bytes 4 (unat (w :: u32)) \<longleftrightarrow> v = w"
proof -
  have "unat x < 256 ^ 4" for x :: u32 using unsigned_less [of x] by simp
  then show ?thesis using be_bytes_inj [of "unat v" 4 "unat w"] by (auto simp: word_unat_eq_iff)
qed

lemma last_be_bytes: "be_bytes 4 v \<noteq> [] \<and> last (be_bytes 4 v) = char_of (v mod 256)"
proof -
  have "[0..<4] = [0, 1, 2, 3::nat]" by (simp add: upt_rec)
  then show ?thesis by (simp add: be_bytes_def)
qed

definition finding_parts :: "(bytes \<Rightarrow> bytes) \<Rightarrow> finding_identity \<Rightarrow> bytes list" where
  "finding_parts sha f = [''finding'', finding_path f, content_identity sha f]"

definition short_finding :: "finding_identity \<Rightarrow> bool" where
  "short_finding f \<longleftrightarrow> length (finding_rule f) < 2 ^ 64 \<and> length (source_digest f) < 2 ^ 64 \<and>
     length (context_digest f) < 2 ^ 64 \<and> length (finding_path f) < 2 ^ 64"

lemma length_digest_parts: "length (sha (digest_input ps)) = 32 \<Longrightarrow> length (digest_parts sha ps) = 64"
  by (simp add: digest_parts_def length_hex)

text \<open>C39: Two findings get the same identity only if path, rule, source digest, context digest and occurrence
  agree, unless SHA-256 collides on the very inputs hashed for them: the length-prefixed framing of the
  parts is unambiguous and every field that identifies a finding enters the digest.\<close>

theorem identity_faithful:
  assumes "\<And>x. length (sha x) = 32" and "short_finding f" and "short_finding g"
    and "inj_on sha {digest_input (content_parts f), digest_input (content_parts g)}"
    and "inj_on sha {digest_input (finding_parts sha f), digest_input (finding_parts sha g)}"
  shows "identity (refresh_finding_digests sha f) = identity (refresh_finding_digests sha g) \<longleftrightarrow>
    finding_path f = finding_path g \<and> ordinal_key f = ordinal_key g \<and> occurrence f = occurrence g"
proof -
  have id: "identity (refresh_finding_digests sha h) = digest_parts sha (finding_parts sha h)" for h
    by (simp add: refresh_finding_digests_def finding_parts_def Let_def)
  have parts: "content_parts f = content_parts g \<longleftrightarrow> ordinal_key f = ordinal_key g \<and> occurrence f = occurrence g"
    by (auto simp: content_parts_def ordinal_key_def be_bytes_u32)
  have content: "content_identity sha f = content_identity sha g \<longleftrightarrow> content_parts f = content_parts g"
    using digest_parts_inj [OF _ assms(4)] assms(2,3)
    by (auto simp: content_identity_def short_finding_def content_parts_def)
  have "digest_parts sha (finding_parts sha f) = digest_parts sha (finding_parts sha g) \<longleftrightarrow>
      finding_parts sha f = finding_parts sha g"
    using digest_parts_inj [OF _ assms(5)] assms(2,3) assms(1)
    by (auto simp: finding_parts_def short_finding_def content_identity_def length_digest_parts)
  then show ?thesis
    by (simp add: id finding_parts_def content parts conj_ac)
qed

text \<open>A stand-in for the digest: the last 32 bytes of the padded input.\<close>

definition tail_sha :: "bytes \<Rightarrow> bytes" where
  "tail_sha x = drop (length x) (replicate 32 (CHR 0x00) @ x)"

definition plain_finding :: "u32 \<Rightarrow> finding_identity" where
  "plain_finding n = \<lparr>issue_index = 0, finding_rule = ''r'', finding_message = ''m'', source_digest = ''s'',
     context_digest = ''c'', occurrence = n, content_id = [], start_line = 1, end_line = 1, identity = [],
     ambiguous = False, finding_path = ''p''\<rparr>"

lemma last_digest_input: "ps \<noteq> [] \<Longrightarrow> last ps \<noteq> [] \<Longrightarrow> last (digest_input ps) = last (last ps) \<and> digest_input ps \<noteq> []"
proof -
  assume "ps \<noteq> []" "last ps \<noteq> []"
  then show ?thesis by (induction ps rule: rev_induct) (simp_all add: digest_input_def)
qed

lemma tail_sha_distinct: "x \<noteq> [] \<Longrightarrow> y \<noteq> [] \<Longrightarrow> last x \<noteq> last y \<Longrightarrow> tail_sha x \<noteq> tail_sha y"
proof -
  have last: "x \<noteq> [] \<Longrightarrow> last (tail_sha x) = last x" for x
    unfolding tail_sha_def by (subst last_drop) simp_all
  show "x \<noteq> [] \<Longrightarrow> y \<noteq> [] \<Longrightarrow> last x \<noteq> last y \<Longrightarrow> tail_sha x \<noteq> tail_sha y" using last by metis
qed

lemma last_hex: "bs \<noteq> [] \<Longrightarrow> last (hex bs) = hex_digit (byte (last bs) mod 16)"
  by (induction bs) (simp_all add: hex_def)

theorem identity_faithful_witness:
  "identity (refresh_finding_digests tail_sha (plain_finding 0)) \<noteq> identity (refresh_finding_digests tail_sha (plain_finding 1))"
proof -
  have len: "length (tail_sha x) = 32" for x by (simp add: tail_sha_def)
  have content: "last (digest_input (content_parts (plain_finding n))) = char_of (unat n mod 256) \<and>
      digest_input (content_parts (plain_finding n)) \<noteq> []" for n
    using last_digest_input [of "content_parts (plain_finding n)"]
    by (simp add: content_parts_def plain_finding_def last_be_bytes)
  have id: "last (content_identity tail_sha (plain_finding n)) = hex_digit (unat n mod 256 mod 16) \<and>
      content_identity tail_sha (plain_finding n) \<noteq> []" for n
  proof -
    let ?x = "digest_input (content_parts (plain_finding n))"
    have "tail_sha ?x \<noteq> []" using len [of ?x] by (metis length_0_conv zero_neq_numeral)
    moreover have "last (tail_sha ?x) = char_of (unat n mod 256)"
      using content [of n] unfolding tail_sha_def by (subst last_drop) simp_all
    moreover have "hex (tail_sha ?x) \<noteq> []" using length_hex [of "tail_sha ?x"] len [of ?x] by auto
    ultimately show ?thesis
      by (simp add: content_identity_def digest_parts_def last_hex del: Word.of_nat_unat)
  qed
  have finding: "last (digest_input (finding_parts tail_sha (plain_finding n))) = hex_digit (unat n mod 256 mod 16) \<and>
      digest_input (finding_parts tail_sha (plain_finding n)) \<noteq> []" for n
    using last_digest_input [of "finding_parts tail_sha (plain_finding n)"] id [of n]
    by (simp add: finding_parts_def)
  have "tail_sha (digest_input (content_parts (plain_finding 0))) \<noteq> tail_sha (digest_input (content_parts (plain_finding 1)))"
    using content by (intro tail_sha_distinct) simp_all
  moreover have "tail_sha (digest_input (finding_parts tail_sha (plain_finding 0))) \<noteq>
      tail_sha (digest_input (finding_parts tail_sha (plain_finding 1)))"
    using finding by (intro tail_sha_distinct) (simp_all add: hex_digit_def)
  ultimately have "inj_on tail_sha {digest_input (content_parts (plain_finding 0)), digest_input (content_parts (plain_finding 1))}"
    "inj_on tail_sha {digest_input (finding_parts tail_sha (plain_finding 0)), digest_input (finding_parts tail_sha (plain_finding 1))}"
    by (auto simp: inj_on_def)
  moreover have "short_finding (plain_finding n)" "occurrence (plain_finding n) = n" for n
    by (simp_all add: short_finding_def plain_finding_def)
  ultimately show ?thesis
    using identity_faithful [of tail_sha "plain_finding 0" "plain_finding 1", OF len] by simp
qed

end
