(* ===== verification/F64.thy ===== *)
theory F64
  imports Prelude "HOL-Library.Word"
begin

text \<open>
  \<open>f64\<close>: an IEEE 754 double is its 64 bits. Finite values are integer multiples of
  \<open>2 ^ -1074\<close>, so a value is represented exactly by the integer \<open>units x\<close>, its multiple.
  Comparisons are comparisons of units (the units of the infinities lie outside the finite
  range); addition, multiplication and division of non-negative finite operands round the
  exact result to the nearest double, ties to even.
\<close>

unbundle bit_operations_syntax

type_synonym u128 = "128 word"
type_synonym f64 = "64 word"

datatype ordering = Less | Equal | Greater

definition cmp :: "'a :: linorder \<Rightarrow> 'a \<Rightarrow> ordering" where
  "cmp x y = (if x < y then Less else if x = y then Equal else Greater)"

subsection \<open>Fields and values\<close>

definition f64_negative :: "f64 \<Rightarrow> bool" where
  "f64_negative x \<longleftrightarrow> 2 ^ 63 \<le> unat x"

definition f64_exponent :: "f64 \<Rightarrow> nat" where
  "f64_exponent x = unat x div 2 ^ 52 mod 2 ^ 11"

definition f64_fraction :: "f64 \<Rightarrow> nat" where
  "f64_fraction x = unat x mod 2 ^ 52"

definition is_finite :: "f64 \<Rightarrow> bool" where
  "is_finite x \<longleftrightarrow> f64_exponent x \<noteq> 2047"

definition is_nan :: "f64 \<Rightarrow> bool" where
  "is_nan x \<longleftrightarrow> f64_exponent x = 2047 \<and> f64_fraction x \<noteq> 0"

definition magnitude :: "f64 \<Rightarrow> nat" where
  "magnitude x = (if f64_exponent x = 0 then f64_fraction x
     else (2 ^ 52 + f64_fraction x) * 2 ^ (f64_exponent x - 1))"

definition units :: "f64 \<Rightarrow> int" where
  "units x = (if f64_negative x then - int (magnitude x) else int (magnitude x))"

text \<open>\<open>partial_cmp\<close> and the comparison operators: unordered when a side is not a number.\<close>

definition partial_cmp :: "f64 \<Rightarrow> f64 \<Rightarrow> ordering option" where
  "partial_cmp x y = (if is_nan x \<or> is_nan y then None else Some (cmp (units x) (units y)))"

definition f64_less :: "f64 \<Rightarrow> f64 \<Rightarrow> bool" where
  "f64_less x y \<longleftrightarrow> partial_cmp x y = Some Less"

definition f64_le :: "f64 \<Rightarrow> f64 \<Rightarrow> bool" where
  "f64_le x y \<longleftrightarrow> partial_cmp x y = Some Less \<or> partial_cmp x y = Some Equal"

definition f64_eq :: "f64 \<Rightarrow> f64 \<Rightarrow> bool" where
  "f64_eq x y \<longleftrightarrow> partial_cmp x y = Some Equal"

subsection \<open>Rounding\<close>

definition f64_infinity :: f64 where
  "f64_infinity = 0x7FF0000000000000"

text \<open>The nearest integer to \<open>n / d\<close>, ties to even.\<close>

definition half_even :: "nat \<Rightarrow> nat \<Rightarrow> nat" where
  "half_even n d = (let q = n div d; r = n mod d in
     if 2 * r < d \<or> 2 * r = d \<and> even q then q else q + 1)"

text \<open>The binary places to drop so that at most 53 remain.\<close>

fun excess :: "nat \<Rightarrow> nat" where
  "excess n = (if n < 2 ^ 53 then 0 else Suc (excess (n div 2)))"

declare excess.simps [simp del]

definition round_units :: "nat \<Rightarrow> nat \<Rightarrow> f64" where
  "round_units n d = (let e = excess (n div d); b = e * 2 ^ 52 + half_even n (d * 2 ^ e) in
     if b < 2047 * 2 ^ 52 then of_nat b else f64_infinity)"

text \<open>The operators on non-negative finite operands, the divisor not zero.\<close>

definition f64_add :: "f64 \<Rightarrow> f64 \<Rightarrow> f64" where
  "f64_add x y = round_units (magnitude x + magnitude y) 1"

definition f64_mul :: "f64 \<Rightarrow> f64 \<Rightarrow> f64" where
  "f64_mul x y = round_units (magnitude x * magnitude y) (2 ^ 1074)"

definition f64_div :: "f64 \<Rightarrow> f64 \<Rightarrow> f64" where
  "f64_div x y = round_units (magnitude x * 2 ^ 1074) (magnitude y)"

text \<open>The exact conversion of a natural number below \<open>2 ^ 53\<close> (\<open>f64::from\<close> of a \<open>u32\<close>, a literal).\<close>

definition f64_of_nat :: "nat \<Rightarrow> f64" where
  "f64_of_nat n = round_units (n * 2 ^ 1074) 1"

subsection \<open>Comparison\<close>

lemma cmp_iffs [simp]:
  "cmp x y = Less \<longleftrightarrow> x < y" "cmp x y = Equal \<longleftrightarrow> x = y" "cmp x y = Greater \<longleftrightarrow> y < x"
  by (auto simp: cmp_def)

lemma cmp_mult: "0 < k \<Longrightarrow> cmp (x * k) (y * k) = cmp x (y :: nat)"
  by (simp add: cmp_def)

lemma cmp_int: "cmp (int x) (int y) = cmp x y"
  by (simp add: cmp_def)

lemma finite_not_nan [simp]: "is_finite x \<Longrightarrow> \<not> is_nan x"
  by (simp add: is_finite_def is_nan_def)

lemma f64_less_finite: "is_finite x \<Longrightarrow> is_finite y \<Longrightarrow> f64_less x y \<longleftrightarrow> units x < units y"
  by (simp add: f64_less_def partial_cmp_def)

lemma f64_le_finite: "is_finite x \<Longrightarrow> is_finite y \<Longrightarrow> f64_le x y \<longleftrightarrow> units x \<le> units y"
  by (auto simp: f64_le_def partial_cmp_def)

lemma f64_zero [simp]: "units 0 = 0" "magnitude 0 = 0" "is_finite 0" "\<not> f64_negative 0"
  by (simp_all add: units_def magnitude_def is_finite_def f64_exponent_def f64_fraction_def f64_negative_def)

lemma units_nonneg: "\<not> f64_negative x \<Longrightarrow> units x = int (magnitude x)"
  by (simp add: units_def)

subsection \<open>Decoding what rounding encodes\<close>

lemma decode:
  assumes m: "m \<le> 2 ^ 53" and e: "e = 0 \<or> 2 ^ 52 \<le> m" and b: "e * 2 ^ 52 + m < 2047 * 2 ^ 52"
  shows "magnitude (of_nat (e * 2 ^ 52 + m)) = m * 2 ^ e" and "\<not> f64_negative (of_nat (e * 2 ^ 52 + m))"
    and "is_finite (of_nat (e * 2 ^ 52 + m))"
proof -
  define b where "b = e * 2 ^ 52 + m"
  have lt: "b < 2047 * 2 ^ 52" using b by (simp add: b_def)
  then have u: "unat (of_nat b :: f64) = b" by (simp add: unat_of_nat)
  have "b div 2 ^ 52 < 2047" using lt by (simp add: less_mult_imp_div_less)
  then have ex: "f64_exponent (of_nat b) = b div 2 ^ 52" by (simp add: f64_exponent_def u)
  have fr: "f64_fraction (of_nat b) = b mod 2 ^ 52" by (simp add: f64_fraction_def u)
  show "\<not> f64_negative (of_nat (e * 2 ^ 52 + m))" unfolding b_def [symmetric] f64_negative_def u using lt by simp
  show "is_finite (of_nat (e * 2 ^ 52 + m))"
    unfolding b_def [symmetric] is_finite_def ex using \<open>b div 2 ^ 52 < 2047\<close> by simp
  consider "m < 2 ^ 52" "e = 0" | k where "m = 2 ^ 52 + k" "k < 2 ^ 52" | "m = 2 ^ 53"
  proof (cases "m < 2 ^ 52 \<or> m = 2 ^ 53")
    case False
    with m obtain k where k: "m = 2 ^ 52 + k" by (metis le_add_diff_inverse not_le)
    moreover have "k < 2 ^ 52" using False m unfolding k by simp
    ultimately show thesis by (rule that)
  qed (use e that in auto)
  then have "magnitude (of_nat b) = m * 2 ^ e"
  proof cases
    case 1
    then have "b div 2 ^ 52 = 0" "b mod 2 ^ 52 = m" by (simp_all add: b_def)
    then have "f64_exponent (of_nat b) = 0" "f64_fraction (of_nat b) = m" unfolding ex fr by simp_all
    with 1(2) show ?thesis by (simp add: magnitude_def)
  next
    case 2
    then have "b = (e + 1) * 2 ^ 52 + k" by (simp add: b_def algebra_simps)
    then have "b div 2 ^ 52 = e + 1" "b mod 2 ^ 52 = k"
      using 2(2) by (simp_all only: div_mult_self3 mod_mult_self3 div_less mod_less)
    then show ?thesis by (simp add: magnitude_def ex fr 2)
  next
    case 3
    then have "b = (e + 2) * 2 ^ 52" by (simp add: b_def algebra_simps)
    then have "b div 2 ^ 52 = e + 2" "b mod 2 ^ 52 = 0" by simp_all
    then show ?thesis by (simp add: magnitude_def ex fr 3)
  qed
  then show "magnitude (of_nat (e * 2 ^ 52 + m)) = m * 2 ^ e" by (simp only: b_def)
qed

lemma excess_bound: "n < 2 ^ (53 + excess n)"
  by (induction n rule: excess.induct) (subst excess.simps, auto simp: power_add)

lemma excess_le: "n < 2 ^ (53 + s) \<Longrightarrow> excess n \<le> s"
proof (induction s arbitrary: n)
  case 0
  then show ?case by (subst excess.simps) simp
next
  case (Suc s)
  then have "n < 2 ^ (53 + s) * 2" by (simp add: power_add)
  then have "n div 2 < 2 ^ (53 + s)" by (rule less_mult_imp_div_less)
  then show ?case using Suc.IH by (subst excess.simps) simp
qed

lemma excess_min: "excess n \<noteq> 0 \<Longrightarrow> 2 ^ (52 + excess n) \<le> n"
proof (rule ccontr)
  assume "excess n \<noteq> 0" "\<not> 2 ^ (52 + excess n) \<le> n"
  then have "n < 2 ^ (53 + (excess n - 1))" by simp
  from excess_le [OF this] \<open>excess n \<noteq> 0\<close> show False by simp
qed

lemma half_even_exact: "d \<noteq> 0 \<Longrightarrow> half_even (q * d) d = q"
  by (simp add: half_even_def)

lemma half_even_bounds: "n div d \<le> half_even n d" "half_even n d \<le> n div d + 1"
  by (simp_all add: half_even_def Let_def)

text \<open>The rounded significand fits its field, and is normalized when bits were dropped.\<close>

lemma half_even_field:
  assumes d: "0 < d" and e: "e = excess (n div d)"
  shows "half_even n (d * 2 ^ e) \<le> 2 ^ 53" and "e = 0 \<or> 2 ^ 52 \<le> half_even n (d * 2 ^ e)"
proof -
  have q: "n div (d * 2 ^ e) = n div d div 2 ^ e" by (simp add: div_mult2_eq)
  have "n div d < 2 ^ 53 * 2 ^ e" using excess_bound [of "n div d"] by (simp add: e power_add)
  then have "n div (d * 2 ^ e) < 2 ^ 53" unfolding q by (simp add: less_mult_imp_div_less)
  then show "half_even n (d * 2 ^ e) \<le> 2 ^ 53" using half_even_bounds(2) [of n "d * 2 ^ e"] by simp
  have "2 ^ 52 \<le> n div d div 2 ^ e" if "e \<noteq> 0"
  proof -
    have "2 ^ 52 * 2 ^ e \<le> n div d" using excess_min [of "n div d"] that by (simp add: e power_add)
    then show ?thesis by (metis div_le_mono nonzero_mult_div_cancel_right power_not_zero zero_neq_numeral)
  qed
  then show "e = 0 \<or> 2 ^ 52 \<le> half_even n (d * 2 ^ e)"
    using half_even_bounds(1) [of n "d * 2 ^ e"] unfolding q by (meson order_trans)
qed


text \<open>The rounded magnitude, in units.\<close>

definition rounded :: "nat \<Rightarrow> nat \<Rightarrow> nat" where
  "rounded n d = (let e = excess (n div d) in half_even n (d * 2 ^ e) * 2 ^ e)"

lemma round_units_decode:
  assumes d: "0 < d" and small: "n div d < 2 ^ (53 + s)" and s: "s \<le> 2044"
  shows "magnitude (round_units n d) = rounded n d" and "\<not> f64_negative (round_units n d)"
    and "is_finite (round_units n d)"
proof -
  define e where e: "e = excess (n div d)"
  define h where h: "h = half_even n (d * 2 ^ e)"
  have "e \<le> 2044" using excess_le [OF small] s by (simp add: e)
  moreover have hb: "h \<le> 2 ^ 53" "e = 0 \<or> 2 ^ 52 \<le> h" using half_even_field [OF d e] by (simp_all add: h)
  ultimately have b: "e * 2 ^ 52 + h < 2047 * 2 ^ 52" by simp
  have r: "round_units n d = of_nat (e * 2 ^ 52 + h)"
    unfolding round_units_def Let_def e [symmetric] h [symmetric] using b by (simp only: if_True)
  have "rounded n d = h * 2 ^ e" by (simp add: rounded_def h e Let_def)
  then show "magnitude (round_units n d) = rounded n d" "\<not> f64_negative (round_units n d)"
    "is_finite (round_units n d)"
    unfolding r using decode [OF hb b] by (simp_all only: not_False_eq_True)
qed

lemma half_even_scale: "0 < k \<Longrightarrow> half_even (n * k) (d * k) = half_even n d"
  by (simp add: half_even_def Let_def mult.assoc [symmetric] flip: mult_mod_left)

lemma round_units_scale: "0 < k \<Longrightarrow> round_units (n * k) (d * k) = round_units n d"
  and rounded_scale: "0 < k \<Longrightarrow> rounded (n * k) (d * k) = rounded n d"
proof -
  assume k: "0 < k"
  have h: "half_even (n * k) (d * k * 2 ^ e) = half_even n (d * 2 ^ e)" for e
  proof -
    have "d * k * 2 ^ e = d * 2 ^ e * k" by simp
    then show ?thesis using half_even_scale [OF k] by metis
  qed
  show "round_units (n * k) (d * k) = round_units n d" "rounded (n * k) (d * k) = rounded n d"
    using k by (simp_all add: round_units_def rounded_def Let_def h)
qed

lemma rounded_exact: "m < 2 ^ 53 \<Longrightarrow> rounded (m * 2 ^ s) 1 = m * 2 ^ s"
proof -
  assume "m < 2 ^ 53"
  then have "m * 2 ^ s < 2 ^ (53 + s)" by (simp add: power_add)
  then have "excess (m * 2 ^ s) \<le> s" by (rule excess_le)
  then have "m * 2 ^ s = m * 2 ^ (s - excess (m * 2 ^ s)) * 2 ^ excess (m * 2 ^ s)"
    by (simp add: mult.assoc flip: power_add)
  then show ?thesis
    using half_even_exact [of "2 ^ excess (m * 2 ^ s)"] by (metis (no_types) div_by_1 mult_1 power_not_zero rounded_def zero_neq_numeral)
qed

lemma div_mono_frac: "0 < d \<Longrightarrow> 0 < d' \<Longrightarrow> n * d' \<le> n' * d \<Longrightarrow> n div d \<le> n' div d'" for n :: nat
proof -
  assume d: "0 < d" "0 < d'" and le: "n * d' \<le> n' * d"
  have "n div d * d * d' \<le> n * d'" by (simp add: div_times_less_eq_dividend)
  also note le
  finally have "n div d * d' * d \<le> n' * d" by (simp add: ac_simps)
  then have "n div d * d' \<le> n'" using d by simp
  then show ?thesis using d by (simp add: less_eq_div_iff_mult_less_eq)
qed

lemma half_even_mono:
  assumes d: "0 < d" "0 < d'" and le: "n * d' \<le> n' * d"
  shows "half_even n d \<le> half_even n' d'"
proof (cases "n div d = n' div d'")
  case False
  then have "n div d + 1 \<le> n' div d'" using div_mono_frac [OF d le] by simp
  then show ?thesis using half_even_bounds(2) [of n d] half_even_bounds(1) [of n' d'] by linarith
next
  case True
  define a r r' where "a = n div d" "r = n mod d" "r' = n' mod d'"
  then have "n = a * d + r" "n' = a * d' + r'" by (metis True div_mult_mod_eq)+
  with le have "r * d' \<le> r' * d" by (simp add: algebra_simps)
  then have r: "n mod d * d' \<le> n' mod d' * d" by (simp only: \<open>r = n mod d\<close> \<open>r' = n' mod d'\<close>)
  have up: "d' \<le> 2 * (n' mod d')" if "d \<le> 2 * (n mod d)"
  proof -
    have "d * d' \<le> 2 * (n mod d) * d'" using that by simp
    also have "\<dots> \<le> 2 * (n' mod d') * d" using r by simp
    finally show ?thesis using d by simp
  qed
  have strict: "d' < 2 * (n' mod d')" if "d < 2 * (n mod d)"
  proof -
    have "d * d' < 2 * (n mod d) * d'" using that d by simp
    also have "\<dots> \<le> 2 * (n' mod d') * d" using r by simp
    finally show ?thesis using d by simp
  qed
  show ?thesis using up strict by (auto simp: half_even_def Let_def True)
qed

lemma rounded_mono:
  assumes d: "0 < d" "0 < d'" and le: "n * d' \<le> n' * d"
  shows "rounded n d \<le> rounded n' d'"
proof -
  define e e' where e: "e = excess (n div d)" and e': "e' = excess (n' div d')"
  have "n div d \<le> n' div d'" by (rule div_mono_frac [OF d le])
  also have "\<dots> < 2 ^ (53 + e')" unfolding e' by (rule excess_bound)
  finally have "e \<le> e'" unfolding e by (rule excess_le)
  then consider "e = e'" | "e < e'" by linarith
  then have "half_even n (d * 2 ^ e) * 2 ^ e \<le> half_even n' (d' * 2 ^ e') * 2 ^ e'"
  proof cases
    case 1
    have "half_even n (d * 2 ^ e) \<le> half_even n' (d' * 2 ^ e)"
      using d le by (intro half_even_mono) (simp_all add: mult.assoc [symmetric])
    then show ?thesis by (simp add: 1)
  next
    case 2
    have "half_even n (d * 2 ^ e) * 2 ^ e \<le> 2 ^ 53 * 2 ^ e"
      using half_even_field(1) [OF d(1) e] by (rule mult_right_mono) simp
    also have "\<dots> = 2 ^ 52 * 2 ^ Suc e" by simp
    also have "\<dots> \<le> 2 ^ 52 * 2 ^ e'" using 2 by (intro mult_left_mono power_increasing) simp_all
    also have "\<dots> \<le> half_even n' (d' * 2 ^ e') * 2 ^ e'"
      using half_even_field(2) [OF d(2) e'] 2 by (intro mult_right_mono) simp_all
    finally show ?thesis .
  qed
  then show ?thesis by (simp add: rounded_def e e' Let_def)
qed

subsection \<open>Rounding picks a nearest double\<close>

lemma half_even_nearest:
  assumes "0 < d"
  shows "\<bar>int (half_even n d * d) - int n\<bar> \<le> \<bar>int (k * d) - int n\<bar>"
proof -
  define q r where q: "q = n div d" and r: "r = n mod d"
  have n: "int n = int q * int d + int r" and rd: "int r < int d"
    using assms unfolding q r by (simp_all flip: of_nat_mult of_nat_add)
  have far: "int r \<le> \<bar>int (k * d) - int n\<bar> \<or> int d - int r \<le> \<bar>int (k * d) - int n\<bar>"
  proof (cases "k \<le> q")
    case True
    then have "int k * int d \<le> int q * int d" by (simp add: mult_right_mono)
    then show ?thesis by (simp add: n)
  next
    case False
    then have "(int q + 1) * int d \<le> int k * int d" by (intro mult_right_mono) simp_all
    then show ?thesis using rd by (simp add: n algebra_simps)
  qed
  have "\<bar>int (half_even n d * d) - int n\<bar> = (if half_even n d = q then int r else int d - int r)"
    using rd unfolding half_even_def Let_def q [symmetric] r [symmetric] by (auto simp: n algebra_simps)
  moreover have "half_even n d = q \<Longrightarrow> 2 * int r \<le> int d" "half_even n d \<noteq> q \<Longrightarrow> int d \<le> 2 * int r"
    unfolding half_even_def Let_def q [symmetric] r [symmetric] by (auto split: if_splits)
  ultimately show ?thesis using far by (auto split: if_splits)
qed

lemma magnitude_multiple: "2 ^ (52 + e) \<le> magnitude y \<Longrightarrow> 2 ^ e dvd magnitude y"
proof -
  assume le: "2 ^ (52 + e) \<le> magnitude y"
  have f: "f64_fraction y < 2 ^ 52" by (simp add: f64_fraction_def)
  show ?thesis
  proof (cases "f64_exponent y = 0")
    case True
    with le have "(2::nat) ^ (52 + e) < 2 ^ 52" using f by (simp add: magnitude_def)
    then show ?thesis by (simp only: power_strict_increasing_iff)
  next
    case False
    then obtain E where E: "f64_exponent y = Suc E" by (cases "f64_exponent y") simp_all
    have "2 ^ (52 + e) < (2::nat) ^ (53 + E)"
    proof (rule le_less_trans [OF le])
      show "magnitude y < 2 ^ (53 + E)" using f by (simp add: magnitude_def E power_add)
    qed
    then have "52 + e < 53 + E" by (subst (asm) power_strict_increasing_iff) simp_all
    then have "(2::nat) ^ e dvd 2 ^ E" by (simp add: le_imp_power_dvd)
    then show ?thesis by (simp add: magnitude_def E)
  qed
qed

lemma rounded_nearest:
  assumes d: "0 < d"
  shows "\<bar>int (rounded n d * d) - int n\<bar> \<le> \<bar>units y * int d - int n\<bar>"
proof -
  define e where e: "e = excess (n div d)"
  have r: "rounded n d * d = half_even n (d * 2 ^ e) * (d * 2 ^ e)"
    by (simp add: rounded_def e Let_def)
  have multiple: "\<bar>int (rounded n d * d) - int n\<bar> \<le> \<bar>int (k * 2 ^ e * d) - int n\<bar>" for k
    using half_even_nearest [of "d * 2 ^ e" n k] d unfolding r by (simp add: ac_simps)
  have pos: "\<bar>int (rounded n d * d) - int n\<bar> \<le> \<bar>int (magnitude y * d) - int n\<bar>"
  proof (cases "2 ^ e dvd magnitude y")
    case True
    then obtain k where "magnitude y = k * 2 ^ e" by (metis dvdE mult.commute)
    then show ?thesis using multiple [of k] by simp
  next
    case False
    then have e0: "e \<noteq> 0" and "\<not> 2 ^ (52 + e) \<le> magnitude y" using magnitude_multiple by (metis power_0 one_dvd, blast)
    then have "magnitude y * d \<le> 2 ^ 52 * 2 ^ e * d" by (simp add: power_add)
    moreover have "2 ^ 52 * 2 ^ e * d \<le> n"
    proof -
      have "2 ^ 52 * 2 ^ e * d \<le> n div d * d"
        using excess_min [of "n div d"] e0 by (intro mult_right_mono) (simp_all add: e power_add)
      also have "\<dots> \<le> n" by (rule div_times_less_eq_dividend)
      finally show ?thesis .
    qed
    ultimately show ?thesis using multiple [of "2 ^ 52"] by linarith
  qed
  show ?thesis
  proof (cases "f64_negative y")
    case True
    then have "units y * int d \<le> 0" by (simp add: units_def)
    then show ?thesis using multiple [of 0] by simp
  next
    case False
    then show ?thesis using pos by (simp add: units_def)
  qed
qed

lemma f64_of_nat:
  assumes "n < 2 ^ 53"
  shows "magnitude (f64_of_nat n) = n * 2 ^ 1074" "\<not> f64_negative (f64_of_nat n)" "is_finite (f64_of_nat n)"
proof -
  have "n * 2 ^ 1074 div 1 < 2 ^ (53 + 1074)" using assms by (simp only: power_add div_by_1) simp
  note decoded = round_units_decode [OF zero_less_one this]
  then show "magnitude (f64_of_nat n) = n * 2 ^ 1074"
    using rounded_exact [OF assms, of 1074] by (simp only: f64_of_nat_def)
  show "\<not> f64_negative (f64_of_nat n)" "is_finite (f64_of_nat n)"
    using decoded(2,3) by (simp_all add: f64_of_nat_def)
qed

end
