(* ===== verification/Artifacts.thy ===== *)
theory Artifacts
  imports Snapshots F64
begin

text \<open>
  The assessment artifacts of \<open>crates/hoonarqube-ir/src/assessment.rs\<close> and the report structures at
  the end of \<open>crates/hoonarqube-ir/src/lib.rs\<close>: contexts, the new-code, coverage and gate
  reports with their validation, and the assembly of an \<open>AssessmentReport\<close> from file reports
  and source bytes. Records follow the structs; serialization itself is not modelled, only the checks
  the hand-written deserializers add. \<open>None\<close> is a panic, as in the snapshots.
\<close>

subsection \<open>Analysis contexts\<close>

record analysis_context =
  analyzer_version :: string
  catalog_digest :: string
  options_digest :: string
  scope_digest :: string
  source_revision :: "string option"

definition context_new :: "string \<Rightarrow> string \<Rightarrow> string \<Rightarrow> string \<Rightarrow> string option \<Rightarrow> analysis_context" where
  "context_new version catalog options scope revision =
     \<lparr>analyzer_version = version, catalog_digest = catalog, options_digest = options, scope_digest = scope,
      source_revision = revision\<rparr>"

definition validate_context :: "analysis_context \<Rightarrow> assessment_error + unit" where
  "validate_context c =
     and_then (try_all (\<lambda>(field, value). check (\<not> is_blank value)
         (Invalid ''analysis context'' (field @ '' must not be empty'')))
       [(''analyzer_version'', analyzer_version c), (''catalog_digest'', catalog_digest c),
        (''options_digest'', options_digest c), (''scope_digest'', scope_digest c)]) (\<lambda>_.
     check (case source_revision c of None \<Rightarrow> True | Some r \<Rightarrow> \<not> is_blank r)
       (Invalid ''analysis context'' ''source_revision must not be empty when supplied''))"

definition compatible_with :: "analysis_context \<Rightarrow> analysis_context \<Rightarrow> bool" where
  "compatible_with c d \<longleftrightarrow> analyzer_version c = analyzer_version d \<and> catalog_digest c = catalog_digest d \<and>
     options_digest c = options_digest d \<and> scope_digest c = scope_digest d"

subsection \<open>New code\<close>

datatype finding_status = New | Existing | Uncertain

record finding_match =
  match_path :: path
  match_index :: nat
  match_identity :: string
  match_status :: finding_status

record new_code_lines =
  new_path :: path
  new_lines :: "u32 list"

datatype assessment_status = Complete | Missing | InvalidStatus | Incomplete

record new_code_report =
  new_code_version :: u32
  new_code_status :: assessment_status
  reference_context :: "analysis_context option"
  new_code_findings :: "finding_match list"
  resolved :: "finding_identity list"
  new_code_line_list :: "new_code_lines list"
  new_code_diagnostics :: "string list"

definition is_normalized :: "path \<Rightarrow> bool" where
  "is_normalized p \<longleftrightarrow> (case normalize_path p of Inl _ \<Rightarrow> False | Inr q \<Rightarrow> path_eq q p)"

definition validate_match :: "finding_match \<Rightarrow> assessment_error + unit" where
  "validate_match f =
     and_then (check (\<not> (match_path f = [] \<or> \<not> is_digest (match_identity f)))
       (Invalid ''new_code'' ''finding path and identity must be present'')) (\<lambda>_.
     check (is_normalized (match_path f)) (Invalid ''new_code'' ''finding paths must be normalized''))"

definition validate_new_lines :: "new_code_lines \<Rightarrow> assessment_error + unit" where
  "validate_new_lines l =
     check (\<not> (new_path l = [] \<or> \<not> is_normalized (new_path l) \<or> 0 \<in> set (new_lines l) \<or>
         (\<exists>(a, b) \<in> set (windows2 (new_lines l)). a \<ge> b)))
       (Invalid ''new_code'' ''new-code lines must be positive, sorted, and unique'')"

definition validate_new_code :: "(bytes \<Rightarrow> bytes) \<Rightarrow> new_code_report \<Rightarrow> assessment_error + unit" where
  "validate_new_code sha r =
     and_then (check (new_code_version r = ASSESSMENT_SCHEMA_VERSION)
       (UnsupportedSchema ''new_code'' (new_code_version r))) (\<lambda>_.
     and_then (case reference_context r of None \<Rightarrow> Inr () | Some c \<Rightarrow> validate_context c) (\<lambda>_.
     and_then (try_all validate_match (new_code_findings r)) (\<lambda>_.
     and_then (try_all (validate_finding sha) (resolved r)) (\<lambda>_.
     try_all validate_new_lines (new_code_line_list r)))))"

subsection \<open>Coverage\<close>

record coverage_counter =
  eligible :: u64
  covered :: u64

definition counter_new :: "u64 \<Rightarrow> u64 \<Rightarrow> assessment_error + coverage_counter" where
  "counter_new e c =
     and_then (check (\<not> c > e) (Invalid ''coverage counter'' ''covered cannot exceed eligible'')) (\<lambda>_.
     Inr \<lparr>eligible = e, covered = c\<rparr>)"

text \<open>\<open>as f64\<close> rounds a counter to the nearest double.\<close>

definition u64_as_f64 :: "u64 \<Rightarrow> f64" where
  "u64_as_f64 v = f64_of_nat (unat v)"

definition counter_percentage :: "coverage_counter \<Rightarrow> f64 option" where
  "counter_percentage c =
     (if eligible c \<noteq> 0 then Some (f64_div (f64_mul (u64_as_f64 (covered c)) (f64_of_nat 100)) (u64_as_f64 (eligible c)))
      else None)"

definition validate_coverage_counter :: "coverage_counter \<Rightarrow> assessment_error + unit" where
  "validate_coverage_counter c =
     check (\<not> covered c > eligible c) (Invalid ''coverage counter'' ''covered cannot exceed eligible'')"

definition deserialize_counter :: "coverage_counter \<Rightarrow> assessment_error + coverage_counter" where
  "deserialize_counter raw = counter_new (eligible raw) (covered raw)"

record line_coverage =
  covered_line :: u32
  line_hit :: "bool option"
  line_branches :: "coverage_counter option"

record file_coverage =
  coverage_path :: path
  coverage_lines :: "line_coverage list"

record coverage_input =
  input_path :: path
  input_format :: string
  input_digest :: string

record coverage_report =
  coverage_version :: u32
  coverage_status :: assessment_status
  coverage_files :: "file_coverage list"
  coverage_inputs :: "coverage_input list"
  total_lines :: coverage_counter
  total_branches :: coverage_counter
  coverage_diagnostics :: "string list"

definition checked_add :: "'a :: len word \<Rightarrow> 'a word \<Rightarrow> 'a word option" where
  "checked_add x y = (if unat x + unat y < 2 ^ LENGTH('a) then Some (x + y) else None)"

lemma checked_add_Some_iff: "checked_add x y = Some z \<longleftrightarrow> unat z = unat x + unat y" for x y z :: u64
proof -
  have "unat (x + y) = unat x + unat y" if "unat x + unat y < 2 ^ 64" using that by (simp add: unat_word_ariths)
  moreover have "unat z < 2 ^ 64" using unsigned_less [of z] by simp
  ultimately show ?thesis by (auto simp: checked_add_def word_unat_eq_iff)
qed

definition add_coverage_counter :: "coverage_counter \<Rightarrow> coverage_counter \<Rightarrow> assessment_error + coverage_counter" where
  "add_coverage_counter t part =
     (case (checked_add (eligible t) (eligible part), checked_add (covered t) (covered part)) of
        (Some e, Some c) \<Rightarrow> Inr \<lparr>eligible = e, covered = c\<rparr>
      | _ \<Rightarrow> Inl (Invalid ''coverage'' ''coverage totals overflow''))"

fun line_totals :: "line_coverage list \<Rightarrow> u32 \<Rightarrow> coverage_counter \<Rightarrow> coverage_counter \<Rightarrow>
    assessment_error + coverage_counter \<times> coverage_counter" where
  "line_totals [] previous lines branches = Inr (lines, branches)"
| "line_totals (l # ls) previous lines branches =
     and_then (check (\<not> (covered_line l \<le> previous \<or> line_hit l = None \<and> line_branches l = None))
       (Invalid ''coverage'' ''coverage lines must be sorted, unique, 1-based measurements'')) (\<lambda>_.
     and_then (case line_hit l of None \<Rightarrow> Inr lines
       | Some hit \<Rightarrow> add_coverage_counter lines \<lparr>eligible = 1, covered = (if hit then 1 else 0)\<rparr>) (\<lambda>lines.
     and_then (case line_branches l of None \<Rightarrow> Inr branches
       | Some c \<Rightarrow> and_then (validate_coverage_counter c) (\<lambda>_. add_coverage_counter branches c)) (\<lambda>branches.
     line_totals ls (covered_line l) lines branches)))"

fun file_totals :: "file_coverage list \<Rightarrow> path option \<Rightarrow> coverage_counter \<Rightarrow> coverage_counter \<Rightarrow>
    assessment_error + coverage_counter \<times> coverage_counter" where
  "file_totals [] previous lines branches = Inr (lines, branches)"
| "file_totals (f # fs) previous lines branches =
     and_then (check (coverage_path f \<noteq> [])
       (Invalid ''coverage'' ''coverage files must have sorted unique normalized paths'')) (\<lambda>_.
     and_then (normalize_path (coverage_path f)) (\<lambda>q.
     and_then (check (\<not> (\<not> path_eq q (coverage_path f) \<or>
         (case previous of None \<Rightarrow> False | Some p \<Rightarrow> \<not> path_less p (coverage_path f))))
       (Invalid ''coverage'' ''coverage files must have sorted unique normalized paths'')) (\<lambda>_.
     and_then (line_totals (coverage_lines f) 0 lines branches) (\<lambda>(lines, branches).
     file_totals fs (Some (coverage_path f)) lines branches))))"

definition coverage_totals :: "file_coverage list \<Rightarrow> assessment_error + coverage_counter \<times> coverage_counter" where
  "coverage_totals files = file_totals files None \<lparr>eligible = 0, covered = 0\<rparr> \<lparr>eligible = 0, covered = 0\<rparr>"

definition validate_coverage :: "coverage_report \<Rightarrow> assessment_error + unit" where
  "validate_coverage r =
     and_then (check (coverage_version r = ASSESSMENT_SCHEMA_VERSION)
       (UnsupportedSchema ''coverage'' (coverage_version r))) (\<lambda>_.
     and_then (validate_coverage_counter (total_lines r)) (\<lambda>_.
     and_then (validate_coverage_counter (total_branches r)) (\<lambda>_.
     and_then (coverage_totals (coverage_files r)) (\<lambda>(lines, branches).
     and_then (check (\<not> (total_lines r \<noteq> lines \<or> total_branches r \<noteq> branches))
       (Invalid ''coverage'' ''aggregate counters differ from per-line measurements'')) (\<lambda>_.
     try_all (\<lambda>i. check (\<not> (input_path i = [] \<or> input_format i = [] \<or> \<not> is_digest (input_digest i)))
         (Invalid ''coverage'' ''coverage input path, format, and digest are required''))
       (coverage_inputs r))))))"

subsection \<open>Gate results\<close>

datatype gate_scope = Overall | NewCode

datatype gate_operator = Lt | Lte | Eq | Gte | Gt

datatype gate_status = Pass | Fail | Unavailable

text \<open>Diagnostics are texts for people; their type \<open>'d\<close> is a parameter of the records.\<close>

record 'd gate_condition_result =
  result_scope :: gate_scope
  result_metric :: string
  result_operator :: gate_operator
  result_threshold :: f64
  result_actual :: "f64 option"
  result_status :: gate_status
  result_diagnostic :: "'d option"

datatype gate_de_error = NonFiniteNumber | EmptyMetric

definition deserialize_condition_result :: "'d gate_condition_result \<Rightarrow> gate_de_error + 'd gate_condition_result" where
  "deserialize_condition_result raw =
     and_then (check (\<not> (\<not> is_finite (result_threshold raw) \<or>
         (case result_actual raw of None \<Rightarrow> False | Some a \<Rightarrow> \<not> is_finite a))) NonFiniteNumber) (\<lambda>_.
     and_then (check (\<not> is_blank (result_metric raw)) EmptyMetric) (\<lambda>_. Inr raw))"

record 'd gate_report =
  gate_version :: u32
  gate_status_of :: gate_status
  gate_results :: "'d gate_condition_result list"
  gate_diagnostics :: "'d list"

definition validate_result :: "'d gate_condition_result \<Rightarrow> assessment_error + unit" where
  "validate_result c =
     check (\<not> (is_blank (result_metric c) \<or> \<not> is_finite (result_threshold c) \<or> f64_less (result_threshold c) 0 \<or>
         (case result_actual c of None \<Rightarrow> False | Some a \<Rightarrow> \<not> is_finite a \<or> f64_less a 0) \<or>
         (result_status c \<noteq> Unavailable \<and> result_actual c = None)))
       (Invalid ''gate'' ''metric and finite threshold/actual are required'')"

definition combine_status :: "gate_status \<Rightarrow> gate_status \<Rightarrow> gate_status" where
  "combine_status status c =
     (if c = Unavailable then Unavailable else if c = Fail \<and> status \<noteq> Unavailable then Fail else status)"

fun results_status :: "'d gate_condition_result list \<Rightarrow> gate_status \<Rightarrow> assessment_error + gate_status" where
  "results_status [] status = Inr status"
| "results_status (c # cs) status =
     and_then (validate_result c) (\<lambda>_. results_status cs (combine_status status (result_status c)))"

definition validate_gate :: "'d gate_report \<Rightarrow> assessment_error + unit" where
  "validate_gate g =
     and_then (check (gate_version g = ASSESSMENT_SCHEMA_VERSION) (UnsupportedSchema ''gate'' (gate_version g))) (\<lambda>_.
     and_then (results_status (gate_results g) (if gate_results g = [] then Unavailable else Pass)) (\<lambda>status.
     check (gate_status_of g = status) (Invalid ''gate'' ''gate status differs from its condition outcomes'')))"

subsection \<open>Analysis reports\<close>

record duplicate_occurrence =
  occurrence_path :: path
  occurrence_start_line :: u32
  occurrence_end_line :: u32
  occurrence_start_byte :: u32
  occurrence_end_byte :: u32

record duplicate_group =
  group_language :: string
  occurrences :: "duplicate_occurrence list"

record duplication_metrics =
  duplicated_lines :: u64
  duplicated_blocks :: u64
  duplicated_files :: u64
  duplicated_lines_density :: "f64 option"

record duplication_file_metrics =
  duplication_path :: path
  duplication_file_counters :: duplication_metrics

datatype file_classification = Source | Test | Generated | Vendor | Excluded

datatype measurement_status = Measured | ExcludedFile | Failed | Unsupported

record project_metrics =
  project_file_count :: u64
  project_lines :: u64
  project_code_lines :: u64
  project_comment_lines :: u64

record project_file_measurement =
  measured_path :: path
  measured_class :: file_classification
  measured_status :: measurement_status
  measured_metrics :: "file_metrics option"
  measured_duplication :: "duplication_metrics option"
  measured_reason :: "string option"

record project_report =
  project_metrics_of :: project_metrics
  project_files :: "project_file_measurement list"
  project_duplications :: "duplicate_group list"
  project_duplication :: "duplication_metrics option"
  project_complete :: bool
  project_warnings :: "string list"
  project_roots :: "path list"

subsection \<open>Assessments\<close>

record 'd assessment_report =
  assessment_version :: u32
  assessment_context :: analysis_context
  assessment_sources :: "source_snapshot list"
  assessment_coverage :: "coverage_report option"
  assessment_new_code :: "new_code_report option"
  assessment_gate :: "'d gate_report option"

text \<open>The parity block is attached data the assessment never reads; its type is a parameter.\<close>

record ('d, 'p) analysis_report =
  analysis_version :: u32
  analysis_files :: "file_report list"
  analysis_project :: project_report
  analysis_assessment :: "'d assessment_report option"
  analysis_parity :: "'p option"

fun validate_sources :: "(bytes \<Rightarrow> bytes) \<Rightarrow> source_snapshot list \<Rightarrow> path option \<Rightarrow> assessment_error + unit" where
  "validate_sources sha [] previous = Inr ()"
| "validate_sources sha (s # ss) previous =
     and_then (validate_snapshot sha s) (\<lambda>_.
     and_then (check (\<not> (case previous of None \<Rightarrow> False | Some p \<Rightarrow> \<not> path_less p (snapshot_path s)))
       (Invalid ''assessment'' ''sources must be sorted by unique normalized path'')) (\<lambda>_.
     validate_sources sha ss (Some (snapshot_path s))))"

definition validate_assessment :: "(bytes \<Rightarrow> bytes) \<Rightarrow> 'd assessment_report \<Rightarrow> assessment_error + unit" where
  "validate_assessment sha a =
     and_then (check (assessment_version a = ASSESSMENT_SCHEMA_VERSION)
       (UnsupportedSchema ''assessment'' (assessment_version a))) (\<lambda>_.
     and_then (validate_context (assessment_context a)) (\<lambda>_.
     and_then (validate_sources sha (assessment_sources a) None) (\<lambda>_.
     and_then (case assessment_coverage a of None \<Rightarrow> Inr () | Some c \<Rightarrow> validate_coverage c) (\<lambda>_.
     and_then (case assessment_new_code a of None \<Rightarrow> Inr () | Some n \<Rightarrow> validate_new_code sha n) (\<lambda>_.
     (case assessment_gate a of None \<Rightarrow> Inr () | Some g \<Rightarrow> validate_gate g))))))"

definition deserialize_assessment :: "(bytes \<Rightarrow> bytes) \<Rightarrow> 'd assessment_report \<Rightarrow> assessment_error + 'd assessment_report" where
  "deserialize_assessment sha raw = and_then (validate_assessment sha raw) (\<lambda>_. Inr raw)"

record source_input =
  source_path :: path
  source_content :: bytes

definition by_normalized_path :: "('a \<Rightarrow> path) \<Rightarrow> 'a \<Rightarrow> assessment_error + component list \<times> path \<times> 'a" where
  "by_normalized_path path x = and_then (normalize_path (path x)) (\<lambda>q. Inr (path_key q, q, x))"

definition index_by_path :: "('a \<Rightarrow> path) \<Rightarrow> 'a list \<Rightarrow> assessment_error + (component list, path \<times> 'a) btree" where
  "index_by_path path xs = bt_index (by_normalized_path path) (\<lambda>(q, x). DuplicatePath q) xs []"

definition bare_assessment :: "analysis_context \<Rightarrow> source_snapshot list \<Rightarrow> 'd assessment_report" where
  "bare_assessment context sources =
     \<lparr>assessment_version = ASSESSMENT_SCHEMA_VERSION, assessment_context = context, assessment_sources = sources,
      assessment_coverage = None, assessment_new_code = None, assessment_gate = None\<rparr>"

definition from_reports_and_source_inputs :: "(bytes \<Rightarrow> bytes) \<Rightarrow> analysis_context \<Rightarrow> file_report list \<Rightarrow> source_input list \<Rightarrow>
    (assessment_error + 'd assessment_report) option" where
  "from_reports_and_source_inputs sha context reports sources =
     seq_try (Some (index_by_path report_path reports)) (\<lambda>report_by_path.
     seq_try (Some (index_by_path source_path sources)) (\<lambda>source_by_path.
     seq_try (Some (try_all (\<lambda>(k, q, r). check (map_of source_by_path k \<noteq> None) (MissingSource q)) report_by_path)) (\<lambda>_.
     seq_try (seq_map (\<lambda>(k, q, s). from_report sha q (source_content s) (map_option snd (map_of report_by_path k)))
       source_by_path) (\<lambda>snapshots.
     seq_try (Some (validate_assessment sha (bare_assessment context snapshots :: 'd assessment_report))) (\<lambda>_.
     Some (Inr (bare_assessment context snapshots)))))))"

definition assessment_new :: "(bytes \<Rightarrow> bytes) \<Rightarrow> analysis_context \<Rightarrow> source_snapshot list \<Rightarrow> assessment_error + 'd assessment_report" where
  "assessment_new sha context sources =
     (let report = bare_assessment context (sort_key (\<lambda>s. path_key (snapshot_path s)) sources) in
      and_then (validate_assessment sha report) (\<lambda>_. Inr report))"

definition finding_of :: "nat \<Rightarrow> finding_identity \<Rightarrow> issue \<Rightarrow> bool" where
  "finding_of index f i \<longleftrightarrow> issue_index f = index \<and> finding_rule f = rule_key i \<and> finding_message f = issue_message i \<and>
     start_line f = line (range_start (issue_range i)) \<and> end_line f = line (range_end (issue_range i))"

text \<open>One source against the issues reported for it.\<close>

definition same_inventory :: "finding_identity list \<Rightarrow> issue list \<Rightarrow> bool" where
  "same_inventory fs issues \<longleftrightarrow> length fs = length issues \<and>
     (\<forall>(index, f, i) \<in> set (zip [0..<length fs] (zip fs issues)). finding_of index f i)"

fun reconcile :: "source_snapshot list \<Rightarrow> (component list, path \<times> file_report) btree \<Rightarrow>
    assessment_error + (component list, path \<times> file_report) btree" where
  "reconcile [] reports = Inr reports"
| "reconcile (s # ss) reports =
     (let k = path_key (snapshot_path s);
          issues = (case map_of reports k of None \<Rightarrow> [] | Some (_, r) \<Rightarrow> report_issues r) in
      and_then (check (same_inventory (snapshot_findings s) issues)
        (Invalid ''assessment'' ''snapshot finding inventory differs from native report'')) (\<lambda>_.
      reconcile ss (bt_del k reports)))"

definition validate_against :: "(bytes \<Rightarrow> bytes) \<Rightarrow> 'd assessment_report \<Rightarrow> file_report list \<Rightarrow> assessment_error + unit" where
  "validate_against sha a files =
     and_then (validate_assessment sha a) (\<lambda>_.
     and_then (index_by_path report_path files) (\<lambda>reports.
     and_then (reconcile (assessment_sources a) reports) (\<lambda>reports.
     (case reports of [] \<Rightarrow> Inr () | (k, q, r) # _ \<Rightarrow> Inl (MissingSource q)))))"

end
