(* ===== verification/Assessments.thy ===== *)
theory Assessments
  imports Artifacts
begin

text \<open>
  What the assessment artifacts guarantee: coverage totals are exact sums checked against
  64-bit overflow, and an assessment built from reports and sources agrees with the reports it was built
  from.
\<close>

subsection \<open>Coverage totals\<close>

definition counts :: "coverage_counter \<Rightarrow> nat \<times> nat" where
  "counts c = (unat (eligible c), unat (covered c))"

lemma counts_inj: "counts c = counts d \<longleftrightarrow> c = d"
  by (cases c; cases d) (auto simp: counts_def word_unat_eq_iff)

lemma counts_bound: "fst (counts c) < 2 ^ 64" "snd (counts c) < 2 ^ 64"
  using unsigned_less [of "eligible c"] unsigned_less [of "covered c"] by (simp_all add: counts_def)

lemma counts_exist: "fst p < 2 ^ 64 \<Longrightarrow> snd p < 2 ^ 64 \<Longrightarrow> \<exists>c. counts c = p"
proof (cases p)
  case (Pair x y)
  moreover assume "fst p < 2 ^ 64" "snd p < 2 ^ 64"
  ultimately have "counts \<lparr>eligible = of_nat x, covered = of_nat y\<rparr> = p" by (simp add: counts_def unat_of_nat)
  then show ?thesis by blast
qed

abbreviation plus_pair :: "nat \<times> nat \<Rightarrow> nat \<times> nat \<Rightarrow> nat \<times> nat" where
  "plus_pair p q \<equiv> (fst p + fst q, snd p + snd q)"

lemma add_coverage_counter_Inr_iff:
  "add_coverage_counter t p = Inr r \<longleftrightarrow> counts r = plus_pair (counts t) (counts p)"
proof -
  have "add_coverage_counter t p = Inr r \<longleftrightarrow> checked_add (eligible t) (eligible p) = Some (eligible r) \<and>
      checked_add (covered t) (covered p) = Some (covered r)"
    by (cases r) (auto simp: add_coverage_counter_def split: option.splits)
  then show ?thesis by (simp add: checked_add_Some_iff counts_def)
qed

text \<open>What a measured line contributes.\<close>

definition line_part :: "line_coverage \<Rightarrow> nat \<times> nat" where
  "line_part l = (if line_hit l = None then 0 else 1, if line_hit l = Some True then 1 else 0)"

definition branch_part :: "line_coverage \<Rightarrow> nat \<times> nat" where
  "branch_part l = (case line_branches l of None \<Rightarrow> (0, 0) | Some c \<Rightarrow> counts c)"

definition parts_sum :: "(line_coverage \<Rightarrow> nat \<times> nat) \<Rightarrow> line_coverage list \<Rightarrow> nat \<times> nat" where
  "parts_sum f ls = (\<Sum>l\<leftarrow>ls. fst (f l), \<Sum>l\<leftarrow>ls. snd (f l))"

definition measured_lines :: "line_coverage list \<Rightarrow> bool" where
  "measured_lines ls \<longleftrightarrow> sorted_wrt (<) (map covered_line ls) \<and>
     (\<forall>l \<in> set ls. 0 < covered_line l \<and> (line_hit l \<noteq> None \<or> line_branches l \<noteq> None) \<and>
        (\<forall>c. line_branches l = Some c \<longrightarrow> covered c \<le> eligible c))"

lemma line_step:
  "(case line_hit l of None \<Rightarrow> Inr t
    | Some hit \<Rightarrow> add_coverage_counter t \<lparr>eligible = 1, covered = (if hit then 1 else 0)\<rparr>) = Inr r \<longleftrightarrow>
   counts r = plus_pair (counts t) (line_part l)"
  by (cases "line_hit l") (auto simp: add_coverage_counter_Inr_iff line_part_def counts_inj counts_def [of "\<lparr>eligible = _, covered = _\<rparr>"])

lemma branch_step:
  "(case line_branches l of None \<Rightarrow> Inr t
    | Some c \<Rightarrow> and_then (validate_coverage_counter c) (\<lambda>_. add_coverage_counter t c)) = Inr r \<longleftrightarrow>
   counts r = plus_pair (counts t) (branch_part l) \<and> (\<forall>c. line_branches l = Some c \<longrightarrow> covered c \<le> eligible c)"
  by (cases "line_branches l")
    (auto simp: add_coverage_counter_Inr_iff branch_part_def counts_inj validate_coverage_counter_def result_iffs)

lemma line_totals_Inr_iff:
  "line_totals ls previous lines branches = Inr (l, b) \<longleftrightarrow>
     measured_lines ls \<and> (\<forall>x \<in> set ls. previous < covered_line x) \<and>
     counts l = plus_pair (counts lines) (parts_sum line_part ls) \<and>
     counts b = plus_pair (counts branches) (parts_sum branch_part ls)"
proof (induction ls arbitrary: previous lines branches)
  case Nil
  then show ?case by (auto simp: measured_lines_def parts_sum_def counts_inj)
next
  case (Cons x ls)
  have "line_totals (x # ls) previous lines branches = Inr (l, b) \<longleftrightarrow>
    previous < covered_line x \<and> (line_hit x \<noteq> None \<or> line_branches x \<noteq> None) \<and>
    (\<forall>c. line_branches x = Some c \<longrightarrow> covered c \<le> eligible c) \<and>
    (\<exists>l1 b1. counts l1 = plus_pair (counts lines) (line_part x) \<and> counts b1 = plus_pair (counts branches) (branch_part x) \<and>
      line_totals ls (covered_line x) l1 b1 = Inr (l, b))"
    by (simp add: and_then_Inr_iff check_Inr_iff line_step branch_step not_le) blast
  also have "\<dots> \<longleftrightarrow> previous < covered_line x \<and> (line_hit x \<noteq> None \<or> line_branches x \<noteq> None) \<and>
    (\<forall>c. line_branches x = Some c \<longrightarrow> covered c \<le> eligible c) \<and>
    measured_lines ls \<and> (\<forall>y \<in> set ls. covered_line x < covered_line y) \<and>
    counts l = plus_pair (counts lines) (parts_sum line_part (x # ls)) \<and>
    counts b = plus_pair (counts branches) (parts_sum branch_part (x # ls))" (is "?A \<longleftrightarrow> ?B")
  proof
    assume ?A
    then show ?B by (auto simp: Cons.IH parts_sum_def)
  next
    assume B: ?B
    then have "fst (plus_pair (counts lines) (line_part x)) < 2 ^ 64" "snd (plus_pair (counts lines) (line_part x)) < 2 ^ 64"
      "fst (plus_pair (counts branches) (branch_part x)) < 2 ^ 64" "snd (plus_pair (counts branches) (branch_part x)) < 2 ^ 64"
      using counts_bound [of l] counts_bound [of b] by (simp_all add: parts_sum_def)
    then obtain l1 b1 where "counts l1 = plus_pair (counts lines) (line_part x)"
      "counts b1 = plus_pair (counts branches) (branch_part x)" using counts_exist by meson
    moreover from this B have "line_totals ls (covered_line x) l1 b1 = Inr (l, b)"
      unfolding Cons.IH by (simp add: parts_sum_def)
    ultimately show ?A using B by blast
  qed
  also have "\<dots> \<longleftrightarrow> measured_lines (x # ls) \<and> (\<forall>y \<in> set (x # ls). previous < covered_line y) \<and>
    counts l = plus_pair (counts lines) (parts_sum line_part (x # ls)) \<and>
    counts b = plus_pair (counts branches) (parts_sum branch_part (x # ls))"
  proof -
    have "0 < covered_line x" if "previous < covered_line x" using that by (metis word_coorder.not_eq_extremum word_not_simps(1))
    then show ?thesis by (auto simp: measured_lines_def)
  qed
  finally show ?case .
qed

text \<open>All lines of all files.\<close>

abbreviation all_lines :: "file_coverage list \<Rightarrow> line_coverage list" where
  "all_lines fs \<equiv> concat (map coverage_lines fs)"

definition measured_files :: "file_coverage list \<Rightarrow> bool" where
  "measured_files fs \<longleftrightarrow> sorted_wrt path_less (map coverage_path fs) \<and>
     (\<forall>f \<in> set fs. coverage_path f \<noteq> [] \<and> is_normalized (coverage_path f) \<and> measured_lines (coverage_lines f))"

lemma parts_sum_append: "parts_sum f (xs @ ys) = plus_pair (parts_sum f xs) (parts_sum f ys)"
  by (simp add: parts_sum_def)

lemma measured_positive: "measured_lines ls \<Longrightarrow> x \<in> set ls \<Longrightarrow> 0 < covered_line x"
  by (simp add: measured_lines_def)

lemma file_totals_Inr_iff:
  "file_totals fs previous lines branches = Inr (l, b) \<longleftrightarrow>
     measured_files fs \<and> (\<forall>p. previous = Some p \<longrightarrow> (\<forall>f \<in> set fs. path_less p (coverage_path f))) \<and>
     counts l = plus_pair (counts lines) (parts_sum line_part (all_lines fs)) \<and>
     counts b = plus_pair (counts branches) (parts_sum branch_part (all_lines fs))"
proof (induction fs arbitrary: previous lines branches)
  case Nil
  then show ?case by (auto simp: measured_files_def parts_sum_def counts_inj)
next
  case (Cons f fs)
  let ?head = "coverage_path f \<noteq> [] \<and> is_normalized (coverage_path f) \<and>
    (\<forall>p. previous = Some p \<longrightarrow> path_less p (coverage_path f)) \<and> measured_lines (coverage_lines f)"
  have "file_totals (f # fs) previous lines branches = Inr (l, b) \<longleftrightarrow> ?head \<and>
    (\<exists>l1 b1. counts l1 = plus_pair (counts lines) (parts_sum line_part (coverage_lines f)) \<and>
      counts b1 = plus_pair (counts branches) (parts_sum branch_part (coverage_lines f)) \<and>
      file_totals fs (Some (coverage_path f)) l1 b1 = Inr (l, b))"
    by (auto simp: and_then_Inr_iff check_Inr_iff line_totals_Inr_iff is_normalized_def measured_positive
        split: option.splits sum.splits)
  also have "\<dots> \<longleftrightarrow> ?head \<and> measured_files fs \<and> (\<forall>g \<in> set fs. path_less (coverage_path f) (coverage_path g)) \<and>
    counts l = plus_pair (counts lines) (parts_sum line_part (all_lines (f # fs))) \<and>
    counts b = plus_pair (counts branches) (parts_sum branch_part (all_lines (f # fs)))" (is "?A \<longleftrightarrow> ?B")
  proof
    assume ?A
    then show ?B by (auto simp: Cons.IH parts_sum_append)
  next
    assume B: ?B
    let ?l = "plus_pair (counts lines) (parts_sum line_part (coverage_lines f))"
    let ?b = "plus_pair (counts branches) (parts_sum branch_part (coverage_lines f))"
    from B have "fst ?l < 2 ^ 64" "snd ?l < 2 ^ 64" "fst ?b < 2 ^ 64" "snd ?b < 2 ^ 64"
      using counts_bound [of l] counts_bound [of b] by (simp_all add: parts_sum_append)
    then obtain l1 b1 where "counts l1 = ?l" "counts b1 = ?b" using counts_exist by meson
    moreover from this B have "file_totals fs (Some (coverage_path f)) l1 b1 = Inr (l, b)"
      unfolding Cons.IH by (simp add: parts_sum_append)
    ultimately show ?A using B by blast
  qed
  also have "\<dots> \<longleftrightarrow> measured_files (f # fs) \<and>
    (\<forall>p. previous = Some p \<longrightarrow> (\<forall>g \<in> set (f # fs). path_less p (coverage_path g))) \<and>
    counts l = plus_pair (counts lines) (parts_sum line_part (all_lines (f # fs))) \<and>
    counts b = plus_pair (counts branches) (parts_sum branch_part (all_lines (f # fs)))"
    by (auto simp: measured_files_def intro: order.strict_trans)
  finally show ?case .
qed

lemma parts_sum_lines: "parts_sum line_part ls =
    (length (filter (\<lambda>l. line_hit l \<noteq> None) ls), length (filter (\<lambda>l. line_hit l = Some True) ls))"
  by (induction ls) (auto simp: parts_sum_def line_part_def)

text \<open>C24: \<open>coverage_totals\<close> succeeds exactly when files and lines are sorted, unique, normalized measurements
  with valid counters and the totals fit 64 bits, and then returns the number of measured and of hit lines and
  the sums of the branch counters, without wrapping.\<close>

theorem coverage_totals_exact:
  "coverage_totals fs = Inr (l, b) \<longleftrightarrow> measured_files fs \<and>
     unat (eligible l) = length (filter (\<lambda>x. line_hit x \<noteq> None) (all_lines fs)) \<and>
     unat (covered l) = length (filter (\<lambda>x. line_hit x = Some True) (all_lines fs)) \<and>
     unat (eligible b) = (\<Sum>c\<leftarrow>List.map_filter line_branches (all_lines fs). unat (eligible c)) \<and>
     unat (covered b) = (\<Sum>c\<leftarrow>List.map_filter line_branches (all_lines fs). unat (covered c))"
proof -
  have branches: "parts_sum branch_part ls = (\<Sum>c\<leftarrow>List.map_filter line_branches ls. unat (eligible c),
      \<Sum>c\<leftarrow>List.map_filter line_branches ls. unat (covered c))" for ls
    by (induction ls) (auto simp: parts_sum_def branch_part_def counts_def split: option.splits)
  show ?thesis
    by (simp add: coverage_totals_def file_totals_Inr_iff parts_sum_lines branches counts_def)
qed

subsection \<open>Snapshots carry the inventory of their issues\<close>

lemma range_digests_lines:
  "range_digests sha r source starts style = Some (Inr (s, e, sd, cd)) \<Longrightarrow> s = line (range_start r) \<and> e = line (range_end r)"
  by (auto simp: range_digests_def is_file_level_def bind_eq_Some_conv seq_try_Inr_iff Let_def split: if_splits)

lemma make_finding_lines:
  "make_finding_identity sha index i path source starts style = Some (Inr f) \<Longrightarrow>
     finding_message f = issue_message i \<and> start_line f = line (range_start (issue_range i)) \<and>
     end_line f = line (range_end (issue_range i))"
  by (auto simp: make_finding_identity_def seq_try_Inr_iff dest: range_digests_lines)

lemma built_inventory:
  assumes "from_source_and_issues sha path source issues style = Some (Inr snap)"
  shows "same_inventory (snapshot_findings snap) issues"
proof (rule snapshot_structure [OF assms])
  fix fs
  assume u: "utf8 source" and fs: "collect_identities sha path source issues style = Some (Inr fs)"
    and len: "length (snapshot_findings snap) = length issues"
    and f: "\<And>i. i < length issues \<Longrightarrow> snapshot_findings snap ! i = (built_finding sha issues fs i)
      \<lparr>ambiguous := (1 < card {j. j < length issues \<and> identity (built_finding sha issues fs j) = identity (built_finding sha issues fs i)})\<rparr>"
  have "finding_of i (snapshot_findings snap ! i) (issues ! i)" if i: "i < length issues" for i
  proof -
    have "make_finding_identity sha i (issues ! i) path source (source_line_starts source style) style = Some (Inr (fs ! i))"
      using collect_identities_ok(2) [OF u fs] i by blast
    from make_finding_lines [OF this] show ?thesis
      using built_finding_fields(2,3) [OF u fs i] by (simp add: finding_of_def f [OF i] built_finding_def with_ordinal_def)
  qed
  then show ?thesis by (auto simp: same_inventory_def len in_set_zip)
qed

lemma from_report_total: "from_report sha path source report \<noteq> None"
  unfolding from_report_def
  by (intro seq_try_total from_source_and_issues_total) (auto split: option.splits)

lemma from_report_Inr:
  assumes "from_report sha path source report = Some (Inr snap)"
  shows "same_inventory (snapshot_findings snap) (case report of None \<Rightarrow> [] | Some r \<Rightarrow> report_issues r)"
    and "report = Some r \<Longrightarrow> \<exists>q. normalize_path (report_path r) = Inr q \<and> path_key q = path_key (snapshot_path snap)"
proof -
  from assms obtain p style where p: "normalize_path path = Inr p"
    and s: "from_source_and_issues sha p source (case report of None \<Rightarrow> [] | Some r \<Rightarrow> report_issues r) style = Some (Inr snap)"
    and r: "\<forall>r. report = Some r \<longrightarrow> (\<exists>q. normalize_path (report_path r) = Inr q \<and> path_eq q p)"
    by (auto simp: from_report_def seq_try_Inr_iff result_iffs split: option.splits)
  show "same_inventory (snapshot_findings snap) (case report of None \<Rightarrow> [] | Some r \<Rightarrow> report_issues r)"
    by (rule built_inventory [OF s])
  from s have "snapshot_path snap = p" by (rule snapshot_structure)
  with r show "report = Some r \<Longrightarrow> \<exists>q. normalize_path (report_path r) = Inr q \<and> path_key q = path_key (snapshot_path snap)"
    by simp
qed

subsection \<open>Reconciling sources with reports\<close>

abbreviation snapshot_key :: "source_snapshot \<Rightarrow> component list" where
  "snapshot_key s \<equiv> path_key (snapshot_path s)"

lemma validate_sources_Inr_iff:
  "validate_sources sha ss previous = Inr () \<longleftrightarrow> (\<forall>s \<in> set ss. validate_snapshot sha s = Inr ()) \<and>
     sorted_wrt (<) (map snapshot_key ss) \<and> (\<forall>p. previous = Some p \<longrightarrow> (\<forall>s \<in> set ss. path_less p (snapshot_path s)))"
  by (induction ss arbitrary: previous)
    (auto simp: result_iffs split: option.splits intro: order.strict_trans)

definition issues_at :: "(component list, path \<times> file_report) btree \<Rightarrow> component list \<Rightarrow> issue list" where
  "issues_at m k = (case map_of m k of None \<Rightarrow> [] | Some (_, r) \<Rightarrow> report_issues r)"

lemma bt_del_filter: "bt_ok m \<Longrightarrow> bt_del k m = filter (\<lambda>kv. fst kv \<noteq> k) m"
proof (induction k m rule: bt_del.induct)
  case (2 k l w m)
  then show ?case by (auto intro!: filter_True [symmetric])
qed simp

lemma reconcile_Inr_iff:
  assumes "distinct (map snapshot_key ss)" and "bt_ok m"
  shows "reconcile ss m = Inr m' \<longleftrightarrow>
    (\<forall>s \<in> set ss. same_inventory (snapshot_findings s) (issues_at m (snapshot_key s))) \<and>
    m' = filter (\<lambda>kv. fst kv \<notin> snapshot_key ` set ss) m"
  using assms
proof (induction ss arbitrary: m)
  case Nil
  then show ?case by auto
next
  case (Cons s ss)
  let ?m = "bt_del (snapshot_key s) m"
  have "reconcile ss ?m = Inr m' \<longleftrightarrow>
    (\<forall>t \<in> set ss. same_inventory (snapshot_findings t) (issues_at ?m (snapshot_key t))) \<and>
    m' = filter (\<lambda>kv. fst kv \<notin> snapshot_key ` set ss) ?m"
    using Cons.prems by (intro Cons.IH) (simp_all add: bt_del_ok)
  moreover have "issues_at ?m (snapshot_key t) = issues_at m (snapshot_key t)" if "t \<in> set ss" for t
  proof -
    have "snapshot_key t \<noteq> snapshot_key s" using Cons.prems(1) imageI [OF that, of snapshot_key] by auto
    then show ?thesis using Cons.prems(2) by (simp add: issues_at_def bt_del_get)
  qed
  moreover have "filter (\<lambda>kv. fst kv \<notin> snapshot_key ` set ss) ?m = filter (\<lambda>kv. fst kv \<notin> snapshot_key ` set (s # ss)) m"
    using Cons.prems by (auto simp: bt_del_filter intro: filter_cong)
  ultimately show ?case
    by (auto simp: Let_def result_iffs simp flip: issues_at_def)
qed

lemma mem_index:
  assumes "index_by_path path xs = Inr n"
  shows "bt_ok n" and "(k, q, x) \<in> set n \<longleftrightarrow> x \<in> set xs \<and> normalize_path (path x) = Inr q \<and> k = path_key q"
    and "map_of n k = Some (q, x) \<longleftrightarrow> x \<in> set xs \<and> normalize_path (path x) = Inr q \<and> k = path_key q"
    and "length n = length xs"
proof -
  note e = bt_index_empty [OF assms [unfolded index_by_path_def]]
  show "bt_ok n" "length n = length xs" by (rule e)+
  show mem: "(k, q, x) \<in> set n \<longleftrightarrow> x \<in> set xs \<and> normalize_path (path x) = Inr q \<and> k = path_key q"
    unfolding e(3) by (auto simp: by_normalized_path_def result_iffs)
  show "map_of n k = Some (q, x) \<longleftrightarrow> x \<in> set xs \<and> normalize_path (path x) = Inr q \<and> k = path_key q"
    unfolding bt_get_iff [OF e(1)] by (rule mem)
qed

lemma map_of_None_index:
  assumes "index_by_path path xs = Inr n" and "x \<in> set xs" and "normalize_path (path x) = Inr q"
  shows "map_of n (path_key q) = Some (q, x)"
  using assms mem_index(3) [OF assms(1)] by blast

lemma built_reconciles:
  assumes r: "index_by_path report_path reports = Inr m" and s: "index_by_path source_path sources = Inr n"
    and missing: "\<forall>(k, q, r) \<in> set m. map_of n k \<noteq> None"
    and built: "list_all2 (\<lambda>(k, q, s) snap. from_report sha q (source_content s) (map_option snd (map_of m k)) = Some (Inr snap)) n ss"
    and sorted: "sorted_wrt (<) (map snapshot_key ss)"
  shows "reconcile ss m = Inr []"
proof -
  have dist: "distinct (map snapshot_key ss)" using sorted by (simp add: strict_sorted_iff)
  have len: "length n = length ss" using built by (rule list_all2_lengthD)
  have snap: "from_report sha q (source_content s) (map_option snd (map_of m k)) = Some (Inr (ss ! i))"
    if "i < length ss" "n ! i = (k, q, s)" for i k q s
    using built that by (auto simp: list_all2_conv_all_nth)
  have key: "snapshot_key (ss ! i) = k" if i: "i < length ss" "n ! i = (k, q, s)" and k: "map_of m k = Some (q', r)" for i k q s q' r
  proof -
    have "\<exists>p. normalize_path (report_path r) = Inr p \<and> path_key p = snapshot_key (ss ! i)"
      using snap [OF i] k by (intro from_report_Inr(2)) simp_all
    then show ?thesis using k mem_index(3) [OF assms(1)] by force
  qed
  have covered: "\<exists>i < length ss. \<exists>q s. n ! i = (k, q, s)" if k: "map_of m k = Some (q', r)" for k q' r
  proof -
    have "(k, q', r) \<in> set m" using k bt_get_iff [OF mem_index(1) [OF assms(1)]] by simp
    then obtain q s where "map_of n k = Some (q, s)" using missing by fastforce
    then have "(k, q, s) \<in> set n" using bt_get_iff [OF mem_index(1) [OF assms(2)]] by simp
    then show ?thesis using len by (metis in_set_conv_nth)
  qed
  have "same_inventory (snapshot_findings (ss ! i)) (issues_at m (snapshot_key (ss ! i)))" if i: "i < length ss" for i
  proof -
    obtain k q s where n: "n ! i = (k, q, s)" by (cases "n ! i") auto
    note inventory = from_report_Inr(1) [OF snap [OF i n]]
    show ?thesis
    proof (cases "map_of m k")
      case (Some v)
      then obtain q' r where v: "map_of m k = Some (q', r)" by (cases v) simp
      then show ?thesis using inventory key [OF i n v] by (simp add: issues_at_def)
    next
      case None
      have "map_of m (snapshot_key (ss ! i)) = None"
      proof (rule ccontr)
        assume "map_of m (snapshot_key (ss ! i)) \<noteq> None"
        then obtain q' r where v: "map_of m (snapshot_key (ss ! i)) = Some (q', r)" by fast
        from covered [OF v] obtain j q'' s'' where j: "j < length ss" "n ! j = (snapshot_key (ss ! i), q'', s'')" by blast
        from key [OF j v] have "snapshot_key (ss ! j) = snapshot_key (ss ! i)" .
        then have "j = i" using dist i j(1) by (simp add: distinct_conv_nth) metis
        with j(2) n v None show False by simp
      qed
      then show ?thesis using inventory None by (simp add: issues_at_def)
    qed
  qed
  then have "\<forall>s \<in> set ss. same_inventory (snapshot_findings s) (issues_at m (snapshot_key s))"
    by (auto simp: in_set_conv_nth)
  moreover have "filter (\<lambda>kv. fst kv \<notin> snapshot_key ` set ss) m = []"
  proof -
    have "fst kv \<in> snapshot_key ` set ss" if "kv \<in> set m" for kv
    proof -
      obtain k q r where kv: "kv = (k, q, r)" by (cases kv) auto
      with that have v: "map_of m k = Some (q, r)" using bt_get_iff [OF mem_index(1) [OF assms(1)]] by simp
      from covered [OF v] obtain i q' s where i: "i < length ss" "n ! i = (k, q', s)" by blast
      from key [OF i v] i(1) show ?thesis by (auto simp: kv)
    qed
    then show ?thesis by (simp add: filter_empty_conv)
  qed
  ultimately show ?thesis
    using reconcile_Inr_iff [OF dist mem_index(1) [OF assms(1)]] by metis
qed

text \<open>C9: \<open>AssessmentReport::from_reports_and_source_inputs\<close> never panics, and an assessment it builds has one
  snapshot per source input, in path order, and passes \<open>validate_against\<close> for the very reports it was built
  from.\<close>

theorem built_assessment_reconciles:
  "from_reports_and_source_inputs sha context reports sources \<noteq> None \<and>
   (\<forall>a. from_reports_and_source_inputs sha context reports sources = Some (Inr a) \<longrightarrow>
      length (assessment_sources a) = length sources \<and> sorted_wrt path_less (map snapshot_path (assessment_sources a)) \<and>
      validate_against sha a reports = Inr ())"
proof (intro conjI allI impI)
  show "from_reports_and_source_inputs sha context reports sources \<noteq> None"
    unfolding from_reports_and_source_inputs_def
    by (intro seq_try_total seq_map_total) (auto simp: from_report_total simp del: not_None_eq split: prod.splits)
  fix a
  assume "from_reports_and_source_inputs sha context reports sources = Some (Inr a)"
  then obtain m n ss where m: "index_by_path report_path reports = Inr m" and n: "index_by_path source_path sources = Inr n"
    and missing: "\<forall>(k, q, r) \<in> set m. map_of n k \<noteq> None"
    and ss: "list_all2 (\<lambda>(k, q, s) snap. from_report sha q (source_content s) (map_option snd (map_of m k)) = Some (Inr snap)) n ss"
    and a: "a = bare_assessment context ss" and valid: "validate_assessment sha a = Inr ()"
    unfolding from_reports_and_source_inputs_def
    by (auto simp: seq_try_Inr_iff seq_map_Inr_iff result_iffs case_prod_unfold)
  have sources: "assessment_sources a = ss" by (simp add: a bare_assessment_def)
  from valid have sorted: "sorted_wrt (<) (map snapshot_key ss)"
    by (simp add: validate_assessment_def result_iffs sources validate_sources_Inr_iff)
  have "length ss = length sources" using ss mem_index(4) [OF n] by (simp add: list_all2_lengthD)
  then show "length (assessment_sources a) = length sources" by (simp add: sources)
  show "sorted_wrt path_less (map snapshot_path (assessment_sources a))"
    using sorted by (simp add: sources sorted_wrt_map)
  show "validate_against sha a reports = Inr ()"
    using valid m built_reconciles [OF m n missing ss sorted]
    by (simp add: validate_against_def sources)
qed


definition sample_report :: file_report where
  "sample_report = \<lparr>report_path = ''a.py'', report_language = ''python'',
     report_issues = [issue_new ''rule'' ''message'' file_level],
     report_metrics = \<lparr>metric_lines = 1, metric_code_lines = 1, metric_comment_lines = 0\<rparr>\<rparr>"

definition sample_context :: analysis_context where
  "sample_context = context_new ''1'' ''c'' ''o'' ''s'' None"

theorem built_assessment_reconciles_witness:
  "\<exists>a :: unit assessment_report. from_reports_and_source_inputs sample_sha sample_context [sample_report]
      [\<lparr>source_path = ''a.py'', source_content = ''x''\<rparr>] = Some (Inr a) \<and>
    length (assessment_sources a) = 1 \<and> validate_against sample_sha a [sample_report] = Inr ()"
proof -
  let ?i = "issue_new ''rule'' ''message'' file_level" and ?s = "[\<lparr>source_path = ''a.py'', source_content = ''x''\<rparr>]"
  have path: "normalize_path ''a.py'' = Inr ''a.py''" "utf8 ''x''" "line_style_for_path ''a.py'' (Some ''python'') = Generic"
    by code_simp+
  have "\<exists>fs. collect_identities sample_sha ''a.py'' ''x'' [?i] Generic = Some (Inr fs)"
    by (simp add: collect_identities_def make_finding_identity_def range_digests_def issue_new_def is_file_level_def file_level_def)
  then obtain snap where snap: "from_source_and_issues sample_sha ''a.py'' ''x'' [?i] Generic = Some (Inr snap)"
    using from_source_and_issues_built [OF path(2)] by blast
  then have report: "from_report sample_sha ''a.py'' ''x'' (Some sample_report) = Some (Inr snap)"
    by (simp add: from_report_def sample_report_def path)
  have "validate_snapshot sample_sha snap = Inr ()"
    using snap by (rule validate_built [OF length_sample_sha]) (simp_all add: path issue_new_def)
  then have valid: "validate_assessment sample_sha (bare_assessment sample_context [snap] :: unit assessment_report) = Inr ()"
    by (simp add: validate_assessment_def bare_assessment_def validate_context_def sample_context_def context_new_def)
  have index: "index_by_path report_path [sample_report] = Inr [(path_key ''a.py'', ''a.py'', sample_report)]"
    "index_by_path source_path ?s = Inr [(path_key ''a.py'', ''a.py'', hd ?s)]"
    by (simp_all add: index_by_path_def by_normalized_path_def path sample_report_def)
  have "from_reports_and_source_inputs sample_sha sample_context [sample_report] ?s =
      Some (Inr (bare_assessment sample_context [snap] :: unit assessment_report))"
    by (simp add: from_reports_and_source_inputs_def index report valid)
  then show ?thesis
    using built_assessment_reconciles [of sample_sha sample_context "[sample_report]" ?s, where ?'a = unit]
    by auto
qed

end
