(* ===== verification/Gates.thy ===== *)
theory Gates
  imports Artifacts
begin

text \<open>
  The quality gates of \<open>crates/hoonarqube-core/src/assessment/gates.rs\<close>: configuration
  checks, the derivation of every metric from an \<open>AnalysisReport\<close>, the exact comparison of a
  counter with a threshold and the aggregation of the results. Diagnostics are values of
  \<open>gate_error\<close>: the fixed text of the message with its formatted arguments as fields. A \<open>BTreeSet\<close> is a set, its iteration the
  sorted list; a map keyed by paths is a btree over path components that keeps the stored path.
\<close>

subsection \<open>Diagnostics and configuration\<close>

datatype gate_error =
    Message string
  | MessageVersion string u32
  | MessageStatus string assessment_status
  | MessageError string assessment_error
  | MessageMetric string string
  | MessagePath string path
  | MessageIndex string path nat
  | MessageLine string u32 path
  | NotSatisfied f64 gate_operator f64 string

definition GATE_CONFIG_SCHEMA_VERSION :: u32 where
  "GATE_CONFIG_SCHEMA_VERSION = 1"

definition GATE_REPORT_SCHEMA_VERSION :: u32 where
  "GATE_REPORT_SCHEMA_VERSION = ASSESSMENT_SCHEMA_VERSION"

definition SUPPORTED_METRICS :: "string list" where
  "SUPPORTED_METRICS = [''files'', ''lines'', ''code_lines'', ''comment_lines'', ''issues'', ''duplicated_lines'',
     ''duplicated_blocks'', ''duplicated_files'', ''duplicated_lines_density'', ''line_coverage'', ''branch_coverage'']"

record gate_condition =
  condition_scope :: gate_scope
  condition_metric :: string
  condition_operator :: gate_operator
  condition_threshold :: f64

record gate_config =
  config_version :: u32
  config_conditions :: "gate_condition list"

definition supported_metrics :: "string list" where
  "supported_metrics = SUPPORTED_METRICS"

definition metric_supported :: "gate_scope \<Rightarrow> string \<Rightarrow> bool" where
  "metric_supported scope metric =
     (case scope of
        Overall \<Rightarrow> metric \<in> set [''files'', ''lines'', ''code_lines'', ''comment_lines'', ''issues'', ''duplicated_lines'',
          ''duplicated_blocks'', ''duplicated_files'', ''duplicated_lines_density'', ''line_coverage'', ''branch_coverage'']
      | NewCode \<Rightarrow> metric \<in> set [''files'', ''lines'', ''issues'', ''duplicated_lines'', ''duplicated_blocks'',
          ''duplicated_files'', ''duplicated_lines_density'', ''line_coverage'', ''branch_coverage''])"

definition validate_condition :: "gate_condition \<Rightarrow> gate_error + unit" where
  "validate_condition c =
     and_then (check (is_finite (condition_threshold c)) (Message ''gate threshold must be finite'')) (\<lambda>_.
     and_then (check (\<not> f64_less (condition_threshold c) 0) (Message ''gate threshold must not be negative'')) (\<lambda>_.
     and_then (check (condition_metric c \<in> set SUPPORTED_METRICS) (MessageMetric ''unknown gate metric'' (condition_metric c))) (\<lambda>_.
     check (metric_supported (condition_scope c) (condition_metric c))
       (MessageMetric ''metric is not supported for the scope'' (condition_metric c)))))"

definition validate_config :: "gate_config \<Rightarrow> gate_error + unit" where
  "validate_config c =
     and_then (check (config_version c = GATE_CONFIG_SCHEMA_VERSION) (MessageVersion ''unsupported gate configuration schema_version'' (config_version c))) (\<lambda>_.
     and_then (check (config_conditions c \<noteq> []) (Message ''gate configuration must contain at least one condition'')) (\<lambda>_.
     try_all validate_condition (config_conditions c)))"

subsection \<open>Numbers\<close>

datatype metric_value = Count u64 | Percentage f64

definition usize_as_u64 :: "nat \<Rightarrow> u64" where
  "usize_as_u64 n = (if n < 2 ^ 64 then of_nat n else - 1)"

definition u32_try_from :: "u64 \<Rightarrow> u32" where
  "u32_try_from x = (if x \<le> 0xFFFFFFFF then ucast x else - 1)"

definition counter_as_f64 :: "u64 \<Rightarrow> f64" where
  "counter_as_f64 value =
     (let high = u32_try_from (drop_bit 32 value); low = u32_try_from (value AND 0xFFFFFFFF) in
      f64_add (f64_mul (f64_of_nat (unat high)) (f64_of_nat 4294967296)) (f64_of_nat (unat low)))"

definition value_as_f64 :: "metric_value \<Rightarrow> f64" where
  "value_as_f64 v = (case v of Count n \<Rightarrow> counter_as_f64 n | Percentage p \<Rightarrow> p)"

definition value_is_finite :: "metric_value \<Rightarrow> bool" where
  "value_is_finite v = (case v of Count _ \<Rightarrow> True | Percentage p \<Rightarrow> is_finite p)"

text \<open>The decoding of a threshold; the shift amounts are signed.\<close>

definition compare_u64_f64 :: "u64 \<Rightarrow> f64 \<Rightarrow> ordering" where
  "compare_u64_f64 value threshold =
     (if is_nan threshold then Greater
      else if f64_less threshold 0 then Greater
      else if f64_eq threshold 0 then cmp value 0
      else
        let exponent = uint (drop_bit 52 threshold AND 0x7FF);
            fraction = threshold AND (push_bit 52 1 - 1)
        in if exponent = 0 then (if value = 0 then Less else Greater)
        else
          let significand = push_bit 52 1 OR ucast fraction :: u128;
              shift = exponent - 1023 - 52
          in if 64 \<le> shift then Less
          else if 0 \<le> shift then cmp (ucast value :: u128) (push_bit (nat shift) significand)
          else
            let right_shift = nat (- shift)
            in if 128 \<le> right_shift then (if value = 0 then Less else Greater)
            else
              let denominator = push_bit right_shift 1 :: u128;
                  floor = significand div denominator
              in (case cmp (ucast value :: u128) floor of
                    Less \<Rightarrow> Less
                  | Greater \<Rightarrow> Greater
                  | Equal \<Rightarrow> if significand mod denominator = 0 then Equal else Less))"

fun compare_ordering :: "ordering \<Rightarrow> gate_operator \<Rightarrow> bool" where
  "compare_ordering o1 Lt \<longleftrightarrow> o1 = Less"
| "compare_ordering o1 Lte \<longleftrightarrow> o1 \<noteq> Greater"
| "compare_ordering o1 Eq \<longleftrightarrow> o1 = Equal"
| "compare_ordering o1 Gte \<longleftrightarrow> o1 \<noteq> Less"
| "compare_ordering o1 Gt \<longleftrightarrow> o1 = Greater"

definition value_meets :: "metric_value \<Rightarrow> gate_operator \<Rightarrow> f64 \<Rightarrow> bool" where
  "value_meets v operator threshold =
     (case v of
        Count n \<Rightarrow> compare_ordering (compare_u64_f64 n threshold) operator
      | Percentage p \<Rightarrow> compare_ordering
          (case partial_cmp p threshold of Some o1 \<Rightarrow> o1 | None \<Rightarrow> Greater) operator)"

definition safe_threshold :: "f64 \<Rightarrow> f64" where
  "safe_threshold x = (if is_finite x then x else 0)"

definition validate_counter :: "u64 \<Rightarrow> u64 \<Rightarrow> string \<Rightarrow> gate_error + unit" where
  "validate_counter e c name = check (\<not> c > e) (MessageMetric ''covered counter exceeds eligible counter'' name)"

definition percentage_counter :: "u64 \<Rightarrow> u64 \<Rightarrow> string \<Rightarrow> gate_error + metric_value" where
  "percentage_counter e c name =
     and_then (validate_counter e c name) (\<lambda>_.
     and_then (check (e \<noteq> 0) (MessageMetric ''has no denominator'' name)) (\<lambda>_.
     let value = f64_div (f64_mul (counter_as_f64 c) (f64_of_nat 100)) (counter_as_f64 e) in
     if is_finite value then Inr (Percentage value) else Inl (MessageMetric ''is non-finite'' name)))"

subsection \<open>The artifacts a metric needs\<close>

definition complete_duplication :: "('d, 'p) analysis_report \<Rightarrow> gate_error + duplication_metrics" where
  "complete_duplication r =
     and_then (check (project_complete (analysis_project r))
       (Message ''duplication is unavailable because the project analysis is incomplete'')) (\<lambda>_.
     ok_or (project_duplication (analysis_project r)) (Message ''duplication metrics are unavailable''))"

definition duplication_counter :: "('d, 'p) analysis_report \<Rightarrow> (duplication_metrics \<Rightarrow> u64) \<Rightarrow> gate_error + metric_value" where
  "duplication_counter r select = and_then (complete_duplication r) (\<lambda>d. Inr (Count (select d)))"

definition complete_coverage :: "('d, 'p) analysis_report \<Rightarrow> gate_error + coverage_report" where
  "complete_coverage r =
     and_then (ok_or (analysis_assessment r)
       (Message ''coverage is unavailable because no assessment is attached'')) (\<lambda>a.
     and_then (check (assessment_version a = ASSESSMENT_SCHEMA_VERSION)
       (MessageVersion ''assessment schema_version is unsupported'' (assessment_version a))) (\<lambda>_.
     and_then (ok_or (assessment_coverage a) (Message ''coverage report is missing'')) (\<lambda>c.
     and_then (check (coverage_version c = ASSESSMENT_SCHEMA_VERSION)
       (MessageVersion ''coverage schema_version is unsupported'' (coverage_version c))) (\<lambda>_.
     and_then (check (coverage_status c = Complete) (MessageStatus ''coverage status is not complete'' (coverage_status c))) (\<lambda>_.
     and_then (map_err (MessageError ''coverage artifact is invalid'') (validate_coverage c)) (\<lambda>_.
     and_then (validate_counter (eligible (total_lines c)) (covered (total_lines c)) ''line coverage'') (\<lambda>_.
     and_then (validate_counter (eligible (total_branches c)) (covered (total_branches c)) ''branch coverage'') (\<lambda>_.
     Inr c))))))))"

text \<open>The key of a finding: path (compared by components), issue index and identity.\<close>

type_synonym finding_key = "component list \<times> nat \<times> string"

fun expected_source :: "path \<Rightarrow> finding_identity list \<Rightarrow> finding_key set \<Rightarrow> gate_error + finding_key set" where
  "expected_source p [] expected = Inr expected"
| "expected_source p (f # fs) expected =
     (let key = (path_key p, issue_index f, identity f) in
      and_then (check (key \<notin> expected)
        (MessageIndex ''assessment contains duplicate current source finding'' p (issue_index f))) (\<lambda>_.
      expected_source p fs (insert key expected)))"

fun expected_findings :: "source_snapshot list \<Rightarrow> finding_key set \<Rightarrow> gate_error + finding_key set" where
  "expected_findings [] expected = Inr expected"
| "expected_findings (s # ss) expected =
     and_then (expected_source (snapshot_path s) (snapshot_findings s) expected) (expected_findings ss)"

fun observed_findings :: "finding_match list \<Rightarrow> finding_key set \<Rightarrow> finding_key set \<Rightarrow> gate_error + finding_key set" where
  "observed_findings [] expected observed = Inr observed"
| "observed_findings (f # fs) expected observed =
     (let key = (path_key (match_path f), match_index f, match_identity f) in
      and_then (check (key \<notin> observed)
        (MessageIndex ''new-code findings contain duplicate current finding'' (match_path f) (match_index f))) (\<lambda>_.
      and_then (check (key \<in> expected)
        (MessageIndex ''new-code finding does not match a current source finding'' (match_path f) (match_index f))) (\<lambda>_.
      observed_findings fs expected (insert key observed))))"

definition validate_current_finding_matches :: "'d assessment_report \<Rightarrow> new_code_report \<Rightarrow> gate_error + unit" where
  "validate_current_finding_matches a n =
     and_then (expected_findings (assessment_sources a) {}) (\<lambda>expected.
     and_then (observed_findings (new_code_findings n) expected {}) (\<lambda>observed.
     check (expected - observed = {}) (Message ''new-code findings omit current source finding'')))"

definition complete_new_code :: "(bytes \<Rightarrow> bytes) \<Rightarrow> ('d, 'p) analysis_report \<Rightarrow> gate_error + new_code_report" where
  "complete_new_code sha r =
     and_then (ok_or (analysis_assessment r)
       (Message ''new-code data is unavailable because no assessment is attached'')) (\<lambda>a.
     and_then (check (assessment_version a = ASSESSMENT_SCHEMA_VERSION)
       (MessageVersion ''assessment schema_version is unsupported'' (assessment_version a))) (\<lambda>_.
     and_then (map_err (MessageError ''assessment inventory is invalid'') (validate_against sha a (analysis_files r))) (\<lambda>_.
     and_then (ok_or (assessment_new_code a) (Message ''new-code report is missing; baseline is unavailable'')) (\<lambda>n.
     and_then (check (new_code_version n = ASSESSMENT_SCHEMA_VERSION)
       (MessageVersion ''new-code schema_version is unsupported'' (new_code_version n))) (\<lambda>_.
     and_then (check (new_code_status n = Complete)
       (MessageStatus ''a valid baseline is required'' (new_code_status n))) (\<lambda>_.
     and_then (map_err (MessageError ''new-code artifact is invalid'') (validate_new_code sha n)) (\<lambda>_.
     and_then (ok_or (reference_context n) (Message ''new-code baseline context is missing'')) (\<lambda>c.
     and_then (check (compatible_with c (assessment_context a))
       (Message ''new-code baseline context is incompatible with the current assessment'')) (\<lambda>_.
     and_then (validate_current_finding_matches a n) (\<lambda>_.
     Inr n))))))))))"

subsection \<open>Changed lines\<close>

type_synonym line_sets = "(component list, path \<times> u32 set) btree"

fun insert_lines :: "u32 list \<Rightarrow> u32 set \<Rightarrow> gate_error + u32 set" where
  "insert_lines [] lines = Inr lines"
| "insert_lines (l # ls) lines =
     and_then (check (l \<noteq> 0) (Message ''new-code line sets must use one-based line numbers'')) (\<lambda>_.
     insert_lines ls (insert l lines))"

fun collect_line_sets :: "new_code_lines list \<Rightarrow> line_sets \<Rightarrow> gate_error + line_sets" where
  "collect_line_sets [] sets = Inr sets"
| "collect_line_sets (e # es) sets =
     (let (p, lines) = (case map_of sets (path_key (new_path e)) of None \<Rightarrow> (new_path e, {}) | Some v \<Rightarrow> v) in
      and_then (insert_lines (new_lines e) lines) (\<lambda>lines.
      collect_line_sets es (bt_put (path_key (new_path e)) (p, lines) sets)))"

definition new_code_line_sets :: "new_code_report \<Rightarrow> gate_error + line_sets" where
  "new_code_line_sets n =
     and_then (collect_line_sets (new_code_line_list n) []) (\<lambda>sets.
     Inr (filter (\<lambda>(k, p, lines). lines \<noteq> {}) sets))"

type_synonym measurement_index = "(component list, path \<times> project_file_measurement) btree"

definition measurement_key :: "project_file_measurement \<Rightarrow> gate_error + component list \<times> path \<times> project_file_measurement" where
  "measurement_key m =
     and_then (map_err (\<lambda>_. MessagePath ''project inventory path is invalid'' (measured_path m))
       (normalize_path (measured_path m))) (\<lambda>q. Inr (path_key q, q, m))"

definition index_measurements :: "('d, 'p) analysis_report \<Rightarrow> gate_error + measurement_index" where
  "index_measurements r = bt_index measurement_key (\<lambda>(q, m). MessagePath ''project inventory contains duplicate path'' q)
     (project_files (analysis_project r)) []"

text \<open>The loop over the lines of one file, in ascending order.\<close>

fun count_lines :: "path \<Rightarrow> u64 \<Rightarrow> u32 list \<Rightarrow> u64 \<Rightarrow> gate_error + u64" where
  "count_lines p file_lines [] denominator = Inr denominator"
| "count_lines p file_lines (l # ls) denominator =
     and_then (check (\<not> ucast l > file_lines) (MessageLine ''new-code line is outside the measured file'' l p)) (\<lambda>_.
     and_then (ok_or (checked_add denominator 1) (Message ''new-code line denominator overflows u64''))
       (count_lines p file_lines ls))"

fun count_line_sets :: "measurement_index \<Rightarrow> line_sets \<Rightarrow> u64 \<Rightarrow> gate_error + u64" where
  "count_line_sets ms [] denominator = Inr denominator"
| "count_line_sets ms ((k, p, lines) # sets) denominator =
     and_then (ok_or (map_of ms k) (MessagePath ''new-code path is absent from project inventory'' p)) (\<lambda>(q, m).
     and_then (check (\<not> (measured_class m \<notin> {Source, Test} \<or> measured_status m \<noteq> Measured))
       (MessagePath ''new-code path is not a complete analyzed file'' p)) (\<lambda>_.
     and_then (ok_or (measured_metrics m) (MessagePath ''new-code path has no file metrics'' p)) (\<lambda>metrics.
     and_then (count_lines p (ucast (metric_lines metrics)) (sorted_list_of_set lines) denominator)
       (count_line_sets ms sets))))"

definition validate_new_line_sets :: "measurement_index \<Rightarrow> line_sets \<Rightarrow> gate_error + u64" where
  "validate_new_line_sets ms sets = count_line_sets ms sets 0"

fun density_lines :: "measurement_index \<Rightarrow> line_sets \<Rightarrow> u64 \<Rightarrow> gate_error + u64" where
  "density_lines ms [] denominator = Inr denominator"
| "density_lines ms ((k, p, lines) # sets) denominator =
     and_then (ok_or (map_of ms k) (MessagePath ''new-code path is absent from project inventory'' p)) (\<lambda>(q, m).
     if measured_class m \<noteq> Source \<or> measured_duplication m = None then density_lines ms sets denominator
     else and_then (ok_or (checked_add denominator (usize_as_u64 (card lines)))
         (Message ''new-code duplication denominator overflows u64'')) (density_lines ms sets))"

definition duplication_line_denominator :: "measurement_index \<Rightarrow> line_sets \<Rightarrow> gate_error + u64" where
  "duplication_line_denominator ms sets = density_lines ms sets 0"

subsection \<open>Duplication in the new code\<close>

record scoped_sets =
  scoped_lines :: "(component list \<times> u32) set"
  scoped_blocks :: "(component list \<times> u32 \<times> u32 \<times> u32 \<times> u32) set"
  scoped_files :: "component list set"

record scoped_duplication =
  scoped_duplicated_lines :: u64
  scoped_duplicated_blocks :: u64
  scoped_duplicated_files :: u64
  scoped_denominator :: u64

definition collect_scoped_occurrence :: "duplicate_occurrence \<Rightarrow> line_sets \<Rightarrow> scoped_sets \<Rightarrow> gate_error + scoped_sets" where
  "collect_scoped_occurrence c sets acc =
     and_then (check (\<not> (occurrence_start_line c = 0 \<or> occurrence_end_line c < occurrence_start_line c))
       (MessagePath ''duplication occurrence range is invalid'' (occurrence_path c))) (\<lambda>_.
     and_then (map_err (\<lambda>_. MessagePath ''duplication occurrence path is invalid'' (occurrence_path c))
       (normalize_path (occurrence_path c))) (\<lambda>q.
     case map_of sets (path_key q) of
       None \<Rightarrow> Inr acc
     | Some (p, lines) \<Rightarrow>
         (let hit = {occurrence_start_line c..occurrence_end_line c} \<inter> lines in
          if hit = {} then Inr acc
          else Inr (acc
            \<lparr>scoped_blocks := insert (path_key q, occurrence_start_line c, occurrence_end_line c,
               occurrence_start_byte c, occurrence_end_byte c) (scoped_blocks acc),
             scoped_files := insert (path_key q) (scoped_files acc),
             scoped_lines := (\<lambda>l. (path_key q, l)) ` hit \<union> scoped_lines acc\<rparr>))))"

fun collect_scoped :: "duplicate_occurrence list \<Rightarrow> line_sets \<Rightarrow> scoped_sets \<Rightarrow> gate_error + scoped_sets" where
  "collect_scoped [] sets acc = Inr acc"
| "collect_scoped (c # cs) sets acc = and_then (collect_scoped_occurrence c sets acc) (collect_scoped cs sets)"

definition scope_duplication :: "('d, 'p) analysis_report \<Rightarrow> measurement_index \<Rightarrow> line_sets \<Rightarrow> gate_error + scoped_duplication" where
  "scope_duplication r ms sets =
     and_then (complete_duplication r) (\<lambda>_.
     and_then (validate_new_line_sets ms sets) (\<lambda>_.
     and_then (duplication_line_denominator ms sets) (\<lambda>denominator.
     and_then (collect_scoped (concat (map occurrences (project_duplications (analysis_project r)))) sets
         \<lparr>scoped_lines = {}, scoped_blocks = {}, scoped_files = {}\<rparr>) (\<lambda>acc.
     Inr \<lparr>scoped_duplicated_lines = usize_as_u64 (card (scoped_lines acc)),
       scoped_duplicated_blocks = usize_as_u64 (card (scoped_blocks acc)),
       scoped_duplicated_files = usize_as_u64 (card (scoped_files acc)),
       scoped_denominator = denominator\<rparr>))))"

subsection \<open>Coverage of the new code\<close>

fun entry_lines :: "path \<Rightarrow> line_coverage list \<Rightarrow> (component list \<times> u32) set \<Rightarrow> gate_error + (component list \<times> u32) set" where
  "entry_lines p [] entries = Inr entries"
| "entry_lines p (l # ls) entries =
     and_then (check ((path_key p, covered_line l) \<notin> entries)
       (MessageLine ''coverage contains duplicate line'' (covered_line l) p)) (\<lambda>_.
     entry_lines p ls (insert (path_key p, covered_line l) entries))"

fun coverage_entries :: "file_coverage list \<Rightarrow> (component list \<times> u32) set \<Rightarrow> gate_error + (component list \<times> u32) set" where
  "coverage_entries [] entries = Inr entries"
| "coverage_entries (f # fs) entries =
     and_then (entry_lines (coverage_path f) (coverage_lines f) entries) (coverage_entries fs)"

definition validate_scoped_coverage_entries :: "coverage_report \<Rightarrow> line_sets \<Rightarrow> gate_error + unit" where
  "validate_scoped_coverage_entries c sets =
     and_then (check (sets \<noteq> []) (Message ''new-code scope is empty'')) (\<lambda>_.
     and_then (coverage_entries (coverage_files c) {}) (\<lambda>entries.
     try_all (\<lambda>(k, p, lines). try_all (\<lambda>l. check ((k, l) \<in> entries)
         (MessageLine ''coverage has no entry for new-code line'' l p)) (sorted_list_of_set lines)) sets))"

fun scoped_lines_of :: "u32 set \<Rightarrow> line_coverage list \<Rightarrow> u64 \<times> u64 \<Rightarrow> gate_error + u64 \<times> u64" where
  "scoped_lines_of lines [] acc = Inr acc"
| "scoped_lines_of lines (l # ls) (e, c) =
     (if covered_line l \<notin> lines then scoped_lines_of lines ls (e, c)
      else case line_hit l of
        None \<Rightarrow> scoped_lines_of lines ls (e, c)
      | Some hit \<Rightarrow>
          and_then (ok_or (checked_add e 1) (Message ''new-code line denominator overflows u64'')) (\<lambda>e.
          and_then (if hit then ok_or (checked_add c 1) (Message ''new-code covered line counter overflows u64'') else Inr c) (\<lambda>c.
          scoped_lines_of lines ls (e, c))))"

fun scoped_files_of :: "(u32 set \<Rightarrow> line_coverage list \<Rightarrow> u64 \<times> u64 \<Rightarrow> gate_error + u64 \<times> u64) \<Rightarrow> line_sets \<Rightarrow>
    file_coverage list \<Rightarrow> u64 \<times> u64 \<Rightarrow> gate_error + u64 \<times> u64" where
  "scoped_files_of step sets [] acc = Inr acc"
| "scoped_files_of step sets (f # fs) acc =
     (case map_of sets (path_key (coverage_path f)) of
        None \<Rightarrow> scoped_files_of step sets fs acc
      | Some (p, lines) \<Rightarrow> and_then (step lines (coverage_lines f) acc) (scoped_files_of step sets fs))"

definition scoped_line_coverage :: "coverage_report \<Rightarrow> line_sets \<Rightarrow> gate_error + u64 \<times> u64" where
  "scoped_line_coverage c sets =
     and_then (validate_scoped_coverage_entries c sets) (\<lambda>_.
     and_then (check (eligible (total_lines c) \<noteq> 0) (Message ''new-code line coverage has no global denominator'')) (\<lambda>_.
     scoped_files_of scoped_lines_of sets (coverage_files c) (0, 0)))"

fun scoped_branches_of :: "u32 set \<Rightarrow> line_coverage list \<Rightarrow> u64 \<times> u64 \<Rightarrow> gate_error + u64 \<times> u64" where
  "scoped_branches_of lines [] acc = Inr acc"
| "scoped_branches_of lines (l # ls) (e, c) =
     (if covered_line l \<notin> lines then scoped_branches_of lines ls (e, c)
      else case line_branches l of
        None \<Rightarrow> scoped_branches_of lines ls (e, c)
      | Some b \<Rightarrow>
          and_then (validate_counter (eligible b) (covered b) ''new-code branch coverage'') (\<lambda>_.
          and_then (ok_or (checked_add e (eligible b)) (Message ''new-code branch denominator overflows u64'')) (\<lambda>e.
          and_then (ok_or (checked_add c (covered b)) (Message ''new-code covered branch counter overflows u64'')) (\<lambda>c.
          scoped_branches_of lines ls (e, c)))))"

definition scoped_branch_coverage :: "coverage_report \<Rightarrow> line_sets \<Rightarrow> gate_error + u64 \<times> u64" where
  "scoped_branch_coverage c sets =
     and_then (validate_scoped_coverage_entries c sets) (\<lambda>_.
     scoped_files_of scoped_branches_of sets (coverage_files c) (0, 0))"

subsection \<open>Metrics\<close>

definition overall_metric :: "string \<Rightarrow> ('d, 'p) analysis_report \<Rightarrow> gate_error + metric_value" where
  "overall_metric metric r =
     and_then (check (project_complete (analysis_project r))
       (Message ''project analysis is incomplete; overall gate metric is unavailable'')) (\<lambda>_.
     let metrics = project_metrics_of (analysis_project r) in
     if metric = ''files'' then Inr (Count (project_file_count metrics))
     else if metric = ''lines'' then Inr (Count (project_lines metrics))
     else if metric = ''code_lines'' then Inr (Count (project_code_lines metrics))
     else if metric = ''comment_lines'' then Inr (Count (project_comment_lines metrics))
     else if metric = ''issues'' then
       Inr (Count (sum_list (map (\<lambda>f. usize_as_u64 (length (report_issues f))) (analysis_files r))))
     else if metric = ''duplicated_lines'' then duplication_counter r duplicated_lines
     else if metric = ''duplicated_blocks'' then duplication_counter r duplicated_blocks
     else if metric = ''duplicated_files'' then duplication_counter r duplicated_files
     else if metric = ''duplicated_lines_density'' then
       and_then (complete_duplication r) (\<lambda>d.
       and_then (ok_or (duplicated_lines_density d) (Message ''duplication density has no denominator'')) (\<lambda>density.
       if is_finite density \<and> f64_le 0 density \<and> f64_le density (f64_of_nat 100) then Inr (Percentage density)
       else Inl (Message ''duplication density is invalid or non-finite'')))
     else if metric = ''line_coverage'' then
       and_then (complete_coverage r) (\<lambda>c.
       percentage_counter (eligible (total_lines c)) (covered (total_lines c)) ''line coverage'')
     else if metric = ''branch_coverage'' then
       and_then (complete_coverage r) (\<lambda>c.
       percentage_counter (eligible (total_branches c)) (covered (total_branches c)) ''branch coverage'')
     else Inl (Message ''unsupported overall gate metric''))"

definition new_code_metric :: "(bytes \<Rightarrow> bytes) \<Rightarrow> string \<Rightarrow> ('d, 'p) analysis_report \<Rightarrow> gate_error + metric_value" where
  "new_code_metric sha metric r =
     and_then (check (project_complete (analysis_project r))
       (Message ''project analysis is incomplete; new-code gate metric is unavailable'')) (\<lambda>_.
     and_then (complete_new_code sha r) (\<lambda>n.
     and_then (new_code_line_sets n) (\<lambda>sets.
     and_then (index_measurements r) (\<lambda>ms.
     and_then (validate_new_line_sets ms sets) (\<lambda>count.
     if metric = ''files'' then Inr (Count (usize_as_u64 (length sets)))
     else if metric = ''lines'' then Inr (Count count)
     else if metric = ''issues'' then
       and_then (check (\<forall>f \<in> set (new_code_findings n). match_status f \<noteq> Uncertain)
         (Message ''new-code finding identities are uncertain; issue count is unavailable'')) (\<lambda>_.
       Inr (Count (usize_as_u64 (length (filter (\<lambda>f. match_status f = New) (new_code_findings n))))))
     else if metric = ''line_coverage'' then
       and_then (complete_coverage r) (\<lambda>c.
       and_then (scoped_line_coverage c sets) (\<lambda>(e, c). percentage_counter e c ''new-code line coverage''))
     else if metric = ''branch_coverage'' then
       and_then (complete_coverage r) (\<lambda>c.
       and_then (scoped_branch_coverage c sets) (\<lambda>(e, c). percentage_counter e c ''new-code branch coverage''))
     else if metric = ''duplicated_lines'' then
       and_then (scope_duplication r ms sets) (\<lambda>d. Inr (Count (scoped_duplicated_lines d)))
     else if metric = ''duplicated_blocks'' then
       and_then (scope_duplication r ms sets) (\<lambda>d. Inr (Count (scoped_duplicated_blocks d)))
     else if metric = ''duplicated_files'' then
       and_then (scope_duplication r ms sets) (\<lambda>d. Inr (Count (scoped_duplicated_files d)))
     else if metric = ''duplicated_lines_density'' then
       and_then (scope_duplication r ms sets) (\<lambda>d.
       percentage_counter (scoped_denominator d) (scoped_duplicated_lines d) ''new-code duplication density'')
     else Inl (Message ''unsupported new-code gate metric''))))))"

subsection \<open>Evaluation\<close>

definition condition_result :: "gate_condition \<Rightarrow> f64 option \<Rightarrow> gate_status \<Rightarrow> gate_error option \<Rightarrow> gate_error gate_condition_result" where
  "condition_result c actual status diagnostic =
     \<lparr>result_scope = condition_scope c, result_metric = condition_metric c, result_operator = condition_operator c,
      result_threshold = safe_threshold (condition_threshold c), result_actual = actual, result_status = status,
      result_diagnostic = diagnostic\<rparr>"

definition evaluate_condition :: "(bytes \<Rightarrow> bytes) \<Rightarrow> gate_condition \<Rightarrow> ('d, 'p) analysis_report \<Rightarrow> gate_error gate_condition_result" where
  "evaluate_condition sha c r =
     (case and_then (validate_condition c) (\<lambda>_.
        (case condition_scope c of
           Overall \<Rightarrow> overall_metric (condition_metric c) r
         | NewCode \<Rightarrow> new_code_metric sha (condition_metric c) r)) of
        Inl diagnostic \<Rightarrow> condition_result c None Unavailable (Some diagnostic)
      | Inr value \<Rightarrow>
          if \<not> value_is_finite value then
            condition_result c None Unavailable (Some (Message ''derived gate metric is non-finite''))
          else if value_meets value (condition_operator c) (condition_threshold c) then
            condition_result c (Some (value_as_f64 value)) Pass None
          else condition_result c (Some (value_as_f64 value)) Fail
            (Some (NotSatisfied (value_as_f64 value) (condition_operator c) (condition_threshold c) (condition_metric c))))"

definition unavailable_condition :: "gate_condition \<Rightarrow> gate_error \<Rightarrow> gate_error gate_condition_result" where
  "unavailable_condition c diagnostic = condition_result c None Unavailable (Some diagnostic)"

definition unavailable_report :: "gate_config \<Rightarrow> gate_error \<Rightarrow> gate_error gate_report" where
  "unavailable_report config diagnostic =
     \<lparr>gate_version = GATE_REPORT_SCHEMA_VERSION, gate_status_of = Unavailable,
      gate_results = map (\<lambda>c. unavailable_condition c diagnostic) (config_conditions config),
      gate_diagnostics = [diagnostic]\<rparr>"

definition evaluate_gate :: "(bytes \<Rightarrow> bytes) \<Rightarrow> gate_config \<Rightarrow> ('d, 'p) analysis_report \<Rightarrow> gate_error gate_report" where
  "evaluate_gate sha config r =
     (if config_version config \<noteq> GATE_CONFIG_SCHEMA_VERSION then
        unavailable_report config (MessageVersion ''unsupported gate configuration schema_version'' (config_version config))
      else if config_conditions config = [] then
        unavailable_report config (Message ''gate configuration must contain at least one condition'')
      else if analysis_version r \<noteq> 1 then
        unavailable_report config (MessageVersion ''unsupported analysis report schema_version'' (analysis_version r))
      else
        let results = map (\<lambda>c. evaluate_condition sha c r) (config_conditions config) in
        \<lparr>gate_version = GATE_REPORT_SCHEMA_VERSION,
         gate_status_of =
           (if \<exists>c \<in> set results. result_status c = Unavailable then Unavailable
            else if \<exists>c \<in> set results. result_status c = Fail then Fail else Pass),
         gate_results = results,
         gate_diagnostics = List.map_filter result_diagnostic results\<rparr>)"

end
