(* ===== verification/GateNumbers.thy ===== *)
theory GateNumbers
  imports Gates
begin

text \<open>
  The arithmetic of the gates is exact where it claims to be: a counter compares with a threshold
  as the numbers do, the conversion of a counter picks the nearest double, and a percentage is the
  correctly rounded quotient as long as the counters stay below \<open>2 ^ 53 / 100\<close>.
\<close>

unbundle bit_operations_syntax

subsection \<open>Decoding a threshold\<close>

lemma decoded_exponent: "uint (drop_bit 52 t AND 0x7FF :: u64) = int (f64_exponent t)"
proof -
  have "drop_bit 52 t AND 0x7FF = t div 2 ^ 52 mod 2 ^ 11"
    using take_bit_eq_mask [of 11 "drop_bit 52 t"] by (simp add: take_bit_eq_mod drop_bit_eq_div mask_numeral)
  then show ?thesis by (simp add: f64_exponent_def uint_mod uint_div zdiv_int zmod_int)
qed

lemma decoded_fraction_mod: "(t AND (push_bit 52 1 - 1) :: u64) = t mod 2 ^ 52"
  using take_bit_eq_mask [of 52 t] by (simp add: take_bit_eq_mod mask_eq_exp_minus_1 push_bit_eq_mult)

lemma decoded_fraction: "unat (t AND (push_bit 52 1 - 1) :: u64) = f64_fraction t"
  unfolding decoded_fraction_mod by (simp add: f64_fraction_def unat_mod)

lemma unat_widen: "unat (ucast (x :: u64) :: u128) = unat x"
proof -
  have "unat x < 2 ^ LENGTH(64)" by (rule unsigned_less)
  then have "unat x < 2 ^ 128" by simp
  then show ?thesis unfolding unsigned_ucast_eq by (simp add: take_bit_nat_eq_self)
qed

lemma decoded_significand:
  "unat (push_bit 52 1 OR ucast (t AND (push_bit 52 1 - 1) :: u64) :: u128) = 2 ^ 52 + f64_fraction t"
proof -
  let ?f = "t AND (push_bit 52 1 - 1) :: u64"
  have f: "?f = take_bit 52 t" unfolding decoded_fraction_mod by (simp add: take_bit_eq_mod)
  have "push_bit 52 1 AND (ucast ?f :: u128) = 0"
  proof (rule bit_eqI)
    fix n
    have "bit (push_bit 52 (1 :: u128)) n \<Longrightarrow> n = 52" by (subst (asm) bit_push_bit_iff) (auto simp: bit_1_iff)
    then show "bit (push_bit 52 1 AND (ucast ?f :: u128)) n \<longleftrightarrow> bit (0 :: u128) n"
      unfolding f bit_and_iff bit_unsigned_iff bit_take_bit_iff by auto
  qed
  then have "push_bit 52 1 OR (ucast ?f :: u128) = push_bit 52 1 + ucast ?f"
    by (rule disjunctive_add_eq_or [symmetric])
  moreover have "unat (ucast ?f :: u128) = f64_fraction t"
    unfolding decoded_fraction [symmetric] by (rule unat_widen)
  moreover have "unat (push_bit 52 1 :: u128) = 2 ^ 52" by simp
  moreover have "f64_fraction t < 2 ^ 52" by (simp add: f64_fraction_def)
  ultimately show ?thesis by (simp add: unat_word_ariths)
qed

lemma unat_push: "unat w * 2 ^ k < 2 ^ 128 \<Longrightarrow> unat (push_bit k w :: u128) = unat w * 2 ^ k"
proof -
  have "unat (push_bit k w) = take_bit 128 (push_bit k (unat w))" using unsigned_push_bit_eq [of k w] by simp
  moreover assume "unat w * 2 ^ k < 2 ^ 128"
  ultimately show ?thesis by (simp only: push_bit_eq_mult take_bit_nat_eq_self)
qed

lemma cmp_word: "cmp (x :: 'a :: len word) y = cmp (unat x) (unat y)"
  by (simp add: cmp_def word_less_nat_alt word_unat_eq_iff)

lemma cmp_floor: "0 < d \<Longrightarrow> cmp (v * d) s =
    (case cmp v (s div d) of Less \<Rightarrow> Less | Greater \<Rightarrow> Greater | Equal \<Rightarrow> if s mod d = 0 then Equal else Less)" for v :: nat
proof -
  assume d: "0 < d"
  have s: "s = s div d * d + s mod d" "s mod d < d" using d by simp_all
  consider "v < s div d" | "v = s div d" | "s div d < v" by linarith
  then show ?thesis
  proof cases
    case 1
    then have "Suc v * d \<le> s div d * d" by (intro mult_right_mono) simp_all
    also have "\<dots> \<le> s" by simp
    finally have "v * d < s" using d by simp
    with 1 show ?thesis by (simp add: cmp_def)
  next
    case 2
    have "s = v * d + s mod d" unfolding 2 by simp
    then have "v * d < s \<longleftrightarrow> s mod d \<noteq> 0" "v * d = s \<longleftrightarrow> s mod d = 0" by linarith+
    with 2 show ?thesis by (simp add: cmp_def)
  next
    case 3
    then have "Suc (s div d) * d \<le> v * d" by (intro mult_right_mono) simp_all
    then have "s div d * d + d \<le> v * d" by simp
    then have "s < v * d" using s by linarith
    with 3 show ?thesis by (simp add: cmp_def)
  qed
qed

subsection \<open>Counters against thresholds\<close>

lemma magnitude_normal: "f64_exponent t \<noteq> 0 \<Longrightarrow> magnitude t = (2 ^ 52 + f64_fraction t) * 2 ^ (f64_exponent t - 1)"
  by (simp add: magnitude_def)

lemma cmp_tiny: "0 < m \<Longrightarrow> m < k \<Longrightarrow> cmp (n * k) m = (if n = 0 then Less else Greater)" for m :: nat
proof -
  assume m: "0 < m" "m < k"
  show ?thesis
  proof (cases n)
    case (Suc i)
    then have "m < n * k" using m by simp
    then show ?thesis using Suc by (simp add: cmp_def)
  qed (use m in \<open>simp add: cmp_def\<close>)
qed

text \<open>The comparison of a counter with a significand scaled by a power of two.\<close>

lemma compare_scaled:
  fixes S v e :: nat
  assumes e: "0 < e" and S: "S < 2 ^ 53" "2 ^ 52 \<le> S" and v: "v < 2 ^ 64"
  shows "1139 \<le> e \<Longrightarrow> cmp (v * 2 ^ 1074) (S * 2 ^ (e - 1)) = Less"
    and "1075 \<le> e \<Longrightarrow> cmp (v * 2 ^ 1074) (S * 2 ^ (e - 1)) = cmp v (S * 2 ^ (e - 1075))"
    and "e < 1075 \<Longrightarrow> cmp (v * 2 ^ 1074) (S * 2 ^ (e - 1)) = cmp (v * 2 ^ (1075 - e)) S"
proof -
  show scaled: "cmp (v * 2 ^ 1074) (S * 2 ^ (e - 1)) = cmp v (S * 2 ^ (e - 1075))" if "1075 \<le> e"
  proof -
    have "e - 1 = e - 1075 + 1074" using that by simp
    then have "S * 2 ^ (e - 1) = S * 2 ^ (e - 1075) * (2 :: nat) ^ 1074" by (simp only: power_add mult.assoc)
    then show ?thesis by (simp only: cmp_mult zero_less_power zero_less_numeral)
  qed
  show "cmp (v * 2 ^ 1074) (S * 2 ^ (e - 1)) = Less" if "1139 \<le> e"
  proof -
    have "v < 2 ^ 52 * 2 ^ 64" using v by simp
    also have "\<dots> \<le> S * 2 ^ (e - 1075)" using S(2) that by (intro mult_mono power_increasing) simp_all
    finally show ?thesis using scaled that by simp
  qed
  show "cmp (v * 2 ^ 1074) (S * 2 ^ (e - 1)) = cmp (v * 2 ^ (1075 - e)) S" if "e < 1075"
  proof -
    have "1074 = 1075 - e + (e - 1)" using that e by simp
    then have "v * 2 ^ 1074 = v * 2 ^ (1075 - e) * 2 ^ (e - 1)" by (metis power_add mult.assoc)
    then show ?thesis by (simp only: cmp_mult zero_less_power zero_less_numeral)
  qed
qed

text \<open>C15: \<open>compare_u64_f64\<close> orders a counter and a threshold exactly as the two numbers are ordered,
  for every threshold that is a number: nothing is rounded, at any magnitude, and the 128-bit shifts never
  overflow.\<close>

theorem compare_u64_f64_exact:
  assumes "\<not> is_nan t"
  shows "compare_u64_f64 v t = cmp (int (unat v) * 2 ^ 1074) (units t)"
proof -
  have less: "f64_less t 0 \<longleftrightarrow> units t < 0" and eq: "f64_eq t 0 \<longleftrightarrow> units t = 0"
    using assms by (simp_all add: f64_less_def f64_eq_def partial_cmp_def)
  consider "units t < 0" | "units t = 0" | "0 < units t" by linarith
  then show ?thesis
  proof cases
    case 1
    define K where "K = (2 :: int) ^ 1074"
    have "0 \<le> int (unat v) * K" by (simp add: K_def)
    then have "cmp (int (unat v) * K) (units t) = Greater" using 1 by (simp only: cmp_iffs)
    then show ?thesis using 1 assms unfolding K_def by (simp only: compare_u64_f64_def less if_True if_False)
  next
    case 2
    define K where "K = (2 :: int) ^ 1074"
    then have "0 < K" by (simp only: zero_less_power zero_less_numeral)
    then have "cmp v 0 = cmp (int (unat v) * K) 0"
      by (simp add: cmp_def zero_less_mult_iff mult_less_0_iff word_unat_eq_iff del: of_nat_unat)
    then show ?thesis using 2 assms unfolding K_def
      by (simp only: compare_u64_f64_def less eq if_True if_False less_irrefl simp_thms)
  next
    case 3
    then have u: "units t = int (magnitude t)" and pos: "0 < magnitude t" by (auto simp: units_def split: if_splits)
    have cmp: "cmp (int (unat v) * 2 ^ 1074) (units t) = cmp (unat v * 2 ^ 1074) (magnitude t)"
      unfolding u using cmp_int [of "unat v * 2 ^ 1074" "magnitude t"] by simp
    let ?S = "push_bit 52 1 OR ucast (t AND (push_bit 52 1 - 1)) :: u128"
    let ?e = "f64_exponent t" and ?s = "2 ^ 52 + f64_fraction t"
    have fr: "f64_fraction t < 2 ^ 52" by (simp add: f64_fraction_def)
    have v: "unat v < 2 ^ 64" using unsigned_less [of v] by simp
    have S: "unat ?S = ?s" by (rule decoded_significand)
    show ?thesis
    proof (cases "?e = 0")
      case True
      then have "magnitude t < 2 ^ 1074" using fr by (simp add: magnitude_def)
      then have "cmp (unat v * 2 ^ 1074) (magnitude t) = (if v = 0 then Less else Greater)"
        using cmp_tiny [OF pos, of "2 ^ 1074" "unat v"] by (simp only: unat_eq_0)
      moreover have "\<not> units t < 0" "units t \<noteq> 0" "int ?e = 0" using 3 True by simp_all
      ultimately show ?thesis using assms
        by (simp only: compare_u64_f64_def less eq cmp decoded_exponent Let_def if_True if_False simp_thms)
    next
      case False
      have "magnitude t = ?s * 2 ^ (?e - 1)" by (rule magnitude_normal) (rule False)
      then have goal: "cmp (int (unat v) * 2 ^ 1074) (units t) = cmp (unat v * 2 ^ 1074) (?s * 2 ^ (?e - 1))"
        unfolding cmp by (rule arg_cong)
      have "0 < ?e" "?s < 2 ^ 53" "2 ^ 52 \<le> ?s" using False fr by simp_all
      note scaled = compare_scaled [OF this v]
      have code: "compare_u64_f64 v t =
        (let shift = int ?e - 1075 in
         if 64 \<le> shift then Less
         else if 0 \<le> shift then cmp (ucast v) (push_bit (nat shift) ?S)
         else if 128 \<le> nat (- shift) then (if v = 0 then Less else Greater)
         else (case cmp (ucast v) (?S div push_bit (nat (- shift)) 1) of
                 Less \<Rightarrow> Less | Greater \<Rightarrow> Greater
               | Equal \<Rightarrow> if ?S mod push_bit (nat (- shift)) 1 = 0 then Equal else Less))"
      proof -
        have "\<not> units t < 0" "units t \<noteq> 0" "int ?e \<noteq> 0" "int ?e - 1023 - 52 = int ?e - 1075"
          using 3 False by simp_all
        then show ?thesis using assms
          by (simp only: compare_u64_f64_def less eq decoded_exponent Let_def if_False simp_thms)
      qed
      consider "1139 \<le> ?e" | "1075 \<le> ?e" "?e < 1139" | "?e < 1075" by linarith
      then show ?thesis
      proof cases
        case 1
        then have "64 \<le> int ?e - 1075" by simp
        then have "compare_u64_f64 v t = Less" unfolding code Let_def by (simp only: if_True)
        then show ?thesis unfolding goal scaled(1) [OF 1] .
      next
        case 2
        then have "\<not> 64 \<le> int ?e - 1075" "0 \<le> int ?e - 1075" "nat (int ?e - 1075) = ?e - 1075" by simp_all
        then have c: "compare_u64_f64 v t = cmp (ucast v) (push_bit (?e - 1075) ?S)"
          unfolding code Let_def by (simp only: if_True if_False)
        have "?s * 2 ^ (?e - 1075) < 2 ^ 53 * 2 ^ 64"
          using fr 2 by (intro mult_strict_mono' power_strict_increasing) simp_all
        also have "\<dots> \<le> (2 :: nat) ^ 128" by simp
        finally have "unat (push_bit (?e - 1075) ?S) = ?s * 2 ^ (?e - 1075)"
          unfolding S [symmetric] by (rule unat_push)
        then show ?thesis unfolding goal scaled(2) [OF 2(1)] c cmp_word unat_widen by (simp only:)
      next
        case e: 3
        then have sh: "\<not> 64 \<le> int ?e - 1075" "\<not> 0 \<le> int ?e - 1075" "nat (- (int ?e - 1075)) = 1075 - ?e" by simp_all
        show ?thesis
        proof (cases "128 \<le> 1075 - ?e")
          case True
          have c: "compare_u64_f64 v t = (if v = 0 then Less else Greater)"
            unfolding code Let_def using sh True by (simp only: if_True if_False)
          have "?s < 2 ^ 128" using fr by simp
          also have "(2 :: nat) ^ 128 \<le> 2 ^ (1075 - ?e)" using True by (rule power_increasing) simp
          finally have "?s < unat v * 2 ^ (1075 - ?e)" if "v \<noteq> 0"
            using that by (simp add: word_unat_eq_iff order.strict_trans2)
          then show ?thesis unfolding goal scaled(3) [OF e] c by (cases "v = 0") (simp_all add: cmp_def)
        next
          case False
          let ?d = "push_bit (1075 - ?e) 1 :: u128"
          have d: "unat ?d = 2 ^ (1075 - ?e)"
          proof -
            have "(2 :: nat) ^ (1075 - ?e) < 2 ^ 128" using False by (intro power_strict_increasing) simp_all
            then show ?thesis using unat_push [of 1 "1075 - ?e"] by simp
          qed
          have c: "compare_u64_f64 v t = (case cmp (ucast v) (?S div ?d) of
                 Less \<Rightarrow> Less | Greater \<Rightarrow> Greater | Equal \<Rightarrow> if ?S mod ?d = 0 then Equal else Less)"
            unfolding code Let_def using sh False by (simp only: if_False)
          have "?S mod ?d = 0 \<longleftrightarrow> ?s mod 2 ^ (1075 - ?e) = 0"
            unfolding S [symmetric] d [symmetric] unat_mod [symmetric] by (simp add: unat_eq_0)
          then show ?thesis
            unfolding goal scaled(3) [OF e] c cmp_word unat_widen unat_div d S
            using cmp_floor [of "2 ^ (1075 - ?e)" "unat v" ?s] by (simp only: zero_less_power zero_less_numeral)
        qed
      qed
    qed
  qed
qed

theorem compare_u64_f64_exact_witness:
  "compare_u64_f64 (- 1) (f64_of_nat 3) = cmp (int (unat (- 1 :: u64)) * 2 ^ 1074) (units (f64_of_nat 3))"
  using compare_u64_f64_exact [of "f64_of_nat 3" "- 1"] f64_of_nat(3) [of 3] by simp

subsection \<open>Counters as doubles\<close>

text \<open>The number a counter stands for, rounded once.\<close>

lemma round_nat_decode:
  assumes "n < 2 ^ 64"
  shows "magnitude (f64_of_nat n) = rounded (n * 2 ^ 1074) 1" "\<not> f64_negative (f64_of_nat n)" "is_finite (f64_of_nat n)"
proof -
  have "n * 2 ^ 1074 div 1 < 2 ^ 64 * 2 ^ 1074" using assms by (simp only: div_by_1 mult_less_cancel2 zero_less_power zero_less_numeral)
  also have "\<dots> = (2 :: nat) ^ (53 + 1085)" by (simp only: power_add [symmetric]) simp
  finally have q: "n * 2 ^ 1074 div 1 < 2 ^ (53 + 1085)" .
  note decoded = round_units_decode [OF zero_less_one q]
  show "magnitude (f64_of_nat n) = rounded (n * 2 ^ 1074) 1" "\<not> f64_negative (f64_of_nat n)" "is_finite (f64_of_nat n)"
    unfolding f64_of_nat_def using decoded by simp_all
qed

lemma counter_parts:
  fixes v :: u64
  shows "unat (u32_try_from (drop_bit 32 v)) = unat v div 2 ^ 32"
    and "unat (u32_try_from (v AND 0xFFFFFFFF)) = unat v mod 2 ^ 32"
proof -
  have narrow: "unat (u32_try_from x) = unat x" if "unat x < 2 ^ 32" for x
  proof -
    have "x \<le> 0xFFFFFFFF" using that by (simp add: word_le_nat_alt)
    then show ?thesis using that unfolding u32_try_from_def unsigned_ucast_eq [of x, symmetric]
      by (simp add: unsigned_ucast_eq take_bit_nat_eq_self)
  qed
  have "unat v < 2 ^ 64" using unsigned_less [of v] by simp
  moreover have high: "unat (drop_bit 32 v) = unat v div 2 ^ 32" by (simp add: drop_bit_eq_div unat_div)
  ultimately show "unat (u32_try_from (drop_bit 32 v)) = unat v div 2 ^ 32"
    by (subst narrow) (simp_all add: less_mult_imp_div_less)
  have "v AND 0xFFFFFFFF = v mod 2 ^ 32"
    using take_bit_eq_mask [of 32 v] by (simp add: take_bit_eq_mod mask_numeral)
  then have low: "unat (v AND 0xFFFFFFFF) = unat v mod 2 ^ 32" by (simp add: unat_mod)
  then show "unat (u32_try_from (v AND 0xFFFFFFFF)) = unat v mod 2 ^ 32"
    by (subst narrow) simp_all
qed

lemma counter_rounds_once: "counter_as_f64 v = f64_of_nat (unat v)"
proof -
  define K where "K = (2 :: nat) ^ 1074"
  have K: "0 < K" by (simp only: K_def zero_less_power zero_less_numeral)
  define h l where h: "h = unat v div 2 ^ 32" and l: "l = unat v mod 2 ^ 32"
  have bounds: "h < 2 ^ 53" "l < 2 ^ 53"
  proof -
    have "unat v < 2 ^ 32 * 2 ^ 32" using unsigned_less [of v] by simp
    then have "h < 2 ^ 32" unfolding h by (rule less_mult_imp_div_less)
    moreover have "l < 2 ^ 32" unfolding l by simp
    ultimately show "h < 2 ^ 53" "l < 2 ^ 53" by simp_all
  qed
  have mag: "magnitude (f64_of_nat n) = n * K" if "n < 2 ^ 53" for n
    unfolding K_def using that by (rule f64_of_nat(1))
  have "f64_mul (f64_of_nat h) (f64_of_nat 4294967296) = round_units (h * 4294967296 * K) 1"
  proof -
    have "f64_mul (f64_of_nat h) (f64_of_nat 4294967296) = round_units (h * K * (4294967296 * K)) K"
      unfolding f64_mul_def K_def [symmetric] using mag [OF bounds(1)] mag [of 4294967296] by simp
    also have "\<dots> = round_units (h * 4294967296 * K * K) (1 * K)" by (simp add: ac_simps)
    also have "\<dots> = round_units (h * 4294967296 * K) 1" using K by (rule round_units_scale)
    finally show ?thesis .
  qed
  moreover have "magnitude (round_units (h * 4294967296 * K) 1) = h * 4294967296 * K"
  proof -
    have "(4294967296 :: nat) = 2 ^ 32" by simp
    then have e: "h * 4294967296 * K = h * 2 ^ (32 + 1074)" by (simp only: K_def power_add mult.assoc)
    have "h * 2 ^ (32 + 1074) div 1 < 2 ^ (53 + (32 + 1074))"
      using bounds(1) by (simp only: power_add [of _ 53] div_by_1 mult_less_cancel2 zero_less_power zero_less_numeral)
    from round_units_decode(1) [OF zero_less_one this] show ?thesis
      unfolding e rounded_exact [OF bounds(1)] by simp
  qed
  ultimately have "counter_as_f64 v = round_units (h * 4294967296 * K + l * K) 1"
    unfolding counter_as_f64_def Let_def counter_parts h [symmetric] l [symmetric] f64_add_def
    using mag [OF bounds(2)] by simp
  also have "h * 4294967296 * K + l * K = unat v * K"
    unfolding h l by (simp add: distrib_right [symmetric])
  finally show ?thesis by (simp only: f64_of_nat_def K_def)
qed

text \<open>\<open>counter_as_f64\<close>, which splits a counter into 32-bit halves, returns the double \<open>value as f64\<close> does:
  finite, not negative, and as near to the counter as any double is.\<close>

theorem counter_as_f64_nearest:
  "counter_as_f64 v = u64_as_f64 v \<and> is_finite (counter_as_f64 v) \<and> \<not> f64_negative (counter_as_f64 v) \<and>
   \<bar>units (counter_as_f64 v) - int (unat v) * 2 ^ 1074\<bar> \<le> \<bar>units y - int (unat v) * 2 ^ 1074\<bar>"
proof -
  define K where "K = (2 :: nat) ^ 1074"
  have "unat v < 2 ^ LENGTH(64)" by (rule unsigned_less)
  then have "unat v < 2 ^ 64" by simp
  note d = round_nat_decode [OF this, folded K_def]
  have units: "units (counter_as_f64 v) = int (rounded (unat v * K) 1)"
    unfolding counter_rounds_once using d by (simp only: units_def if_False)
  have scale: "int (unat v) * 2 ^ 1074 = int (unat v * K)" by (simp only: K_def of_nat_mult of_nat_power of_nat_numeral)
  have "\<bar>units (counter_as_f64 v) - int (unat v * K)\<bar> \<le> \<bar>units y - int (unat v * K)\<bar>"
    using rounded_nearest [of 1 "unat v * K" y] unfolding units by (simp only: zero_less_one mult_1_right of_nat_1)
  then show ?thesis
    unfolding scale using d(2,3) by (simp only: counter_rounds_once u64_as_f64_def simp_thms)
qed

subsection \<open>Percentages\<close>

lemma exact_quotient:
  assumes c: "c * 100 < 2 ^ 53" and e: "0 < e" "e < 2 ^ 53"
  shows "f64_div (f64_mul (f64_of_nat c) (f64_of_nat 100)) (f64_of_nat e) = round_units (c * 100 * 2 ^ 1074) e"
proof -
  define K where "K = (2 :: nat) ^ 1074"
  have K: "0 < K" by (simp only: K_def zero_less_power zero_less_numeral)
  have mag: "magnitude (f64_of_nat n) = n * K" if "n < 2 ^ 53" for n
    unfolding K_def using that by (rule f64_of_nat(1))
  have "f64_mul (f64_of_nat c) (f64_of_nat 100) = round_units (c * K * (100 * K)) K"
    unfolding f64_mul_def K_def [symmetric] using mag [of c] mag [of 100] c by simp
  also have "\<dots> = round_units (c * 100 * K * K) (1 * K)" by (simp add: ac_simps)
  also have "\<dots> = round_units (c * 100 * K) 1" using K by (rule round_units_scale)
  also have "\<dots> = f64_of_nat (c * 100)" by (simp only: f64_of_nat_def K_def)
  finally have "magnitude (f64_mul (f64_of_nat c) (f64_of_nat 100)) = c * 100 * K" using mag [OF c] by simp
  then have "f64_div (f64_mul (f64_of_nat c) (f64_of_nat 100)) (f64_of_nat e) = round_units (c * 100 * K * K) (e * K)"
    unfolding f64_div_def K_def [symmetric] using mag [OF e(2)] by simp
  also have "\<dots> = round_units (c * 100 * K) e" using K by (rule round_units_scale)
  finally show ?thesis by (simp only: K_def)
qed

lemma quotient_decode:
  assumes "c \<le> e" "0 < e"
  shows "magnitude (round_units (c * 100 * 2 ^ 1074) e) = rounded (c * 100 * 2 ^ 1074) e"
    and "\<not> f64_negative (round_units (c * 100 * 2 ^ 1074) e)" and "is_finite (round_units (c * 100 * 2 ^ 1074) e)"
    and "rounded (c * 100 * 2 ^ 1074) e \<le> 100 * 2 ^ 1074"
proof -
  define K where "K = (2 :: nat) ^ 1074"
  have le: "c * 100 * K \<le> 100 * K * e" using assms(1) by simp
  then have "c * 100 * K div e \<le> 100 * K * e div e" by (rule div_le_mono)
  also have "\<dots> = 100 * K" using assms(2) by simp
  also have "\<dots> < 2 ^ 53 * K" unfolding K_def by (simp only: mult_less_cancel2 zero_less_power zero_less_numeral) simp
  also have "\<dots> = 2 ^ (53 + 1074)" by (simp only: K_def power_add)
  finally have q: "c * 100 * K div e < 2 ^ (53 + 1074)" .
  note decoded = round_units_decode [OF assms(2) q]
  show "magnitude (round_units (c * 100 * 2 ^ 1074) e) = rounded (c * 100 * 2 ^ 1074) e"
    "\<not> f64_negative (round_units (c * 100 * 2 ^ 1074) e)" "is_finite (round_units (c * 100 * 2 ^ 1074) e)"
    unfolding K_def [symmetric] using decoded by simp_all
  have "rounded (c * 100 * K) e \<le> rounded (100 * K) 1"
    using assms(2) le by (intro rounded_mono) simp_all
  then show "rounded (c * 100 * 2 ^ 1074) e \<le> 100 * 2 ^ 1074"
    using rounded_exact [of 100 1074] by (simp only: K_def) simp
qed

text \<open>C40: For counters up to \<open>2 ^ 53 / 100\<close> the percentage of a gate is the double nearest to
  \<open>100 * covered / eligible\<close>, lies between 0 and 100, and is the value \<open>CoverageCounter::percentage\<close>
  reports.\<close>

theorem percentage_counter_exact:
  assumes "c \<le> e" and "0 < e" and "unat e \<le> 2 ^ 53 div 100"
  shows "\<exists>p. percentage_counter e c name = Inr (Percentage p) \<and>
    counter_percentage \<lparr>eligible = e, covered = c\<rparr> = Some p \<and> f64_le 0 p \<and> f64_le p (f64_of_nat 100) \<and>
    \<bar>units p * int (unat e) - int (unat c * 100 * 2 ^ 1074)\<bar> \<le> \<bar>units y * int (unat e) - int (unat c * 100 * 2 ^ 1074)\<bar>"
proof -
  define p where "p = round_units (unat c * 100 * 2 ^ 1074) (unat e)"
  have n: "unat c \<le> unat e" "0 < unat e" using assms(1,2) by (simp_all add: word_le_nat_alt word_less_nat_alt)
  have small: "unat c * 100 < 2 ^ 53" "unat e < 2 ^ 53" using n(1) assms(3) by simp_all
  note d = quotient_decode [OF n, folded p_def]
  have quotient: "f64_div (f64_mul (f64_of_nat (unat c)) (f64_of_nat 100)) (f64_of_nat (unat e)) = p"
    unfolding p_def by (rule exact_quotient [OF small(1) n(2) small(2)])
  have code: "percentage_counter e c name = Inr (Percentage p)"
    using assms(1,2) d(3) by (simp add: percentage_counter_def validate_counter_def counter_rounds_once quotient not_less)
  have ir: "counter_percentage \<lparr>eligible = e, covered = c\<rparr> = Some p"
    using assms(2) by (simp add: counter_percentage_def u64_as_f64_def quotient)
  have units: "units p = int (rounded (unat c * 100 * 2 ^ 1074) (unat e))" using d(1,2) by (simp only: units_def if_False)
  have hundred: "units (f64_of_nat 100) = int (100 * 2 ^ 1074)" "is_finite (f64_of_nat 100)"
    using f64_of_nat [of 100] by (simp_all only: units_def if_False) simp_all
  have "f64_le p (f64_of_nat 100)"
    using d(4) unfolding f64_le_finite [OF d(3) hundred(2)] units hundred(1) by (simp only: of_nat_le_iff)
  moreover have "f64_le 0 p"
    unfolding f64_le_finite [OF f64_zero(3) d(3)] units by simp
  moreover have "\<bar>units p * int (unat e) - int (unat c * 100 * 2 ^ 1074)\<bar> \<le> \<bar>units y * int (unat e) - int (unat c * 100 * 2 ^ 1074)\<bar>"
    using rounded_nearest [OF n(2), of "unat c * 100 * 2 ^ 1074" y] unfolding units by (simp only: of_nat_mult)
  ultimately show ?thesis using code ir by blast
qed


theorem percentage_counter_exact_witness:
  "\<exists>p. percentage_counter 3 1 ''coverage'' = Inr (Percentage p) \<and> f64_le p (f64_of_nat 100) \<and> f64_le 0 p"
  using percentage_counter_exact [of 1 3 "''coverage''" 0] by auto

text \<open>Beyond that bound the product with 100 is itself rounded, and a complete coverage can read above 100.\<close>

lemma excess_eq: "2 ^ (52 + s) \<le> n \<Longrightarrow> n < 2 ^ (53 + s) \<Longrightarrow> excess n = s"
proof -
  assume n: "2 ^ (52 + s) \<le> n" "n < 2 ^ (53 + s)"
  have "(2 :: nat) ^ (52 + s) < 2 ^ (53 + excess n)" using n(1) excess_bound [of n] by (rule le_less_trans)
  then have "52 + s < 53 + excess n" by (subst (asm) power_strict_increasing_iff) simp_all
  with excess_le [OF n(2)] show ?thesis by simp
qed

lemma percentage_above_hundred:
  "\<exists>p. percentage_counter 450505756232923 450505756232923 name = Inr (Percentage p) \<and> is_finite p \<and> \<not> f64_le p (f64_of_nat 100)"
proof -
  define K where "K = (2 :: nat) ^ 1074"
  have K: "0 < K" by (simp only: K_def zero_less_power zero_less_numeral)
  let ?e = "450505756232923 :: nat" and ?m = "45050575623292304 :: nat"
  have mag: "magnitude (f64_of_nat n) = n * K" if "n < 2 ^ 53" for n
    unfolding K_def using that by (rule f64_of_nat(1))
  have product: "magnitude (f64_mul (f64_of_nat ?e) (f64_of_nat 100)) = ?m * K"
  proof -
    have "f64_mul (f64_of_nat ?e) (f64_of_nat 100) = round_units (?e * 100 * K * K) (1 * K)"
      unfolding f64_mul_def K_def [symmetric] using mag [of ?e] mag [of 100] by (simp add: ac_simps)
    also have "\<dots> = round_units (?e * 100 * K) 1" using K by (rule round_units_scale)
    finally have r: "f64_mul (f64_of_nat ?e) (f64_of_nat 100) = round_units (?e * 100 * K) 1" .
    have split: "(2 :: nat) ^ (52 + 1077) = 2 ^ 55 * K" "(2 :: nat) ^ (53 + 1077) = 2 ^ 56 * K" "(2 :: nat) ^ 1077 = 8 * K"
      unfolding K_def by (simp_all only: power_add [symmetric]) simp_all
    have n: "2 ^ (52 + 1077) \<le> ?e * 100 * K div 1" "?e * 100 * K div 1 < 2 ^ (53 + 1077)"
      unfolding split using K by simp_all
    have "rounded (?e * 100 * K) 1 = half_even (?e * 100 * K) (8 * K) * (8 * K)"
      unfolding rounded_def Let_def excess_eq [OF n] split by simp
    also have "half_even (?e * 100 * K) (8 * K) = half_even (?e * 100) 8" using K by (rule half_even_scale)
    also have "half_even (?e * 100) 8 * (8 * K) = ?m * K" by (simp add: half_even_def)
    finally show ?thesis using round_units_decode(1) [OF zero_less_one n(2)] unfolding r by simp
  qed
  let ?p = "f64_div (f64_mul (f64_of_nat ?e) (f64_of_nat 100)) (f64_of_nat ?e)"
  define L where "L = (2 :: nat) ^ 1028"
  have L: "0 < L" and KL: "K = 2 ^ 46 * L" unfolding L_def K_def by (simp_all only: zero_less_power zero_less_numeral power_add [symmetric]) simp
  have "?p = round_units (?m * K * K) (?e * K)"
    unfolding f64_div_def product K_def [symmetric] using mag [of ?e] by simp
  also have "\<dots> = round_units (?m * K) ?e" using K by (rule round_units_scale)
  finally have p: "?p = round_units (?m * K) ?e" .
  have split: "(2 :: nat) ^ (52 + 1028) = 2 ^ 52 * L" "(2 :: nat) ^ (53 + 1028) = 2 ^ 53 * L" "(2 :: nat) ^ 1028 = L"
    unfolding L_def by (simp_all only: power_add)
  have n: "2 ^ (52 + 1028) \<le> ?m * K div ?e" "?m * K div ?e < 2 ^ (53 + 1028)"
    unfolding split KL using L by (simp_all add: less_eq_div_iff_mult_less_eq div_less_iff_less_mult)
  have "rounded (?m * K) ?e = half_even (?m * 2 ^ 46 * L) (?e * L) * L"
    unfolding rounded_def Let_def excess_eq [OF n] split by (simp only: KL mult.assoc)
  also have "half_even (?m * 2 ^ 46 * L) (?e * L) = half_even (?m * 2 ^ 46) ?e" using L by (rule half_even_scale)
  also have "\<dots> = 100 * 2 ^ 46 + 1" by (simp add: half_even_def)
  finally have "rounded (?m * K) ?e = (100 * 2 ^ 46 + 1) * L" .
  note d = round_units_decode [OF _ n(2), folded p, unfolded this]
  have "units ?p = int ((100 * 2 ^ 46 + 1) * L)" using d(1,2) by (simp add: units_nonneg)
  moreover have "units (f64_of_nat 100) = int (100 * 2 ^ 46 * L)" using mag [of 100] f64_of_nat(2) [of 100] KL by (simp add: units_nonneg)
  ultimately have "\<not> f64_le ?p (f64_of_nat 100)"
    using L d(3) f64_of_nat(3) [of 100] by (simp add: f64_le_finite)
  moreover have "percentage_counter 450505756232923 450505756232923 name = Inr (Percentage ?p)"
    using d(3) by (simp add: percentage_counter_def validate_counter_def counter_rounds_once)
  ultimately show ?thesis using d(3) by auto
qed

end
