(* ===== verification/GateEvaluation.thy ===== *)
theory GateEvaluation
  imports GateNumbers
begin

text \<open>
  What \<open>evaluate_gate\<close> guarantees: its verdict is fail-closed, the report it returns is valid, and
  the service's check of a claimed gate (\<open>crates/hoonarqube-service/src/lib.rs\<close>, modelled here)
  accepts it. The finding inventory behind the new-code metrics is compared exactly.
\<close>

subsection \<open>The service's check of a claimed gate\<close>

datatype api_error = Conflict

definition condition_of :: "'d gate_condition_result \<Rightarrow> gate_condition" where
  "condition_of c = \<lparr>condition_scope = result_scope c, condition_metric = result_metric c,
     condition_operator = result_operator c, condition_threshold = result_threshold c\<rparr>"

text \<open>\<open>PartialEq\<close> of two optional doubles.\<close>

fun same_actual :: "f64 option \<Rightarrow> f64 option \<Rightarrow> bool" where
  "same_actual None None \<longleftrightarrow> True"
| "same_actual (Some x) (Some y) \<longleftrightarrow> f64_eq x y"
| "same_actual _ _ \<longleftrightarrow> False"

definition same_result :: "gate_error gate_condition_result \<Rightarrow> 'd gate_condition_result \<Rightarrow> bool" where
  "same_result expected claimed \<longleftrightarrow> result_scope expected = result_scope claimed \<and>
     result_metric expected = result_metric claimed \<and> result_operator expected = result_operator claimed \<and>
     partial_cmp (result_threshold expected) (result_threshold claimed) = Some Equal \<and>
     same_actual (result_actual expected) (result_actual claimed) \<and> result_status expected = result_status claimed"

definition validate_gate_claim_against_report :: "(bytes \<Rightarrow> bytes) \<Rightarrow> 'd gate_report option \<Rightarrow> ('e, 'p) analysis_report \<Rightarrow> api_error + unit" where
  "validate_gate_claim_against_report sha gate r =
     (case gate of None \<Rightarrow> Inr ()
      | Some g \<Rightarrow>
          and_then (map_err (\<lambda>_. Conflict) (validate_gate g)) (\<lambda>_.
          let config = \<lparr>config_version = GATE_CONFIG_SCHEMA_VERSION, config_conditions = map condition_of (gate_results g)\<rparr>;
              evaluated = evaluate_gate sha config r in
          check (\<not> (gate_version evaluated \<noteq> gate_version g \<or> gate_status_of evaluated \<noteq> gate_status_of g \<or>
              length (gate_results evaluated) \<noteq> length (gate_results g) \<or>
              (\<exists>(e, c) \<in> set (zip (gate_results evaluated) (gate_results g)). \<not> same_result e c))) Conflict))"

subsection \<open>The verdict of one condition\<close>

text \<open>The value a condition is judged by, when there is one.\<close>

definition condition_value :: "(bytes \<Rightarrow> bytes) \<Rightarrow> ('d, 'p) analysis_report \<Rightarrow> gate_condition \<Rightarrow> metric_value option" where
  "condition_value sha r c =
     (case validate_condition c of Inl _ \<Rightarrow> None | Inr _ \<Rightarrow>
       (case (case condition_scope c of Overall \<Rightarrow> overall_metric (condition_metric c) r
              | NewCode \<Rightarrow> new_code_metric sha (condition_metric c) r) of
          Inl _ \<Rightarrow> None
        | Inr v \<Rightarrow> if value_is_finite v then Some v else None))"

lemma evaluated_fields:
  "result_scope (evaluate_condition sha c r) = condition_scope c"
  "result_metric (evaluate_condition sha c r) = condition_metric c"
  "result_operator (evaluate_condition sha c r) = condition_operator c"
  "result_threshold (evaluate_condition sha c r) = safe_threshold (condition_threshold c)"
  by (simp_all add: evaluate_condition_def condition_result_def split: sum.splits)

lemma evaluated_value:
  "result_actual (evaluate_condition sha c r) = map_option value_as_f64 (condition_value sha r c)"
  "result_status (evaluate_condition sha c r) = (case condition_value sha r c of None \<Rightarrow> Unavailable
     | Some v \<Rightarrow> if value_meets v (condition_operator c) (condition_threshold c) then Pass else Fail)"
  by (simp_all add: evaluate_condition_def condition_result_def condition_value_def and_then_def split: sum.splits)



definition sample_analysis :: "(unit, unit) analysis_report" where
  "sample_analysis = \<lparr>analysis_version = 1, analysis_files = [],
     analysis_project = \<lparr>project_metrics_of = \<lparr>project_file_count = 1, project_lines = 2, project_code_lines = 1, project_comment_lines = 1\<rparr>,
       project_files = [], project_duplications = [], project_duplication = None, project_complete = True,
       project_warnings = [], project_roots = []\<rparr>,
     analysis_assessment = None, analysis_parity = None\<rparr>"

definition sample_condition :: "gate_scope \<Rightarrow> gate_operator \<Rightarrow> gate_condition" where
  "sample_condition scope operator = \<lparr>condition_scope = scope, condition_metric = ''files'', condition_operator = operator,
     condition_threshold = 0\<rparr>"

lemma sample_value:
  "condition_value sha sample_analysis (sample_condition Overall operator) = Some (Count 1)"
  "condition_value sha sample_analysis (sample_condition NewCode operator) = None"
  by (simp_all add: condition_value_def validate_condition_def sample_condition_def f64_less_def partial_cmp_def SUPPORTED_METRICS_def
      metric_supported_def overall_metric_def new_code_metric_def complete_new_code_def sample_analysis_def value_is_finite_def
      cmp_def)


subsection \<open>Evaluated gates are valid artifacts\<close>

lemma round_units_nonneg: "\<not> f64_negative (round_units n d)"
proof -
  define b where "b = excess (n div d) * 2 ^ 52 + half_even n (d * 2 ^ excess (n div d))"
  have "round_units n d = (if b < 2047 * 2 ^ 52 then of_nat b else f64_infinity)"
    by (simp only: round_units_def Let_def b_def)
  then show ?thesis by (simp add: f64_negative_def f64_infinity_def unat_of_nat)
qed

lemma not_less_zero: "\<not> f64_negative x \<Longrightarrow> \<not> f64_less x 0"
  by (simp add: f64_less_def partial_cmp_def units_def)

lemma percentage_counter_sign: "percentage_counter e c name = Inr (Percentage p) \<Longrightarrow> \<not> f64_less p 0"
  using round_units_nonneg
  by (auto simp: percentage_counter_def result_iffs Let_def f64_div_def not_less_zero split: if_splits)

lemma density_sign: "f64_le 0 p \<Longrightarrow> \<not> f64_less p 0"
  by (auto simp: f64_le_def f64_less_def partial_cmp_def)

lemma metric_sign:
  "overall_metric m r = Inr (Percentage p) \<Longrightarrow> \<not> f64_less p 0"
  "new_code_metric sha m r = Inr (Percentage p) \<Longrightarrow> \<not> f64_less p 0"
  by (auto simp: overall_metric_def new_code_metric_def duplication_counter_def result_iffs Let_def
      dest: percentage_counter_sign density_sign split: if_splits)

lemma condition_value_sign:
  assumes "condition_value sha r c = Some v"
  shows "is_finite (value_as_f64 v)" and "\<not> f64_less (value_as_f64 v) 0"
proof -
  have v: "value_is_finite v" and m: "overall_metric (condition_metric c) r = Inr v \<or> new_code_metric sha (condition_metric c) r = Inr v"
    using assms by (auto simp: condition_value_def split: sum.splits if_splits gate_scope.splits)
  have n: "unat n < 2 ^ 64" for n :: u64 using unsigned_less [of n] by simp
  show "is_finite (value_as_f64 v)"
    using v round_nat_decode(3) [OF n] by (cases v) (simp_all add: value_as_f64_def value_is_finite_def counter_rounds_once)
  show "\<not> f64_less (value_as_f64 v) 0"
    using m round_nat_decode(2) [OF n]
    by (cases v) (auto simp: value_as_f64_def counter_rounds_once not_less_zero dest: metric_sign)
qed

text \<open>The status fold of the validator on conditions that validate one by one.\<close>

lemma results_status_Inr:
  "(\<And>c. c \<in> set cs \<Longrightarrow> validate_result c = Inr ()) \<Longrightarrow> results_status cs status =
     Inr (if status = Unavailable \<or> (\<exists>c \<in> set cs. result_status c = Unavailable) then Unavailable
          else if status = Fail \<or> (\<exists>c \<in> set cs. result_status c = Fail) then Fail else status)"
proof (induction cs arbitrary: status)
  case (Cons c cs)
  then show ?case by (cases "result_status c"; cases status) (auto simp: combine_status_def)
qed (cases status; simp)


lemma supported_not_blank: "m \<in> set SUPPORTED_METRICS \<Longrightarrow> \<not> is_blank m"
  by (auto simp: SUPPORTED_METRICS_def)

lemma safe_finite: "is_finite x \<Longrightarrow> safe_threshold x = x"
  by (simp add: safe_threshold_def)

lemma evaluated_valid:
  assumes "validate_condition c = Inr ()"
  shows "validate_result (evaluate_condition sha c r) = Inr ()" and "validate_result (unavailable_condition c d) = Inr ()"
proof -
  from assms have c: "is_finite (condition_threshold c)" "\<not> f64_less (condition_threshold c) 0" "\<not> is_blank (condition_metric c)"
    by (auto simp: validate_condition_def result_iffs supported_not_blank)
  show "validate_result (evaluate_condition sha c r) = Inr ()"
    using c condition_value_sign [of sha r c]
    by (cases "condition_value sha r c") (auto simp: validate_result_def evaluated_fields evaluated_value safe_finite)
  show "validate_result (unavailable_condition c d) = Inr ()"
    using c by (simp add: validate_result_def unavailable_condition_def condition_result_def safe_finite)
qed

lemma evaluated_conditions:
  assumes "validate_condition c = Inr ()"
  shows "condition_of (evaluate_condition sha c r) = c" and "condition_of (unavailable_condition c d) = c"
proof -
  from assms have "is_finite (condition_threshold c)" by (auto simp: validate_condition_def result_iffs)
  then show "condition_of (evaluate_condition sha c r) = c" "condition_of (unavailable_condition c d) = c"
    by (simp_all add: condition_of_def evaluated_fields safe_finite unavailable_condition_def condition_result_def)
qed

lemma same_result_refl: "validate_result c = Inr () \<Longrightarrow> same_result c c"
proof -
  assume "validate_result c = Inr ()"
  then have "is_finite (result_threshold c)" "\<And>a. result_actual c = Some a \<Longrightarrow> is_finite a"
    by (auto simp: validate_result_def result_iffs)
  moreover have "partial_cmp x x = Some Equal" if "is_finite x" for x
    using that by (simp add: partial_cmp_def cmp_def)
  ultimately show ?thesis
    by (cases "result_actual c") (auto simp: same_result_def f64_eq_def)
qed

text \<open>C22: For a configuration that validates, the gate \<open>evaluate_gate\<close> returns passes \<open>GateReport::validate\<close>,
  and the service accepts it as a claim against the same analysis report: re-evaluating the conditions recorded
  in the gate gives the same verdict.\<close>

theorem evaluate_gate_accepted:
  assumes "validate_config config = Inr ()"
  shows "validate_gate (evaluate_gate sha config r) = Inr () \<and>
    validate_gate_claim_against_report sha (Some (evaluate_gate sha config r)) r = Inr ()"
proof -
  let ?g = "evaluate_gate sha config r"
  from assms have v: "config_version config = GATE_CONFIG_SCHEMA_VERSION" and ne: "config_conditions config \<noteq> []"
    and c: "\<And>c. c \<in> set (config_conditions config) \<Longrightarrow> validate_condition c = Inr ()"
    by (auto simp: validate_config_def result_iffs)
  have results: "\<And>x. x \<in> set (gate_results ?g) \<Longrightarrow> validate_result x = Inr ()"
    using c by (auto simp: evaluate_gate_def unavailable_report_def Let_def evaluated_valid split: if_splits)
  have same: "map condition_of (gate_results ?g) = config_conditions config"
    using c by (auto simp: evaluate_gate_def unavailable_report_def Let_def evaluated_conditions intro!: map_idI)
  have "gate_results ?g \<noteq> []" using same ne by force
  then have "results_status (gate_results ?g) (if gate_results ?g = [] then Unavailable else Pass) = Inr (gate_status_of ?g)"
    using results_status_Inr [of "gate_results ?g" Pass, OF results] v ne
    by (auto simp: evaluate_gate_def unavailable_report_def unavailable_condition_def condition_result_def Let_def)
  then have valid: "validate_gate ?g = Inr ()"
    by (simp add: validate_gate_def) (simp add: evaluate_gate_def unavailable_report_def GATE_REPORT_SCHEMA_VERSION_def Let_def)
  have "config = \<lparr>config_version = GATE_CONFIG_SCHEMA_VERSION, config_conditions = map condition_of (gate_results ?g)\<rparr>"
    using same v by simp
  then have again: "evaluate_gate sha \<lparr>config_version = GATE_CONFIG_SCHEMA_VERSION,
      config_conditions = map condition_of (gate_results ?g)\<rparr> r = ?g" by simp
  have "\<forall>(e, c) \<in> set (zip (gate_results ?g) (gate_results ?g)). same_result e c"
    using results same_result_refl by (auto simp: zip_same)
  then have "validate_gate_claim_against_report sha (Some ?g) r = Inr ()"
    by (auto simp: validate_gate_claim_against_report_def valid again Let_def result_iffs)
  with valid show ?thesis by blast
qed

theorem evaluate_gate_accepted_witness:
  "validate_gate_claim_against_report sample_sha
     (Some (evaluate_gate sample_sha \<lparr>config_version = 1, config_conditions = [sample_condition Overall Gt]\<rparr> sample_analysis))
     sample_analysis = Inr ()"
proof -
  have "validate_config \<lparr>config_version = 1, config_conditions = [sample_condition Overall Gt]\<rparr> = Inr ()"
    by (simp add: validate_config_def GATE_CONFIG_SCHEMA_VERSION_def validate_condition_def sample_condition_def f64_less_def
        partial_cmp_def SUPPORTED_METRICS_def metric_supported_def cmp_def)
  from evaluate_gate_accepted [OF this] show ?thesis by blast
qed

end
