(* ===== verification/GateScopes.thy ===== *)
theory GateScopes
  imports GateEvaluation
begin

text \<open>
  The new-code scope of the gates: the findings of the baseline must be exactly the current findings,
  the changed lines are collected without loss, and duplication in the new code is the set of changed
  lines inside a duplicated range.
\<close>

subsection \<open>Findings of the new code\<close>

definition source_keys :: "'d assessment_report \<Rightarrow> finding_key list" where
  "source_keys a = concat (map (\<lambda>s. map (\<lambda>f. (path_key (snapshot_path s), issue_index f, identity f)) (snapshot_findings s))
     (assessment_sources a))"

definition match_keys :: "new_code_report \<Rightarrow> finding_key list" where
  "match_keys n = map (\<lambda>f. (path_key (match_path f), match_index f, match_identity f)) (new_code_findings n)"

lemma expected_source_Inr_iff:
  "expected_source p fs E = Inr E' \<longleftrightarrow>
     (let ks = map (\<lambda>f. (path_key p, issue_index f, identity f)) fs in distinct ks \<and> set ks \<inter> E = {} \<and> E' = E \<union> set ks)"
  by (induction fs arbitrary: E) (auto simp: result_iffs Let_def)

lemma expected_findings_Inr_iff:
  "expected_findings ss E = Inr E' \<longleftrightarrow>
     (let ks = concat (map (\<lambda>s. map (\<lambda>f. (path_key (snapshot_path s), issue_index f, identity f)) (snapshot_findings s)) ss)
      in distinct ks \<and> set ks \<inter> E = {} \<and> E' = E \<union> set ks)"
proof (induction ss arbitrary: E)
  case (Cons s ss)
  let ?k = "map (\<lambda>f. (path_key (snapshot_path s), issue_index f, identity f)) (snapshot_findings s)"
  let ?ks = "concat (map (\<lambda>s. map (\<lambda>f. (path_key (snapshot_path s), issue_index f, identity f)) (snapshot_findings s)) ss)"
  have "expected_findings (s # ss) E = Inr E' \<longleftrightarrow> distinct ?k \<and> set ?k \<inter> E = {} \<and>
      distinct ?ks \<and> set ?ks \<inter> (E \<union> set ?k) = {} \<and> E' = E \<union> set ?k \<union> set ?ks"
    by (simp only: expected_findings.simps and_then_Inr_iff expected_source_Inr_iff Cons.IH Let_def) blast
  also have "\<dots> \<longleftrightarrow> distinct (?k @ ?ks) \<and> set (?k @ ?ks) \<inter> E = {} \<and> E' = E \<union> set (?k @ ?ks)"
    unfolding distinct_append set_append by blast
  finally show ?case by (simp only: Let_def list.map concat.simps)
qed auto

lemma observed_findings_Inr_iff:
  "observed_findings fs E S = Inr S' \<longleftrightarrow>
     (let ks = map (\<lambda>f. (path_key (match_path f), match_index f, match_identity f)) fs
      in distinct ks \<and> set ks \<inter> S = {} \<and> set ks \<subseteq> E \<and> S' = S \<union> set ks)"
  by (induction fs arbitrary: S) (auto simp: result_iffs Let_def)

text \<open>\<open>validate_current_finding_matches\<close> accepts a new-code report exactly when its findings are the
  findings of the current sources, each once: none duplicated, none unknown, none omitted.\<close>

lemma finding_matches_exact:
  "validate_current_finding_matches a n = Inr () \<longleftrightarrow>
     distinct (source_keys a) \<and> distinct (match_keys n) \<and> set (match_keys n) = set (source_keys a)"
  by (auto simp: validate_current_finding_matches_def result_iffs expected_findings_Inr_iff observed_findings_Inr_iff
      Let_def simp flip: source_keys_def match_keys_def)

subsection \<open>Changed lines\<close>

definition lines_at :: "line_sets \<Rightarrow> component list \<Rightarrow> u32 set" where
  "lines_at m k = (case map_of m k of None \<Rightarrow> {} | Some (p, lines) \<Rightarrow> lines)"

definition changed :: "new_code_lines list \<Rightarrow> (component list \<times> u32) set" where
  "changed es = {(k, l). \<exists>e \<in> set es. k = path_key (new_path e) \<and> l \<in> set (new_lines e)}"

lemma insert_lines_Inr_iff: "insert_lines ls L = Inr L' \<longleftrightarrow> 0 \<notin> set ls \<and> L' = set ls \<union> L"
  by (induction ls arbitrary: L) (auto simp: result_iffs)

lemma lines_at_put: "lines_at (bt_put k (p, L) m) j = (if j = k then L else lines_at m j)"
  by (simp add: lines_at_def)

lemma collect_line_sets_Inr:
  "collect_line_sets es m = Inr m' \<Longrightarrow> bt_ok m \<Longrightarrow> bt_ok m' \<and> (\<forall>k. lines_at m' k = lines_at m k \<union> {l. (k, l) \<in> changed es})"
proof (induction es arbitrary: m)
  case Nil
  then show ?case by (simp add: changed_def)
next
  case (Cons e es)
  let ?k = "path_key (new_path e)"
  obtain p L where v: "(case map_of m ?k of None \<Rightarrow> (new_path e, {}) | Some v \<Rightarrow> v) = (p, L)" by fastforce
  then have L: "lines_at m ?k = L" by (auto simp: lines_at_def split: option.splits)
  from Cons.prems(1) have "collect_line_sets es (bt_put ?k (p, set (new_lines e) \<union> L) m) = Inr m'"
    by (auto simp: v result_iffs insert_lines_Inr_iff)
  from Cons.IH [OF this] Cons.prems(2) show ?case
    by (auto simp: lines_at_put L changed_def)
qed

lemma lines_at_filter: "bt_ok m \<Longrightarrow> lines_at (filter (\<lambda>(k, p, L). L \<noteq> {}) m) k = lines_at m k"
proof (induction m)
  case (Cons x m)
  have "map_of (filter (\<lambda>(k, p, L). L \<noteq> {}) m) (fst x) = None"
    using Cons.prems by (force simp: map_of_eq_None_iff)
  with Cons show ?case by (cases x) (auto simp: lines_at_def)
qed (simp add: lines_at_def)

lemma new_code_line_sets_Inr:
  assumes "new_code_line_sets n = Inr sets"
  shows "bt_ok sets" and "(k, l) \<in> changed (new_code_line_list n) \<longleftrightarrow> l \<in> lines_at sets k"
    and "(k, p, L) \<in> set sets \<Longrightarrow> L \<noteq> {}"
proof -
  from assms obtain m where m: "collect_line_sets (new_code_line_list n) [] = Inr m"
    and s: "sets = filter (\<lambda>(k, p, L). L \<noteq> {}) m" by (auto simp: new_code_line_sets_def result_iffs)
  from collect_line_sets_Inr [OF m] have ok: "bt_ok m" "\<And>k. lines_at m k = {l. (k, l) \<in> changed (new_code_line_list n)}"
    by (simp_all add: lines_at_def)
  show "(k, l) \<in> changed (new_code_line_list n) \<longleftrightarrow> l \<in> lines_at sets k"
    by (simp add: s lines_at_filter [OF ok(1)] ok(2))
  show "bt_ok sets" using ok(1) unfolding s by (simp add: sorted_wrt_map sorted_wrt_filter)
  show "(k, p, L) \<in> set sets \<Longrightarrow> L \<noteq> {}" by (simp add: s)
qed

lemma card_lines_at:
  assumes "bt_ok m"
  shows "card {(k, l). l \<in> lines_at m k} = (\<Sum>(k, p, L)\<leftarrow>m. card L)" and "finite {(k, l). l \<in> lines_at m k}"
proof -
  have "card {(k, l). l \<in> lines_at m k} = (\<Sum>(k, p, L)\<leftarrow>m. card L) \<and> finite {(k, l). l \<in> lines_at m k}"
    using assms
  proof (induction m)
    case Nil
    then show ?case by (simp add: lines_at_def)
  next
    case (Cons x m)
    obtain j p L where x: "x = (j, p, L)" by (cases x) auto
    have "map_of m j = None" using Cons.prems by (force simp: x map_of_eq_None_iff)
    then have j: "lines_at m j = {}" by (simp add: lines_at_def)
    have "{(k, l). l \<in> lines_at (x # m) k} = Pair j ` L \<union> {(k, l). l \<in> lines_at m k}"
      using j by (auto simp: x lines_at_def split: if_splits)
    moreover have "Pair j ` L \<inter> {(k, l). l \<in> lines_at m k} = {}" using j by auto
    moreover have "finite (Pair j ` L)" "card (Pair j ` L) = card L" by (simp_all add: card_image inj_on_def)
    ultimately show ?case using Cons by (simp add: x card_Un_disjoint)
  qed
  then show "card {(k, l). l \<in> lines_at m k} = (\<Sum>(k, p, L)\<leftarrow>m. card L)" "finite {(k, l). l \<in> lines_at m k}" by auto
qed


subsection \<open>Counting the changed lines\<close>

lemma count_lines_Inr: "count_lines p fl ls d = Inr c \<Longrightarrow> unat c = unat d + length ls \<and> (\<forall>l \<in> set ls. ucast l \<le> fl)"
  by (induction ls arbitrary: d) (auto simp: result_iffs checked_add_Some_iff not_less)

lemma count_line_sets_Inr:
  "count_line_sets ms sets d = Inr c \<Longrightarrow> unat c = unat d + (\<Sum>(k, p, L)\<leftarrow>sets. card L) \<and>
     (\<forall>(k, p, L) \<in> set sets. \<exists>q m metrics. map_of ms k = Some (q, m) \<and> measured_class m \<in> {Source, Test} \<and>
        measured_status m = Measured \<and> measured_metrics m = Some metrics \<and> (\<forall>l \<in> L. l \<le> metric_lines metrics))"
proof (induction sets arbitrary: d)
  case (Cons x sets)
  obtain k p L where x: "x = (k, p, L)" by (cases x) auto
  from Cons.prems obtain q m metrics c' where m: "map_of ms k = Some (q, m)" "measured_class m \<in> {Source, Test}"
    "measured_status m = Measured" "measured_metrics m = Some metrics"
    and c': "count_lines p (ucast (metric_lines metrics)) (sorted_list_of_set L) d = Inr c'" "count_line_sets ms sets c' = Inr c"
    by (auto simp: x result_iffs)
  have "finite L" by simp
  then have "unat c' = unat d + card L" and le: "\<forall>l \<in> L. ucast l \<le> (ucast (metric_lines metrics) :: u64)"
    using count_lines_Inr [OF c'(1)] by simp_all
  moreover have "l \<le> metric_lines metrics" if "l \<in> L" for l
  proof -
    have up: "unat (ucast w :: u64) = unat w" for w :: u32
    proof -
      have "unat w < 2 ^ LENGTH(32)" by (rule unsigned_less)
      then have "unat w < 2 ^ 64" by simp
      then show ?thesis unfolding unsigned_ucast_eq by (simp add: take_bit_nat_eq_self)
    qed
    show ?thesis using le that by (simp add: word_le_nat_alt up)
  qed
  ultimately show ?case using Cons.IH [OF c'(2)] m by (auto simp: x)
qed simp

text \<open>The new-code \<open>lines\<close> metric counts every changed line of the baseline once, however the
  report lists it, without 64-bit overflow, and is derived only when every changed file is a measured source or
  test file that has these lines.\<close>

theorem new_code_lines_counted:
  assumes "new_code_line_sets n = Inr sets" and "validate_new_line_sets ms sets = Inr c"
  shows "unat c = card (changed (new_code_line_list n)) \<and>
    (\<forall>(k, l) \<in> changed (new_code_line_list n). \<exists>q m metrics. map_of ms k = Some (q, m) \<and>
       measured_class m \<in> {Source, Test} \<and> measured_status m = Measured \<and> measured_metrics m = Some metrics \<and>
       l \<le> metric_lines metrics)"
proof -
  note s = new_code_line_sets_Inr [OF assms(1)]
  have changed: "changed (new_code_line_list n) = {(k, l). l \<in> lines_at sets k}" using s(2) by auto
  note c = count_line_sets_Inr [OF assms(2) [unfolded validate_new_line_sets_def]]
  have "\<exists>q m metrics. map_of ms k = Some (q, m) \<and> measured_class m \<in> {Source, Test} \<and> measured_status m = Measured \<and>
      measured_metrics m = Some metrics \<and> l \<le> metric_lines metrics"
    if "l \<in> lines_at sets k" for k l
  proof -
    from that obtain p L where L: "map_of sets k = Some (p, L)" "l \<in> L" by (auto simp: lines_at_def split: option.splits)
    then have "(k, p, L) \<in> set sets" using bt_get_iff [OF s(1)] by simp
    with c L(2) show ?thesis by fast
  qed
  then show ?thesis using c card_lines_at(1) [OF s(1)] by (auto simp: changed)
qed

definition sample_new_code :: new_code_report where
  "sample_new_code = \<lparr>new_code_version = 3, new_code_status = Complete, reference_context = None, new_code_findings = [],
     resolved = [], new_code_line_list = [\<lparr>new_path = ''a.py'', new_lines = [1, 2]\<rparr>, \<lparr>new_path = ''a.py'', new_lines = [2]\<rparr>],
     new_code_diagnostics = []\<rparr>"

definition sample_measurement :: project_file_measurement where
  "sample_measurement = \<lparr>measured_path = ''a.py'', measured_class = Source, measured_status = Measured,
     measured_metrics = Some \<lparr>metric_lines = 2, metric_code_lines = 2, metric_comment_lines = 0\<rparr>,
     measured_duplication = None, measured_reason = None\<rparr>"

lemma sample_sets:
  "new_code_line_sets sample_new_code = Inr [(path_key ''a.py'', ''a.py'', {1, 2})]"
  "validate_new_line_sets [(path_key ''a.py'', ''a.py'', sample_measurement)] [(path_key ''a.py'', ''a.py'', {1, 2})] = Inr 2"
proof -
  show "new_code_line_sets sample_new_code = Inr [(path_key ''a.py'', ''a.py'', {1, 2})]"
    by (simp add: new_code_line_sets_def sample_new_code_def insert_commute)
  have "sorted_list_of_set {1, 2 :: u32} = [1, 2]" by simp
  then show "validate_new_line_sets [(path_key ''a.py'', ''a.py'', sample_measurement)] [(path_key ''a.py'', ''a.py'', {1, 2})] = Inr 2"
    by (simp add: validate_new_line_sets_def sample_measurement_def checked_add_def)
qed

theorem new_code_lines_counted_witness: "card (changed (new_code_line_list sample_new_code)) = 2"
  using new_code_lines_counted [OF sample_sets] by simp

subsection \<open>Duplication in the new code\<close>

definition occurrence_covers :: "duplicate_occurrence \<Rightarrow> component list \<Rightarrow> u32 \<Rightarrow> bool" where
  "occurrence_covers c k l \<longleftrightarrow> (\<exists>q. normalize_path (occurrence_path c) = Inr q \<and> k = path_key q) \<and>
     occurrence_start_line c \<le> l \<and> l \<le> occurrence_end_line c"

lemma collect_scoped_Inr:
  "collect_scoped cs sets acc = Inr acc' \<Longrightarrow>
     scoped_lines acc' = scoped_lines acc \<union> {(k, l). l \<in> lines_at sets k \<and> (\<exists>c \<in> set cs. occurrence_covers c k l)} \<and>
     scoped_files acc' = scoped_files acc \<union> {k. \<exists>l \<in> lines_at sets k. \<exists>c \<in> set cs. occurrence_covers c k l}"
proof (induction cs arbitrary: acc)
  case (Cons c cs)
  then obtain acc1 where 1: "collect_scoped_occurrence c sets acc = Inr acc1" and 2: "collect_scoped cs sets acc1 = Inr acc'"
    by (auto simp: result_iffs)
  from 1 obtain q where q: "normalize_path (occurrence_path c) = Inr q"
    by (auto simp: collect_scoped_occurrence_def result_iffs)
  have covers: "occurrence_covers c k l \<longleftrightarrow> k = path_key q \<and> l \<in> {occurrence_start_line c..occurrence_end_line c}" for k l
    by (auto simp: occurrence_covers_def q)
  have "scoped_lines acc1 = scoped_lines acc \<union> {(k, l). l \<in> lines_at sets k \<and> occurrence_covers c k l} \<and>
     scoped_files acc1 = scoped_files acc \<union> {k. \<exists>l \<in> lines_at sets k. occurrence_covers c k l}"
  proof (cases "{occurrence_start_line c..occurrence_end_line c} \<inter> lines_at sets (path_key q) = {}")
    case True
    then have "acc1 = acc" using 1 q
      by (auto simp: collect_scoped_occurrence_def result_iffs lines_at_def Let_def split: option.splits prod.splits if_splits)
    moreover have "\<not> (l \<in> lines_at sets k \<and> occurrence_covers c k l)" for k l
      unfolding covers using True by blast
    ultimately show ?thesis by auto
  next
    case False
    then obtain p L where L: "map_of sets (path_key q) = Some (p, L)" by (auto simp: lines_at_def split: option.splits)
    then have at: "lines_at sets (path_key q) = L" by (simp add: lines_at_def)
    have "scoped_lines acc1 = (\<lambda>l. (path_key q, l)) ` ({occurrence_start_line c..occurrence_end_line c} \<inter> L) \<union> scoped_lines acc"
      "scoped_files acc1 = insert (path_key q) (scoped_files acc)"
      using 1 q False L by (auto simp: collect_scoped_occurrence_def result_iffs at Let_def split: if_splits)
    moreover have "{(k, l). l \<in> lines_at sets k \<and> occurrence_covers c k l} =
        (\<lambda>l. (path_key q, l)) ` ({occurrence_start_line c..occurrence_end_line c} \<inter> L)"
      unfolding covers using at by auto
    moreover have "{k. \<exists>l \<in> lines_at sets k. occurrence_covers c k l} = {path_key q}"
      unfolding covers using at False by blast
    ultimately show ?thesis by auto
  qed
  then show ?case using Cons.IH [OF 2] by auto
qed simp



lemma finite_changed: "finite (changed es)"
proof -
  have "changed es \<subseteq> (\<Union>e \<in> set es. Pair (path_key (new_path e)) ` set (new_lines e))" by (auto simp: changed_def)
  then show ?thesis by (rule finite_subset) simp
qed

text \<open>C23: The new-code \<open>duplicated_lines\<close> and \<open>duplicated_files\<close> metrics count exactly the changed
  lines that lie inside some duplicated range of their file, and the files with such a line; path aliases and
  overlapping ranges are counted once, and no more lines are duplicated than were changed.\<close>

theorem scoped_duplication_exact:
  assumes "new_code_line_sets n = Inr sets" and "scope_duplication r ms sets = Inr d"
  shows "unat (scoped_duplicated_lines d) = card {(k, l) \<in> changed (new_code_line_list n).
      \<exists>g \<in> set (project_duplications (analysis_project r)). \<exists>c \<in> set (occurrences g). occurrence_covers c k l} \<and>
    unat (scoped_duplicated_files d) = card {k. \<exists>l. (k, l) \<in> changed (new_code_line_list n) \<and>
      (\<exists>g \<in> set (project_duplications (analysis_project r)). \<exists>c \<in> set (occurrences g). occurrence_covers c k l)} \<and>
    unat (scoped_duplicated_lines d) \<le> card (changed (new_code_line_list n))"
proof -
  let ?cs = "concat (map occurrences (project_duplications (analysis_project r)))"
  let ?changed = "changed (new_code_line_list n)"
  note s = new_code_line_sets_Inr [OF assms(1)]
  from assms(2) obtain c acc where c: "validate_new_line_sets ms sets = Inr c"
    and acc: "collect_scoped ?cs sets \<lparr>scoped_lines = {}, scoped_blocks = {}, scoped_files = {}\<rparr> = Inr acc"
    and d: "scoped_duplicated_lines d = usize_as_u64 (card (scoped_lines acc))"
      "scoped_duplicated_files d = usize_as_u64 (card (scoped_files acc))"
    by (auto simp: scope_duplication_def result_iffs)
  define D where "D = {(k, l) \<in> ?changed. \<exists>c \<in> set ?cs. occurrence_covers c k l}"
  have lines: "scoped_lines acc = D" and files: "scoped_files acc = fst ` D"
    using collect_scoped_Inr [OF acc] s(2) by (force simp: D_def)+
  have sub: "D \<subseteq> ?changed" by (auto simp: D_def)
  have le: "card D \<le> card ?changed" by (rule card_mono [OF finite_changed sub])
  have "finite D" using sub finite_changed by (rule finite_subset)
  then have le2: "card (fst ` D) \<le> card D" by (rule card_image_le)
  have "unat c = card ?changed"
  proof -
    have "?changed = {(k, l). l \<in> lines_at sets k}" using s(2) by auto
    then show ?thesis
      using count_line_sets_Inr [OF c [unfolded validate_new_line_sets_def]] card_lines_at(1) [OF s(1)] by simp
  qed
  moreover have "unat c < 2 ^ LENGTH(64)" by (rule unsigned_less)
  ultimately have small: "card ?changed < 2 ^ 64" by simp
  have exact: "unat (usize_as_u64 m) = m" if "m < 2 ^ 64" for m
    using that by (simp add: usize_as_u64_def unat_of_nat)
  have "unat (scoped_duplicated_lines d) = card D" "unat (scoped_duplicated_files d) = card (fst ` D)"
    unfolding d lines files using le le2 small by (simp_all add: exact)
  moreover have "D = {(k, l) \<in> ?changed.
      \<exists>g \<in> set (project_duplications (analysis_project r)). \<exists>c \<in> set (occurrences g). occurrence_covers c k l}"
    by (auto simp: D_def)
  moreover have "fst ` D = {k. \<exists>l. (k, l) \<in> ?changed \<and>
      (\<exists>g \<in> set (project_duplications (analysis_project r)). \<exists>c \<in> set (occurrences g). occurrence_covers c k l)}"
    by (force simp: D_def)
  ultimately show ?thesis using le by simp
qed

definition sample_duplication :: "(unit, unit) analysis_report" where
  "sample_duplication = sample_analysis\<lparr>analysis_project := (analysis_project sample_analysis)
     \<lparr>project_duplication := Some \<lparr>duplicated_lines = 1, duplicated_blocks = 1, duplicated_files = 1, duplicated_lines_density = None\<rparr>,
      project_duplications := [\<lparr>group_language = ''python'', occurrences = [\<lparr>occurrence_path = ''./a.py'',
        occurrence_start_line = 2, occurrence_end_line = 3, occurrence_start_byte = 0, occurrence_end_byte = 9\<rparr>]\<rparr>]\<rparr>\<rparr>"

theorem scoped_duplication_exact_witness:
  "\<exists>d. scope_duplication sample_duplication [(path_key ''a.py'', ''a.py'', sample_measurement)]
      [(path_key ''a.py'', ''a.py'', {1, 2})] = Inr d \<and> unat (scoped_duplicated_lines d) \<le> 2"
proof -
  have "normalize_path ''./a.py'' = Inr ''a.py''" "measured_duplication sample_measurement = None"
    by code_simp (simp add: sample_measurement_def)
  then have "\<exists>d. scope_duplication sample_duplication [(path_key ''a.py'', ''a.py'', sample_measurement)]
      [(path_key ''a.py'', ''a.py'', {1, 2})] = Inr d"
    by (auto simp: scope_duplication_def complete_duplication_def sample_duplication_def sample_analysis_def sample_sets
        duplication_line_denominator_def collect_scoped_occurrence_def Let_def)
  then obtain d where d: "scope_duplication sample_duplication [(path_key ''a.py'', ''a.py'', sample_measurement)]
      [(path_key ''a.py'', ''a.py'', {1, 2})] = Inr d" by blast
  have "card (changed (new_code_line_list sample_new_code)) \<le> 2"
  proof -
    have "changed (new_code_line_list sample_new_code) = {(path_key ''a.py'', 1), (path_key ''a.py'', 2)}"
      by (auto simp: changed_def sample_new_code_def)
    then show ?thesis by (simp add: card_insert_if)
  qed
  with scoped_duplication_exact [OF sample_sets(1) d] d show ?thesis by auto
qed

end
