(* ===== verification/LineAlignment.thy ===== *)
theory LineAlignment
  imports Findings
begin

text \<open>
  The line alignment of \<open>crates/hoonarqube-core/src/assessment/baseline.rs\<close>: longest common
  subsequences of line digests by dynamic programming over flat matrices, and the decision which
  lines of a changed file are new. Lines are compared by their digests, of any type \<open>'a\<close> here;
  the tables hold \<open>u32\<close> values and are indexed with checks, so \<open>None\<close> is a panic. The
  specification is the set of alignments: order-preserving matchings of equal lines.
\<close>

subsection \<open>Bounded work\<close>

definition MAX_ALIGNMENT_CELLS :: nat where
  "MAX_ALIGNMENT_CELLS = 4000000"

definition matrix_cells :: "nat \<Rightarrow> nat \<Rightarrow> string + nat" where
  "matrix_cells left_len right_len =
     and_then (ok_or (do { l \<leftarrow> usize_checked (left_len + 1); r \<leftarrow> usize_checked (right_len + 1); usize_checked (l * r) })
       ''baseline alignment matrix size overflows'') (\<lambda>cells.
     and_then (check (\<not> cells > MAX_ALIGNMENT_CELLS) ''baseline alignment matrix exceeds the bounded limit'') (\<lambda>_.
     Inr cells))"

definition reserve_alignment_work :: "nat \<Rightarrow> nat \<Rightarrow> nat \<Rightarrow> nat \<Rightarrow> string + nat" where
  "reserve_alignment_work line_work max_line_work cells passes =
     and_then (ok_or (usize_checked (cells * passes)) ''baseline alignment work overflows'') (\<lambda>work.
     and_then (ok_or (usize_checked (line_work + work)) ''baseline alignment work overflows'') (\<lambda>line_work.
     and_then (check (\<not> line_work > max_line_work) ''baseline line-mapping work exceeds the bounded limit'') (\<lambda>_.
     Inr line_work)))"

subsection \<open>The length of a longest common subsequence\<close>

text \<open>One row of the table, from the previous row.\<close>

fun lcs_row :: "'a \<Rightarrow> nat \<Rightarrow> 'a list \<Rightarrow> u32 list \<Rightarrow> u32 list \<Rightarrow> u32 list option" where
  "lcs_row x index [] previous current = Some current"
| "lcs_row x index (y # ys) previous current = do {
     v \<leftarrow> (if x = y then map_option (\<lambda>p. p + 1) (idx previous index)
       else do { p \<leftarrow> idx previous (index + 1); c \<leftarrow> idx current index; Some (max p c) });
     current \<leftarrow> upd current (index + 1) v;
     lcs_row x (index + 1) ys previous current }"

fun lcs_rows :: "'a list \<Rightarrow> 'a list \<Rightarrow> u32 list \<Rightarrow> u32 list \<Rightarrow> u32 list option" where
  "lcs_rows [] right previous current = Some previous"
| "lcs_rows (x # xs) right previous current = do {
     current \<leftarrow> upd current 0 0;
     current \<leftarrow> lcs_row x 0 right previous current;
     lcs_rows xs right current previous }"

text \<open>The result is the length with the updated work counter.\<close>

definition lcs_length :: "'a list \<Rightarrow> 'a list \<Rightarrow> nat \<Rightarrow> nat \<Rightarrow> (string + nat \<times> nat) option" where
  "lcs_length left right line_work max_line_work =
     seq_try (Some (matrix_cells (length left) (length right))) (\<lambda>cells.
     seq_try (Some (reserve_alignment_work line_work max_line_work cells 1)) (\<lambda>line_work. do {
     previous \<leftarrow> lcs_rows left right (replicate (length right + 1) 0) (replicate (length right + 1) 0);
     n \<leftarrow> idx previous (length right);
     Some (Inr (unat n, line_work)) }))"

subsection \<open>The tables of an alignment\<close>

fun prefix_row :: "'a \<Rightarrow> nat \<Rightarrow> nat \<Rightarrow> nat \<Rightarrow> 'a list \<Rightarrow> u32 list \<Rightarrow> u32 list option" where
  "prefix_row x row width j [] pre = Some pre"
| "prefix_row x row width j (y # ys) pre = do {
     let col = j + 1;
     v \<leftarrow> (if x = y then map_option (\<lambda>p. p + 1) (idx pre ((row - 1) * width + col - 1))
       else do { p \<leftarrow> idx pre ((row - 1) * width + col); c \<leftarrow> idx pre (row * width + col - 1); Some (max p c) });
     pre \<leftarrow> upd pre (row * width + col) v;
     prefix_row x row width (j + 1) ys pre }"

fun prefix_rows :: "'a list \<Rightarrow> 'a list \<Rightarrow> nat \<Rightarrow> nat \<Rightarrow> u32 list \<Rightarrow> u32 list option" where
  "prefix_rows [] reference width i pre = Some pre"
| "prefix_rows (x # xs) reference width i pre = do {
     pre \<leftarrow> prefix_row x (i + 1) width 0 reference pre;
     prefix_rows xs reference width (i + 1) pre }"

definition alignment_prefix :: "'a list \<Rightarrow> 'a list \<Rightarrow> nat \<Rightarrow> nat \<Rightarrow> u32 list option" where
  "alignment_prefix current reference cells width = prefix_rows current reference width 0 (replicate cells 0)"

text \<open>The suffix table is filled from the last row and column; the counters run down to zero.\<close>

fun suffix_row :: "'a list \<Rightarrow> 'a list \<Rightarrow> nat \<Rightarrow> nat \<Rightarrow> nat \<Rightarrow> u32 list \<Rightarrow> u32 list option" where
  "suffix_row current reference width row 0 suf = Some suf"
| "suffix_row current reference width row (Suc col) suf = do {
     c \<leftarrow> idx current row;
     r \<leftarrow> idx reference col;
     v \<leftarrow> (if c = r then map_option (\<lambda>p. p + 1) (idx suf ((row + 1) * width + col + 1))
       else do { p \<leftarrow> idx suf ((row + 1) * width + col); q \<leftarrow> idx suf (row * width + col + 1); Some (max p q) });
     suf \<leftarrow> upd suf (row * width + col) v;
     suffix_row current reference width row col suf }"

fun suffix_rows :: "'a list \<Rightarrow> 'a list \<Rightarrow> nat \<Rightarrow> nat \<Rightarrow> u32 list \<Rightarrow> u32 list option" where
  "suffix_rows current reference width 0 suf = Some suf"
| "suffix_rows current reference width (Suc row) suf = do {
     suf \<leftarrow> suffix_row current reference width row (length reference) suf;
     suffix_rows current reference width row suf }"

definition alignment_suffix :: "'a list \<Rightarrow> 'a list \<Rightarrow> nat \<Rightarrow> nat \<Rightarrow> u32 list option" where
  "alignment_suffix current reference cells width = suffix_rows current reference width (length current) (replicate cells 0)"

subsection \<open>The decision for one line\<close>

record alignment_decision =
  new_line :: bool
  uncertain_line :: bool

text \<open>The best score through a match of the line, with the number of positions that reach it.\<close>

fun include_scan :: "'a \<Rightarrow> nat \<Rightarrow> nat \<Rightarrow> nat \<Rightarrow> 'a list \<Rightarrow> u32 list \<Rightarrow> u32 list \<Rightarrow> u32 \<times> nat \<Rightarrow> (u32 \<times> nat) option" where
  "include_scan x i width j [] pre suf acc = Some acc"
| "include_scan x i width j (y # ys) pre suf (best, positions) =
     (if x \<noteq> y then include_scan x i width (j + 1) ys pre suf (best, positions)
      else do {
        p \<leftarrow> idx pre (i * width + j);
        s \<leftarrow> idx suf ((i + 1) * width + j + 1);
        let score = p + 1 + s;
        include_scan x i width (j + 1) ys pre suf
          (if score > best then (score, 1) else if score = best then (best, positions + 1) else (best, positions)) })"

definition exclude_scores :: "nat \<Rightarrow> nat \<Rightarrow> nat \<Rightarrow> u32 list \<Rightarrow> u32 list \<Rightarrow> u32 list option" where
  "exclude_scores i width reference_len pre suf =
     traverse (\<lambda>j. do { p \<leftarrow> idx pre (i * width + j); s \<leftarrow> idx suf ((i + 1) * width + j); Some (p + s) })
       [0..<reference_len + 1]"

definition max_or_0 :: "u32 list \<Rightarrow> u32" where
  "max_or_0 xs = (if xs = [] then 0 else Max (set xs))"

definition aligned_line_decision :: "'a list \<Rightarrow> 'a list \<Rightarrow> u32 list \<Rightarrow> u32 list \<Rightarrow> nat \<Rightarrow> nat \<Rightarrow> u32 \<Rightarrow> alignment_decision option" where
  "aligned_line_decision current reference pre suf width i global = do {
     x \<leftarrow> idx current i;
     (include_best, include_positions) \<leftarrow> include_scan x i width 0 reference pre suf (0, 0);
     scores \<leftarrow> exclude_scores i width (length reference) pre suf;
     let exclude_best = max_or_0 scores;
     Some (if global = 0 \<or> include_best < global then \<lparr>new_line = True, uncertain_line = False\<rparr>
       else if exclude_best < global then \<lparr>new_line = False, uncertain_line = include_positions > 1\<rparr>
       else \<lparr>new_line = True, uncertain_line = True\<rparr>) }"

record line_alignment =
  new_line_indices :: "nat list"
  uncertain_alignment :: bool

definition align_lines :: "'a list \<Rightarrow> 'a list \<Rightarrow> nat \<Rightarrow> nat \<Rightarrow> (string + line_alignment \<times> nat) option" where
  "align_lines current reference line_work max_line_work =
     seq_try (Some (matrix_cells (length current) (length reference))) (\<lambda>cells.
     seq_try (Some (reserve_alignment_work line_work max_line_work cells 3)) (\<lambda>line_work. do {
     let width = length reference + 1;
     pre \<leftarrow> alignment_prefix current reference cells width;
     suf \<leftarrow> alignment_suffix current reference cells width;
     global \<leftarrow> idx pre (length current * width + length reference);
     decisions \<leftarrow> traverse (\<lambda>i. aligned_line_decision current reference pre suf width i global) [0..<length current];
     Some (Inr (\<lparr>new_line_indices = filter (\<lambda>i. new_line (decisions ! i)) [0..<length current],
       uncertain_alignment = (\<exists>d \<in> set decisions. uncertain_line d)\<rparr>, line_work)) }))"


section \<open>The specification: order-preserving matchings of equal lines\<close>

definition alignments :: "'a list \<Rightarrow> 'a list \<Rightarrow> (nat \<times> nat) list set" where
  "alignments xs ys = {ps. sorted_wrt (\<lambda>p q. fst p < fst q \<and> snd p < snd q) ps \<and>
     (\<forall>(i, j) \<in> set ps. i < length xs \<and> j < length ys \<and> xs ! i = ys ! j)}"

definition best :: "'a list \<Rightarrow> 'a list \<Rightarrow> nat" where
  "best xs ys = Max (length ` alignments xs ys)"

definition maximum_alignments :: "'a list \<Rightarrow> 'a list \<Rightarrow> (nat \<times> nat) list set" where
  "maximum_alignments xs ys = {ps \<in> alignments xs ys. length ps = best xs ys}"

lemma alignments_Nil [simp]: "[] \<in> alignments xs ys"
  by (simp add: alignments_def)

lemma alignments_keys: "ps \<in> alignments xs ys \<Longrightarrow> sorted_wrt (<) (map fst ps)"
  by (auto simp: alignments_def sorted_wrt_map elim: sorted_wrt_mono_rel [rotated])

lemma alignments_length:
  assumes "ps \<in> alignments xs ys"
  shows "length ps \<le> length xs"
proof -
  have d: "distinct (map fst ps)"
    using alignments_keys [OF assms] strict_sorted_iff by blast
  have "set (map fst ps) \<subseteq> {..<length xs}"
    using assms by (auto simp: alignments_def)
  then have "card (set (map fst ps)) \<le> length xs"
    using card_mono [of "{..<length xs}"] by fastforce
  with d show ?thesis by (simp add: distinct_card [OF d, symmetric, unfolded length_map])
qed

lemma finite_lengths: "finite (length ` alignments xs ys)"
  by (rule finite_subset [of _ "{..length xs}"]) (auto dest: alignments_length)

lemma length_le_best: "ps \<in> alignments xs ys \<Longrightarrow> length ps \<le> best xs ys"
  unfolding best_def by (rule Max_ge [OF finite_lengths]) simp

lemma best_attained: "\<exists>ps. ps \<in> alignments xs ys \<and> length ps = best xs ys"
proof -
  have "length ` alignments xs ys \<noteq> {}" using alignments_Nil by blast
  from Max_in [OF finite_lengths this] show ?thesis by (auto simp: best_def)
qed

lemma best_le: "(\<And>ps. ps \<in> alignments xs ys \<Longrightarrow> length ps \<le> k) \<Longrightarrow> best xs ys \<le> k"
  using best_attained [of xs ys] by metis

lemma best_le_length: "best xs ys \<le> length xs"
  by (rule best_le) (rule alignments_length)

lemma best_Nil [simp]: "best [] ys = 0" "best xs [] = 0"
proof -
  show "best [] ys = 0" using best_le_length [of "[]" ys] by simp
  have "ps = []" if "ps \<in> alignments xs []" for ps
    using that by (cases ps) (auto simp: alignments_def)
  then have "best xs [] \<le> 0" by (intro best_le) auto
  then show "best xs [] = 0" by simp
qed

text \<open>Windows: an alignment inside a prefix or a suffix of both files, and how they compose.\<close>

lemma alignments_take:
  "ps \<in> alignments (take a xs) (take b ys) \<longleftrightarrow>
     ps \<in> alignments xs ys \<and> (\<forall>p \<in> set ps. fst p < a \<and> snd p < b)"
proof -
  have "take a xs ! i = take b ys ! j \<longleftrightarrow> xs ! i = ys ! j" if "i < a" "j < b" for i j
    using that by simp
  then have "(i < length (take a xs) \<and> j < length (take b ys) \<and> take a xs ! i = take b ys ! j) \<longleftrightarrow>
      (i < length xs \<and> j < length ys \<and> xs ! i = ys ! j) \<and> i < a \<and> j < b" for i j
    by auto
  then show ?thesis unfolding alignments_def mem_Collect_eq by fastforce
qed

definition shift :: "nat \<Rightarrow> nat \<Rightarrow> (nat \<times> nat) list \<Rightarrow> (nat \<times> nat) list" where
  "shift a b ps = map (\<lambda>p. (fst p + a, snd p + b)) ps"

lemma alignments_shift:
  assumes "ps \<in> alignments (drop a xs) (drop b ys)"
  shows "shift a b ps \<in> alignments xs ys"
  using assms by (auto simp: alignments_def shift_def sorted_wrt_map less_diff_conv add.commute)

lemma alignments_drop:
  assumes "ps \<in> alignments xs ys" and "\<forall>p \<in> set ps. a \<le> fst p \<and> b \<le> snd p"
  shows "map (\<lambda>p. (fst p - a, snd p - b)) ps \<in> alignments (drop a xs) (drop b ys)"
proof -
  have "sorted_wrt (\<lambda>p q. fst p - a < fst q - a \<and> snd p - b < snd q - b) ps"
    by (rule sorted_wrt_mono_rel [of ps "\<lambda>p q. fst p < fst q \<and> snd p < snd q"])
       (use assms in \<open>auto simp: alignments_def intro: diff_less_mono\<close>)
  moreover have "fst p - a < length xs - a \<and> snd p - b < length ys - b \<and> drop a xs ! (fst p - a) = drop b ys ! (snd p - b)"
    if "p \<in> set ps" for p
  proof -
    have "a \<le> fst p" "b \<le> snd p" "fst p < length xs" "snd p < length ys" "xs ! fst p = ys ! snd p"
      using assms that by (auto simp: alignments_def)
    then show ?thesis by (simp add: diff_less_mono)
  qed
  ultimately show ?thesis by (auto simp: alignments_def sorted_wrt_map)
qed

lemma alignments_append:
  assumes "ps \<in> alignments xs ys" and "qs \<in> alignments xs ys"
    and "\<And>p q. p \<in> set ps \<Longrightarrow> q \<in> set qs \<Longrightarrow> fst p < fst q \<and> snd p < snd q"
  shows "ps @ qs \<in> alignments xs ys"
  using assms by (auto simp: alignments_def sorted_wrt_append)

lemma alignments_appendD: "ps @ qs \<in> alignments xs ys \<Longrightarrow> ps \<in> alignments xs ys \<and> qs \<in> alignments xs ys"
  by (auto simp: alignments_def sorted_wrt_append)

lemma length_in_take:
  "ps \<in> alignments xs ys \<Longrightarrow> (\<And>p. p \<in> set ps \<Longrightarrow> fst p < a \<and> snd p < b) \<Longrightarrow>
     length ps \<le> best (take a xs) (take b ys)"
  by (rule length_le_best) (simp add: alignments_take)

lemma length_in_drop:
  assumes "ps \<in> alignments xs ys" and "\<And>p. p \<in> set ps \<Longrightarrow> a \<le> fst p \<and> b \<le> snd p"
  shows "length ps \<le> best (drop a xs) (drop b ys)"
  using length_le_best [OF alignments_drop [OF assms(1), of a b]] assms(2) by simp

text \<open>The best alignment through the corner of two windows, without and with a match between them.\<close>

lemma alignment_around:
  assumes "a \<le> a'" and "b \<le> b'"
  shows "\<exists>ps qs. ps @ qs \<in> alignments xs ys \<and> length ps = best (take a xs) (take b ys) \<and>
    length qs = best (drop a' xs) (drop b' ys) \<and> (\<forall>p \<in> set ps. fst p < a \<and> snd p < b) \<and>
    (\<forall>p \<in> set qs. a' \<le> fst p \<and> b' \<le> snd p)"
proof -
  obtain ps where ps: "ps \<in> alignments (take a xs) (take b ys)" "length ps = best (take a xs) (take b ys)"
    using best_attained by blast
  obtain qs where qs: "qs \<in> alignments (drop a' xs) (drop b' ys)" "length qs = best (drop a' xs) (drop b' ys)"
    using best_attained by blast
  have "ps \<in> alignments xs ys" and p: "\<forall>p \<in> set ps. fst p < a \<and> snd p < b"
    using ps(1) by (simp_all add: alignments_take)
  moreover have q: "\<forall>q \<in> set (shift a' b' qs). a' \<le> fst q \<and> b' \<le> snd q" by (auto simp: shift_def)
  ultimately have "ps @ shift a' b' qs \<in> alignments xs ys"
    using alignments_shift [OF qs(1)] assms by (intro alignments_append) force+
  moreover have "length (shift a' b' qs) = best (drop a' xs) (drop b' ys)" using qs(2) by (simp add: shift_def)
  ultimately show ?thesis using ps(2) p q by blast
qed

lemma alignment_single: "i < length xs \<Longrightarrow> j < length ys \<Longrightarrow> xs ! i = ys ! j \<Longrightarrow> [(i, j)] \<in> alignments xs ys"
  by (simp add: alignments_def)

lemma alignment_through:
  assumes "i < length xs" and "j < length ys" and "xs ! i = ys ! j"
  shows "\<exists>ps \<in> alignments xs ys. (i, j) \<in> set ps \<and>
    length ps = best (take i xs) (take j ys) + 1 + best (drop (i + 1) xs) (drop (j + 1) ys)"
proof -
  obtain ps qs where r: "ps @ qs \<in> alignments xs ys" "length ps = best (take i xs) (take j ys)"
    "length qs = best (drop (i + 1) xs) (drop (j + 1) ys)"
    "\<forall>p \<in> set ps. fst p < i \<and> snd p < j" "\<forall>p \<in> set qs. i + 1 \<le> fst p \<and> j + 1 \<le> snd p"
    using alignment_around [of i "i + 1" j "j + 1" xs ys] by auto
  note pq = alignments_appendD [OF r(1)]
  have "[(i, j)] @ qs \<in> alignments xs ys"
    by (rule alignments_append) (use r pq alignment_single [OF assms] in \<open>auto simp: Suc_le_eq\<close>)
  then have "ps @ [(i, j)] @ qs \<in> alignments xs ys"
    by (rule alignments_append [OF conjunct1 [OF pq]]) (use r in fastforce)
  with r show ?thesis by (intro bexI [of _ "ps @ [(i, j)] @ qs"]) auto
qed

lemma length_through:
  assumes "ps \<in> alignments xs ys" and "(i, j) \<in> set ps"
  shows "length ps \<le> best (take i xs) (take j ys) + 1 + best (drop (i + 1) xs) (drop (j + 1) ys)"
proof -
  obtain as bs where s: "ps = as @ (i, j) # bs" using assms(2) by (meson split_list)
  have a: "as \<in> alignments xs ys" "(i, j) # bs \<in> alignments xs ys"
    using assms(1) alignments_appendD unfolding s by blast+
  then have b: "bs \<in> alignments xs ys" using alignments_appendD [of "[(i, j)]" bs xs ys] by simp
  have "length as \<le> best (take i xs) (take j ys)"
    by (rule length_in_take [OF a(1)]) (use assms(1) in \<open>auto simp: s alignments_def sorted_wrt_append\<close>)
  moreover have "length bs \<le> best (drop (i + 1) xs) (drop (j + 1) ys)"
    by (rule length_in_drop [OF b]) (use assms(1) in \<open>force simp: s alignments_def sorted_wrt_append Suc_le_eq\<close>)
  ultimately show ?thesis by (simp add: s)
qed


text \<open>An alignment that leaves line \<open>i\<close> unmatched crosses row \<open>i\<close> at some column.\<close>

lemma length_around:
  assumes "ps \<in> alignments xs ys" and "i \<notin> fst ` set ps"
  shows "\<exists>j \<le> length ys. length ps \<le> best (take i xs) (take j ys) + best (drop (i + 1) xs) (drop j ys)"
proof -
  define as where "as = takeWhile (\<lambda>p. fst p < i) ps"
  define bs where "bs = dropWhile (\<lambda>p. fst p < i) ps"
  have s: "ps = as @ bs" by (simp add: as_def bs_def)
  have a: "as \<in> alignments xs ys" "bs \<in> alignments xs ys"
    using assms(1) alignments_appendD unfolding s by blast+
  define j where "j = (if as = [] then 0 else Suc (snd (last as)))"
  have j: "j \<le> length ys"
  proof (cases "as = []")
    case False
    with a(1) have "snd (last as) < length ys" by (auto simp: alignments_def dest!: last_in_set)
    with False show ?thesis by (simp add: j_def)
  qed (simp add: j_def)
  have as_i: "fst p < i" if "p \<in> set as" for p using that set_takeWhileD [of p "\<lambda>p. fst p < i" ps] by (simp add: as_def)
  have as_j: "snd p < j" if "p \<in> set as" for p
  proof -
    have e: "as = butlast as @ [last as]" using that by (cases as rule: rev_cases) auto
    have "sorted_wrt (\<lambda>p q. fst p < fst q \<and> snd p < snd q) (butlast as @ [last as])"
      using a(1) e by (simp add: alignments_def)
    then have "\<forall>q \<in> set (butlast as). snd q < snd (last as)" by (simp add: sorted_wrt_append)
    moreover have "set as = insert (last as) (set (butlast as))" by (subst e) simp
    ultimately have "snd p \<le> snd (last as)" using that by auto
    then show ?thesis using that by (auto simp: j_def)
  qed
  have bs_i: "i + 1 \<le> fst p" if "p \<in> set bs" for p
  proof -
    have "bs \<noteq> []" using that by auto
    then obtain b bs' where b: "bs = b # bs'" by (cases bs) auto
    have "\<not> fst b < i" using hd_dropWhile [of "\<lambda>p. fst p < i" ps] b by (metis bs_def list.discI list.sel(1))
    moreover have "fst b \<noteq> i" using assms(2) s b by auto
    moreover have "fst b \<le> fst p" using a(2) that b by (auto simp: alignments_def)
    ultimately show ?thesis by simp
  qed
  have bs_j: "j \<le> snd p" if "p \<in> set bs" for p
  proof (cases "as = []")
    case False
    then have "snd (last as) < snd p"
      using assms(1) that by (auto simp: s alignments_def sorted_wrt_append)
    then show ?thesis by (simp add: j_def)
  qed (simp add: j_def)
  have "length as \<le> best (take i xs) (take j ys)" by (rule length_in_take [OF a(1)]) (simp add: as_i as_j)
  moreover have "length bs \<le> best (drop (i + 1) xs) (drop j ys)" by (rule length_in_drop [OF a(2)]) (simp add: bs_i bs_j [unfolded Suc_eq_plus1 [symmetric]] del: add_Suc_right flip: Suc_eq_plus1, insert bs_i bs_j, auto)
  ultimately show ?thesis using j by (intro exI [of _ j]) (simp add: s)
qed

lemma alignment_avoiding:
  "\<exists>ps \<in> alignments xs ys. i \<notin> fst ` set ps \<and>
     length ps = best (take i xs) (take j ys) + best (drop (i + 1) xs) (drop j ys)"
proof -
  obtain ps qs where r: "ps @ qs \<in> alignments xs ys" "length ps = best (take i xs) (take j ys)"
    "length qs = best (drop (i + 1) xs) (drop j ys)"
    "\<forall>p \<in> set ps. fst p < i \<and> snd p < j" "\<forall>p \<in> set qs. i + 1 \<le> fst p \<and> j \<le> snd p"
    using alignment_around [of i "i + 1" j j xs ys] by auto
  then have "i \<notin> fst ` set (ps @ qs)" by fastforce
  with r show ?thesis by (intro bexI [of _ "ps @ qs"]) auto
qed

text \<open>The recurrences of the two tables.\<close>

definition prefix_best :: "'a list \<Rightarrow> 'a list \<Rightarrow> nat \<Rightarrow> nat \<Rightarrow> nat" where
  "prefix_best xs ys i j = best (take i xs) (take j ys)"

definition suffix_best :: "'a list \<Rightarrow> 'a list \<Rightarrow> nat \<Rightarrow> nat \<Rightarrow> nat" where
  "suffix_best xs ys i j = best (drop i xs) (drop j ys)"

lemma best_mono_take: "a \<le> a' \<Longrightarrow> b \<le> b' \<Longrightarrow> best (take a xs) (take b ys) \<le> best (take a' xs) (take b' ys)"
  by (rule best_le, rule length_in_take [where xs = "take a' xs" and ys = "take b' ys" and a = a' and b = b', simplified])
    (fastforce simp: alignments_take)+

lemma best_mono_drop: "a' \<le> a \<Longrightarrow> b' \<le> b \<Longrightarrow> best (drop a xs) (drop b ys) \<le> best (drop a' xs) (drop b' ys)"
  by (rule best_le, drule alignments_shift, drule length_in_drop [where a = a' and b = b'])
    (auto simp: shift_def)

lemma prefix_best_0 [simp]: "prefix_best xs ys 0 j = 0" "prefix_best xs ys i 0 = 0"
  by (simp_all add: prefix_best_def)

lemma suffix_best_end [simp]: "suffix_best xs ys (length xs) j = 0" "suffix_best xs ys i (length ys) = 0"
  by (simp_all add: suffix_best_def)

lemma prefix_best_Suc:
  assumes "i < length xs" and "j < length ys"
  shows "prefix_best xs ys (Suc i) (Suc j) =
    (if xs ! i = ys ! j then prefix_best xs ys i j + 1 else max (prefix_best xs ys i (Suc j)) (prefix_best xs ys (Suc i) j))"
    (is "?l = ?r")
proof (rule antisym)
  show "?l \<le> ?r" unfolding prefix_best_def [of _ _ "Suc i" "Suc j"]
  proof (rule best_le)
    fix ps assume "ps \<in> alignments (take (Suc i) xs) (take (Suc j) ys)"
    then have ps: "ps \<in> alignments xs ys" and w: "\<And>p. p \<in> set ps \<Longrightarrow> fst p \<le> i \<and> snd p \<le> j"
      by (auto simp: alignments_take less_Suc_eq_le)
    show "length ps \<le> ?r"
    proof (cases ps rule: rev_cases)
      case (snoc qs p)
      have qs: "qs \<in> alignments xs ys" using ps alignments_appendD unfolding snoc by blast
      have before: "fst q < fst p \<and> snd q < snd p" if "q \<in> set qs" for q
        using ps that by (auto simp: snoc alignments_def sorted_wrt_append)
      have p: "fst p \<le> i" "snd p \<le> j" "xs ! fst p = ys ! snd p"
        using w [of p] ps by (auto simp: snoc alignments_def)
      have q: "length qs \<le> prefix_best xs ys i j" unfolding prefix_best_def
        by (rule length_in_take [OF qs]) (use before p in fastforce)
      consider "fst p = i \<and> snd p = j" | "fst p < i" | "snd p < j" using p by linarith
      then show ?thesis
      proof cases
        case 1
        with p q show ?thesis by (simp add: snoc)
      next
        case 2
        have "length ps \<le> prefix_best xs ys i (Suc j)" unfolding prefix_best_def
          by (rule length_in_take [OF ps]) (use before p 2 in \<open>fastforce simp: snoc\<close>)
        with q show ?thesis by (auto simp: snoc)
      next
        case 3
        have "length ps \<le> prefix_best xs ys (Suc i) j" unfolding prefix_best_def
          by (rule length_in_take [OF ps]) (use before p 3 in \<open>fastforce simp: snoc less_Suc_eq_le\<close>)
        with q show ?thesis by (auto simp: snoc)
      qed
    qed simp
  qed
  show "?r \<le> ?l"
  proof (cases "xs ! i = ys ! j")
    case True
    obtain ps where "ps \<in> alignments (take (Suc i) xs) (take (Suc j) ys)" "length ps = prefix_best xs ys i j + 1"
      using alignment_through [of i "take (Suc i) xs" j "take (Suc j) ys"] assms True
      by (auto simp: prefix_best_def)
    with True show ?thesis using length_le_best [of ps "take (Suc i) xs" "take (Suc j) ys"]
      by (simp add: prefix_best_def)
  next
    case False
    then show ?thesis by (simp add: prefix_best_def best_mono_take)
  qed
qed

lemma suffix_best_Suc:
  assumes "i < length xs" and "j < length ys"
  shows "suffix_best xs ys i j =
    (if xs ! i = ys ! j then suffix_best xs ys (Suc i) (Suc j) + 1 else max (suffix_best xs ys (Suc i) j) (suffix_best xs ys i (Suc j)))"
    (is "?l = ?r")
proof (rule antisym)
  show "?l \<le> ?r" unfolding suffix_best_def [of _ _ i j]
  proof (rule best_le)
    fix ps0 assume "ps0 \<in> alignments (drop i xs) (drop j ys)"
    then have ps: "shift i j ps0 \<in> alignments xs ys" by (rule alignments_shift)
    define ps where "ps = shift i j ps0"
    have w: "i \<le> fst p \<and> j \<le> snd p" if "p \<in> set ps" for p using that by (auto simp: ps_def shift_def)
    have "length ps \<le> ?r"
    proof (cases ps)
      case (Cons p qs)
      have qs: "qs \<in> alignments xs ys" using ps alignments_appendD [of "[p]" qs xs ys] Cons by (simp add: ps_def)
      have after: "fst p < fst q \<and> snd p < snd q" if "q \<in> set qs" for q
        using ps that Cons by (auto simp: ps_def alignments_def)
      have p: "i \<le> fst p" "j \<le> snd p" "xs ! fst p = ys ! snd p"
        using w [of p] ps Cons by (auto simp: ps_def alignments_def)
      have q: "length qs \<le> suffix_best xs ys (Suc i) (Suc j)" unfolding suffix_best_def
        by (rule length_in_drop [OF qs]) (use after p in fastforce)
      consider "fst p = i \<and> snd p = j" | "i < fst p" | "j < snd p" using p by linarith
      then show ?thesis
      proof cases
        case 1
        with p q show ?thesis by (simp add: Cons)
      next
        case 2
        have "length ps \<le> suffix_best xs ys (Suc i) j" unfolding suffix_best_def
          by (rule length_in_drop [OF ps [folded ps_def]]) (use after p 2 in \<open>fastforce simp: Cons\<close>)
        with q show ?thesis by (auto simp: Cons)
      next
        case 3
        have "length ps \<le> suffix_best xs ys i (Suc j)" unfolding suffix_best_def
          by (rule length_in_drop [OF ps [folded ps_def]]) (use after p 3 in \<open>fastforce simp: Cons\<close>)
        with q show ?thesis by (auto simp: Cons)
      qed
    qed simp
    then show "length ps0 \<le> ?r" by (simp add: ps_def shift_def)
  qed
  show "?r \<le> ?l"
  proof (cases "xs ! i = ys ! j")
    case True
    obtain ps where "ps \<in> alignments (drop i xs) (drop j ys)" "length ps = suffix_best xs ys (Suc i) (Suc j) + 1"
      using alignment_through [of 0 "drop i xs" 0 "drop j ys"] assms True
      by (auto simp: suffix_best_def)
    with True show ?thesis using length_le_best [of ps "drop i xs" "drop j ys"]
      by (simp add: suffix_best_def)
  next
    case False
    then show ?thesis by (simp add: suffix_best_def best_mono_drop)
  qed
qed


section \<open>The tables hold the best lengths\<close>

lemma cell_eq: "b < w \<Longrightarrow> b' < w \<Longrightarrow> a * w + b = a' * w + b' \<longleftrightarrow> a = a' \<and> b = (b' :: nat)"
  by (metis add.commute add_left_cancel bot_nat_0.extremum_strict div_less div_mult_self3 add_0_right mod_less mod_mult_self2 mult.commute)

lemma cell_less: "a < h \<Longrightarrow> b < w \<Longrightarrow> a * w + b < h * (w :: nat)"
  by (metis add_less_cancel_left less_le_trans mult_Suc add.commute mult_le_mono1 Suc_leI)

text \<open>\<open>table_holds f done t\<close>: the flat table \<open>t\<close> holds the numbers \<open>f a b\<close> on the cells \<open>done\<close>.\<close>

definition table_holds :: "(nat \<Rightarrow> nat \<Rightarrow> nat) \<Rightarrow> nat \<Rightarrow> nat \<Rightarrow> (nat \<Rightarrow> nat \<Rightarrow> bool) \<Rightarrow> u32 list \<Rightarrow> bool" where
  "table_holds f h w ok t \<longleftrightarrow> length t = h * w \<and> (\<forall>a < h. \<forall>b < w. ok a b \<longrightarrow> t ! (a * w + b) = of_nat (f a b))"

lemma table_idx:
  "table_holds f h w ok t \<Longrightarrow> a < h \<Longrightarrow> b < w \<Longrightarrow> ok a b \<Longrightarrow> idx t (a * w + b) = Some (of_nat (f a b))"
  by (simp add: table_holds_def panic_simps cell_less)

lemma table_weaken:
  "table_holds f h w ok t \<Longrightarrow> (\<And>a b. a < h \<Longrightarrow> b < w \<Longrightarrow> ok' a b \<Longrightarrow> ok a b) \<Longrightarrow> table_holds f h w ok' t"
  by (simp add: table_holds_def)

lemma table_zero:
  "(\<And>a b. a < h \<Longrightarrow> b < w \<Longrightarrow> ok a b \<Longrightarrow> f a b = 0) \<Longrightarrow> table_holds f h w ok (replicate (h * w) 0)"
  by (simp add: table_holds_def cell_less)

lemma table_upd:
  assumes "table_holds f h w ok t" and "a < h" and "b < w" and "v = of_nat (f a b)"
    and "\<And>a' b'. a' < h \<Longrightarrow> b' < w \<Longrightarrow> ok' a' b' \<Longrightarrow> ok a' b' \<or> (a' = a \<and> b' = b)"
  shows "\<exists>t'. upd t (a * w + b) v = Some t' \<and> table_holds f h w ok' t'"
proof -
  have l: "length t = h * w" and h: "\<And>a b. a < h \<Longrightarrow> b < w \<Longrightarrow> ok a b \<Longrightarrow> t ! (a * w + b) = of_nat (f a b)"
    using assms(1) by (auto simp: table_holds_def)
  have c: "a * w + b < length t" using assms l by (simp add: cell_less)
  have "t[a * w + b := v] ! (a' * w + b') = of_nat (f a' b')" if "a' < h" "b' < w" "ok' a' b'" for a' b'
    using assms(5) [OF that] h [OF that(1,2)] c assms(3,4) that(2) by (auto simp: nth_list_update cell_eq)
  with c l show ?thesis by (simp add: panic_simps table_holds_def)
qed

lemma of_nat_max_u32: "a < 2 ^ 32 \<Longrightarrow> b < 2 ^ 32 \<Longrightarrow> max (of_nat a) (of_nat b) = (of_nat (max a b) :: u32)"
  by (simp add: max_def word_le_nat_alt take_bit_nat_eq_self unsigned_of_nat)

lemma drop_eq_ConsD: "z # zs = drop i xs \<Longrightarrow> i < length xs \<and> z = xs ! i \<and> zs = drop (Suc i) xs"
  by (cases "i < length xs") (auto simp: Cons_nth_drop_Suc [symmetric])

lemma prefix_best_small: "length xs < 2 ^ 32 \<Longrightarrow> prefix_best xs ys i j < 2 ^ 32"
  using best_le_length [of "take i xs" "take j ys"] by (simp add: prefix_best_def)

lemma suffix_best_small: "length xs < 2 ^ 32 \<Longrightarrow> suffix_best xs ys i j < 2 ^ 32"
  using best_le_length [of "drop i xs" "drop j ys"] by (simp add: suffix_best_def)

lemma prefix_row_holds:
  assumes small: "length xs < 2 ^ 32" and w: "w = length ys + 1" and h: "h = length xs + 1"
    and i: "i < length xs" and "j + length zs = length ys" and "zs = drop j ys"
    and "table_holds (prefix_best xs ys) h w (\<lambda>a b. a \<le> i \<or> (a = Suc i \<and> b \<le> j) \<or> b = 0) t"
  shows "\<exists>t'. prefix_row (xs ! i) (Suc i) w j zs t = Some t' \<and>
    table_holds (prefix_best xs ys) h w (\<lambda>a b. a \<le> Suc i \<or> b = 0) t'"
  using assms(5-)
proof (induction zs arbitrary: j t)
  case Nil
  then have "j = length ys" by simp
  then have "table_holds (prefix_best xs ys) h w (\<lambda>a b. a \<le> Suc i \<or> b = 0) t"
    by - (rule table_weaken [OF Nil(3)], use w in \<open>auto simp: le_Suc_eq\<close>)
  then show ?case by simp
next
  case (Cons z zs)
  have j: "j < length ys" "z = ys ! j" "zs = drop (Suc j) ys"
    using drop_eq_ConsD [OF Cons.prems(2)] by auto
  let ?ok = "\<lambda>a b. a \<le> i \<or> (a = Suc i \<and> b \<le> j) \<or> b = 0"
  have r: "idx t (i * w + j) = Some (of_nat (prefix_best xs ys i j))"
    "idx t (i * w + Suc j) = Some (of_nat (prefix_best xs ys i (Suc j)))"
    "idx t (Suc i * w + j) = Some (of_nat (prefix_best xs ys (Suc i) j))"
    by (rule table_idx [OF Cons.prems(3)]; use i j w h in simp)+
  let ?v = "of_nat (prefix_best xs ys (Suc i) (Suc j)) :: u32"
  obtain t' where t': "upd t (Suc i * w + Suc j) ?v = Some t'"
    "table_holds (prefix_best xs ys) h w (\<lambda>a b. a \<le> i \<or> (a = Suc i \<and> b \<le> Suc j) \<or> b = 0) t'"
    using table_upd [OF Cons.prems(3), of "Suc i" "Suc j" ?v "\<lambda>a b. a \<le> i \<or> (a = Suc i \<and> b \<le> Suc j) \<or> b = 0"]
      i j(1) w h by (auto simp: le_Suc_eq)
  have v: "(if xs ! i = z then map_option (\<lambda>p. p + 1) (idx t ((Suc i - 1) * w + (j + 1) - 1))
       else do { p \<leftarrow> idx t ((Suc i - 1) * w + (j + 1)); c \<leftarrow> idx t (Suc i * w + (j + 1) - 1); Some (max p c) }) = Some ?v"
    using r prefix_best_Suc [OF i j(1)] of_nat_max_u32 [OF prefix_best_small [OF small] prefix_best_small [OF small]]
    by (simp add: j(2) add.commute)
  obtain t'' where "prefix_row (xs ! i) (Suc i) w (Suc j) zs t' = Some t''"
    "table_holds (prefix_best xs ys) h w (\<lambda>a b. a \<le> Suc i \<or> b = 0) t''"
    using Cons.IH [OF _ j(3) t'(2)] Cons.prems(1) by auto
  then show ?case using v t'(1) by (simp only: prefix_row.simps Let_def Option.bind.simps Suc_eq_plus1) blast
qed

lemma prefix_rows_hold:
  assumes small: "length xs < 2 ^ 32" and w: "w = length ys + 1" and h: "h = length xs + 1"
    and "i + length zs = length xs" and "zs = drop i xs"
    and "table_holds (prefix_best xs ys) h w (\<lambda>a b. a \<le> i \<or> b = 0) t"
  shows "\<exists>t'. prefix_rows zs ys w i t = Some t' \<and> table_holds (prefix_best xs ys) h w (\<lambda>_ _. True) t'"
  using assms(4-)
proof (induction zs arbitrary: i t)
  case Nil
  then have "table_holds (prefix_best xs ys) h w (\<lambda>_ _. True) t" using h by (auto simp: table_holds_def)
  then show ?case by simp
next
  case (Cons z zs)
  have i: "i < length xs" "z = xs ! i" "zs = drop (Suc i) xs"
    using drop_eq_ConsD [OF Cons.prems(2)] by auto
  have t: "table_holds (prefix_best xs ys) h w (\<lambda>a b. a \<le> i \<or> (a = Suc i \<and> b \<le> 0) \<or> b = 0) t"
    by (rule table_weaken [OF Cons.prems(3)]) auto
  obtain t' where t': "prefix_row (xs ! i) (Suc i) w 0 ys t = Some t'"
    "table_holds (prefix_best xs ys) h w (\<lambda>a b. a \<le> Suc i \<or> b = 0) t'"
    using prefix_row_holds [OF small w h i(1) _ _ t, of ys] by auto
  with Cons.IH [of "Suc i" t'] Cons.prems(1) i show ?case by simp
qed

lemma alignment_prefix_holds:
  assumes small: "length xs < 2 ^ 32" and w: "w = length ys + 1" and h: "h = length xs + 1"
  shows "\<exists>t. alignment_prefix xs ys (h * w) w = Some t \<and> table_holds (prefix_best xs ys) h w (\<lambda>_ _. True) t"
proof -
  have "table_holds (prefix_best xs ys) h w (\<lambda>a b. a \<le> 0 \<or> b = 0) (replicate (h * w) 0)"
    by (rule table_zero) auto
  then show ?thesis unfolding alignment_prefix_def using prefix_rows_hold [OF assms, of 0 xs] by simp
qed



lemma suffix_row_holds:
  assumes small: "length xs < 2 ^ 32" and w: "w = length ys + 1" and h: "h = length xs + 1"
    and i: "i < length xs" and "j \<le> length ys"
    and "table_holds (suffix_best xs ys) h w (\<lambda>a b. Suc i \<le> a \<or> (a = i \<and> j \<le> b) \<or> b = length ys) t"
  shows "\<exists>t'. suffix_row xs ys w i j t = Some t' \<and>
    table_holds (suffix_best xs ys) h w (\<lambda>a b. i \<le> a \<or> b = length ys) t'"
  using assms(5-)
proof (induction j arbitrary: t)
  case 0
  then have "table_holds (suffix_best xs ys) h w (\<lambda>a b. i \<le> a \<or> b = length ys) t"
    by - (erule table_weaken, auto)
  then show ?case by simp
next
  case (Suc j)
  then have j: "j < length ys" by simp
  let ?ok = "\<lambda>a b. Suc i \<le> a \<or> (a = i \<and> j \<le> b) \<or> b = length ys"
  have r: "idx t (Suc i * w + Suc j) = Some (of_nat (suffix_best xs ys (Suc i) (Suc j)))"
    "idx t (Suc i * w + j) = Some (of_nat (suffix_best xs ys (Suc i) j))"
    "idx t (i * w + Suc j) = Some (of_nat (suffix_best xs ys i (Suc j)))"
    by (rule table_idx [OF Suc.prems(2)]; use i j w h in simp)+
  let ?v = "of_nat (suffix_best xs ys i j) :: u32"
  obtain t' where t': "upd t (i * w + j) ?v = Some t'" "table_holds (suffix_best xs ys) h w ?ok t'"
    using table_upd [OF Suc.prems(2), of i j ?v ?ok] i j w h by fastforce
  have v: "(if xs ! i = ys ! j then map_option (\<lambda>p. p + 1) (idx t ((i + 1) * w + j + 1))
       else do { p \<leftarrow> idx t ((i + 1) * w + j); q \<leftarrow> idx t (i * w + j + 1); Some (max p q) }) = Some ?v"
    using r suffix_best_Suc [OF i j] of_nat_max_u32 [OF suffix_best_small [OF small] suffix_best_small [OF small]]
    by (simp add: add.commute)
  obtain t'' where "suffix_row xs ys w i j t' = Some t''"
    "table_holds (suffix_best xs ys) h w (\<lambda>a b. i \<le> a \<or> b = length ys) t''"
    using Suc.IH [OF _ t'(2)] j by auto
  then show ?case using v t'(1)
    by (simp only: suffix_row.simps idx_in [OF i] idx_in [OF j] Option.bind.simps) blast
qed

lemma suffix_rows_hold:
  assumes small: "length xs < 2 ^ 32" and w: "w = length ys + 1" and h: "h = length xs + 1"
    and "i \<le> length xs"
    and "table_holds (suffix_best xs ys) h w (\<lambda>a b. i \<le> a \<or> b = length ys) t"
  shows "\<exists>t'. suffix_rows xs ys w i t = Some t' \<and> table_holds (suffix_best xs ys) h w (\<lambda>_ _. True) t'"
  using assms(4-)
proof (induction i arbitrary: t)
  case 0
  then show ?case by simp
next
  case (Suc i)
  then have i: "i < length xs" by simp
  have t: "table_holds (suffix_best xs ys) h w (\<lambda>a b. Suc i \<le> a \<or> (a = i \<and> length ys \<le> b) \<or> b = length ys) t"
    by (rule table_weaken [OF Suc.prems(2)]) (use w in auto)
  obtain t' where t': "suffix_row xs ys w i (length ys) t = Some t'"
    "table_holds (suffix_best xs ys) h w (\<lambda>a b. i \<le> a \<or> b = length ys) t'"
    using suffix_row_holds [OF small w h i _ t] by auto
  with Suc.IH [OF _ t'(2)] i show ?case by simp
qed

lemma alignment_suffix_holds:
  assumes small: "length xs < 2 ^ 32" and w: "w = length ys + 1" and h: "h = length xs + 1"
  shows "\<exists>t. alignment_suffix xs ys (h * w) w = Some t \<and> table_holds (suffix_best xs ys) h w (\<lambda>_ _. True) t"
proof -
  have "table_holds (suffix_best xs ys) h w (\<lambda>a b. length xs \<le> a \<or> b = length ys) (replicate (h * w) 0)"
    by (rule table_zero) (use h in \<open>auto simp: less_Suc_eq_le dest: le_antisym\<close>)
  then show ?thesis unfolding alignment_suffix_def using suffix_rows_hold [OF assms, of "length xs"] by simp
qed


lemma lcs_row_holds:
  assumes small: "length xs < 2 ^ 32" and w: "w = length ys + 1"
    and i: "i < length xs" and p: "table_holds (\<lambda>_. prefix_best xs ys i) 1 w (\<lambda>_ _. True) previous"
    and "zs = drop j ys" and "j + length zs = length ys"
    and "table_holds (\<lambda>_. prefix_best xs ys (Suc i)) 1 w (\<lambda>_ b. b \<le> j) current"
  shows "\<exists>current'. lcs_row (xs ! i) j zs previous current = Some current' \<and>
    table_holds (\<lambda>_. prefix_best xs ys (Suc i)) 1 w (\<lambda>_ _. True) current'"
  using assms(5-)
proof (induction zs arbitrary: j current)
  case Nil
  then have "table_holds (\<lambda>_. prefix_best xs ys (Suc i)) 1 w (\<lambda>_ _. True) current"
    by - (rule table_weaken [OF Nil(3)], use w in auto)
  then show ?case by simp
next
  case (Cons z zs)
  have j: "j < length ys" "z = ys ! j" "zs = drop (Suc j) ys" using drop_eq_ConsD [OF Cons.prems(1)] by auto
  have r: "idx previous (0 * w + j) = Some (of_nat (prefix_best xs ys i j))"
    "idx previous (0 * w + Suc j) = Some (of_nat (prefix_best xs ys i (Suc j)))"
    "idx current (0 * w + j) = Some (of_nat (prefix_best xs ys (Suc i) j))"
    using table_idx [OF p, of 0 j] table_idx [OF p, of 0 "Suc j"] table_idx [OF Cons.prems(3), of 0 j] j w by auto
  let ?v = "of_nat (prefix_best xs ys (Suc i) (Suc j)) :: u32"
  obtain c' where c': "upd current (0 * w + Suc j) ?v = Some c'"
    "table_holds (\<lambda>_. prefix_best xs ys (Suc i)) 1 w (\<lambda>_ b. b \<le> Suc j) c'"
    using table_upd [OF Cons.prems(3), of 0 "Suc j" ?v "\<lambda>_ b. b \<le> Suc j"] j(1) w by (auto simp: le_Suc_eq)
  have v: "(if xs ! i = z then map_option (\<lambda>p. p + 1) (idx previous j)
       else do { p \<leftarrow> idx previous (j + 1); c \<leftarrow> idx current j; Some (max p c) }) = Some ?v"
    using r prefix_best_Suc [OF i j(1)] of_nat_max_u32 [OF prefix_best_small [OF small] prefix_best_small [OF small]]
    by (simp add: j(2) add.commute)
  obtain c'' where "lcs_row (xs ! i) (Suc j) zs previous c' = Some c''"
    "table_holds (\<lambda>_. prefix_best xs ys (Suc i)) 1 w (\<lambda>_ _. True) c''"
    using Cons.IH [OF j(3) _ c'(2)] Cons.prems(2) by auto
  then show ?case using v c'(1)
    by (simp only: lcs_row.simps Option.bind.simps Suc_eq_plus1 mult_0 add_0) blast
qed

lemma lcs_rows_hold:
  assumes small: "length xs < 2 ^ 32" and w: "w = length ys + 1"
    and "zs = drop i xs" and "i + length zs = length xs"
    and "table_holds (\<lambda>_. prefix_best xs ys i) 1 w (\<lambda>_ _. True) previous" and "length current = w"
  shows "\<exists>t. lcs_rows zs ys previous current = Some t \<and>
    table_holds (\<lambda>_. prefix_best xs ys (length xs)) 1 w (\<lambda>_ _. True) t"
  using assms(3-)
proof (induction zs arbitrary: i previous current)
  case Nil
  then show ?case by simp
next
  case (Cons z zs)
  have i: "i < length xs" "z = xs ! i" "zs = drop (Suc i) xs" using drop_eq_ConsD [OF Cons.prems(1)] by auto
  have c: "upd current 0 0 = Some (current[0 := 0])" using Cons.prems(4) w by (simp add: panic_simps)
  have "table_holds (\<lambda>_. prefix_best xs ys (Suc i)) 1 w (\<lambda>_ b. b \<le> 0) (current[0 := 0])"
    using Cons.prems(4) w by (auto simp: table_holds_def)
  then obtain c' where c': "lcs_row (xs ! i) 0 ys previous (current[0 := 0]) = Some c'"
    "table_holds (\<lambda>_. prefix_best xs ys (Suc i)) 1 w (\<lambda>_ _. True) c'"
    using lcs_row_holds [OF small w i(1) Cons.prems(3), of ys 0] by auto
  have "length previous = w" using Cons.prems(3) by (simp add: table_holds_def)
  from Cons.IH [OF i(3) _ c'(2) this] Cons.prems(2) show ?case by (simp add: c c'(1) [folded i(2)])
qed

section \<open>Longest common subsequences\<close>

lemma matrix_cells_result:
  "matrix_cells n m = (if (n + 1) * (m + 1) \<le> MAX_ALIGNMENT_CELLS then Inr ((n + 1) * (m + 1))
     else if n + 1 \<le> usize_max \<and> m + 1 \<le> usize_max \<and> (n + 1) * (m + 1) \<le> usize_max
     then Inl ''baseline alignment matrix exceeds the bounded limit'' else Inl ''baseline alignment matrix size overflows'')"
proof -
  have "n + 1 \<le> (n + 1) * (m + 1)" "m + 1 \<le> (n + 1) * (m + 1)" by simp_all
  then show ?thesis
    by (auto simp: matrix_cells_def usize_checked_def MAX_ALIGNMENT_CELLS_def usize_max_def)
qed

lemma matrix_cells_Inr:
  assumes "matrix_cells n m = Inr cells"
  shows "cells = (n + 1) * (m + 1)" and "n < 2 ^ 22" and "m < 2 ^ 22"
proof -
  have c: "cells = (n + 1) * (m + 1) \<and> (n + 1) * (m + 1) \<le> MAX_ALIGNMENT_CELLS"
    using assms by (auto simp: matrix_cells_result split: if_splits)
  moreover have "n + 1 \<le> (n + 1) * (m + 1)" "m + 1 \<le> (n + 1) * (m + 1)" by simp_all
  ultimately show "cells = (n + 1) * (m + 1)" and "n < 2 ^ 22" and "m < 2 ^ 22"
    by (simp_all add: MAX_ALIGNMENT_CELLS_def)
qed

lemma reserve_Inr:
  "reserve_alignment_work work limit cells passes = Inr work' \<Longrightarrow> work' = work + cells * passes \<and> work' \<le> limit"
  by (auto simp: reserve_alignment_work_def result_iffs usize_checked_def split: if_splits)

lemma lcs_length_result:
  "lcs_length xs ys work limit =
     Some (and_then (matrix_cells (length xs) (length ys)) (\<lambda>cells.
       and_then (reserve_alignment_work work limit cells 1) (\<lambda>work. Inr (best xs ys, work))))"
proof (cases "matrix_cells (length xs) (length ys)")
  case (Inr cells)
  have s: "length xs < 2 ^ 32" "best xs ys < 2 ^ 32"
    using matrix_cells_Inr [OF Inr] best_le_length [of xs ys] by simp_all
  let ?w = "length ys + 1"
  have z: "table_holds (\<lambda>_. prefix_best xs ys 0) 1 ?w (\<lambda>_ _. True) (replicate ?w 0)"
    using table_zero [of 1 ?w "\<lambda>_ _. True" "\<lambda>_. prefix_best xs ys 0"] by simp
  obtain t where t: "lcs_rows xs ys (replicate ?w 0) (replicate ?w 0) = Some t"
    "table_holds (\<lambda>_. prefix_best xs ys (length xs)) 1 ?w (\<lambda>_ _. True) t"
    using lcs_rows_hold [OF s(1) refl _ _ z, of xs "replicate ?w 0"] by auto
  have "idx t (length ys) = Some (of_nat (best xs ys))"
    using table_idx [OF t(2), of 0 "length ys"] by (simp add: prefix_best_def)
  then show ?thesis using s(2) t(1) Inr
    by (cases "reserve_alignment_work work limit cells 1")
      (simp_all add: lcs_length_def take_bit_nat_eq_self unsigned_of_nat del: replicate_Suc)
qed (simp add: lcs_length_def)


section \<open>New and uncertain lines\<close>

text \<open>The best score of a match of line \<open>i\<close> and the positions that reach it.\<close>

definition through :: "'a list \<Rightarrow> 'a list \<Rightarrow> nat \<Rightarrow> nat \<Rightarrow> nat" where
  "through xs ys i j = prefix_best xs ys i j + 1 + suffix_best xs ys (i + 1) (j + 1)"

definition matches :: "'a list \<Rightarrow> 'a list \<Rightarrow> nat \<Rightarrow> nat \<Rightarrow> nat list" where
  "matches xs ys i k = filter (\<lambda>j. xs ! i = ys ! j) [k..<length ys]"

lemma matches_step:
  "k < length ys \<Longrightarrow> matches xs ys i k = (if xs ! i = ys ! k then k # matches xs ys i (k + 1) else matches xs ys i (k + 1))"
  by (simp add: matches_def upt_conv_Cons)

text \<open>The scan of the scores keeps a running maximum with its multiplicity.\<close>

definition scan_spec :: "nat list \<Rightarrow> nat \<times> nat \<Rightarrow> nat \<times> nat" where
  "scan_spec scores acc = (let b = Max (insert (fst acc) (set scores)) in
     (b, (if fst acc = b then snd acc else 0) + length (filter (\<lambda>s. s = b) scores)))"

lemma scan_spec_Nil: "scan_spec [] acc = acc"
  by (simp add: scan_spec_def)

lemma scan_spec_Cons:
  "scan_spec (s # ss) (b, n) = scan_spec ss (if s > b then (s, 1) else if s = b then (b, n + 1) else (b, n))"
proof -
  have "Max (insert b (set (s # ss))) = max b (Max (insert s (set ss)))"
    "Max (insert s (set ss)) = (if ss = [] then s else max s (Max (set ss)))"
    "Max (insert b (set ss)) = (if ss = [] then b else max b (Max (set ss)))"
    by (simp_all add: Max_insert)
  then show ?thesis by (auto simp: scan_spec_def Let_def max_def)
qed

lemma word_of_nat_order:
  assumes "a < 2 ^ 32" and "b < 2 ^ 32"
  shows "(of_nat a :: u32) < of_nat b \<longleftrightarrow> a < b" and "(of_nat a :: u32) = of_nat b \<longleftrightarrow> a = b"
proof -
  have u: "unat (of_nat a :: u32) = a" "unat (of_nat b :: u32) = b"
    using assms by (simp_all add: unsigned_of_nat take_bit_nat_eq_self)
  show "(of_nat a :: u32) < of_nat b \<longleftrightarrow> a < b" by (simp only: word_less_nat_alt u)
  show "(of_nat a :: u32) = of_nat b \<longleftrightarrow> a = b" by (metis u)
qed

lemma include_scan_holds:
  assumes "i < length xs" and small: "length xs < 2 ^ 22" and w: "w = length ys + 1" and h: "h = length xs + 1"
    and p: "table_holds (prefix_best xs ys) h w (\<lambda>_ _. True) pre"
    and s: "table_holds (suffix_best xs ys) h w (\<lambda>_ _. True) suf"
    and "zs = drop k ys" and "k + length zs = length ys" and "b < 2 ^ 32"
  shows "\<exists>b'. b' < 2 ^ 32 \<and> include_scan (xs ! i) i w k zs pre suf (of_nat b, n) =
     Some (of_nat b', snd (scan_spec (map (through xs ys i) (matches xs ys i k)) (b, n))) \<and>
     b' = fst (scan_spec (map (through xs ys i) (matches xs ys i k)) (b, n))"
  using assms(7-)
proof (induction zs arbitrary: k b n)
  case Nil
  then show ?case by (simp add: matches_def scan_spec_Nil)
next
  case (Cons z zs)
  have k: "k < length ys" "z = ys ! k" "zs = drop (Suc k) ys" using drop_eq_ConsD [OF Cons.prems(1)] by auto
  have l: "k + 1 + length zs = length ys" using Cons.prems(2) by simp
  note IH = Cons.IH [OF k(3) [unfolded Suc_eq_plus1] l]
  show ?case
  proof (cases "xs ! i = z")
    case False
    then show ?thesis using IH [OF Cons.prems(3), of n] by (simp add: matches_step k(1,2))
  next
    case True
    let ?s = "through xs ys i k"
    have r: "idx pre (i * w + k) = Some (of_nat (prefix_best xs ys i k))"
      "idx suf ((i + 1) * w + (k + 1)) = Some (of_nat (suffix_best xs ys (i + 1) (k + 1)))"
      using table_idx [OF p, of i k] table_idx [OF s, of "i + 1" "k + 1"] assms(1) k(1) w h by simp_all
    have "?s \<le> length xs + 1 + length xs" unfolding through_def prefix_best_def suffix_best_def
      by (intro add_mono order_trans [OF best_le_length]) auto
    then have sm: "?s < 2 ^ 32" using small by simp
    have "of_nat (prefix_best xs ys i k) + 1 + of_nat (suffix_best xs ys (i + 1) (k + 1)) = (of_nat ?s :: u32)"
      by (simp add: through_def)
    then have e: "include_scan (xs ! i) i w k (z # zs) pre suf (of_nat b, n) =
        include_scan (xs ! i) i w (k + 1) zs pre suf
          (if of_nat ?s > (of_nat b :: u32) then (of_nat ?s, 1) else if of_nat ?s = (of_nat b :: u32) then (of_nat b, n + 1) else (of_nat b, n))"
      using True r by (simp add: Let_def add.assoc del: of_nat_add)
    show ?thesis unfolding e word_of_nat_order [OF sm Cons.prems(3)] word_of_nat_order [OF Cons.prems(3) sm]
      using IH [OF sm, of 1] IH [OF Cons.prems(3), of "n + 1"] IH [OF Cons.prems(3), of n] True
      by (simp add: matches_step scan_spec_Cons k(1,2))
  qed
qed


definition include_of :: "'a list \<Rightarrow> 'a list \<Rightarrow> nat \<Rightarrow> nat \<times> nat" where
  "include_of xs ys i = scan_spec (map (through xs ys i) (matches xs ys i 0)) (0, 0)"

definition exclude_of :: "'a list \<Rightarrow> 'a list \<Rightarrow> nat \<Rightarrow> nat" where
  "exclude_of xs ys i = Max ((\<lambda>j. prefix_best xs ys i j + suffix_best xs ys (i + 1) j) ` {..length ys})"

lemma mem_matches [simp]: "j \<in> set (matches xs ys i k) \<longleftrightarrow> k \<le> j \<and> j < length ys \<and> xs ! i = ys ! j"
  by (auto simp: matches_def)

lemma include_of_eq:
  "fst (include_of xs ys i) = Max (insert 0 (through xs ys i ` set (matches xs ys i 0)))"
  "snd (include_of xs ys i) = card {j \<in> set (matches xs ys i 0). through xs ys i j = fst (include_of xs ys i)}"
proof -
  show a: "fst (include_of xs ys i) = Max (insert 0 (through xs ys i ` set (matches xs ys i 0)))"
    by (simp add: include_of_def scan_spec_def Let_def)
  have "distinct (matches xs ys i 0)" by (simp add: matches_def)
  then have "length (filter (\<lambda>j. through xs ys i j = b) (matches xs ys i 0)) =
      card {j \<in> set (matches xs ys i 0). through xs ys i j = b}" for b
    by (metis distinct_card distinct_filter set_filter)
  then show "snd (include_of xs ys i) = card {j \<in> set (matches xs ys i 0). through xs ys i j = fst (include_of xs ys i)}"
    unfolding a by (simp add: include_of_def scan_spec_def Let_def filter_map comp_def)
qed

lemma through_le: "i < length xs \<Longrightarrow> j \<in> set (matches xs ys i 0) \<Longrightarrow> through xs ys i j \<le> best xs ys"
  using alignment_through [of i xs j ys] length_le_best
  by (fastforce simp: through_def prefix_best_def suffix_best_def)

lemma through_iff:
  assumes "i < length xs"
  shows "(\<exists>ps \<in> maximum_alignments xs ys. (i, j) \<in> set ps) \<longleftrightarrow>
    j \<in> set (matches xs ys i 0) \<and> through xs ys i j = best xs ys"
proof
  assume "\<exists>ps \<in> maximum_alignments xs ys. (i, j) \<in> set ps"
  then obtain ps where ps: "ps \<in> alignments xs ys" "length ps = best xs ys" "(i, j) \<in> set ps"
    by (auto simp: maximum_alignments_def)
  then have j: "j \<in> set (matches xs ys i 0)" by (auto simp: alignments_def)
  then show "j \<in> set (matches xs ys i 0) \<and> through xs ys i j = best xs ys"
    using length_through [OF ps(1,3)] ps(2) through_le [OF assms j]
    by (simp add: through_def prefix_best_def suffix_best_def)
next
  assume "j \<in> set (matches xs ys i 0) \<and> through xs ys i j = best xs ys"
  then show "\<exists>ps \<in> maximum_alignments xs ys. (i, j) \<in> set ps"
    using alignment_through [of i xs j ys] assms
    by (force simp: maximum_alignments_def through_def prefix_best_def suffix_best_def)
qed

lemma include_le: "i < length xs \<Longrightarrow> fst (include_of xs ys i) \<le> best xs ys"
  unfolding include_of_eq(1) by (rule Max.boundedI) (auto intro!: through_le)

lemma include_iff:
  assumes "i < length xs"
  shows "(\<exists>ps \<in> maximum_alignments xs ys. i \<in> fst ` set ps) \<longleftrightarrow> best xs ys \<noteq> 0 \<and> fst (include_of xs ys i) = best xs ys"
proof -
  have "best xs ys \<noteq> 0 \<and> fst (include_of xs ys i) = best xs ys \<longleftrightarrow>
      (\<exists>j \<in> set (matches xs ys i 0). through xs ys i j = best xs ys)" (is "?l \<longleftrightarrow> ?r")
  proof
    assume l: ?l
    have "fst (include_of xs ys i) \<in> insert 0 (through xs ys i ` set (matches xs ys i 0))"
      unfolding include_of_eq(1) by (rule Max_in) auto
    with l show ?r by (metis (no_types, lifting) imageE insertE)
  next
    assume ?r
    then obtain j where j: "j \<in> set (matches xs ys i 0)" "through xs ys i j = best xs ys" by blast
    have "through xs ys i j \<le> fst (include_of xs ys i)"
      unfolding include_of_eq(1) by (rule Max_ge) (use j(1) in blast)+
    moreover have "through xs ys i j \<noteq> 0" by (simp add: through_def)
    ultimately show ?l using j(2) include_le [OF assms, of ys] by simp
  qed
  also have "?r \<longleftrightarrow> (\<exists>ps \<in> maximum_alignments xs ys. i \<in> fst ` set ps)"
  proof -
    have "?r \<longleftrightarrow> (\<exists>j. \<exists>ps \<in> maximum_alignments xs ys. (i, j) \<in> set ps)"
      unfolding through_iff [OF assms] by blast
    then show ?thesis by force
  qed
  finally show ?thesis by simp
qed

lemma exclude_iff:
  "(\<exists>ps \<in> maximum_alignments xs ys. i \<notin> fst ` set ps) \<longleftrightarrow> exclude_of xs ys i = best xs ys"
  and exclude_le: "exclude_of xs ys i \<le> best xs ys"
proof -
  have avoid: "\<exists>ps \<in> alignments xs ys. i \<notin> fst ` set ps \<and> length ps = prefix_best xs ys i j + suffix_best xs ys (i + 1) j" for j
    using alignment_avoiding [of xs ys i j] by (simp add: prefix_best_def suffix_best_def)
  have "prefix_best xs ys i j + suffix_best xs ys (i + 1) j \<le> best xs ys" for j
    using avoid [of j] length_le_best by metis
  then show le: "exclude_of xs ys i \<le> best xs ys" unfolding exclude_of_def
    by (intro Max.boundedI) auto
  show "(\<exists>ps \<in> maximum_alignments xs ys. i \<notin> fst ` set ps) \<longleftrightarrow> exclude_of xs ys i = best xs ys" (is "?l \<longleftrightarrow> ?r")
  proof
    assume ?l
    then obtain ps where ps: "ps \<in> alignments xs ys" "length ps = best xs ys" "i \<notin> fst ` set ps"
      by (auto simp: maximum_alignments_def)
    then obtain j where "j \<le> length ys" "best xs ys \<le> prefix_best xs ys i j + suffix_best xs ys (i + 1) j"
      using length_around [OF ps(1,3)] by (auto simp: prefix_best_def suffix_best_def)
    moreover have "prefix_best xs ys i j + suffix_best xs ys (i + 1) j \<le> exclude_of xs ys i"
      unfolding exclude_of_def by (rule Max_ge) (use calculation in auto)
    ultimately show ?r using le by simp
  next
    assume r: ?r
    have "exclude_of xs ys i \<in> (\<lambda>j. prefix_best xs ys i j + suffix_best xs ys (i + 1) j) ` {..length ys}"
      unfolding exclude_of_def by (rule Max_in) auto
    then obtain j where "best xs ys = prefix_best xs ys i j + suffix_best xs ys (i + 1) j" using r by auto
    with avoid [of j] show ?l by (auto simp: maximum_alignments_def)
  qed
qed


lemma exclude_scores_hold:
  assumes "i < length xs" and small: "length xs < 2 ^ 22" and w: "w = length ys + 1" and h: "h = length xs + 1"
    and p: "table_holds (prefix_best xs ys) h w (\<lambda>_ _. True) pre"
    and s: "table_holds (suffix_best xs ys) h w (\<lambda>_ _. True) suf"
  shows "\<exists>scores. exclude_scores i w (length ys) pre suf = Some scores \<and> max_or_0 scores = of_nat (exclude_of xs ys i)"
proof -
  define f where "f j = prefix_best xs ys i j + suffix_best xs ys (i + 1) j" for j
  have f: "f j < 2 ^ 32" for j
  proof -
    have "f j \<le> length xs + length xs" unfolding f_def prefix_best_def suffix_best_def
      by (intro add_mono order_trans [OF best_le_length]) auto
    with small show ?thesis by simp
  qed
  have "do { p \<leftarrow> idx pre (i * w + j); s \<leftarrow> idx suf ((i + 1) * w + j); Some (p + s) } = Some (of_nat (f j))"
    if "j \<in> set [0..<length ys + 1]" for j
  proof -
    have "j < w" using that w by auto
    then show ?thesis using table_idx [OF p, of i j] table_idx [OF s, of "i + 1" j] assms(1) h by (simp add: f_def)
  qed
  then have "exclude_scores i w (length ys) pre suf = Some (map (\<lambda>j. of_nat (f j)) [0..<length ys + 1])"
    unfolding exclude_scores_def by (rule traverse_Some)
  moreover have "Max ((\<lambda>j. of_nat (f j) :: u32) ` {..length ys}) = of_nat (Max (f ` {..length ys}))"
  proof -
    obtain j where j: "j \<le> length ys" "f j = Max (f ` {..length ys})"
      using Max_in [of "f ` {..length ys}"] by fastforce
    have "of_nat (f j') \<le> (of_nat (f j) :: u32)" if "j' \<le> length ys" for j'
    proof -
      have "f j' \<le> f j" unfolding j(2) by (rule Max_ge) (use that in auto)
      then show ?thesis using word_of_nat_order [OF f f] by (metis leD leI)
    qed
    then have "Max ((\<lambda>j. of_nat (f j) :: u32) ` {..length ys}) = of_nat (f j)"
      using j(1) by (intro Max_eqI) auto
    then show ?thesis by (simp only: j(2))
  qed
  moreover have "set [0..<length ys + 1] = {..length ys}" by auto
  ultimately show ?thesis unfolding max_or_0_def exclude_of_def f_def
    by (auto simp del: upt_Suc simp add: atLeast0LessThan lessThan_Suc_atMost)
qed

lemma maximum_exists: "\<exists>ps. ps \<in> maximum_alignments xs ys"
  using best_attained by (auto simp: maximum_alignments_def)

lemma map_of_alignment:
  assumes "ps \<in> maximum_alignments xs ys"
  shows "map_of ps i = Some j \<longleftrightarrow> (i, j) \<in> set ps"
proof -
  have "sorted_wrt (<) (map fst ps)" using assms alignments_keys by (auto simp: maximum_alignments_def)
  then have "distinct (map fst ps)" using strict_sorted_iff by blast
  then show ?thesis by (simp add: map_of_eq_Some_iff)
qed

text \<open>The decision of the code is the one the maximum alignments make together.\<close>

definition unmatched_in_some :: "'a list \<Rightarrow> 'a list \<Rightarrow> nat \<Rightarrow> bool" where
  "unmatched_in_some xs ys i \<longleftrightarrow> (\<exists>ps \<in> maximum_alignments xs ys. map_of ps i = None)"

definition disagreement :: "'a list \<Rightarrow> 'a list \<Rightarrow> nat \<Rightarrow> bool" where
  "disagreement xs ys i \<longleftrightarrow> (\<exists>ps \<in> maximum_alignments xs ys. \<exists>qs \<in> maximum_alignments xs ys. map_of ps i \<noteq> map_of qs i)"

lemma unmatched_iff: "unmatched_in_some xs ys i \<longleftrightarrow> exclude_of xs ys i = best xs ys"
  unfolding unmatched_in_some_def exclude_iff [symmetric] by (simp add: map_of_eq_None_iff)

lemma disagreement_iff:
  assumes "i < length xs"
  shows "disagreement xs ys i \<longleftrightarrow> best xs ys \<noteq> 0 \<and> fst (include_of xs ys i) = best xs ys \<and>
    (exclude_of xs ys i = best xs ys \<or> snd (include_of xs ys i) > 1)"
proof (cases "\<exists>ps \<in> maximum_alignments xs ys. i \<in> fst ` set ps")
  case False
  then have "map_of ps i = None" if "ps \<in> maximum_alignments xs ys" for ps
    using that by (auto simp: map_of_eq_None_iff)
  then have "\<not> disagreement xs ys i" by (simp add: disagreement_def)
  with False show ?thesis using include_iff [OF assms, of ys] by auto
next
  case True
  then have inc: "best xs ys \<noteq> 0" "fst (include_of xs ys i) = best xs ys"
    using include_iff [OF assms, of ys] by auto
  obtain ps j where ps: "ps \<in> maximum_alignments xs ys" "(i, j) \<in> set ps" using True by force
  let ?J = "{j. \<exists>ps \<in> maximum_alignments xs ys. (i, j) \<in> set ps}"
  have J: "snd (include_of xs ys i) = card ?J"
    unfolding include_of_eq(2) inc(2) through_iff [OF assms] by simp
  have fin: "finite ?J" unfolding through_iff [OF assms] by simp
  have "card ?J > 1 \<longleftrightarrow> (\<exists>a \<in> ?J. \<exists>b \<in> ?J. a \<noteq> b)"
    using card_le_Suc0_iff_eq [OF fin] by (auto simp: not_le [symmetric])
  also have "\<dots> \<longleftrightarrow> (\<exists>ps \<in> maximum_alignments xs ys. \<exists>qs \<in> maximum_alignments xs ys. \<exists>a b.
      map_of ps i = Some a \<and> map_of qs i = Some b \<and> a \<noteq> b)"
  proof -
    have "(\<exists>a \<in> ?J. \<exists>b \<in> ?J. a \<noteq> b) \<longleftrightarrow> (\<exists>ps \<in> maximum_alignments xs ys. \<exists>qs \<in> maximum_alignments xs ys. \<exists>a b.
        (i, a) \<in> set ps \<and> (i, b) \<in> set qs \<and> a \<noteq> b)" by blast
    then show ?thesis by (simp add: map_of_alignment cong: bex_cong)
  qed
  finally have c: "snd (include_of xs ys i) > 1 \<longleftrightarrow> (\<exists>ps \<in> maximum_alignments xs ys. \<exists>qs \<in> maximum_alignments xs ys. \<exists>a b.
      map_of ps i = Some a \<and> map_of qs i = Some b \<and> a \<noteq> b)" using J by simp
  have m: "map_of ps i = Some j" using ps map_of_alignment by blast
  have "disagreement xs ys i \<longleftrightarrow> unmatched_in_some xs ys i \<or> snd (include_of xs ys i) > 1"
  proof
    assume "disagreement xs ys i"
    then obtain qs rs where q: "qs \<in> maximum_alignments xs ys" "rs \<in> maximum_alignments xs ys" "map_of qs i \<noteq> map_of rs i"
      by (auto simp: disagreement_def)
    then show "unmatched_in_some xs ys i \<or> snd (include_of xs ys i) > 1"
      unfolding c unmatched_in_some_def by (cases "map_of qs i"; cases "map_of rs i") (blast, blast, blast, fastforce)
  next
    assume "unmatched_in_some xs ys i \<or> snd (include_of xs ys i) > 1"
    then show "disagreement xs ys i"
    proof
      assume "unmatched_in_some xs ys i"
      then obtain qs where "qs \<in> maximum_alignments xs ys" "map_of qs i = None" by (auto simp: unmatched_in_some_def)
      with m ps(1) show ?thesis unfolding disagreement_def by (metis option.distinct(1))
    next
      assume "snd (include_of xs ys i) > 1"
      then show ?thesis unfolding c disagreement_def by (metis option.inject)
    qed
  qed
  with inc show ?thesis by (simp add: unmatched_iff)
qed

lemma decision_result:
  assumes "i < length xs" and small: "length xs < 2 ^ 22" and w: "w = length ys + 1" and h: "h = length xs + 1"
    and p: "table_holds (prefix_best xs ys) h w (\<lambda>_ _. True) pre"
    and s: "table_holds (suffix_best xs ys) h w (\<lambda>_ _. True) suf"
  shows "aligned_line_decision xs ys pre suf w i (of_nat (best xs ys)) =
    Some \<lparr>new_line = unmatched_in_some xs ys i, uncertain_line = disagreement xs ys i\<rparr>"
proof -
  obtain scores where e: "exclude_scores i w (length ys) pre suf = Some scores" "max_or_0 scores = of_nat (exclude_of xs ys i)"
    using exclude_scores_hold [OF assms] by blast
  have c: "include_scan (xs ! i) i w 0 ys pre suf (0, 0) = Some (of_nat (fst (include_of xs ys i)), snd (include_of xs ys i))"
    using include_scan_holds [OF assms, of ys 0 0 0] by (auto simp: include_of_def)
  have b: "best xs ys < 2 ^ 32" using best_le_length [of xs ys] small by simp
  have l: "fst (include_of xs ys i) < 2 ^ 32" "exclude_of xs ys i < 2 ^ 32"
    using include_le [OF assms(1), of ys] exclude_le [of xs ys i] b by simp_all
  have z: "(of_nat (best xs ys) :: u32) = 0 \<longleftrightarrow> best xs ys = 0" using word_of_nat_order(2) [OF b, of 0] by simp
  have match: "unmatched_in_some xs ys i" if "\<not> (best xs ys \<noteq> 0 \<and> fst (include_of xs ys i) = best xs ys)"
    using that maximum_exists [of xs ys] unfolding include_iff [OF assms(1), symmetric] unmatched_in_some_def
    by (auto simp: map_of_eq_None_iff)
  have i: "fst (include_of xs ys i) \<le> best xs ys" by (rule include_le [OF assms(1)])
  have x: "exclude_of xs ys i \<le> best xs ys" by (rule exclude_le)
  show ?thesis using match i x
    by (auto simp: aligned_line_decision_def idx_in [OF assms(1)] c e z word_of_nat_order [OF l(1) b]
      word_of_nat_order [OF l(2) b] disagreement_iff [OF assms(1)] unmatched_iff Let_def)
qed


lemma traverse_some_iff: "traverse f xs = Some (map g xs) \<longleftrightarrow> (\<forall>x \<in> set xs. f x = Some (g x))"
  by (induction xs) (auto split: Option.bind_splits)

lemma maximum_unique:
  "(\<exists>i < length xs. disagreement xs ys i) \<longleftrightarrow>
     (\<exists>ps \<in> maximum_alignments xs ys. \<exists>qs \<in> maximum_alignments xs ys. ps \<noteq> qs)"
proof
  assume "\<exists>i < length xs. disagreement xs ys i"
  then show "\<exists>ps \<in> maximum_alignments xs ys. \<exists>qs \<in> maximum_alignments xs ys. ps \<noteq> qs"
    by (auto simp: disagreement_def) metis
next
  assume "\<exists>ps \<in> maximum_alignments xs ys. \<exists>qs \<in> maximum_alignments xs ys. ps \<noteq> qs"
  then obtain ps qs where m: "ps \<in> maximum_alignments xs ys" "qs \<in> maximum_alignments xs ys" and ne: "ps \<noteq> qs" by blast
  have s: "sorted_wrt (<) (map fst rs)" "distinct rs" "\<And>p. p \<in> set rs \<Longrightarrow> fst p < length xs"
    if "rs \<in> maximum_alignments xs ys" for rs
  proof -
    have r: "rs \<in> alignments xs ys" using that by (simp add: maximum_alignments_def)
    then show "sorted_wrt (<) (map fst rs)" by (rule alignments_keys)
    then show "distinct rs" using strict_sorted_iff distinct_map by blast
    show "\<And>p. p \<in> set rs \<Longrightarrow> fst p < length xs" using r by (auto simp: alignments_def)
  qed
  have "map_of ps \<noteq> map_of qs"
  proof
    assume e: "map_of ps = map_of qs"
    have "set ps = set qs" using e map_of_alignment [OF m(1)] map_of_alignment [OF m(2)] by auto
    moreover have "sorted_wrt (\<lambda>p q. fst p < fst q) ps" "sorted_wrt (\<lambda>p q. fst p < fst q) qs"
      using s(1) [OF m(1)] s(1) [OF m(2)] by (simp_all add: sorted_wrt_map)
    ultimately have "ps = qs"
      using map_sorted_distinct_set_unique [of fst ps qs] s(1) [OF m(1)] s(1) [OF m(2)]
      by (metis inj_on_def map_of_alignment [OF m(1)] option.inject prod.collapse strict_sorted_iff Un_absorb)
    with ne show False by simp
  qed
  then obtain i where i: "map_of ps i \<noteq> map_of qs i" by blast
  have "i < length xs"
  proof (rule ccontr)
    assume "\<not> i < length xs"
    then have "i \<notin> fst ` set ps" "i \<notin> fst ` set qs" using s(3) [OF m(1)] s(3) [OF m(2)] by auto
    then have "map_of ps i = map_of qs i" by (metis map_of_eq_None_iff)
    with i show False by simp
  qed
  with i m show "\<exists>i < length xs. disagreement xs ys i" unfolding disagreement_def by blast
qed

lemma align_lines_result:
  "align_lines xs ys work limit =
     Some (and_then (matrix_cells (length xs) (length ys)) (\<lambda>cells.
       and_then (reserve_alignment_work work limit cells 3) (\<lambda>work.
         Inr (\<lparr>new_line_indices = filter (unmatched_in_some xs ys) [0..<length xs],
           uncertain_alignment = (\<exists>i < length xs. disagreement xs ys i)\<rparr>, work))))"
proof (cases "matrix_cells (length xs) (length ys)")
  case (Inr cells)
  have s: "length xs < 2 ^ 22" "length xs < 2 ^ 32" and c: "cells = (length xs + 1) * (length ys + 1)"
    using matrix_cells_Inr [OF Inr] by simp_all
  let ?w = "length ys + 1" and ?h = "length xs + 1"
  obtain pre where pre: "alignment_prefix xs ys (?h * ?w) ?w = Some pre"
    "table_holds (prefix_best xs ys) ?h ?w (\<lambda>_ _. True) pre"
    using alignment_prefix_holds [OF s(2) refl refl, of ys] by blast
  obtain suf where suf: "alignment_suffix xs ys (?h * ?w) ?w = Some suf"
    "table_holds (suffix_best xs ys) ?h ?w (\<lambda>_ _. True) suf"
    using alignment_suffix_holds [OF s(2) refl refl, of ys] by blast
  have g: "idx pre (length xs * ?w + length ys) = Some (of_nat (best xs ys))"
    using table_idx [OF pre(2), of "length xs" "length ys"] by (simp add: prefix_best_def)
  let ?d = "\<lambda>i. \<lparr>new_line = unmatched_in_some xs ys i, uncertain_line = disagreement xs ys i\<rparr>"
  have d: "traverse (\<lambda>i. aligned_line_decision xs ys pre suf ?w i (of_nat (best xs ys))) [0..<length xs] =
      Some (map ?d [0..<length xs])"
    by (rule traverse_Some) (rule decision_result [OF _ s(1) refl refl pre(2) suf(2)], simp)
  have n: "filter (\<lambda>i. new_line (map ?d [0..<length xs] ! i)) [0..<length xs] = filter (unmatched_in_some xs ys) [0..<length xs]"
    by (rule filter_cong) auto
  have u: "(\<exists>d \<in> set (map ?d [0..<length xs]). uncertain_line d) \<longleftrightarrow> (\<exists>i < length xs. disagreement xs ys i)"
    by auto
  show ?thesis
    by (cases "reserve_alignment_work work limit cells 3")
      (simp_all only: align_lines_def Inr c pre(1) suf(1) g d n u Let_def seq_try_simps and_then_simps Option.bind.simps)
qed (simp add: align_lines_def)

lemma reserve_result:
  "cells * passes \<le> usize_max \<Longrightarrow> reserve_alignment_work work limit cells passes =
     (if work + cells * passes \<le> usize_max then if work + cells * passes \<le> limit then Inr (work + cells * passes)
        else Inl ''baseline line-mapping work exceeds the bounded limit''
      else Inl ''baseline alignment work overflows'')"
  by (simp add: reserve_alignment_work_def usize_checked_def)

text \<open>The work budget of \<open>passes\<close> passes over the tables of two files.\<close>

definition within_budget :: "nat \<Rightarrow> nat \<Rightarrow> nat \<Rightarrow> nat \<Rightarrow> nat \<Rightarrow> bool" where
  "within_budget n m passes work limit \<longleftrightarrow>
     (n + 1) * (m + 1) \<le> MAX_ALIGNMENT_CELLS \<and> work + (n + 1) * (m + 1) * passes \<le> min limit usize_max"

lemma budget:
  fixes n m work limit :: nat
  assumes "passes \<le> 3"
  defines "r \<equiv> \<lambda>f. and_then (matrix_cells n m) (\<lambda>cells. and_then (reserve_alignment_work work limit cells passes) f)"
  shows budget_within: "within_budget n m passes work limit \<Longrightarrow> r f = f (work + (n + 1) * (m + 1) * passes)"
    and budget_exceeded: "\<not> within_budget n m passes work limit \<Longrightarrow> \<exists>e. r f = Inl e"
proof -
  have c: "(n + 1) * (m + 1) * passes \<le> usize_max" if "(n + 1) * (m + 1) \<le> MAX_ALIGNMENT_CELLS"
    using mult_le_mono [OF that \<open>passes \<le> 3\<close>] by (simp add: MAX_ALIGNMENT_CELLS_def usize_max_def)
  show "r f = f (work + (n + 1) * (m + 1) * passes)" if "within_budget n m passes work limit"
    using that c unfolding r_def matrix_cells_result within_budget_def
    by (simp add: reserve_result del: add_Suc_right mult_Suc_right mult_Suc)
  show "\<exists>e. r f = Inl e" if "\<not> within_budget n m passes work limit"
  proof (cases "(n + 1) * (m + 1) \<le> MAX_ALIGNMENT_CELLS")
    case True
    then have "\<not> work + (n + 1) * (m + 1) * passes \<le> min limit usize_max"
      using that by (simp only: within_budget_def simp_thms)
    then have "\<exists>e. reserve_alignment_work work limit ((n + 1) * (m + 1)) passes = Inl e"
      unfolding reserve_result [OF c [OF True]] by auto
    then show ?thesis unfolding r_def matrix_cells_result if_P [OF True] by auto
  next
    case False
    then show ?thesis unfolding r_def matrix_cells_result by auto
  qed
qed

text \<open>C20: The bounded dynamic program \<open>lcs_length\<close> never panics (every table access is in range and no \<open>u32\<close>
  overflows). It succeeds exactly when the table has at most 4,000,000 cells and the work counter stays
  within the limit and within \<open>usize\<close>, and then it returns the length of a longest order-preserving matching
  of equal lines, and the counter raised by the cells of the table.\<close>
theorem lcs_length_correct:
  "lcs_length xs ys work limit \<noteq> None \<and>
   (lcs_length xs ys work limit = Some (Inr (k, work')) \<longleftrightarrow>
      within_budget (length xs) (length ys) 1 work limit \<and>
      k = Max (length ` alignments xs ys) \<and> work' = work + (length xs + 1) * (length ys + 1))"
  unfolding lcs_length_result best_def [symmetric]
  using budget_within [of 1 "length xs" "length ys" work limit "\<lambda>work. Inr (best xs ys, work)"]
    budget_exceeded [of 1 "length xs" "length ys" work limit "\<lambda>work. Inr (best xs ys, work)"]
  by (cases "within_budget (length xs) (length ys) 1 work limit") auto

text \<open>C4: The line alignment \<open>align_lines\<close> never panics and succeeds exactly within its work budget (three
  passes over the tables). A line of the current file is then reported as new exactly when some maximum
  alignment with the reference leaves it unmatched, and the result is flagged uncertain exactly when the
  maximum alignment is not unique.\<close>
theorem align_lines_correct:
  "\<exists>r. align_lines xs ys work limit = Some r \<and>
   (case r of Inl e \<Rightarrow> \<not> within_budget (length xs) (length ys) 3 work limit
    | Inr (a, work') \<Rightarrow> within_budget (length xs) (length ys) 3 work limit \<and>
        work' = work + (length xs + 1) * (length ys + 1) * 3 \<and>
        new_line_indices a = filter (\<lambda>i. \<exists>ps \<in> maximum_alignments xs ys. map_of ps i = None) [0..<length xs] \<and>
        (uncertain_alignment a \<longleftrightarrow>
          (\<exists>ps \<in> maximum_alignments xs ys. \<exists>qs \<in> maximum_alignments xs ys. ps \<noteq> qs)))"
proof (cases "within_budget (length xs) (length ys) 3 work limit")
  case True
  show ?thesis unfolding align_lines_result budget_within [OF order_refl True] maximum_unique
    using True by (simp add: unmatched_in_some_def [abs_def])
next
  case False
  have "\<exists>e. align_lines xs ys work limit = Some (Inl e)"
    unfolding align_lines_result option.inject by (rule budget_exceeded [OF order_refl False])
  with False show ?thesis by auto
qed

end
