(* ===== verification/Counterparts.thy ===== *)
theory Counterparts
  imports LineAlignment Artifacts
begin

text \<open>
  The pairing of current sources with reference sources in
  \<open>crates/hoonarqube-core/src/assessment/baseline.rs\<close>: equal paths first, then renames by unique
  equal content, then renames with changes by the best line overlap. The four arrays of the code are
  one record; every index is checked, so \<open>None\<close> is a panic.
\<close>

subsection \<open>Pairs\<close>

record counterpart_pairs =
  current_to_reference :: "nat option list"
  reference_to_current :: "nat option list"
  ambiguous_pairs :: bool

record pairing_state =
  to_reference :: "nat option list"
  to_current :: "nat option list"
  used_current :: "bool list"
  used_reference :: "bool list"

text \<open>The four assignments that record a pair.\<close>

definition record_pair :: "nat \<Rightarrow> nat \<Rightarrow> pairing_state \<Rightarrow> pairing_state option" where
  "record_pair current_index reference_index st = do {
     c2r \<leftarrow> upd (to_reference st) current_index (Some reference_index);
     r2c \<leftarrow> upd (to_current st) reference_index (Some current_index);
     uc \<leftarrow> upd (used_current st) current_index True;
     ur \<leftarrow> upd (used_reference st) reference_index True;
     Some \<lparr>to_reference = c2r, to_current = r2c, used_current = uc, used_reference = ur\<rparr> }"

definition validate_source_inventory :: "source_snapshot list \<Rightarrow> source_snapshot list \<Rightarrow> nat \<Rightarrow> string + unit" where
  "validate_source_inventory current reference max_source_files =
     check (\<not> (length current > max_source_files \<or> length reference > max_source_files))
       ''assessment source inventory exceeds the bounded baseline limit''"

subsection \<open>Equal paths\<close>

fun index_paths :: "nat \<Rightarrow> source_snapshot list \<Rightarrow> (component list, nat) btree \<Rightarrow> (component list, nat) btree" where
  "index_paths i [] m = m"
| "index_paths i (s # ss) m = index_paths (i + 1) ss (bt_put (path_key (snapshot_path s)) i m)"

fun pair_paths :: "nat \<Rightarrow> source_snapshot list \<Rightarrow> (component list, nat) btree \<Rightarrow> pairing_state \<Rightarrow> pairing_state option" where
  "pair_paths i [] by_path st = Some st"
| "pair_paths i (s # ss) by_path st =
     (case map_of by_path (path_key (snapshot_path s)) of
        None \<Rightarrow> pair_paths (i + 1) ss by_path st
      | Some j \<Rightarrow> do { st \<leftarrow> record_pair i j st; pair_paths (i + 1) ss by_path st })"

definition pair_exact_paths :: "source_snapshot list \<Rightarrow> source_snapshot list \<Rightarrow> pairing_state \<Rightarrow> pairing_state option" where
  "pair_exact_paths current reference st = pair_paths 0 current (index_paths 0 reference []) st"

subsection \<open>Unique equal content\<close>

fun group_digests :: "nat \<Rightarrow> source_snapshot list \<Rightarrow> bool list \<Rightarrow> (string, nat list) btree \<Rightarrow> (string, nat list) btree option" where
  "group_digests i [] used groups = Some groups"
| "group_digests i (s # ss) used groups = do {
     u \<leftarrow> idx used i;
     group_digests (i + 1) ss used (if u then groups
       else bt_put (content_digest s)
         ((case map_of groups (content_digest s) of None \<Rightarrow> [] | Some is \<Rightarrow> is) @ [i]) groups) }"

definition unpaired_digest_groups :: "source_snapshot list \<Rightarrow> bool list \<Rightarrow> (string, nat list) btree option" where
  "unpaired_digest_groups sources used = group_digests 0 sources used []"

fun pair_unique_digests :: "(string, nat list) btree \<Rightarrow> (string, nat list) btree \<Rightarrow> bool \<Rightarrow> pairing_state \<Rightarrow>
    (bool \<times> pairing_state) option" where
  "pair_unique_digests [] reference_groups amb st = Some (amb, st)"
| "pair_unique_digests ((digest, current_group) # groups) reference_groups amb st =
     (case map_of reference_groups digest of
        None \<Rightarrow> pair_unique_digests groups reference_groups amb st
      | Some reference_group \<Rightarrow>
          if length current_group = 1 \<and> length reference_group = 1 then do {
            i \<leftarrow> idx current_group 0;
            j \<leftarrow> idx reference_group 0;
            st \<leftarrow> record_pair i j st;
            pair_unique_digests groups reference_groups amb st }
          else pair_unique_digests groups reference_groups True st)"

subsection \<open>The best line overlap\<close>

definition line_overlap_score :: "source_snapshot \<Rightarrow> source_snapshot \<Rightarrow> nat \<Rightarrow> nat \<Rightarrow> (string + nat \<times> nat) option" where
  "line_overlap_score left right line_work max_line_work =
     lcs_length (line_digests left) (line_digests right) line_work max_line_work"

text \<open>The work counters are threaded through; the result is the score, when it is not zero.\<close>

record work =
  pair_work :: nat
  line_work :: nat

record matching =
  current_sources :: "source_snapshot list"
  reference_sources :: "source_snapshot list"
  reference_taken :: "bool list"
  max_pair_work :: nat
  max_line_work :: nat

definition counterpart_candidate_score :: "matching \<Rightarrow> nat \<Rightarrow> nat \<Rightarrow> work \<Rightarrow> (string + nat option \<times> work) option" where
  "counterpart_candidate_score m current_index reference_index w = do {
     taken \<leftarrow> idx (reference_taken m) reference_index;
     if taken then Some (Inr (None, w)) else do {
     c \<leftarrow> idx (current_sources m) current_index;
     r \<leftarrow> idx (reference_sources m) reference_index;
     if content_digest c = content_digest r then Some (Inr (None, w)) else
     let w = w\<lparr>pair_work := min (pair_work w + 1) usize_max\<rparr> in
     seq_try (Some (check (\<not> pair_work w > max_pair_work m)
       ''baseline counterpart candidate work exceeds the bounded limit'')) (\<lambda>_.
     seq_try (line_overlap_score c r (line_work w) (max_line_work m)) (\<lambda>(score, lw).
     Some (Inr (if score \<noteq> 0 then Some score else None, w\<lparr>line_work := lw\<rparr>)))) } }"

type_synonym candidates = "(nat \<times> nat) list list"

text \<open>\<open>js\<close> are the reference indices still to visit.\<close>

fun collect_references :: "matching \<Rightarrow> nat \<Rightarrow> nat list \<Rightarrow> work \<times> candidates \<times> candidates \<Rightarrow>
    (string + work \<times> candidates \<times> candidates) option" where
  "collect_references m i [] acc = Some (Inr acc)"
| "collect_references m i (j # js) (w, by_current, by_reference) =
     seq_try (counterpart_candidate_score m i j w) (\<lambda>(score, w).
       case score of
         None \<Rightarrow> collect_references m i js (w, by_current, by_reference)
       | Some s \<Rightarrow> do {
           cs \<leftarrow> idx by_current i;
           by_current \<leftarrow> upd by_current i (cs @ [(j, s)]);
           rs \<leftarrow> idx by_reference j;
           by_reference \<leftarrow> upd by_reference j (rs @ [(i, s)]);
           collect_references m i js (w, by_current, by_reference) })"

fun collect_counterpart_candidates :: "matching \<Rightarrow> bool list \<Rightarrow> nat list \<Rightarrow> work \<times> candidates \<times> candidates \<Rightarrow>
    (string + work \<times> candidates \<times> candidates) option" where
  "collect_counterpart_candidates m used [] acc = Some (Inr acc)"
| "collect_counterpart_candidates m used (i # is) acc = do {
     u \<leftarrow> idx used i;
     if u then collect_counterpart_candidates m used is acc
     else seq_try (collect_references m i [0..<length (snd (snd acc))] acc) (\<lambda>acc.
       collect_counterpart_candidates m used is acc) }"

definition best_candidate_references :: "(nat \<times> nat) list \<Rightarrow> nat \<Rightarrow> nat list" where
  "best_candidate_references candidates best_score = map fst (filter (\<lambda>(_, score). score = best_score) candidates)"

definition reference_candidate_ties :: "candidates \<Rightarrow> nat \<Rightarrow> bool option" where
  "reference_candidate_ties by_reference reference_index = do {
     candidates \<leftarrow> idx by_reference reference_index;
     let max_score = (if candidates = [] then 0 else Max (snd ` set candidates));
     Some (length (filter (\<lambda>(_, score). score = max_score) candidates) > 1) }"

text \<open>\<open>any\<close> stops at the first tie.\<close>

fun any_tie :: "candidates \<Rightarrow> nat list \<Rightarrow> bool option" where
  "any_tie by_reference [] = Some False"
| "any_tie by_reference (j # js) = do {
     tie \<leftarrow> reference_candidate_ties by_reference j;
     if tie then Some True else any_tie by_reference js }"

fun reserve_fuzzy_counterparts :: "nat list \<Rightarrow> candidates \<Rightarrow> candidates \<Rightarrow> bool \<Rightarrow> pairing_state \<Rightarrow> (bool \<times> pairing_state) option" where
  "reserve_fuzzy_counterparts [] by_current by_reference amb st = Some (amb, st)"
| "reserve_fuzzy_counterparts (i # is) by_current by_reference amb st = do {
     u \<leftarrow> idx (used_current st) i;
     if u then reserve_fuzzy_counterparts is by_current by_reference amb st else do {
     candidates \<leftarrow> idx by_current i;
     if candidates = [] then reserve_fuzzy_counterparts is by_current by_reference amb st else do {
     let best = best_candidate_references candidates (Max (snd ` set candidates));
     reference_has_tie \<leftarrow> any_tie by_reference best;
     if length best \<noteq> 1 \<or> reference_has_tie then reserve_fuzzy_counterparts is by_current by_reference True st else do {
     j \<leftarrow> idx best 0;
     taken \<leftarrow> idx (used_reference st) j;
     if taken then reserve_fuzzy_counterparts is by_current by_reference True st else do {
     st \<leftarrow> record_pair i j st;
     reserve_fuzzy_counterparts is by_current by_reference amb st } } } } }"

subsection \<open>The pairing\<close>

definition MAX_SOURCE_FILES :: nat where "MAX_SOURCE_FILES = 16384"
definition MAX_PAIR_WORK :: nat where "MAX_PAIR_WORK = 4000000"
definition MAX_LINE_WORK :: nat where "MAX_LINE_WORK = 64000000"

definition assign_counterparts :: "source_snapshot list \<Rightarrow> source_snapshot list \<Rightarrow> (string + counterpart_pairs) option" where
  "assign_counterparts current reference =
     seq_try (Some (validate_source_inventory current reference MAX_SOURCE_FILES)) (\<lambda>_. do {
     st \<leftarrow> pair_exact_paths current reference
       \<lparr>to_reference = replicate (length current) None, to_current = replicate (length reference) None,
        used_current = replicate (length current) False, used_reference = replicate (length reference) False\<rparr>;
     current_groups \<leftarrow> unpaired_digest_groups current (used_current st);
     reference_groups \<leftarrow> unpaired_digest_groups reference (used_reference st);
     (amb, st) \<leftarrow> pair_unique_digests current_groups reference_groups False st;
     seq_try (collect_counterpart_candidates
         \<lparr>current_sources = current, reference_sources = reference, reference_taken = used_reference st,
          max_pair_work = MAX_PAIR_WORK, max_line_work = MAX_LINE_WORK\<rparr> (used_current st) [0..<length current]
         (\<lparr>pair_work = 0, line_work = 0\<rparr>, replicate (length current) [], replicate (length reference) []))
       (\<lambda>(w, by_current, by_reference). do {
     (fuzzy, st) \<leftarrow> reserve_fuzzy_counterparts [0..<length current] by_current by_reference False st;
     Some (Inr \<lparr>current_to_reference = to_reference st, reference_to_current = to_current st,
       ambiguous_pairs = (amb \<or> fuzzy)\<rparr>) }) })"


section \<open>The pairing is a partial bijection\<close>

text \<open>A pair of indices is listed from both sides, and the flags say which sides are taken.\<close>

definition paired :: "pairing_state \<Rightarrow> nat \<Rightarrow> nat \<Rightarrow> bool" where
  "paired st i j \<longleftrightarrow> i < length (to_reference st) \<and> to_reference st ! i = Some j"

definition mirrored :: "nat option list \<Rightarrow> nat option list \<Rightarrow> bool" where
  "mirrored c2r r2c \<longleftrightarrow>
     (\<forall>i < length c2r. \<forall>j. c2r ! i = Some j \<longrightarrow> j < length r2c \<and> r2c ! j = Some i) \<and>
     (\<forall>j < length r2c. \<forall>i. r2c ! j = Some i \<longrightarrow> i < length c2r \<and> c2r ! i = Some j)"

definition pairing_ok :: "nat \<Rightarrow> nat \<Rightarrow> pairing_state \<Rightarrow> bool" where
  "pairing_ok n m st \<longleftrightarrow> length (to_reference st) = n \<and> length (to_current st) = m \<and>
     length (used_current st) = n \<and> length (used_reference st) = m \<and>
     mirrored (to_reference st) (to_current st) \<and>
     (\<forall>i < n. used_current st ! i \<longleftrightarrow> to_reference st ! i \<noteq> None) \<and>
     (\<forall>j < m. used_reference st ! j \<longleftrightarrow> to_current st ! j \<noteq> None)"

lemma pairing_views:
  assumes "pairing_ok n m st"
  shows "paired st i j \<longleftrightarrow> i < n \<and> to_reference st ! i = Some j"
    and "paired st i j \<longleftrightarrow> j < m \<and> to_current st ! j = Some i"
proof -
  have l: "length (to_reference st) = n" "length (to_current st) = m"
    and mir: "mirrored (to_reference st) (to_current st)" using assms by (simp_all add: pairing_ok_def)
  show "paired st i j \<longleftrightarrow> i < n \<and> to_reference st ! i = Some j" by (simp add: paired_def l)
  show "paired st i j \<longleftrightarrow> j < m \<and> to_current st ! j = Some i"
    using mir unfolding paired_def mirrored_def l by blast
qed

lemma used_current_iff: "pairing_ok n m st \<Longrightarrow> i < n \<Longrightarrow> used_current st ! i \<longleftrightarrow> (\<exists>j. paired st i j)"
  by (simp add: pairing_views(1)) (simp add: pairing_ok_def)

lemma used_reference_iff: "pairing_ok n m st \<Longrightarrow> j < m \<Longrightarrow> used_reference st ! j \<longleftrightarrow> (\<exists>i. paired st i j)"
  by (simp add: pairing_views(2)) (simp add: pairing_ok_def)

lemma paired_bounds: "pairing_ok n m st \<Longrightarrow> paired st i j \<Longrightarrow> i < n \<and> j < m \<and> used_current st ! i \<and> used_reference st ! j"
  using pairing_views [of n m st i j] used_current_iff [of n m st i] used_reference_iff [of n m st j] by blast

lemma pairing_lengths: "pairing_ok n m st \<Longrightarrow> length (to_reference st) = n \<and> length (to_current st) = m \<and>
    length (used_current st) = n \<and> length (used_reference st) = m"
  by (simp add: pairing_ok_def)

lemma mirrored_current: "mirrored c r \<Longrightarrow> i < length c \<Longrightarrow> c ! i = Some j \<Longrightarrow> j < length r \<and> r ! j = Some i"
  and mirrored_reference: "mirrored c r \<Longrightarrow> j < length r \<Longrightarrow> r ! j = Some i \<Longrightarrow> i < length c \<and> c ! i = Some j"
  unfolding mirrored_def by blast+

lemma mirroredI:
  "(\<And>i j. i < length c \<Longrightarrow> c ! i = Some j \<Longrightarrow> j < length r \<and> r ! j = Some i) \<Longrightarrow>
   (\<And>j i. j < length r \<Longrightarrow> r ! j = Some i \<Longrightarrow> i < length c \<and> c ! i = Some j) \<Longrightarrow> mirrored c r"
  unfolding mirrored_def by blast

lemma mirrored_record:
  assumes "mirrored c r" and "i < length c" and "j < length r" and "c ! i = None" and "r ! j = None"
  shows "mirrored (c[i := Some j]) (r[j := Some i])"
proof (rule mirroredI)
  fix a b assume a: "a < length (c[i := Some j])" "c[i := Some j] ! a = Some b"
  show "b < length (r[j := Some i]) \<and> r[j := Some i] ! b = Some a"
  proof (cases "a = i")
    case False
    with a have "b < length r \<and> r ! b = Some a" by (intro mirrored_current [OF assms(1)]) simp_all
    then show ?thesis using assms(5) by (cases "b = j") simp_all
  qed (use a assms in simp)
next
  fix b a assume b: "b < length (r[j := Some i])" "r[j := Some i] ! b = Some a"
  show "a < length (c[i := Some j]) \<and> c[i := Some j] ! a = Some b"
  proof (cases "b = j")
    case False
    with b have "a < length c \<and> c ! a = Some b" by (intro mirrored_reference [OF assms(1)]) simp_all
    then show ?thesis using assms(4) by (cases "a = i") simp_all
  qed (use b assms in simp)
qed

lemma record_pair_ok:
  assumes ok: "pairing_ok n m st" and i: "i < n" and j: "j < m"
    and free: "\<not> used_current st ! i" "\<not> used_reference st ! j"
  shows "\<exists>st'. record_pair i j st = Some st' \<and> pairing_ok n m st' \<and>
    (\<forall>a b. paired st' a b \<longleftrightarrow> paired st a b \<or> (a = i \<and> b = j)) \<and>
    used_current st' = (used_current st)[i := True] \<and> used_reference st' = (used_reference st)[j := True]"
proof -
  let ?st = "\<lparr>to_reference = (to_reference st)[i := Some j], to_current = (to_current st)[j := Some i],
    used_current = (used_current st)[i := True], used_reference = (used_reference st)[j := True]\<rparr>"
  have l: "length (to_reference st) = n" "length (to_current st) = m" "length (used_current st) = n"
    "length (used_reference st) = m" and mir: "mirrored (to_reference st) (to_current st)"
    and u: "\<And>i. i < n \<Longrightarrow> used_current st ! i \<longleftrightarrow> to_reference st ! i \<noteq> None"
      "\<And>j. j < m \<Longrightarrow> used_reference st ! j \<longleftrightarrow> to_current st ! j \<noteq> None"
    using ok by (simp_all add: pairing_ok_def)
  have n: "to_reference st ! i = None" "to_current st ! j = None" using u i j free by auto
  have "record_pair i j st = Some ?st" using l i j by (simp add: record_pair_def panic_simps)
  moreover have "pairing_ok n m ?st"
    using mirrored_record [OF mir, of i j] l i j n by (simp add: pairing_ok_def nth_list_update u)
  moreover have "paired ?st a b \<longleftrightarrow> paired st a b \<or> (a = i \<and> b = j)" for a b
    using l i n by (auto simp: paired_def nth_list_update)
  ultimately show ?thesis by simp
qed

text \<open>One stage of the pairing: it keeps the invariant and every earlier pair, and each new pair meets \<open>P\<close>.\<close>

definition extends :: "nat \<Rightarrow> nat \<Rightarrow> (nat \<Rightarrow> nat \<Rightarrow> bool) \<Rightarrow> pairing_state \<Rightarrow> pairing_state \<Rightarrow> bool" where
  "extends n m P st st' \<longleftrightarrow> pairing_ok n m st' \<and> (\<forall>i j. paired st i j \<longrightarrow> paired st' i j) \<and>
     (\<forall>i j. paired st' i j \<longrightarrow> paired st i j \<or> P i j)"

lemma extends_refl: "pairing_ok n m st \<Longrightarrow> extends n m P st st"
  by (simp add: extends_def)

lemma extends_trans: "extends n m P st st' \<Longrightarrow> extends n m P st' st'' \<Longrightarrow> extends n m P st st''"
  unfolding extends_def by blast

lemma extends_record:
  assumes "pairing_ok n m st" and "i < n" and "j < m" and "\<not> used_current st ! i" and "\<not> used_reference st ! j"
    and "P i j"
  obtains st' where "record_pair i j st = Some st'" "extends n m P st st'" "paired st' i j"
    "used_current st' = (used_current st)[i := True]" "used_reference st' = (used_reference st)[j := True]"
proof -
  obtain st' where st': "record_pair i j st = Some st'" "pairing_ok n m st'"
    "\<forall>a b. paired st' a b \<longleftrightarrow> paired st a b \<or> (a = i \<and> b = j)"
    "used_current st' = (used_current st)[i := True]" "used_reference st' = (used_reference st)[j := True]"
    using record_pair_ok [OF assms(1-5)] by blast
  moreover from st' have "extends n m P st st'" using assms(6) by (auto simp: extends_def)
  ultimately show ?thesis using that by blast
qed

subsection \<open>Equal paths\<close>

definition source_key :: "source_snapshot \<Rightarrow> component list" where
  "source_key s = path_key (snapshot_path s)"

definition same_path :: "source_snapshot list \<Rightarrow> source_snapshot list \<Rightarrow> nat \<Rightarrow> nat \<Rightarrow> bool" where
  "same_path current reference i j \<longleftrightarrow> i < length current \<and> j < length reference \<and>
     source_key (current ! i) = source_key (reference ! j)"

lemma index_paths_get:
  assumes "distinct (map source_key ss)"
  shows "map_of (index_paths i ss m) k = Some j \<longleftrightarrow>
    (if k \<in> source_key ` set ss then i \<le> j \<and> j < i + length ss \<and> source_key (ss ! (j - i)) = k else map_of m k = Some j)"
  using assms
proof (induction ss arbitrary: i m)
  case (Cons s ss)
  have "map_of (index_paths (Suc i) ss (bt_put (source_key s) i m)) k = Some j \<longleftrightarrow>
    (if k \<in> source_key ` set ss then Suc i \<le> j \<and> j < Suc i + length ss \<and> source_key (ss ! (j - Suc i)) = k
     else if k = source_key s then i = j else map_of m k = Some j)"
    using Cons by (subst Cons.IH) auto
  also have "\<dots> \<longleftrightarrow> (if k \<in> source_key ` set (s # ss)
     then i \<le> j \<and> j < i + length (s # ss) \<and> source_key ((s # ss) ! (j - i)) = k else map_of m k = Some j)"
  proof (cases "j = i")
    case True
    then show ?thesis using Cons.prems by auto
  next
    case False
    have "source_key s \<noteq> source_key (ss ! (j - Suc i))" if "j < Suc i + length ss" "Suc i \<le> j"
      using Cons.prems that by (metis (no_types, lifting) add.commute add_diff_inverse_nat distinct.simps(2) image_eqI less_diff_conv2 list.simps(9) list.set_map nat_add_left_cancel_less not_less nth_mem)
    then show ?thesis using False by (cases "i < j") (auto simp: nth_Cons' Suc_diff_Suc)
  qed
  finally show ?case by (simp add: source_key_def)
qed simp

lemma pair_paths_ok:
  assumes by_path: "\<And>k j. map_of by_path k = Some j \<longleftrightarrow> j < length reference \<and> source_key (reference ! j) = k"
    and d: "distinct (map source_key current)"
    and "ss = drop i current" and "i + length ss = length current"
    and "pairing_ok (length current) (length reference) st"
    and "\<And>a b. paired st a b \<longleftrightarrow> a < i \<and> same_path current reference a b"
  shows "\<exists>st'. pair_paths i ss by_path st = Some st' \<and> pairing_ok (length current) (length reference) st' \<and>
    (\<forall>a b. paired st' a b \<longleftrightarrow> same_path current reference a b)"
  using assms(3-)
proof (induction ss arbitrary: i st)
  case Nil
  then show ?case by (auto simp: same_path_def)
next
  case (Cons s ss)
  have i: "i < length current" "s = current ! i" "ss = drop (i + 1) current" using drop_eq_ConsD [OF Cons.prems(1)] by auto
  have l: "i + 1 + length ss = length current" using Cons.prems(2) by simp
  show ?case
  proof (cases "map_of by_path (source_key s)")
    case None
    then have "\<not> same_path current reference i b" for b
      using by_path [of "source_key s" b] i by (auto simp: same_path_def)
    then have "paired st a b \<longleftrightarrow> a < i + 1 \<and> same_path current reference a b" for a b
      using Cons.prems(4) [of a b] by (auto simp: less_Suc_eq)
    with Cons.IH [OF i(3) l Cons.prems(3)] None show ?thesis by (simp add: source_key_def)
  next
    case (Some j)
    then have j: "j < length reference" "source_key (reference ! j) = source_key s" using by_path by auto
    have u: "\<not> used_current st ! i" using used_current_iff [OF Cons.prems(3) i(1)] Cons.prems(4) by auto
    have "a = i" if "same_path current reference a j" for a
      using that j(2) i d by (auto simp: same_path_def distinct_conv_nth)
    then have v: "\<not> used_reference st ! j"
      using used_reference_iff [OF Cons.prems(3) j(1)] Cons.prems(4) by blast
    obtain st' where st': "record_pair i j st = Some st'" "pairing_ok (length current) (length reference) st'"
      "\<forall>a b. paired st' a b \<longleftrightarrow> paired st a b \<or> (a = i \<and> b = j)"
      using record_pair_ok [OF Cons.prems(3) i(1) j(1) u v] by blast
    have "b = j" if "same_path current reference i b" for b
      using that Some by_path [of "source_key s" b] i by (auto simp: same_path_def)
    then have "paired st' a b \<longleftrightarrow> a < i + 1 \<and> same_path current reference a b" for a b
      using st'(3) Cons.prems(4) [of a b] i j by (auto simp: less_Suc_eq same_path_def)
    with Cons.IH [OF i(3) l st'(2)] Some st'(1) show ?thesis by (simp add: source_key_def)
  qed
qed

lemma pair_exact_paths_ok:
  assumes "distinct (map source_key current)" and "distinct (map source_key reference)"
    and "pairing_ok (length current) (length reference) st" and "\<And>a b. \<not> paired st a b"
  shows "\<exists>st'. pair_exact_paths current reference st = Some st' \<and> pairing_ok (length current) (length reference) st' \<and>
    (\<forall>a b. paired st' a b \<longleftrightarrow> same_path current reference a b)"
proof -
  have "map_of (index_paths 0 reference []) k = Some j \<longleftrightarrow> j < length reference \<and> source_key (reference ! j) = k" for k j
    unfolding index_paths_get [OF assms(2)] by (auto simp: image_iff)
  then show ?thesis unfolding pair_exact_paths_def
    by (rule pair_paths_ok [OF _ assms(1)]) (use assms(3,4) in auto)
qed


subsection \<open>Unique equal content\<close>

definition unpaired_with :: "source_snapshot list \<Rightarrow> bool list \<Rightarrow> string \<Rightarrow> nat list" where
  "unpaired_with sources used d = filter (\<lambda>i. \<not> used ! i \<and> content_digest (sources ! i) = d) [0..<length sources]"

lemma group_digests_ok:
  assumes "length used = length sources" and "ss = drop i sources" and "i + length ss = length sources"
    and "bt_ok g" and "\<And>d. map_of g d = (let is = filter (\<lambda>i. \<not> used ! i \<and> content_digest (sources ! i) = d) [0..<i] in
      if is = [] then None else Some is)"
  shows "\<exists>g'. group_digests i ss used g = Some g' \<and> bt_ok g' \<and>
    (\<forall>d. map_of g' d = (let is = unpaired_with sources used d in if is = [] then None else Some is))"
  using assms(2-)
proof (induction ss arbitrary: i g)
  case Nil
  then show ?case by (simp add: unpaired_with_def)
next
  case (Cons s ss)
  have i: "i < length sources" "s = sources ! i" "ss = drop (i + 1) sources" using drop_eq_ConsD [OF Cons.prems(1)] by auto
  let ?old = "case map_of g (content_digest s) of None \<Rightarrow> [] | Some is \<Rightarrow> is"
  let ?g = "if used ! i then g else bt_put (content_digest s) (?old @ [i]) g"
  have "\<exists>g'. group_digests (i + 1) ss used ?g = Some g' \<and> bt_ok g' \<and>
    (\<forall>d. map_of g' d = (let is = unpaired_with sources used d in if is = [] then None else Some is))"
  proof (rule Cons.IH [OF i(3)])
    show "i + 1 + length ss = length sources" using Cons.prems(2) by simp
    show "bt_ok ?g" using Cons.prems(3) by simp
    show "map_of ?g d = (let is = filter (\<lambda>i. \<not> used ! i \<and> content_digest (sources ! i) = d) [0..<i + 1] in
      if is = [] then None else Some is)" for d
      using Cons.prems(4) [of d] i(2) by (auto simp: Let_def)
  qed
  then show ?case using assms(1) i(1) by (simp add: panic_simps split del: if_split)
qed

lemma unpaired_digest_groups_ok:
  assumes "length used = length sources"
  shows "\<exists>g. unpaired_digest_groups sources used = Some g \<and> bt_ok g \<and>
    (\<forall>d. map_of g d = (let is = unpaired_with sources used d in if is = [] then None else Some is))"
  unfolding unpaired_digest_groups_def by (rule group_digests_ok [OF assms]) simp_all

lemma pair_unique_digests_ok:
  assumes "distinct (map fst groups)"
    and "pairing_ok n m st"
    and "\<And>d i. (d, [i]) \<in> set groups \<Longrightarrow> i < n \<and> \<not> used_current st ! i \<and> dc i = d"
    and "\<And>d i j. (d, [i]) \<in> set groups \<Longrightarrow> map_of rg d = Some [j] \<Longrightarrow> j < m \<and> \<not> used_reference st ! j \<and> dr j = d"
  shows "\<exists>st'. pair_unique_digests groups rg amb st =
      Some (amb \<or> (\<exists>(d, g) \<in> set groups. \<exists>h. map_of rg d = Some h \<and> \<not> (length g = 1 \<and> length h = 1)), st') \<and>
    pairing_ok n m st' \<and>
    (\<forall>i j. paired st' i j \<longleftrightarrow> paired st i j \<or> (\<exists>d. (d, [i]) \<in> set groups \<and> map_of rg d = Some [j]))"
  using assms
proof (induction groups arbitrary: amb st)
  case Nil
  then show ?case by simp
next
  case (Cons x groups)
  obtain d g where x: "x = (d, g)" by (cases x)
  note prems = Cons.prems [unfolded x]
  have tail: "\<And>d i. (d, [i]) \<in> set groups \<Longrightarrow> i < n \<and> \<not> used_current st ! i \<and> dc i = d"
    "\<And>d i j. (d, [i]) \<in> set groups \<Longrightarrow> map_of rg d = Some [j] \<Longrightarrow> j < m \<and> \<not> used_reference st ! j \<and> dr j = d"
    using prems(3,4) by (meson list.set_intros(2))+
  have dist: "distinct (map fst groups)" using prems(1) by simp
  consider "map_of rg d = None" | h where "map_of rg d = Some h" "\<not> (length g = 1 \<and> length h = 1)"
    | i j where "g = [i]" "map_of rg d = Some [j]"
    by (cases "map_of rg d") (auto simp: length_Suc_conv)
  then show ?case
  proof cases
    case 1
    have "\<exists>st''. pair_unique_digests groups rg amb st =
      Some (amb \<or> (\<exists>(d, g) \<in> set groups. \<exists>h. map_of rg d = Some h \<and> \<not> (length g = 1 \<and> length h = 1)), st'') \<and>
      pairing_ok n m st'' \<and>
      (\<forall>i j. paired st'' i j \<longleftrightarrow> paired st i j \<or> (\<exists>d. (d, [i]) \<in> set groups \<and> map_of rg d = Some [j]))"
      by (rule Cons.IH [OF dist prems(2)]) (erule tail(1), rule tail(2), assumption+)
    then obtain st'' where IH: "pair_unique_digests groups rg amb st =
      Some (amb \<or> (\<exists>(d, g) \<in> set groups. \<exists>h. map_of rg d = Some h \<and> \<not> (length g = 1 \<and> length h = 1)), st'')"
      "pairing_ok n m st''"
      "\<forall>i j. paired st'' i j \<longleftrightarrow> paired st i j \<or> (\<exists>d. (d, [i]) \<in> set groups \<and> map_of rg d = Some [j])"
      by blast
    have e: "pair_unique_digests ((d, g) # groups) rg amb st = pair_unique_digests groups rg amb st" using 1 by simp
    show ?thesis unfolding x e IH(1)
      by (rule exI [of _ st'']) (use IH(2,3) 1 in auto)
  next
    case 2
    have "\<exists>st''. pair_unique_digests groups rg True st =
      Some (True \<or> (\<exists>(d, g) \<in> set groups. \<exists>h. map_of rg d = Some h \<and> \<not> (length g = 1 \<and> length h = 1)), st'') \<and>
      pairing_ok n m st'' \<and>
      (\<forall>i j. paired st'' i j \<longleftrightarrow> paired st i j \<or> (\<exists>d. (d, [i]) \<in> set groups \<and> map_of rg d = Some [j]))"
      by (rule Cons.IH [OF dist prems(2)]) (erule tail(1), rule tail(2), assumption+)
    then obtain st'' where IH: "pair_unique_digests groups rg True st =
      Some (True \<or> (\<exists>(d, g) \<in> set groups. \<exists>h. map_of rg d = Some h \<and> \<not> (length g = 1 \<and> length h = 1)), st'')"
      "pairing_ok n m st''"
      "\<forall>i j. paired st'' i j \<longleftrightarrow> paired st i j \<or> (\<exists>d. (d, [i]) \<in> set groups \<and> map_of rg d = Some [j])"
      by blast
    have e: "pair_unique_digests ((d, g) # groups) rg amb st = pair_unique_digests groups rg True st"
      using 2 by (simp only: pair_unique_digests.simps option.case if_False)
    show ?thesis unfolding x e IH(1)
      by (rule exI [of _ st'']) (use IH(2,3) 2 in auto)
  next
    case 3
    have i: "i < n" "\<not> used_current st ! i" "dc i = d" using prems(3) [of d i] 3 by simp_all
    have j: "j < m" "\<not> used_reference st ! j" "dr j = d" using prems(4) [of d i j] 3 by simp_all
    obtain st' where st': "record_pair i j st = Some st'" "pairing_ok n m st'"
      "\<forall>a b. paired st' a b \<longleftrightarrow> paired st a b \<or> (a = i \<and> b = j)"
      "used_current st' = (used_current st)[i := True]" "used_reference st' = (used_reference st)[j := True]"
      using record_pair_ok [OF prems(2) i(1) j(1) i(2) j(2)] by blast
    have other: "d' \<noteq> d" if "(d', g') \<in> set groups" for d' g' using prems(1) that by force
    have a: "a < n \<and> \<not> used_current st' ! a \<and> dc a = d'" if "(d', [a]) \<in> set groups" for d' a
    proof -
      have "a \<noteq> i" using tail(1) [OF that] other [OF that] i(3) by auto
      then show ?thesis using tail(1) [OF that] by (simp add: st'(4))
    qed
    have b: "b < m \<and> \<not> used_reference st' ! b \<and> dr b = d'" if "(d', [a]) \<in> set groups" "map_of rg d' = Some [b]" for d' a b
    proof -
      have "b \<noteq> j" using tail(2) [OF that] other [OF that(1)] j(3) by auto
      then show ?thesis using tail(2) [OF that] by (simp add: st'(5))
    qed
    have "\<exists>st''. pair_unique_digests groups rg amb st' =
      Some (amb \<or> (\<exists>(d, g) \<in> set groups. \<exists>h. map_of rg d = Some h \<and> \<not> (length g = 1 \<and> length h = 1)), st'') \<and>
      pairing_ok n m st'' \<and>
      (\<forall>i j. paired st'' i j \<longleftrightarrow> paired st' i j \<or> (\<exists>d. (d, [i]) \<in> set groups \<and> map_of rg d = Some [j]))"
      by (rule Cons.IH [OF dist st'(2)]) (erule a, rule b, assumption+)
    then obtain st'' where IH: "pair_unique_digests groups rg amb st' =
      Some (amb \<or> (\<exists>(d, g) \<in> set groups. \<exists>h. map_of rg d = Some h \<and> \<not> (length g = 1 \<and> length h = 1)), st'')"
      "pairing_ok n m st''"
      "\<forall>i j. paired st'' i j \<longleftrightarrow> paired st' i j \<or> (\<exists>d. (d, [i]) \<in> set groups \<and> map_of rg d = Some [j])"
      by blast
    have e: "pair_unique_digests ((d, g) # groups) rg amb st = pair_unique_digests groups rg amb st'"
      using 3 st'(1) by (simp add: panic_simps)
    show ?thesis unfolding x e IH(1)
      by (rule exI [of _ st'']) (use IH(2,3) st'(3) 3 in auto)
  qed
qed

text \<open>Two files are paired by content when each is the only unpaired file with that content.\<close>

definition unique_content :: "source_snapshot list \<Rightarrow> source_snapshot list \<Rightarrow> pairing_state \<Rightarrow> nat \<Rightarrow> nat \<Rightarrow> bool" where
  "unique_content current reference st i j \<longleftrightarrow>
     (\<exists>d. unpaired_with current (used_current st) d = [i] \<and> unpaired_with reference (used_reference st) d = [j])"

lemma unpaired_with_member:
  "unpaired_with sources used d = is \<Longrightarrow> i \<in> set is \<Longrightarrow> i < length sources \<and> \<not> used ! i \<and> content_digest (sources ! i) = d"
  by (auto simp: unpaired_with_def)

lemma pair_digests_ok:
  assumes ok: "pairing_ok (length current) (length reference) st"
  obtains gc gr amb st' where "unpaired_digest_groups current (used_current st) = Some gc"
    "unpaired_digest_groups reference (used_reference st) = Some gr"
    "pair_unique_digests gc gr False st = Some (amb, st')"
    "pairing_ok (length current) (length reference) st'"
    "\<And>i j. paired st' i j \<longleftrightarrow> paired st i j \<or> unique_content current reference st i j"
proof -
  obtain gc where gc: "unpaired_digest_groups current (used_current st) = Some gc" "bt_ok gc"
    "\<And>d. map_of gc d = (let is = unpaired_with current (used_current st) d in if is = [] then None else Some is)"
    using unpaired_digest_groups_ok [of "used_current st" current] pairing_lengths [OF ok] by auto
  obtain gr where gr: "unpaired_digest_groups reference (used_reference st) = Some gr" "bt_ok gr"
    "\<And>d. map_of gr d = (let is = unpaired_with reference (used_reference st) d in if is = [] then None else Some is)"
    using unpaired_digest_groups_ok [of "used_reference st" reference] pairing_lengths [OF ok] by auto
  have mem: "(d, [i]) \<in> set gc \<longleftrightarrow> unpaired_with current (used_current st) d = [i]" for d i
    using bt_get_iff [OF gc(2), of d "[i]"] gc(3) [of d] by (auto simp: Let_def split: if_splits)
  have get: "map_of gr d = Some [j] \<longleftrightarrow> unpaired_with reference (used_reference st) d = [j]" for d j
    using gr(3) [of d] by (auto simp: Let_def split: if_splits)
  have c: "i < length current \<and> \<not> used_current st ! i \<and> content_digest (current ! i) = d" if "(d, [i]) \<in> set gc" for d i
    using unpaired_with_member [of current "used_current st" d "[i]" i] that mem by simp
  have r: "j < length reference \<and> \<not> used_reference st ! j \<and> content_digest (reference ! j) = d"
    if "map_of gr d = Some [j]" for d j
    using unpaired_with_member [of reference "used_reference st" d "[j]" j] that get by simp
  have "\<exists>st'. pair_unique_digests gc gr False st =
      Some (False \<or> (\<exists>(d, g) \<in> set gc. \<exists>h. map_of gr d = Some h \<and> \<not> (length g = 1 \<and> length h = 1)), st') \<and>
    pairing_ok (length current) (length reference) st' \<and>
    (\<forall>i j. paired st' i j \<longleftrightarrow> paired st i j \<or> (\<exists>d. (d, [i]) \<in> set gc \<and> map_of gr d = Some [j]))"
    by (rule pair_unique_digests_ok [OF bt_distinct [OF gc(2)] ok]) (erule c, erule r)
  then obtain amb st' where "pair_unique_digests gc gr False st = Some (amb, st')"
    "pairing_ok (length current) (length reference) st'"
    "\<forall>i j. paired st' i j \<longleftrightarrow> paired st i j \<or> (\<exists>d. (d, [i]) \<in> set gc \<and> map_of gr d = Some [j])"
    by blast
  with gc(1) gr(1) show ?thesis by (intro that) (auto simp: unique_content_def mem get)
qed

subsection \<open>The best line overlap\<close>

definition overlap :: "source_snapshot list \<Rightarrow> source_snapshot list \<Rightarrow> nat \<Rightarrow> nat \<Rightarrow> nat" where
  "overlap current reference i j = best (line_digests (current ! i)) (line_digests (reference ! j))"

text \<open>A candidate is listed from both sides with the overlap of the two files as its score.\<close>

definition candidates_ok :: "source_snapshot list \<Rightarrow> source_snapshot list \<Rightarrow> candidates \<Rightarrow> candidates \<Rightarrow> bool" where
  "candidates_ok current reference by_current by_reference \<longleftrightarrow>
     length by_current = length current \<and> length by_reference = length reference \<and>
     (\<forall>i < length current. \<forall>(j, s) \<in> set (by_current ! i). j < length reference \<and> s = overlap current reference i j \<and> s \<noteq> 0)"

lemma candidates_okD:
  "candidates_ok current reference bc br \<Longrightarrow> i < length current \<Longrightarrow> (j, s) \<in> set (bc ! i) \<Longrightarrow>
     j < length reference \<and> s = overlap current reference i j \<and> s \<noteq> 0"
  unfolding candidates_ok_def by fast

lemma candidates_okI:
  assumes "length bc = length current" and "length br = length reference"
    and "\<And>i j s. i < length current \<Longrightarrow> (j, s) \<in> set (bc ! i) \<Longrightarrow>
      j < length reference \<and> s = overlap current reference i j \<and> s \<noteq> 0"
  shows "candidates_ok current reference bc br"
  unfolding candidates_ok_def using assms by blast

lemma candidate_score_result:
  assumes "length (reference_taken m) = length (reference_sources m)"
    and "i < length (current_sources m)" and "j < length (reference_sources m)"
  shows "\<exists>r. counterpart_candidate_score m i j w = Some r \<and>
    (\<forall>s w'. r = Inr (Some s, w') \<longrightarrow> s = overlap (current_sources m) (reference_sources m) i j \<and> s \<noteq> 0)"
proof -
  let ?c = "current_sources m ! i" and ?r = "reference_sources m ! j"
  show ?thesis
    using assms unfolding counterpart_candidate_score_def line_overlap_score_def lcs_length_result
    by (cases "matrix_cells (length (line_digests ?c)) (length (line_digests ?r))")
      (auto simp: panic_simps overlap_def Let_def seq_try_def and_then_def split: sum.splits if_splits)
qed

lemma collect_references_ok:
  assumes "length (reference_taken m) = length (reference_sources m)" and "i < length (current_sources m)"
    and "\<forall>j \<in> set js. j < length (reference_sources m)"
    and "candidates_ok (current_sources m) (reference_sources m) bc br"
  shows "\<exists>r. collect_references m i js (w, bc, br) = Some r \<and>
    (\<forall>w' bc' br'. r = Inr (w', bc', br') \<longrightarrow> candidates_ok (current_sources m) (reference_sources m) bc' br')"
  using assms(3,4)
proof (induction js arbitrary: w bc br)
  case Nil
  then show ?case by simp
next
  case (Cons j js)
  have j: "j < length (reference_sources m)" using Cons.prems(1) by simp
  obtain r where r: "counterpart_candidate_score m i j w = Some r"
    "\<And>s w'. r = Inr (Some s, w') \<Longrightarrow> s = overlap (current_sources m) (reference_sources m) i j \<and> s \<noteq> 0"
    using candidate_score_result [OF assms(1,2) j] by blast
  show ?case
  proof (cases r)
    case (Inl e)
    then show ?thesis using r(1) by simp
  next
    case (Inr p)
    obtain score w' where p: "p = (score, w')" by (cases p)
    have js: "\<forall>j \<in> set js. j < length (reference_sources m)" using Cons.prems(1) by simp
    show ?thesis
    proof (cases score)
      case None
      with Cons.IH [OF js Cons.prems(2)] show ?thesis using r(1) Inr p by simp
    next
      case (Some s)
      have s: "s = overlap (current_sources m) (reference_sources m) i j" "s \<noteq> 0" using r(2) Inr p Some by auto
      let ?bc = "bc[i := bc ! i @ [(j, s)]]" and ?br = "br[j := br ! j @ [(i, s)]]"
      have l: "length bc = length (current_sources m)" "length br = length (reference_sources m)"
        using Cons.prems(2) by (simp_all add: candidates_ok_def)
      have "b < length (reference_sources m) \<and> t = overlap (current_sources m) (reference_sources m) a b \<and> t \<noteq> 0"
        if "a < length (current_sources m)" "(b, t) \<in> set (?bc ! a)" for a b t
      proof (cases "(b, t) \<in> set (bc ! a)")
        case True
        with Cons.prems(2) that(1) show ?thesis by (rule candidates_okD)
      next
        case False
        then have "a = i" "b = j" "t = s" using that assms(2) l by (auto simp: nth_list_update split: if_splits)
        then show ?thesis using s j by simp
      qed
      then have "candidates_ok (current_sources m) (reference_sources m) ?bc ?br"
        by (intro candidates_okI) (simp_all add: l)
      from Cons.IH [OF js this] show ?thesis using r(1) Inr p Some l assms(2) j by (simp add: panic_simps)
    qed
  qed
qed

lemma collect_candidates_ok:
  assumes "length (reference_taken m) = length (reference_sources m)" and "length used = length (current_sources m)"
    and "\<forall>i \<in> set is. i < length (current_sources m)"
    and "candidates_ok (current_sources m) (reference_sources m) bc br"
  shows "\<exists>r. collect_counterpart_candidates m used is (w, bc, br) = Some r \<and>
    (\<forall>w' bc' br'. r = Inr (w', bc', br') \<longrightarrow> candidates_ok (current_sources m) (reference_sources m) bc' br')"
  using assms(3,4)
proof (induction "is" arbitrary: w bc br)
  case Nil
  then show ?case by simp
next
  case (Cons i js)
  have i: "i < length (current_sources m)" and js: "\<forall>i \<in> set js. i < length (current_sources m)" using Cons.prems(1) by simp_all
  show ?case
  proof (cases "used ! i")
    case True
    with Cons.IH [OF js Cons.prems(2)] show ?thesis using i assms(2) by (simp add: panic_simps)
  next
    case False
    have "\<forall>j \<in> set [0..<length br]. j < length (reference_sources m)" using Cons.prems(2) by (simp add: candidates_ok_def)
    from collect_references_ok [OF assms(1) i this Cons.prems(2)]
    obtain r where r: "collect_references m i [0..<length br] (w, bc, br) = Some r"
      "\<And>w' bc' br'. r = Inr (w', bc', br') \<Longrightarrow> candidates_ok (current_sources m) (reference_sources m) bc' br'" by blast
    show ?thesis
    proof (cases r)
      case (Inr p)
      obtain w' bc' br' where p: "p = (w', bc', br')" by (cases p)
      with Cons.IH [OF js r(2), of w' bc' br' w'] show ?thesis using r(1) False Inr i assms(2) by (simp add: panic_simps)
    qed (use r(1) False i assms(2) in \<open>simp add: panic_simps\<close>)
  qed
qed


lemma any_tie_total: "\<forall>j \<in> set js. j < length br \<Longrightarrow> \<exists>b. any_tie br js = Some b"
  by (induction js) (auto simp: reference_candidate_ties_def panic_simps)

lemma reserve_fuzzy_ok:
  assumes c: "candidates_ok current reference bc br" and "\<forall>i \<in> set is. i < length current"
    and "pairing_ok (length current) (length reference) st"
  shows "\<exists>amb' st'. reserve_fuzzy_counterparts is bc br amb st = Some (amb', st') \<and>
    extends (length current) (length reference) (\<lambda>i j. overlap current reference i j \<noteq> 0) st st'"
  using assms(2-)
proof (induction "is" arbitrary: amb st)
  case Nil
  then show ?case by (simp add: extends_refl)
next
  case (Cons i js)
  let ?n = "length current" and ?m = "length reference"
  have i: "i < ?n" and js: "\<forall>i \<in> set js. i < ?n" using Cons.prems(1) by simp_all
  note IH = Cons.IH [OF js Cons.prems(2)]
  have l: "length bc = ?n" "length br = ?m" using c by (simp_all add: candidates_ok_def)
  have u: "idx (used_current st) i = Some (used_current st ! i)" "idx bc i = Some (bc ! i)"
    using i l pairing_lengths [OF Cons.prems(2)] by (simp_all add: panic_simps)
  let ?best = "best_candidate_references (bc ! i) (Max (snd ` set (bc ! i)))"
  have best: "j < ?m \<and> overlap current reference i j \<noteq> 0" if "j \<in> set ?best" for j
    using that candidates_okD [OF c i, of j] by (auto simp: best_candidate_references_def)
  obtain tie where tie: "any_tie br ?best = Some tie" using any_tie_total [of ?best br] best l(2) by auto
  consider "used_current st ! i" | "\<not> used_current st ! i" "bc ! i = []"
    | "\<not> used_current st ! i" "bc ! i \<noteq> []" "length ?best \<noteq> 1 \<or> tie"
    | j where "\<not> used_current st ! i" "bc ! i \<noteq> []" "?best = [j]" "\<not> tie" "used_reference st ! j"
    | j where "\<not> used_current st ! i" "bc ! i \<noteq> []" "?best = [j]" "\<not> tie" "\<not> used_reference st ! j"
    by (metis One_nat_def length_0_conv length_Suc_conv)
  then show ?case
  proof cases
    case 1
    with IH [of amb] show ?thesis by (simp add: u)
  next
    case 2
    with IH [of amb] show ?thesis by (simp add: u)
  next
    case 3
    then have "reserve_fuzzy_counterparts (i # js) bc br amb st = reserve_fuzzy_counterparts js bc br True st"
      by (simp add: u tie)
    with IH [of True] show ?thesis by simp
  next
    case (4 j)
    have "idx (used_reference st) j = Some True"
      using best [of j] 4 pairing_lengths [OF Cons.prems(2)] by (simp add: panic_simps)
    with 4 tie IH [of True] show ?thesis by (simp add: u panic_simps)
  next
    case (5 j)
    have j: "j < ?m" "overlap current reference i j \<noteq> 0" using best [of j] 5(3) by simp_all
    have t: "idx (used_reference st) j = Some False"
      using j 5 pairing_lengths [OF Cons.prems(2)] by (simp add: panic_simps)
    obtain st' where st': "record_pair i j st = Some st'"
      "extends ?n ?m (\<lambda>i j. overlap current reference i j \<noteq> 0) st st'"
      using extends_record [where P = "\<lambda>i j. overlap current reference i j \<noteq> 0", OF Cons.prems(2) i j(1) 5(1,5) j(2)] by blast
    then have "pairing_ok ?n ?m st'" by (simp add: extends_def)
    from Cons.IH [OF js this, of amb] obtain amb' st'' where
      "reserve_fuzzy_counterparts js bc br amb st' = Some (amb', st'')"
      "extends ?n ?m (\<lambda>i j. overlap current reference i j \<noteq> 0) st' st''" by blast
    moreover have "reserve_fuzzy_counterparts (i # js) bc br amb st = reserve_fuzzy_counterparts js bc br amb st'"
      using 5 tie t st'(1) by (simp add: u panic_simps)
    ultimately show ?thesis using extends_trans [OF st'(2)] by auto
  qed
qed

section \<open>What the pairing establishes\<close>

text \<open>The indices are mirrored; files of the same path are always paired; any other pair has equal content or
  a positive line overlap.\<close>

definition pairs_ok :: "source_snapshot list \<Rightarrow> source_snapshot list \<Rightarrow> counterpart_pairs \<Rightarrow> bool" where
  "pairs_ok current reference p \<longleftrightarrow>
     length (current_to_reference p) = length current \<and> length (reference_to_current p) = length reference \<and>
     mirrored (current_to_reference p) (reference_to_current p) \<and>
     (\<forall>i j. same_path current reference i j \<longrightarrow> current_to_reference p ! i = Some j) \<and>
     (\<forall>i < length current. \<forall>j. current_to_reference p ! i = Some j \<longrightarrow>
        same_path current reference i j \<or> content_digest (current ! i) = content_digest (reference ! j) \<or>
        overlap current reference i j \<noteq> 0)"

lemma assign_counterparts_ok:
  assumes dc: "distinct (map source_key current)" and dr: "distinct (map source_key reference)"
  shows "\<exists>r. assign_counterparts current reference = Some r \<and> (\<forall>p. r = Inr p \<longrightarrow> pairs_ok current reference p)"
proof (cases "validate_source_inventory current reference MAX_SOURCE_FILES")
  case (Inl e)
  then show ?thesis by (simp add: assign_counterparts_def)
next
  case (Inr u)
  let ?n = "length current" and ?m = "length reference"
  let ?init = "\<lparr>to_reference = replicate ?n None, to_current = replicate ?m None,
    used_current = replicate ?n False, used_reference = replicate ?m False\<rparr>"
  have "pairing_ok ?n ?m ?init" "\<And>a b. \<not> paired ?init a b" by (auto simp: pairing_ok_def mirrored_def paired_def)
  from pair_exact_paths_ok [OF dc dr this] obtain st1 where st1: "pair_exact_paths current reference ?init = Some st1"
    "pairing_ok ?n ?m st1" "\<And>a b. paired st1 a b \<longleftrightarrow> same_path current reference a b" by blast
  obtain gc gr amb st2 where st2: "unpaired_digest_groups current (used_current st1) = Some gc"
    "unpaired_digest_groups reference (used_reference st1) = Some gr"
    "pair_unique_digests gc gr False st1 = Some (amb, st2)" "pairing_ok ?n ?m st2"
    "\<And>i j. paired st2 i j \<longleftrightarrow> paired st1 i j \<or> unique_content current reference st1 i j"
    using pair_digests_ok [OF st1(2)] by blast
  let ?M = "\<lparr>current_sources = current, reference_sources = reference, reference_taken = used_reference st2,
    max_pair_work = MAX_PAIR_WORK, max_line_work = MAX_LINE_WORK\<rparr>"
  have "candidates_ok current reference (replicate ?n []) (replicate ?m [])" by (simp add: candidates_ok_def)
  then have "\<exists>r. collect_counterpart_candidates ?M (used_current st2) [0..<?n] (\<lparr>pair_work = 0, line_work = 0\<rparr>, replicate ?n [], replicate ?m []) = Some r \<and>
    (\<forall>w' bc' br'. r = Inr (w', bc', br') \<longrightarrow> candidates_ok current reference bc' br')"
    using collect_candidates_ok [of ?M "used_current st2" "[0..<?n]"] pairing_lengths [OF st2(4)] by simp
  then obtain r where r: "collect_counterpart_candidates ?M (used_current st2) [0..<?n] (\<lparr>pair_work = 0, line_work = 0\<rparr>, replicate ?n [], replicate ?m []) = Some r"
    "\<And>w' bc' br'. r = Inr (w', bc', br') \<Longrightarrow> candidates_ok current reference bc' br'" by blast
  show ?thesis
  proof (cases r)
    case (Inl e)
    then show ?thesis using Inr st1(1) st2(1-3) r(1) by (simp add: assign_counterparts_def)
  next
    case r': (Inr x)
    obtain w bc br where x: "x = (w, bc, br)" by (cases x)
    obtain amb' st3 where st3: "reserve_fuzzy_counterparts [0..<?n] bc br False st2 = Some (amb', st3)"
      "extends ?n ?m (\<lambda>i j. overlap current reference i j \<noteq> 0) st2 st3"
      using reserve_fuzzy_ok [where amb = False, OF r(2) [OF r' [unfolded x]] _ st2(4), of "[0..<?n]"] by auto
    have ok3: "pairing_ok ?n ?m st3" using st3(2) by (simp add: extends_def)
    let ?p = "\<lparr>current_to_reference = to_reference st3, reference_to_current = to_current st3, ambiguous_pairs = (amb \<or> amb')\<rparr>"
    have a: "assign_counterparts current reference = Some (Inr ?p)"
      using Inr st1(1) st2(1-3) r(1) r' x st3(1) by (simp add: assign_counterparts_def)
    have eqc: "content_digest (current ! i) = content_digest (reference ! j)" if uc: "unique_content current reference st1 i j" for i j
    proof -
      obtain d where "unpaired_with current (used_current st1) d = [i]" "unpaired_with reference (used_reference st1) d = [j]"
        using uc unfolding unique_content_def by blast
      from unpaired_with_member [OF this(1), of i] unpaired_with_member [OF this(2), of j] show ?thesis by simp
    qed
    have "to_reference st3 ! i = Some j" if "same_path current reference i j" for i j
    proof -
      have "paired st2 i j" using that st1(3) st2(5) by blast
      then have "paired st3 i j" using st3(2) unfolding extends_def by blast
      then show ?thesis using pairing_views(1) [OF ok3] by blast
    qed
    moreover have "same_path current reference i j \<or> content_digest (current ! i) = content_digest (reference ! j) \<or>
        overlap current reference i j \<noteq> 0" if "i < ?n" "to_reference st3 ! i = Some j" for i j
    proof -
      have "paired st3 i j" using that pairing_views(1) [OF ok3] by blast
      then have "paired st2 i j \<or> overlap current reference i j \<noteq> 0" using st3(2) unfolding extends_def by blast
      then show ?thesis using st1(3) st2(5) eqc by blast
    qed
    ultimately have "pairs_ok current reference ?p"
      using ok3 unfolding pairs_ok_def by (simp add: pairing_ok_def)
    with a show ?thesis by simp
  qed
qed

end
