(* ===== verification/Baseline.thy ===== *)
theory Baseline
  imports Counterparts
begin

text \<open>
  The baseline comparison of \<open>crates/hoonarqube-core/src/assessment/baseline.rs\<close>: current sources
  against a pinned reference report, giving the new-code report. The mutable state of the
  classification (changed lines per file, work counters, the uncertainty flag) is a record that the
  steps thread through; \<open>None\<close> is a panic. An \<open>AssessmentError\<close> enters the diagnostics as a text for
  people, and its rendering \<open>describe\<close> is a parameter no check reads.
\<close>

subsection \<open>Ordered inventories\<close>

definition BASELINE_SCHEMA_VERSION :: u32 where
  "BASELINE_SCHEMA_VERSION = ASSESSMENT_SCHEMA_VERSION"

datatype baseline_mode = PinnedReferenceReport

definition MAX_NEW_CODE_LINES :: u64 where "MAX_NEW_CODE_LINES = 4000000"
definition MAX_NEW_CODE_WORK :: u64 where "MAX_NEW_CODE_WORK = 64000000"

definition ordered_sources :: "(bytes \<Rightarrow> bytes) \<Rightarrow> source_snapshot list \<Rightarrow> assessment_error + source_snapshot list" where
  "ordered_sources sha sources =
     and_then (try_all (validate_snapshot sha) sources) (\<lambda>_.
     let order = sort_key (\<lambda>s. path_key (snapshot_path s)) sources in
     (case filter (\<lambda>(a, b). path_eq (snapshot_path a) (snapshot_path b)) (windows2 order) of
        (a, b) # _ \<Rightarrow> Inl (DuplicatePath (snapshot_path a))
      | [] \<Rightarrow> Inr order))"

definition indeterminate_current :: "source_snapshot list \<Rightarrow> assessment_status \<Rightarrow> analysis_context option \<Rightarrow> string \<Rightarrow> new_code_report" where
  "indeterminate_current current status context diagnostic =
     \<lparr>new_code_version = BASELINE_SCHEMA_VERSION, new_code_status = status, reference_context = context,
      new_code_findings = concat (map (\<lambda>s. map (\<lambda>f. \<lparr>match_path = snapshot_path s, match_index = issue_index f,
          match_identity = identity f, match_status = Uncertain\<rparr>) (snapshot_findings s)) current),
      resolved = [], new_code_line_list = [], new_code_diagnostics = [diagnostic]\<rparr>"

definition unavailable_result :: "source_snapshot list \<Rightarrow> assessment_status \<Rightarrow> analysis_context option \<Rightarrow> string \<Rightarrow> new_code_report" where
  "unavailable_result current status context diagnostic = indeterminate_current [] status context diagnostic"

subsection \<open>Identities\<close>

type_synonym content = "string \<times> string \<times> string"

definition reference_identity_index :: "source_snapshot list \<Rightarrow> (content, finding_identity list) btree" where
  "reference_identity_index reference = bt_each content_key
     (\<lambda>f v. (case v of None \<Rightarrow> [] | Some fs \<Rightarrow> fs) @ [f]) (concat (map snapshot_findings reference)) []"

definition current_identity_data :: "source_snapshot list \<Rightarrow> content set \<times> (string, nat) btree" where
  "current_identity_data current =
     (let fs = concat (map snapshot_findings current) in
      (content_key ` set fs, bt_each identity (\<lambda>f v. Suc (case v of None \<Rightarrow> 0 | Some n \<Rightarrow> n)) fs []))"

text \<open>The candidates in the counterpart: how many, and the first.\<close>

definition local_identity_candidates :: "source_snapshot option \<Rightarrow> finding_identity \<Rightarrow> nat \<times> finding_identity option" where
  "local_identity_candidates source f =
     (case source of None \<Rightarrow> (0, None)
      | Some s \<Rightarrow> let cs = filter (\<lambda>c. content_key c = content_key f) (snapshot_findings s) in
          (length cs, case cs of [] \<Rightarrow> None | c # _ \<Rightarrow> Some c))"

subsection \<open>Changed lines\<close>

text \<open>A \<open>BTreeMap\<close> keeps the first path inserted for a key.\<close>

type_synonym changed_lines = "(component list, path \<times> u32 set) btree"

record line_state =
  line_sets :: changed_lines
  total_new_lines :: u64
  new_line_work :: u64

definition lines_entry :: "changed_lines \<Rightarrow> path \<Rightarrow> path \<times> u32 set" where
  "lines_entry m p = (case map_of m (path_key p) of None \<Rightarrow> (p, {}) | Some v \<Rightarrow> v)"

definition count_line_work :: "u64 \<Rightarrow> string + u64" where
  "count_line_work work =
     and_then (ok_or (checked_add work 1) ''new-code line mapping work overflows'') (\<lambda>work.
     and_then (check (\<not> work > MAX_NEW_CODE_WORK) ''new-code line mapping work exceeds the bounded limit'') (\<lambda>_.
     Inr work))"

definition add_line :: "path \<Rightarrow> nat \<Rightarrow> line_state \<Rightarrow> string + line_state" where
  "add_line path index st =
     and_then (count_line_work (new_line_work st)) (\<lambda>work.
     and_then (check (index + 1 \<le> u32_max) ''source line number exceeds the u32 artifact range'') (\<lambda>_.
     let line = of_nat (index + 1); (p, lines) = lines_entry (line_sets st) path;
         st = st\<lparr>line_sets := bt_put (path_key path) (p, insert line lines) (line_sets st), new_line_work := work\<rparr> in
     if line \<notin> lines then
       let st = st\<lparr>total_new_lines := total_new_lines st + 1\<rparr> in
       and_then (check (\<not> total_new_lines st > MAX_NEW_CODE_LINES) ''new-code line set exceeds the bounded line-set limit'') (\<lambda>_.
       Inr st)
     else Inr st))"

fun add_lines :: "path \<Rightarrow> nat list \<Rightarrow> line_state \<Rightarrow> string + line_state" where
  "add_lines path [] st = Inr st"
| "add_lines path (i # is) st = and_then (add_line path i st) (add_lines path is)"

text \<open>The loop over the current sources; \<open>i\<close> is the index of the next one, \<open>lw\<close> the line work.\<close>

fun add_changed :: "nat \<Rightarrow> source_snapshot list \<Rightarrow> source_snapshot list \<Rightarrow> counterpart_pairs \<Rightarrow> bool \<Rightarrow> nat \<Rightarrow> line_state \<Rightarrow>
    (string + bool \<times> line_state) option" where
  "add_changed i [] reference pairing uncertain lw st = Some (Inr (uncertain, st))"
| "add_changed i (s # ss) reference pairing uncertain lw st = do {
     counterpart \<leftarrow> idx (current_to_reference pairing) i;
     source \<leftarrow> (case counterpart of None \<Rightarrow> Some None | Some j \<Rightarrow> map_option Some (idx reference j));
     (case source of
        None \<Rightarrow>
          seq_try (Some (add_lines (snapshot_path s) [0..<length (line_digests s)] st)) (\<lambda>st.
          add_changed (i + 1) ss reference pairing uncertain lw st)
      | Some r \<Rightarrow>
          if content_digest r = content_digest s then add_changed (i + 1) ss reference pairing uncertain lw st
          else
            seq_try (align_lines (line_digests s) (line_digests r) lw 64000000) (\<lambda>(alignment, lw).
            seq_try (Some (add_lines (snapshot_path s) (new_line_indices alignment) st)) (\<lambda>st.
            add_changed (i + 1) ss reference pairing (uncertain \<or> uncertain_alignment alignment) lw st))) }"

definition add_changed_source_lines :: "source_snapshot list \<Rightarrow> source_snapshot list \<Rightarrow> counterpart_pairs \<Rightarrow> line_state \<Rightarrow>
    (string + bool \<times> line_state) option" where
  "add_changed_source_lines current reference pairing st =
     add_changed 0 current reference pairing (ambiguous_pairs pairing) 0 st"

fun add_range :: "path \<Rightarrow> u32 list \<Rightarrow> line_state \<Rightarrow> string + line_state" where
  "add_range path [] st = Inr st"
| "add_range path (l # ls) st =
     and_then (count_line_work (new_line_work st)) (\<lambda>work.
     let (p, lines) = lines_entry (line_sets st) path; st = st\<lparr>new_line_work := work\<rparr> in
     if l \<in> lines then add_range path ls st
     else
       and_then (check (\<not> total_new_lines st \<ge> MAX_NEW_CODE_LINES) ''new-code line set exceeds the bounded line-set limit'') (\<lambda>_.
       add_range path ls (st\<lparr>line_sets := bt_put (path_key path) (p, insert l lines) (line_sets st),
         total_new_lines := total_new_lines st + 1\<rparr>)))"

definition add_new_lines :: "path \<Rightarrow> finding_identity \<Rightarrow> line_state \<Rightarrow> string + line_state" where
  "add_new_lines path f st =
     (if start_line f = 0 \<or> end_line f = 0 then Inr st
      else add_range path (map of_nat [unat (start_line f)..<unat (end_line f) + 1])
        (st\<lparr>line_sets := bt_put (path_key path) (lines_entry (line_sets st) path) (line_sets st)\<rparr>))"

subsection \<open>Classification\<close>

record classification =
  reference_by_identity :: "(content, finding_identity list) btree"
  current_identity_counts :: "(string, nat) btree"

text \<open>The result is the status with the uncertainty flag and the changed lines after the step.\<close>

definition classify_finding :: "classification \<Rightarrow> finding_identity \<Rightarrow> source_snapshot \<Rightarrow> source_snapshot option \<Rightarrow>
    bool \<times> line_state \<Rightarrow> string + finding_status \<times> bool \<times> line_state" where
  "classify_finding c f source reference_source acc =
     (let (uncertain, st) = acc;
          (local_candidates, local_candidate) = local_identity_candidates reference_source f;
          known = (map_of (reference_by_identity c) (content_key f) \<noteq> None) in
      if ambiguous f \<or> map_of (current_identity_counts c) (identity f) \<noteq> Some 1 then Inr (Uncertain, True, st)
      else if local_candidates = 0 then
        if known then Inr (Uncertain, True, st)
        else and_then (add_new_lines (snapshot_path source) f st) (\<lambda>st. Inr (New, uncertain, st))
      else if local_candidates = 1 \<and> (case local_candidate of None \<Rightarrow> False | Some d \<Rightarrow> \<not> ambiguous d)
      then Inr (Existing, uncertain, st)
      else Inr (Uncertain, True, st))"

fun classify_source :: "classification \<Rightarrow> source_snapshot \<Rightarrow> source_snapshot option \<Rightarrow> finding_identity list \<Rightarrow>
    bool \<times> line_state \<Rightarrow> string + finding_match list \<times> bool \<times> line_state" where
  "classify_source c source r [] acc = Inr ([], acc)"
| "classify_source c source r (f # fs) acc =
     and_then (classify_finding c f source r acc) (\<lambda>(status, acc).
     and_then (classify_source c source r fs acc) (\<lambda>(ms, acc).
     Inr (\<lparr>match_path = snapshot_path source, match_index = issue_index f, match_identity = identity f,
       match_status = status\<rparr> # ms, acc)))"

fun classify_sources :: "classification \<Rightarrow> nat \<Rightarrow> source_snapshot list \<Rightarrow> source_snapshot list \<Rightarrow> counterpart_pairs \<Rightarrow>
    bool \<times> line_state \<Rightarrow> (string + finding_match list \<times> bool \<times> line_state) option" where
  "classify_sources c i [] reference pairing acc = Some (Inr ([], acc))"
| "classify_sources c i (s # ss) reference pairing acc = do {
     counterpart \<leftarrow> idx (current_to_reference pairing) i;
     r \<leftarrow> (case counterpart of None \<Rightarrow> Some None | Some j \<Rightarrow> map_option Some (idx reference j));
     seq_try (Some (classify_source c s r (snapshot_findings s) acc)) (\<lambda>(ms, acc).
     seq_try (classify_sources c (i + 1) ss reference pairing acc) (\<lambda>(ms', acc).
     Some (Inr (ms @ ms', acc)))) }"

definition classify_current_findings :: "classification \<Rightarrow> source_snapshot list \<Rightarrow> source_snapshot list \<Rightarrow> counterpart_pairs \<Rightarrow>
    bool \<times> line_state \<Rightarrow> (string + finding_match list \<times> bool \<times> line_state) option" where
  "classify_current_findings c current reference pairing acc = classify_sources c 0 current reference pairing acc"

subsection \<open>Resolved findings\<close>

definition collect_source_resolved :: "source_snapshot \<Rightarrow> source_snapshot \<Rightarrow> content set \<Rightarrow> (path \<times> finding_identity) list" where
  "collect_source_resolved reference_source current_source keys =
     (if \<exists>f \<in> set (snapshot_findings current_source). ambiguous f then []
      else map (\<lambda>f. (snapshot_path reference_source, f))
        (filter (\<lambda>f. \<not> ambiguous f \<and> content_key f \<notin> keys) (snapshot_findings reference_source)))"

fun resolved_from :: "nat \<Rightarrow> source_snapshot list \<Rightarrow> source_snapshot list \<Rightarrow> counterpart_pairs \<Rightarrow> content set \<Rightarrow>
    (path \<times> finding_identity) list option" where
  "resolved_from j [] current pairing keys = Some []"
| "resolved_from j (r # rs) current pairing keys = do {
     counterpart \<leftarrow> idx (reference_to_current pairing) j;
     found \<leftarrow> (case counterpart of
        None \<Rightarrow> Some []
      | Some i \<Rightarrow> map_option (\<lambda>s. collect_source_resolved r s keys) (idx current i));
     rest \<leftarrow> resolved_from (j + 1) rs current pairing keys;
     Some (found @ rest) }"

definition collect_resolved :: "source_snapshot list \<Rightarrow> source_snapshot list \<Rightarrow> counterpart_pairs \<Rightarrow> content set \<Rightarrow> bool \<Rightarrow>
    (path \<times> finding_identity) list option" where
  "collect_resolved current reference pairing keys line_mapping_uncertain =
     (if line_mapping_uncertain then Some [] else resolved_from 0 reference current pairing keys)"

definition sort_finding_matches :: "finding_match list \<Rightarrow> finding_match list" where
  "sort_finding_matches = sort_key (\<lambda>f. (path_key (match_path f), match_index f, match_identity f))"

definition sort_resolved :: "(path \<times> finding_identity) list \<Rightarrow> (path \<times> finding_identity) list" where
  "sort_resolved = sort_key (\<lambda>(p, f). (path_key p, issue_index f, identity f))"

definition classification_diagnostics :: "bool \<Rightarrow> bool \<Rightarrow> string list" where
  "classification_diagnostics line_mapping_uncertain uncertain =
     (if line_mapping_uncertain then [''one or more changed source files had ambiguous baseline line mapping''] else []) @
     (if uncertain \<and> \<not> line_mapping_uncertain then
        [''one or more finding identities are duplicated or ambiguous; they remain uncertain'']
      else if uncertain then
        [''one or more finding identities or changed-line mappings are ambiguous; they remain uncertain'']
      else [])"

subsection \<open>The comparison\<close>

definition classify :: "source_snapshot list \<Rightarrow> source_snapshot list \<Rightarrow> analysis_context \<Rightarrow> (string + new_code_report) option" where
  "classify current reference context =
     (let by_identity = reference_identity_index reference;
          st = \<lparr>line_sets = [], total_new_lines = 0, new_line_work = 0\<rparr> in
      seq_try (assign_counterparts current reference) (\<lambda>pairing.
      seq_try (add_changed_source_lines current reference pairing st) (\<lambda>(line_mapping_uncertain, st).
      let (keys, counts) = current_identity_data current in
      seq_try (classify_current_findings \<lparr>reference_by_identity = by_identity, current_identity_counts = counts\<rparr>
          current reference pairing (line_mapping_uncertain, st)) (\<lambda>(findings, uncertain, st). do {
      found \<leftarrow> collect_resolved current reference pairing keys line_mapping_uncertain;
      Some (Inr \<lparr>new_code_version = BASELINE_SCHEMA_VERSION,
        new_code_status = (if uncertain then Incomplete else Complete),
        reference_context = Some context,
        new_code_findings = sort_finding_matches findings,
        resolved = map snd (sort_resolved found),
        new_code_line_list = map (\<lambda>(k, p, lines). \<lparr>new_path = p, new_lines = sorted_list_of_set lines\<rparr>) (line_sets st),
        new_code_diagnostics = classification_diagnostics line_mapping_uncertain uncertain\<rparr>) }))))"

definition compare_to_reference :: "(bytes \<Rightarrow> bytes) \<Rightarrow> (assessment_error \<Rightarrow> string) \<Rightarrow> analysis_context \<Rightarrow> source_snapshot list \<Rightarrow>
    'd assessment_report option \<Rightarrow> new_code_report option" where
  "compare_to_reference sha describe context sources reference =
     (case ordered_sources sha sources of
        Inl e \<Rightarrow> Some (unavailable_result sources InvalidStatus None (''current assessment is invalid: '' @ describe e))
      | Inr current \<Rightarrow>
     (case reference of
        None \<Rightarrow> Some (indeterminate_current current Missing None
          ''pinned reference report is absent; new-code status is indeterminate'')
      | Some a \<Rightarrow>
     let rc = assessment_context a in
     (case validate_assessment sha a of
        Inl e \<Rightarrow> Some (indeterminate_current current InvalidStatus (Some rc) (''pinned reference report is invalid: '' @ describe e))
      | Inr _ \<Rightarrow>
     if \<not> compatible_with context rc then Some (indeterminate_current current Incomplete (Some rc)
       ''pinned reference context is incompatible with the current analyzer, profile, scope, or source revision'')
     else
     (case ordered_sources sha (assessment_sources a) of
        Inl e \<Rightarrow> Some (indeterminate_current current InvalidStatus (Some rc) (''pinned reference sources are invalid: '' @ describe e))
      | Inr reference_order \<Rightarrow> do {
          r \<leftarrow> classify current reference_order rc;
          Some (case r of Inr result \<Rightarrow> result
            | Inl e \<Rightarrow> indeterminate_current current Incomplete (Some rc) e) }))))"

definition compare_reports :: "(bytes \<Rightarrow> bytes) \<Rightarrow> (assessment_error \<Rightarrow> string) \<Rightarrow> 'd assessment_report \<Rightarrow>
    'd assessment_report option \<Rightarrow> new_code_report option" where
  "compare_reports sha describe current reference =
     (case validate_assessment sha current of
        Inl e \<Rightarrow> Some (unavailable_result (assessment_sources current) InvalidStatus
          (map_option assessment_context reference) (''current assessment is invalid: '' @ describe e))
      | Inr _ \<Rightarrow> compare_to_reference sha describe (assessment_context current) (assessment_sources current) reference)"

end
