(* ===== verification/BaselineSpec.thy ===== *)
theory BaselineSpec
  imports Baseline GateScopes Assessments "HOL-Library.Multiset"
begin

text \<open>
  What the baseline comparison promises: it never panics, its report validates and is accepted by the gates,
  a complete result hides no uncertainty, and statuses and changed lines mean what they say.
\<close>

section \<open>Ordered inventories\<close>

definition inventory_ok :: "(bytes \<Rightarrow> bytes) \<Rightarrow> source_snapshot list \<Rightarrow> bool" where
  "inventory_ok sha ss \<longleftrightarrow> (\<forall>s \<in> set ss. validate_snapshot sha s = Inr ()) \<and> sorted_wrt (<) (map source_key ss)"

lemma adjacent_distinct:
  assumes "sorted (map f xs)" and "\<forall>(a, b) \<in> set (windows2 xs). f a \<noteq> f b"
  shows "sorted_wrt (<) (map f xs)"
proof -
  have "successively (\<lambda>a b. f a \<noteq> f b) xs" using assms(2) windows2_all [of xs "\<lambda>a b. f a \<noteq> f b"] by simp
  then show ?thesis using assms(1)
  proof (induction xs rule: windows2.induct)
    case (1 x y zs)
    then show ?case by (auto simp: less_le dest: order_trans)
  qed auto
qed

lemma ordered_sources_Inr:
  assumes "ordered_sources sha ss = Inr order"
  shows "inventory_ok sha order" and "mset order = mset ss"
proof -
  let ?o = "sort_key source_key ss"
  have v: "\<forall>s \<in> set ss. validate_snapshot sha s = Inr ()"
    and w: "filter (\<lambda>(a, b). source_key a = source_key b) (windows2 ?o) = []" and o: "order = ?o"
    using assms by (auto simp: ordered_sources_def and_then_Inr_iff try_all_Inr_iff Let_def source_key_def [abs_def]
        split: list.splits prod.splits)
  have "\<forall>(a, b) \<in> set (windows2 ?o). source_key a \<noteq> source_key b" using w by (auto simp: filter_empty_conv)
  then have "sorted_wrt (<) (map source_key ?o)" by (intro adjacent_distinct) simp_all
  then show "inventory_ok sha order" using v by (simp add: inventory_ok_def o)
  show "mset order = mset ss" by (simp add: o)
qed

lemma ordered_sources_sorted:
  assumes "inventory_ok sha ss"
  shows "ordered_sources sha ss = Inr ss"
proof -
  have s: "sorted_wrt (<) (map source_key ss)" and v: "\<forall>s \<in> set ss. validate_snapshot sha s = Inr ()"
    using assms by (simp_all add: inventory_ok_def)
  have "sorted (map source_key ss)" using s strict_sorted_imp_sorted by blast
  then have o: "sort_key source_key ss = ss" by (rule sort_key_id_if_sorted)
  have "successively (\<lambda>a b. source_key a < source_key b) ss"
    using s by (intro successively_if_sorted_wrt) (simp add: sorted_wrt_map)
  then have "successively (\<lambda>a b. source_key a \<noteq> source_key b) ss" by (rule successively_mono) auto
  then have "filter (\<lambda>(a, b). source_key a = source_key b) (windows2 ss) = []"
    using windows2_all [of ss "\<lambda>a b. source_key a \<noteq> source_key b"] by (auto simp: filter_empty_conv)
  moreover have "try_all (validate_snapshot sha) ss = Inr ()" using v by (simp add: try_all_Inr_iff)
  ultimately show ?thesis using o by (simp add: ordered_sources_def source_key_def [abs_def] Let_def)
qed

lemma inventory_distinct: "inventory_ok sha ss \<Longrightarrow> distinct (map source_key ss)"
  using strict_sorted_iff by (auto simp: inventory_ok_def)

lemma validate_sources_iff:
  "validate_sources sha ss previous = Inr () \<longleftrightarrow> inventory_ok sha ss \<and>
     (\<forall>p. previous = Some p \<longrightarrow> (\<forall>s \<in> set ss. path_key p < source_key s))"
proof (induction ss arbitrary: previous)
  case Nil
  then show ?case by (simp add: inventory_ok_def)
next
  case (Cons s ss)
  have "validate_sources sha (s # ss) previous = Inr () \<longleftrightarrow> validate_snapshot sha s = Inr () \<and>
      (\<forall>p. previous = Some p \<longrightarrow> path_key p < source_key s) \<and> inventory_ok sha ss \<and> (\<forall>t \<in> set ss. source_key s < source_key t)"
    by (auto simp: and_then_Inr_iff check_Inr_iff Cons.IH source_key_def split: option.splits)
  also have "\<dots> \<longleftrightarrow> inventory_ok sha (s # ss) \<and> (\<forall>p. previous = Some p \<longrightarrow> (\<forall>t \<in> set (s # ss). path_key p < source_key t))"
    by (auto simp: inventory_ok_def intro: order.strict_trans)
  finally show ?case .
qed

lemma validate_assessment_sources: "validate_assessment sha a = Inr () \<Longrightarrow> inventory_ok sha (assessment_sources a)"
  by (auto simp: validate_assessment_def and_then_Inr_iff validate_sources_iff)

lemma valid_snapshot:
  assumes "validate_snapshot sha s = Inr ()"
  shows "snapshot_path s \<noteq> []" and "is_normalized (snapshot_path s)"
    and "f \<in> set (snapshot_findings s) \<Longrightarrow> validate_finding sha f = Inr ()"
    and "map issue_index (snapshot_findings s) = [0..<length (snapshot_findings s)]"
proof -
  note v = assms [unfolded validate_snapshot_def and_then_Inr_iff check_Inr_iff try_all_Inr_iff]
  show "snapshot_path s \<noteq> []" "is_normalized (snapshot_path s)" using v by (auto simp: is_normalized_def)
  have z: "validate_finding sha (snapshot_findings s ! i) = Inr () \<and> issue_index (snapshot_findings s ! i) = i"
    if "i < length (snapshot_findings s)" for i
  proof -
    have "(i, snapshot_findings s ! i) \<in> set (zip [0..<length (snapshot_findings s)] (snapshot_findings s))"
      using that by (auto simp: set_zip intro!: exI [of _ i])
    with v show ?thesis by (fastforce simp: and_then_Inr_iff check_Inr_iff)
  qed
  show "f \<in> set (snapshot_findings s) \<Longrightarrow> validate_finding sha f = Inr ()" using z by (metis in_set_conv_nth)
  show "map issue_index (snapshot_findings s) = [0..<length (snapshot_findings s)]"
    by (rule nth_equalityI) (simp_all add: z)
qed

lemma valid_finding:
  assumes "validate_finding sha f = Inr ()"
  shows "is_digest (identity f)" and "start_line f = 0 \<longleftrightarrow> end_line f = 0" and "start_line f \<le> end_line f"
  using assms by (auto simp: validate_finding_def and_then_Inr_iff check_Inr_iff)


section \<open>The changed lines\<close>

text \<open>The map of changed lines: in key order, of the given paths, with positive lines.\<close>

definition line_sets_ok :: "path set \<Rightarrow> changed_lines \<Rightarrow> bool" where
  "line_sets_ok P m \<longleftrightarrow> bt_ok m \<and> (\<forall>(k, p, L) \<in> set m. k = path_key p \<and> p \<in> P \<and> 0 \<notin> L)"

lemma bt_put_mem: "x \<in> set (bt_put k v m) \<Longrightarrow> x = (k, v) \<or> x \<in> set m"
  by (induction k v m rule: bt_put.induct) (auto split: if_splits)

lemma lines_entry_ok:
  assumes "line_sets_ok P m" and "p \<in> P" and "lines_entry m p = (q, L)"
  shows "L = lines_at m (path_key p)" and "0 \<notin> L"
    and "0 \<notin> L' \<Longrightarrow> line_sets_ok P (bt_put (path_key p) (q, L') m)"
proof -
  show L: "L = lines_at m (path_key p)"
    using assms(3) by (auto simp: lines_entry_def lines_at_def split: option.splits)
  have q: "path_key q = path_key p \<and> q \<in> P \<and> 0 \<notin> L"
  proof (cases "map_of m (path_key p)")
    case None
    then show ?thesis using assms(2,3) by (auto simp: lines_entry_def)
  next
    case (Some v)
    then have "(path_key p, q, L) \<in> set m" using assms(3) map_of_SomeD by (fastforce simp: lines_entry_def)
    then show ?thesis using assms(1) by (auto simp: line_sets_ok_def)
  qed
  then show "0 \<notin> L" by blast
  show "line_sets_ok P (bt_put (path_key p) (q, L') m)" if "0 \<notin> L'"
    using assms(1) q that unfolding line_sets_ok_def by (fastforce dest: bt_put_mem)
qed

text \<open>What a step adds: it keeps the map well formed and adds the lines \<open>D k\<close> at each key.\<close>

definition adds :: "path set \<Rightarrow> (component list \<Rightarrow> u32 set) \<Rightarrow> line_state \<Rightarrow> line_state \<Rightarrow> bool" where
  "adds P D st st' \<longleftrightarrow> line_sets_ok P (line_sets st') \<and>
     (\<forall>k. lines_at (line_sets st') k = lines_at (line_sets st) k \<union> D k)"

lemma adds_ok: "adds P D st st' \<Longrightarrow> line_sets_ok P (line_sets st')"
  by (simp add: adds_def)

lemma adds_nothing: "line_sets_ok P (line_sets st) \<Longrightarrow> adds P (\<lambda>_. {}) st st"
  by (simp add: adds_def)

lemma adds_trans: "adds P D st st' \<Longrightarrow> adds P E st' st'' \<Longrightarrow> (\<And>k. F k = D k \<union> E k) \<Longrightarrow> adds P F st st''"
  by (auto simp: adds_def)

lemma add_line_adds:
  assumes "add_line p i st = Inr st'" and "line_sets_ok P (line_sets st)" and "p \<in> P"
  shows "adds P (\<lambda>k. if k = path_key p then {of_nat (i + 1)} else {}) st st'"
proof -
  obtain q L where e: "lines_entry (line_sets st) p = (q, L)" by (cases "lines_entry (line_sets st) p")
  note L = lines_entry_ok [OF assms(2,3) e]
  have b: "i + 1 \<le> u32_max" using assms(1) by (auto simp: add_line_def and_then_Inr_iff check_Inr_iff)
  have pos: "(of_nat (i + 1) :: u32) \<noteq> 0"
  proof -
    have "i + 1 < 2 ^ 32" using b by (simp add: u32_max_def)
    from word_of_nat_order(2) [OF this, of 0] show ?thesis by simp
  qed
  have s: "line_sets st' = bt_put (path_key p) (q, insert (of_nat (i + 1)) L) (line_sets st)"
    using assms(1) by (auto simp: add_line_def and_then_Inr_iff check_Inr_iff e Let_def split: if_splits)
  show ?thesis unfolding adds_def s using L(3) [of "insert (of_nat (i + 1)) L"] L(1,2) pos
    by (auto simp: lines_at_put)
qed

lemma add_lines_adds:
  assumes "add_lines p is st = Inr st'" and "line_sets_ok P (line_sets st)" and "p \<in> P"
  shows "adds P (\<lambda>k. if k = path_key p then (\<lambda>i. of_nat (i + 1)) ` set is else {}) st st'"
  using assms
proof (induction "is" arbitrary: st)
  case Nil
  then show ?case by (simp add: adds_def)
next
  case (Cons i js)
  then obtain st1 where 1: "add_line p i st = Inr st1" and 2: "add_lines p js st1 = Inr st'"
    by (auto simp: and_then_Inr_iff)
  note a = add_line_adds [OF 1 Cons.prems(2,3)]
  show ?case by (rule adds_trans [OF a Cons.IH [OF 2 adds_ok [OF a] Cons.prems(3)]]) auto
qed

lemma add_range_adds:
  assumes "add_range p ls st = Inr st'" and "line_sets_ok P (line_sets st)" and "p \<in> P" and "0 \<notin> set ls"
  shows "adds P (\<lambda>k. if k = path_key p then set ls else {}) st st'"
  using assms
proof (induction ls arbitrary: st)
  case Nil
  then show ?case by (simp add: adds_def)
next
  case (Cons l ls)
  obtain q L where e: "lines_entry (line_sets st) p = (q, L)" by (cases "lines_entry (line_sets st) p")
  note L = lines_entry_ok [OF Cons.prems(2,3) e]
  obtain st1 where 1: "add_range p ls st1 = Inr st'" and
    s: "line_sets st1 = (if l \<in> L then line_sets st else bt_put (path_key p) (q, insert l L) (line_sets st))"
  proof -
    obtain w where w: "count_line_work (new_line_work st) = Inr w" using Cons.prems(1) by (auto simp: and_then_Inr_iff)
    show ?thesis
    proof (cases "l \<in> L")
      case True
      with Cons.prems(1) w show ?thesis by (intro that [of "st\<lparr>new_line_work := w\<rparr>"]) (simp_all add: e)
    next
      case False
      with Cons.prems(1) w show ?thesis
        by (intro that [of "st\<lparr>new_line_work := w, line_sets := bt_put (path_key p) (q, insert l L) (line_sets st),
            total_new_lines := total_new_lines st + 1\<rparr>"]) (simp_all add: e Let_def and_then_Inr_iff check_Inr_iff)
    qed
  qed
  have a: "adds P (\<lambda>k. if k = path_key p then {l} else {}) st st1"
    unfolding adds_def s using L(3) [of "insert l L"] L(1,2) Cons.prems(2,4) by (auto simp: lines_at_put)
  show ?case by (rule adds_trans [OF a Cons.IH [OF 1 adds_ok [OF a] Cons.prems(3)]]) (use Cons.prems(4) in auto)
qed

text \<open>The lines of a finding; a file-level finding has none.\<close>

definition finding_lines :: "finding_identity \<Rightarrow> u32 set" where
  "finding_lines f = (if start_line f = 0 then {} else {start_line f..end_line f})"

lemma range_words:
  assumes "a \<le> (b :: u32)"
  shows "of_nat ` {unat a..<unat b + 1} = {a..b}"
proof (rule set_eqI)
  fix x :: u32
  have "unat b < 2 ^ LENGTH(32)" by (rule unsigned_less)
  then have n: "unat (of_nat n :: u32) = n" if "n \<le> unat b" for n
    using that by (simp add: unsigned_of_nat take_bit_nat_eq_self)
  show "x \<in> of_nat ` {unat a..<unat b + 1} \<longleftrightarrow> x \<in> {a..b}"
  proof
    assume "x \<in> of_nat ` {unat a..<unat b + 1}"
    then obtain m where "unat a \<le> m" "m \<le> unat b" "x = of_nat m" by auto
    then show "x \<in> {a..b}" using n by (simp add: word_le_nat_alt)
  next
    assume "x \<in> {a..b}"
    then have "unat x \<in> {unat a..<unat b + 1}" by (simp add: word_le_nat_alt)
    then show "x \<in> of_nat ` {unat a..<unat b + 1}" by (rule image_eqI [rotated]) simp
  qed
qed

lemma add_new_lines_adds:
  assumes "add_new_lines p f st = Inr st'" and "line_sets_ok P (line_sets st)" and "p \<in> P"
    and "start_line f = 0 \<longleftrightarrow> end_line f = 0" and "start_line f \<le> end_line f"
  shows "adds P (\<lambda>k. if k = path_key p then finding_lines f else {}) st st'"
proof (cases "start_line f = 0")
  case True
  then show ?thesis using assms by (auto simp: add_new_lines_def finding_lines_def adds_def)
next
  case False
  let ?ls = "map of_nat [unat (start_line f)..<unat (end_line f) + 1] :: u32 list"
  let ?st = "st\<lparr>line_sets := bt_put (path_key p) (lines_entry (line_sets st) p) (line_sets st)\<rparr>"
  obtain q L where e: "lines_entry (line_sets st) p = (q, L)" by (cases "lines_entry (line_sets st) p")
  note L = lines_entry_ok [OF assms(2,3) e]
  have ls: "set ?ls = finding_lines f"
    using range_words [OF assms(5)] False by (simp only: finding_lines_def set_map set_upt if_False)
  have r: "add_range p ?ls ?st = Inr st'" using assms(1,4) False by (simp add: add_new_lines_def)
  have a: "adds P (\<lambda>_. {}) st ?st"
    unfolding adds_def using L by (auto simp: e lines_at_put)
  have z: "0 \<notin> set ?ls" unfolding ls using False by (auto simp: finding_lines_def)
  show ?thesis
    by (rule adds_trans [OF a add_range_adds [OF r adds_ok [OF a] assms(3) z]]) (simp only: ls Un_empty_left)
qed


subsection \<open>Changed files\<close>

definition counterpart_of :: "source_snapshot list \<Rightarrow> counterpart_pairs \<Rightarrow> nat \<Rightarrow> source_snapshot option" where
  "counterpart_of reference p i = map_option ((!) reference) (current_to_reference p ! i)"

text \<open>The line indices of a source that changed, and whether its line mapping is ambiguous.\<close>

definition changed_indices :: "source_snapshot \<Rightarrow> source_snapshot option \<Rightarrow> nat set" where
  "changed_indices s counterpart = (case counterpart of
     None \<Rightarrow> {..<length (line_digests s)}
   | Some r \<Rightarrow> if content_digest r = content_digest s then {}
       else {a. a < length (line_digests s) \<and> (\<exists>ps \<in> maximum_alignments (line_digests s) (line_digests r). map_of ps a = None)})"

definition mapping_uncertain :: "source_snapshot \<Rightarrow> source_snapshot option \<Rightarrow> bool" where
  "mapping_uncertain s counterpart = (case counterpart of
     None \<Rightarrow> False
   | Some r \<Rightarrow> content_digest r \<noteq> content_digest s \<and>
       (\<exists>ps \<in> maximum_alignments (line_digests s) (line_digests r).
          \<exists>qs \<in> maximum_alignments (line_digests s) (line_digests r). ps \<noteq> qs))"

definition line_numbers :: "nat set \<Rightarrow> u32 set" where
  "line_numbers A = (\<lambda>a. of_nat (a + 1)) ` A"

definition source_lines :: "source_snapshot list \<Rightarrow> source_snapshot list \<Rightarrow> counterpart_pairs \<Rightarrow> nat \<Rightarrow> u32 set" where
  "source_lines current reference p i = line_numbers (changed_indices (current ! i) (counterpart_of reference p i))"

definition indices_ok :: "source_snapshot list \<Rightarrow> source_snapshot list \<Rightarrow> counterpart_pairs \<Rightarrow> bool" where
  "indices_ok current reference p \<longleftrightarrow> length (current_to_reference p) = length current \<and>
     (\<forall>i j. i < length current \<longrightarrow> current_to_reference p ! i = Some j \<longrightarrow> j < length reference)"

lemma counterpart_read:
  assumes "indices_ok current reference p" and "i < length current"
  shows "do { c \<leftarrow> idx (current_to_reference p) i; case c of None \<Rightarrow> Some None | Some j \<Rightarrow> map_option Some (idx reference j) } =
    Some (counterpart_of reference p i)"
  using assms by (auto simp: indices_ok_def counterpart_of_def panic_simps split: option.splits)

lemma align_lines_Inr:
  assumes "align_lines xs ys lw limit = Some (Inr (a, lw'))"
  shows "set (new_line_indices a) = {i. i < length xs \<and> (\<exists>ps \<in> maximum_alignments xs ys. map_of ps i = None)}"
    and "uncertain_alignment a \<longleftrightarrow> (\<exists>ps \<in> maximum_alignments xs ys. \<exists>qs \<in> maximum_alignments xs ys. ps \<noteq> qs)"
proof -
  have a: "a = \<lparr>new_line_indices = filter (unmatched_in_some xs ys) [0..<length xs],
      uncertain_alignment = (\<exists>i < length xs. disagreement xs ys i)\<rparr>"
    using assms unfolding align_lines_result by (auto simp: and_then_Inr_iff)
  show "set (new_line_indices a) = {i. i < length xs \<and> (\<exists>ps \<in> maximum_alignments xs ys. map_of ps i = None)}"
    by (auto simp: a unmatched_in_some_def)
  show "uncertain_alignment a \<longleftrightarrow> (\<exists>ps \<in> maximum_alignments xs ys. \<exists>qs \<in> maximum_alignments xs ys. ps \<noteq> qs)"
    unfolding maximum_unique [symmetric] by (simp add: a)
qed

lemma align_lines_total: "\<exists>r. align_lines xs ys lw limit = Some r"
  unfolding align_lines_result by blast

text \<open>What the files from index \<open>i\<close> on add at a key.\<close>

definition from_index :: "source_snapshot list \<Rightarrow> (nat \<Rightarrow> u32 set) \<Rightarrow> nat \<Rightarrow> component list \<Rightarrow> u32 set" where
  "from_index current F i k = (\<Union>a \<in> {a. i \<le> a \<and> a < length current \<and> source_key (current ! a) = k}. F a)"

lemma from_index_step:
  assumes "i < length current"
  shows "from_index current F i k = (if k = source_key (current ! i) then F i else {}) \<union> from_index current F (i + 1) k"
proof -
  have "{a. i \<le> a \<and> a < length current \<and> source_key (current ! a) = k} =
      (if k = source_key (current ! i) then {i} else {}) \<union> {a. i + 1 \<le> a \<and> a < length current \<and> source_key (current ! a) = k}"
  proof (rule set_eqI)
    fix a
    show "a \<in> {a. i \<le> a \<and> a < length current \<and> source_key (current ! a) = k} \<longleftrightarrow>
      a \<in> (if k = source_key (current ! i) then {i} else {}) \<union> {a. i + 1 \<le> a \<and> a < length current \<and> source_key (current ! a) = k}"
      using assms by (cases "a = i") auto
  qed
  then show ?thesis by (simp only: from_index_def UN_Un) simp
qed

lemma from_index_end: "length current \<le> i \<Longrightarrow> from_index current F i k = {}"
  by (auto simp: from_index_def)

lemma add_changed_spec:
  assumes p: "indices_ok current reference p" and P: "snapshot_path ` set current \<subseteq> P"
    and "ss = drop i current" and "i + length ss = length current" and "line_sets_ok P (line_sets st)"
  shows "\<exists>r. add_changed i ss reference p u lw st = Some r \<and>
    (\<forall>u' st'. r = Inr (u', st') \<longrightarrow>
       adds P (from_index current (source_lines current reference p) i) st st' \<and>
       (u' \<longleftrightarrow> u \<or> (\<exists>a. i \<le> a \<and> a < length current \<and> mapping_uncertain (current ! a) (counterpart_of reference p a))))"
  using assms(3-)
proof (induction ss arbitrary: i u lw st)
  case Nil
  then show ?case by (auto simp: adds_def from_index_end)
next
  case (Cons s ss)
  have i: "i < length current" "s = current ! i" "ss = drop (i + 1) current" using drop_eq_ConsD [OF Cons.prems(1)] by auto
  have l: "i + 1 + length ss = length current" using Cons.prems(2) by simp
  let ?c = "counterpart_of reference p i"
  let ?D = "from_index current (source_lines current reference p)"
  let ?U = "\<lambda>i. \<exists>a. i \<le> a \<and> a < length current \<and> mapping_uncertain (current ! a) (counterpart_of reference p a)"
  have path: "snapshot_path s \<in> P" using P i nth_mem by blast
  text \<open>One file: its lines are added, and the rest continues.\<close>
  have finish: "\<exists>r. add_changed (i + 1) ss reference p (u \<or> v) lw' st1 = Some r \<and>
      (\<forall>u' st'. r = Inr (u', st') \<longrightarrow> adds P (?D i) st st' \<and> (u' \<longleftrightarrow> u \<or> ?U i))"
    if a: "adds P (\<lambda>k. if k = path_key (snapshot_path s) then line_numbers (changed_indices s ?c) else {}) st st1"
      and v: "v \<longleftrightarrow> mapping_uncertain s ?c" for st1 v lw'
  proof -
    obtain r where r: "add_changed (i + 1) ss reference p (u \<or> v) lw' st1 = Some r"
      "\<And>u' st'. r = Inr (u', st') \<Longrightarrow> adds P (?D (i + 1)) st1 st' \<and> (u' \<longleftrightarrow> (u \<or> v) \<or> ?U (i + 1))"
      using Cons.IH [OF i(3) l adds_ok [OF a], of "u \<or> v" lw'] by blast
    have split: "i \<le> a \<and> a < length current \<longleftrightarrow> a = i \<or> (i + 1 \<le> a \<and> a < length current)" for a using i(1) by auto
    have D: "?D i k = (if k = path_key (snapshot_path s) then line_numbers (changed_indices s ?c) else {}) \<union> ?D (i + 1) k" for k
      using from_index_step [OF i(1)] by (simp only: source_lines_def source_key_def i(2))
    have U: "?U i \<longleftrightarrow> v \<or> ?U (i + 1)" using v i(1,2) by (metis split)
    show ?thesis
    proof (intro exI [of _ r] conjI allI impI)
      show "add_changed (i + 1) ss reference p (u \<or> v) lw' st1 = Some r" by (rule r(1))
      fix u' st' assume e: "r = Inr (u', st')"
      show "adds P (?D i) st st'" by (rule adds_trans [OF a conjunct1 [OF r(2) [OF e]] D])
      show "u' \<longleftrightarrow> u \<or> ?U i" using r(2) [OF e] U by blast
    qed
  qed
  have cr: "add_changed i (s # ss) reference p u lw st =
    (case ?c of
        None \<Rightarrow>
          seq_try (Some (add_lines (snapshot_path s) [0..<length (line_digests s)] st)) (\<lambda>st.
          add_changed (i + 1) ss reference p u lw st)
      | Some r \<Rightarrow>
          if content_digest r = content_digest s then add_changed (i + 1) ss reference p u lw st
          else
            seq_try (align_lines (line_digests s) (line_digests r) lw 64000000) (\<lambda>(alignment, lw).
            seq_try (Some (add_lines (snapshot_path s) (new_line_indices alignment) st)) (\<lambda>st.
            add_changed (i + 1) ss reference p (u \<or> uncertain_alignment alignment) lw st)))"
  proof -
    obtain y where y: "idx (current_to_reference p) i = Some y"
      "(case y of None \<Rightarrow> Some None | Some j \<Rightarrow> map_option Some (idx reference j)) = Some ?c"
      using counterpart_read [OF p i(1)] by (auto simp: bind_eq_Some_conv)
    show ?thesis by (simp only: add_changed.simps y Option.bind.simps)
  qed
  show ?case
  proof (cases ?c)
    case None
    show ?thesis
    proof (cases "add_lines (snapshot_path s) [0..<length (line_digests s)] st")
      case (Inl e)
      then show ?thesis unfolding cr None by simp
    next
      case (Inr st1)
      have "adds P (\<lambda>k. if k = path_key (snapshot_path s) then line_numbers (changed_indices s ?c) else {}) st st1"
      proof -
        have "line_numbers (changed_indices s ?c) = (\<lambda>i. of_nat (i + 1)) ` set [0..<length (line_digests s)]"
          unfolding None by (simp add: changed_indices_def line_numbers_def atLeast0LessThan)
        then show ?thesis using add_lines_adds [OF Inr Cons.prems(3) path] by (simp only:)
      qed
      from finish [OF this, of False lw] show ?thesis unfolding cr None using Inr by (simp add: None mapping_uncertain_def)
    qed
  next
    case (Some r)
    show ?thesis
    proof (cases "content_digest r = content_digest s")
      case True
      have "adds P (\<lambda>k. if k = path_key (snapshot_path s) then line_numbers (changed_indices s ?c) else {}) st st"
        using Cons.prems(3) True by (simp add: adds_def Some changed_indices_def line_numbers_def)
      from finish [OF this, of False lw] show ?thesis unfolding cr Some using True by (simp add: Some mapping_uncertain_def)
    next
      case False
      obtain x where x: "align_lines (line_digests s) (line_digests r) lw 64000000 = Some x" using align_lines_total by blast
      show ?thesis
      proof (cases x)
        case (Inl e)
        then show ?thesis unfolding cr Some using x False by simp
      next
        case (Inr y)
        obtain al lw' where y: "y = (al, lw')" by (cases y)
        note A = align_lines_Inr [OF x [unfolded Inr y]]
        show ?thesis
        proof (cases "add_lines (snapshot_path s) (new_line_indices al) st")
          case Inl': (Inl e)
          then show ?thesis unfolding cr Some using x False Inr y by simp
        next
          case Inr': (Inr st1)
          have a: "adds P (\<lambda>k. if k = path_key (snapshot_path s) then line_numbers (changed_indices s ?c) else {}) st st1"
          proof -
            have "line_numbers (changed_indices s ?c) = (\<lambda>i. of_nat (i + 1)) ` set (new_line_indices al)"
              unfolding Some using False by (simp add: changed_indices_def line_numbers_def A(1))
            then show ?thesis using add_lines_adds [OF Inr' Cons.prems(3) path] by (simp only:)
          qed
          have v: "uncertain_alignment al \<longleftrightarrow> mapping_uncertain s ?c" using False by (simp add: A(2) Some mapping_uncertain_def)
          show ?thesis unfolding cr Some using finish [OF a v, of lw'] x False Inr Inr' y by simp
        qed
      qed
    qed
  qed
qed


section \<open>The classification of findings\<close>

text \<open>The status a finding deserves, from the inventories themselves: \<open>local\<close> are the findings of the
  counterpart with the same content.\<close>

definition inventory :: "source_snapshot list \<Rightarrow> finding_identity list" where
  "inventory ss = concat (map snapshot_findings ss)"

definition local_matches :: "source_snapshot option \<Rightarrow> finding_identity \<Rightarrow> finding_identity list" where
  "local_matches counterpart f = (case counterpart of None \<Rightarrow> []
     | Some r \<Rightarrow> filter (\<lambda>g. content_key g = content_key f) (snapshot_findings r))"

definition verdict :: "source_snapshot list \<Rightarrow> source_snapshot list \<Rightarrow> source_snapshot option \<Rightarrow> finding_identity \<Rightarrow> finding_status" where
  "verdict current reference counterpart f =
     (if ambiguous f \<or> length (filter (\<lambda>g. identity g = identity f) (inventory current)) \<noteq> 1 then Uncertain
      else (case local_matches counterpart f of
          [] \<Rightarrow> if content_key f \<in> content_key ` set (inventory reference) then Uncertain else New
        | [g] \<Rightarrow> if ambiguous g then Uncertain else Existing
        | _ \<Rightarrow> Uncertain))"

definition classification_of :: "source_snapshot list \<Rightarrow> source_snapshot list \<Rightarrow> classification" where
  "classification_of current reference =
     \<lparr>reference_by_identity = reference_identity_index reference,
      current_identity_counts = snd (current_identity_data current)\<rparr>"

lemma known_iff: "map_of (reference_identity_index reference) k \<noteq> None \<longleftrightarrow> k \<in> content_key ` set (inventory reference)"
  unfolding reference_identity_index_def bt_group_get inventory_def [symmetric]
  by (auto simp: Let_def filter_empty_conv image_iff split: if_splits)

lemma count_iff: "map_of (snd (current_identity_data current)) k = Some 1 \<longleftrightarrow>
    length (filter (\<lambda>g. identity g = k) (inventory current)) = 1"
  unfolding current_identity_data_def Let_def snd_conv bt_count_get inventory_def [symmetric] by simp

text \<open>One step: the verdict, the flag, and the lines of a new finding.\<close>

lemma classify_finding_spec:
  assumes "classify_finding (classification_of current reference) f s r (u, st) = Inr (status, u', st')"
    and "line_sets_ok P (line_sets st)" and "snapshot_path s \<in> P" and "validate_finding sha f = Inr ()"
  shows "status = verdict current reference r f" and "u' \<longleftrightarrow> u \<or> verdict current reference r f = Uncertain"
    and "adds P (\<lambda>k. if k = source_key s \<and> verdict current reference r f = New then finding_lines f else {}) st st'"
proof -
  let ?c = "classification_of current reference"
  have known: "map_of (reference_by_identity ?c) (content_key f) \<noteq> None \<longleftrightarrow> content_key f \<in> content_key ` set (inventory reference)"
    by (simp only: classification_of_def classification.simps known_iff)
  have count: "map_of (current_identity_counts ?c) (identity f) = Some 1 \<longleftrightarrow>
      length (filter (\<lambda>g. identity g = identity f) (inventory current)) = 1"
    by (simp only: classification_of_def classification.simps count_iff)
  have l: "local_identity_candidates r f = (length (local_matches r f), case local_matches r f of [] \<Rightarrow> None | g # _ \<Rightarrow> Some g)"
    by (auto simp: local_identity_candidates_def local_matches_def Let_def split: option.splits)
  note def = assms(1) [unfolded classify_finding_def Let_def case_prod_conv l known count]
  note vf = valid_finding [OF assms(4)]
  consider "ambiguous f \<or> length (filter (\<lambda>g. identity g = identity f) (inventory current)) \<noteq> 1"
    | "\<not> (ambiguous f \<or> length (filter (\<lambda>g. identity g = identity f) (inventory current)) \<noteq> 1)" "local_matches r f = []"
      "content_key f \<in> content_key ` set (inventory reference)"
    | "\<not> (ambiguous f \<or> length (filter (\<lambda>g. identity g = identity f) (inventory current)) \<noteq> 1)" "local_matches r f = []"
      "content_key f \<notin> content_key ` set (inventory reference)"
    | g where "\<not> (ambiguous f \<or> length (filter (\<lambda>g. identity g = identity f) (inventory current)) \<noteq> 1)" "local_matches r f = [g]"
    | g h gs where "\<not> (ambiguous f \<or> length (filter (\<lambda>g. identity g = identity f) (inventory current)) \<noteq> 1)"
      "local_matches r f = g # h # gs"
    by (metis neq_Nil_conv)
  then have "status = verdict current reference r f \<and> (u' \<longleftrightarrow> u \<or> verdict current reference r f = Uncertain) \<and>
    adds P (\<lambda>k. if k = source_key s \<and> verdict current reference r f = New then finding_lines f else {}) st st'"
  proof cases
    case 1
    then show ?thesis using def assms(2) by (auto simp: verdict_def adds_def)
  next
    case 2
    then show ?thesis using def assms(2) by (auto simp: verdict_def adds_def)
  next
    case 3
    then have v: "verdict current reference r f = New" by (simp add: verdict_def)
    from 3 def obtain "add_new_lines (snapshot_path s) f st = Inr st'" "status = New" "u' = u"
      by (auto simp: and_then_Inr_iff)
    then show ?thesis using add_new_lines_adds [OF _ assms(2,3) vf(2,3)] by (simp add: v source_key_def)
  next
    case (4 g)
    then show ?thesis using def assms(2) by (auto simp: verdict_def adds_def split: if_splits)
  next
    case (5 g h gs)
    then show ?thesis using def assms(2) by (auto simp: verdict_def adds_def)
  qed
  then show "status = verdict current reference r f" "u' \<longleftrightarrow> u \<or> verdict current reference r f = Uncertain"
    "adds P (\<lambda>k. if k = source_key s \<and> verdict current reference r f = New then finding_lines f else {}) st st'"
    by blast+
qed

definition match_of :: "source_snapshot \<Rightarrow> finding_identity \<Rightarrow> finding_status \<Rightarrow> finding_match" where
  "match_of s f status = \<lparr>match_path = snapshot_path s, match_index = issue_index f, match_identity = identity f,
     match_status = status\<rparr>"

lemma classify_source_spec:
  assumes "classify_source (classification_of current reference) s r fs (u, st) = Inr (ms, u', st')"
    and "line_sets_ok P (line_sets st)" and "snapshot_path s \<in> P" and "\<forall>f \<in> set fs. validate_finding sha f = Inr ()"
  shows "ms = map (\<lambda>f. match_of s f (verdict current reference r f)) fs \<and>
    (u' \<longleftrightarrow> u \<or> (\<exists>f \<in> set fs. verdict current reference r f = Uncertain)) \<and>
    adds P (\<lambda>k. if k = source_key s then \<Union>f \<in> {f \<in> set fs. verdict current reference r f = New}. finding_lines f else {}) st st'"
  using assms
proof (induction fs arbitrary: u st ms)
  case Nil
  then show ?case by (simp add: adds_def)
next
  case (Cons f fs)
  obtain status u1 st1 ms1 where 1: "classify_finding (classification_of current reference) f s r (u, st) = Inr (status, u1, st1)"
    and 2: "classify_source (classification_of current reference) s r fs (u1, st1) = Inr (ms1, u', st')"
    and ms: "ms = match_of s f status # ms1"
    using Cons.prems(1) by (auto simp: and_then_Inr_iff match_of_def)
  have vf: "validate_finding sha f = Inr ()" "\<forall>f \<in> set fs. validate_finding sha f = Inr ()" using Cons.prems(4) by simp_all
  note s1 = classify_finding_spec [OF 1 Cons.prems(2,3) vf(1)]
  note s2 = Cons.IH [OF 2 adds_ok [OF s1(3)] Cons.prems(3) vf(2)]
  have "adds P (\<lambda>k. if k = source_key s then \<Union>f \<in> {f' \<in> set (f # fs). verdict current reference r f' = New}. finding_lines f else {}) st st'"
    by (rule adds_trans [OF s1(3) conjunct2 [OF conjunct2 [OF s2]]]) auto
  then show ?case using s1(1,2) s2 ms by auto
qed

text \<open>All sources from index \<open>i\<close> on.\<close>

definition new_finding_lines :: "source_snapshot list \<Rightarrow> source_snapshot list \<Rightarrow> counterpart_pairs \<Rightarrow> nat \<Rightarrow> u32 set" where
  "new_finding_lines current reference p i =
     (\<Union>f \<in> {f \<in> set (snapshot_findings (current ! i)). verdict current reference (counterpart_of reference p i) f = New}. finding_lines f)"

definition matches_of :: "source_snapshot list \<Rightarrow> source_snapshot list \<Rightarrow> counterpart_pairs \<Rightarrow> nat \<Rightarrow> finding_match list" where
  "matches_of current reference p i =
     map (\<lambda>f. match_of (current ! i) f (verdict current reference (counterpart_of reference p i) f)) (snapshot_findings (current ! i))"

lemma classify_sources_spec:
  assumes p: "indices_ok current reference p" and P: "snapshot_path ` set current \<subseteq> P"
    and v: "\<forall>s \<in> set current. validate_snapshot sha s = Inr ()"
    and "ss = drop i current" and "i + length ss = length current" and "line_sets_ok P (line_sets st)"
  shows "\<exists>r. classify_sources (classification_of current reference) i ss reference p (u, st) = Some r \<and>
    (\<forall>ms u' st'. r = Inr (ms, u', st') \<longrightarrow>
       ms = concat (map (matches_of current reference p) [i..<length current]) \<and>
       adds P (from_index current (new_finding_lines current reference p) i) st st' \<and>
       (u' \<longleftrightarrow> u \<or> (\<exists>m \<in> set ms. match_status m = Uncertain)))"
  using assms(4-)
proof (induction ss arbitrary: i u st)
  case Nil
  then show ?case by (auto simp: adds_def from_index_end)
next
  case (Cons s ss)
  have i: "i < length current" "s = current ! i" "ss = drop (i + 1) current" using drop_eq_ConsD [OF Cons.prems(1)] by auto
  have l: "i + 1 + length ss = length current" using Cons.prems(2) by simp
  let ?c = "counterpart_of reference p i" and ?k = "classification_of current reference"
  let ?D = "from_index current (new_finding_lines current reference p)"
  have mem: "s \<in> set current" using i by simp
  have path: "snapshot_path s \<in> P" using P mem by blast
  have vf: "\<forall>f \<in> set (snapshot_findings s). validate_finding sha f = Inr ()" using v mem valid_snapshot(3) by blast
  obtain y where y: "idx (current_to_reference p) i = Some y"
    "(case y of None \<Rightarrow> Some None | Some j \<Rightarrow> map_option Some (idx reference j)) = Some ?c"
    using counterpart_read [OF p i(1)] by (auto simp: bind_eq_Some_conv)
  show ?case
  proof (cases "classify_source ?k s ?c (snapshot_findings s) (u, st)")
    case (Inl e)
    then show ?thesis by (simp only: classify_sources.simps y Option.bind.simps seq_try_simps) simp
  next
    case (Inr x)
    obtain ms1 u1 st1 where x: "x = (ms1, u1, st1)" by (cases x)
    note s1 = classify_source_spec [OF Inr [unfolded x] Cons.prems(3) path vf]
    have m1: "ms1 = matches_of current reference p i" using s1 by (simp add: matches_of_def i(2))
    have u1: "u1 \<longleftrightarrow> u \<or> (\<exists>m \<in> set ms1. match_status m = Uncertain)" using s1 by (auto simp: match_of_def)
    obtain r where r: "classify_sources ?k (i + 1) ss reference p (u1, st1) = Some r"
      "\<And>ms u' st'. r = Inr (ms, u', st') \<Longrightarrow> ms = concat (map (matches_of current reference p) [i + 1..<length current]) \<and>
       adds P (?D (i + 1)) st1 st' \<and> (u' \<longleftrightarrow> u1 \<or> (\<exists>m \<in> set ms. match_status m = Uncertain))"
      using Cons.IH [OF i(3) l adds_ok [OF conjunct2 [OF conjunct2 [OF s1]]], of u1] by blast
    have e: "classify_sources ?k i (s # ss) reference p (u, st) =
        seq_try (Some r) (\<lambda>(ms', acc). Some (Inr (ms1 @ ms', acc)))"
      by (simp only: classify_sources.simps y Option.bind.simps seq_try_simps Inr x case_prod_conv r(1))
    show ?thesis
    proof (cases r)
      case (Inl e')
      then show ?thesis unfolding e by simp
    next
      case r': (Inr z)
      obtain ms2 u2 st2 where z: "z = (ms2, u2, st2)" by (cases z)
      note s2 = r(2) [OF r' [unfolded z]]
      have D: "?D i k = (if k = source_key s then new_finding_lines current reference p i else {}) \<union> ?D (i + 1) k" for k
        using from_index_step [OF i(1)] by (simp only: i(2))
      have a1: "adds P (\<lambda>k. if k = source_key s then new_finding_lines current reference p i else {}) st st1"
        using s1 unfolding new_finding_lines_def i(2) [symmetric] by blast
      have "adds P (?D i) st st2" by (rule adds_trans [OF a1 conjunct1 [OF conjunct2 [OF s2]] D])
      moreover have "ms1 @ ms2 = concat (map (matches_of current reference p) [i..<length current])"
        using s2 m1 i(1) by (simp add: upt_conv_Cons)
      moreover have "u2 \<longleftrightarrow> u \<or> (\<exists>m \<in> set (ms1 @ ms2). match_status m = Uncertain)" using s2 u1 by auto
      ultimately show ?thesis unfolding e r' z by simp
    qed
  qed
qed


section \<open>Resolved findings\<close>

lemma resolved_from_spec:
  assumes "length (reference_to_current p) = length reference"
    and "\<forall>j < length reference. \<forall>i. reference_to_current p ! j = Some i \<longrightarrow> i < length current"
    and "rs = drop j reference" and "j + length rs = length reference"
  shows "\<exists>res. resolved_from j rs current p keys = Some res \<and>
    (\<forall>(q, f) \<in> set res. \<exists>r \<in> set reference. f \<in> set (snapshot_findings r) \<and> \<not> ambiguous f \<and> content_key f \<notin> keys)"
  using assms(3-)
proof (induction rs arbitrary: j)
  case Nil
  then show ?case by simp
next
  case (Cons r rs)
  have j: "j < length reference" "r = reference ! j" "rs = drop (j + 1) reference" using drop_eq_ConsD [OF Cons.prems(1)] by auto
  have l: "j + 1 + length rs = length reference" using Cons.prems(2) by simp
  obtain res where res: "resolved_from (j + 1) rs current p keys = Some res"
    "\<forall>(q, f) \<in> set res. \<exists>r \<in> set reference. f \<in> set (snapshot_findings r) \<and> \<not> ambiguous f \<and> content_key f \<notin> keys"
    using Cons.IH [OF j(3) l] by blast
  have c: "idx (reference_to_current p) j = Some (reference_to_current p ! j)" using j(1) assms(1) by (simp add: panic_simps)
  have mem: "r \<in> set reference" using j by simp
  show ?case
  proof (cases "reference_to_current p ! j")
    case None
    then show ?thesis using c res by simp
  next
    case (Some i)
    have "idx current i = Some (current ! i)" using assms(2) j(1) Some by (simp add: panic_simps)
    moreover have "\<forall>(q, f) \<in> set (collect_source_resolved r (current ! i) keys).
        f \<in> set (snapshot_findings r) \<and> \<not> ambiguous f \<and> content_key f \<notin> keys"
      by (auto simp: collect_source_resolved_def)
    ultimately show ?thesis using c Some res mem by fastforce
  qed
qed

section \<open>The result of the classification\<close>

lemma windows2_strict: "sorted_wrt (<) (xs :: u32 list) \<Longrightarrow> \<forall>(a, b) \<in> set (windows2 xs). a < b"
  using windows2_all [of xs "(<)"] successively_if_sorted_wrt by blast

lemma rendered_lines:
  assumes "line_sets_ok P m" and "\<forall>p \<in> P. p \<noteq> [] \<and> is_normalized p"
  defines "es \<equiv> map (\<lambda>(k, p, lines). \<lparr>new_path = p, new_lines = sorted_list_of_set lines\<rparr>) m"
  shows "\<forall>e \<in> set es. validate_new_lines e = Inr ()" and "changed es = {(k, l). l \<in> lines_at m k}"
proof -
  have m: "bt_ok m" "\<And>k p L. (k, p, L) \<in> set m \<Longrightarrow> k = path_key p \<and> p \<in> P \<and> 0 \<notin> L"
    using assms(1) by (auto simp: line_sets_ok_def)
  show "\<forall>e \<in> set es. validate_new_lines e = Inr ()"
  proof
    fix e assume "e \<in> set es"
    then obtain k p L where e: "(k, p, L) \<in> set m" "e = \<lparr>new_path = p, new_lines = sorted_list_of_set L\<rparr>" by (auto simp: es_def)
    have "finite L" by simp
    moreover have "\<forall>(a, b) \<in> set (windows2 (sorted_list_of_set L)). a < b"
      by (rule windows2_strict) (rule strict_sorted_list_of_set)
    ultimately show "validate_new_lines e = Inr ()"
      using m(2) [OF e(1)] assms(2) by (auto simp: validate_new_lines_def check_Inr_iff e(2) not_le)
  qed
  have fin: "finite L" for L :: "u32 set" by simp
  have "(k, l) \<in> changed es \<longleftrightarrow> l \<in> lines_at m k" for k l
  proof
    assume "(k, l) \<in> changed es"
    then obtain k' p L where "(k', p, L) \<in> set m" "k = path_key p" "l \<in> L" using fin by (auto simp: changed_def es_def)
    moreover from this have "map_of m k = Some (p, L)" using m bt_get_iff [OF m(1)] by metis
    ultimately show "l \<in> lines_at m k" by (simp add: lines_at_def)
  next
    assume "l \<in> lines_at m k"
    then obtain p L where "map_of m k = Some (p, L)" "l \<in> L" by (auto simp: lines_at_def split: option.splits)
    then have "(k, p, L) \<in> set m" "l \<in> L" using bt_get_iff [OF m(1)] by simp_all
    then have "\<lparr>new_path = p, new_lines = sorted_list_of_set L\<rparr> \<in> set es" "k = path_key p" using m(2) by (force simp: es_def)+
    then show "(k, l) \<in> changed es" using \<open>l \<in> L\<close> fin unfolding changed_def by force
  qed
  then show "changed es = {(k, l). l \<in> lines_at m k}" by auto
qed

text \<open>Everything a successful classification establishes.\<close>

definition classified :: "(bytes \<Rightarrow> bytes) \<Rightarrow> source_snapshot list \<Rightarrow> source_snapshot list \<Rightarrow> counterpart_pairs \<Rightarrow> new_code_report \<Rightarrow> bool" where
  "classified sha current reference p n \<longleftrightarrow>
     new_code_version n = BASELINE_SCHEMA_VERSION \<and>
     mset (new_code_findings n) = mset (concat (map (matches_of current reference p) [0..<length current])) \<and>
     (\<forall>f \<in> set (resolved n). f \<in> set (inventory reference) \<and> \<not> ambiguous f \<and> content_key f \<notin> content_key ` set (inventory current)) \<and>
     (\<forall>e \<in> set (new_code_line_list n). validate_new_lines e = Inr ()) \<and>
     changed (new_code_line_list n) = {(k, l). \<exists>i < length current. source_key (current ! i) = k \<and>
       l \<in> source_lines current reference p i \<union> new_finding_lines current reference p i} \<and>
     new_code_status n = (if ambiguous_pairs p \<or> (\<exists>i < length current. mapping_uncertain (current ! i) (counterpart_of reference p i)) \<or>
       (\<exists>m \<in> set (new_code_findings n). match_status m = Uncertain) then Incomplete else Complete) \<and>
     (new_code_status n = Complete \<longrightarrow> new_code_diagnostics n = [])"

lemma classify_spec:
  assumes c: "inventory_ok sha current" and r: "inventory_ok sha reference"
  shows "\<exists>res. classify current reference context = Some res \<and>
    (\<forall>n. res = Inr n \<longrightarrow> reference_context n = Some context \<and>
       (\<exists>p. assign_counterparts current reference = Some (Inr p) \<and> pairs_ok current reference p \<and> classified sha current reference p n))"
proof -
  let ?P = "snapshot_path ` set current"
  let ?init = "\<lparr>line_sets = [], total_new_lines = 0, new_line_work = 0\<rparr>"
  have P: "\<forall>p \<in> ?P. p \<noteq> [] \<and> is_normalized p"
    using c valid_snapshot(1,2) by (auto simp: inventory_ok_def)
  have v: "\<forall>s \<in> set current. validate_snapshot sha s = Inr ()" using c by (simp add: inventory_ok_def)
  obtain pr where pr: "assign_counterparts current reference = Some pr" "\<And>p. pr = Inr p \<Longrightarrow> pairs_ok current reference p"
    using assign_counterparts_ok [OF inventory_distinct [OF c] inventory_distinct [OF r]] by blast
  show ?thesis
  proof (cases pr)
    case (Inl e)
    then show ?thesis using pr(1) by (simp add: classify_def Let_def)
  next
    case (Inr p)
    note ok = pr(2) [OF Inr]
    have ind: "indices_ok current reference p"
      using ok mirrored_current [of "current_to_reference p" "reference_to_current p"]
      unfolding pairs_ok_def indices_ok_def by simp
    have bk: "length (reference_to_current p) = length reference"
      "\<forall>j < length reference. \<forall>i. reference_to_current p ! j = Some i \<longrightarrow> i < length current"
      using ok mirrored_reference [of "current_to_reference p" "reference_to_current p"] by (simp_all add: pairs_ok_def)
    have init: "line_sets_ok ?P (line_sets ?init)" by (simp add: line_sets_ok_def)
    obtain r1 where r1: "add_changed_source_lines current reference p ?init = Some r1"
      "\<And>u' st'. r1 = Inr (u', st') \<Longrightarrow> adds ?P (from_index current (source_lines current reference p) 0) ?init st' \<and>
         (u' \<longleftrightarrow> ambiguous_pairs p \<or> (\<exists>a. 0 \<le> a \<and> a < length current \<and> mapping_uncertain (current ! a) (counterpart_of reference p a)))"
      using add_changed_spec [OF ind subset_refl _ _ init, of current 0 "ambiguous_pairs p" 0]
      by (auto simp: add_changed_source_lines_def)
    show ?thesis
    proof (cases r1)
      case Inl': (Inl e)
      then show ?thesis using pr(1) Inr r1(1) by (simp add: classify_def Let_def)
    next
      case Inr1: (Inr y)
      obtain lu st1 where y: "y = (lu, st1)" by (cases y)
      note s1 = r1(2) [OF Inr1 [unfolded y]]
      obtain r2 where r2: "classify_sources (classification_of current reference) 0 current reference p (lu, st1) = Some r2"
        "\<And>ms u' st'. r2 = Inr (ms, u', st') \<Longrightarrow> ms = concat (map (matches_of current reference p) [0..<length current]) \<and>
           adds ?P (from_index current (new_finding_lines current reference p) 0) st1 st' \<and>
           (u' \<longleftrightarrow> lu \<or> (\<exists>m \<in> set ms. match_status m = Uncertain))"
        using classify_sources_spec [OF ind subset_refl v _ _ adds_ok [OF conjunct1 [OF s1]], of current 0 lu] by auto
      have cf: "classify_current_findings \<lparr>reference_by_identity = reference_identity_index reference,
          current_identity_counts = snd (current_identity_data current)\<rparr> current reference p (lu, st1) = Some r2"
        using r2(1) by (simp only: classify_current_findings_def classification_of_def)
      show ?thesis
      proof (cases r2)
        case Inl'': (Inl e)
        then show ?thesis using pr(1) Inr r1(1) Inr1 y cf by (simp add: classify_def Let_def case_prod_beta)
      next
        case Inr2: (Inr z)
        obtain ms u st2 where z: "z = (ms, u, st2)" by (cases z)
        note s2 = r2(2) [OF Inr2 [unfolded z]]
        let ?keys = "fst (current_identity_data current)"
        have keys: "?keys = content_key ` set (inventory current)" by (simp add: current_identity_data_def inventory_def Let_def)
        obtain res where res: "collect_resolved current reference p ?keys lu = Some res"
          "\<forall>(q, f) \<in> set res. \<exists>r \<in> set reference. f \<in> set (snapshot_findings r) \<and> \<not> ambiguous f \<and> content_key f \<notin> ?keys"
        proof (cases lu)
          case True
          then show ?thesis by (intro that [of "[]"]) (simp_all add: collect_resolved_def)
        next
          case False
          obtain res where "resolved_from 0 reference current p ?keys = Some res"
            "\<forall>(q, f) \<in> set res. \<exists>r \<in> set reference. f \<in> set (snapshot_findings r) \<and> \<not> ambiguous f \<and> content_key f \<notin> ?keys"
            using resolved_from_spec [OF bk, of reference 0 ?keys] by auto
          then show ?thesis using False by (intro that [of res]) (simp_all add: collect_resolved_def)
        qed
        let ?n = "\<lparr>new_code_version = BASELINE_SCHEMA_VERSION,
          new_code_status = (if u then Incomplete else Complete), reference_context = Some context,
          new_code_findings = sort_finding_matches ms, resolved = map snd (sort_resolved res),
          new_code_line_list = map (\<lambda>(k, p, lines). \<lparr>new_path = p, new_lines = sorted_list_of_set lines\<rparr>) (line_sets st2),
          new_code_diagnostics = classification_diagnostics lu u\<rparr>"
        have n: "classify current reference context = Some (Inr ?n)"
          using pr(1) Inr r1(1) Inr1 y cf Inr2 z res(1) by (simp add: classify_def Let_def case_prod_beta)
        note L = rendered_lines [OF adds_ok [OF conjunct1 [OF conjunct2 [OF s2]]] P]
        have at: "lines_at (line_sets st2) k =
            from_index current (source_lines current reference p) 0 k \<union> from_index current (new_finding_lines current reference p) 0 k" for k
          using s1 s2 by (simp add: adds_def lines_at_def [of "[]"])
        have lines: "changed (new_code_line_list ?n) = {(k, l). \<exists>i < length current. source_key (current ! i) = k \<and>
            l \<in> source_lines current reference p i \<union> new_finding_lines current reference p i}"
          using L(2) unfolding at by (auto simp: from_index_def)
        have u: "u \<longleftrightarrow> ambiguous_pairs p \<or> (\<exists>i < length current. mapping_uncertain (current ! i) (counterpart_of reference p i)) \<or>
            (\<exists>m \<in> set ms. match_status m = Uncertain)" using s1 s2 by blast
        have lu: "lu \<Longrightarrow> u" using s2 by blast
        have found: "\<forall>f \<in> set (resolved ?n). f \<in> set (inventory reference) \<and> \<not> ambiguous f \<and> content_key f \<notin> content_key ` set (inventory current)"
          using res(2) unfolding keys by (fastforce simp: sort_resolved_def inventory_def)
        have "classified sha current reference p ?n" unfolding classified_def
        proof (intro conjI)
          show "new_code_status ?n = (if ambiguous_pairs p \<or> (\<exists>i < length current. mapping_uncertain (current ! i) (counterpart_of reference p i)) \<or>
            (\<exists>m \<in> set (new_code_findings ?n). match_status m = Uncertain) then Incomplete else Complete)"
            using u by (simp add: sort_finding_matches_def)
          show "new_code_status ?n = Complete \<longrightarrow> new_code_diagnostics ?n = []"
            using lu by (auto simp: classification_diagnostics_def)
          show "mset (new_code_findings ?n) = mset (concat (map (matches_of current reference p) [0..<length current]))"
            using s2 by (simp add: sort_finding_matches_def)
          show "\<forall>e \<in> set (new_code_line_list ?n). validate_new_lines e = Inr ()" using L(1) by simp
        qed (use lines found in \<open>simp_all only: new_code_report.simps\<close>)
        then show ?thesis using n pr(1) Inr ok by auto
      qed
    qed
  qed
qed


section \<open>The comparison\<close>

text \<open>Every outcome: an invalid inventory, an indeterminate result, or a classification.\<close>

lemma compare_outcomes:
  shows "\<exists>r. compare_to_reference sha describe context sources reference = Some r \<and>
    ((\<exists>e. ordered_sources sha sources = Inl e \<and> r = indeterminate_current [] InvalidStatus None (''current assessment is invalid: '' @ describe e)) \<or>
     (\<exists>current. ordered_sources sha sources = Inr current \<and>
       ((\<exists>status c d. status \<noteq> Complete \<and> r = indeterminate_current current status c d) \<or>
        (\<exists>a p. reference = Some a \<and> validate_assessment sha a = Inr () \<and> compatible_with context (assessment_context a) \<and>
           reference_context r = Some (assessment_context a) \<and>
           assign_counterparts current (assessment_sources a) = Some (Inr p) \<and> pairs_ok current (assessment_sources a) p \<and>
           classified sha current (assessment_sources a) p r))))"
proof (cases "ordered_sources sha sources")
  case (Inl e)
  then show ?thesis by (simp add: compare_to_reference_def unavailable_result_def)
next
  case (Inr current)
  note cur = ordered_sources_Inr(1) [OF Inr]
  have indeterminate: ?thesis
    if "compare_to_reference sha describe context sources reference = Some (indeterminate_current current status c d)" "status \<noteq> Complete"
    for status c d using Inr that by blast
  show ?thesis
  proof (cases reference)
    case None
    show ?thesis by (rule indeterminate [of Missing]) (simp_all add: compare_to_reference_def Inr None)
  next
    case (Some a)
    show ?thesis
    proof (cases "validate_assessment sha a")
      case Inl': (Inl e)
      show ?thesis by (rule indeterminate [of InvalidStatus]) (simp_all add: compare_to_reference_def Inr Some Inl' Let_def)
    next
      case v: (Inr u)
      then have valid: "validate_assessment sha a = Inr ()" by simp
      note inv = validate_assessment_sources [OF valid]
      show ?thesis
      proof (cases "compatible_with context (assessment_context a)")
        case False
        show ?thesis by (rule indeterminate [of Incomplete]) (simp_all add: compare_to_reference_def Inr Some valid False Let_def)
      next
        case True
        obtain res where res: "classify current (assessment_sources a) (assessment_context a) = Some res"
          "\<And>n. res = Inr n \<Longrightarrow> reference_context n = Some (assessment_context a) \<and>
             (\<exists>p. assign_counterparts current (assessment_sources a) = Some (Inr p) \<and> pairs_ok current (assessment_sources a) p \<and>
                classified sha current (assessment_sources a) p n)"
          using classify_spec [OF cur inv, of "assessment_context a"] by blast
        have e: "compare_to_reference sha describe context sources reference =
            Some (case res of Inr result \<Rightarrow> result | Inl e \<Rightarrow> indeterminate_current current Incomplete (Some (assessment_context a)) e)"
          using Inr Some valid True ordered_sources_sorted [OF inv] res(1) by (simp add: compare_to_reference_def Let_def)
        show ?thesis
        proof (cases res)
          case Inl'': (Inl x)
          show ?thesis by (rule indeterminate [of Incomplete]) (simp_all add: e Inl'')
        next
          case n: (Inr n)
          show ?thesis unfolding e n using Inr Some valid True res(2) [OF n] by auto
        qed
      qed
    qed
  qed
qed

text \<open>The matches of an inventory with their keys.\<close>

definition inventory_keys :: "source_snapshot list \<Rightarrow> finding_key list" where
  "inventory_keys ss = concat (map (\<lambda>s. map (\<lambda>f. (source_key s, issue_index f, identity f)) (snapshot_findings s)) ss)"

lemma source_keys_inventory: "source_keys a = inventory_keys (assessment_sources a)"
  by (simp add: source_keys_def inventory_keys_def source_key_def)

lemma indeterminate_keys: "match_keys (indeterminate_current current status c d) = inventory_keys current"
  by (simp add: match_keys_def indeterminate_current_def inventory_keys_def source_key_def map_concat comp_def)

lemma classified_keys:
  assumes "classified sha current reference p n"
  shows "mset (match_keys n) = mset (inventory_keys current)"
proof -
  let ?g = "\<lambda>f. (path_key (match_path f), match_index f, match_identity f)"
  let ?h = "\<lambda>s. map (\<lambda>f. (source_key s, issue_index f, identity f)) (snapshot_findings s)"
  have "mset (match_keys n) = image_mset ?g (mset (new_code_findings n))" by (simp add: match_keys_def)
  also have "\<dots> = mset (map ?g (concat (map (matches_of current reference p) [0..<length current])))"
    using assms by (simp add: classified_def)
  also have "map ?g (concat (map (matches_of current reference p) [0..<length current])) =
      concat (map (\<lambda>i. ?h (current ! i)) [0..<length current])"
    by (simp add: map_concat comp_def matches_of_def match_of_def source_key_def)
  also have "map (\<lambda>i. ?h (current ! i)) [0..<length current] = map ?h current"
    by (rule nth_equalityI) simp_all
  finally show ?thesis by (simp only: inventory_keys_def)
qed

lemma inventory_keys_distinct:
  assumes "inventory_ok sha ss"
  shows "distinct (inventory_keys ss)"
  using assms
proof (induction ss)
  case (Cons s ss)
  have ok: "inventory_ok sha ss" and v: "validate_snapshot sha s = Inr ()" and lt: "\<forall>t \<in> set ss. source_key s < source_key t"
    using Cons.prems by (auto simp: inventory_ok_def)
  have "distinct (map issue_index (snapshot_findings s))" unfolding valid_snapshot(4) [OF v] by simp
  then have "distinct (map (\<lambda>f. (source_key s, issue_index f, identity f)) (snapshot_findings s))"
    by (auto simp: distinct_map inj_on_def)
  moreover have "fst x \<noteq> source_key s" if "x \<in> set (inventory_keys ss)" for x
    using that lt by (auto simp: inventory_keys_def)
  then have "set (map (\<lambda>f. (source_key s, issue_index f, identity f)) (snapshot_findings s)) \<inter> set (inventory_keys ss) = {}"
    by force
  ultimately show ?case using Cons.IH [OF ok] by (simp add: inventory_keys_def)
qed (simp add: inventory_keys_def)

lemma validate_new_code_findings:
  assumes "inventory_ok sha current" and "set (match_keys n) \<subseteq> set (inventory_keys current)"
    and "\<And>m. m \<in> set (new_code_findings n) \<Longrightarrow> match_path m \<in> snapshot_path ` set current"
    and m: "m \<in> set (new_code_findings n)"
  shows "validate_match m = Inr ()"
proof -
  from assms(3) [OF m] obtain s where s: "s \<in> set current" "match_path m = snapshot_path s" by auto
  have "(path_key (match_path m), match_index m, match_identity m) \<in> set (inventory_keys current)"
    using assms(2) m by (auto simp: match_keys_def)
  then obtain t f where f: "t \<in> set current" "f \<in> set (snapshot_findings t)" "match_identity m = identity f"
    by (auto simp: inventory_keys_def)
  have "is_digest (identity f)"
    using f assms(1) valid_snapshot(3) valid_finding(1) by (metis inventory_ok_def)
  moreover have "snapshot_path s \<noteq> []" "is_normalized (snapshot_path s)"
    using s(1) assms(1) valid_snapshot(1,2) by (metis inventory_ok_def)+
  ultimately show ?thesis using s(2) f(3) by (simp add: validate_match_def)
qed

text \<open>C18: \<open>compare_to_reference\<close> never panics, whatever the sources and the reference are, and the report it
  returns passes \<open>NewCodeReport::validate\<close> except for the context it copies: it validates exactly when that
  context does. So with a valid reference context, or none, it always validates.\<close>
theorem comparison_validates:
  "\<exists>r. compare_to_reference sha describe context sources reference = Some r \<and>
    validate_new_code sha r = (case reference_context r of None \<Rightarrow> Inr () | Some c \<Rightarrow> validate_context c)"
proof -
  obtain r where r: "compare_to_reference sha describe context sources reference = Some r"
    and out: "(\<exists>current status c d. inventory_ok sha current \<and> r = indeterminate_current current status c d) \<or>
      (\<exists>current ref p. inventory_ok sha current \<and> inventory_ok sha ref \<and> classified sha current ref p r)"
  proof -
    have "inventory_ok sha []" by (simp add: inventory_ok_def)
    then show ?thesis using that compare_outcomes [of sha describe "context" sources reference]
      by (metis ordered_sources_Inr(1) validate_assessment_sources)
  qed
  have pass: "validate_new_code sha r = (case reference_context r of None \<Rightarrow> Inr () | Some c \<Rightarrow> validate_context c)"
    if "new_code_version r = ASSESSMENT_SCHEMA_VERSION" and "\<forall>m \<in> set (new_code_findings r). validate_match m = Inr ()"
      and "\<forall>f \<in> set (resolved r). validate_finding sha f = Inr ()" and "\<forall>e \<in> set (new_code_line_list r). validate_new_lines e = Inr ()"
  proof -
    have "try_all validate_match (new_code_findings r) = Inr ()" "try_all (validate_finding sha) (resolved r) = Inr ()"
      "try_all validate_new_lines (new_code_line_list r) = Inr ()" using that by (simp_all add: try_all_Inr_iff)
    then show ?thesis using that(1)
      by (cases "case reference_context r of None \<Rightarrow> Inr () | Some c \<Rightarrow> validate_context c") (simp_all add: validate_new_code_def)
  qed
  from out show ?thesis
  proof (elim disjE exE conjE)
    fix current status c d assume cur: "inventory_ok sha current" and e: "r = indeterminate_current current status c d"
    have "set (match_keys r) \<subseteq> set (inventory_keys current)" by (simp add: e indeterminate_keys)
    moreover have "match_path m \<in> snapshot_path ` set current" if "m \<in> set (new_code_findings r)" for m
      using that by (auto simp: e indeterminate_current_def)
    ultimately have "\<forall>m \<in> set (new_code_findings r). validate_match m = Inr ()" using validate_new_code_findings [OF cur] by blast
    then show ?thesis using r pass by (simp add: e indeterminate_current_def BASELINE_SCHEMA_VERSION_def)
  next
    fix current ref p assume cur: "inventory_ok sha current" and ref: "inventory_ok sha ref" and c: "classified sha current ref p r"
    have "set (match_keys r) \<subseteq> set (inventory_keys current)" using mset_eq_setD [OF classified_keys [OF c]] by simp
    moreover have "match_path m \<in> snapshot_path ` set current" if "m \<in> set (new_code_findings r)" for m
    proof -
      have "set (new_code_findings r) = set (concat (map (matches_of current ref p) [0..<length current]))"
        using c mset_eq_setD unfolding classified_def by blast
      with that show ?thesis by (auto simp: matches_of_def match_of_def)
    qed
    ultimately have "\<forall>m \<in> set (new_code_findings r). validate_match m = Inr ()" using validate_new_code_findings [OF cur] by blast
    moreover have "\<forall>f \<in> set (resolved r). validate_finding sha f = Inr ()"
      using c ref valid_snapshot(3) unfolding classified_def inventory_def inventory_ok_def by fastforce
    ultimately show ?thesis using r pass c by (simp add: classified_def BASELINE_SCHEMA_VERSION_def)
  qed
qed


text \<open>C6: The report of \<open>compare_reports\<close> always matches the assessment it was made for: for a valid current
  assessment and any reference, the gates' reconciliation \<open>validate_current_finding_matches\<close> accepts it, so
  every current finding is in it exactly once, whether the comparison succeeded or was indeterminate.\<close>
theorem comparison_reconciles:
  assumes "validate_assessment sha a = Inr ()"
  shows "\<exists>r. compare_reports sha describe a reference = Some r \<and> validate_current_finding_matches a r = Inr ()"
proof -
  note inv = validate_assessment_sources [OF assms]
  have eq: "compare_reports sha describe a reference =
      compare_to_reference sha describe (assessment_context a) (assessment_sources a) reference"
    by (simp add: compare_reports_def assms)
  obtain r where r: "compare_reports sha describe a reference = Some r"
    and out: "(\<exists>status c d. r = indeterminate_current (assessment_sources a) status c d) \<or>
      (\<exists>ref p. classified sha (assessment_sources a) ref p r)"
    unfolding eq using compare_outcomes [of sha describe "assessment_context a" "assessment_sources a" reference]
      ordered_sources_sorted [OF inv] by (metis Inl_Inr_False sum.inject(2))
  have keys: "mset (match_keys r) = mset (source_keys a)"
    using out indeterminate_keys classified_keys unfolding source_keys_inventory by metis
  have d: "distinct (source_keys a)" unfolding source_keys_inventory by (rule inventory_keys_distinct [OF inv])
  have "distinct (match_keys r)" using keys d by (metis mset_eq_imp_distinct_iff)
  then show ?thesis using r d mset_eq_setD [OF keys] by (simp add: finding_matches_exact)
qed

text \<open>C5: A \<open>Complete\<close> comparison hides nothing: it needs a reference report that validates and whose context is
  compatible; the counterparts are unambiguous, every changed file has exactly one maximum alignment with its
  counterpart, no finding is uncertain, and there are no diagnostics.\<close>
theorem complete_is_certain:
  assumes "compare_to_reference sha describe context sources reference = Some r" and "new_code_status r = Complete"
  shows "\<exists>a current p. reference = Some a \<and> validate_assessment sha a = Inr () \<and>
    compatible_with context (assessment_context a) \<and> ordered_sources sha sources = Inr current \<and>
    assign_counterparts current (assessment_sources a) = Some (Inr p) \<and> \<not> ambiguous_pairs p \<and>
    (\<exists>n. n = length current \<and> {i. i < n \<and> mapping_uncertain (current ! i) (counterpart_of (assessment_sources a) p i)} = {}) \<and>
    Uncertain \<notin> match_status ` set (new_code_findings r) \<and> new_code_diagnostics r = []"
proof -
  obtain current a p where o: "ordered_sources sha sources = Inr current" "reference = Some a" "validate_assessment sha a = Inr ()"
    "compatible_with context (assessment_context a)" "assign_counterparts current (assessment_sources a) = Some (Inr p)"
    and c: "classified sha current (assessment_sources a) p r"
    using compare_outcomes [of sha describe "context" sources reference] assms
    by (auto simp: indeterminate_current_def)
  have "new_code_diagnostics r = []" using c assms(2) unfolding classified_def by blast
  moreover have "new_code_status r = (if ambiguous_pairs p \<or> (\<exists>i < length current. mapping_uncertain (current ! i) (counterpart_of (assessment_sources a) p i)) \<or>
      (\<exists>m \<in> set (new_code_findings r). match_status m = Uncertain) then Incomplete else Complete)"
    using c unfolding classified_def by blast
  then have "\<not> (ambiguous_pairs p \<or> (\<exists>i < length current. mapping_uncertain (current ! i) (counterpart_of (assessment_sources a) p i)) \<or>
      (\<exists>m \<in> set (new_code_findings r). match_status m = Uncertain))"
    using assms(2) by (cases "ambiguous_pairs p \<or> (\<exists>i < length current. mapping_uncertain (current ! i) (counterpart_of (assessment_sources a) p i)) \<or>
      (\<exists>m \<in> set (new_code_findings r). match_status m = Uncertain)") (simp_all only: if_True if_False assessment_status.distinct not_True_eq_False not_False_eq_True)
  ultimately show ?thesis using o by (intro exI [of _ a] exI [of _ current] exI [of _ p]) auto
qed

lemma mset_inventory: "mset xs = mset ys \<Longrightarrow> mset (inventory xs) = mset (inventory ys)"
proof -
  have "mset (inventory zs) = (\<Sum>s \<in># mset zs. mset (snapshot_findings s))" for zs
    by (induction zs) (simp_all add: inventory_def)
  then show "mset xs = mset ys \<Longrightarrow> mset (inventory xs) = mset (inventory ys)" by simp
qed

lemma classified_matches:
  assumes "classified sha current reference p n" and "m \<in> set (new_code_findings n)"
  obtains i f where "i < length current" "f \<in> set (snapshot_findings (current ! i))"
    "m = match_of (current ! i) f (verdict current reference (counterpart_of reference p i) f)"
proof -
  have "set (new_code_findings n) = set (concat (map (matches_of current reference p) [0..<length current]))"
    using assms(1) mset_eq_setD unfolding classified_def by blast
  then show ?thesis using assms(2) that by (auto simp: matches_of_def)
qed

lemma verdict_New: "verdict current reference c f = New \<Longrightarrow> \<not> ambiguous f \<and>
    length (filter (\<lambda>g. identity g = identity f) (inventory current)) = 1 \<and> content_key f \<notin> content_key ` set (inventory reference)"
  by (auto simp: verdict_def split: if_splits list.splits)

lemma verdict_Existing: "verdict current reference c f = Existing \<Longrightarrow> \<not> ambiguous f \<and>
    length (filter (\<lambda>g. identity g = identity f) (inventory current)) = 1 \<and>
    (\<exists>t g. c = Some t \<and> filter (\<lambda>g. content_key g = content_key f) (snapshot_findings t) = [g] \<and> \<not> ambiguous g)"
  by (auto simp: verdict_def local_matches_def split: if_splits list.splits option.splits)

text \<open>The two verdicts a gate acts on, for a finding \<open>f\<close> of a source \<open>s\<close>.\<close>

definition occurs_once :: "source_snapshot list \<Rightarrow> finding_identity \<Rightarrow> bool" where
  "occurs_once ss f \<longleftrightarrow> \<not> ambiguous f \<and> length (filter (\<lambda>g. identity g = identity f) (inventory ss)) = 1"

definition really_new :: "source_snapshot list \<Rightarrow> source_snapshot list \<Rightarrow> new_code_lines list \<Rightarrow> source_snapshot \<Rightarrow> finding_identity \<Rightarrow> bool" where
  "really_new sources reference lines s f \<longleftrightarrow> occurs_once sources f \<and>
     content_key f \<notin> content_key ` set (inventory reference) \<and> {source_key s} \<times> finding_lines f \<subseteq> changed lines"

definition really_existing :: "source_snapshot list \<Rightarrow> source_snapshot list \<Rightarrow> source_snapshot \<Rightarrow> finding_identity \<Rightarrow> bool" where
  "really_existing sources reference s f \<longleftrightarrow> occurs_once sources f \<and>
     (\<exists>t g. t \<in> set reference \<and> (source_key s \<in> source_key ` set reference \<longrightarrow> source_key t = source_key s) \<and>
        filter (\<lambda>g. content_key g = content_key f) (snapshot_findings t) = [g] \<and> \<not> ambiguous g)"

text \<open>C3: What the statuses mean. A finding reported as \<open>New\<close> is an unambiguous finding of a current source whose
  identity is unique, whose content (rule, content digest, context digest) occurs nowhere in the reference, and
  all of whose lines are listed as changed lines of its file. A finding reported as \<open>Existing\<close> is unambiguous and
  unique as well, and its content occurs exactly once in one reference file, unambiguously; that file is the one
  of the same path when the reference has it.\<close>
theorem statuses_mean:
  assumes "compare_to_reference sha describe context sources (Some a) = Some r" and "m \<in> set (new_code_findings r)"
  shows "\<exists>s f. s \<in> set sources \<and> f \<in> set (snapshot_findings s) \<and> m = match_of s f (match_status m) \<and>
    (case match_status m of
       New \<Rightarrow> really_new sources (assessment_sources a) (new_code_line_list r) s f
     | Existing \<Rightarrow> really_existing sources (assessment_sources a) s f
     | Uncertain \<Rightarrow> True)"
proof -
  let ?ref = "assessment_sources a"
  consider current status c d where "ordered_sources sha sources = Inr current" "r = indeterminate_current current status c d"
    | current p where "ordered_sources sha sources = Inr current" "validate_assessment sha a = Inr ()"
      "pairs_ok current ?ref p" "classified sha current ?ref p r"
    | status c d where "r = indeterminate_current [] status c d"
    using compare_outcomes [of sha describe "context" sources "Some a"] assms(1) by auto
  then show ?thesis
  proof cases
    case (1 current status c d)
    then obtain s f where "s \<in> set current" "f \<in> set (snapshot_findings s)" "m = match_of s f Uncertain"
      using assms(2) by (auto simp: indeterminate_current_def match_of_def)
    moreover have "set current = set sources" using ordered_sources_Inr(2) [OF 1(1)] by (rule mset_eq_setD)
    ultimately show ?thesis by (intro exI [of _ s] exI [of _ f]) (simp add: match_of_def)
  next
    case 3
    then show ?thesis using assms(2) by (simp add: indeterminate_current_def)
  next
    case (2 current p)
    note ms = ordered_sources_Inr(2) [OF 2(1)]
    have set: "set current = set sources" using ms by (rule mset_eq_setD)
    have once: "length (filter (\<lambda>g. identity g = identity f) (inventory current)) =
        length (filter (\<lambda>g. identity g = identity f) (inventory sources))" for f
      by (metis mset_filter mset_inventory ms size_mset)
    obtain i f where i: "i < length current" and f: "f \<in> set (snapshot_findings (current ! i))"
      and m: "m = match_of (current ! i) f (verdict current ?ref (counterpart_of ?ref p i) f)"
      using classified_matches [OF 2(4) assms(2)] by blast
    let ?s = "current ! i" and ?v = "verdict current ?ref (counterpart_of ?ref p i) f"
    have st: "match_status m = ?v" by (simp add: m match_of_def)
    have "really_new sources ?ref (new_code_line_list r) ?s f" if v: "?v = New"
    proof -
      have "finding_lines f \<subseteq> new_finding_lines current ?ref p i" using f v by (auto simp: new_finding_lines_def)
      then have "{source_key ?s} \<times> finding_lines f \<subseteq> changed (new_code_line_list r)"
        using 2(4) i unfolding classified_def by auto
      then show ?thesis using verdict_New [OF v] by (simp add: really_new_def occurs_once_def once)
    qed
    moreover have "really_existing sources ?ref ?s f" if v: "?v = Existing"
    proof -
      obtain t g where t: "counterpart_of ?ref p i = Some t" "filter (\<lambda>g. content_key g = content_key f) (snapshot_findings t) = [g]"
        "\<not> ambiguous g" and o: "\<not> ambiguous f" "length (filter (\<lambda>g. identity g = identity f) (inventory current)) = 1"
        using verdict_Existing [OF v] by blast
      then obtain j where j: "current_to_reference p ! i = Some j" "t = ?ref ! j" by (auto simp: counterpart_of_def)
      have jb: "j < length ?ref"
        using 2(3) mirrored_current [of "current_to_reference p" "reference_to_current p" i j] j(1) i by (simp add: pairs_ok_def)
      have "source_key t = source_key ?s" if k: "source_key ?s \<in> source_key ` set ?ref"
      proof -
        obtain j' where j': "j' < length ?ref" "source_key (?ref ! j') = source_key ?s"
          using k by (auto simp: in_set_conv_nth)
        then have "same_path current ?ref i j'" using i by (simp add: same_path_def)
        then have "j' = j" using 2(3) j(1) unfolding pairs_ok_def by auto
        with j' j show ?thesis by simp
      qed
      then show ?thesis using t o jb j(2) nth_mem [OF jb] unfolding really_existing_def occurs_once_def once [symmetric] by blast
    qed
    ultimately have "(case ?v of New \<Rightarrow> really_new sources ?ref (new_code_line_list r) ?s f
        | Existing \<Rightarrow> really_existing sources ?ref ?s f | Uncertain \<Rightarrow> True)"
      by (cases ?v) simp_all
    moreover have "?s \<in> set sources" using i set nth_mem by metis
    ultimately show ?thesis using f m unfolding st by blast
  qed
qed

text \<open>C7: The changed lines of a successful classification, exactly. A line of a current source is listed when
  its file has no counterpart; or when the file differs from its counterpart and some maximum alignment of the two
  leaves the line unmatched; or when it lies in the range of a finding classified as new.\<close>
theorem changed_lines_exact:
  assumes "inventory_ok sha current" and "inventory_ok sha reference"
    and "classify current reference context = Some (Inr n)"
  shows "\<exists>p. assign_counterparts current reference = Some (Inr p) \<and>
    changed (new_code_line_list n) = {(k, l). \<exists>i < length current. source_key (current ! i) = k \<and>
      (l \<in> line_numbers (changed_indices (current ! i) (counterpart_of reference p i)) \<or>
       (\<exists>f \<in> set (snapshot_findings (current ! i)). verdict current reference (counterpart_of reference p i) f = New \<and>
          l \<in> finding_lines f))}"
proof -
  obtain p where "assign_counterparts current reference = Some (Inr p)" "classified sha current reference p n"
    using classify_spec [OF assms(1,2), of "context"] assms(3) by auto
  then show ?thesis unfolding classified_def source_lines_def new_finding_lines_def by auto
qed


section \<open>An example\<close>

text \<open>A file with a line added and a finding on it, against the file without them.\<close>

definition zero_sha :: "bytes \<Rightarrow> bytes" where
  "zero_sha x = replicate 32 (CHR 0x00)"

definition digit_digest :: "char \<Rightarrow> string" where
  "digit_digest c = replicate 64 c"

definition sample_finding :: finding_identity where
  "sample_finding = \<lparr>issue_index = 0, finding_rule = ''rule'', finding_message = ''message'', source_digest = digit_digest (CHR ''0''),
     context_digest = digit_digest (CHR ''0''), occurrence = 0, content_id = digit_digest (CHR ''0''), start_line = 2, end_line = 2,
     identity = digit_digest (CHR ''0''), ambiguous = False, finding_path = ''a.py''\<rparr>"

definition sample_current :: source_snapshot where
  "sample_current = \<lparr>snapshot_path = ''a.py'', content_digest = digit_digest (CHR ''1''),
     line_digests = [digit_digest (CHR ''1''), digit_digest (CHR ''2'')], snapshot_findings = [sample_finding]\<rparr>"

definition sample_reference :: source_snapshot where
  "sample_reference = \<lparr>snapshot_path = ''a.py'', content_digest = digit_digest (CHR ''2''),
     line_digests = [digit_digest (CHR ''1'')], snapshot_findings = []\<rparr>"

lemma digit_digest_inj: "digit_digest c = digit_digest d \<longleftrightarrow> c = d"
  by (simp add: digit_digest_def replicate_eq_replicate)

lemma digit_digest_ok: "48 \<le> byte c \<and> byte c \<le> 57 \<Longrightarrow> is_digest (digit_digest c)"
  by (simp add: is_digest_def digit_digest_def)

lemma zero_digest: "digest_parts zero_sha x = digit_digest (CHR ''0'')"
proof -
  have "hex (replicate n (CHR 0x00)) = replicate (2 * n) (CHR ''0'')" for n
    by (induction n) (simp_all add: hex_def hex_digit_def)
  from this [of 32] show ?thesis by (simp only: digest_parts_def zero_sha_def digit_digest_def) simp
qed

lemma sample_path: "normalize_path ''a.py'' = Inr ''a.py''"
  by code_simp

lemma sample_valid: "validate_snapshot zero_sha sample_current = Inr ()" "validate_snapshot zero_sha sample_reference = Inr ()"
proof -
  have "is_digest (digit_digest (CHR ''0''))" "is_digest (digit_digest (CHR ''1''))" "is_digest (digit_digest (CHR ''2''))"
    by (rule digit_digest_ok, simp)+
  moreover from this have "validate_finding zero_sha sample_finding = Inr ()"
    by (simp add: validate_finding_def sample_finding_def sample_path content_identity_def zero_digest)
  ultimately show "validate_snapshot zero_sha sample_current = Inr ()" "validate_snapshot zero_sha sample_reference = Inr ()"
    by (simp_all add: validate_snapshot_def sample_current_def sample_reference_def sample_path) (simp_all add: sample_finding_def)
qed

lemma sample_inventory: "inventory_ok zero_sha [sample_current]" "inventory_ok zero_sha [sample_reference]"
  by (simp_all add: inventory_ok_def sample_valid)

lemma sample_alignment:
  "align_lines [x, y] [x] 0 64000000 = Some (Inr (\<lparr>new_line_indices = [1], uncertain_alignment = False\<rparr>, 18))" if "x \<noteq> y"
proof -
  have c: "matrix_cells 2 1 = Inr 6" "reserve_alignment_work 0 64000000 6 3 = Inr 18"
    by (simp_all add: matrix_cells_def reserve_alignment_work_def usize_checked_def usize_max_def MAX_ALIGNMENT_CELLS_def)
  have p: "alignment_prefix [x, y] [x] 6 2 = Some [0, 0, 0, 1, 0, 1]"
    using that by (simp add: alignment_prefix_def idx_def upd_def Let_def numeral_eq_Suc)
  have s: "alignment_suffix [x, y] [x] 6 2 = Some [1, 0, 0, 0, 0, 0]"
    using that by (simp add: alignment_suffix_def idx_def upd_def Let_def numeral_eq_Suc)
  have d: "aligned_line_decision [x, y] [x] [0, 0, 0, 1, 0, 1] [1, 0, 0, 0, 0, 0] 2 0 1 = Some \<lparr>new_line = False, uncertain_line = False\<rparr>"
    "aligned_line_decision [x, y] [x] [0, 0, 0, 1, 0, 1] [1, 0, 0, 0, 0, 0] 2 1 1 = Some \<lparr>new_line = True, uncertain_line = False\<rparr>"
    using that by (simp_all add: aligned_line_decision_def idx_def exclude_scores_def max_or_0_def Let_def)
  show ?thesis
    using c p s d by (simp add: align_lines_def numeral_2_eq_2 idx_def)
qed



definition sample_pairs :: counterpart_pairs where
  "sample_pairs = \<lparr>current_to_reference = [Some 0], reference_to_current = [Some 0], ambiguous_pairs = False\<rparr>"

definition sample_result :: "analysis_context \<Rightarrow> new_code_report" where
  "sample_result c = \<lparr>new_code_version = BASELINE_SCHEMA_VERSION, new_code_status = Complete, reference_context = Some c,
     new_code_findings = [match_of sample_current sample_finding New], resolved = [],
     new_code_line_list = [\<lparr>new_path = ''a.py'', new_lines = [2]\<rparr>], new_code_diagnostics = []\<rparr>"

lemma sample_counterparts: "assign_counterparts [sample_current] [sample_reference] = Some (Inr sample_pairs)"
proof -
  have p: "snapshot_path sample_current = ''a.py''" "snapshot_path sample_reference = ''a.py''"
    by (simp_all add: sample_current_def sample_reference_def)
  have "pair_exact_paths [sample_current] [sample_reference]
      \<lparr>to_reference = [None], to_current = [None], used_current = [False], used_reference = [False]\<rparr> =
    Some \<lparr>to_reference = [Some 0], to_current = [Some 0], used_current = [True], used_reference = [True]\<rparr>"
    by (simp add: pair_exact_paths_def p record_pair_def upd_def)
  then show ?thesis
    by (simp add: assign_counterparts_def validate_source_inventory_def MAX_SOURCE_FILES_def unpaired_digest_groups_def idx_def
        sample_pairs_def)
qed

lemma sample_changed:
  "add_changed_source_lines [sample_current] [sample_reference] sample_pairs \<lparr>line_sets = [], total_new_lines = 0, new_line_work = 0\<rparr> =
     Some (Inr (False, \<lparr>line_sets = [(path_key ''a.py'', ''a.py'', {2})], total_new_lines = 1, new_line_work = 1\<rparr>))"
proof -
  have "align_lines (line_digests sample_current) (line_digests sample_reference) 0 64000000 =
      Some (Inr (\<lparr>new_line_indices = [1], uncertain_alignment = False\<rparr>, 18))"
    by (simp add: sample_current_def sample_reference_def sample_alignment digit_digest_inj)
  moreover have "content_digest sample_reference \<noteq> content_digest sample_current" "snapshot_path sample_current = ''a.py''"
    by (simp_all add: sample_current_def sample_reference_def digit_digest_inj)
  moreover have "count_line_work 0 = Inr 1" by (simp add: count_line_work_def checked_add_def MAX_NEW_CODE_WORK_def)
  ultimately show ?thesis
    by (simp add: add_changed_source_lines_def sample_pairs_def idx_def add_line_def lines_entry_def u32_max_def MAX_NEW_CODE_LINES_def Let_def)
qed

lemma sample_classified:
  "classify_current_findings (classification_of [sample_current] [sample_reference]) [sample_current] [sample_reference] sample_pairs
     (False, \<lparr>line_sets = [(path_key ''a.py'', ''a.py'', {2})], total_new_lines = 1, new_line_work = 1\<rparr>) =
   Some (Inr ([match_of sample_current sample_finding New], False,
     \<lparr>line_sets = [(path_key ''a.py'', ''a.py'', {2})], total_new_lines = 1, new_line_work = 2\<rparr>))"
proof -
  have f: "snapshot_findings sample_current = [sample_finding]" "snapshot_findings sample_reference = []"
    "snapshot_path sample_current = ''a.py''" "\<not> ambiguous sample_finding" "start_line sample_finding = 2" "end_line sample_finding = 2"
    by (simp_all add: sample_current_def sample_reference_def sample_finding_def)
  have "count_line_work 1 = Inr 2" by (simp add: count_line_work_def checked_add_def MAX_NEW_CODE_WORK_def)
  then have "add_new_lines ''a.py'' sample_finding \<lparr>line_sets = [(path_key ''a.py'', ''a.py'', {2})], total_new_lines = 1, new_line_work = 1\<rparr> =
      Inr \<lparr>line_sets = [(path_key ''a.py'', ''a.py'', {2})], total_new_lines = 1, new_line_work = 2\<rparr>"
    by (simp add: add_new_lines_def f lines_entry_def)
  moreover have "map_of (reference_by_identity (classification_of [sample_current] [sample_reference])) (content_key sample_finding) = None"
    by (simp add: classification_of_def reference_identity_index_def f bt_each_def)
  moreover have "map_of (current_identity_counts (classification_of [sample_current] [sample_reference])) (identity sample_finding) = Some 1"
    by (simp add: classification_of_def current_identity_data_def f bt_each_def)
  moreover have "local_identity_candidates (Some sample_reference) sample_finding = (0, None)"
    by (simp add: local_identity_candidates_def f)
  ultimately show ?thesis
    by (simp add: classify_current_findings_def sample_pairs_def idx_def f classify_finding_def match_of_def)
qed

lemma sample_classify: "classify [sample_current] [sample_reference] c = Some (Inr (sample_result c))"
proof -
  have "collect_resolved [sample_current] [sample_reference] sample_pairs k False = Some []" for k
    by (simp add: collect_resolved_def sample_pairs_def idx_def collect_source_resolved_def sample_reference_def)
  moreover note sample_classified [unfolded classification_of_def]
  ultimately show ?thesis
    by (simp add: classify_def sample_counterparts sample_changed case_prod_beta sort_finding_matches_def sort_resolved_def
        classification_diagnostics_def sample_result_def Let_def)
qed

definition sample_assessment :: "source_snapshot \<Rightarrow> unit assessment_report" where
  "sample_assessment s = bare_assessment sample_context [s]"

lemma sample_assessment_valid:
  assumes "inventory_ok zero_sha [s]"
  shows "validate_assessment zero_sha (sample_assessment s) = Inr ()" and "assessment_sources (sample_assessment s) = [s]"
    and "assessment_context (sample_assessment s) = sample_context"
proof -
  have "validate_sources zero_sha [s] None = Inr ()" using assms by (simp only: validate_sources_iff) simp
  then show "validate_assessment zero_sha (sample_assessment s) = Inr ()"
    by (simp add: validate_assessment_def sample_assessment_def bare_assessment_def validate_context_def sample_context_def
        context_new_def del: validate_sources.simps)
qed (simp_all add: sample_assessment_def bare_assessment_def)

lemma sample_comparison:
  "compare_to_reference zero_sha describe sample_context [sample_current] (Some (sample_assessment sample_reference)) =
     Some (sample_result sample_context)"
  using sample_assessment_valid [OF sample_inventory(2)] ordered_sources_sorted [OF sample_inventory(1)]
    ordered_sources_sorted [OF sample_inventory(2)]
  by (simp add: compare_to_reference_def sample_classify compatible_with_def Let_def)

text \<open>C19: For two inventories without repeated paths the counterpart assignment never panics. When it succeeds,
  the two index arrays are mirror images (each file has at most one counterpart, and the relation reads the
  same from both sides); files with the same path are always each other's counterpart; any other pair has the
  same content digest or a common subsequence of lines.\<close>
theorem counterparts_mirrored:
  assumes "distinct (map source_key current)" and "distinct (map source_key reference)"
  shows "\<exists>r. assign_counterparts current reference = Some r \<and>
    (case r of Inl e \<Rightarrow> True | Inr p \<Rightarrow> pairs_ok current reference p)"
  using assign_counterparts_ok [OF assms] by (auto split: sum.splits)

theorem counterparts_mirrored_witness:
  "pairs_ok [sample_current] [sample_reference] sample_pairs \<and> current_to_reference sample_pairs = [Some 0]"
  using counterparts_mirrored [of "[sample_current]" "[sample_reference]"] by (simp add: sample_counterparts sample_pairs_def)

theorem comparison_reconciles_witness:
  "\<exists>r. compare_reports zero_sha (\<lambda>_. []) (sample_assessment sample_current) (Some (sample_assessment sample_reference)) = Some r \<and>
     validate_current_finding_matches (sample_assessment sample_current) r = Inr ()"
  by (rule comparison_reconciles [OF sample_assessment_valid(1) [OF sample_inventory(1)]])

theorem complete_is_certain_witness:
  "compare_to_reference zero_sha (\<lambda>_. []) sample_context [sample_current] (Some (sample_assessment sample_reference)) =
     Some (sample_result sample_context) \<and> Uncertain \<notin> match_status ` set (new_code_findings (sample_result sample_context))"
proof -
  have "new_code_status (sample_result sample_context) = Complete" by (simp add: sample_result_def)
  from complete_is_certain [OF sample_comparison [of "\<lambda>_. []"] this] show ?thesis using sample_comparison by blast
qed

theorem statuses_mean_witness:
  "\<exists>f. really_new [sample_current] [sample_reference] [\<lparr>new_path = ''a.py'', new_lines = [2]\<rparr>] sample_current f"
proof -
  let ?m = "match_of sample_current sample_finding New"
  have "?m \<in> set (new_code_findings (sample_result sample_context))" "match_status ?m = New"
    by (simp_all add: sample_result_def match_of_def)
  with statuses_mean [OF sample_comparison [of "\<lambda>_. []"] this(1)] show ?thesis
    by (auto simp: sample_assessment_valid(2) [OF sample_inventory(2)] sample_result_def)
qed

theorem changed_lines_exact_witness:
  "(path_key ''a.py'', 2) \<in> changed (new_code_line_list (sample_result sample_context)) \<and>
   (\<exists>p. assign_counterparts [sample_current] [sample_reference] = Some (Inr p) \<and>
     2 \<in> line_numbers (changed_indices sample_current (counterpart_of [sample_reference] p 0)) \<union> finding_lines sample_finding)"
proof -
  have c: "(path_key ''a.py'', 2) \<in> changed (new_code_line_list (sample_result sample_context))"
    by (simp add: changed_def sample_result_def)
  obtain p where p: "assign_counterparts [sample_current] [sample_reference] = Some (Inr p)"
    and e: "changed (new_code_line_list (sample_result sample_context)) = {(k, l). \<exists>i < length [sample_current]. source_key ([sample_current] ! i) = k \<and>
      (l \<in> line_numbers (changed_indices ([sample_current] ! i) (counterpart_of [sample_reference] p i)) \<or>
       (\<exists>f \<in> set (snapshot_findings ([sample_current] ! i)).
          verdict [sample_current] [sample_reference] (counterpart_of [sample_reference] p i) f = New \<and> l \<in> finding_lines f))}"
    using changed_lines_exact [OF sample_inventory sample_classify [of sample_context]] by blast
  have "snapshot_findings sample_current = [sample_finding]" by (simp add: sample_current_def)
  then have "2 \<in> line_numbers (changed_indices sample_current (counterpart_of [sample_reference] p 0)) \<union> finding_lines sample_finding"
    using c unfolding e by auto
  with c p show ?thesis by blast
qed

end
