(* ===== verification/TextScan.thy ===== *)
theory TextScan
  imports Snapshots
begin

text \<open>
  What the report readers use of \<open>str\<close>: lines, white space, splitting, decimal numbers, case, and the
  lossy decoding of paths. A string is the list of its UTF-8 bytes, as in \<open>SourceText\<close>.
\<close>

subsection \<open>Lines and pieces\<close>

text \<open>\<open>str::lines\<close>: pieces that end at a line feed lose it and one carriage return before it; a
  last piece without a line feed stays as it is, and is dropped when empty.\<close>

definition str_lines :: "bytes \<Rightarrow> bytes list" where
  "str_lines s =
     (let ps = split_on (CHR 0x0A) s in
      map (\<lambda>p. strip_or_same p [CHR 0x0D]) (butlast ps) @ (if last ps = [] then [] else [last ps]))"

definition split_once :: "char \<Rightarrow> bytes \<Rightarrow> (bytes \<times> bytes) option" where
  "split_once c s =
     (if c \<in> set s then Some (takeWhile (\<lambda>x. x \<noteq> c) s, tl (dropWhile (\<lambda>x. x \<noteq> c) s)) else None)"

text \<open>\<open>s.contains(t)\<close>\<close>

fun str_contains :: "bytes \<Rightarrow> bytes \<Rightarrow> bool" where
  "str_contains [] t = (t = [])"
| "str_contains (a # s) t = (starts_with (a # s) t \<or> str_contains s t)"

text \<open>\<open>[String]::join(sep)\<close>\<close>

definition str_join :: "bytes \<Rightarrow> bytes list \<Rightarrow> bytes" where
  "str_join sep xs = (case xs of [] \<Rightarrow> [] | y # ys \<Rightarrow> y @ concat (map ((@) sep) ys))"

subsection \<open>White space\<close>

text \<open>The number of bytes of the white space character at the start; 0 when there is none.\<close>

definition space_width :: "bytes \<Rightarrow> nat" where
  "space_width s =
     (case s of [] \<Rightarrow> 0 | a # t \<Rightarrow>
        if is_blank [a] then 1 else if is_blank (take 2 s) then 2 else if is_blank (take 3 s) then 3 else 0)"

function trim_start :: "bytes \<Rightarrow> bytes" where
  "trim_start s = (if space_width s = 0 then s else trim_start (drop (space_width s) s))"
  by pat_completeness auto
termination
proof (relation "measure length")
  fix s :: bytes assume "space_width s \<noteq> 0"
  then have "s \<noteq> []" by (auto simp: space_width_def)
  with \<open>space_width s \<noteq> 0\<close> show "(drop (space_width s) s, s) \<in> measure length" by simp
qed simp

declare trim_start.simps [simp del]

text \<open>Only white space lies past the end of the result.\<close>

fun trim_end :: "bytes \<Rightarrow> bytes" where
  "trim_end [] = []"
| "trim_end (a # s) = (if is_blank (a # s) then [] else a # trim_end s)"

definition trim :: "bytes \<Rightarrow> bytes" where
  "trim s = trim_end (trim_start s)"

subsection \<open>Numbers\<close>

definition digit :: "nat \<Rightarrow> char" where
  "digit d = char_of (48 + d)"

function decimal :: "nat \<Rightarrow> bytes" where
  "decimal n = (if n < 10 then [digit n] else decimal (n div 10) @ [digit (n mod 10)])"
  by pat_completeness auto
termination by (relation "measure id") auto

declare decimal.simps [simp del]

definition is_digit :: "char \<Rightarrow> bool" where
  "is_digit c \<longleftrightarrow> 48 \<le> byte c \<and> byte c \<le> 57"

definition digits_value :: "bytes \<Rightarrow> nat" where
  "digits_value = foldl (\<lambda>n c. 10 * n + (byte c - 48)) 0"

text \<open>\<open>str::parse\<close> for the unsigned integers below \<open>bound\<close>: an optional plus sign before digits.\<close>

definition parse_unsigned :: "nat \<Rightarrow> bytes \<Rightarrow> nat option" where
  "parse_unsigned bound s =
     (let ds = (if 1 < length s \<and> hd s = CHR ''+'' then tl s else s) in
      if ds = [] \<or> \<not> list_all is_digit ds \<or> \<not> digits_value ds < bound then None else Some (digits_value ds))"

definition parse_u32 :: "bytes \<Rightarrow> u32 option" where
  "parse_u32 raw =
     (let value = trim raw in
      if value = [] \<or> starts_with value ''-'' then None else map_option of_nat (parse_unsigned (2 ^ 32) value))"

definition parse_nonnegative_u64 :: "bytes \<Rightarrow> u64 option" where
  "parse_nonnegative_u64 raw =
     (let value = trim raw in
      if value = [] \<or> starts_with value ''-'' then None else map_option of_nat (parse_unsigned (2 ^ 64) value))"

subsection \<open>Decoding\<close>

text \<open>\<open>to_string_lossy\<close> and the display of a path: every maximal invalid prefix of a character becomes
  \<open>U+FFFD\<close>.\<close>

definition bad_width :: "bytes \<Rightarrow> nat" where
  "bad_width s =
     (let w = utf8_width (hd s) in
      if w < 3 \<or> length s < 2 \<or> \<not> (cont (s ! 1) \<and> second_ok (byte (hd s)) (byte (s ! 1))) then 1
      else if w = 3 \<or> length s < 3 \<or> \<not> cont (s ! 2) then 2 else 3)"

function lossy :: "bytes \<Rightarrow> bytes" where
  "lossy [] = []"
| "lossy (a # s) =
     (let w = utf8_width a in
      if w \<noteq> 0 \<and> scalar (take w (a # s)) then take w (a # s) @ lossy (drop (w - 1) s)
      else [CHR 0xEF, CHR 0xBF, CHR 0xBD] @ lossy (drop (bad_width (a # s) - 1) s))"
  by pat_completeness auto
termination by (relation "measure length") auto

subsection \<open>Facts\<close>

lemma lossy_utf8: "utf8 s \<Longrightarrow> lossy s = s"
proof (induction s rule: utf8.induct)
  case (2 a s)
  then show ?case by (cases "utf8_width a") (auto simp: Let_def)
qed simp

lemma digit_is [simp]: "d < 10 \<Longrightarrow> is_digit (digit d)" "d < 10 \<Longrightarrow> byte (digit d) = 48 + d"
  by (simp_all add: is_digit_def digit_def)

lemma decimal_digits: "decimal n \<noteq> []" "c \<in> set (decimal n) \<Longrightarrow> is_digit c"
proof -
  show "decimal n \<noteq> []" by (subst decimal.simps) simp
  show "c \<in> set (decimal n) \<Longrightarrow> is_digit c"
  proof (induction n rule: decimal.induct)
    case (1 n)
    then show ?case by (cases "n < 10") (auto simp: decimal.simps [of n])
  qed
qed

lemma digits_value_decimal: "digits_value (decimal n) = n"
proof (induction n rule: decimal.induct)
  case (1 n)
  show ?case
  proof (cases "n < 10")
    case False
    with 1 show ?thesis by (simp add: decimal.simps [of n] digits_value_def)
  qed (simp add: decimal.simps [of n] digits_value_def)
qed

lemma digit_not [simp]: "is_digit c \<Longrightarrow> c \<noteq> CHR ''+''" "is_digit c \<Longrightarrow> c \<noteq> CHR ''-''" "is_digit c \<Longrightarrow> c \<noteq> CHR '',''"
  "is_digit c \<Longrightarrow> c \<noteq> CHR 0x0A" "is_digit c \<Longrightarrow> c \<noteq> CHR 0x0D" "is_digit c \<Longrightarrow> c \<noteq> CHR '':''"
  by (auto simp: is_digit_def)

lemma parse_decimal: "n < b \<Longrightarrow> parse_unsigned b (decimal n) = Some n"
proof -
  assume "n < b"
  obtain c s where d: "decimal n = c # s" using decimal_digits(1) [of n] by (cases "decimal n") auto
  then have "is_digit c" using decimal_digits(2) [of c n] by simp
  have "list_all is_digit (decimal n)" using decimal_digits(2) by (auto simp: list_all_iff)
  moreover have "hd (decimal n) \<noteq> CHR ''+''" using \<open>is_digit c\<close> d by auto
  moreover have "decimal n \<noteq> []" by (rule decimal_digits)
  ultimately show ?thesis using \<open>n < b\<close> by (simp add: parse_unsigned_def digits_value_decimal)
qed

text \<open>Text that neither starts nor ends with white space is its own trimming.\<close>

definition solid :: "char \<Rightarrow> bool" where
  "solid c \<longleftrightarrow> 33 \<le> byte c \<and> byte c < 127"

lemma solid_no_space: "solid c \<Longrightarrow> space_width (c # s) = 0"
  by (auto simp: solid_def space_width_def)

lemma blank_Cons:
  assumes "is_blank (a # t)"
  shows "((9 \<le> byte a \<and> byte a \<le> 13) \<or> byte a = 32) \<and> is_blank t \<or>
    128 \<le> byte a \<and> (\<exists>b u. t = b # u \<and> 128 \<le> byte b \<and> is_blank u) \<or>
    128 \<le> byte a \<and> (\<exists>b d u. t = b # d # u \<and> 128 \<le> byte b \<and> 128 \<le> byte d \<and> is_blank u)"
proof (cases t)
  case Nil
  with assms show ?thesis by (auto split: if_splits)
next
  case t: (Cons b u)
  show ?thesis
  proof (cases u)
    case Nil
    with assms t show ?thesis by (simp split: if_splits) auto
  next
    case (Cons d v)
    with assms t show ?thesis by (simp split: if_splits del: is_blank.simps(2) add: is_blank.simps(2) [of a]) auto
  qed
qed

lemma blank_byte: "is_blank s \<Longrightarrow> c \<in> set s \<Longrightarrow> (9 \<le> byte c \<and> byte c \<le> 13) \<or> byte c = 32 \<or> 128 \<le> byte c"
proof (induction s rule: length_induct)
  case (1 s)
  then obtain a t where s: "s = a # t" by (cases s) auto
  have IH: "P" if "length u < length s" "is_blank u" "c \<in> set u"
      "(9 \<le> byte c \<and> byte c \<le> 13) \<or> byte c = 32 \<or> 128 \<le> byte c \<Longrightarrow> P" for u P
    using 1(1) that by blast
  show ?case using blank_Cons [OF 1(2) [unfolded s]] 1(3) unfolding s
    by (elim disjE conjE exE) (auto simp: s elim: IH [rotated 2])
qed

lemma blank_solid: "is_blank s \<Longrightarrow> c \<in> set s \<Longrightarrow> \<not> solid c"
  using blank_byte [of s c] by (auto simp: solid_def)

lemma trim_solid:
  assumes "s \<noteq> []" "solid (hd s)" "solid (last s)"
  shows "trim s = s"
proof -
  have "trim_end t = t" if "t \<noteq> []" "solid (last t)" for t
    using that
  proof (induction t)
    case (Cons a t)
    have "\<not> is_blank (a # t)" using Cons.prems blank_solid [of "a # t" "last (a # t)"] by (meson last_in_set)
    with Cons show ?case by (cases "t = []") simp_all
  qed simp
  moreover have "trim_start s = s"
    using assms solid_no_space by (cases s) (auto simp: trim_start.simps)
  ultimately show ?thesis using assms by (simp add: trim_def)
qed

lemma digit_solid [simp]: "is_digit c \<Longrightarrow> solid c"
  by (auto simp: is_digit_def solid_def)

lemma trim_decimal [simp]: "trim (decimal n) = decimal n"
  using decimal_digits(1) [of n] decimal_digits(2) [of _ n] by (intro trim_solid) auto

lemma starts_with_char: "starts_with s [c] \<longleftrightarrow> s \<noteq> [] \<and> hd s = c"
  by (cases s) (auto simp: starts_with_def)

lemma decimal_no_minus: "\<not> starts_with (decimal n) ''-''"
  using decimal_digits(1) [of n] decimal_digits(2) [of "hd (decimal n)" n] by (auto simp: starts_with_char)

lemma parse_u32_decimal [simp]: "parse_u32 (decimal (unat x)) = Some x"
  using decimal_digits(1) [of "unat x"] decimal_no_minus parse_decimal [OF unsigned_less [of x, where 'a = nat]]
  by (simp add: parse_u32_def Let_def)

lemma parse_u64_decimal [simp]: "parse_nonnegative_u64 (decimal (unat x)) = Some x"
  using decimal_digits(1) [of "unat x"] decimal_no_minus parse_decimal [OF unsigned_less [of x, where 'a = nat]]
  by (simp add: parse_nonnegative_u64_def Let_def)

text \<open>Only a run of digits, possibly signed with a plus, is a number.\<close>

lemma parse_unsigned_Some: "parse_unsigned b s = Some n \<Longrightarrow> n < b"
  by (auto simp: parse_unsigned_def Let_def split: if_splits)

lemma split_once_append: "c \<notin> set a \<Longrightarrow> split_once c (a @ c # b) = Some (a, b)"
proof -
  assume "c \<notin> set a"
  then have "\<forall>x \<in> set a. x \<noteq> c" by auto
  then show ?thesis by (simp add: split_once_def takeWhile_append2 dropWhile_append2)
qed

text \<open>Lines without line breaks, each terminated by a line feed, are read back.\<close>

lemma split_on_terminated:
  "\<forall>l \<in> set ls. c \<notin> set l \<Longrightarrow> split_on c (concat (map (\<lambda>l. l @ [c]) ls)) = ls @ [[]]"
  by (induction ls) (auto simp: split_on_append)

lemma strip_no_suffix: "c \<notin> set s \<Longrightarrow> strip_or_same s [c] = s"
  by (auto simp: strip_or_same_def strip_suffix_def split: option.splits) (metis in_set_conv_decomp in_set_dropD list.set_intros(1))

lemma str_lines_terminated:
  assumes "\<forall>l \<in> set ls. CHR 0x0A \<notin> set l \<and> CHR 0x0D \<notin> set l"
  shows "str_lines (concat (map (\<lambda>l. l @ [CHR 0x0A]) ls)) = ls"
  using assms by (simp add: str_lines_def split_on_terminated strip_no_suffix map_idI)

end
