(* ===== verification/SemanticLines.thy ===== *)
theory SemanticLines
  imports TextScan
begin

text \<open>
  Languages by extension (\<open>crates/hoonarqube-core/src/lib.rs\<close>), the physical lines of a source in its
  language (\<open>source_facts.rs\<close>) and the line checksum of the LCOV reader (\<open>assessment/coverage.rs\<close>). MD5
  and Base64 are crates: the parameters \<open>md5\<close> and \<open>base64\<close>.
\<close>

subsection \<open>Languages\<close>

datatype language = Python | JavaScript | TypeScript | CSharp | Go | Java | Rust | Ruby | Html

definition EXTENSIONS :: "(string \<times> language) list" where
  "EXTENSIONS =
     [(''py'', Python), (''js'', JavaScript), (''jsx'', JavaScript), (''mjs'', JavaScript), (''cjs'', JavaScript),
      (''ts'', TypeScript), (''tsx'', TypeScript), (''mts'', TypeScript), (''cts'', TypeScript), (''cs'', CSharp),
      (''razor'', CSharp), (''go'', Go), (''java'', Java), (''rs'', Rust), (''rb'', Ruby), (''html'', Html),
      (''htm'', Html), (''xhtml'', Html), (''shtm'', Html), (''shtml'', Html)]"

definition language_for_extension :: "string \<Rightarrow> language option" where
  "language_for_extension ext = map_option snd (find (\<lambda>(candidate, _). eq_ignore_ascii_case ext candidate) EXTENSIONS)"

definition language_for_path :: "path \<Rightarrow> language option" where
  "language_for_path p =
     (case path_extension p of None \<Rightarrow> None | Some ext \<Rightarrow> if utf8 ext then language_for_extension ext else None)"

definition is_razor_path :: "path \<Rightarrow> bool" where
  "is_razor_path p =
     (case path_extension p of None \<Rightarrow> False | Some ext \<Rightarrow> utf8 ext \<and> eq_ignore_ascii_case ext ''razor'')"

fun report_name :: "language \<Rightarrow> string" where
  "report_name Python = ''python''"
| "report_name JavaScript = ''javascript''"
| "report_name TypeScript = ''typescript''"
| "report_name CSharp = ''csharpsquid''"
| "report_name Go = ''go''"
| "report_name Java = ''java''"
| "report_name Rust = ''rust''"
| "report_name Ruby = ''ruby''"
| "report_name Html = ''web''"

definition from_report_name :: "string \<Rightarrow> language option" where
  "from_report_name name =
     map_of [(''python'', Python), (''javascript'', JavaScript), (''typescript'', TypeScript), (''csharpsquid'', CSharp),
       (''go'', Go), (''java'', Java), (''rust'', Rust), (''ruby'', Ruby), (''web'', Html)] name"

lemma from_report_name_inverse: "from_report_name name = Some l \<longleftrightarrow> report_name l = name"
proof
  show "report_name l = name \<Longrightarrow> from_report_name name = Some l" by (cases l) (auto simp: from_report_name_def)
  show "from_report_name name = Some l \<Longrightarrow> report_name l = name" by (auto simp: from_report_name_def split: if_splits)
qed

subsection \<open>Physical lines\<close>

definition line_break_width :: "bytes \<Rightarrow> nat \<Rightarrow> language option \<Rightarrow> nat option" where
  "line_break_width bs offset language =
     (if idx bs offset = Some (CHR 0x0A) then Some 1
      else case language of None \<Rightarrow> None | Some l \<Rightarrow>
        if l \<notin> {JavaScript, TypeScript, Java} then None
        else if idx bs offset = Some (CHR 0x0D) then
          Some (if idx bs (offset + 1) = Some (CHR 0x0A) then 2 else 1)
        else if l \<in> {JavaScript, TypeScript} \<and> idx bs offset = Some (CHR 0xE2) \<and>
          idx bs (offset + 1) = Some (CHR 0x80) \<and>
          (case idx bs (offset + 2) of None \<Rightarrow> False | Some b \<Rightarrow> b = CHR 0xA8 \<or> b = CHR 0xA9) then Some 3
        else None)"

lemma line_break_pos: "line_break_width bs i l = Some w \<Longrightarrow> 0 < w \<and> i + w \<le> length bs"
  by (auto simp: line_break_width_def idx_Some_iff split: option.splits if_splits)

text \<open>The offsets past each break that are followed by text.\<close>

function semantic_starts_from :: "bytes \<Rightarrow> language option \<Rightarrow> nat \<Rightarrow> nat list" where
  "semantic_starts_from bs language offset =
     (if offset < length bs then
        (case line_break_width bs offset language of
           Some width \<Rightarrow> (if offset + width < length bs then [offset + width] else []) @
             semantic_starts_from bs language (offset + width)
         | None \<Rightarrow> semantic_starts_from bs language (offset + 1))
      else [])"
  by pat_completeness auto
termination
  by (relation "measure (\<lambda>(bs, language, offset). length bs - offset)") (auto dest: line_break_pos)

definition semantic_line_starts :: "bytes \<Rightarrow> language option \<Rightarrow> nat list" where
  "semantic_line_starts source language =
     (if source = [] then [] else 0 # semantic_starts_from source language 0)"

text \<open>The counter of \<open>semantic_line_count\<close>; a \<open>usize\<close> that counts line starts cannot saturate.\<close>

function semantic_count_from :: "bytes \<Rightarrow> language option \<Rightarrow> nat \<Rightarrow> nat \<Rightarrow> nat" where
  "semantic_count_from bs language offset lines =
     (if offset < length bs then
        (case line_break_width bs offset language of
           Some width \<Rightarrow> semantic_count_from bs language (offset + width)
             (if offset + width < length bs then lines + 1 else lines)
         | None \<Rightarrow> semantic_count_from bs language (offset + 1) lines)
      else lines)"
  by pat_completeness auto
termination
  by (relation "measure (\<lambda>(bs, language, offset, _). length bs - offset)") (auto dest: line_break_pos)

definition semantic_line_count :: "bytes \<Rightarrow> language option \<Rightarrow> nat" where
  "semantic_line_count source language = (if source = [] then 0 else semantic_count_from source language 0 1)"

definition ends_with :: "bytes \<Rightarrow> bytes \<Rightarrow> bool" where
  "ends_with s t \<longleftrightarrow> strip_suffix s t \<noteq> None"

definition report_line_count :: "bytes \<Rightarrow> language \<Rightarrow> nat \<Rightarrow> nat" where
  "report_line_count source language content_lines =
     (if source = [] then 1
      else content_lines + (if ends_with source [CHR 0x0A] \<or> ends_with source [CHR 0x0D] \<or>
        language \<in> {JavaScript, TypeScript} \<and>
          (ends_with source line_separator \<or> ends_with source paragraph_separator) then 1 else 0))"

function break_after :: "bytes \<Rightarrow> nat \<Rightarrow> language option \<Rightarrow> nat \<Rightarrow> nat" where
  "break_after bs content_end language limit =
     (if content_end < limit \<and> line_break_width bs content_end language = None
      then break_after bs (content_end + 1) language limit else content_end)"
  by pat_completeness auto
termination by (relation "measure (\<lambda>(bs, content_end, language, limit). limit - content_end)") auto

declare semantic_starts_from.simps [simp del] semantic_count_from.simps [simp del] break_after.simps [simp del]

text \<open>The text of a line: the slice that is hashed.\<close>

definition source_line_text :: "bytes \<Rightarrow> language option \<Rightarrow> u32 \<Rightarrow> bytes option" where
  "source_line_text source language number =
     (if unat number < 1 then None else
      let index = unat number - 1; starts = semantic_line_starts source language in
      case idx starts index of None \<Rightarrow> None | Some start \<Rightarrow>
        let limit = (case idx starts (index + 1) of Some e \<Rightarrow> e | None \<Rightarrow> length source) in
        str_slice source start (break_after source start language limit))"

definition source_line_checksum :: "(bytes \<Rightarrow> bytes) \<Rightarrow> (bytes \<Rightarrow> string) \<Rightarrow> bytes \<Rightarrow> language option \<Rightarrow> u32 \<Rightarrow> string option" where
  "source_line_checksum md5 base64 source language number =
     map_option (\<lambda>text. base64 (md5 text)) (source_line_text source language number)"

subsection \<open>The lines partition the source\<close>

lemma count_starts:
  "semantic_count_from bs language i n = n + length (semantic_starts_from bs language i)"
proof (induction bs language i n rule: semantic_count_from.induct)
  case (1 bs language i n)
  show ?case
    using 1 by (auto simp: semantic_count_from.simps [of bs language i] semantic_starts_from.simps [of bs language i]
      split: option.splits)
qed

lemma semantic_count: "semantic_line_count source language = length (semantic_line_starts source language)"
  by (simp add: semantic_line_count_def semantic_line_starts_def count_starts)

end
