(* ===== verification/CoveragePaths.thy ===== *)
theory CoveragePaths
  imports SemanticLines Artifacts
begin

text \<open>
  How \<open>crates/hoonarqube-core/src/assessment/coverage.rs\<close> relates the paths of coverage reports to the
  analyzed sources: lexical normalization below an explicit root, and the index of the sources with its
  case-insensitive view for Windows roots. The functions of other crates and the Unicode case tables are
  fields of \<open>externals\<close>. Diagnostics are the strings the code formats, in the order it pushes them.
\<close>

record externals =
  sha256 :: "bytes \<Rightarrow> bytes"
  md5 :: "bytes \<Rightarrow> bytes"
  base64_no_pad :: "bytes \<Rightarrow> string"
  to_lowercase :: "string \<Rightarrow> string"

definition quoted :: "string \<Rightarrow> string" where
  "quoted s = [CHR 0x27] @ s @ [CHR 0x27]"

subsection \<open>Normalization\<close>

definition lexical_path :: "path \<Rightarrow> string" where
  "lexical_path p = replace_backslash (lossy p)"

definition is_windows_absolute :: "string \<Rightarrow> bool" where
  "is_windows_absolute p \<longleftrightarrow> starts_with p ''//'' \<or> 3 \<le> length p \<and> p ! 1 = CHR '':'' \<and> p ! 2 = CHR ''/''"

definition is_absolute_like :: "string \<Rightarrow> bool" where
  "is_absolute_like p \<longleftrightarrow> starts_with p ''/'' \<or> is_windows_absolute p"

definition path_components :: "string \<Rightarrow> string list" where
  "path_components p = filter (\<lambda>part. part \<noteq> [] \<and> part \<noteq> ''.'') (split_on (CHR ''/'') p)"

definition components_match :: "string list \<Rightarrow> string list \<Rightarrow> bool \<Rightarrow> bool" where
  "components_match xs ys case_insensitive \<longleftrightarrow>
     length xs = length ys \<and>
     list_all (\<lambda>(x, y). if case_insensitive then eq_ignore_ascii_case x y else x = y) (zip xs ys)"

text \<open>The loop keeps the components seen so far with the last one first; \<open>clean.pop()?\<close> fails on none.\<close>

fun clean_from :: "string list \<Rightarrow> string list \<Rightarrow> string list option" where
  "clean_from [] acc = Some (rev acc)"
| "clean_from (c # cs) acc =
     (if c = [] \<or> c = ''.'' then clean_from cs acc
      else if c = ''..'' then (case acc of [] \<Rightarrow> None | _ # acc' \<Rightarrow> clean_from cs acc')
      else clean_from cs (c # acc))"

definition clean_path_components :: "string list \<Rightarrow> string list option" where
  "clean_path_components cs = clean_from cs []"

definition report_path_components :: "string \<Rightarrow> bool \<Rightarrow> string list \<Rightarrow> bool \<Rightarrow> string list option" where
  "report_path_components text text_windows root_components root_windows =
     (if \<not> is_absolute_like text then Some (path_components text)
      else let text_components = path_components text;
          n = length text_components; r = length root_components in
        if text_windows \<noteq> root_windows then
          (if n < r \<or> \<not> components_match (drop (n - r) text_components) root_components (text_windows \<or> root_windows)
           then None else Some (drop (n - r) text_components))
        else if n < r \<or> \<not> components_match (take r text_components) root_components root_windows then None
        else Some (drop r text_components))"

definition normalize_path_text :: "string \<Rightarrow> bool \<Rightarrow> string \<Rightarrow> bool \<Rightarrow> string option" where
  "normalize_path_text root root_windows raw is_source =
     (let text = replace_backslash raw; root_text = replace_backslash root in do {
      components \<leftarrow> report_path_components text (is_windows_absolute text) (path_components root_text) root_windows;
      clean \<leftarrow> clean_path_components components;
      if is_source \<and> clean = [] then None else Some (join_with (CHR ''/'') clean) })"

definition normalize_source_path :: "string \<Rightarrow> bool \<Rightarrow> path \<Rightarrow> string option" where
  "normalize_source_path root root_windows p = normalize_path_text root root_windows (lexical_path p) True"

definition normalize_report_path :: "string \<Rightarrow> bool \<Rightarrow> path \<Rightarrow> string option" where
  "normalize_report_path root root_windows p = normalize_path_text root root_windows (lexical_path p) False"

definition report_input_path :: "path \<Rightarrow> path \<Rightarrow> path" where
  "report_input_path root p =
     (let root_text = lexical_path root in
      case normalize_report_path root_text (is_windows_absolute root_text) p of
        None \<Rightarrow> lexical_path p | Some q \<Rightarrow> q)"

subsection \<open>The sources\<close>

record coverage_file =
  cf_path :: path
  cf_source :: bytes
  cf_class :: file_classification

record source_entry =
  entry_path :: string
  entry_source :: bytes
  entry_class :: file_classification
  entry_language :: "language option"
  entry_line_count :: nat
  entry_digest :: string

record source_index =
  index_root :: string
  index_root_windows :: bool
  index_entries :: "(string, source_entry) btree"
  index_folded :: "(string, (string, unit) btree) btree"
  index_valid :: bool

definition source_entry_new :: "externals \<Rightarrow> string \<Rightarrow> coverage_file \<Rightarrow> source_entry" where
  "source_entry_new x path f =
     \<lparr>entry_path = path, entry_source = cf_source f, entry_class = cf_class f,
      entry_language = language_for_path (cf_path f),
      entry_line_count = semantic_line_count (cf_source f) (language_for_path (cf_path f)),
      entry_digest = hex (sha256 x (cf_source f))\<rparr>"

text \<open>One turn of the loop of \<open>SourceIndex::new\<close>.\<close>

definition index_source :: "externals \<Rightarrow> coverage_file \<Rightarrow> source_index \<times> string list \<Rightarrow> source_index \<times> string list" where
  "index_source x f = (\<lambda>(index, ds).
     case normalize_source_path (index_root index) (index_root_windows index) (cf_path f) of
       None \<Rightarrow> (index\<lparr>index_valid := False\<rparr>,
         ds @ [''source path '' @ quoted (lossy (cf_path f)) @ '' is outside the explicit coverage root''])
     | Some path \<Rightarrow>
         if map_of (index_entries index) path \<noteq> None then
           (index\<lparr>index_valid := False\<rparr>, ds @ [''ambiguous analyzed source path '' @ quoted path])
         else
           let key = to_lowercase x path;
               names = (case map_of (index_folded index) key of None \<Rightarrow> [] | Some names \<Rightarrow> names) in
           (index\<lparr>index_folded := bt_put key (bt_put path () names) (index_folded index),
              index_entries := bt_put path (source_entry_new x path f) (index_entries index)\<rparr>, ds))"

definition source_index_new :: "externals \<Rightarrow> path \<Rightarrow> coverage_file list \<Rightarrow> string list \<Rightarrow> source_index \<times> string list" where
  "source_index_new x root sources ds =
     (let root_text = lexical_path root in
      fold (index_source x) sources
        (\<lparr>index_root = root_text, index_root_windows = is_windows_absolute root_text,
          index_entries = [], index_folded = [], index_valid = True\<rparr>, ds))"

text \<open>The one \<open>expect\<close> is on a set of one element, so the match below is complete.\<close>

definition resolve_path :: "externals \<Rightarrow> source_index \<Rightarrow> string \<Rightarrow> string list \<Rightarrow> string option \<times> string list" where
  "resolve_path x index reported ds =
     (case normalize_report_path (index_root index) (index_root_windows index) reported of
        None \<Rightarrow> (None, ds @ [''coverage path '' @ quoted reported @ '' is outside the explicit coverage root''])
      | Some path \<Rightarrow>
          let unknown = (None, ds @ [''unknown analyzed source path '' @ quoted path]) in
          if \<not> index_root_windows index then
            (case map_of (index_entries index) path of
               Some entry \<Rightarrow> (Some (entry_path entry), ds) | None \<Rightarrow> unknown)
          else
            (case map_of (index_folded index) (to_lowercase x path) of
               None \<Rightarrow> unknown
             | Some [(only, _)] \<Rightarrow>
                 (map_option entry_path (map_of (index_entries index) only),
                  if path \<noteq> only then ds @ [''coverage path '' @ quoted path @ '' matched analyzed source '' @
                    quoted only @ '' case-insensitively''] else ds)
             | Some _ \<Rightarrow> (None, ds @ [''ambiguous analyzed source path '' @ quoted path])))"

end
