(* ===== verification/Lcov.thy ===== *)
theory Lcov
  imports TextScan Artifacts
begin

text \<open>
  The parsed form that the coverage readers of \<open>crates/hoonarqube-core/src/assessment/coverage.rs\<close> share,
  and the LCOV reader: a state machine over the lines of the report. Its state holds the open record, the
  claimed summaries of that record and the diagnostics so far; every malformed line marks the report invalid.
\<close>

record parsed_line =
  pl_line :: u32
  pl_covered :: bool
  pl_checksum :: "string option"

record parsed_branch =
  pb_line :: u32
  pb_identity :: string
  pb_covered :: bool

record parsed_file =
  pf_path :: string
  pf_lines :: "parsed_line list"
  pf_branches :: "parsed_branch list"
  pf_hash :: "string option"

record parsed_coverage =
  parsed_records :: "parsed_file list"
  parsed_invalid :: bool
  parsed_incomplete :: bool
  parsed_saw :: bool

definition parsed_file_default :: parsed_file where
  "parsed_file_default = \<lparr>pf_path = [], pf_lines = [], pf_branches = [], pf_hash = None\<rparr>"

definition parsed_coverage_default :: parsed_coverage where
  "parsed_coverage_default =
     \<lparr>parsed_records = [], parsed_invalid = False, parsed_incomplete = False, parsed_saw = False\<rparr>"

record lcov_parser =
  lc_parsed :: parsed_coverage
  lc_current :: "parsed_file option"
  lc_saw_end :: bool
  lc_line_summary :: "(u64 \<times> u64) option"
  lc_branch_summary :: "(u64 \<times> u64) option"
  lc_diagnostics :: "string list"

definition lcov_new :: "string list \<Rightarrow> lcov_parser" where
  "lcov_new ds = \<lparr>lc_parsed = parsed_coverage_default, lc_current = None, lc_saw_end = False,
     lc_line_summary = None, lc_branch_summary = None, lc_diagnostics = ds\<rparr>"

text \<open>The two ways a line is reported: \<open>invalid = true\<close> or \<open>incomplete = true\<close>, with a diagnostic.\<close>

definition lc_reject :: "string \<Rightarrow> lcov_parser \<Rightarrow> lcov_parser" where
  "lc_reject d p = p\<lparr>lc_parsed := (lc_parsed p)\<lparr>parsed_invalid := True\<rparr>, lc_diagnostics := lc_diagnostics p @ [d]\<rparr>"

definition lc_truncate :: "string \<Rightarrow> lcov_parser \<Rightarrow> lcov_parser" where
  "lc_truncate d p = p\<lparr>lc_parsed := (lc_parsed p)\<lparr>parsed_incomplete := True\<rparr>, lc_diagnostics := lc_diagnostics p @ [d]\<rparr>"

definition lc_record :: "parsed_file \<Rightarrow> lcov_parser \<Rightarrow> lcov_parser" where
  "lc_record f p = p\<lparr>lc_parsed := (lc_parsed p)\<lparr>parsed_records := parsed_records (lc_parsed p) @ [f]\<rparr>\<rparr>"

definition at_line :: "nat \<Rightarrow> string" where
  "at_line line_index = '' at line '' @ decimal (line_index + 1)"

text \<open>The size of the \<open>BTreeSet\<close> of the elements, \<open>as u64\<close>.\<close>

definition distinct_count :: "'a list \<Rightarrow> u64" where
  "distinct_count xs = of_nat (length (remdups xs))"

subsection \<open>Records\<close>

definition start_file :: "string \<Rightarrow> nat \<Rightarrow> lcov_parser \<Rightarrow> lcov_parser" where
  "start_file raw n p =
     (let p = (case lc_current p of None \<Rightarrow> p
         | Some f \<Rightarrow> (lc_record f (lc_truncate
             (''truncated LCOV record before line '' @ decimal (n + 1) @ '' (missing end_of_record)'') p))
             \<lparr>lc_current := None\<rparr>) in
      if trim raw = [] then lc_reject (''empty LCOV source path'' @ at_line n) p
      else p\<lparr>lc_current := Some (parsed_file_default\<lparr>pf_path := trim raw\<rparr>),
        lc_line_summary := None, lc_branch_summary := None, lc_saw_end := False\<rparr>)"

definition validate_line_summary :: "parsed_file \<Rightarrow> lcov_parser \<Rightarrow> lcov_parser" where
  "validate_line_summary f p =
     (case lc_line_summary p of None \<Rightarrow> p | Some (e, c) \<Rightarrow>
        let actual_eligible = distinct_count (map pl_line (pf_lines f));
            actual_covered = distinct_count (map pl_line (filter pl_covered (pf_lines f))) in
        if e \<noteq> actual_eligible \<or> c \<noteq> actual_covered
        then lc_reject (''LCOV line summary contradicts records for '' @ [CHR 0x27] @ pf_path f @ [CHR 0x27]) p else p)"

definition validate_branch_summary :: "parsed_file \<Rightarrow> lcov_parser \<Rightarrow> lcov_parser" where
  "validate_branch_summary f p =
     (case lc_branch_summary p of None \<Rightarrow> p | Some (e, c) \<Rightarrow>
        let key = (\<lambda>b. (pb_line b, pb_identity b));
            actual_eligible = distinct_count (map key (pf_branches f));
            actual_covered = distinct_count (map key (filter pb_covered (pf_branches f))) in
        if e \<noteq> actual_eligible \<or> c \<noteq> actual_covered
        then lc_reject (''LCOV branch summary contradicts records for '' @ [CHR 0x27] @ pf_path f @ [CHR 0x27]) p else p)"

definition end_record :: "nat \<Rightarrow> lcov_parser \<Rightarrow> lcov_parser" where
  "end_record n p =
     (case lc_current p of
        None \<Rightarrow> lc_reject (''LCOV end_of_record without SF'' @ at_line n) p
      | Some f \<Rightarrow>
          let p = validate_branch_summary f (validate_line_summary f (p\<lparr>lc_current := None\<rparr>));
              p = (if pf_lines f = [] \<and> pf_branches f = [] \<and> lc_line_summary p = None \<and> lc_branch_summary p = None
                then lc_truncate (''LCOV record for '' @ [CHR 0x27] @ pf_path f @ [CHR 0x27] @
                  '' contains no line or branch measurement'') p else p);
              p = lc_record f (p\<lparr>lc_parsed := (lc_parsed p)\<lparr>parsed_saw := True\<rparr>\<rparr>) in
          p\<lparr>lc_saw_end := True, lc_line_summary := None, lc_branch_summary := None\<rparr>)"

subsection \<open>Measurements\<close>

definition is_lcov_checksum :: "string \<Rightarrow> bool" where
  "is_lcov_checksum s \<longleftrightarrow> length s = 22 \<and>
     list_all (\<lambda>c. is_digit c \<or> 65 \<le> byte c \<and> byte c \<le> 90 \<or> 97 \<le> byte c \<and> byte c \<le> 122 \<or>
       c = CHR ''+'' \<or> c = CHR ''/'') s"

definition parse_line_measurement :: "string \<Rightarrow> nat \<Rightarrow> lcov_parser \<Rightarrow> lcov_parser" where
  "parse_line_measurement raw n p =
     (case lc_current p of
        None \<Rightarrow> lc_reject (''LCOV DA outside source record'' @ at_line n) p
      | Some f \<Rightarrow>
          let fields = split_on (CHR '','') raw in
          if length fields < 2 \<or> length fields > 3 then lc_reject (''malformed LCOV DA'' @ at_line n) p
          else case parse_u32 (fields ! 0) of
            None \<Rightarrow> lc_reject (''invalid LCOV line number'' @ at_line n) p
          | Some number \<Rightarrow>
              case parse_nonnegative_u64 (fields ! 1) of
                None \<Rightarrow> lc_reject (''invalid LCOV line count'' @ at_line n) p
              | Some count \<Rightarrow>
                  if length fields = 3 \<and> \<not> is_lcov_checksum (trim (fields ! 2))
                  then lc_reject (''invalid LCOV line checksum'' @ at_line n) p
                  else p\<lparr>lc_current := Some (f\<lparr>pf_lines := pf_lines f @ [\<lparr>pl_line = number, pl_covered = (0 < count),
                    pl_checksum = (if length fields = 3 then Some (trim (fields ! 2)) else None)\<rparr>]\<rparr>)\<rparr>)"

definition parse_branch_measurement :: "string \<Rightarrow> nat \<Rightarrow> lcov_parser \<Rightarrow> lcov_parser" where
  "parse_branch_measurement raw n p =
     (case lc_current p of
        None \<Rightarrow> lc_reject (''LCOV BRDA outside source record'' @ at_line n) p
      | Some f \<Rightarrow>
          let fields = split_on (CHR '','') raw in
          if length fields < 4 \<or> trim (fields ! 0) = [] \<or> trim (fields ! 1) = [] \<or> trim (fields ! 2) = []
          then lc_reject (''malformed LCOV BRDA'' @ at_line n) p
          else case parse_u32 (fields ! 0) of
            None \<Rightarrow> lc_reject (''invalid LCOV branch line'' @ at_line n) p
          | Some number \<Rightarrow>
              let taken = trim (fields ! 3) in
              case (if taken = ''-'' then Some 0 else parse_nonnegative_u64 taken) of
                None \<Rightarrow> lc_reject (''invalid LCOV branch count'' @ at_line n) p
              | Some count \<Rightarrow>
                  p\<lparr>lc_current := Some (f\<lparr>pf_branches := pf_branches f @ [\<lparr>pb_line = number,
                    pb_identity = trim (fields ! 1) @ '':'' @ trim (fields ! 2), pb_covered = (0 < count)\<rparr>]\<rparr>)\<rparr>)"

text \<open>The summaries start at zero when only one of the two lines is present.\<close>

definition parse_line_summary :: "string \<Rightarrow> string \<Rightarrow> nat \<Rightarrow> lcov_parser \<Rightarrow> lcov_parser" where
  "parse_line_summary tag raw n p =
     (if lc_current p = None then lc_reject (''LCOV '' @ tag @ '' outside source record'' @ at_line n) p
      else case parse_nonnegative_u64 raw of
        None \<Rightarrow> lc_reject (''invalid LCOV line summary'' @ at_line n) p
      | Some v \<Rightarrow>
          let s = (case lc_line_summary p of None \<Rightarrow> (0, 0) | Some s \<Rightarrow> s) in
          p\<lparr>lc_line_summary := Some (if tag = ''LF'' then (v, snd s) else (fst s, v))\<rparr>)"

definition parse_branch_summary :: "string \<Rightarrow> string \<Rightarrow> nat \<Rightarrow> lcov_parser \<Rightarrow> lcov_parser" where
  "parse_branch_summary tag raw n p =
     (if lc_current p = None then lc_reject (''LCOV '' @ tag @ '' outside source record'' @ at_line n) p
      else case parse_nonnegative_u64 raw of
        None \<Rightarrow> lc_reject (''invalid LCOV branch summary'' @ at_line n) p
      | Some v \<Rightarrow>
          let s = (case lc_branch_summary p of None \<Rightarrow> (0, 0) | Some s \<Rightarrow> s) in
          p\<lparr>lc_branch_summary := Some (if tag = ''BRF'' then (v, snd s) else (fst s, v))\<rparr>)"

text \<open>Function records are checked and carry no measurement.\<close>

definition parse_function :: "string \<Rightarrow> nat \<Rightarrow> lcov_parser \<Rightarrow> lcov_parser" where
  "parse_function raw n p =
     (if lc_current p = None then lc_reject (''LCOV FN outside source record'' @ at_line n) p
      else case split_once (CHR '','') raw of
        None \<Rightarrow> lc_reject (''malformed LCOV FN'' @ at_line n) p
      | Some (number, _) \<Rightarrow>
          if parse_u32 number = None then lc_reject (''invalid LCOV function line'' @ at_line n) p else p)"

definition parse_function_data :: "string \<Rightarrow> nat \<Rightarrow> lcov_parser \<Rightarrow> lcov_parser" where
  "parse_function_data raw n p =
     (if lc_current p = None then lc_reject (''LCOV FNDA outside source record'' @ at_line n) p
      else case split_once (CHR '','') raw of
        None \<Rightarrow> lc_reject (''malformed LCOV FNDA'' @ at_line n) p
      | Some (count, _) \<Rightarrow>
          if parse_nonnegative_u64 count = None then lc_reject (''invalid LCOV function count'' @ at_line n) p else p)"

definition parse_function_summary :: "string \<Rightarrow> string \<Rightarrow> nat \<Rightarrow> lcov_parser \<Rightarrow> lcov_parser" where
  "parse_function_summary tag raw n p =
     (if lc_current p = None then lc_reject (''LCOV '' @ tag @ '' outside source record'' @ at_line n) p
      else if parse_nonnegative_u64 raw = None then lc_reject (''invalid LCOV function summary'' @ at_line n) p else p)"

subsection \<open>The reader\<close>

definition lcov_line :: "string \<Rightarrow> nat \<Rightarrow> lcov_parser \<Rightarrow> lcov_parser" where
  "lcov_line text n p =
     (if text = ''end_of_record'' then end_record n p
      else case split_once (CHR '':'') text of
        None \<Rightarrow> lc_reject (''malformed LCOV line '' @ decimal (n + 1)) p
      | Some (tag, raw) \<Rightarrow>
          if tag = ''TN'' then p
          else if tag = ''SF'' then start_file raw n p
          else if tag = ''DA'' then parse_line_measurement raw n p
          else if tag = ''BRDA'' then parse_branch_measurement raw n p
          else if tag = ''LF'' \<or> tag = ''LH'' then parse_line_summary tag raw n p
          else if tag = ''BRF'' \<or> tag = ''BRH'' then parse_branch_summary tag raw n p
          else if tag = ''FN'' then parse_function raw n p
          else if tag = ''FNDA'' then parse_function_data raw n p
          else if tag = ''FNF'' \<or> tag = ''FNH'' then parse_function_summary tag raw n p
          else lc_reject (''unsupported LCOV record tag '' @ [CHR 0x27] @ tag @ [CHR 0x27] @ at_line n) p)"

definition lcov_finish :: "string \<Rightarrow> lcov_parser \<Rightarrow> lcov_parser" where
  "lcov_finish content p =
     (let p = (case lc_current p of None \<Rightarrow> p
         | Some f \<Rightarrow> lc_record f (lc_truncate (''truncated LCOV record for '' @ [CHR 0x27] @ pf_path f @ [CHR 0x27])
             (p\<lparr>lc_current := None\<rparr>))) in
      if trim content \<noteq> [] \<and> \<not> lc_saw_end p \<and> parsed_records (lc_parsed p) = [] \<and> \<not> parsed_invalid (lc_parsed p)
      then lc_truncate ''LCOV contains no complete source record'' p else p)"

text \<open>The loop over the lines, with the index of the next one; blank lines are skipped.\<close>

fun lcov_lines :: "string list \<Rightarrow> nat \<Rightarrow> lcov_parser \<Rightarrow> lcov_parser" where
  "lcov_lines [] n p = p"
| "lcov_lines (raw_line # rest) n p =
     (let text = trim (strip_or_same raw_line [CHR 0x0D]) in
      lcov_lines rest (n + 1) (if text = [] then p else lcov_line text n p))"

definition parse_lcov :: "string \<Rightarrow> string list \<Rightarrow> parsed_coverage \<times> string list" where
  "parse_lcov content ds =
     (let p = lcov_finish content (lcov_lines (str_lines content) 0 (lcov_new ds)) in
      (lc_parsed p, lc_diagnostics p))"

end
