(* ===== verification/OpenCover.thy ===== *)
theory OpenCover
  imports Lcov OrdMap
begin

text \<open>
  The OpenCover reader of \<open>crates/hoonarqube-core/src/assessment/coverage.rs\<close>. The XML tokenizer is the
  \<open>quick-xml\<close> crate: the reader consumes the events it produces for a text, up to the end of the text or
  to an error with a message. An attribute that the crate cannot decode is one of two failures. Everything
  from the events on is modelled: nesting, the file table, methods, sequence and branch points, the summary.
\<close>

datatype xml_attribute = BadAttribute | BadValue string | Attribute string string

datatype xml_event =
    XmlDecl | XmlComment | XmlCData | XmlPI | XmlDocType | XmlGeneralRef
  | XmlText string
  | XmlStart string "xml_attribute list"
  | XmlEmpty string "xml_attribute list"
  | XmlEnd string

type_synonym xml_reader = "string \<Rightarrow> xml_event list \<times> string option"

type_synonym xml_attrs = "(string, string) btree"

definition MAX_XML_DEPTH :: nat where
  "MAX_XML_DEPTH = 256"

definition MAX_XML_TEXT :: nat where
  "MAX_XML_TEXT = 16 * 1024 * 1024"

record oc_parser =
  oc_parsed :: parsed_coverage
  oc_diagnostics :: "string list"
  oc_depth :: nat
  oc_stack :: "string list"
  oc_files :: "(string, string \<times> string option) btree"
  oc_method_file :: "string option"
  oc_method_file_uid :: "string option"
  oc_method_uid :: "string option"
  oc_method_anchor :: "u32 option"
  oc_method_child :: "string option"
  oc_method_child_text :: string
  oc_records :: "(string, parsed_file) btree"
  oc_summary :: "(u64 \<times> u64 \<times> u64 \<times> u64) option"
  oc_root_seen :: bool
  oc_root_closed :: bool
  oc_sequence_count :: u64
  oc_visited_sequence_count :: u64
  oc_branch_count :: u64
  oc_visited_branch_count :: u64

definition oc_new :: "string list \<Rightarrow> oc_parser" where
  "oc_new ds = \<lparr>oc_parsed = parsed_coverage_default, oc_diagnostics = ds, oc_depth = 0, oc_stack = [], oc_files = [],
     oc_method_file = None, oc_method_file_uid = None, oc_method_uid = None, oc_method_anchor = None,
     oc_method_child = None, oc_method_child_text = [], oc_records = [], oc_summary = None, oc_root_seen = False,
     oc_root_closed = False, oc_sequence_count = 0, oc_visited_sequence_count = 0, oc_branch_count = 0,
     oc_visited_branch_count = 0\<rparr>"

definition oc_reject :: "string \<Rightarrow> oc_parser \<Rightarrow> oc_parser" where
  "oc_reject d p = p\<lparr>oc_parsed := (oc_parsed p)\<lparr>parsed_invalid := True\<rparr>, oc_diagnostics := oc_diagnostics p @ [d]\<rparr>"

definition oc_truncate :: "string \<Rightarrow> oc_parser \<Rightarrow> oc_parser" where
  "oc_truncate d p = p\<lparr>oc_parsed := (oc_parsed p)\<lparr>parsed_incomplete := True\<rparr>, oc_diagnostics := oc_diagnostics p @ [d]\<rparr>"

definition oc_note :: "string \<Rightarrow> oc_parser \<Rightarrow> oc_parser" where
  "oc_note d p = p\<lparr>oc_diagnostics := oc_diagnostics p @ [d]\<rparr>"

definition sat_inc :: "u64 \<Rightarrow> u64" where
  "sat_inc n = (if n = - 1 then n else n + 1)"

subsection \<open>Attributes\<close>

definition xml_name :: "string \<Rightarrow> string" where
  "xml_name = map ascii_lower"

definition xml_attribute_step :: "xml_attribute \<Rightarrow> xml_attrs \<times> oc_parser \<Rightarrow> xml_attrs \<times> oc_parser" where
  "xml_attribute_step a = (\<lambda>(attrs, p).
     case a of
       BadAttribute \<Rightarrow> (attrs, oc_reject ''malformed OpenCover XML attribute'' p)
     | BadValue k \<Rightarrow> (attrs, oc_reject (''invalid OpenCover XML attribute '' @ [CHR 0x27] @ xml_name k @ [CHR 0x27]) p)
     | Attribute k v \<Rightarrow> (bt_put (xml_name k) v attrs, p))"

definition xml_attributes :: "xml_attribute list \<Rightarrow> oc_parser \<Rightarrow> xml_attrs \<times> oc_parser" where
  "xml_attributes as p = fold xml_attribute_step as ([], p)"

definition attr :: "xml_attrs \<Rightarrow> string \<Rightarrow> string option" where
  "attr attrs k = map_of attrs k"

fun attr_any :: "xml_attrs \<Rightarrow> string list \<Rightarrow> string option" where
  "attr_any attrs [] = None"
| "attr_any attrs (k # ks) = (case attr attrs k of Some v \<Rightarrow> Some v | None \<Rightarrow> attr_any attrs ks)"

text \<open>The attributes present among the keys, as \<open>key=value\<close> joined by bars.\<close>

definition attr_identity :: "xml_attrs \<Rightarrow> string list \<Rightarrow> string" where
  "attr_identity attrs ks =
     str_join ''|'' (List.map_filter (\<lambda>k. map_option (\<lambda>v. k @ ''='' @ v) (attr attrs k)) ks)"

subsection \<open>Text and nesting\<close>

definition handle_text :: "string \<Rightarrow> oc_parser \<Rightarrow> oc_parser" where
  "handle_text t p =
     (let p = (if length t > MAX_XML_TEXT then oc_reject ''OpenCover XML text node exceeds the bounded importer limit'' p else p);
          p = (if oc_depth p = 0 \<and> t \<noteq> [] then oc_reject ''OpenCover XML has text outside its document root'' p else p) in
      if oc_method_child p \<noteq> None then p\<lparr>oc_method_child_text := oc_method_child_text p @ t\<rparr> else p)"

definition handle_root :: "string \<Rightarrow> oc_parser \<Rightarrow> oc_parser" where
  "handle_root name p =
     (if oc_depth p \<noteq> 1 then p
      else let p = (if oc_root_closed p then oc_reject ''OpenCover XML contains multiple document roots'' p else p);
          p = p\<lparr>oc_root_seen := oc_root_seen p \<or> name = ''coveragesession''\<rparr> in
        if name \<noteq> ''coveragesession'' then oc_reject ''OpenCover document root must be CoverageSession'' p else p)"

definition start_method_child :: "string \<Rightarrow> bool \<Rightarrow> oc_parser \<Rightarrow> oc_parser" where
  "start_method_child name is_empty p =
     (if \<not> is_empty \<and> (name = ''name'' \<or> name = ''metadatatoken'') \<and> ''method'' \<in> set (oc_stack p)
      then p\<lparr>oc_method_child := Some name, oc_method_child_text := []\<rparr> else p)"

definition close_empty :: "string \<Rightarrow> oc_parser \<Rightarrow> oc_parser" where
  "close_empty name p =
     (let p = (if oc_depth p = 1 \<and> name = ''coveragesession'' then p\<lparr>oc_root_closed := True\<rparr> else p) in
      p\<lparr>oc_depth := oc_depth p - 1\<rparr>)"

subsection \<open>Files and methods\<close>

definition handle_file :: "xml_attrs \<Rightarrow> oc_parser \<Rightarrow> oc_parser" where
  "handle_file attrs p =
     (case (attr attrs ''uid'', attr_any attrs [''fullpath'', ''path'']) of
        (Some uid, Some path) \<Rightarrow>
          if uid \<noteq> [] \<and> path \<noteq> [] then
            let hash = attr_any attrs [''hash'', ''checksum''];
                p = (case hash of Some h \<Rightarrow> if length h \<noteq> 64 then oc_note (''OpenCover file hash for '' @ [CHR 0x27] @ path @
                    [CHR 0x27] @ '' uses an unsupported algorithm; source mismatch cannot be verified'') p else p
                  | None \<Rightarrow> p) in
            p\<lparr>oc_files := bt_put uid (path, hash) (oc_files p)\<rparr>
          else oc_reject ''OpenCover File requires uid and fullPath'' p
      | _ \<Rightarrow> oc_reject ''OpenCover File requires uid and fullPath'' p)"

definition file_path_of :: "oc_parser \<Rightarrow> string \<Rightarrow> string option" where
  "file_path_of p uid = map_option fst (map_of (oc_files p) uid)"

definition handle_file_ref :: "xml_attrs \<Rightarrow> oc_parser \<Rightarrow> oc_parser" where
  "handle_file_ref attrs p =
     (case attr attrs ''uid'' of
        Some uid \<Rightarrow>
          let p = p\<lparr>oc_method_file_uid := Some uid, oc_method_file := file_path_of p uid\<rparr> in
          if oc_method_file p = None
          then oc_reject (''OpenCover FileRef references unknown uid '' @ [CHR 0x27] @ uid @ [CHR 0x27]) p else p
      | None \<Rightarrow> oc_reject ''OpenCover FileRef requires uid'' p)"

definition handle_method :: "xml_attrs \<Rightarrow> oc_parser \<Rightarrow> oc_parser" where
  "handle_method attrs p =
     (let i = attr_identity attrs [''uid'', ''id'', ''fullname'', ''name'', ''signature'', ''metadatatoken'', ''declaringtype''];
          uid = attr_any attrs [''fileid'', ''fileuid''] in
      p\<lparr>oc_method_uid := (if i = [] then None else Some i), oc_method_anchor := None, oc_method_file_uid := uid,
        oc_method_file := Option.bind uid (file_path_of p)\<rparr>)"

text \<open>The file of a point: its own uid, else the uid of the method, else the file of the method.\<close>

definition point_uid :: "xml_attrs \<Rightarrow> oc_parser \<Rightarrow> string option" where
  "point_uid attrs p = (case attr_any attrs [''fileid'', ''fileuid''] of Some u \<Rightarrow> Some u | None \<Rightarrow> oc_method_file_uid p)"

definition point_path :: "string \<Rightarrow> string option \<Rightarrow> oc_parser \<Rightarrow> string + string" where
  "point_path kind uid p =
     (case uid of
        Some u \<Rightarrow> ok_or (file_path_of p u) (''OpenCover '' @ kind @ '' references unknown file UID '' @ [CHR 0x27] @ u @ [CHR 0x27])
      | None \<Rightarrow> ok_or (oc_method_file p) (''OpenCover '' @ kind @ '' has no resolvable file''))"

definition uid_hash :: "string option \<Rightarrow> oc_parser \<Rightarrow> string option" where
  "uid_hash uid p = Option.bind uid (\<lambda>u. Option.bind (map_of (oc_files p) u) snd)"

subsection \<open>Points\<close>

definition update_file_record :: "string \<Rightarrow> string option \<Rightarrow> oc_parser \<Rightarrow> oc_parser" where
  "update_file_record path hash p =
     (let conflict = (case (Option.bind (map_of (oc_records p) path) pf_hash, hash) of
            (Some old, Some new) \<Rightarrow> \<not> eq_ignore_ascii_case old new | _ \<Rightarrow> False);
          p = (if conflict then oc_reject (''OpenCover source hashes conflict for '' @ [CHR 0x27] @ path @ [CHR 0x27] @
            '' across referenced file UIDs'') p else p);
          r = (case map_of (oc_records p) path of Some r \<Rightarrow> r | None \<Rightarrow> parsed_file_default\<lparr>pf_path := path\<rparr>) in
      p\<lparr>oc_records := bt_put path (if pf_hash r = None then r\<lparr>pf_hash := hash\<rparr> else r) (oc_records p)\<rparr>)"

definition edit_record :: "string \<Rightarrow> (parsed_file \<Rightarrow> parsed_file) \<Rightarrow> oc_parser \<Rightarrow> oc_parser" where
  "edit_record path f p =
     (let r = (case map_of (oc_records p) path of Some r \<Rightarrow> r | None \<Rightarrow> parsed_file_default\<lparr>pf_path := path\<rparr>) in
      p\<lparr>oc_records := bt_put path (f r) (oc_records p)\<rparr>)"

definition count_sequence :: "bool \<Rightarrow> oc_parser \<Rightarrow> oc_parser" where
  "count_sequence visited p =
     p\<lparr>oc_sequence_count := sat_inc (oc_sequence_count p),
       oc_visited_sequence_count := (if visited then sat_inc (oc_visited_sequence_count p) else oc_visited_sequence_count p)\<rparr>"

definition count_branch :: "bool \<Rightarrow> oc_parser \<Rightarrow> oc_parser" where
  "count_branch visited p =
     p\<lparr>oc_branch_count := sat_inc (oc_branch_count p),
       oc_visited_branch_count := (if visited then sat_inc (oc_visited_branch_count p) else oc_visited_branch_count p)\<rparr>"

definition sequence_lines :: "u32 \<Rightarrow> u32 \<Rightarrow> bool \<Rightarrow> parsed_line list" where
  "sequence_lines first last_line hit =
     map (\<lambda>n. \<lparr>pl_line = of_nat n, pl_covered = hit, pl_checksum = None\<rparr>) [unat first..<Suc (unat last_line)]"

definition handle_sequence_point :: "xml_attrs \<Rightarrow> oc_parser \<Rightarrow> oc_parser" where
  "handle_sequence_point attrs p =
     (let line_start = Option.bind (attr_any attrs [''sl'', ''startline'']) parse_u32;
          line_end = (case attr_any attrs [''el'', ''endline''] of None \<Rightarrow> line_start | Some v \<Rightarrow> parse_u32 v);
          visits = Option.bind (attr_any attrs [''vc'', ''visitcount'']) parse_nonnegative_u64 in
      case line_start of None \<Rightarrow> oc_reject ''OpenCover SequencePoint requires sl'' p | Some first \<Rightarrow>
      case line_end of None \<Rightarrow> oc_reject ''OpenCover SequencePoint requires el'' p | Some final \<Rightarrow>
      case visits of None \<Rightarrow> oc_reject ''OpenCover SequencePoint requires vc'' p | Some v \<Rightarrow>
      let uid = point_uid attrs p in
      case point_path ''SequencePoint'' uid p of Inl d \<Rightarrow> oc_reject d p | Inr path \<Rightarrow>
      if final < first then oc_reject ''OpenCover SequencePoint end line precedes start line'' p
      else if final - first > 100000 then
        count_sequence (0 < v) (oc_reject ''OpenCover SequencePoint line span exceeds the bounded importer limit'' p)
      else
        let p = p\<lparr>oc_method_anchor := Some (case oc_method_anchor p of None \<Rightarrow> first | Some a \<Rightarrow> min a first)\<rparr>;
            p = update_file_record path (uid_hash uid p) p;
            p = edit_record path (\<lambda>r. r\<lparr>pf_lines := pf_lines r @ sequence_lines first final (0 < v)\<rparr>) p in
        count_sequence (0 < v) p)"

definition branch_identity :: "xml_attrs \<Rightarrow> string" where
  "branch_identity attrs = attr_identity attrs [''uspid'', ''ordinal'', ''path'', ''offset'', ''offsetend'', ''sl'', ''el'']"

definition method_key :: "u32 \<Rightarrow> oc_parser \<Rightarrow> string" where
  "method_key number p =
     (case oc_method_uid p of Some u \<Rightarrow> u
      | None \<Rightarrow> ''file='' @ (case oc_method_file p of None \<Rightarrow> [] | Some f \<Rightarrow> f) @ ''|anchor='' @
          decimal (unat (case oc_method_anchor p of None \<Rightarrow> number | Some a \<Rightarrow> a)))"

definition handle_branch_point :: "xml_attrs \<Rightarrow> oc_parser \<Rightarrow> oc_parser" where
  "handle_branch_point attrs p =
     (case Option.bind (attr_any attrs [''sl'', ''line'']) parse_u32 of
        None \<Rightarrow> oc_reject ''OpenCover branch point requires sl or line'' p | Some number \<Rightarrow>
      case Option.bind (attr_any attrs [''vc'', ''visitcount'']) parse_nonnegative_u64 of
        None \<Rightarrow> oc_reject ''OpenCover branch point requires vc'' p | Some v \<Rightarrow>
      let uid = point_uid attrs p in
      case point_path ''branch point'' uid p of Inl d \<Rightarrow> oc_reject d p | Inr path \<Rightarrow>
      if branch_identity attrs = [] then oc_reject ''OpenCover branch point has no stable identity attributes'' p
      else
        let key = ''method='' @ method_key number p @ ''|line='' @ decimal (unat number) @ ''|'' @ branch_identity attrs;
            p = update_file_record path (uid_hash uid p) p;
            p = edit_record path (\<lambda>r. r\<lparr>pf_branches := pf_branches r @
              [\<lparr>pb_line = number, pb_identity = key, pb_covered = (0 < v)\<rparr>]\<rparr>) p in
        count_branch (0 < v) p)"

definition handle_summary :: "xml_attrs \<Rightarrow> oc_parser \<Rightarrow> oc_parser" where
  "handle_summary attrs p =
     (let counter = (\<lambda>ks. Option.bind (attr_any attrs ks) parse_nonnegative_u64) in
      case (counter [''numsequencepoints'', ''sequencepoints''], counter [''visitedsequencepoints''],
          counter [''numbranchpoints'', ''branchpoints''], counter [''visitedbranchpoints'', ''visitedbranches'']) of
        (Some a, Some b, Some c, Some d) \<Rightarrow> p\<lparr>oc_summary := Some (a, b, c, d)\<rparr>
      | _ \<Rightarrow> oc_reject ''OpenCover Summary has incomplete counters'' p)"

subsection \<open>Elements\<close>

definition handle_element :: "string \<Rightarrow> xml_attrs \<Rightarrow> oc_parser \<Rightarrow> oc_parser" where
  "handle_element name attrs p =
     (if name = ''file'' then handle_file attrs p
      else if name = ''fileref'' then handle_file_ref attrs p
      else if name = ''method'' then handle_method attrs p
      else if name = ''sequencepoint'' then handle_sequence_point attrs p
      else if name = ''branchpoint'' \<or> name = ''branch'' then handle_branch_point attrs p
      else if name = ''summary'' \<and> oc_depth p = 2 \<and> oc_summary p = None then handle_summary attrs p
      else p)"

definition handle_start :: "string \<Rightarrow> xml_attribute list \<Rightarrow> bool \<Rightarrow> oc_parser \<Rightarrow> oc_parser" where
  "handle_start raw as is_empty p =
     (let p = p\<lparr>oc_depth := oc_depth p + 1\<rparr>;
          p = (if oc_depth p > MAX_XML_DEPTH then oc_reject ''OpenCover XML nesting exceeds the bounded importer limit'' p else p);
          name = xml_name raw;
          p = handle_root name p;
          p = (if is_empty then p else p\<lparr>oc_stack := name # oc_stack p\<rparr>);
          p = start_method_child name is_empty p;
          (attrs, p) = xml_attributes as p;
          p = handle_element name attrs p in
      if is_empty then close_empty name p else p)"

definition close_method_child :: "string \<Rightarrow> oc_parser \<Rightarrow> oc_parser" where
  "close_method_child name p =
     (if oc_method_child p = Some name then
        let v = trim (oc_method_child_text p); part = ''child='' @ name @ ''='' @ v;
            p = (if v \<noteq> [] then p\<lparr>oc_method_uid := Some (case oc_method_uid p of
              Some existing \<Rightarrow> existing @ ''|'' @ part | None \<Rightarrow> part)\<rparr> else p) in
        p\<lparr>oc_method_child := None, oc_method_child_text := []\<rparr>
      else p)"

definition handle_end :: "string \<Rightarrow> oc_parser \<Rightarrow> oc_parser" where
  "handle_end raw p =
     (let name = xml_name raw;
          p = close_method_child name p;
          matches = (case oc_stack p of [] \<Rightarrow> False | expected # _ \<Rightarrow> expected = name);
          p = p\<lparr>oc_stack := tl (oc_stack p)\<rparr>;
          p = (if matches then p else oc_reject (''mismatched OpenCover XML closing tag '' @ [CHR 0x27] @ name @ [CHR 0x27]) p);
          p = (if name = ''method'' then p\<lparr>oc_method_file := None, oc_method_uid := None, oc_method_file_uid := None,
            oc_method_anchor := None\<rparr> else p);
          p = (if name = ''coveragesession'' \<and> oc_depth p = 1 then p\<lparr>oc_root_closed := True\<rparr> else p) in
      p\<lparr>oc_depth := oc_depth p - 1\<rparr>)"

fun handle_event :: "xml_event \<Rightarrow> oc_parser \<Rightarrow> oc_parser" where
  "handle_event XmlDecl p = p"
| "handle_event XmlComment p = p"
| "handle_event XmlCData p = p"
| "handle_event XmlPI p = p"
| "handle_event (XmlText t) p = handle_text t p"
| "handle_event XmlDocType p = oc_reject ''OpenCover DTD and entity references are not supported'' p"
| "handle_event XmlGeneralRef p = oc_reject ''OpenCover DTD and entity references are not supported'' p"
| "handle_event (XmlStart name as) p = handle_start name as False p"
| "handle_event (XmlEmpty name as) p = handle_start name as True p"
| "handle_event (XmlEnd name) p = handle_end name p"

definition oc_finish :: "oc_parser \<Rightarrow> oc_parser" where
  "oc_finish p =
     (let p = (if \<not> oc_root_seen p then oc_reject ''OpenCover document root must be CoverageSession'' p else p);
          p = (if oc_depth p \<noteq> 0 \<or> oc_stack p \<noteq> [] then oc_truncate ''truncated OpenCover XML document'' p else p);
          p = (case oc_summary p of None \<Rightarrow> p | Some (a, b, c, d) \<Rightarrow>
            if a \<noteq> oc_sequence_count p \<or> b \<noteq> oc_visited_sequence_count p \<or> c \<noteq> oc_branch_count p \<or>
              d \<noteq> oc_visited_branch_count p
            then oc_reject ''OpenCover Summary counters contradict sequence or branch records'' p else p);
          p = p\<lparr>oc_parsed := (oc_parsed p)\<lparr>parsed_records := map snd (oc_records p), parsed_saw := oc_records p \<noteq> []\<rparr>\<rparr> in
      if oc_records p = [] \<and> \<not> parsed_invalid (oc_parsed p) \<and> \<not> parsed_incomplete (oc_parsed p)
      then oc_truncate ''OpenCover document contains no coverage records'' p else p)"

definition oc_error :: "string option \<Rightarrow> oc_parser \<Rightarrow> oc_parser" where
  "oc_error e p =
     (case e of None \<Rightarrow> p
      | Some message \<Rightarrow>
          if str_contains (map ascii_lower message) ''unexpected eof'' then oc_truncate (''truncated OpenCover XML: '' @ message) p
          else oc_reject (''malformed OpenCover XML: '' @ message) p)"

definition parse_opencover :: "xml_reader \<Rightarrow> string \<Rightarrow> string list \<Rightarrow> parsed_coverage \<times> string list" where
  "parse_opencover read_xml content ds =
     (if trim content = [] then (parsed_coverage_default\<lparr>parsed_incomplete := True\<rparr>, ds @ [''OpenCover report is empty''])
      else let (events, e) = read_xml content;
          p = oc_finish (oc_error e (fold handle_event events (oc_new ds))) in
        (oc_parsed p, oc_diagnostics p))"

end
