(* ===== verification/CoverageImport.thy ===== *)
theory CoverageImport
  imports CoveragePaths OpenCover
begin

text \<open>
  The coverage import of \<open>crates/hoonarqube-core/src/assessment/coverage.rs\<close>: reports are read, their paths
  resolved against the analyzed sources, their measurements checked against the source text and merged by
  identity into the report. The XML tokenizer completes the externals of \<open>CoveragePaths\<close>.
\<close>

record import_externals = externals +
  read_xml :: xml_reader

datatype coverage_format = LcovFormat | OpenCoverFormat

fun format_as_str :: "coverage_format \<Rightarrow> string" where
  "format_as_str LcovFormat = ''lcov''"
| "format_as_str OpenCoverFormat = ''opencover''"

record coverage_source =
  cs_path :: path
  cs_format :: coverage_format
  cs_content :: string

definition COVERAGE_SCHEMA_VERSION :: u32 where
  "COVERAGE_SCHEMA_VERSION = ASSESSMENT_SCHEMA_VERSION"

definition MAX_INPUT_BYTES :: nat where
  "MAX_INPUT_BYTES = 64 * 1024 * 1024"

definition MAX_RECORDS :: nat where
  "MAX_RECORDS = 1000000"

definition MAX_MEASUREMENTS :: nat where
  "MAX_MEASUREMENTS = 4000000"

subsection \<open>The aggregate\<close>

record branch_aggregate =
  ba_covered :: bool
  ba_runs :: "(nat, bool) btree"

record line_aggregate =
  la_seen :: bool
  la_covered :: bool
  la_runs :: "(nat, bool) btree"
  la_branches :: "(string, branch_aggregate) btree"

type_synonym file_aggregate = "(u32, line_aggregate) btree"

type_synonym coverage_aggregate = "(string, file_aggregate) btree"

definition line_aggregate_default :: line_aggregate where
  "line_aggregate_default = \<lparr>la_seen = False, la_covered = False, la_runs = [], la_branches = []\<rparr>"

text \<open>\<open>entry(path).or_default().lines.entry(line).or_default()\<close> and the assignment through it.\<close>

definition line_entry :: "coverage_aggregate \<Rightarrow> string \<Rightarrow> u32 \<Rightarrow> line_aggregate" where
  "line_entry agg path number =
     (case Option.bind (map_of agg path) (\<lambda>lines. map_of lines number) of
        Some e \<Rightarrow> e | None \<Rightarrow> line_aggregate_default)"

definition set_line_entry :: "string \<Rightarrow> u32 \<Rightarrow> line_aggregate \<Rightarrow> coverage_aggregate \<Rightarrow> coverage_aggregate" where
  "set_line_entry path number e agg =
     bt_put path (bt_put number e (case map_of agg path of Some lines \<Rightarrow> lines | None \<Rightarrow> [])) agg"

definition contradicts :: "(nat, bool) btree \<Rightarrow> bool \<Rightarrow> bool" where
  "contradicts runs hit \<longleftrightarrow> list_ex (\<lambda>(_, previous). previous \<noteq> hit) runs"

definition aggregate_add_line :: "string \<Rightarrow> u32 \<Rightarrow> bool \<Rightarrow> nat \<Rightarrow> coverage_aggregate \<times> string list \<Rightarrow> coverage_aggregate \<times> string list" where
  "aggregate_add_line path number hit run = (\<lambda>(agg, ds).
     let e = line_entry agg path number;
         e' = e\<lparr>la_runs := bt_put run hit (la_runs e), la_seen := True, la_covered := la_covered e \<or> hit\<rparr> in
     (set_line_entry path number e' agg,
      if contradicts (la_runs e) hit then ds @ [''coverage line '' @ decimal (unat number) @ '' for '' @ quoted path @
        '' has contradictory run values; unioning coverage''] else ds))"

definition aggregate_add_branch :: "string \<Rightarrow> u32 \<Rightarrow> string \<Rightarrow> bool \<Rightarrow> nat \<Rightarrow> coverage_aggregate \<times> string list \<Rightarrow> coverage_aggregate \<times> string list" where
  "aggregate_add_branch path number i hit run = (\<lambda>(agg, ds).
     let e = line_entry agg path number;
         b = (case map_of (la_branches e) i of Some b \<Rightarrow> b | None \<Rightarrow> \<lparr>ba_covered = False, ba_runs = []\<rparr>);
         b' = \<lparr>ba_covered = ba_covered b \<or> hit, ba_runs = bt_put run hit (ba_runs b)\<rparr> in
     (set_line_entry path number (e\<lparr>la_branches := bt_put i b' (la_branches e)\<rparr>) agg,
      if contradicts (ba_runs b) hit then ds @ [''coverage branch '' @ quoted i @ '' at line '' @ decimal (unat number) @
        '' for '' @ quoted path @ '' has contradictory run values; unioning coverage''] else ds))"

definition aggregate_lines :: "coverage_aggregate \<Rightarrow> line_aggregate list" where
  "aggregate_lines agg = concat (map (\<lambda>(_, lines). map snd lines) agg)"

definition line_counter :: "coverage_aggregate \<Rightarrow> coverage_counter" where
  "line_counter agg =
     \<lparr>eligible = of_nat (length (filter la_seen (aggregate_lines agg))),
      covered = of_nat (length (filter (\<lambda>l. la_seen l \<and> la_covered l) (aggregate_lines agg)))\<rparr>"

definition branch_counter :: "coverage_aggregate \<Rightarrow> coverage_counter" where
  "branch_counter agg =
     fold (\<lambda>b c. \<lparr>eligible = eligible c + 1, covered = (if ba_covered b then covered c + 1 else covered c)\<rparr>)
       (concat (map (\<lambda>l. map snd (la_branches l)) (aggregate_lines agg))) \<lparr>eligible = 0, covered = 0\<rparr>"

definition line_branch_counter :: "line_aggregate \<Rightarrow> coverage_counter option" where
  "line_branch_counter l =
     (if la_branches l = [] then None
      else Some \<lparr>eligible = of_nat (length (la_branches l)),
        covered = of_nat (length (filter (\<lambda>(_, b). ba_covered b) (la_branches l)))\<rparr>)"

definition file_lines :: "file_aggregate \<Rightarrow> line_coverage list" where
  "file_lines lines =
     map (\<lambda>(number, l). \<lparr>covered_line = number, line_hit = (if la_seen l then Some (la_covered l) else None),
         line_branches = line_branch_counter l\<rparr>)
       (filter (\<lambda>(_, l). la_seen l \<or> la_branches l \<noteq> []) lines)"

definition aggregate_files :: "coverage_aggregate \<Rightarrow> file_coverage list" where
  "aggregate_files agg =
     List.map_filter (\<lambda>(path, lines). if file_lines lines = [] then None
       else Some \<lparr>coverage_path = path, coverage_lines = file_lines lines\<rparr>) agg"

subsection \<open>Measurements\<close>

record import_flags =
  flag_invalid :: bool
  flag_incomplete :: bool
  flag_saw :: bool

type_synonym import_state = "coverage_aggregate \<times> string list"

definition source_contains_line :: "source_entry \<Rightarrow> u32 \<Rightarrow> bool" where
  "source_contains_line s number \<longleftrightarrow> number \<noteq> 0 \<and> unat number \<le> entry_line_count s"

text \<open>A measurement yields its flags \<open>(invalid, saw_record)\<close> and the new state.\<close>

definition import_coverage_line :: "import_externals \<Rightarrow> string \<Rightarrow> source_entry \<Rightarrow> nat \<Rightarrow> parsed_line \<Rightarrow> import_state \<Rightarrow>
    (bool \<times> bool) \<times> import_state" where
  "import_coverage_line x path s run l = (\<lambda>(agg, ds).
     let number = pl_line l in
     if \<not> source_contains_line s number then
       ((True, False), agg, ds @ [''coverage line '' @ decimal (unat number) @ '' for '' @ quoted path @
         '' does not exist in the analyzed source''])
     else
       let mismatch = (case pl_checksum l of None \<Rightarrow> False | Some reported \<Rightarrow>
             source_line_checksum (md5 x) (base64_no_pad x) (entry_source s) (entry_language s) number \<noteq> Some reported);
           ds = (if mismatch then ds @ [''LCOV checksum mismatch for line '' @ decimal (unat number) @ '' of '' @ quoted path] else ds) in
       ((mismatch, True), aggregate_add_line path number (pl_covered l) run (agg, ds)))"

definition import_coverage_branch :: "string \<Rightarrow> source_entry \<Rightarrow> nat \<Rightarrow> parsed_branch \<Rightarrow> import_state \<Rightarrow>
    (bool \<times> bool) \<times> import_state" where
  "import_coverage_branch path s run b = (\<lambda>(agg, ds).
     if \<not> source_contains_line s (pb_line b) then
       ((True, False), agg, ds @ [''coverage branch line '' @ decimal (unat (pb_line b)) @ '' for '' @ quoted path @
         '' does not exist in the analyzed source''])
     else ((False, True), aggregate_add_branch path (pb_line b) (pb_identity b) (pb_covered b) run (agg, ds)))"

text \<open>The flags of the measurements are joined with \<open>|=\<close>.\<close>

definition import_each :: "('m \<Rightarrow> import_state \<Rightarrow> (bool \<times> bool) \<times> import_state) \<Rightarrow> 'm list \<Rightarrow>
    (bool \<times> bool) \<times> import_state \<Rightarrow> (bool \<times> bool) \<times> import_state" where
  "import_each f ms start =
     fold (\<lambda>m ((i, s), st). let ((i', s'), st') = f m st in ((i \<or> i', s \<or> s'), st')) ms start"

definition verify_file_hash :: "string \<Rightarrow> string \<Rightarrow> bool" where
  "verify_file_hash reported digest \<longleftrightarrow> length reported = 64 \<and> eq_ignore_ascii_case reported digest"

definition import_coverage_record :: "import_externals \<Rightarrow> string \<Rightarrow> source_entry \<Rightarrow> nat \<Rightarrow> parsed_file \<Rightarrow> import_state \<Rightarrow>
    (bool \<times> bool) \<times> import_state" where
  "import_coverage_record x path s run r = (\<lambda>(agg, ds).
     let mismatch = (case pf_hash r of None \<Rightarrow> False | Some h \<Rightarrow> \<not> verify_file_hash h (entry_digest s));
         ds = (if mismatch then ds @ [''coverage source hash mismatch for '' @ quoted path] else ds) in
     import_each (import_coverage_branch path s run) (pf_branches r)
       (import_each (import_coverage_line x path s run) (pf_lines r) ((mismatch, False), agg, ds)))"

subsection \<open>Inputs\<close>

fun classification_name :: "file_classification \<Rightarrow> string" where
  "classification_name Source = ''source''"
| "classification_name Test = ''test''"
| "classification_name Generated = ''generated''"
| "classification_name Vendor = ''vendor''"
| "classification_name Excluded = ''excluded''"

text \<open>One record of a parsed input; the flags are those of the whole input.\<close>

definition import_parsed_record :: "import_externals \<Rightarrow> source_index \<Rightarrow> nat \<Rightarrow> parsed_file \<Rightarrow>
    (bool \<times> bool) \<times> import_state \<Rightarrow> (bool \<times> bool) \<times> import_state" where
  "import_parsed_record x index run r = (\<lambda>((i, s), agg, ds).
     let (resolved, ds) = resolve_path (externals.truncate x) index (pf_path r) ds in
     case resolved of None \<Rightarrow> ((True, s), agg, ds) | Some path \<Rightarrow>
     case map_of (index_entries index) path of None \<Rightarrow> ((True, s), agg, ds) | Some source \<Rightarrow>
       if entry_class source \<noteq> Source then
         ((i, s), agg, ds @ [''coverage path '' @ quoted path @ '' is outside the source scope ('' @
           classification_name (entry_class source) @ '')''])
       else
         let ((i', s'), st) = import_coverage_record x path source run r (agg, ds) in
         ((i \<or> i', s \<or> s'), st))"

definition coverage_measurement_count :: "parsed_coverage \<Rightarrow> nat" where
  "coverage_measurement_count p =
     fold (\<lambda>r n. min usize_max (n + min usize_max (length (pf_lines r) + length (pf_branches r)))) (parsed_records p) 0"

definition invalid_input :: import_flags where
  "invalid_input = \<lparr>flag_invalid = True, flag_incomplete = False, flag_saw = False\<rparr>"

definition parse_input :: "import_externals \<Rightarrow> coverage_source \<Rightarrow> string list \<Rightarrow> parsed_coverage \<times> string list" where
  "parse_input x input ds =
     (case cs_format input of
        LcovFormat \<Rightarrow> parse_lcov (cs_content input) ds
      | OpenCoverFormat \<Rightarrow> parse_opencover (read_xml x) (cs_content input) ds)"

definition import_coverage_input :: "import_externals \<Rightarrow> source_index \<Rightarrow> nat \<Rightarrow> coverage_source \<Rightarrow> import_state \<Rightarrow>
    import_flags \<times> import_state" where
  "import_coverage_input x index run input = (\<lambda>(agg, ds).
     if cs_path input = [] then (invalid_input, agg, ds @ [''coverage input path must not be empty''])
     else if length (cs_content input) > MAX_INPUT_BYTES then
       (invalid_input, agg, ds @ [''coverage input '' @ quoted (lossy (cs_path input)) @ '' exceeds the bounded importer limit''])
     else
       let (parsed, ds) = parse_input x input ds in
       if length (parsed_records parsed) > MAX_RECORDS \<or> coverage_measurement_count parsed > MAX_MEASUREMENTS then
         (invalid_input, agg, ds @ [''coverage input '' @ quoted (lossy (cs_path input)) @
           '' exceeds the bounded record or measurement limit''])
       else
         let ((i, s), st) = fold (import_parsed_record x index run) (parsed_records parsed)
               ((parsed_invalid parsed, parsed_saw parsed), agg, ds) in
         (\<lparr>flag_invalid = i, flag_incomplete = parsed_incomplete parsed, flag_saw = s\<rparr>, st))"

subsection \<open>The report\<close>

text \<open>\<open>sort\<close> and \<open>dedup\<close>: the distinct diagnostics in byte order.\<close>

definition sort_dedup :: "string list \<Rightarrow> string list" where
  "sort_dedup ds = remdups_adj (sort ds)"

text \<open>The loop over the inputs with the running index and the flags of all inputs so far.\<close>

fun import_inputs :: "import_externals \<Rightarrow> source_index \<Rightarrow> coverage_source list \<Rightarrow> nat \<Rightarrow> import_flags \<Rightarrow> import_state \<Rightarrow>
    import_flags \<times> import_state" where
  "import_inputs x index [] run flags st = (flags, st)"
| "import_inputs x index (input # rest) run flags st =
     (let (f, st) = import_coverage_input x index run input st in
      import_inputs x index rest (run + 1)
        \<lparr>flag_invalid = flag_invalid flags \<or> flag_invalid f, flag_incomplete = flag_incomplete flags \<or> flag_incomplete f,
         flag_saw = flag_saw flags \<or> flag_saw f\<rparr> st)"

definition report_input :: "import_externals \<Rightarrow> path \<Rightarrow> coverage_source \<Rightarrow> coverage_input" where
  "report_input x root input =
     \<lparr>input_path = report_input_path root (cs_path input), input_format = format_as_str (cs_format input),
      input_digest = hex (sha256 x (cs_content input))\<rparr>"

definition import_status :: "coverage_source list \<Rightarrow> import_flags \<Rightarrow> assessment_status" where
  "import_status inputs flags =
     (if inputs = [] then Missing else if flag_invalid flags then InvalidStatus
      else if flag_incomplete flags \<or> \<not> flag_saw flags then Incomplete else Complete)"

definition import_coverage :: "import_externals \<Rightarrow> path \<Rightarrow> coverage_source list \<Rightarrow> coverage_file list \<Rightarrow> coverage_report" where
  "import_coverage x root inputs sources =
     (let (index, ds) = source_index_new (externals.truncate x) root sources [];
          (flags, agg, ds) = import_inputs x index inputs 0
            \<lparr>flag_invalid = \<not> index_valid index, flag_incomplete = False, flag_saw = False\<rparr> ([], ds) in
      \<lparr>coverage_version = COVERAGE_SCHEMA_VERSION,
       coverage_status = import_status inputs flags,
       coverage_files = aggregate_files agg,
       coverage_inputs = sort_key (\<lambda>i. (path_key (input_path i), input_format i, input_digest i))
         (map (report_input x root) inputs),
       total_lines = line_counter agg,
       total_branches = branch_counter agg,
       coverage_diagnostics = sort_dedup ds\<rparr>)"

end
