(* ===== verification/CoverageActions.thy ===== *)
theory CoverageActions
  imports CoverageImport
begin

text \<open>
  The import as actions. Reading and checking an input depends on its text and on the sources, not on what
  other inputs contributed: it amounts to a list of actions, each a diagnostic or a merged measurement. The
  readers only append to the diagnostics they are given, and the state-passing code runs the actions.
\<close>

named_theorems frames \<open>an operation commutes with earlier diagnostics\<close>

subsection \<open>The readers append diagnostics\<close>

definition lc_under :: "string list \<Rightarrow> lcov_parser \<Rightarrow> lcov_parser" where
  "lc_under d p = p\<lparr>lc_diagnostics := d @ lc_diagnostics p\<rparr>"

lemma lc_under_simps [simp]:
  "lc_parsed (lc_under d p) = lc_parsed p" "lc_current (lc_under d p) = lc_current p"
  "lc_saw_end (lc_under d p) = lc_saw_end p" "lc_line_summary (lc_under d p) = lc_line_summary p"
  "lc_branch_summary (lc_under d p) = lc_branch_summary p" "lc_diagnostics (lc_under d p) = d @ lc_diagnostics p"
  "(lc_under d p)\<lparr>lc_parsed := q\<rparr> = lc_under d (p\<lparr>lc_parsed := q\<rparr>)"
  "(lc_under d p)\<lparr>lc_current := c\<rparr> = lc_under d (p\<lparr>lc_current := c\<rparr>)"
  "(lc_under d p)\<lparr>lc_saw_end := b\<rparr> = lc_under d (p\<lparr>lc_saw_end := b\<rparr>)"
  "(lc_under d p)\<lparr>lc_line_summary := s\<rparr> = lc_under d (p\<lparr>lc_line_summary := s\<rparr>)"
  "(lc_under d p)\<lparr>lc_branch_summary := s\<rparr> = lc_under d (p\<lparr>lc_branch_summary := s\<rparr>)"
  by (simp_all add: lc_under_def)

lemma lc_under_report [frames]:
  "lc_reject m (lc_under d p) = lc_under d (lc_reject m p)"
  "lc_truncate m (lc_under d p) = lc_under d (lc_truncate m p)"
  "lc_record f (lc_under d p) = lc_under d (lc_record f p)"
  by (simp_all add: lc_reject_def lc_truncate_def lc_record_def)

lemma lc_under_ops [frames]:
  "start_file raw n (lc_under d p) = lc_under d (start_file raw n p)"
  "validate_line_summary f (lc_under d p) = lc_under d (validate_line_summary f p)"
  "validate_branch_summary f (lc_under d p) = lc_under d (validate_branch_summary f p)"
  "parse_line_measurement raw n (lc_under d p) = lc_under d (parse_line_measurement raw n p)"
  "parse_branch_measurement raw n (lc_under d p) = lc_under d (parse_branch_measurement raw n p)"
  "parse_line_summary tag raw n (lc_under d p) = lc_under d (parse_line_summary tag raw n p)"
  "parse_branch_summary tag raw n (lc_under d p) = lc_under d (parse_branch_summary tag raw n p)"
  "parse_function raw n (lc_under d p) = lc_under d (parse_function raw n p)"
  "parse_function_data raw n (lc_under d p) = lc_under d (parse_function_data raw n p)"
  "parse_function_summary tag raw n (lc_under d p) = lc_under d (parse_function_summary tag raw n p)"
  by (simp_all add: start_file_def validate_line_summary_def validate_branch_summary_def parse_line_measurement_def
      parse_branch_measurement_def parse_line_summary_def parse_branch_summary_def parse_function_def
      parse_function_data_def parse_function_summary_def frames Let_def split: option.split prod.split)

lemma lc_under_end [frames]: "end_record n (lc_under d p) = lc_under d (end_record n p)"
  by (simp add: end_record_def frames Let_def split: option.split)

lemma lc_under_line [frames]: "lcov_line text n (lc_under d p) = lc_under d (lcov_line text n p)"
  by (simp add: lcov_line_def frames split: option.split prod.split)

lemma lc_under_lines [frames]: "lcov_lines ls n (lc_under d p) = lc_under d (lcov_lines ls n p)"
  by (induction ls arbitrary: n p) (simp_all add: frames Let_def)

lemma lc_under_finish [frames]: "lcov_finish content (lc_under d p) = lc_under d (lcov_finish content p)"
  by (cases "lc_current p") (auto simp: lcov_finish_def frames Let_def)

lemma parse_lcov_frame:
  "parse_lcov content ds = (fst (parse_lcov content []), ds @ snd (parse_lcov content []))"
proof -
  have "lcov_new ds = lc_under ds (lcov_new [])" by (simp add: lcov_new_def lc_under_def)
  then show ?thesis by (simp add: parse_lcov_def frames Let_def)
qed

definition oc_under :: "string list \<Rightarrow> oc_parser \<Rightarrow> oc_parser" where
  "oc_under d p = p\<lparr>oc_diagnostics := d @ oc_diagnostics p\<rparr>"

lemma oc_under_selects [simp]:
  "oc_parsed (oc_under d p) = oc_parsed p" "oc_depth (oc_under d p) = oc_depth p" "oc_stack (oc_under d p) = oc_stack p"
  "oc_files (oc_under d p) = oc_files p" "oc_method_file (oc_under d p) = oc_method_file p"
  "oc_method_file_uid (oc_under d p) = oc_method_file_uid p" "oc_method_uid (oc_under d p) = oc_method_uid p"
  "oc_method_anchor (oc_under d p) = oc_method_anchor p" "oc_method_child (oc_under d p) = oc_method_child p"
  "oc_method_child_text (oc_under d p) = oc_method_child_text p" "oc_records (oc_under d p) = oc_records p"
  "oc_summary (oc_under d p) = oc_summary p" "oc_root_seen (oc_under d p) = oc_root_seen p"
  "oc_root_closed (oc_under d p) = oc_root_closed p" "oc_sequence_count (oc_under d p) = oc_sequence_count p"
  "oc_visited_sequence_count (oc_under d p) = oc_visited_sequence_count p" "oc_branch_count (oc_under d p) = oc_branch_count p"
  "oc_visited_branch_count (oc_under d p) = oc_visited_branch_count p" "oc_diagnostics (oc_under d p) = d @ oc_diagnostics p"
  by (simp_all add: oc_under_def)

lemma oc_under_updates [simp]:
  "(oc_under d p)\<lparr>oc_parsed := a\<rparr> = oc_under d (p\<lparr>oc_parsed := a\<rparr>)"
  "(oc_under d p)\<lparr>oc_depth := b\<rparr> = oc_under d (p\<lparr>oc_depth := b\<rparr>)"
  "(oc_under d p)\<lparr>oc_stack := c\<rparr> = oc_under d (p\<lparr>oc_stack := c\<rparr>)"
  "(oc_under d p)\<lparr>oc_files := e\<rparr> = oc_under d (p\<lparr>oc_files := e\<rparr>)"
  "(oc_under d p)\<lparr>oc_method_file := f\<rparr> = oc_under d (p\<lparr>oc_method_file := f\<rparr>)"
  "(oc_under d p)\<lparr>oc_method_file_uid := f\<rparr> = oc_under d (p\<lparr>oc_method_file_uid := f\<rparr>)"
  "(oc_under d p)\<lparr>oc_method_uid := f\<rparr> = oc_under d (p\<lparr>oc_method_uid := f\<rparr>)"
  "(oc_under d p)\<lparr>oc_method_anchor := g\<rparr> = oc_under d (p\<lparr>oc_method_anchor := g\<rparr>)"
  "(oc_under d p)\<lparr>oc_method_child := f\<rparr> = oc_under d (p\<lparr>oc_method_child := f\<rparr>)"
  "(oc_under d p)\<lparr>oc_method_child_text := h\<rparr> = oc_under d (p\<lparr>oc_method_child_text := h\<rparr>)"
  "(oc_under d p)\<lparr>oc_records := r\<rparr> = oc_under d (p\<lparr>oc_records := r\<rparr>)"
  "(oc_under d p)\<lparr>oc_summary := s\<rparr> = oc_under d (p\<lparr>oc_summary := s\<rparr>)"
  "(oc_under d p)\<lparr>oc_root_seen := t\<rparr> = oc_under d (p\<lparr>oc_root_seen := t\<rparr>)"
  "(oc_under d p)\<lparr>oc_root_closed := t\<rparr> = oc_under d (p\<lparr>oc_root_closed := t\<rparr>)"
  "(oc_under d p)\<lparr>oc_sequence_count := n\<rparr> = oc_under d (p\<lparr>oc_sequence_count := n\<rparr>)"
  "(oc_under d p)\<lparr>oc_visited_sequence_count := n\<rparr> = oc_under d (p\<lparr>oc_visited_sequence_count := n\<rparr>)"
  "(oc_under d p)\<lparr>oc_branch_count := n\<rparr> = oc_under d (p\<lparr>oc_branch_count := n\<rparr>)"
  "(oc_under d p)\<lparr>oc_visited_branch_count := n\<rparr> = oc_under d (p\<lparr>oc_visited_branch_count := n\<rparr>)"
  by (simp_all add: oc_under_def)

lemma oc_under_report [frames]:
  "oc_reject m (oc_under d p) = oc_under d (oc_reject m p)"
  "oc_truncate m (oc_under d p) = oc_under d (oc_truncate m p)"
  "oc_note m (oc_under d p) = oc_under d (oc_note m p)"
  by (simp_all add: oc_reject_def oc_truncate_def oc_note_def)

text \<open>Earlier diagnostics are pulled out of branches and bindings, without splitting them.\<close>

lemma oc_under_pull:
  "(if c then oc_under d p else oc_under d q) = oc_under d (if c then p else q)"
  "Let (oc_under d p) f = Let p (\<lambda>q. f (oc_under d q))"
  "Let a (\<lambda>x. oc_under d (g x)) = oc_under d (Let a g)"
  "case_option (oc_under d p) (\<lambda>x. oc_under d (h x)) o' = oc_under d (case_option p h o')"
  "case_sum (\<lambda>x. oc_under d (k x)) (\<lambda>x. oc_under d (l x)) r = oc_under d (case_sum k l r)"
  "case_prod (\<lambda>x y. oc_under d (m x y)) = (\<lambda>t. oc_under d (case_prod m t))"
  "case_prod u (map_prod id (oc_under d) t) = case_prod (\<lambda>x y. u x (oc_under d y)) t"
  by (simp_all add: Let_def fun_eq_iff split: option.split sum.split prod.split)

lemmas strong = if_weak_cong let_weak_cong option.case_cong_weak sum.case_cong_weak prod.case_cong_weak

lemma oc_under_reads [simp]:
  "file_path_of (oc_under d p) = file_path_of p" "point_uid attrs (oc_under d p) = point_uid attrs p"
  "point_path kind uid (oc_under d p) = point_path kind uid p" "uid_hash uid (oc_under d p) = uid_hash uid p"
  "method_key n (oc_under d p) = method_key n p"
  by (simp_all add: file_path_of_def point_uid_def point_path_def uid_hash_def method_key_def fun_eq_iff
      cong: option.case_cong)

lemma xml_attributes_under [frames]:
  "xml_attributes as (oc_under d p) = map_prod id (oc_under d) (xml_attributes as p)"
proof -
  have "xml_attribute_step a (m, oc_under d p) = map_prod id (oc_under d) (xml_attribute_step a (m, p))" for a m p
    by (cases a) (simp_all add: xml_attribute_step_def frames)
  then have "fold xml_attribute_step as (m, oc_under d p) = map_prod id (oc_under d) (fold xml_attribute_step as (m, p))" for m
  proof (induction as arbitrary: m p)
    case (Cons a as)
    then show ?case by (cases "xml_attribute_step a (m, p)") simp
  qed simp
  then show ?thesis by (simp add: xml_attributes_def)
qed

lemma oc_under_small [frames]:
  "handle_text t (oc_under d p) = oc_under d (handle_text t p)"
  "handle_root name (oc_under d p) = oc_under d (handle_root name p)"
  "start_method_child name e (oc_under d p) = oc_under d (start_method_child name e p)"
  "close_empty name (oc_under d p) = oc_under d (close_empty name p)"
  "close_method_child name (oc_under d p) = oc_under d (close_method_child name p)"
  by (simp_all add: handle_text_def handle_root_def start_method_child_def close_empty_def close_method_child_def frames oc_under_pull cong del: strong split del: if_split)

lemma oc_under_files [frames]:
  "handle_file attrs (oc_under d p) = oc_under d (handle_file attrs p)"
  "handle_file_ref attrs (oc_under d p) = oc_under d (handle_file_ref attrs p)"
  "handle_method attrs (oc_under d p) = oc_under d (handle_method attrs p)"
  "handle_summary attrs (oc_under d p) = oc_under d (handle_summary attrs p)"
  by (simp_all add: handle_file_def handle_file_ref_def handle_method_def handle_summary_def frames oc_under_pull cong del: strong split del: if_split)

lemma oc_under_records [frames]:
  "update_file_record path h (oc_under d p) = oc_under d (update_file_record path h p)"
  "edit_record path f (oc_under d p) = oc_under d (edit_record path f p)"
  "count_sequence b (oc_under d p) = oc_under d (count_sequence b p)"
  "count_branch b (oc_under d p) = oc_under d (count_branch b p)"
  by (simp_all add: update_file_record_def edit_record_def count_sequence_def count_branch_def frames oc_under_pull cong del: strong split del: if_split)

lemma oc_under_sequence [frames]: "handle_sequence_point attrs (oc_under d p) = oc_under d (handle_sequence_point attrs p)"
  by (simp add: handle_sequence_point_def frames oc_under_pull cong del: strong split del: if_split)

lemma oc_under_branch [frames]: "handle_branch_point attrs (oc_under d p) = oc_under d (handle_branch_point attrs p)"
  by (simp add: handle_branch_point_def frames oc_under_pull cong del: strong split del: if_split)

lemma oc_under_element [frames]: "handle_element name attrs (oc_under d p) = oc_under d (handle_element name attrs p)"
  by (simp add: handle_element_def frames)

lemma oc_under_start [frames]: "handle_start raw as e (oc_under d p) = oc_under d (handle_start raw as e p)"
  by (simp add: handle_start_def frames oc_under_pull cong del: strong split del: if_split)

lemma oc_under_end [frames]: "handle_end raw (oc_under d p) = oc_under d (handle_end raw p)"
  by (simp add: handle_end_def frames oc_under_pull cong del: strong split del: if_split)

lemma oc_under_event [frames]: "handle_event e (oc_under d p) = oc_under d (handle_event e p)"
  by (cases e) (simp_all add: frames)

lemma oc_under_events [frames]: "fold handle_event es (oc_under d p) = oc_under d (fold handle_event es p)"
  by (induction es arbitrary: p) (simp_all add: frames)

lemma oc_under_finish [frames]:
  "oc_finish (oc_under d p) = oc_under d (oc_finish p)" "oc_error e (oc_under d p) = oc_under d (oc_error e p)"
  by (simp_all add: oc_finish_def oc_error_def frames oc_under_pull cong del: strong split del: if_split)

lemma parse_opencover_frame:
  "parse_opencover rx content ds = (fst (parse_opencover rx content []), ds @ snd (parse_opencover rx content []))"
proof -
  have "oc_new ds = oc_under ds (oc_new [])" by (simp add: oc_new_def oc_under_def)
  then show ?thesis by (simp add: parse_opencover_def frames Let_def split: prod.split)
qed

lemma parse_input_frame: "parse_input x input ds = (fst (parse_input x input []), ds @ snd (parse_input x input []))"
  by (cases "cs_format input") (simp_all add: parse_input_def parse_lcov_frame [of _ ds] parse_opencover_frame [of _ _ ds])

lemma resolve_path_frame:
  "resolve_path x index r ds = (fst (resolve_path x index r []), ds @ snd (resolve_path x index r []))"
  by (simp add: resolve_path_def Let_def split: option.split list.split prod.split)

subsection \<open>Actions\<close>

datatype measurement = MeasuredLine string u32 bool | MeasuredBranch string u32 string bool

datatype import_action = Note string | Merge measurement

fun merge :: "nat \<Rightarrow> measurement \<Rightarrow> import_state \<Rightarrow> import_state" where
  "merge run (MeasuredLine p n h) = aggregate_add_line p n h run"
| "merge run (MeasuredBranch p n i h) = aggregate_add_branch p n i h run"

fun act :: "nat \<Rightarrow> import_action \<Rightarrow> import_state \<Rightarrow> import_state" where
  "act run (Note d) = (\<lambda>(agg, ds). (agg, ds @ [d]))"
| "act run (Merge m) = merge run m"

definition measurements :: "import_action list \<Rightarrow> measurement list" where
  "measurements = List.map_filter (\<lambda>a. case a of Note _ \<Rightarrow> None | Merge m \<Rightarrow> Some m)"

lemma measurements_simps [simp]:
  "measurements [] = []" "measurements (Note d # as) = measurements as" "measurements (Merge m # as) = m # measurements as"
  "measurements (as @ bs) = measurements as @ measurements bs"
  by (simp_all add: measurements_def List.map_filter_def)

lemma measurements_notes [simp]: "measurements (map Note ds) = []"
  by (induction ds) simp_all

lemma act_notes [simp]: "fold (act run) (map Note d) (agg, ds) = (agg, ds @ d)"
  by (induction d arbitrary: ds) simp_all

text \<open>\<open>f\<close> adds the flags \<open>fl\<close> and merges \<open>ms\<close>, whatever the run and the state are.\<close>

definition runs_as :: "(nat \<Rightarrow> import_state \<Rightarrow> (bool \<times> bool) \<times> import_state) \<Rightarrow> bool \<times> bool \<Rightarrow> measurement list \<Rightarrow> bool" where
  "runs_as f fl ms \<longleftrightarrow> (\<exists>acts. measurements acts = ms \<and> (\<forall>run st. f run st = (fl, fold (act run) acts st)))"

abbreviation join_flags :: "bool \<times> bool \<Rightarrow> bool \<times> bool \<Rightarrow> bool \<times> bool" where
  "join_flags a b \<equiv> (fst a \<or> fst b, snd a \<or> snd b)"

definition adds :: "(nat \<Rightarrow> (bool \<times> bool) \<times> import_state \<Rightarrow> (bool \<times> bool) \<times> import_state) \<Rightarrow> bool \<times> bool \<Rightarrow> measurement list \<Rightarrow> bool" where
  "adds f fl ms \<longleftrightarrow> (\<exists>acts. measurements acts = ms \<and>
     (\<forall>run a st. f run (a, st) = (join_flags a fl, fold (act run) acts st)))"

lemma adds_fold:
  assumes "\<And>m. m \<in> set ms \<Longrightarrow> adds (\<lambda>run. f run m) (fl m) (meas m)"
  shows "adds (\<lambda>run. fold (f run) ms) (\<exists>m \<in> set ms. fst (fl m), \<exists>m \<in> set ms. snd (fl m)) (concat (map meas ms))"
  using assms
proof (induction ms)
  case Nil
  show ?case unfolding adds_def by (rule exI [of _ "[]"]) simp
next
  case (Cons m ms)
  obtain as where as: "measurements as = meas m" "\<And>run a st. f run m (a, st) = (join_flags a (fl m), fold (act run) as st)"
    using Cons.prems [of m] by (auto simp: adds_def)
  obtain bs where bs: "measurements bs = concat (map meas ms)"
    "\<And>run a st. fold (f run) ms (a, st) = (join_flags a (\<exists>m \<in> set ms. fst (fl m), \<exists>m \<in> set ms. snd (fl m)), fold (act run) bs st)"
    using Cons.IH Cons.prems unfolding adds_def by auto
  show ?case unfolding adds_def by (rule exI [of _ "as @ bs"]) (auto simp: as bs)
qed

lemma adds_each:
  assumes "\<And>m. m \<in> set ms \<Longrightarrow> runs_as (\<lambda>run. f run m) (fl m) (meas m)"
  shows "adds (\<lambda>run. import_each (f run) ms) (\<exists>m \<in> set ms. fst (fl m), \<exists>m \<in> set ms. snd (fl m)) (concat (map meas ms))"
proof -
  have "adds (\<lambda>run ((i, s), st). let ((i', s'), st') = f run m st in ((i \<or> i', s \<or> s'), st')) (fl m) (meas m)"
    if m: "m \<in> set ms" for m
  proof -
    obtain acts where "measurements acts = meas m" "\<And>run st. f run m st = (fl m, fold (act run) acts st)"
      using assms [OF m] by (auto simp: runs_as_def)
    then show ?thesis unfolding adds_def by (intro exI [of _ acts]) (auto split: prod.splits)
  qed
  then have "adds (\<lambda>run. fold (\<lambda>m ((i, s), st). let ((i', s'), st') = f run m st in ((i \<or> i', s \<or> s'), st')) ms)
      (\<exists>m \<in> set ms. fst (fl m), \<exists>m \<in> set ms. snd (fl m)) (concat (map meas ms))"
    by (rule adds_fold)
  then show ?thesis unfolding import_each_def .
qed

subsection \<open>What an input amounts to\<close>

definition line_ok :: "import_externals \<Rightarrow> source_entry \<Rightarrow> parsed_line \<Rightarrow> bool" where
  "line_ok x s l \<longleftrightarrow> source_contains_line s (pl_line l) \<and>
     (\<forall>c. pl_checksum l = Some c \<longrightarrow>
        source_line_checksum (md5 x) (base64_no_pad x) (entry_source s) (entry_language s) (pl_line l) = Some c)"

definition line_measures :: "string \<Rightarrow> source_entry \<Rightarrow> parsed_line \<Rightarrow> measurement list" where
  "line_measures path s l =
     (if source_contains_line s (pl_line l) then [MeasuredLine path (pl_line l) (pl_covered l)] else [])"

definition branch_measures :: "string \<Rightarrow> source_entry \<Rightarrow> parsed_branch \<Rightarrow> measurement list" where
  "branch_measures path s b =
     (if source_contains_line s (pb_line b) then [MeasuredBranch path (pb_line b) (pb_identity b) (pb_covered b)] else [])"

lemma import_coverage_line_runs:
  "runs_as (\<lambda>run. import_coverage_line x path s run l) (\<not> line_ok x s l, source_contains_line s (pl_line l)) (line_measures path s l)"
  unfolding runs_as_def
proof (cases "source_contains_line s (pl_line l)")
  case False
  define d where "d = ''coverage line '' @ decimal (unat (pl_line l)) @ '' for '' @ quoted path @ '' does not exist in the analyzed source''"
  show "\<exists>acts. measurements acts = line_measures path s l \<and> (\<forall>run st. import_coverage_line x path s run l st =
      ((\<not> line_ok x s l, source_contains_line s (pl_line l)), fold (act run) acts st))"
    using False by (intro exI [of _ "[Note d]"]) (auto simp: line_measures_def import_coverage_line_def line_ok_def d_def)
next
  case True
  define d where "d = ''LCOV checksum mismatch for line '' @ decimal (unat (pl_line l)) @ '' of '' @ quoted path"
  define m where "m = (case pl_checksum l of None \<Rightarrow> False | Some reported \<Rightarrow>
             source_line_checksum (md5 x) (base64_no_pad x) (entry_source s) (entry_language s) (pl_line l) \<noteq> Some reported)"
  have m: "m \<longleftrightarrow> \<not> line_ok x s l" using True by (auto simp: m_def line_ok_def split: option.splits)
  have run: "import_coverage_line x path s run l (agg, ds) =
      ((m, True), aggregate_add_line path (pl_line l) (pl_covered l) run (agg, if m then ds @ [d] else ds))" for run agg ds
    using True by (simp only: import_coverage_line_def m_def [symmetric] d_def [symmetric] Let_def not_True_eq_False if_False prod.case)
  show "\<exists>acts. measurements acts = line_measures path s l \<and> (\<forall>run st. import_coverage_line x path s run l st =
      ((\<not> line_ok x s l, source_contains_line s (pl_line l)), fold (act run) acts st))"
    using True m run
    by (intro exI [of _ "(if m then [Note d] else []) @ [Merge (MeasuredLine path (pl_line l) (pl_covered l))]"])
      (auto simp: line_measures_def)
qed

lemma import_coverage_branch_runs:
  "runs_as (\<lambda>run. import_coverage_branch path s run b)
     (\<not> source_contains_line s (pb_line b), source_contains_line s (pb_line b)) (branch_measures path s b)"
  unfolding runs_as_def
proof (cases "source_contains_line s (pb_line b)")
  case False
  define d where "d = ''coverage branch line '' @ decimal (unat (pb_line b)) @ '' for '' @ quoted path @ '' does not exist in the analyzed source''"
  show "\<exists>acts. measurements acts = branch_measures path s b \<and> (\<forall>run st. import_coverage_branch path s run b st =
      ((\<not> source_contains_line s (pb_line b), source_contains_line s (pb_line b)), fold (act run) acts st))"
    using False by (intro exI [of _ "[Note d]"]) (auto simp: branch_measures_def import_coverage_branch_def d_def)
next
  case True
  then show "\<exists>acts. measurements acts = branch_measures path s b \<and> (\<forall>run st. import_coverage_branch path s run b st =
      ((\<not> source_contains_line s (pb_line b), source_contains_line s (pb_line b)), fold (act run) acts st))"
    by (intro exI [of _ "[Merge (MeasuredBranch path (pb_line b) (pb_identity b) (pb_covered b))]"])
      (auto simp: branch_measures_def import_coverage_branch_def)
qed

definition hash_ok :: "source_entry \<Rightarrow> parsed_file \<Rightarrow> bool" where
  "hash_ok s r \<longleftrightarrow> (\<forall>h. pf_hash r = Some h \<longrightarrow> verify_file_hash h (entry_digest s))"

definition record_flags :: "import_externals \<Rightarrow> source_entry \<Rightarrow> parsed_file \<Rightarrow> bool \<times> bool" where
  "record_flags x s r =
     (\<not> hash_ok s r \<or> (\<exists>l \<in> set (pf_lines r). \<not> line_ok x s l) \<or>
        (\<exists>b \<in> set (pf_branches r). \<not> source_contains_line s (pb_line b)),
      (\<exists>l \<in> set (pf_lines r). source_contains_line s (pl_line l)) \<or>
        (\<exists>b \<in> set (pf_branches r). source_contains_line s (pb_line b)))"

definition record_measures :: "string \<Rightarrow> source_entry \<Rightarrow> parsed_file \<Rightarrow> measurement list" where
  "record_measures path s r =
     concat (map (line_measures path s) (pf_lines r)) @ concat (map (branch_measures path s) (pf_branches r))"

lemma import_coverage_record_runs:
  "runs_as (\<lambda>run. import_coverage_record x path s run r) (record_flags x s r) (record_measures path s r)"
proof -
  define d where "d = ''coverage source hash mismatch for '' @ quoted path"
  define m where "m = (case pf_hash r of None \<Rightarrow> False | Some h \<Rightarrow> \<not> verify_file_hash h (entry_digest s))"
  have m: "m \<longleftrightarrow> \<not> hash_ok s r" by (auto simp: m_def hash_ok_def split: option.splits)
  obtain as where as: "measurements as = concat (map (line_measures path s) (pf_lines r))"
    "\<And>run a st. import_each (import_coverage_line x path s run) (pf_lines r) (a, st) =
       (join_flags a (\<exists>l \<in> set (pf_lines r). \<not> line_ok x s l, \<exists>l \<in> set (pf_lines r). source_contains_line s (pl_line l)),
        fold (act run) as st)"
    using adds_each [of "pf_lines r" "\<lambda>run. import_coverage_line x path s run", OF import_coverage_line_runs] unfolding adds_def fst_conv snd_conv by blast
  obtain bs where bs: "measurements bs = concat (map (branch_measures path s) (pf_branches r))"
    "\<And>run a st. import_each (import_coverage_branch path s run) (pf_branches r) (a, st) =
       (join_flags a (\<exists>b \<in> set (pf_branches r). \<not> source_contains_line s (pb_line b),
          \<exists>b \<in> set (pf_branches r). source_contains_line s (pb_line b)), fold (act run) bs st)"
    using adds_each [of "pf_branches r" "\<lambda>run. import_coverage_branch path s run", OF import_coverage_branch_runs] unfolding adds_def fst_conv snd_conv by blast
  have "import_coverage_record x path s run r st =
      (record_flags x s r, fold (act run) ((if m then [Note d] else []) @ as @ bs) st)" for run st
  proof (cases st)
    case (Pair agg ds)
    have "import_coverage_record x path s run r (agg, ds) =
      import_each (import_coverage_branch path s run) (pf_branches r)
       (import_each (import_coverage_line x path s run) (pf_lines r) ((m, False), agg, if m then ds @ [d] else ds))"
      by (simp only: import_coverage_record_def m_def [symmetric] d_def [symmetric] Let_def prod.case)
    then show ?thesis using m by (auto simp: Pair as(2) bs(2) record_flags_def)
  qed
  moreover have "measurements ((if m then [Note d] else []) @ as @ bs) = record_measures path s r"
    by (simp add: as(1) bs(1) record_measures_def)
  ultimately show ?thesis unfolding runs_as_def by blast
qed

text \<open>The source of a record: its path resolves to an analyzed file.\<close>

definition target :: "import_externals \<Rightarrow> source_index \<Rightarrow> parsed_file \<Rightarrow> (string \<times> source_entry) option" where
  "target x index r =
     (case fst (resolve_path (externals.truncate x) index (pf_path r) []) of None \<Rightarrow> None
      | Some path \<Rightarrow> map_option (Pair path) (map_of (index_entries index) path))"

definition parsed_record_flags :: "import_externals \<Rightarrow> source_index \<Rightarrow> parsed_file \<Rightarrow> bool \<times> bool" where
  "parsed_record_flags x index r =
     (case target x index r of None \<Rightarrow> (True, False)
      | Some (path, s) \<Rightarrow> if entry_class s = Source then record_flags x s r else (False, False))"

definition parsed_record_measures :: "import_externals \<Rightarrow> source_index \<Rightarrow> parsed_file \<Rightarrow> measurement list" where
  "parsed_record_measures x index r =
     (case target x index r of None \<Rightarrow> []
      | Some (path, s) \<Rightarrow> if entry_class s = Source then record_measures path s r else [])"

lemma import_parsed_record_adds:
  "adds (\<lambda>run. import_parsed_record x index run r) (parsed_record_flags x index r) (parsed_record_measures x index r)"
proof -
  obtain found ds' where resolved: "resolve_path (externals.truncate x) index (pf_path r) [] = (found, ds')" by (cases "resolve_path (externals.truncate x) index (pf_path r) []")
  then have frame: "resolve_path (externals.truncate x) index (pf_path r) ds = (found, ds @ ds')" for ds
    using resolve_path_frame [of "externals.truncate x" index "pf_path r" ds] by simp
  show ?thesis
  proof (cases "target x index r")
    case None
    then show ?thesis unfolding adds_def
      by (intro exI [of _ "map Note ds'"])
        (auto simp: import_parsed_record_def frame target_def resolved parsed_record_flags_def parsed_record_measures_def
          split: option.splits)
  next
    case (Some t)
    then obtain path s where t: "found = Some path" "map_of (index_entries index) path = Some s" "t = (path, s)"
      by (auto simp: target_def resolved split: option.splits)
    show ?thesis
    proof (cases "entry_class s = Source")
      case False
      define d where "d = ''coverage path '' @ quoted path @ '' is outside the source scope ('' @ classification_name (entry_class s) @ '')''"
      have "import_parsed_record x index run r ((i, sw), agg, ds) = ((i, sw), agg, (ds @ ds') @ [d])" for run i sw agg ds
        using False by (simp only: import_parsed_record_def frame t prod.case option.case Let_def d_def if_True not_False_eq_True)
      then show ?thesis using False Some t unfolding adds_def
        by (intro exI [of _ "map Note (ds' @ [d])"])
          (auto simp: parsed_record_flags_def parsed_record_measures_def simp del: map_append)
    next
      case True
      obtain acts where acts: "measurements acts = record_measures path s r"
        "\<And>run st. import_coverage_record x path s run r st = (record_flags x s r, fold (act run) acts st)"
        using import_coverage_record_runs [of x path s r] by (auto simp: runs_as_def)
      obtain i' sw' where fl: "record_flags x s r = (i', sw')" by (cases "record_flags x s r")
      have "import_parsed_record x index run r ((i, sw), agg, ds) =
          ((i \<or> i', sw \<or> sw'), fold (act run) (map Note ds' @ acts) (agg, ds))" for run i sw agg ds
        using True fl by (simp add: import_parsed_record_def frame t acts(2))
      then show ?thesis using True Some t acts(1) fl unfolding adds_def
        by (intro exI [of _ "map Note ds' @ acts"])
          (auto simp: parsed_record_flags_def parsed_record_measures_def simp del: fold_append)
    qed
  qed
qed

definition parsed_of :: "import_externals \<Rightarrow> coverage_source \<Rightarrow> parsed_coverage" where
  "parsed_of x input = fst (parse_input x input [])"

definition readable :: "import_externals \<Rightarrow> coverage_source \<Rightarrow> bool" where
  "readable x input \<longleftrightarrow> cs_path input \<noteq> [] \<and> length (cs_content input) \<le> MAX_INPUT_BYTES \<and>
     length (parsed_records (parsed_of x input)) \<le> MAX_RECORDS \<and>
     coverage_measurement_count (parsed_of x input) \<le> MAX_MEASUREMENTS"

definition input_flags :: "import_externals \<Rightarrow> source_index \<Rightarrow> coverage_source \<Rightarrow> import_flags" where
  "input_flags x index input =
     (if readable x input then
        let p = parsed_of x input in
        \<lparr>flag_invalid = parsed_invalid p \<or> (\<exists>r \<in> set (parsed_records p). fst (parsed_record_flags x index r)),
         flag_incomplete = parsed_incomplete p,
         flag_saw = parsed_saw p \<or> (\<exists>r \<in> set (parsed_records p). snd (parsed_record_flags x index r))\<rparr>
      else invalid_input)"

definition input_measures :: "import_externals \<Rightarrow> source_index \<Rightarrow> coverage_source \<Rightarrow> measurement list" where
  "input_measures x index input =
     (if readable x input then concat (map (parsed_record_measures x index) (parsed_records (parsed_of x input))) else [])"

lemma import_coverage_input_runs:
  "\<exists>acts. measurements acts = input_measures x index input \<and>
     (\<forall>run st. import_coverage_input x index run input st = (input_flags x index input, fold (act run) acts st))"
proof -
  obtain p ds' where p: "parse_input x input [] = (p, ds')" by (cases "parse_input x input []")
  then have frame: "parse_input x input ds = (p, ds @ ds')" for ds using parse_input_frame [of x input ds] by simp
  have parsed: "parsed_of x input = p" by (simp add: parsed_of_def p)
  define big where "big = ''coverage input '' @ quoted (lossy (cs_path input)) @ '' exceeds the bounded importer limit''"
  define many where "many = ''coverage input '' @ quoted (lossy (cs_path input)) @ '' exceeds the bounded record or measurement limit''"
  define none where "none = ''coverage input path must not be empty''"
  let ?many = "length (parsed_records p) > MAX_RECORDS \<or> coverage_measurement_count p > MAX_MEASUREMENTS"
  have unfolded: "import_coverage_input x index run input (agg, ds) =
      (if cs_path input = [] then (invalid_input, agg, ds @ [none])
       else if length (cs_content input) > MAX_INPUT_BYTES then (invalid_input, agg, ds @ [big])
       else if ?many then (invalid_input, agg, (ds @ ds') @ [many])
       else let ((i, s), st) = fold (import_parsed_record x index run) (parsed_records p)
               ((parsed_invalid p, parsed_saw p), agg, ds @ ds') in
         (\<lparr>flag_invalid = i, flag_incomplete = parsed_incomplete p, flag_saw = s\<rparr>, st))" for run agg ds
    by (simp only: import_coverage_input_def frame big_def many_def none_def Let_def prod.case)
  consider "cs_path input = []" | "cs_path input \<noteq> []" "length (cs_content input) > MAX_INPUT_BYTES"
    | "cs_path input \<noteq> []" "length (cs_content input) \<le> MAX_INPUT_BYTES" ?many | "readable x input"
    unfolding readable_def parsed by (metis not_le)
  then show ?thesis
  proof cases
    case 1
    then show ?thesis
      by (intro exI [of _ "[Note none]"]) (auto simp: unfolded input_measures_def input_flags_def readable_def)
  next
    case 2
    then show ?thesis
      by (intro exI [of _ "[Note big]"]) (auto simp: unfolded input_measures_def input_flags_def readable_def)
  next
    case 3
    then have "\<not> readable x input" by (auto simp: readable_def parsed)
    with 3 show ?thesis
      by (intro exI [of _ "map Note (ds' @ [many])"]) (auto simp: unfolded input_measures_def input_flags_def simp del: map_append)
  next
    case 4
    obtain acts where acts: "measurements acts = concat (map (parsed_record_measures x index) (parsed_records p))"
      "\<And>run a st. fold (import_parsed_record x index run) (parsed_records p) (a, st) =
         (join_flags a (\<exists>r \<in> set (parsed_records p). fst (parsed_record_flags x index r),
            \<exists>r \<in> set (parsed_records p). snd (parsed_record_flags x index r)), fold (act run) acts st)"
      using adds_fold [of "parsed_records p" "\<lambda>run. import_parsed_record x index run", OF import_parsed_record_adds]
      unfolding adds_def fst_conv snd_conv by blast
    have "import_coverage_input x index run input (agg, ds) = (input_flags x index input, fold (act run) (map Note ds' @ acts) (agg, ds))"
      for run agg ds using 4 by (auto simp: unfolded acts(2) input_flags_def readable_def parsed Let_def)
    moreover have "measurements (map Note ds' @ acts) = input_measures x index input"
      using 4 by (simp add: acts(1) input_measures_def parsed)
    ultimately show ?thesis by (metis prod.collapse)
  qed
qed

text \<open>All inputs: the flags are joined and the actions of each input run under its index.\<close>

definition joined :: "import_flags \<Rightarrow> import_flags list \<Rightarrow> import_flags" where
  "joined f fs = \<lparr>flag_invalid = flag_invalid f \<or> (\<exists>g \<in> set fs. flag_invalid g),
     flag_incomplete = flag_incomplete f \<or> (\<exists>g \<in> set fs. flag_incomplete g),
     flag_saw = flag_saw f \<or> (\<exists>g \<in> set fs. flag_saw g)\<rparr>"

lemma import_inputs_runs:
  "\<exists>A. (\<forall>input. measurements (A input) = input_measures x index input) \<and>
     (\<forall>inputs run f st. import_inputs x index inputs run f st =
        (joined f (map (input_flags x index) inputs),
         fold (\<lambda>(k, input). fold (act k) (A input)) (zip [run..<run + length inputs] inputs) st))"
proof -
  obtain A where A: "\<And>input. measurements (A input) = input_measures x index input"
    "\<And>input run st. import_coverage_input x index run input st = (input_flags x index input, fold (act run) (A input) st)"
    using import_coverage_input_runs [of x index] by metis
  have "import_inputs x index inputs run f st = (joined f (map (input_flags x index) inputs),
      fold (\<lambda>(k, input). fold (act k) (A input)) (zip [run..<run + length inputs] inputs) st)" for inputs run f st
  proof (induction inputs arbitrary: run f st)
    case Nil
    then show ?case by (simp add: joined_def)
  next
    case (Cons i inputs)
    have "[run..<run + length (i # inputs)] = run # [run + 1..<run + 1 + length inputs]" by (subst upt_conv_Cons) simp_all
    then show ?case by (simp add: A(2) Cons.IH joined_def disj_assoc)
  qed
  then show ?thesis using A(1) by blast
qed

end
