(* ===== verification/CoverageMerge.thy ===== *)
theory CoverageMerge
  imports CoverageActions
begin

text \<open>
  What the aggregate holds after any sequence of actions: one entry per measured line and per measured
  branch identity, covered when some run covered it. The invariant \<open>agg_inv\<close> relates the aggregate to the set
  of merged measurements; two aggregates with the same set differ at most in the values kept per run.
\<close>

subsection \<open>Two-level lookups\<close>

definition look :: "coverage_aggregate \<Rightarrow> string \<Rightarrow> u32 \<Rightarrow> line_aggregate option" where
  "look agg p n = Option.bind (map_of agg p) (\<lambda>lines. map_of lines n)"

lemma look_set: "look (set_line_entry p n e agg) q k = (if q = p \<and> k = n then Some e else look agg q k)"
  by (auto simp: look_def set_line_entry_def split: option.splits)

lemma line_entry_look: "line_entry agg p n = (case look agg p n of Some e \<Rightarrow> e | None \<Rightarrow> line_aggregate_default)"
  by (simp add: line_entry_def look_def)

definition agg_ok :: "coverage_aggregate \<Rightarrow> bool" where
  "agg_ok agg \<longleftrightarrow> bt_ok agg \<and> (\<forall>p lines. map_of agg p = Some lines \<longrightarrow> bt_ok lines \<and> lines \<noteq> [])"

lemma bt_put_nonempty [simp]: "bt_put k v m \<noteq> []"
  by (cases "(k, v, m)" rule: bt_put.cases) auto

lemma agg_ok_set: "agg_ok agg \<Longrightarrow> agg_ok (set_line_entry p n e agg)"
  by (auto simp: agg_ok_def set_line_entry_def split: option.splits if_splits)

subsection \<open>The invariant\<close>

definition line_values :: "measurement set \<Rightarrow> string \<Rightarrow> u32 \<Rightarrow> bool set" where
  "line_values M p n = {h. MeasuredLine p n h \<in> M}"

definition branch_values :: "measurement set \<Rightarrow> string \<Rightarrow> u32 \<Rightarrow> string \<Rightarrow> bool set" where
  "branch_values M p n i = {h. MeasuredBranch p n i h \<in> M}"

text \<open>The kept values are some of the merged ones, and at least one of them.\<close>

definition runs_ok :: "(nat, bool) btree \<Rightarrow> bool set \<Rightarrow> bool" where
  "runs_ok runs vs \<longleftrightarrow> snd ` set runs \<subseteq> vs \<and> (runs = [] \<longrightarrow> vs = {})"

fun branch_inv :: "bool set \<Rightarrow> branch_aggregate option \<Rightarrow> bool" where
  "branch_inv vs None \<longleftrightarrow> vs = {}"
| "branch_inv vs (Some b) \<longleftrightarrow> vs \<noteq> {} \<and> (ba_covered b \<longleftrightarrow> True \<in> vs) \<and> runs_ok (ba_runs b) vs"

definition branches_inv :: "(string \<Rightarrow> bool set) \<Rightarrow> (string, branch_aggregate) btree \<Rightarrow> bool" where
  "branches_inv vs bs \<longleftrightarrow> bt_ok bs \<and> (\<forall>i. branch_inv (vs i) (map_of bs i))"

definition entry_inv :: "bool set \<Rightarrow> (string \<Rightarrow> bool set) \<Rightarrow> line_aggregate \<Rightarrow> bool" where
  "entry_inv ls bs e \<longleftrightarrow> (la_seen e \<longleftrightarrow> ls \<noteq> {}) \<and> (la_covered e \<longleftrightarrow> True \<in> ls) \<and> runs_ok (la_runs e) ls \<and>
     branches_inv bs (la_branches e)"

definition agg_inv :: "measurement set \<Rightarrow> coverage_aggregate \<Rightarrow> bool" where
  "agg_inv M agg \<longleftrightarrow> agg_ok agg \<and>
     (\<forall>p n. entry_inv (line_values M p n) (branch_values M p n) (line_entry agg p n) \<and>
        (look agg p n \<noteq> None \<longleftrightarrow> line_values M p n \<noteq> {} \<or> (\<exists>i. branch_values M p n i \<noteq> {})))"

lemma values_insert:
  "line_values (insert (MeasuredLine p n h) M) q k = (if q = p \<and> k = n then insert h (line_values M q k) else line_values M q k)"
  "branch_values (insert (MeasuredLine p n h) M) q k = branch_values M q k"
  "line_values (insert (MeasuredBranch p n i h) M) q k = line_values M q k"
  "branch_values (insert (MeasuredBranch p n i h) M) q k =
     (if q = p \<and> k = n then (branch_values M q k)(i := insert h (branch_values M q k i)) else branch_values M q k)"
  by (auto simp: line_values_def branch_values_def fun_eq_iff)

lemma agg_inv_empty: "agg_inv {} []"
  by (simp add: agg_inv_def agg_ok_def look_def line_entry_look entry_inv_def line_aggregate_default_def runs_ok_def
      branches_inv_def line_values_def branch_values_def)

lemma runs_ok_put: "runs_ok runs vs \<Longrightarrow> runs_ok (bt_put run h runs) (insert h vs)"
proof -
  assume "runs_ok runs vs"
  moreover have "snd ` set (bt_put k v m) \<subseteq> insert v (snd ` set m)" for k :: nat and v :: bool and m
    by (induction k v m rule: bt_put.induct) auto
  ultimately show ?thesis unfolding runs_ok_def by (fastforce simp: image_subset_iff)
qed

definition branch_entry :: "line_aggregate \<Rightarrow> string \<Rightarrow> branch_aggregate" where
  "branch_entry e i = (case map_of (la_branches e) i of Some b \<Rightarrow> b | None \<Rightarrow> \<lparr>ba_covered = False, ba_runs = []\<rparr>)"

lemma branch_entry_inv:
  assumes "entry_inv ls bs e"
  shows "(ba_covered (branch_entry e i) \<longleftrightarrow> True \<in> bs i) \<and> runs_ok (ba_runs (branch_entry e i)) (bs i)"
proof -
  have "branch_inv (bs i) (map_of (la_branches e) i)" using assms by (simp add: entry_inv_def branches_inv_def)
  then show ?thesis by (cases "map_of (la_branches e) i") (simp_all add: branch_entry_def runs_ok_def [of "[]"])
qed

text \<open>An update of one entry that meets the new values keeps the invariant.\<close>

lemma agg_inv_set:
  assumes "agg_inv M agg" and "entry_inv (line_values N p n) (branch_values N p n) e"
    and "line_values N p n \<noteq> {} \<or> (\<exists>i. branch_values N p n i \<noteq> {})"
    and "\<And>q k. q \<noteq> p \<or> k \<noteq> n \<Longrightarrow> line_values N q k = line_values M q k \<and> branch_values N q k = branch_values M q k"
  shows "agg_inv N (set_line_entry p n e agg)"
proof -
  have "entry_inv (line_values N q k) (branch_values N q k) (line_entry (set_line_entry p n e agg) q k) \<and>
      (look (set_line_entry p n e agg) q k \<noteq> None \<longleftrightarrow> line_values N q k \<noteq> {} \<or> (\<exists>i. branch_values N q k i \<noteq> {}))" for q k
  proof (cases "q = p \<and> k = n")
    case True
    then show ?thesis using assms(2,3) by (simp add: line_entry_look look_set)
  next
    case False
    then have "line_values N q k = line_values M q k" "branch_values N q k = branch_values M q k" using assms(4) by auto
    moreover have "look (set_line_entry p n e agg) q k = look agg q k" using False by (auto simp: look_set)
    ultimately show ?thesis using assms(1) by (simp add: agg_inv_def line_entry_look)
  qed
  then show ?thesis using assms(1) agg_ok_set by (auto simp: agg_inv_def)
qed

lemma merge_line_inv:
  assumes "agg_inv M agg"
  shows "agg_inv (insert (MeasuredLine p n h) M) (fst (aggregate_add_line p n h run (agg, ds)))"
proof -
  have "entry_inv (line_values M p n) (branch_values M p n) (line_entry agg p n)" using assms by (simp add: agg_inv_def)
  then have "entry_inv (insert h (line_values M p n)) (branch_values M p n)
      (line_entry agg p n\<lparr>la_runs := bt_put run h (la_runs (line_entry agg p n)), la_seen := True,
         la_covered := la_covered (line_entry agg p n) \<or> h\<rparr>)"
    by (auto simp: entry_inv_def runs_ok_put)
  then show ?thesis unfolding aggregate_add_line_def Let_def prod.case fst_conv
    by (intro agg_inv_set [OF assms]) (auto simp: values_insert)
qed

lemma merge_branch_inv:
  assumes "agg_inv M agg"
  shows "agg_inv (insert (MeasuredBranch p n i h) M) (fst (aggregate_add_branch p n i h run (agg, ds)))"
proof -
  define e where "e = line_entry agg p n"
  define b where "b = branch_entry e i"
  have e: "entry_inv (line_values M p n) (branch_values M p n) e" using assms by (simp add: agg_inv_def e_def)
  then have b: "(ba_covered b \<longleftrightarrow> True \<in> branch_values M p n i) \<and> runs_ok (ba_runs b) (branch_values M p n i)"
    unfolding b_def by (rule branch_entry_inv)
  have "branches_inv ((branch_values M p n)(i := insert h (branch_values M p n i)))
      (bt_put i \<lparr>ba_covered = ba_covered b \<or> h, ba_runs = bt_put run h (ba_runs b)\<rparr> (la_branches e))"
    using e b by (simp add: entry_inv_def branches_inv_def runs_ok_put disj_commute)
  then have "entry_inv (line_values M p n) ((branch_values M p n)(i := insert h (branch_values M p n i)))
      (e\<lparr>la_branches := bt_put i \<lparr>ba_covered = ba_covered b \<or> h, ba_runs = bt_put run h (ba_runs b)\<rparr> (la_branches e)\<rparr>)"
    using e by (simp add: entry_inv_def)
  then show ?thesis unfolding aggregate_add_branch_def Let_def prod.case fst_conv e_def [symmetric] branch_entry_def [symmetric] b_def [symmetric]
    by (intro agg_inv_set [OF assms]) (auto simp: values_insert)
qed

lemma merge_inv: "agg_inv M agg \<Longrightarrow> agg_inv (insert m M) (fst (merge run m (agg, ds)))"
  by (cases m) (auto simp only: merge.simps merge_line_inv merge_branch_inv)

lemma act_inv: "agg_inv M (fst st) \<Longrightarrow> agg_inv (set (measurements [a]) \<union> M) (fst (act run a st))"
proof (cases a)
  case (Note d)
  moreover assume "agg_inv M (fst st)"
  ultimately show ?thesis by (cases st) simp
next
  case (Merge m)
  moreover assume "agg_inv M (fst st)"
  ultimately show ?thesis using merge_inv [of M "fst st" m run "snd st"] by simp
qed

subsection \<open>Contradictions\<close>

definition line_conflict :: "string \<Rightarrow> u32 \<Rightarrow> string" where
  "line_conflict p n = ''coverage line '' @ decimal (unat n) @ '' for '' @ quoted p @
     '' has contradictory run values; unioning coverage''"

definition branch_conflict :: "string \<Rightarrow> u32 \<Rightarrow> string \<Rightarrow> string" where
  "branch_conflict p n i = ''coverage branch '' @ quoted i @ '' at line '' @ decimal (unat n) @ '' for '' @ quoted p @
     '' has contradictory run values; unioning coverage''"

text \<open>A diagnostic for each line and each branch with both values.\<close>

definition conflicts :: "measurement set \<Rightarrow> string set" where
  "conflicts M = {line_conflict p n | p n. line_values M p n = UNIV} \<union>
     {branch_conflict p n i | p n i. branch_values M p n i = UNIV}"

lemma contradicts_iff:
  assumes "runs_ok runs vs" "vs \<noteq> UNIV"
  shows "contradicts runs h \<longleftrightarrow> (\<not> h) \<in> vs"
proof -
  have "contradicts runs h \<longleftrightarrow> (\<exists>x \<in> set runs. snd x = (\<not> h))"
    unfolding contradicts_def list_ex_iff by (intro bex_cong refl) (auto simp: split_beta)
  moreover have "(\<exists>x \<in> set runs. snd x = b) \<longleftrightarrow> b \<in> snd ` set runs" for b by (simp only: image_iff) (rule bex_cong, auto)
  ultimately have "contradicts runs h \<longleftrightarrow> (\<not> h) \<in> snd ` set runs" by (rule trans)
  moreover have "(\<not> h) \<in> snd ` set runs" if "(\<not> h) \<in> vs"
  proof -
    from that obtain r where "r \<in> set runs" using assms(1) by (cases runs) (auto simp: runs_ok_def)
    then have "snd r \<in> vs" using assms(1) by (auto simp: runs_ok_def)
    moreover have "h \<notin> vs"
    proof
      assume "h \<in> vs"
      with that have "b \<in> vs" for b by (cases "b = h") auto
      with assms(2) show False by blast
    qed
    ultimately have "snd r = (\<not> h)" by (cases "snd r"; cases h) simp_all
    with \<open>r \<in> set runs\<close> show ?thesis by force
  qed
  ultimately show ?thesis using assms(1) by (auto simp: runs_ok_def)
qed

lemma full_insert: "insert h vs = UNIV \<longleftrightarrow> vs = UNIV \<or> (\<not> h) \<in> vs" for vs :: "bool set"
proof
  assume "insert h vs = UNIV"
  then have "(\<not> h) \<in> insert h vs" by simp
  then show "vs = UNIV \<or> (\<not> h) \<in> vs" by auto
next
  assume "vs = UNIV \<or> (\<not> h) \<in> vs"
  then have "b \<in> insert h vs" for b by (cases "b = h") auto
  then show "insert h vs = UNIV" by auto
qed

lemma conflicts_mono: "M \<subseteq> N \<Longrightarrow> conflicts M \<subseteq> conflicts N"
proof -
  assume "M \<subseteq> N"
  then have "line_values M p n \<subseteq> line_values N p n" "branch_values M p n i \<subseteq> branch_values N p n i" for p n i
    by (auto simp: line_values_def branch_values_def)
  then show ?thesis unfolding conflicts_def by blast
qed

lemma full_values:
  "line_values (insert (MeasuredLine p n h) M) q k = UNIV \<longleftrightarrow>
     line_values M q k = UNIV \<or> q = p \<and> k = n \<and> insert h (line_values M p n) = UNIV"
  "branch_values (insert (MeasuredBranch p n i h) M) q k j = UNIV \<longleftrightarrow>
     branch_values M q k j = UNIV \<or> q = p \<and> k = n \<and> j = i \<and> insert h (branch_values M p n i) = UNIV"
  by (auto simp: values_insert)

lemma conflicts_line: "conflicts (insert (MeasuredLine p n h) M) =
    conflicts M \<union> (if insert h (line_values M p n) = UNIV then {line_conflict p n} else {})"
  unfolding conflicts_def full_values values_insert(2) by (simp split: if_split) blast

lemma conflicts_branch: "conflicts (insert (MeasuredBranch p n i h) M) =
    conflicts M \<union> (if insert h (branch_values M p n i) = UNIV then {branch_conflict p n i} else {})"
  unfolding conflicts_def full_values values_insert(3) by (simp split: if_split) blast

lemma merge_notes:
  assumes "agg_inv M agg" and "conflicts M \<subseteq> set ds"
  shows "set (snd (merge run m (agg, ds))) = set ds \<union> conflicts (insert m M)"
proof (cases m)
  case (MeasuredLine p n h)
  have r: "runs_ok (la_runs (line_entry agg p n)) (line_values M p n)" using assms(1) by (simp add: agg_inv_def entry_inv_def)
  have c: "line_conflict p n \<in> set ds" if "line_values M p n = UNIV" using assms(2) that by (auto simp: conflicts_def)
  have "snd (merge run m (agg, ds)) = (if contradicts (la_runs (line_entry agg p n)) h then ds @ [line_conflict p n] else ds)"
    by (simp only: MeasuredLine merge.simps aggregate_add_line_def Let_def prod.case snd_conv line_conflict_def)
  then show ?thesis using r c contradicts_iff [OF r, of h] assms(2)
    by (cases "line_values M p n = UNIV") (auto simp: MeasuredLine conflicts_line full_insert)
next
  case (MeasuredBranch p n i h)
  define e where "e = line_entry agg p n"
  define b where "b = branch_entry e i"
  have "entry_inv (line_values M p n) (branch_values M p n) e" using assms by (simp add: agg_inv_def e_def)
  then have r: "runs_ok (ba_runs b) (branch_values M p n i)" using branch_entry_inv by (simp add: b_def)
  have c: "branch_conflict p n i \<in> set ds" if "branch_values M p n i = UNIV"
    using assms(2) that unfolding conflicts_def by blast
  have "snd (merge run m (agg, ds)) = (if contradicts (ba_runs b) h then ds @ [branch_conflict p n i] else ds)"
    by (simp only: MeasuredBranch merge.simps aggregate_add_branch_def Let_def prod.case snd_conv branch_conflict_def e_def b_def branch_entry_def)
  then show ?thesis using r c contradicts_iff [OF r, of h] assms(2)
    by (cases "branch_values M p n i = UNIV") (auto simp: MeasuredBranch conflicts_branch full_insert)
qed

subsection \<open>Runs of actions\<close>

definition noted :: "import_action list \<Rightarrow> string set" where
  "noted as = {d. Note d \<in> set as}"

abbreviation run_all :: "(nat \<times> import_action) list \<Rightarrow> import_state \<Rightarrow> import_state" where
  "run_all rs st \<equiv> fold (\<lambda>(k, a). act k a) rs st"

lemma run_all_spec:
  fixes rs :: "(nat \<times> import_action) list"
  assumes "agg_inv M (fst st)" and "conflicts M \<subseteq> set (snd st)"
  defines "N \<equiv> set (measurements (map snd rs)) \<union> M"
  shows "agg_inv N (fst (run_all rs st))"
    and "set (snd (run_all rs st)) = set (snd st) \<union> noted (map snd rs) \<union> conflicts N"
proof -
  have "agg_inv (set (measurements (map snd rs)) \<union> M) (fst (run_all rs st)) \<and>
      set (snd (run_all rs st)) = set (snd st) \<union> noted (map snd rs) \<union> conflicts (set (measurements (map snd rs)) \<union> M)"
    using assms(1,2)
  proof (induction rs arbitrary: st M)
    case Nil
    then show ?case by (auto simp: noted_def)
  next
    case (Cons r rs)
    obtain k a where r: "r = (k, a)" by (cases r)
    let ?N = "set (measurements [a]) \<union> M"
    have inv: "agg_inv ?N (fst (act k a st))" by (rule act_inv) (rule Cons.prems(1))
    have ds: "set (snd (act k a st)) = set (snd st) \<union> noted [a] \<union> conflicts ?N"
    proof (cases a)
      case (Note d)
      then show ?thesis using Cons.prems by (cases st) (auto simp: noted_def)
    next
      case (Merge m)
      then show ?thesis using merge_notes [of M "fst st" "snd st" k m] Cons.prems by (simp add: noted_def)
    qed
    have "measurements (a # map snd rs) = measurements [a] @ measurements (map snd rs)"
      by (metis measurements_simps(4) append_Cons append_Nil)
    moreover have "noted (a # map snd rs) = noted [a] \<union> noted (map snd rs)" by (auto simp: noted_def)
    moreover have "conflicts ?N \<subseteq> conflicts (set (measurements (map snd rs)) \<union> ?N)" by (rule conflicts_mono) auto
    ultimately show ?case using Cons.IH [OF inv] ds by (simp add: r Un_assoc Un_left_commute Un_commute) blast
  qed
  then show "agg_inv N (fst (run_all rs st))"
    and "set (snd (run_all rs st)) = set (snd st) \<union> noted (map snd rs) \<union> conflicts N"
    by (simp_all add: N_def)
qed

text \<open>What the inputs merge, and the loop over them from an empty aggregate.\<close>

definition merged :: "import_externals \<Rightarrow> source_index \<Rightarrow> coverage_source list \<Rightarrow> measurement set" where
  "merged x index inputs = set (concat (map (input_measures x index) inputs))"

lemma tagged_runs:
  "fold (\<lambda>(k, i). fold (act k) (A i)) zs st = run_all (concat (map (\<lambda>(k, i). map (Pair k) (A i)) zs)) st"
proof -
  have "fold (act k) as st = run_all (map (Pair k) as) st" for k as st by (induction as arbitrary: st) auto
  then show ?thesis by (induction zs arbitrary: st) auto
qed

lemma import_inputs_spec:
  "\<exists>D. \<forall>inputs f ds. \<exists>agg ds'. import_inputs x index inputs 0 f ([], ds) = (joined f (map (input_flags x index) inputs), agg, ds') \<and>
     agg_inv (merged x index inputs) agg \<and>
     set ds' = set ds \<union> (\<Union>i \<in> set inputs. D i) \<union> conflicts (merged x index inputs)"
proof -
  obtain A where A: "\<And>input. measurements (A input) = input_measures x index input"
    "\<And>inputs run f st. import_inputs x index inputs run f st = (joined f (map (input_flags x index) inputs),
         fold (\<lambda>(k, input). fold (act k) (A input)) (zip [run..<run + length inputs] inputs) st)"
    using import_inputs_runs by blast
  have "\<exists>agg ds'. import_inputs x index inputs 0 f ([], ds) = (joined f (map (input_flags x index) inputs), agg, ds') \<and>
     agg_inv (merged x index inputs) agg \<and>
     set ds' = set ds \<union> (\<Union>i \<in> set inputs. noted (A i)) \<union> conflicts (merged x index inputs)" for inputs f ds
  proof -
    let ?rs = "concat (map (\<lambda>(k, i). map (Pair k) (A i)) (zip [0..<length inputs] inputs))"
    have "map snd (concat (map (\<lambda>(k, i). map (Pair k) (A i)) zs)) = concat (map (A \<circ> snd) zs)" for zs :: "(nat \<times> coverage_source) list"
      by (induction zs) (auto simp: comp_def)
    then have acts: "map snd ?rs = concat (map A inputs)"
      by (simp flip: map_map)
    have "measurements (concat xs) = concat (map measurements xs)" for xs by (induction xs) simp_all
    then have m: "set (measurements (map snd ?rs)) = merged x index inputs"
      by (simp add: acts merged_def comp_def A(1))
    have n: "noted (map snd ?rs) = (\<Union>i \<in> set inputs. noted (A i))" by (auto simp: acts noted_def)
    have "conflicts {} \<subseteq> set ds" by (auto simp: conflicts_def line_values_def branch_values_def)
    with run_all_spec [of "{}" "([], ds)" ?rs] show ?thesis
      by (cases "run_all ?rs ([], ds)") (simp add: A(2) tagged_runs m n agg_inv_empty)
  qed
  then show ?thesis by blast
qed

subsection \<open>Equal measurements, equal reports\<close>

definition erase_line :: "line_aggregate \<Rightarrow> line_aggregate" where
  "erase_line e = e\<lparr>la_runs := [], la_branches := map (\<lambda>(i, b). (i, b\<lparr>ba_runs := []\<rparr>)) (la_branches e)\<rparr>"

definition erase :: "coverage_aggregate \<Rightarrow> coverage_aggregate" where
  "erase agg = map (\<lambda>(p, lines). (p, map (\<lambda>(n, e). (n, erase_line e)) lines)) agg"

lemma keys_map [simp]: "map fst (map (\<lambda>(k, v). (k, f v)) m) = map fst m" "map (fst \<circ> (\<lambda>(k, v). (k, f v))) m = map fst m"
  by (induction m) auto

lemma erase_entry:
  assumes "entry_inv ls bs e" "entry_inv ls bs e'"
  shows "erase_line e = erase_line e'"
proof -
  let ?f = "\<lambda>b. b\<lparr>ba_runs := []\<rparr>"
  have "map_option ?f (map_of (la_branches e) i) = map_option ?f (map_of (la_branches e') i)" for i
  proof -
    have "branch_inv (bs i) (map_of (la_branches e) i)" "branch_inv (bs i) (map_of (la_branches e') i)"
      using assms by (simp_all add: entry_inv_def branches_inv_def)
    then show ?thesis by (cases "map_of (la_branches e) i"; cases "map_of (la_branches e') i") simp_all
  qed
  moreover have "bt_ok (la_branches e)" "bt_ok (la_branches e')" using assms by (simp_all add: entry_inv_def branches_inv_def)
  ultimately have "map (\<lambda>(i, b). (i, ?f b)) (la_branches e) = map (\<lambda>(i, b). (i, ?f b)) (la_branches e')"
    by (intro bt_ext) (simp_all add: map_of_map fun_eq_iff)
  moreover have "la_seen e = la_seen e'" "la_covered e = la_covered e'" using assms by (simp_all add: entry_inv_def)
  ultimately show ?thesis by (simp add: erase_line_def)
qed

lemma erase_eq:
  assumes "agg_inv M a" "agg_inv M b"
  shows "erase a = erase b"
proof -
  let ?g = "map (\<lambda>(n, e). (n, erase_line e))"
  have look_eq: "map_option erase_line (look a p n) = map_option erase_line (look b p n)" for p n
  proof (cases "look a p n")
    case None
    then have "\<not> look b p n \<noteq> None" using assms unfolding agg_inv_def by blast
    with None show ?thesis by simp
  next
    case (Some e)
    then obtain e' where e': "look b p n = Some e'" using assms unfolding agg_inv_def by blast
    have "entry_inv (line_values M p n) (branch_values M p n) (line_entry a p n)"
      "entry_inv (line_values M p n) (branch_values M p n) (line_entry b p n)" using assms by (simp_all add: agg_inv_def)
    then have "erase_line (line_entry a p n) = erase_line (line_entry b p n)" by (rule erase_entry)
    with Some e' show ?thesis by (simp add: line_entry_look)
  qed
  have nonempty: "map_of c p \<noteq> None \<longleftrightarrow> (\<exists>n. look c p n \<noteq> None)" if "agg_inv M c" for c p
  proof
    assume "map_of c p \<noteq> None"
    then obtain lines where l: "map_of c p = Some lines" by auto
    with that obtain n e ls where "lines = (n, e) # ls" by (cases lines) (auto simp: agg_inv_def agg_ok_def)
    with l show "\<exists>n. look c p n \<noteq> None" by (auto simp: look_def)
  qed (auto simp: look_def bind_eq_Some_conv)
  have "map_option ?g (map_of a p) = map_option ?g (map_of b p)" for p
  proof (cases "map_of a p")
    case None
    have "look b p n = None" for n using look_eq [of p n] None by (simp add: look_def)
    then show ?thesis using None nonempty [OF assms(2), of p] by simp
  next
    case (Some lines)
    then obtain n where "look a p n \<noteq> None" using nonempty [OF assms(1), of p] by auto
    with look_eq [of p n] have "look b p n \<noteq> None" by (metis option.map_disc_iff)
    then obtain lines' where l': "map_of b p = Some lines'" by (auto simp: look_def bind_eq_Some_conv)
    have "map_of (?g lines) n = map_of (?g lines') n" for n
      using look_eq [of p n] Some l' by (simp add: look_def map_of_map)
    moreover have "bt_ok lines" "bt_ok lines'" using assms Some l' by (simp_all add: agg_inv_def agg_ok_def)
    ultimately have "?g lines = ?g lines'" by (intro bt_ext) (simp_all add: fun_eq_iff)
    then show ?thesis using Some l' by simp
  qed
  moreover have "bt_ok a" "bt_ok b" using assms by (simp_all add: agg_inv_def agg_ok_def)
  ultimately show ?thesis unfolding erase_def by (intro bt_ext) (simp_all add: map_of_map fun_eq_iff)
qed

lemma erase_counter: "line_branch_counter (erase_line e) = line_branch_counter e"
proof -
  have "length (filter (\<lambda>(_, b). ba_covered b) (map (\<lambda>(i, b). (i, b\<lparr>ba_runs := []\<rparr>)) bs)) = length (filter (\<lambda>(_, b). ba_covered b) bs)"
    for bs :: "(string, branch_aggregate) btree" by (induction bs) auto
  then show ?thesis by (simp add: line_branch_counter_def erase_line_def)
qed

lemma erase_file_lines: "file_lines (map (\<lambda>(n, e). (n, erase_line e)) lines) = file_lines lines"
proof (induction lines)
  case (Cons l lines)
  obtain n e where "l = (n, e)" by (cases l)
  moreover have "la_seen (erase_line e) = la_seen e" "la_covered (erase_line e) = la_covered e"
    "la_branches (erase_line e) = [] \<longleftrightarrow> la_branches e = []" by (simp_all add: erase_line_def)
  ultimately show ?case using Cons.IH by (simp add: file_lines_def erase_counter)
qed simp

lemma erase_files: "aggregate_files (erase agg) = aggregate_files agg"
  by (induction agg) (auto simp: aggregate_files_def erase_def erase_file_lines)

lemma erase_lines: "aggregate_lines (erase agg) = map erase_line (aggregate_lines agg)"
  by (induction agg) (auto simp: aggregate_lines_def erase_def)

lemma erase_line_counter: "line_counter (erase agg) = line_counter agg"
proof -
  have "length (filter (\<lambda>l. P (la_seen l) (la_covered l)) (map erase_line ls)) = length (filter (\<lambda>l. P (la_seen l) (la_covered l)) ls)" for P ls
    by (induction ls) (auto simp: erase_line_def)
  from this [of "\<lambda>s _. s"] this [of "\<lambda>s c. s \<and> c"] show ?thesis by (simp add: line_counter_def erase_lines)
qed

lemma branch_counter_eq: "branch_counter agg =
    (let bs = concat (map (\<lambda>l. map snd (la_branches l)) (aggregate_lines agg)) in
     \<lparr>eligible = of_nat (length bs), covered = of_nat (length (filter ba_covered bs))\<rparr>)"
proof -
  have "fold (\<lambda>b c. \<lparr>eligible = eligible c + 1, covered = (if ba_covered b then covered c + 1 else covered c)\<rparr>) bs
      \<lparr>eligible = e, covered = k\<rparr> = \<lparr>eligible = e + of_nat (length bs), covered = k + of_nat (length (filter ba_covered bs))\<rparr>"
    for bs e k by (induction bs arbitrary: e k) (simp_all add: add.assoc)
  from this [of _ 0 0] show ?thesis by (simp add: branch_counter_def Let_def)
qed

lemma erase_branch_counter: "branch_counter (erase agg) = branch_counter agg"
proof -
  have "length (concat (map (\<lambda>l. map snd (la_branches l)) (map erase_line ls))) = length (concat (map (\<lambda>l. map snd (la_branches l)) ls))"
    "length (filter ba_covered (concat (map (\<lambda>l. map snd (la_branches l)) (map erase_line ls)))) =
       length (filter ba_covered (concat (map (\<lambda>l. map snd (la_branches l)) ls)))" for ls
  proof -
    have "length (filter ba_covered (map snd (map (\<lambda>(i, b). (i, b\<lparr>ba_runs := []\<rparr>)) bs))) = length (filter ba_covered (map snd bs))"
      for bs :: "(string, branch_aggregate) btree" by (induction bs) auto
    then show "length (concat (map (\<lambda>l. map snd (la_branches l)) (map erase_line ls))) = length (concat (map (\<lambda>l. map snd (la_branches l)) ls))"
      "length (filter ba_covered (concat (map (\<lambda>l. map snd (la_branches l)) (map erase_line ls)))) =
       length (filter ba_covered (concat (map (\<lambda>l. map snd (la_branches l)) ls)))"
      by (induction ls) (auto simp: erase_line_def simp del: map_map)
  qed
  then show ?thesis by (simp only: branch_counter_eq erase_lines Let_def)
qed

text \<open>Files and counters are functions of the set of merged measurements.\<close>

lemma reports_agree:
  assumes "agg_inv M a" "agg_inv M b"
  shows "aggregate_files a = aggregate_files b" and "line_counter a = line_counter b" and "branch_counter a = branch_counter b"
  using erase_eq [OF assms] erase_files erase_line_counter erase_branch_counter by metis+

end
