(* ===== verification/CoverageCounts.thy ===== *)
theory CoverageCounts
  imports CoverageMerge Assessments
begin

text \<open>
  Counting over the aggregate: its counters are the numbers of distinct lines and branches among the merged
  measurements, its files list these lines with their hits, and the totals that validation computes from the
  files are the counters.
\<close>

subsection \<open>Counting entries\<close>

definition flat :: "('k, ('j, 'v) btree) btree \<Rightarrow> (('k \<times> 'j) \<times> 'v) list" where
  "flat m = concat (map (\<lambda>(k, js). map (\<lambda>(j, v). ((k, j), v)) js) m)"

lemma mem_flat: "((k, j), v) \<in> set (flat m) \<longleftrightarrow> (\<exists>js. (k, js) \<in> set m \<and> (j, v) \<in> set js)"
  by (auto simp: flat_def) force

lemma distinct_flat:
  assumes "distinct (map fst m)" and "\<And>k js. (k, js) \<in> set m \<Longrightarrow> distinct (map fst js)"
  shows "distinct (map fst (flat m))"
  using assms
proof (induction m)
  case (Cons x m)
  obtain k js where x: "x = (k, js)" by (cases x)
  let ?head = "map (\<lambda>(j, v). ((k, j), v)) js"
  have "map fst ?head = map (Pair k) (map fst js)" by (induction js) auto
  moreover have "distinct (map (Pair k) (map fst js))" using Cons.prems(2) [of k js] x by (simp add: distinct_map inj_on_def)
  ultimately have "distinct (map fst ?head)" by (simp only:)
  moreover have "set (map fst ?head) \<inter> set (map fst (flat m)) = {}"
    using Cons.prems(1) x by (force simp: mem_flat)
  moreover have "distinct (map fst (flat m))" using Cons.prems by (intro Cons.IH) auto
  moreover have "flat (x # m) = ?head @ flat m" by (simp add: flat_def x)
  ultimately show ?case by (simp only: map_append distinct_append)
qed (simp add: flat_def)

lemma count_keys: "distinct (map fst m) \<Longrightarrow> length (filter P (map snd m)) = card {k. \<exists>v. (k, v) \<in> set m \<and> P v}"
proof -
  assume d: "distinct (map fst m)"
  have "length (filter P (map snd m)) = length (map fst (filter (\<lambda>x. P (snd x)) m))" by (simp add: filter_map comp_def)
  also have "\<dots> = card (set (map fst (filter (\<lambda>x. P (snd x)) m)))"
    using d by (intro distinct_card [symmetric] distinct_map_filter)
  also have "set (map fst (filter (\<lambda>x. P (snd x)) m)) = {k. \<exists>v. (k, v) \<in> set m \<and> P v}" by force
  finally show ?thesis .
qed

lemma agg_maps:
  assumes "agg_ok agg"
  shows "distinct (map fst (flat agg))" and "((p, n), e) \<in> set (flat agg) \<longleftrightarrow> look agg p n = Some e"
proof -
  have ok: "bt_ok agg" "(k, js) \<in> set agg \<Longrightarrow> bt_ok js" for k js
    using assms bt_get_iff [of agg] by (auto simp: agg_ok_def)
  then show "distinct (map fst (flat agg))" by (intro distinct_flat bt_distinct) auto
  show "((p, n), e) \<in> set (flat agg) \<longleftrightarrow> look agg p n = Some e"
    unfolding mem_flat look_def bind_eq_Some_conv using bt_get_iff [OF ok(1)] bt_get_iff [OF ok(2)] by metis
qed

lemma aggregate_lines_flat: "aggregate_lines agg = map snd (flat agg)"
  by (induction agg) (auto simp: aggregate_lines_def flat_def comp_def case_prod_beta)

lemma count_lines:
  assumes "agg_ok agg"
  shows "length (filter P (aggregate_lines agg)) = card {(p, n). \<exists>e. look agg p n = Some e \<and> P e}"
  unfolding aggregate_lines_flat count_keys [OF agg_maps(1) [OF assms]]
  by (rule arg_cong [of _ _ card]) (auto simp: agg_maps(2) [OF assms])

definition flat_branches :: "coverage_aggregate \<Rightarrow> (((string \<times> u32) \<times> string) \<times> branch_aggregate) list" where
  "flat_branches agg = flat (map (\<lambda>(k, e). (k, la_branches e)) (flat agg))"

lemma branches_flat: "concat (map (\<lambda>l. map snd (la_branches l)) (aggregate_lines agg)) = map snd (flat_branches agg)"
proof -
  have "concat (map (\<lambda>l. map snd (la_branches l)) (map snd m)) = map snd (flat (map (\<lambda>(k, e). (k, la_branches e)) m))" for m :: "((string \<times> u32) \<times> line_aggregate) list"
    by (induction m) (auto simp: flat_def comp_def case_prod_beta)
  then show ?thesis by (simp add: flat_branches_def aggregate_lines_flat)
qed

lemma look_entry: "agg_inv M agg \<Longrightarrow> look agg p n = Some e \<Longrightarrow> entry_inv (line_values M p n) (branch_values M p n) e"
proof -
  assume "agg_inv M agg" "look agg p n = Some e"
  moreover from this(1) have "entry_inv (line_values M p n) (branch_values M p n) (line_entry agg p n)" by (simp add: agg_inv_def)
  ultimately show ?thesis by (simp add: line_entry_look)
qed

lemma count_branches:
  assumes "agg_inv M agg"
  shows "length (filter P (map snd (flat_branches agg))) =
     card {((p, n), i). \<exists>e b. look agg p n = Some e \<and> map_of (la_branches e) i = Some b \<and> P b}"
proof -
  have ok: "agg_ok agg" using assms by (simp add: agg_inv_def)
  have b: "bt_ok (la_branches e)" if "look agg p n = Some e" for p n e
    using look_entry [OF assms that] by (simp add: entry_inv_def branches_inv_def)
  have keys: "distinct (map fst (flat_branches agg))" unfolding flat_branches_def
  proof (rule distinct_flat)
    show "distinct (map fst (map (\<lambda>(k, e). (k, la_branches e)) (flat agg)))" using agg_maps(1) [OF ok] by simp
    fix k js assume "(k, js) \<in> set (map (\<lambda>(k, e). (k, la_branches e)) (flat agg))"
    then obtain e where "(k, e) \<in> set (flat agg)" "js = la_branches e" by auto
    then show "distinct (map fst js)" using b agg_maps(2) [OF ok] bt_distinct by (cases k) blast
  qed
  have "(((p, n), i), br) \<in> set (flat_branches agg) \<longleftrightarrow> (\<exists>e. look agg p n = Some e \<and> map_of (la_branches e) i = Some br)"
    for p n i br
  proof -
    have "(((p, n), i), br) \<in> set (flat_branches agg) \<longleftrightarrow> (\<exists>e. ((p, n), e) \<in> set (flat agg) \<and> (i, br) \<in> set (la_branches e))"
      by (auto simp: flat_branches_def mem_flat [where m = "map _ _"])
    also have "\<dots> \<longleftrightarrow> (\<exists>e. look agg p n = Some e \<and> (i, br) \<in> set (la_branches e))" by (simp only: agg_maps(2) [OF ok])
    also have "\<dots> \<longleftrightarrow> (\<exists>e. look agg p n = Some e \<and> map_of (la_branches e) i = Some br)"
      using bt_get_iff [OF b] by (intro ex_cong1 conj_cong refl) auto
    finally show ?thesis .
  qed
  then have "{k. \<exists>v. (k, v) \<in> set (flat_branches agg) \<and> P v} =
      {((p, n), i). \<exists>e b. look agg p n = Some e \<and> map_of (la_branches e) i = Some b \<and> P b}"
    by (simp add: set_eq_iff split_paired_all) blast
  then show ?thesis by (simp only: count_keys [OF keys])
qed

text \<open>The distinct lines and branches with a measurement, and those with a hit.\<close>

definition measured_at :: "measurement set \<Rightarrow> (string \<times> u32) set" where
  "measured_at M = {(p, n). line_values M p n \<noteq> {}}"

definition hit_at :: "measurement set \<Rightarrow> (string \<times> u32) set" where
  "hit_at M = {(p, n). True \<in> line_values M p n}"

definition branches_at :: "measurement set \<Rightarrow> ((string \<times> u32) \<times> string) set" where
  "branches_at M = {((p, n), i). branch_values M p n i \<noteq> {}}"

definition branch_hits_at :: "measurement set \<Rightarrow> ((string \<times> u32) \<times> string) set" where
  "branch_hits_at M = {((p, n), i). True \<in> branch_values M p n i}"

lemma line_counts:
  assumes "agg_inv M agg"
  shows "length (filter la_seen (aggregate_lines agg)) = card (measured_at M)"
    and "length (filter (\<lambda>l. la_seen l \<and> la_covered l) (aggregate_lines agg)) = card (hit_at M)"
proof -
  have ok: "agg_ok agg" using assms by (simp add: agg_inv_def)
  have seen: "look agg p n \<noteq> None" if "line_values M p n \<noteq> {}" for p n using assms that unfolding agg_inv_def by blast
  have e: "(la_seen e \<longleftrightarrow> line_values M p n \<noteq> {}) \<and> (la_covered e \<longleftrightarrow> True \<in> line_values M p n)" if "look agg p n = Some e" for p n e
    using look_entry [OF assms that] by (simp add: entry_inv_def)
  have "(\<exists>e. look agg p n = Some e \<and> la_seen e) \<longleftrightarrow> line_values M p n \<noteq> {}"
    "(\<exists>e. look agg p n = Some e \<and> la_seen e \<and> la_covered e) \<longleftrightarrow> True \<in> line_values M p n" for p n
    using e seen by (blast, metis (no_types, lifting) empty_iff not_None_eq)
  then show "length (filter la_seen (aggregate_lines agg)) = card (measured_at M)"
    "length (filter (\<lambda>l. la_seen l \<and> la_covered l) (aggregate_lines agg)) = card (hit_at M)"
    by (simp_all add: count_lines [OF ok] measured_at_def hit_at_def)
qed

lemma branch_counts:
  assumes "agg_inv M agg"
  shows "length (flat_branches agg) = card (branches_at M)"
    and "length (filter ba_covered (map snd (flat_branches agg))) = card (branch_hits_at M)"
proof -
  have seen: "look agg p n \<noteq> None" if "branch_values M p n i \<noteq> {}" for p n i using assms that unfolding agg_inv_def by blast
  have e: "branch_inv (branch_values M p n i) (map_of (la_branches e) i)" if "look agg p n = Some e" for p n e i
    using look_entry [OF assms that] by (simp add: entry_inv_def branches_inv_def)
  have some: "(\<exists>e. look agg p n = Some e \<and> (\<exists>b. map_of (la_branches e) i = Some b)) \<longleftrightarrow> branch_values M p n i \<noteq> {}" for p n i
  proof
    assume "\<exists>e. look agg p n = Some e \<and> (\<exists>b. map_of (la_branches e) i = Some b)"
    then show "branch_values M p n i \<noteq> {}" using e [of p n _ i] by fastforce
  next
    assume v: "branch_values M p n i \<noteq> {}"
    then obtain e' where "look agg p n = Some e'" using seen by blast
    with e [OF this, of i] v show "\<exists>e. look agg p n = Some e \<and> (\<exists>b. map_of (la_branches e) i = Some b)"
      by (cases "map_of (la_branches e') i") auto
  qed
  have hit: "(\<exists>e. look agg p n = Some e \<and> (\<exists>b. map_of (la_branches e) i = Some b \<and> ba_covered b)) \<longleftrightarrow> True \<in> branch_values M p n i" for p n i
    using some [of p n i] e [of p n _ i] by (metis branch_inv.simps(2) empty_iff)
  show "length (flat_branches agg) = card (branches_at M)"
    using count_branches [OF assms, of "\<lambda>_. True"] by (simp add: some branches_at_def)
  show "length (filter ba_covered (map snd (flat_branches agg))) = card (branch_hits_at M)"
    using count_branches [OF assms, of ba_covered] by (simp add: hit branch_hits_at_def)
qed

lemma counters:
  assumes "agg_inv M agg"
  shows "line_counter agg = \<lparr>eligible = of_nat (card (measured_at M)), covered = of_nat (card (hit_at M))\<rparr>"
    and "branch_counter agg = \<lparr>eligible = of_nat (card (branches_at M)), covered = of_nat (card (branch_hits_at M))\<rparr>"
  using line_counts [OF assms] branch_counts [OF assms]
  by (simp_all add: line_counter_def branch_counter_eq branches_flat)

subsection \<open>The files of the report\<close>

definition line_report :: "u32 \<times> line_aggregate \<Rightarrow> line_coverage" where
  "line_report = (\<lambda>(n, l). \<lparr>covered_line = n, line_hit = (if la_seen l then Some (la_covered l) else None),
     line_branches = line_branch_counter l\<rparr>)"

definition file_report_of :: "string \<times> file_aggregate \<Rightarrow> file_coverage" where
  "file_report_of = (\<lambda>(p, lines). \<lparr>coverage_path = p, coverage_lines = map line_report lines\<rparr>)"

lemma entry_reported:
  assumes "agg_inv M agg" "look agg p n = Some e"
  shows "la_seen e \<or> la_branches e \<noteq> []"
proof (rule ccontr)
  assume "\<not> (la_seen e \<or> la_branches e \<noteq> [])"
  moreover have "entry_inv (line_values M p n) (branch_values M p n) e" by (rule look_entry [OF assms])
  moreover have "line_values M p n \<noteq> {} \<or> (\<exists>i. branch_values M p n i \<noteq> {})" using assms unfolding agg_inv_def by blast
  ultimately show False by (auto simp: entry_inv_def branches_inv_def)
qed

lemma files_eq:
  assumes "agg_inv M agg"
  shows "aggregate_files agg = map file_report_of agg"
proof -
  have "(if file_lines lines = [] then None else Some \<lparr>coverage_path = p, coverage_lines = file_lines lines\<rparr>) =
      Some (file_report_of (p, lines))" if m: "(p, lines) \<in> set agg" for p lines
  proof -
    have ok: "map_of agg p = Some lines" "bt_ok lines" "lines \<noteq> []"
      using m assms bt_get_iff [of agg] by (auto simp: agg_inv_def agg_ok_def)
    have "la_seen l \<or> la_branches l \<noteq> []" if "(n, l) \<in> set lines" for n l
      using entry_reported [OF assms, of p n l] that ok by (simp add: look_def bt_get_iff)
    then have "filter (\<lambda>(_, l). la_seen l \<or> la_branches l \<noteq> []) lines = lines" by (auto simp: filter_id_conv)
    then show ?thesis using ok(3) by (simp add: file_lines_def file_report_of_def line_report_def)
  qed
  then have "List.map_filter (\<lambda>(path, lines). if file_lines lines = [] then None
       else Some \<lparr>coverage_path = path, coverage_lines = file_lines lines\<rparr>) m = map file_report_of m"
    if "set m \<subseteq> set agg" for m
    using that by (induction m) auto
  then show ?thesis by (simp add: aggregate_files_def)
qed

lemma all_lines_eq:
  "agg_inv M agg \<Longrightarrow> all_lines (aggregate_files agg) = map line_report (map (\<lambda>((p, n), e). (n, e)) (flat agg))"
proof -
  have "all_lines (map file_report_of m) = map line_report (map (\<lambda>((p, n), e). (n, e)) (flat m))" for m
    by (induction m) (auto simp: file_report_of_def flat_def comp_def case_prod_beta)
  moreover assume "agg_inv M agg"
  ultimately show ?thesis by (simp only: files_eq)
qed

text \<open>The hit of a line, read off the report.\<close>

definition reported_hit :: "coverage_report \<Rightarrow> string \<Rightarrow> u32 \<Rightarrow> bool \<Rightarrow> bool" where
  "reported_hit r p n h \<longleftrightarrow>
     (\<exists>f \<in> set (coverage_files r). coverage_path f = p \<and> (\<exists>l \<in> set (coverage_lines f). covered_line l = n \<and> line_hit l = Some h))"

lemma files_hit:
  assumes "agg_inv M agg"
  shows "(\<exists>f \<in> set (aggregate_files agg). coverage_path f = p \<and> (\<exists>l \<in> set (coverage_lines f). covered_line l = n \<and> line_hit l = Some h)) \<longleftrightarrow>
     line_values M p n \<noteq> {} \<and> (h \<longleftrightarrow> True \<in> line_values M p n)"
proof -
  have ok: "bt_ok agg" "(q, lines) \<in> set agg \<Longrightarrow> bt_ok lines" for q lines
    using assms bt_get_iff [of agg] by (auto simp: agg_inv_def agg_ok_def)
  have "(\<exists>f \<in> set (aggregate_files agg). coverage_path f = p \<and> (\<exists>l \<in> set (coverage_lines f). covered_line l = n \<and> line_hit l = Some h)) \<longleftrightarrow>
      (\<exists>lines e. (p, lines) \<in> set agg \<and> (n, e) \<in> set lines \<and> la_seen e \<and> la_covered e = h)"
  proof -
    have "(\<exists>l \<in> set (map line_report ls). covered_line l = n \<and> line_hit l = Some h) \<longleftrightarrow>
        (\<exists>e. (n, e) \<in> set ls \<and> la_seen e \<and> la_covered e = h)" for ls
      by (induction ls) (auto simp: line_report_def split: if_splits)
    moreover have "(\<exists>f \<in> set (map file_report_of m). coverage_path f = p \<and> Q (coverage_lines f)) \<longleftrightarrow>
        (\<exists>lines. (p, lines) \<in> set m \<and> Q (map line_report lines))" for m Q
      by (induction m) (auto simp: file_report_of_def)
    note this [of agg "\<lambda>ls. \<exists>l \<in> set ls. covered_line l = n \<and> line_hit l = Some h"]
    ultimately show ?thesis unfolding files_eq [OF assms] by (simp only: ex_simps)
  qed
  also have "\<dots> \<longleftrightarrow> (\<exists>e. look agg p n = Some e \<and> la_seen e \<and> la_covered e = h)"
    unfolding look_def bind_eq_Some_conv using bt_get_iff [OF ok(1)] bt_get_iff [OF ok(2)] by metis
  also have "\<dots> \<longleftrightarrow> line_values M p n \<noteq> {} \<and> (h \<longleftrightarrow> True \<in> line_values M p n)"
  proof -
    have "look agg p n \<noteq> None" if "line_values M p n \<noteq> {}" using assms that unfolding agg_inv_def by blast
    moreover have "(la_seen e \<longleftrightarrow> line_values M p n \<noteq> {}) \<and> (la_covered e \<longleftrightarrow> True \<in> line_values M p n)" if "look agg p n = Some e" for e
      using look_entry [OF assms that] by (simp add: entry_inv_def)
    ultimately show ?thesis by blast
  qed
  finally show ?thesis .
qed

subsection \<open>Totals and validation of the aggregate\<close>

definition counters_of :: "((string \<times> u32) \<times> line_aggregate) list \<Rightarrow> coverage_counter list" where
  "counters_of m = List.map_filter line_branches (map line_report (map (\<lambda>((p, n), e). (n, e)) m))"

definition branches_of :: "((string \<times> u32) \<times> line_aggregate) list \<Rightarrow> (((string \<times> u32) \<times> string) \<times> branch_aggregate) list" where
  "branches_of m = flat (map (\<lambda>(k, e). (k, la_branches e)) m)"

lemma counters_of_Cons: "counters_of ((k, e) # m) = (case line_branch_counter e of None \<Rightarrow> [] | Some c \<Rightarrow> [c]) @ counters_of m"
  by (cases k) (simp add: counters_of_def line_report_def split: option.split)

lemma branches_of_Cons: "branches_of ((k, e) # m) = map (\<lambda>(i, b). ((k, i), b)) (la_branches e) @ branches_of m"
  by (simp add: branches_of_def flat_def)

lemma branch_sums:
  assumes "length (branches_of m) < 2 ^ 64"
  shows "(\<Sum>c\<leftarrow>counters_of m. unat (eligible c)) = length (branches_of m) \<and>
    (\<Sum>c\<leftarrow>counters_of m. unat (covered c)) = length (filter ba_covered (map snd (branches_of m))) \<and>
    (\<forall>c \<in> set (counters_of m). covered c \<le> eligible c)"
  using assms
proof (induction m)
  case Nil
  show ?case by (simp add: counters_of_def branches_of_def flat_def)
next
  case (Cons x m)
  obtain k e where x: "x = (k, e)" by (cases x)
  let ?bs = "la_branches e"
  have len: "length ?bs < 2 ^ 64" "length (branches_of m) < 2 ^ 64"
    using Cons.prems unfolding x branches_of_Cons length_append length_map by linarith+
  have le: "length (filter (\<lambda>(_, b). ba_covered b) ?bs) \<le> length ?bs" by (rule length_filter_le)
  then have small: "length (filter (\<lambda>(_, b). ba_covered b) ?bs) < 2 ^ 64" using len(1) by (rule le_less_trans)
  have hits: "length (filter ba_covered (map snd (map (\<lambda>(i, b). ((k, i), b)) ?bs))) = length (filter (\<lambda>(_, b). ba_covered b) ?bs)"
    by (simp add: filter_map comp_def case_prod_unfold)
  have words: "unat (of_nat (length ?bs) :: u64) = length ?bs"
    "unat (of_nat (length (filter (\<lambda>(_, b). ba_covered b) ?bs)) :: u64) = length (filter (\<lambda>(_, b). ba_covered b) ?bs)"
    using len(1) small by (simp_all add: unat_of_nat)
  have "(of_nat (length (filter (\<lambda>(_, b). ba_covered b) ?bs)) :: u64) \<le> of_nat (length ?bs)"
    unfolding word_le_nat_alt words by (rule le)
  then show ?case using Cons.IH [OF len(2)] hits words
    by (cases "?bs = []") (simp_all add: x counters_of_Cons branches_of_Cons line_branch_counter_def del: map_map)
qed

lemma line_lengths:
  "length (filter (\<lambda>x. line_hit x \<noteq> None) (map line_report ls)) = length (filter la_seen (map snd ls))"
  "length (filter (\<lambda>x. line_hit x = Some True) (map line_report ls)) = length (filter (\<lambda>l. la_seen l \<and> la_covered l) (map snd ls))"
  by (induction ls) (auto simp: line_report_def split: if_splits)

definition sized :: "measurement set \<Rightarrow> bool" where
  "sized M \<longleftrightarrow> card (measured_at M) < 2 ^ 64 \<and> card (branches_at M) < 2 ^ 64 \<and>
     card (hit_at M) \<le> card (measured_at M) \<and> card (branch_hits_at M) \<le> card (branches_at M)"

lemma aggregate_totals:
  assumes "agg_inv M agg" and "sized M" and "\<And>p n. line_values M p n \<noteq> {} \<or> (\<exists>i. branch_values M p n i \<noteq> {}) \<Longrightarrow> n \<noteq> 0"
  shows "coverage_totals (aggregate_files agg) = Inr (line_counter agg, branch_counter agg) \<longleftrightarrow>
     sorted_wrt path_less (map coverage_path (aggregate_files agg)) \<and>
     (\<forall>f \<in> set (aggregate_files agg). coverage_path f \<noteq> [] \<and> is_normalized (coverage_path f))"
proof -
  let ?fs = "aggregate_files agg"
  have flat_eq: "flat_branches agg = branches_of (flat agg)" by (simp add: flat_branches_def branches_of_def)
  have "length (branches_of (flat agg)) < 2 ^ 64"
    using assms(2) branch_counts(1) [OF assms(1)] by (simp add: sized_def flat_eq)
  note sums = branch_sums [OF this]
  have ok: "bt_ok agg" "(p, lines) \<in> set agg \<Longrightarrow> bt_ok lines" for p lines
    using assms(1) bt_get_iff [of agg] by (auto simp: agg_inv_def agg_ok_def)
  have lines: "measured_lines (coverage_lines f)" if f: "f \<in> set ?fs" for f
  proof -
    obtain p ls where pl: "(p, ls) \<in> set agg" "coverage_lines f = map line_report ls"
      using f unfolding files_eq [OF assms(1)] by (auto simp: file_report_of_def)
    have nums: "map covered_line (map line_report ls) = map fst ls" by (induction ls) (auto simp: line_report_def)
    have "0 < covered_line l \<and> (line_hit l \<noteq> None \<or> line_branches l \<noteq> None) \<and> (\<forall>c. line_branches l = Some c \<longrightarrow> covered c \<le> eligible c)"
      if l: "l \<in> set (map line_report ls)" for l
    proof -
      obtain n e where ne: "(n, e) \<in> set ls" "l = line_report (n, e)" using l by auto
      have look: "look agg p n = Some e"
        using bt_get_iff [OF ok(1), of p ls] bt_get_iff [OF ok(2) [OF pl(1)], of n e] pl(1) ne(1) by (simp add: look_def)
      have "look agg p n \<noteq> None" using look by simp
      then have "n \<noteq> 0" using assms(1) unfolding agg_inv_def by (intro assms(3) [of p]) blast
      moreover have "la_seen e \<or> la_branches e \<noteq> []" by (rule entry_reported [OF assms(1) look])
      moreover have "covered c \<le> eligible c" if "line_branches l = Some c" for c
      proof -
        have "((p, n), e) \<in> set (flat agg)" using pl(1) ne(1) by (auto simp: mem_flat)
        then have "l \<in> set (map line_report (map (\<lambda>((p, n), e). (n, e)) (flat agg)))" by (force simp: ne(2))
        then have "c \<in> set (counters_of (flat agg))" unfolding counters_of_def mem_map_filter using that by blast
        then show ?thesis using sums by blast
      qed
      ultimately show ?thesis by (auto simp: ne(2) line_report_def line_branch_counter_def word_gt_0)
    qed
    then show ?thesis using ok(2) [OF pl(1)] unfolding measured_lines_def pl(2) nums by blast
  qed
  have "length (filter (\<lambda>x. line_hit x \<noteq> None) (all_lines ?fs)) = card (measured_at M)"
    "length (filter (\<lambda>x. line_hit x = Some True) (all_lines ?fs)) = card (hit_at M)"
    using line_counts [OF assms(1)]
    by (simp_all only: all_lines_eq [OF assms(1)] line_lengths) (simp_all add: aggregate_lines_flat comp_def case_prod_beta)
  moreover have "(\<Sum>c\<leftarrow>List.map_filter line_branches (all_lines ?fs). unat (eligible c)) = card (branches_at M)"
    "(\<Sum>c\<leftarrow>List.map_filter line_branches (all_lines ?fs). unat (covered c)) = card (branch_hits_at M)"
    using sums branch_counts [OF assms(1)] by (simp_all only: all_lines_eq [OF assms(1)] flat_eq counters_of_def)
  moreover have "unat (of_nat k :: u64) = k" if "k < 2 ^ 64" for k using that by (simp add: unat_of_nat)
  ultimately show ?thesis
    using assms(2) lines by (auto simp: coverage_totals_exact counters [OF assms(1)] sized_def measured_files_def)
qed

end
