(* ===== verification/LcovSpec.thy ===== *)
theory LcovSpec
  imports Lcov
begin

text \<open>
  The LCOV reader against a writer: reading the text of a list of records gives the records back, with no
  diagnostic and no flag. Each line of the text is read in the state its predecessors leave.
\<close>

subsection \<open>A writer\<close>

definition hit_text :: "bool \<Rightarrow> string" where
  "hit_text h = (if h then ''1'' else ''0'')"

definition line_text :: "parsed_line \<Rightarrow> string" where
  "line_text l = ''DA:'' @ decimal (unat (pl_line l)) @ '','' @ hit_text (pl_covered l) @
     (case pl_checksum l of None \<Rightarrow> [] | Some c \<Rightarrow> '','' @ c)"

text \<open>An identity is a block and a branch with a colon between them.\<close>

definition branch_text :: "parsed_branch \<Rightarrow> string" where
  "branch_text b = ''BRDA:'' @ decimal (unat (pb_line b)) @ '','' @ takeWhile (\<lambda>c. c \<noteq> CHR '':'') (pb_identity b) @ '','' @
     tl (dropWhile (\<lambda>c. c \<noteq> CHR '':'') (pb_identity b)) @ '','' @ hit_text (pb_covered b)"

definition summary_texts :: "parsed_file \<Rightarrow> string list" where
  "summary_texts f =
     [''LF:'' @ decimal (unat (distinct_count (map pl_line (pf_lines f)))),
      ''LH:'' @ decimal (unat (distinct_count (map pl_line (filter pl_covered (pf_lines f))))),
      ''BRF:'' @ decimal (unat (distinct_count (map (\<lambda>b. (pb_line b, pb_identity b)) (pf_branches f)))),
      ''BRH:'' @ decimal (unat (distinct_count (map (\<lambda>b. (pb_line b, pb_identity b)) (filter pb_covered (pf_branches f)))))]"

definition file_texts :: "parsed_file \<Rightarrow> string list" where
  "file_texts f = (''SF:'' @ pf_path f) # map line_text (pf_lines f) @ map branch_text (pf_branches f) @ summary_texts f @ [''end_of_record'']"

definition lcov_text :: "parsed_file list \<Rightarrow> string" where
  "lcov_text fs = concat (map (\<lambda>l. l @ [CHR 0x0A]) (concat (map file_texts fs)))"

text \<open>What the format can carry.\<close>

definition printable :: "string \<Rightarrow> bool" where
  "printable s \<longleftrightarrow> s \<noteq> [] \<and> list_all solid s \<and> CHR '','' \<notin> set s"

definition writable_branch :: "parsed_branch \<Rightarrow> bool" where
  "writable_branch b \<longleftrightarrow> printable (takeWhile (\<lambda>c. c \<noteq> CHR '':'') (pb_identity b)) \<and> CHR '':'' \<in> set (pb_identity b) \<and>
     printable (tl (dropWhile (\<lambda>c. c \<noteq> CHR '':'') (pb_identity b)))"

definition writable :: "parsed_file \<Rightarrow> bool" where
  "writable f \<longleftrightarrow> pf_path f \<noteq> [] \<and> solid (hd (pf_path f)) \<and> solid (last (pf_path f)) \<and>
     CHR 0x0A \<notin> set (pf_path f) \<and> CHR 0x0D \<notin> set (pf_path f) \<and> pf_hash f = None \<and>
     (\<forall>l \<in> set (pf_lines f). \<forall>c. pl_checksum l = Some c \<longrightarrow> is_lcov_checksum c) \<and>
     (\<forall>b \<in> set (pf_branches f). writable_branch b)"

subsection \<open>Reading the pieces\<close>

lemma hit_text_parse [simp]:
  "parse_nonnegative_u64 (hit_text h) = Some (if h then 1 else 0)" "trim (hit_text h) = hit_text h"
proof -
  have "char_of (49 :: nat) = CHR ''1''" "char_of (48 :: nat) = CHR ''0''"
    using char_of_char [of "CHR ''1''", where 'a = nat] char_of_char [of "CHR ''0''", where 'a = nat] by (simp_all del: char_of_char)
  then have "hit_text h = decimal (unat (if h then 1 else 0 :: u64))" by (simp add: hit_text_def decimal.simps digit_def)
  then show "parse_nonnegative_u64 (hit_text h) = Some (if h then 1 else 0)" "trim (hit_text h) = hit_text h" by simp_all
qed

lemma hit_text_plain [simp]: "hit_text h \<noteq> []" "CHR '','' \<notin> set (hit_text h)" "hit_text h \<noteq> ''-''"
  "solid (last (hit_text h))" "\<forall>c \<in> set (hit_text h). solid c"
  by (simp_all add: hit_text_def solid_def)

lemma checksum_solid: "is_lcov_checksum c \<Longrightarrow> c \<noteq> [] \<and> list_all solid c \<and> CHR '','' \<notin> set c"
  by (cases c) (auto simp: is_lcov_checksum_def list_all_iff is_digit_def solid_def)

lemma trim_printable: "list_all solid s \<Longrightarrow> trim s = s"
proof (cases "s = []")
  case True
  then show ?thesis by (simp add: trim_def trim_start.simps space_width_def)
next
  case False
  moreover assume "list_all solid s"
  ultimately show ?thesis by (intro trim_solid) (simp_all add: list_all_iff)
qed

lemma dropWhile_first: "c \<in> set s \<Longrightarrow> dropWhile (\<lambda>x. x \<noteq> c) s = c # tl (dropWhile (\<lambda>x. x \<noteq> c) s)"
  by (induction s) auto

lemma no_comma_decimal [simp]: "CHR '','' \<notin> set (decimal n)"
  using decimal_digits(2) [of _ n] digit_not(3) by blast

lemma read_line:
  assumes "lc_current p = Some f" and "\<forall>c. pl_checksum l = Some c \<longrightarrow> is_lcov_checksum c"
  shows "lcov_line (line_text l) n p = p\<lparr>lc_current := Some (f\<lparr>pf_lines := pf_lines f @ [l]\<rparr>)\<rparr>"
proof -
  define tail where "tail = decimal (unat (pl_line l)) @ '','' @ hit_text (pl_covered l) @
     (case pl_checksum l of None \<Rightarrow> [] | Some c \<Rightarrow> '','' @ c)"
  have once: "split_once (CHR '':'') (line_text l) = Some (''DA'', tail)"
    using split_once_append [of "CHR '':''" "''DA''" tail] by (simp add: line_text_def tail_def)
  have fields: "split_on (CHR '','') tail =
      [decimal (unat (pl_line l)), hit_text (pl_covered l)] @ (case pl_checksum l of None \<Rightarrow> [] | Some c \<Rightarrow> [c])"
    using assms(2) checksum_solid
    by (auto simp: tail_def split_on_append split_on_absent split: option.splits)
  have "parse_line_measurement tail n p = p\<lparr>lc_current := Some (f\<lparr>pf_lines := pf_lines f @ [l]\<rparr>)\<rparr>"
    using assms checksum_solid trim_printable
    by (cases l) (auto simp: parse_line_measurement_def fields split: option.splits)
  then show ?thesis by (simp add: lcov_line_def once) (simp add: line_text_def)
qed

lemma read_branch:
  assumes "lc_current p = Some f" and "writable_branch b"
  shows "lcov_line (branch_text b) n p = p\<lparr>lc_current := Some (f\<lparr>pf_branches := pf_branches f @ [b]\<rparr>)\<rparr>"
proof -
  define block where "block = takeWhile (\<lambda>c. c \<noteq> CHR '':'') (pb_identity b)"
  define branch where "branch = tl (dropWhile (\<lambda>c. c \<noteq> CHR '':'') (pb_identity b))"
  have w: "printable block" "printable branch" using assms(2) by (simp_all add: writable_branch_def block_def branch_def)
  have "dropWhile (\<lambda>c. c \<noteq> CHR '':'') (pb_identity b) = CHR '':'' # branch"
    unfolding branch_def by (rule dropWhile_first) (use assms(2) in \<open>simp add: writable_branch_def\<close>)
  then have i: "pb_identity b = block @ '':'' @ branch"
    using takeWhile_dropWhile_id [of "\<lambda>c. c \<noteq> CHR '':''" "pb_identity b"] by (simp add: block_def)
  define tail where "tail = decimal (unat (pb_line b)) @ '','' @ block @ '','' @ branch @ '','' @ hit_text (pb_covered b)"
  have once: "split_once (CHR '':'') (branch_text b) = Some (''BRDA'', tail)"
    using split_once_append [of "CHR '':''" "''BRDA''" tail] by (simp add: branch_text_def tail_def block_def branch_def)
  have fields: "split_on (CHR '','') tail = [decimal (unat (pb_line b)), block, branch, hit_text (pb_covered b)]"
    using w by (simp add: tail_def split_on_append split_on_absent printable_def)
  have trims: "trim block = block" "trim branch = branch" "block \<noteq> []" "branch \<noteq> []"
    using w by (simp_all add: printable_def trim_printable)
  have "parse_branch_measurement tail n p = p\<lparr>lc_current := Some (f\<lparr>pf_branches := pf_branches f @ [b]\<rparr>)\<rparr>"
    using assms(1) i decimal_digits(1) by (cases b) (simp add: parse_branch_measurement_def fields trims)
  then show ?thesis by (simp add: lcov_line_def once) (simp add: branch_text_def)
qed

subsection \<open>Reading the lines\<close>

definition plain :: "string \<Rightarrow> bool" where
  "plain t \<longleftrightarrow> t \<noteq> [] \<and> solid (hd t) \<and> solid (last t) \<and> CHR 0x0A \<notin> set t \<and> CHR 0x0D \<notin> set t"

lemma not_solid [simp]: "\<not> solid (CHR 0x0A)" "\<not> solid (CHR 0x0D)"
  by (simp_all add: solid_def)

lemma plainI: "t \<noteq> [] \<Longrightarrow> list_all solid t \<Longrightarrow> plain t"
  by (auto simp: plain_def list_all_iff)

lemma decimal_all_solid [simp]: "list_all solid (decimal n)"
  using decimal_digits(2) [of _ n] by (auto simp: list_all_iff)

lemma hit_all_solid [simp]: "list_all solid (hit_text h)"
  by (simp add: hit_text_def solid_def)

lemma plain_texts:
  "\<forall>c. pl_checksum l = Some c \<longrightarrow> is_lcov_checksum c \<Longrightarrow> plain (line_text l)"
  "writable_branch b \<Longrightarrow> plain (branch_text b)"
  "t \<in> set (summary_texts f) \<Longrightarrow> plain t"
  "plain ''end_of_record''"
proof -
  show "\<forall>c. pl_checksum l = Some c \<longrightarrow> is_lcov_checksum c \<Longrightarrow> plain (line_text l)"
    using checksum_solid by (intro plainI) (auto simp: line_text_def solid_def split: option.splits)
  show "writable_branch b \<Longrightarrow> plain (branch_text b)"
    by (intro plainI) (simp_all add: branch_text_def writable_branch_def printable_def solid_def)
  show "t \<in> set (summary_texts f) \<Longrightarrow> plain t"
    by (intro plainI) (auto simp: summary_texts_def solid_def)
  show "plain ''end_of_record''" by (intro plainI) (simp_all add: solid_def)
qed

lemma lcov_lines_append: "lcov_lines (xs @ ys) n p = lcov_lines ys (n + length xs) (lcov_lines xs n p)"
  by (induction xs arbitrary: n p) (simp_all add: Let_def)

lemma lcov_lines_plain: "plain t \<Longrightarrow> lcov_lines (t # rest) n p = lcov_lines rest (n + 1) (lcov_line t n p)"
  by (simp add: plain_def strip_no_suffix trim_solid Let_def)

lemma read_lines:
  assumes "lc_current p = Some f" and "\<forall>l \<in> set ls. \<forall>c. pl_checksum l = Some c \<longrightarrow> is_lcov_checksum c"
  shows "lcov_lines (map line_text ls) n p = p\<lparr>lc_current := Some (f\<lparr>pf_lines := pf_lines f @ ls\<rparr>)\<rparr>"
  using assms
proof (induction ls arbitrary: n p f)
  case (Cons l ls)
  have l: "\<forall>c. pl_checksum l = Some c \<longrightarrow> is_lcov_checksum c" using Cons.prems(2) by simp
  let ?q = "p\<lparr>lc_current := Some (f\<lparr>pf_lines := pf_lines f @ [l]\<rparr>)\<rparr>"
  have "lcov_lines (map line_text (l # ls)) n p = lcov_lines (map line_text ls) (n + 1) ?q"
    unfolding list.map lcov_lines_plain [OF plain_texts(1) [OF l]] read_line [OF Cons.prems(1) l] ..
  also have "\<dots> = ?q\<lparr>lc_current := Some (f\<lparr>pf_lines := pf_lines f @ [l], pf_lines := (pf_lines f @ [l]) @ ls\<rparr>)\<rparr>"
    by (subst Cons.IH [where f = "f\<lparr>pf_lines := pf_lines f @ [l]\<rparr>"]) (use Cons.prems in simp_all)
  finally show ?case by simp
qed simp

lemma read_branches:
  assumes "lc_current p = Some f" and "\<forall>b \<in> set bs. writable_branch b"
  shows "lcov_lines (map branch_text bs) n p = p\<lparr>lc_current := Some (f\<lparr>pf_branches := pf_branches f @ bs\<rparr>)\<rparr>"
  using assms
proof (induction bs arbitrary: n p f)
  case (Cons b bs)
  have b: "writable_branch b" using Cons.prems(2) by simp
  let ?q = "p\<lparr>lc_current := Some (f\<lparr>pf_branches := pf_branches f @ [b]\<rparr>)\<rparr>"
  have "lcov_lines (map branch_text (b # bs)) n p = lcov_lines (map branch_text bs) (n + 1) ?q"
    unfolding list.map lcov_lines_plain [OF plain_texts(2) [OF b]] read_branch [OF Cons.prems(1) b] ..
  also have "\<dots> = ?q\<lparr>lc_current := Some (f\<lparr>pf_branches := pf_branches f @ [b], pf_branches := (pf_branches f @ [b]) @ bs\<rparr>)\<rparr>"
    by (subst Cons.IH [where f = "f\<lparr>pf_branches := pf_branches f @ [b]\<rparr>"]) (use Cons.prems in simp_all)
  finally show ?case by simp
qed simp

lemma read_summary:
  assumes "lc_current p = Some f"
  shows "lcov_line (''LF:'' @ decimal (unat v)) n p =
      p\<lparr>lc_line_summary := Some (v, case lc_line_summary p of None \<Rightarrow> 0 | Some s \<Rightarrow> snd s)\<rparr>"
    and "lcov_line (''LH:'' @ decimal (unat v)) n p =
      p\<lparr>lc_line_summary := Some (case lc_line_summary p of None \<Rightarrow> 0 | Some s \<Rightarrow> fst s, v)\<rparr>"
    and "lcov_line (''BRF:'' @ decimal (unat v)) n p =
      p\<lparr>lc_branch_summary := Some (v, case lc_branch_summary p of None \<Rightarrow> 0 | Some s \<Rightarrow> snd s)\<rparr>"
    and "lcov_line (''BRH:'' @ decimal (unat v)) n p =
      p\<lparr>lc_branch_summary := Some (case lc_branch_summary p of None \<Rightarrow> 0 | Some s \<Rightarrow> fst s, v)\<rparr>"
proof -
  have once: "split_once (CHR '':'') (t @ CHR '':'' # s) = Some (t, s)" if "CHR '':'' \<notin> set t" for t s
    using that by (rule split_once_append)
  show "lcov_line (''LF:'' @ decimal (unat v)) n p =
      p\<lparr>lc_line_summary := Some (v, case lc_line_summary p of None \<Rightarrow> 0 | Some s \<Rightarrow> snd s)\<rparr>"
    "lcov_line (''LH:'' @ decimal (unat v)) n p =
      p\<lparr>lc_line_summary := Some (case lc_line_summary p of None \<Rightarrow> 0 | Some s \<Rightarrow> fst s, v)\<rparr>"
    "lcov_line (''BRF:'' @ decimal (unat v)) n p =
      p\<lparr>lc_branch_summary := Some (v, case lc_branch_summary p of None \<Rightarrow> 0 | Some s \<Rightarrow> snd s)\<rparr>"
    "lcov_line (''BRH:'' @ decimal (unat v)) n p =
      p\<lparr>lc_branch_summary := Some (case lc_branch_summary p of None \<Rightarrow> 0 | Some s \<Rightarrow> fst s, v)\<rparr>"
    using assms once [of "''LF''" "decimal (unat v)"] once [of "''LH''" "decimal (unat v)"]
      once [of "''BRF''" "decimal (unat v)"] once [of "''BRH''" "decimal (unat v)"]
    by (simp_all add: lcov_line_def parse_line_summary_def parse_branch_summary_def split: option.split)
qed

lemma read_file:
  assumes "lc_current p = None" and "writable f"
  shows "lcov_lines (file_texts f) n p = p\<lparr>lc_parsed := (lc_parsed p)\<lparr>parsed_records := parsed_records (lc_parsed p) @ [f], parsed_saw := True\<rparr>,
     lc_saw_end := True, lc_line_summary := None, lc_branch_summary := None\<rparr>"
proof -
  let ?f0 = "parsed_file_default\<lparr>pf_path := pf_path f\<rparr>"
  let ?p1 = "p\<lparr>lc_current := Some ?f0, lc_line_summary := None, lc_branch_summary := None, lc_saw_end := False\<rparr>"
  let ?p2 = "?p1\<lparr>lc_current := Some (?f0\<lparr>pf_lines := pf_lines f\<rparr>)\<rparr>"
  let ?p3 = "?p1\<lparr>lc_current := Some f\<rparr>"
  have path: "pf_path f \<noteq> []" "solid (hd (pf_path f))" "solid (last (pf_path f))" using assms(2) by (simp_all add: writable_def)
  have f: "?f0\<lparr>pf_lines := pf_lines f, pf_branches := pf_branches f\<rparr> = f"
    using assms(2) by (cases f) (simp add: writable_def parsed_file_default_def)
  have "plain (''SF:'' @ pf_path f)" using assms(2) by (simp add: plain_def writable_def solid_def)
  moreover have "lcov_line (''SF:'' @ pf_path f) n p = ?p1" for n
    using split_once_append [of "CHR '':''" "''SF''" "pf_path f"] path assms(1)
    by (simp add: lcov_line_def start_file_def trim_solid)
  ultimately have 1: "lcov_lines (file_texts f) n p =
      lcov_lines (map line_text (pf_lines f) @ map branch_text (pf_branches f) @ summary_texts f @ [''end_of_record'']) (n + 1) ?p1"
    unfolding file_texts_def by (simp only: lcov_lines_plain)
  have lines: "lcov_lines (map line_text (pf_lines f)) k ?p1 = ?p2" for k
    by (subst read_lines [where f = ?f0]) (use assms(2) in \<open>auto simp: writable_def parsed_file_default_def\<close>)
  have branches: "lcov_lines (map branch_text (pf_branches f)) k ?p2 = ?p3" for k
    by (subst read_branches [where f = "?f0\<lparr>pf_lines := pf_lines f\<rparr>"])
      (use assms(2) f in \<open>auto simp: writable_def parsed_file_default_def\<close>)
  let ?e = "distinct_count (map pl_line (pf_lines f))" let ?c = "distinct_count (map pl_line (filter pl_covered (pf_lines f)))"
  let ?be = "distinct_count (map (\<lambda>b. (pb_line b, pb_identity b)) (pf_branches f))"
  let ?bc = "distinct_count (map (\<lambda>b. (pb_line b, pb_identity b)) (filter pb_covered (pf_branches f)))"
  let ?p4 = "?p3\<lparr>lc_line_summary := Some (?e, ?c), lc_branch_summary := Some (?be, ?bc)\<rparr>"
  define a where "a = ''LF:'' @ decimal (unat ?e)" define b where "b = ''LH:'' @ decimal (unat ?c)"
  define c where "c = ''BRF:'' @ decimal (unat ?be)" define d where "d = ''BRH:'' @ decimal (unat ?bc)"
  have texts: "summary_texts f = [a, b, c, d]" by (simp add: summary_texts_def a_def b_def c_def d_def)
  then have plains: "plain a" "plain b" "plain c" "plain d" using plain_texts(3) [of _ f] by simp_all
  have summary: "lcov_lines (summary_texts f @ [''end_of_record'']) k ?p3 = lcov_lines [''end_of_record''] (k + 1 + 1 + 1 + 1) ?p4" for k
    unfolding texts append_Cons append_Nil
    by (simp only: lcov_lines_plain plains) (simp add: read_summary [where f = f] a_def b_def c_def d_def del: append_Cons lcov_lines.simps)
  have last: "lcov_lines [''end_of_record''] k ?p4 = end_record k ?p4" for k
    using lcov_lines_plain [OF plain_texts(4), of "[]" k ?p4] by (simp add: lcov_line_def del: lcov_lines.simps(2))
  have "end_record k ?p4 = p\<lparr>lc_parsed := (lc_parsed p)\<lparr>parsed_records := parsed_records (lc_parsed p) @ [f], parsed_saw := True\<rparr>,
     lc_saw_end := True, lc_line_summary := None, lc_branch_summary := None\<rparr>" for k
    using assms(1) by (simp add: end_record_def validate_line_summary_def validate_branch_summary_def lc_record_def Let_def)
  then show ?thesis
    unfolding 1 lcov_lines_append [of "map line_text _"] lines lcov_lines_append [of "map branch_text _"] branches summary last .
qed

lemma read_files:
  assumes "lc_current p = None" "\<forall>f \<in> set fs. writable f" "fs \<noteq> []"
  shows "lcov_lines (concat (map file_texts fs)) n p =
     p\<lparr>lc_parsed := (lc_parsed p)\<lparr>parsed_records := parsed_records (lc_parsed p) @ fs, parsed_saw := True\<rparr>,
       lc_saw_end := True, lc_line_summary := None, lc_branch_summary := None\<rparr>"
  using assms
proof (induction fs arbitrary: n p)
  case (Cons f fs)
  then show ?case by (cases "fs = []") (simp_all add: lcov_lines_append read_file)
qed simp

lemma texts_plain: "writable f \<Longrightarrow> t \<in> set (file_texts f) \<Longrightarrow> plain t"
  using plain_texts by (auto simp: file_texts_def writable_def plain_def solid_def)

lemma parse_written:
  assumes "\<forall>f \<in> set fs. writable f" and "fs \<noteq> []"
  shows "parse_lcov (lcov_text fs) ds =
     (\<lparr>parsed_records = fs, parsed_invalid = False, parsed_incomplete = False, parsed_saw = True\<rparr>, ds)"
proof -
  have "\<forall>l \<in> set (concat (map file_texts fs)). CHR 0x0A \<notin> set l \<and> CHR 0x0D \<notin> set l"
    using assms texts_plain by (fastforce simp: plain_def)
  then have "str_lines (lcov_text fs) = concat (map file_texts fs)"
    unfolding lcov_text_def by (rule str_lines_terminated)
  then show ?thesis
    using read_files [of "lcov_new ds" fs 0] assms
    by (simp add: parse_lcov_def lcov_finish_def lcov_new_def parsed_coverage_default_def)
qed

text \<open>C25: The LCOV reader inverts a writer: for records the format can carry, reading their text returns exactly
  these records, neither invalid nor incomplete, and adds no diagnostic. In particular the summaries it checks
  are counts of distinct lines and distinct branches.\<close>

theorem lcov_roundtrip:
  assumes "\<forall>f \<in> set fs. writable f"
  shows "parse_lcov (lcov_text fs) ds =
     (\<lparr>parsed_records = fs, parsed_invalid = False, parsed_incomplete = False, parsed_saw = (fs \<noteq> [])\<rparr>, ds)"
proof (cases "fs = []")
  case True
  then show ?thesis
    by (simp add: lcov_text_def parse_lcov_def str_lines_def lcov_finish_def lcov_new_def parsed_coverage_default_def
        trim_def trim_start.simps space_width_def)
qed (simp add: parse_written assms)

definition sample_file :: parsed_file where
  "sample_file = \<lparr>pf_path = ''src/a b.py'', pf_lines = [\<lparr>pl_line = 1, pl_covered = True, pl_checksum = None\<rparr>,
      \<lparr>pl_line = 1, pl_covered = False, pl_checksum = Some ''3hbm2TW1f1MbAtZosGKinA''\<rparr>],
    pf_branches = [\<lparr>pb_line = 1, pb_identity = ''0:1'', pb_covered = False\<rparr>], pf_hash = None\<rparr>"

theorem lcov_roundtrip_witness:
  "parse_lcov (lcov_text [sample_file]) [''kept''] =
     (\<lparr>parsed_records = [sample_file], parsed_invalid = False, parsed_incomplete = False, parsed_saw = True\<rparr>, [''kept''])"
proof -
  have "\<forall>f \<in> set [sample_file]. writable f"
    by (simp add: sample_file_def writable_def writable_branch_def printable_def is_lcov_checksum_def is_digit_def solid_def)
  from lcov_roundtrip [OF this, of "[''kept'']"] show ?thesis by simp
qed

subsection \<open>Recovery\<close>

text \<open>Reading only ever adds records.\<close>

definition keeps :: "lcov_parser \<Rightarrow> lcov_parser \<Rightarrow> bool" where
  "keeps p q \<longleftrightarrow> (\<exists>fs. parsed_records (lc_parsed q) = parsed_records (lc_parsed p) @ fs)"

lemma keeps_refl [simp]: "keeps p p"
  by (simp add: keeps_def)

lemma keeps_trans: "keeps p q \<Longrightarrow> keeps q r \<Longrightarrow> keeps p r"
  by (auto simp: keeps_def)

lemma keeps_same: "parsed_records (lc_parsed q) = parsed_records (lc_parsed p) \<Longrightarrow> keeps p q"
  by (simp add: keeps_def)

lemma keeps_step [simp]: "keeps p (lc_reject d p)" "keeps p (lc_truncate d p)" "keeps p (lc_record f p)"
  by (simp_all add: keeps_def lc_reject_def lc_truncate_def lc_record_def)

lemma keeps_update [simp]: "keeps p (q\<lparr>lc_current := c\<rparr>) = keeps p q" "keeps p (q\<lparr>lc_saw_end := b\<rparr>) = keeps p q"
  "keeps p (q\<lparr>lc_line_summary := s\<rparr>) = keeps p q" "keeps p (q\<lparr>lc_branch_summary := t\<rparr>) = keeps p q"
  "keeps (p\<lparr>lc_current := c\<rparr>) q = keeps p q"
  by (simp_all add: keeps_def)


lemma keeps_cases:
  "(b \<Longrightarrow> keeps p q) \<Longrightarrow> (\<not> b \<Longrightarrow> keeps p r) \<Longrightarrow> keeps p (if b then q else r)"
  "(o' = None \<Longrightarrow> keeps p q) \<Longrightarrow> (\<And>x. o' = Some x \<Longrightarrow> keeps p (f x)) \<Longrightarrow> keeps p (case o' of None \<Rightarrow> q | Some x \<Rightarrow> f x)"
  "(\<And>x y. keeps p (g x y)) \<Longrightarrow> keeps p (case xy of (x, y) \<Rightarrow> g x y)"
  by (simp_all split: option.split prod.split)

lemma keeps_start: "keeps p (start_file raw n p)"
proof -
  have "keeps p (case lc_current p of None \<Rightarrow> p | Some f \<Rightarrow> (lc_record f (lc_truncate d p))\<lparr>lc_current := None\<rparr>)" for d
    using keeps_trans [OF keeps_step(2) keeps_step(3)] by (intro keeps_cases) simp_all
  then show ?thesis unfolding start_file_def Let_def
    by (intro keeps_cases) (auto intro: keeps_trans [OF _ keeps_step(1)])
qed

lemma keeps_end: "keeps p (end_record n p)"
proof (cases "lc_current p")
  case (Some f)
  define v where "v = validate_branch_summary f (validate_line_summary f (p\<lparr>lc_current := None\<rparr>))"
  have "keeps q (validate_line_summary f q)" "keeps q (validate_branch_summary f q)" for q
    unfolding validate_line_summary_def validate_branch_summary_def Let_def by (intro keeps_cases keeps_refl keeps_step)+
  then have "keeps (p\<lparr>lc_current := None\<rparr>) v" unfolding v_def by (rule keeps_trans)
  then have v: "keeps p v" by simp
  have e: "keeps p (if b then lc_truncate d v else v)" for b d using v by (auto intro: keeps_trans)
  have "keeps p (lc_record f (q\<lparr>lc_parsed := (lc_parsed q)\<lparr>parsed_saw := True\<rparr>\<rparr>))" if "keeps p q" for q
    by (rule keeps_trans [OF that]) (simp add: keeps_def lc_record_def)
  from this [OF e] show ?thesis
    unfolding end_record_def Let_def Some option.case v_def [symmetric] by simp
qed (simp add: end_record_def)

lemma keeps_line: "keeps p (lcov_line t n p)"
proof -
  note step = keeps_cases keeps_refl keeps_step
  have "keeps p (parse_line_measurement raw n p)" "keeps p (parse_branch_measurement raw n p)" for raw
    unfolding parse_line_measurement_def parse_branch_measurement_def Let_def by (intro step; simp)+
  moreover have "keeps p (parse_line_summary tag raw n p)" "keeps p (parse_branch_summary tag raw n p)" for tag raw
    unfolding parse_line_summary_def parse_branch_summary_def Let_def by (intro step; simp)+
  moreover have "keeps p (parse_function raw n p)" "keeps p (parse_function_data raw n p)" "keeps p (parse_function_summary tag raw n p)" for tag raw
    unfolding parse_function_def parse_function_data_def parse_function_summary_def by (intro step)+
  ultimately show ?thesis
    unfolding lcov_line_def by (intro keeps_cases keeps_start keeps_end keeps_refl keeps_step)
qed

lemma keeps_lines: "keeps p (lcov_lines ls n p)"
proof (induction ls arbitrary: n p)
  case (Cons l ls)
  let ?q = "if trim (strip_or_same l [CHR 0x0D]) = [] then p else lcov_line (trim (strip_or_same l [CHR 0x0D])) n p"
  have "keeps p ?q" by (simp add: keeps_line)
  then show ?case unfolding lcov_lines.simps Let_def by (rule keeps_trans) (rule Cons.IH)
qed simp

lemma read_file_anywhere:
  assumes "writable f"
  shows "\<exists>gs. parsed_records (lc_parsed (lcov_lines (file_texts f) n p)) = parsed_records (lc_parsed p) @ gs @ [f]"
proof -
  define q where "q = (case lc_current p of None \<Rightarrow> p
    | Some g \<Rightarrow> (lc_record g (lc_truncate (''truncated LCOV record before line '' @ decimal (n + 1) @ '' (missing end_of_record)'') p))
        \<lparr>lc_current := None\<rparr>)"
  have q: "lc_current q = None" by (simp add: q_def split: option.split)
  have "keeps p q"
    using keeps_trans [OF keeps_step(2) keeps_step(3)] unfolding q_def by (intro keeps_cases) simp_all
  have "start_file (pf_path f) n p = start_file (pf_path f) n q"
    unfolding start_file_def [of _ _ p] start_file_def [of _ _ q] Let_def q option.case q_def [symmetric] ..
  moreover have "plain (''SF:'' @ pf_path f)" using assms by (intro texts_plain [of f]) (simp_all add: file_texts_def)
  moreover have "lcov_line (''SF:'' @ pf_path f) n p' = start_file (pf_path f) n p'" for p'
    using split_once_append [of "CHR '':''" "''SF''" "pf_path f"] by (simp add: lcov_line_def)
  ultimately have "lcov_lines (file_texts f) n p = lcov_lines (file_texts f) n q"
    unfolding file_texts_def by (simp only: lcov_lines_plain)
  then show ?thesis using \<open>keeps p q\<close> by (auto simp: read_file [OF q assms] keeps_def)
qed

lemma split_on_join: "split_on c (a @ c # b) = split_on c a @ split_on c b"
  by (induction a) (auto split: list.splits)

lemma str_lines_append: "a = [] \<or> last a = CHR 0x0A \<Longrightarrow> str_lines (a @ b) = str_lines a @ str_lines b"
proof (cases a rule: rev_cases)
  case (snoc h c)
  moreover assume "a = [] \<or> last a = CHR 0x0A"
  ultimately have a: "a = h @ [CHR 0x0A]" by simp
  show ?thesis unfolding a str_lines_def Let_def
    by (simp add: split_on_join butlast_append)
qed (simp add: str_lines_def)

lemma keeps_finish: "keeps p (lcov_finish content p)"
proof -
  have "keeps p (case lc_current p of None \<Rightarrow> p | Some f \<Rightarrow> lc_record f (lc_truncate (d f) (p\<lparr>lc_current := None\<rparr>)))" for d
  proof (intro keeps_cases)
    fix f
    have "keeps (p\<lparr>lc_current := None\<rparr>) (lc_record f (lc_truncate (d f) (p\<lparr>lc_current := None\<rparr>)))"
      by (rule keeps_trans [OF keeps_step(2) keeps_step(3)])
    then show "keeps p (lc_record f (lc_truncate (d f) (p\<lparr>lc_current := None\<rparr>)))" by simp
  qed simp
  then show ?thesis unfolding lcov_finish_def Let_def
    by (intro keeps_cases) (auto intro: keeps_trans [OF _ keeps_step(2)])
qed

text \<open>C26: The LCOV reader recovers: whatever precedes and follows the lines of a well-formed record, however
  malformed, the reader gets to its end, and the record is among those it returns.\<close>

theorem lcov_recovers:
  assumes "writable f" and "head = [] \<or> last head = CHR 0x0A"
  shows "f \<in> set (parsed_records (fst (parse_lcov (head @ lcov_text [f] @ rest) ds)))"
proof -
  have "\<forall>l \<in> set (file_texts f). CHR 0x0A \<notin> set l \<and> CHR 0x0D \<notin> set l" using texts_plain [OF assms(1)] by (auto simp: plain_def)
  then have lines: "str_lines (lcov_text [f]) = file_texts f" using str_lines_terminated by (simp add: lcov_text_def)
  have "lcov_text [f] = [] \<or> last (lcov_text [f]) = CHR 0x0A" by (simp add: lcov_text_def file_texts_def)
  then have "str_lines (head @ lcov_text [f] @ rest) = str_lines head @ file_texts f @ str_lines rest"
    by (simp add: str_lines_append [OF assms(2)] str_lines_append lines)
  moreover obtain n p where "lcov_lines (str_lines head @ file_texts f @ str_lines rest) 0 (lcov_new ds) =
      lcov_lines (str_lines rest) n (lcov_lines (file_texts f) (length (str_lines head)) p)"
    by (simp add: lcov_lines_append)
  moreover obtain gs where "parsed_records (lc_parsed (lcov_lines (file_texts f) (length (str_lines head)) p)) = gs @ [f]"
    using read_file_anywhere [OF assms(1)] by (metis append_assoc)
  moreover have "keeps (lcov_lines (file_texts f) (length (str_lines head)) p)
      (lcov_lines (str_lines rest) n (lcov_lines (file_texts f) (length (str_lines head)) p))" by (rule keeps_lines)
  ultimately have "f \<in> set (parsed_records (lc_parsed (lcov_lines (str_lines (head @ lcov_text [f] @ rest)) 0 (lcov_new ds))))"
    by (auto simp: keeps_def)
  moreover have "keeps p (lcov_finish content p)" for content p by (rule keeps_finish)
  ultimately show ?thesis unfolding parse_lcov_def Let_def fst_conv keeps_def by (metis Un_iff set_append)
qed

lemma lcov_recovers_witness:
  "sample_file \<in> set (parsed_records (fst (parse_lcov (''SF:open'' @ [CHR 0x0A] @ lcov_text [sample_file] @ ''garbage'') [])))"
proof -
  have "writable sample_file"
    by (simp add: sample_file_def writable_def writable_branch_def printable_def is_lcov_checksum_def is_digit_def solid_def)
  then show ?thesis using lcov_recovers [of sample_file "''SF:open'' @ [CHR 0x0A]" "''garbage''" "[]"] by simp
qed

end
