(* ===== verification/CoverageSpec.thy ===== *)
theory CoverageSpec
  imports CoverageCounts LcovSpec
begin

text \<open>
  What a coverage report says: its counters count the distinct lines and branches that some input measures
  in an analyzed source, its content depends on the set of inputs only, and the exact condition under which
  the report passes its own validation.
\<close>

subsection \<open>The index and the measurements\<close>

lemma clean_from_nonempty: "clean_from cs acc = Some out \<Longrightarrow> \<forall>c \<in> set acc. c \<noteq> [] \<Longrightarrow> \<forall>c \<in> set out. c \<noteq> []"
proof (induction cs acc rule: clean_from.induct)
  case (2 c cs acc)
  consider "c = [] \<or> c = ''.''" | "c = ''..''" | "\<not> (c = [] \<or> c = ''.'')" "c \<noteq> ''..''" by blast
  then show ?case
  proof cases
    case 1
    with 2(4) have "clean_from cs acc = Some out" by simp
    then show ?thesis using 2(1) [OF 1] 2(5) by blast
  next
    case c: 2
    then obtain a acc' where acc: "acc = a # acc'" using 2(4) by (cases acc) auto
    then show ?thesis using 2(2) [OF _ c acc] 2(4,5) c by simp
  next
    case 3
    with 2(4) have "clean_from cs (c # acc) = Some out" by simp
    moreover have "\<forall>d \<in> set (c # acc). d \<noteq> []" using 3(1) 2(5) by simp
    ultimately show ?thesis by (rule 2(3) [OF 3])
  qed
qed auto

lemma source_path_nonempty: "normalize_source_path root windows p = Some q \<Longrightarrow> q \<noteq> []"
proof -
  assume "normalize_source_path root windows p = Some q"
  then obtain components cs where "clean_path_components components = Some cs" "cs \<noteq> []" "q = join_with (CHR ''/'') cs"
    by (auto simp: normalize_source_path_def normalize_path_text_def Let_def bind_eq_Some_conv split: if_splits)
  moreover from this clean_from_nonempty have "\<forall>c \<in> set cs. c \<noteq> []" by (auto simp: clean_path_components_def)
  ultimately show ?thesis by (cases cs) (auto simp: join_with_def)
qed

abbreviation index_of :: "import_externals \<Rightarrow> path \<Rightarrow> coverage_file list \<Rightarrow> source_index" where
  "index_of x root sources \<equiv> fst (source_index_new (externals.truncate x) root sources [])"

lemma index_entries_sources:
  assumes "map_of (index_entries (fst (fold (index_source x) sources (index, ds)))) k = Some e"
  shows "map_of (index_entries index) k = Some e \<or>
    (\<exists>f \<in> set sources. normalize_source_path (index_root index) (index_root_windows index) (cf_path f) = Some k \<and> e = source_entry_new x k f)"
  using assms
proof (induction sources arbitrary: index ds)
  case (Cons f sources)
  obtain index' ds' where s: "index_source x f (index, ds) = (index', ds')" by (cases "index_source x f (index, ds)")
  then have root: "index_root index' = index_root index" "index_root_windows index' = index_root_windows index"
    by (auto simp: index_source_def Let_def split: option.splits if_splits)
  from Cons.prems s consider "map_of (index_entries index') k = Some e"
    | "\<exists>g \<in> set sources. normalize_source_path (index_root index) (index_root_windows index) (cf_path g) = Some k \<and> e = source_entry_new x k g"
    using Cons.IH [of index' ds'] root by auto
  then show ?case
  proof cases
    case 1
    then show ?thesis using s
      by (auto simp: index_source_def Let_def split: option.splits if_splits)
  qed auto
qed simp

lemma index_of_sources:
  assumes "map_of (index_entries (index_of x root sources)) k = Some e"
  shows "\<exists>f \<in> set sources. normalize_source_path (lexical_path root) (is_windows_absolute (lexical_path root)) (cf_path f) = Some k \<and>
    e = source_entry_new (externals.truncate x) k f"
  using assms unfolding source_index_new_def Let_def by (auto dest!: index_entries_sources)

definition imported :: "import_externals \<Rightarrow> path \<Rightarrow> coverage_source list \<Rightarrow> coverage_file list \<Rightarrow> measurement set" where
  "imported x root inputs sources = merged x (index_of x root sources) inputs"

lemma target_Some: "target x index r = Some (p, s) \<Longrightarrow> map_of (index_entries index) p = Some s"
  by (auto simp: target_def split: option.splits)

lemma merged_in_source:
  "MeasuredLine p n h \<in> merged x index inputs \<Longrightarrow>
     \<exists>s. map_of (index_entries index) p = Some s \<and> entry_class s = Source \<and> source_contains_line s n"
  "MeasuredBranch p n i h \<in> merged x index inputs \<Longrightarrow>
     \<exists>s. map_of (index_entries index) p = Some s \<and> entry_class s = Source \<and> source_contains_line s n"
  by (auto simp: merged_def input_measures_def parsed_record_measures_def record_measures_def line_measures_def
      branch_measures_def dest!: target_Some [OF sym] split: option.splits if_splits)

lemma merged_values:
  assumes "line_values (merged x index inputs) p n \<noteq> {} \<or> (\<exists>i. branch_values (merged x index inputs) p n i \<noteq> {})"
  shows "\<exists>s. map_of (index_entries index) p = Some s \<and> entry_class s = Source \<and> source_contains_line s n"
  using assms merged_in_source unfolding line_values_def branch_values_def by blast

subsection \<open>Bounds\<close>

lemma saturating_sum:
  "fold (\<lambda>r n. min U (n + min U (f r))) rs a = min U (a + (\<Sum>r\<leftarrow>rs. f r))" if "a \<le> U" for a U :: nat
  using that by (induction rs arbitrary: a) (auto simp: min_def)

lemma sum_list_length_le: "(\<And>r. r \<in> set rs \<Longrightarrow> length (g r) \<le> f r) \<Longrightarrow> length (concat (map g rs)) \<le> (\<Sum>r\<leftarrow>rs. f r)"
  by (induction rs) (auto simp: add_mono)

lemma input_measures_bound: "length (input_measures x index input) \<le> MAX_MEASUREMENTS"
proof (cases "readable x input")
  case True
  let ?p = "parsed_of x input"
  let ?f = "\<lambda>r. length (pf_lines r) + length (pf_branches r)"
  have "coverage_measurement_count ?p = min usize_max (\<Sum>r\<leftarrow>parsed_records ?p. ?f r)"
    by (simp add: coverage_measurement_count_def saturating_sum)
  moreover have "coverage_measurement_count ?p \<le> MAX_MEASUREMENTS" using True by (simp add: readable_def)
  moreover have "MAX_MEASUREMENTS < usize_max" by (simp add: MAX_MEASUREMENTS_def usize_max_def)
  ultimately have "(\<Sum>r\<leftarrow>parsed_records ?p. ?f r) \<le> MAX_MEASUREMENTS" by (simp add: min_def split: if_splits)
  moreover have "length (parsed_record_measures x index r) \<le> ?f r" for r
  proof -
    have "length (concat (map (line_measures path s) ls)) \<le> length ls" "length (concat (map (branch_measures path s) bs)) \<le> length bs"
      for path s ls bs by (induction ls, auto simp: line_measures_def) (induction bs, auto simp: branch_measures_def)
    then show ?thesis by (auto simp: parsed_record_measures_def record_measures_def add_mono split: option.splits)
  qed
  ultimately show ?thesis using True sum_list_length_le [of "parsed_records ?p" "parsed_record_measures x index" ?f]
    by (auto simp: input_measures_def intro: order.trans)
qed (simp add: input_measures_def)

lemma card_merged: "card (merged x index inputs) \<le> MAX_MEASUREMENTS * length inputs"
proof -
  have "length (concat (map (input_measures x index) inputs)) \<le> (\<Sum>i\<leftarrow>inputs. MAX_MEASUREMENTS)"
    by (rule sum_list_length_le) (rule input_measures_bound)
  then show ?thesis unfolding merged_def using card_length [of "concat (map (input_measures x index) inputs)"]
    by (simp add: sum_list_triv mult.commute)
qed

lemma sized_merged:
  assumes "length inputs < 2 ^ 40"
  shows "sized (merged x index inputs)"
proof -
  let ?M = "merged x index inputs"
  have fin: "finite ?M" by (simp add: merged_def)
  define at where "at m = (case m of MeasuredLine p n h \<Rightarrow> (p, n) | MeasuredBranch p n i h \<Rightarrow> (p, n))" for m
  define key where "key m = (case m of MeasuredLine p n h \<Rightarrow> ((p, n), []) | MeasuredBranch p n i h \<Rightarrow> ((p, n), i))" for m
  have lines: "measured_at ?M \<subseteq> at ` ?M" by (force simp: measured_at_def line_values_def at_def image_iff)
  have branches: "branches_at ?M \<subseteq> key ` ?M" by (force simp: branches_at_def branch_values_def key_def image_iff)
  have "MAX_MEASUREMENTS * length inputs < 2 ^ 64" using assms by (simp add: MAX_MEASUREMENTS_def)
  with card_merged [of x index inputs] have M: "card ?M < 2 ^ 64" by linarith
  have "card (measured_at ?M) \<le> card ?M" "card (branches_at ?M) \<le> card ?M"
    using fin lines branches by (meson card_image_le card_mono finite_imageI order.trans)+
  moreover have "finite (measured_at ?M)" "finite (branches_at ?M)"
    using fin lines branches by (meson finite_imageI finite_subset)+
  then have "card (hit_at ?M) \<le> card (measured_at ?M)" "card (branch_hits_at ?M) \<le> card (branches_at ?M)"
    by (auto intro!: card_mono simp: hit_at_def measured_at_def branch_hits_at_def branches_at_def)
  ultimately show ?thesis using M by (simp add: sized_def)
qed

subsection \<open>The import\<close>

lemma sort_dedup_set:
  assumes "set xs = set ys"
  shows "sort_dedup xs = sort_dedup ys"
proof -
  have strict: "sorted_wrt (<) zs" if "sorted zs" "distinct_adj zs" for zs :: "string list"
    using that
  proof (induction zs)
    case (Cons z zs)
    show ?case
    proof (cases zs)
      case (Cons y ys)
      with Cons.prems have "z \<le> y" "z \<noteq> y" "sorted_wrt (<) (y # ys)" using Cons.IH by auto
      with Cons show ?thesis by (auto intro: le_less_trans order.not_eq_order_implies_strict)
    qed simp
  qed simp
  have "sorted_wrt (<) (sort_dedup xs)" "sorted_wrt (<) (sort_dedup ys)"
    unfolding sort_dedup_def by (rule strict; simp)+
  then show ?thesis using assms by (intro strict_sorted_equal) (simp_all add: sort_dedup_def)
qed

definition report_with :: "import_externals \<Rightarrow> path \<Rightarrow> coverage_file list \<Rightarrow> coverage_source list \<Rightarrow> coverage_aggregate \<Rightarrow> string list \<Rightarrow> coverage_report" where
  "report_with x root sources inputs agg ds =
     \<lparr>coverage_version = COVERAGE_SCHEMA_VERSION,
      coverage_status = import_status inputs (joined \<lparr>flag_invalid = \<not> index_valid (index_of x root sources),
        flag_incomplete = False, flag_saw = False\<rparr> (map (input_flags x (index_of x root sources)) inputs)),
      coverage_files = aggregate_files agg,
      coverage_inputs = sort_key (\<lambda>i. (path_key (input_path i), input_format i, input_digest i)) (map (report_input x root) inputs),
      total_lines = line_counter agg, total_branches = branch_counter agg, coverage_diagnostics = sort_dedup ds\<rparr>"

lemma import_spec:
  "\<exists>D E. \<forall>inputs. \<exists>agg ds.
     import_coverage x root inputs sources = report_with x root sources inputs agg ds \<and>
     agg_inv (imported x root inputs sources) agg \<and>
     set ds = D \<union> (\<Union>i \<in> set inputs. E i) \<union> conflicts (imported x root inputs sources)"
proof -
  obtain index ds0 where new: "source_index_new (externals.truncate x) root sources [] = (index, ds0)"
    by (cases "source_index_new (externals.truncate x) root sources []")
  obtain E where E: "\<And>inputs f ds. \<exists>agg ds'. import_inputs x index inputs 0 f ([], ds) = (joined f (map (input_flags x index) inputs), agg, ds') \<and>
     agg_inv (merged x index inputs) agg \<and> set ds' = set ds \<union> (\<Union>i \<in> set inputs. E i) \<union> conflicts (merged x index inputs)"
    using import_inputs_spec [of x index] by blast
  show ?thesis
  proof (rule exI, rule exI, rule allI)
    fix inputs
    obtain agg ds' where "import_inputs x index inputs 0 \<lparr>flag_invalid = \<not> index_valid index, flag_incomplete = False, flag_saw = False\<rparr> ([], ds0) =
        (joined \<lparr>flag_invalid = \<not> index_valid index, flag_incomplete = False, flag_saw = False\<rparr> (map (input_flags x index) inputs), agg, ds')"
      "agg_inv (merged x index inputs) agg" "set ds' = set ds0 \<union> (\<Union>i \<in> set inputs. E i) \<union> conflicts (merged x index inputs)"
      using E by blast
    then show "\<exists>agg ds. import_coverage x root inputs sources = report_with x root sources inputs agg ds \<and>
       agg_inv (imported x root inputs sources) agg \<and>
       set ds = set ds0 \<union> (\<Union>i \<in> set inputs. E i) \<union> conflicts (imported x root inputs sources)"
      by (intro exI [of _ agg] exI [of _ ds']) (simp add: import_coverage_def new imported_def report_with_def)
  qed
qed

lemma import_one:
  "\<exists>agg ds. import_coverage x root inputs sources = report_with x root sources inputs agg ds \<and>
     agg_inv (imported x root inputs sources) agg"
  using import_spec [of x root sources] by blast

lemma import_aggregate:
  obtains agg where "agg_inv (imported x root inputs sources) agg"
    and "coverage_files (import_coverage x root inputs sources) = aggregate_files agg"
    and "total_lines (import_coverage x root inputs sources) = line_counter agg"
    and "total_branches (import_coverage x root inputs sources) = branch_counter agg"
proof -
  obtain agg ds where "import_coverage x root inputs sources = report_with x root sources inputs agg ds"
    "agg_inv (imported x root inputs sources) agg" using import_one by blast
  with that show thesis by (simp add: report_with_def)
qed

lemma import_status_flags:
  "coverage_status (import_coverage x root inputs sources) = import_status inputs (joined \<lparr>flag_invalid = \<not> index_valid (index_of x root sources),
        flag_incomplete = False, flag_saw = False\<rparr> (map (input_flags x (index_of x root sources)) inputs))"
  using import_one [of x root inputs sources] by (auto simp: report_with_def)

text \<open>C10: A coverage report depends on the set of its inputs only: neither their order nor repeated inputs change the
  measured files, the counters, the status or the diagnostics.\<close>

theorem import_order_irrelevant:
  assumes "set inputs = set inputs'"
  shows "coverage_files (import_coverage x root inputs sources) = coverage_files (import_coverage x root inputs' sources) \<and>
    total_lines (import_coverage x root inputs sources) = total_lines (import_coverage x root inputs' sources) \<and>
    total_branches (import_coverage x root inputs sources) = total_branches (import_coverage x root inputs' sources) \<and>
    coverage_status (import_coverage x root inputs sources) = coverage_status (import_coverage x root inputs' sources) \<and>
    coverage_diagnostics (import_coverage x root inputs sources) = coverage_diagnostics (import_coverage x root inputs' sources)"
proof -
  have M: "imported x root inputs sources = imported x root inputs' sources"
    using assms by (simp add: imported_def merged_def)
  obtain D E where spec: "\<And>inputs. \<exists>agg ds.
     import_coverage x root inputs sources = report_with x root sources inputs agg ds \<and>
     agg_inv (imported x root inputs sources) agg \<and>
     set ds = D \<union> (\<Union>i \<in> set inputs. E i) \<union> conflicts (imported x root inputs sources)"
    using import_spec [of x root sources] by blast
  have "joined f (map g inputs) = joined f (map g inputs')" for f g using assms by (simp add: joined_def)
  moreover have "inputs = [] \<longleftrightarrow> inputs' = []" using assms by (metis set_empty)
  ultimately have status: "import_status inputs (joined f (map g inputs)) = import_status inputs' (joined f (map g inputs'))" for f g
    by (simp add: import_status_def)
  obtain agg ds where i: "import_coverage x root inputs sources = report_with x root sources inputs agg ds"
    "agg_inv (imported x root inputs sources) agg"
    "set ds = D \<union> (\<Union>i \<in> set inputs. E i) \<union> conflicts (imported x root inputs sources)" using spec [of inputs] by (elim exE conjE)
  obtain agg' ds' where i': "import_coverage x root inputs' sources = report_with x root sources inputs' agg' ds'"
    "agg_inv (imported x root inputs' sources) agg'"
    "set ds' = D \<union> (\<Union>i \<in> set inputs'. E i) \<union> conflicts (imported x root inputs' sources)" using spec [of inputs'] by (elim exE conjE)
  have "sort_dedup ds = sort_dedup ds'" using i(3) i'(3) assms M by (intro sort_dedup_set) simp
  then show ?thesis using reports_agree [OF i(2) i'(2) [folded M]] status by (simp add: i(1) i'(1) report_with_def)
qed

text \<open>C11: The counters of a coverage report are exact and do not wrap: lines count the distinct lines some input measures,
  covered ones those some input hits, branches likewise by identity; and the files list exactly these lines with the
  union of their hits.\<close>

theorem import_counts_exact:
  assumes "length inputs < 2 ^ 40"
  shows "let r = import_coverage x root inputs sources; M = imported x root inputs sources in
    unat (eligible (total_lines r)) = card {(p, n). \<exists>h. MeasuredLine p n h \<in> M} \<and>
    unat (covered (total_lines r)) = card {(p, n). MeasuredLine p n True \<in> M} \<and>
    unat (eligible (total_branches r)) = card {((p, n), i). \<exists>h. MeasuredBranch p n i h \<in> M} \<and>
    unat (covered (total_branches r)) = card {((p, n), i). MeasuredBranch p n i True \<in> M} \<and>
    (\<forall>p n h. reported_hit r p n h \<longleftrightarrow> (\<exists>h'. MeasuredLine p n h' \<in> M) \<and> (h \<longleftrightarrow> MeasuredLine p n True \<in> M))"
proof -
  let ?M = "imported x root inputs sources"
  obtain agg where agg: "agg_inv ?M agg" "coverage_files (import_coverage x root inputs sources) = aggregate_files agg"
    "total_lines (import_coverage x root inputs sources) = line_counter agg"
    "total_branches (import_coverage x root inputs sources) = branch_counter agg" by (rule import_aggregate)
  have "sized ?M" unfolding imported_def by (rule sized_merged [OF assms])
  moreover have "unat (of_nat k :: u64) = k" if "k < 2 ^ 64" for k using that by (simp add: unat_of_nat)
  ultimately show ?thesis
    using files_hit [OF agg(1)] counters [OF agg(1)]
    by (simp add: agg Let_def sized_def reported_hit_def measured_at_def hit_at_def branches_at_def branch_hits_at_def
        line_values_def branch_values_def ex_in_conv [symmetric])
qed

text \<open>C27: A coverage report never names what was not analyzed: each of its files is an analyzed source of the class
  \<open>Source\<close>, and each of its lines is a physical line of that source.\<close>

theorem import_in_scope:
  assumes "f \<in> set (coverage_files (import_coverage x root inputs sources))"
  shows "\<exists>s \<in> set sources. cf_class s = Source \<and>
    normalize_source_path (lexical_path root) (is_windows_absolute (lexical_path root)) (cf_path s) = Some (coverage_path f) \<and>
    (\<forall>l \<in> set (coverage_lines f). 1 \<le> unat (covered_line l) \<and>
       unat (covered_line l) \<le> semantic_line_count (cf_source s) (language_for_path (cf_path s)))"
proof -
  let ?M = "imported x root inputs sources"
  let ?index = "index_of x root sources"
  obtain agg where agg: "agg_inv ?M agg" "coverage_files (import_coverage x root inputs sources) = aggregate_files agg"
    by (rule import_aggregate)
  then obtain p ls where f: "(p, ls) \<in> set agg" "f = file_report_of (p, ls)" using assms files_eq [OF agg(1)] by auto
  have ok: "map_of agg p = Some ls" "bt_ok ls" "ls \<noteq> []"
    using f(1) agg(1) bt_get_iff [of agg] by (auto simp: agg_inv_def agg_ok_def)
  have entry: "\<exists>s. map_of (index_entries ?index) p = Some s \<and> entry_class s = Source \<and> source_contains_line s n"
    if "(n, e) \<in> set ls" for n e
  proof -
    have "look agg p n = Some e" using that ok by (simp add: look_def bt_get_iff)
    then have "line_values ?M p n \<noteq> {} \<or> (\<exists>i. branch_values ?M p n i \<noteq> {})" using agg(1) unfolding agg_inv_def by blast
    then show ?thesis unfolding imported_def by (rule merged_values)
  qed
  obtain n e where "(n, e) \<in> set ls" using ok(3) by (cases ls) auto
  from entry [OF this] obtain s where s: "map_of (index_entries ?index) p = Some s" "entry_class s = Source" by blast
  obtain src where src: "src \<in> set sources" "normalize_source_path (lexical_path root) (is_windows_absolute (lexical_path root)) (cf_path src) = Some p"
    "s = source_entry_new (externals.truncate x) p src" using index_of_sources [OF s(1)] by blast
  have "1 \<le> unat n \<and> unat n \<le> semantic_line_count (cf_source src) (language_for_path (cf_path src))" if "(n, e) \<in> set ls" for n e
  proof -
    from entry [OF that] s(1) have "source_contains_line s n" by auto
    then show ?thesis by (simp add: source_contains_line_def src(3) source_entry_new_def unat_gt_0 Suc_le_eq)
  qed
  then show ?thesis using src s(2)
    by (intro bexI [of _ src]) (auto simp: f(2) file_report_of_def line_report_def source_entry_new_def)
qed

lemma is_digest_hex: "length bs = 32 \<Longrightarrow> is_digest (hex bs)"
  using set_hex hex_digit_ok by (auto simp: is_digest_def length_hex)

text \<open>C28: A coverage report passes its own validation exactly when the byte order of its paths, by which the importer sorts,
  is their order by components, the paths are normal forms and no input path normalizes to the root itself.\<close>

theorem import_validates:
  assumes "length inputs < 2 ^ 40" and "\<forall>bs. length (sha256 x bs) = 32"
  shows "validate_coverage (import_coverage x root inputs sources) = Inr () \<longleftrightarrow>
    (let paths = set (map coverage_path (coverage_files (import_coverage x root inputs sources))) in
     (\<forall>p \<in> paths. \<forall>q \<in> paths. p < q \<longrightarrow> path_less p q) \<and> (\<forall>p \<in> paths. is_normalized p)) \<and>
    (\<forall>i \<in> set inputs. report_input_path root (cs_path i) \<noteq> [])"
proof -
  let ?M = "imported x root inputs sources"
  let ?r = "import_coverage x root inputs sources"
  obtain agg where agg: "agg_inv ?M agg" "coverage_files ?r = aggregate_files agg" "total_lines ?r = line_counter agg"
    "total_branches ?r = branch_counter agg" by (rule import_aggregate)
  have size: "sized ?M" unfolding imported_def by (rule sized_merged [OF assms(1)])
  have paths: "map coverage_path (aggregate_files agg) = map fst agg"
    unfolding files_eq [OF agg(1)] by (simp add: file_report_of_def case_prod_unfold)
  have sorted: "sorted_wrt (<) (map fst agg)" using agg(1) by (simp add: agg_inv_def agg_ok_def)
  have order: "sorted_wrt path_less ps \<longleftrightarrow> (\<forall>p \<in> set ps. \<forall>q \<in> set ps. p < q \<longrightarrow> path_less p q)" if "sorted_wrt (<) ps" for ps :: "string list"
    using that by (induction ps) (auto dest: less_asym)
  have nonempty: "coverage_path f \<noteq> []" if "f \<in> set (aggregate_files agg)" for f
    using import_in_scope [of f x root inputs sources] that source_path_nonempty unfolding agg(2) by blast
  have positive: "n \<noteq> 0" if "line_values ?M p n \<noteq> {} \<or> (\<exists>i. branch_values ?M p n i \<noteq> {})" for p n
    using merged_values [OF that [unfolded imported_def]] by (auto simp: source_contains_line_def)
  have totals: "coverage_totals (coverage_files ?r) = Inr (total_lines ?r, total_branches ?r) \<longleftrightarrow>
     sorted_wrt path_less (map coverage_path (aggregate_files agg)) \<and> (\<forall>f \<in> set (aggregate_files agg). is_normalized (coverage_path f))"
    using aggregate_totals [OF agg(1) size positive] nonempty by (auto simp: agg)
  have counters_ok: "validate_coverage_counter (total_lines ?r) = Inr ()" "validate_coverage_counter (total_branches ?r) = Inr ()"
    using size by (auto simp: agg counters [OF agg(1)] validate_coverage_counter_def result_iffs sized_def word_le_nat_alt unat_of_nat not_less)
  have version: "coverage_version ?r = ASSESSMENT_SCHEMA_VERSION"
    by (simp add: import_coverage_def COVERAGE_SCHEMA_VERSION_def split: prod.split)
  have inputs: "set (coverage_inputs ?r) = report_input x root ` set inputs"
    by (simp add: import_coverage_def split: prod.split)
  have digest: "is_digest (hex (sha256 x bs))" for bs using assms(2) by (simp add: is_digest_hex)
  have "validate_coverage ?r = Inr () \<longleftrightarrow> coverage_totals (coverage_files ?r) = Inr (total_lines ?r, total_branches ?r) \<and>
      (\<forall>i \<in> set (coverage_inputs ?r). input_path i \<noteq> [])"
  proof -
    have "input_format i \<noteq> [] \<and> is_digest (input_digest i)" if "i \<in> set (coverage_inputs ?r)" for i
      using that digest unfolding inputs by (auto simp: report_input_def elim: format_as_str.elims)
    then show ?thesis
      by (auto simp: validate_coverage_def version counters_ok result_iffs try_all_Inr_iff split: prod.splits)
  qed
  also have "\<dots> \<longleftrightarrow> (let paths = set (map coverage_path (coverage_files ?r)) in
     (\<forall>p \<in> paths. \<forall>q \<in> paths. p < q \<longrightarrow> path_less p q) \<and> (\<forall>p \<in> paths. is_normalized p)) \<and>
    (\<forall>i \<in> set inputs. report_input_path root (cs_path i) \<noteq> [])"
    unfolding totals unfolding inputs Let_def agg(2) order [OF sorted [folded paths]] by (auto simp: report_input_def)
  finally show ?thesis .
qed

subsection \<open>An example\<close>

text \<open>Two analyzed files, \<open>a.py\<close> and \<open>a/b.py\<close>, and a report that covers the line of each.\<close>

definition sample_externals :: import_externals where
  "sample_externals = \<lparr>sha256 = (\<lambda>_. replicate 32 (CHR 0x00)), md5 = id, base64_no_pad = id, to_lowercase = map ascii_lower,
     read_xml = (\<lambda>_. ([], None))\<rparr>"

definition sample_source :: "string \<Rightarrow> coverage_file" where
  "sample_source p = \<lparr>cf_path = p, cf_source = ''x'', cf_class = Source\<rparr>"

definition sample_hit :: "string \<Rightarrow> parsed_file" where
  "sample_hit p = \<lparr>pf_path = p, pf_lines = [\<lparr>pl_line = 1, pl_covered = True, pl_checksum = None\<rparr>], pf_branches = [], pf_hash = None\<rparr>"

definition sample_input :: coverage_source where
  "sample_input = \<lparr>cs_path = ''cov.info'', cs_format = LcovFormat, cs_content = lcov_text [sample_hit ''a.py'', sample_hit ''a/b.py'']\<rparr>"

definition sample_sources :: "coverage_file list" where
  "sample_sources = [sample_source ''a.py'', sample_source ''a/b.py'']"

lemma sample_lossy [simp]:
  "lossy ''a.py'' = ''a.py''" "lossy ''a/b.py'' = ''a/b.py''" "lossy ''/r'' = ''/r''" "lossy ''cov.info'' = ''cov.info''"
  by (rule lossy_utf8, rule utf8_ascii, simp)+

lemma sample_paths:
  "normalize_path_text ''/r'' False ''a.py'' b = Some ''a.py''" "normalize_path_text ''/r'' False ''a/b.py'' b = Some ''a/b.py''"
  "lexical_path ''a.py'' = ''a.py''" "lexical_path ''a/b.py'' = ''a/b.py''" "lexical_path ''/r'' = ''/r''"
  "is_windows_absolute ''/r'' = False"
  by (simp_all add: normalize_path_text_def replace_backslash_def report_path_components_def is_absolute_like_def
      is_windows_absolute_def starts_with_def path_components_def clean_path_components_def join_with_def lexical_path_def
      del: lossy.simps)

lemma sample_index:
  "index_entries (index_of x ''/r'' sample_sources) =
     [(''a.py'', source_entry_new (externals.truncate x) ''a.py'' (sample_source ''a.py'')),
      (''a/b.py'', source_entry_new (externals.truncate x) ''a/b.py'' (sample_source ''a/b.py''))]"
  "index_valid (index_of x ''/r'' sample_sources)" "index_root (index_of x ''/r'' sample_sources) = ''/r''"
  "\<not> index_root_windows (index_of x ''/r'' sample_sources)"
  by (simp_all add: source_index_new_def sample_sources_def index_source_def sample_source_def normalize_source_path_def sample_paths Let_def)


lemma sample_parsed:
  "parsed_of x sample_input = \<lparr>parsed_records = [sample_hit ''a.py'', sample_hit ''a/b.py''], parsed_invalid = False,
     parsed_incomplete = False, parsed_saw = True\<rparr>"
proof -
  have "\<forall>f \<in> set [sample_hit ''a.py'', sample_hit ''a/b.py'']. writable f"
    by (simp add: sample_hit_def writable_def solid_def)
  then show ?thesis unfolding parsed_of_def parse_input_def sample_input_def
    by (simp only: coverage_source.select_convs coverage_format.case parse_written fst_conv list.distinct simp_thms not_False_eq_True)
qed

lemma sample_readable: "readable x sample_input"
proof -
  have d: "decimal 0 = ''0''" "decimal 1 = ''1''" "decimal (Suc 0) = ''1''" "decimal 2 = ''2''"
    using char_of_char [of "CHR ''1''", where 'a = nat] char_of_char [of "CHR ''0''", where 'a = nat] char_of_char [of "CHR ''2''", where 'a = nat]
    by (simp_all add: decimal.simps digit_def del: char_of_char)
  have "length (cs_content sample_input) \<le> MAX_INPUT_BYTES"
    by (simp add: sample_input_def lcov_text_def file_texts_def sample_hit_def line_text_def hit_text_def summary_texts_def
        distinct_count_def d MAX_INPUT_BYTES_def)
  then show ?thesis
    by (simp add: readable_def sample_parsed coverage_measurement_count_def sample_hit_def MAX_RECORDS_def MAX_MEASUREMENTS_def
        usize_max_def) (simp add: sample_input_def)
qed

lemma sample_target:
  "target x (index_of x ''/r'' sample_sources) (sample_hit ''a.py'') =
     Some (''a.py'', source_entry_new (externals.truncate x) ''a.py'' (sample_source ''a.py''))"
  "target x (index_of x ''/r'' sample_sources) (sample_hit ''a/b.py'') =
     Some (''a/b.py'', source_entry_new (externals.truncate x) ''a/b.py'' (sample_source ''a/b.py''))"
  by (simp_all add: target_def resolve_path_def normalize_report_path_def sample_hit_def sample_index sample_paths
      source_entry_new_def)

lemma sample_measurements: "semantic_line_count ''x'' l = 1"
proof -
  have "line_break_width ''x'' 0 l = None" by (simp add: line_break_width_def idx_def split: option.split)
  then have "semantic_count_from ''x'' l 0 1 = semantic_count_from ''x'' l 1 1"
    by (subst semantic_count_from.simps) simp
  also have "\<dots> = 1" by (subst semantic_count_from.simps) simp
  finally show ?thesis by (simp add: semantic_line_count_def)
qed

lemma sample_line: "source_contains_line (source_entry_new x p \<lparr>cf_path = q, cf_source = ''x'', cf_class = c\<rparr>) 1"
  by (simp add: source_contains_line_def source_entry_new_def sample_measurements)

lemma sample_imported:
  "imported x ''/r'' [sample_input] sample_sources = {MeasuredLine ''a.py'' 1 True, MeasuredLine ''a/b.py'' 1 True}"
proof -
  have "entry_class (source_entry_new y p (sample_source q)) = Source" for y p q by (simp add: source_entry_new_def sample_source_def)
  then have "imported x ''/r'' [sample_input] sample_sources =
      set (record_measures ''a.py'' (source_entry_new (externals.truncate x) ''a.py'' (sample_source ''a.py'')) (sample_hit ''a.py'')) \<union>
      set (record_measures ''a/b.py'' (source_entry_new (externals.truncate x) ''a/b.py'' (sample_source ''a/b.py'')) (sample_hit ''a/b.py''))"
    by (simp add: imported_def merged_def input_measures_def sample_readable sample_parsed parsed_record_measures_def sample_target)
  then show ?thesis by (simp add: record_measures_def line_measures_def sample_hit_def sample_source_def sample_line insert_commute)
qed

lemma sample_hits:
  "reported_hit (import_coverage x ''/r'' [sample_input] sample_sources) p n h \<longleftrightarrow> (p = ''a.py'' \<or> p = ''a/b.py'') \<and> n = 1 \<and> h"
proof -
  obtain agg where agg: "agg_inv (imported x ''/r'' [sample_input] sample_sources) agg"
    "coverage_files (import_coverage x ''/r'' [sample_input] sample_sources) = aggregate_files agg" by (rule import_aggregate)
  show ?thesis unfolding reported_hit_def agg(2) files_hit [OF agg(1)] sample_imported line_values_def by auto
qed

lemma sample_files:
  "\<exists>f \<in> set (coverage_files (import_coverage x ''/r'' [sample_input] sample_sources)). coverage_path f = ''a.py''"
  "\<exists>f \<in> set (coverage_files (import_coverage x ''/r'' [sample_input] sample_sources)). coverage_path f = ''a/b.py''"
  using sample_hits [of x "''a.py''" 1 True] sample_hits [of x "''a/b.py''" 1 True] by (auto simp: reported_hit_def)

lemma sample_status: "coverage_status (import_coverage x ''/r'' [sample_input] sample_sources) = Complete"
proof -
  let ?index = "index_of x ''/r'' sample_sources"
  have "line_ok x (source_entry_new y p (sample_source q)) \<lparr>pl_line = 1, pl_covered = True, pl_checksum = None\<rparr>" for y p q
    by (simp add: line_ok_def sample_source_def sample_line)
  moreover have "entry_class (source_entry_new y p (sample_source q)) = Source" for y p q by (simp add: source_entry_new_def sample_source_def)
  ultimately have "parsed_record_flags x ?index (sample_hit ''a.py'') = (False, True)" "parsed_record_flags x ?index (sample_hit ''a/b.py'') = (False, True)"
    unfolding parsed_record_flags_def sample_target option.case prod.case
    by (simp_all add: record_flags_def hash_ok_def sample_hit_def sample_source_def sample_line)
  then have flags: "input_flags x ?index sample_input = \<lparr>flag_invalid = False, flag_incomplete = False, flag_saw = True\<rparr>"
    by (simp add: input_flags_def sample_readable sample_parsed)
  show ?thesis by (simp add: import_status_flags import_status_def joined_def flags sample_index)
qed

subsection \<open>What completeness means\<close>

definition record_clean :: "import_externals \<Rightarrow> source_index \<Rightarrow> parsed_file \<Rightarrow> bool" where
  "record_clean x index r \<longleftrightarrow>
     (case target x index r of None \<Rightarrow> False
      | Some (p, s) \<Rightarrow> entry_class s \<noteq> Source \<or> hash_ok s r \<and> list_all (line_ok x s) (pf_lines r) \<and>
          list_all (\<lambda>b. source_contains_line s (pb_line b)) (pf_branches r))"

definition input_clean :: "import_externals \<Rightarrow> source_index \<Rightarrow> coverage_source \<Rightarrow> bool" where
  "input_clean x index i \<longleftrightarrow> readable x i \<and> \<not> parsed_invalid (parsed_of x i) \<and> \<not> parsed_incomplete (parsed_of x i) \<and>
     list_all (record_clean x index) (parsed_records (parsed_of x i))"

lemma input_clean_flags: "input_clean x index i \<longleftrightarrow> \<not> flag_invalid (input_flags x index i) \<and> \<not> flag_incomplete (input_flags x index i)"
proof -
  have "fst (parsed_record_flags x index r) \<longleftrightarrow> \<not> record_clean x index r" for r
    by (auto simp: parsed_record_flags_def record_flags_def record_clean_def list_all_iff split: option.splits)
  then show ?thesis by (auto simp: input_clean_def input_flags_def invalid_input_def Let_def list_all_iff)
qed


subsection \<open>The theorems at the example\<close>

text \<open>Reading the same report twice changes nothing but the list of inputs.\<close>

theorem import_order_irrelevant_witness:
  "coverage_files (import_coverage sample_externals ''/r'' [sample_input, sample_input] sample_sources) =
     coverage_files (import_coverage sample_externals ''/r'' [sample_input] sample_sources)"
  using import_order_irrelevant [of "[sample_input, sample_input]" "[sample_input]" sample_externals "''/r''" sample_sources] by simp

theorem import_counts_exact_witness:
  "unat (eligible (total_lines (import_coverage sample_externals ''/r'' [sample_input] sample_sources))) = 2"
proof -
  have "{(p, n). \<exists>h. MeasuredLine p n h \<in> imported sample_externals ''/r'' [sample_input] sample_sources} = {(''a.py'', 1), (''a/b.py'', 1)}"
    by (auto simp: sample_imported)
  then show ?thesis
    using import_counts_exact [of "[sample_input]" sample_externals "''/r''" sample_sources] by (simp add: Let_def)
qed

theorem import_in_scope_witness:
  "\<exists>f \<in> set (coverage_files (import_coverage sample_externals ''/r'' [sample_input] sample_sources)). coverage_path f = ''a.py'' \<and>
    (\<exists>s \<in> set sample_sources. normalize_source_path (lexical_path ''/r'') (is_windows_absolute (lexical_path ''/r'')) (cf_path s) = Some ''a.py'')"
proof -
  obtain f where f: "f \<in> set (coverage_files (import_coverage sample_externals ''/r'' [sample_input] sample_sources))" "coverage_path f = ''a.py''"
    using sample_files by blast
  from import_in_scope [OF f(1)] f show ?thesis by (intro bexI [of _ f]) auto
qed

text \<open>The example is complete, yet its validation fails: a file named like a directory with a suffix sorts before the
  files of the directory by bytes, and after them by components.\<close>

theorem import_validates_witness:
  "coverage_status (import_coverage sample_externals ''/r'' [sample_input] sample_sources) = Complete \<and>
   validate_coverage (import_coverage sample_externals ''/r'' [sample_input] sample_sources) \<noteq> Inr ()"
proof -
  let ?paths = "set (map coverage_path (coverage_files (import_coverage sample_externals ''/r'' [sample_input] sample_sources)))"
  have "''a.py'' \<in> ?paths" "''a/b.py'' \<in> ?paths" using sample_files [of sample_externals] by force+
  moreover have "''a.py'' < ''a/b.py''" "\<not> path_less ''a.py'' ''a/b.py''"
    by (simp_all add: path_key_def path_component_def less_component_def)
  ultimately have "\<not> (\<forall>p \<in> ?paths. \<forall>q \<in> ?paths. p < q \<longrightarrow> path_less p q)" by blast
  moreover have "\<forall>bs. length (sha256 sample_externals bs) = 32" by (simp add: sample_externals_def)
  ultimately have "validate_coverage (import_coverage sample_externals ''/r'' [sample_input] sample_sources) \<noteq> Inr ()"
    using import_validates [of "[sample_input]" sample_externals "''/r''" sample_sources] unfolding Let_def by simp
  then show ?thesis using sample_status by blast
qed

end
