(* ===== verification/OpenCoverSpec.thy ===== *)
theory OpenCoverSpec
  imports OpenCover
begin

text \<open>
  The OpenCover reader against an abstract recognizer of documents. The recognizer keeps the open elements and
  the number of document roots, and fails on what the format forbids. The reader simulates it: a report read
  without a defect is a document with one \<open>CoverageSession\<close> root, closed in order, within the depth limit.
\<close>

subsection \<open>Documents\<close>

type_synonym doc_state = "string list \<times> nat"

definition open_element :: "string \<Rightarrow> doc_state \<Rightarrow> doc_state option" where
  "open_element name s =
     (if length (fst s) < MAX_XML_DEPTH \<and> (fst s = [] \<longrightarrow> name = ''coveragesession'' \<and> snd s = 0)
      then Some (name # fst s, if fst s = [] then 1 else snd s) else None)"

definition close_element :: "string \<Rightarrow> doc_state \<Rightarrow> doc_state option" where
  "close_element name s = (case fst s of [] \<Rightarrow> None | n # ns \<Rightarrow> if n = name then Some (ns, snd s) else None)"

fun doc_step :: "xml_event \<Rightarrow> doc_state \<Rightarrow> doc_state option" where
  "doc_step (XmlStart raw as) s = open_element (xml_name raw) s"
| "doc_step (XmlEmpty raw as) s = Option.bind (open_element (xml_name raw) s) (close_element (xml_name raw))"
| "doc_step (XmlEnd raw) s = close_element (xml_name raw) s"
| "doc_step (XmlText t) s = (if length t \<le> MAX_XML_TEXT \<and> (fst s = [] \<longrightarrow> t = []) then Some s else None)"
| "doc_step XmlDocType s = None"
| "doc_step XmlGeneralRef s = None"
| "doc_step XmlDecl s = Some s"
| "doc_step XmlComment s = Some s"
| "doc_step XmlCData s = Some s"
| "doc_step XmlPI s = Some s"

fun doc_run :: "xml_event list \<Rightarrow> doc_state \<Rightarrow> doc_state option" where
  "doc_run [] s = Some s"
| "doc_run (e # es) s = Option.bind (doc_step e s) (doc_run es)"

subsection \<open>What the handlers leave alone\<close>

abbreviation invalid :: "oc_parser \<Rightarrow> bool" where
  "invalid p \<equiv> parsed_invalid (oc_parsed p)"

text \<open>\<open>q\<close> has the nesting of \<open>p\<close> and is valid only if \<open>p\<close> is.\<close>

definition calm :: "oc_parser \<Rightarrow> oc_parser \<Rightarrow> bool" where
  "calm p q \<longleftrightarrow> oc_depth q = oc_depth p \<and> oc_stack q = oc_stack p \<and> oc_root_seen q = oc_root_seen p \<and>
     oc_root_closed q = oc_root_closed p \<and> (invalid p \<longrightarrow> invalid q)"

lemma calm_refl [simp]: "calm p p"
  by (simp add: calm_def)

lemma calm_trans: "calm p q \<Longrightarrow> calm q r \<Longrightarrow> calm p r"
  by (simp add: calm_def)

named_theorems calms \<open>operations that keep the nesting\<close>

lemma calm_basic [calms]:
  "calm p q \<Longrightarrow> calm p (oc_reject d q)" "calm p q \<Longrightarrow> calm p (oc_note d q)" "calm p q \<Longrightarrow> calm p (oc_truncate d q)"
  "calm p q \<Longrightarrow> calm p (q\<lparr>oc_files := fs\<rparr>)" "calm p q \<Longrightarrow> calm p (q\<lparr>oc_summary := s\<rparr>)"
  "calm p q \<Longrightarrow> calm p (q\<lparr>oc_records := rs\<rparr>)" "calm p q \<Longrightarrow> calm p (q\<lparr>oc_method_anchor := a\<rparr>)"
  "calm p q \<Longrightarrow> calm p (q\<lparr>oc_method_uid := u\<rparr>)"
  "calm p q \<Longrightarrow> calm p (q\<lparr>oc_method_child := c, oc_method_child_text := t\<rparr>)" "calm p q \<Longrightarrow> calm p (q\<lparr>oc_method_child_text := t\<rparr>)"
  "calm p q \<Longrightarrow> calm p (q\<lparr>oc_method_child := c\<rparr>)"
  "calm p q \<Longrightarrow> calm p (count_sequence b q)" "calm p q \<Longrightarrow> calm p (count_branch b q)"
  by (simp_all add: calm_def oc_reject_def oc_note_def oc_truncate_def count_sequence_def count_branch_def)

lemma calm_if [calms]: "calm p q \<Longrightarrow> calm p r \<Longrightarrow> calm p (if b then q else r)"
  by simp

lemma calm_branches [calms]:
  "calm p (f v) \<Longrightarrow> calm p (Let v f)"
  "calm p a \<Longrightarrow> (\<And>x. calm p (b x)) \<Longrightarrow> calm p (case_option a b o')"
  "(\<And>x. calm p (c x)) \<Longrightarrow> (\<And>x. calm p (d x)) \<Longrightarrow> calm p (case_sum c d r)"
  by (simp_all split: option.split sum.split)

lemma calm_records [calms]: "calm p q \<Longrightarrow> calm p (update_file_record path h q)" "calm p q \<Longrightarrow> calm p (edit_record path f q)"
  unfolding update_file_record_def edit_record_def Let_def by (intro calms | assumption)+

lemma calm_element: "calm p (handle_element name attrs p)"
proof -
  have "calm p (handle_file attrs p)" "calm p (handle_summary attrs p)"
    by (simp_all add: handle_file_def handle_summary_def Let_def calms split: option.split)
  moreover have "calm p (handle_file_ref attrs p)"
    by (simp add: handle_file_ref_def Let_def calm_def oc_reject_def split: option.split)
  moreover have "calm p (handle_method attrs p)"
  proof -
    have "calm p (p\<lparr>oc_method_uid := a, oc_method_anchor := b, oc_method_file_uid := c, oc_method_file := d\<rparr>)" for a b c d
      by (simp add: calm_def)
    then show ?thesis unfolding handle_method_def Let_def .
  qed
  moreover have "calm p (handle_sequence_point attrs p)"
    unfolding handle_sequence_point_def by (intro calms calm_refl)
  moreover have "calm p (handle_branch_point attrs p)"
    unfolding handle_branch_point_def by (intro calms calm_refl)
  ultimately show ?thesis by (simp add: handle_element_def)
qed

lemma calm_attributes: "xml_attributes as p = (attrs, q) \<Longrightarrow> calm p q"
proof -
  have "fold xml_attribute_step as (m, p) = (attrs, q) \<Longrightarrow> calm p q" for m
  proof (induction as arbitrary: m p)
    case (Cons a as)
    obtain m' p' where s: "xml_attribute_step a (m, p) = (m', p')" by (cases "xml_attribute_step a (m, p)")
    then have "calm p p'" by (cases a) (auto simp: xml_attribute_step_def intro!: calms)
    moreover have "calm p' q" using Cons s by simp
    ultimately show ?case by (rule calm_trans)
  qed simp
  then show "xml_attributes as p = (attrs, q) \<Longrightarrow> calm p q" by (simp add: xml_attributes_def)
qed

lemma calm_child: "calm p (start_method_child name e p)" "calm p (close_method_child name p)"
  unfolding start_method_child_def close_method_child_def Let_def by (auto intro!: calms split: option.split)

subsection \<open>The simulation\<close>

text \<open>A valid reader state and the recognizer's: the stack holds the open elements; a root is open or was closed.\<close>

definition simulates :: "oc_parser \<Rightarrow> doc_state \<Rightarrow> bool" where
  "simulates p s \<longleftrightarrow> oc_stack p = fst s \<and> oc_depth p = length (fst s) \<and> snd s = (if oc_root_seen p then 1 else 0) \<and>
     (fst s = [] \<longrightarrow> oc_root_closed p = oc_root_seen p) \<and>
     (fst s \<noteq> [] \<longrightarrow> last (fst s) = ''coveragesession'' \<and> oc_root_seen p \<and> \<not> oc_root_closed p)"

lemma simulates_calm: "calm p q \<Longrightarrow> simulates p s \<Longrightarrow> simulates q s"
  by (simp add: calm_def simulates_def)

text \<open>Opening an element, up to the handlers.\<close>

definition opened :: "string \<Rightarrow> oc_parser \<Rightarrow> oc_parser" where
  "opened name p =
     (let p = p\<lparr>oc_depth := oc_depth p + 1\<rparr>;
          p = (if oc_depth p > MAX_XML_DEPTH then oc_reject ''OpenCover XML nesting exceeds the bounded importer limit'' p else p) in
      handle_root name p)"

definition handled :: "string \<Rightarrow> xml_attribute list \<Rightarrow> bool \<Rightarrow> oc_parser \<Rightarrow> oc_parser" where
  "handled name as is_empty p =
     (let p = start_method_child name is_empty p; (attrs, p) = xml_attributes as p in handle_element name attrs p)"

lemma handle_start_split: "handle_start raw as is_empty p =
    (let name = xml_name raw; q = opened name p;
         q = handled name as is_empty (if is_empty then q else q\<lparr>oc_stack := name # oc_stack q\<rparr>) in
     if is_empty then close_empty name q else q)"
  by (simp add: handle_start_def opened_def handled_def Let_def split: prod.split)

lemma calm_handled: "calm p (handled name as is_empty p)"
proof -
  obtain attrs q where a: "xml_attributes as (start_method_child name is_empty p) = (attrs, q)"
    by (cases "xml_attributes as (start_method_child name is_empty p)")
  have "calm p q" by (rule calm_trans [OF calm_child(1) calm_attributes [OF a]])
  then have "calm p (handle_element name attrs q)" by (rule calm_trans [OF _ calm_element])
  then show ?thesis by (simp add: handled_def a)
qed

lemma opened_spec:
  assumes "simulates p s" and "\<not> invalid (opened name p)"
  shows "\<not> invalid p" and "\<exists>s'. open_element name s = Some s' \<and> s' = (name # fst s, 1) \<and>
     oc_depth (opened name p) = length (fst s) + 1 \<and> oc_stack (opened name p) = fst s \<and> oc_root_seen (opened name p) \<and>
     \<not> oc_root_closed (opened name p)"
  using assms by (auto simp: opened_def handle_root_def simulates_def open_element_def oc_reject_def Let_def split: if_splits)

lemma start_simulates:
  assumes "simulates p s" and "\<not> invalid (handle_event (XmlStart raw as) p)"
  shows "\<not> invalid p \<and> (\<exists>s'. doc_step (XmlStart raw as) s = Some s' \<and> simulates (handle_event (XmlStart raw as) p) s')"
proof -
  let ?q = "opened (xml_name raw) p"
  let ?q' = "?q\<lparr>oc_stack := xml_name raw # oc_stack ?q\<rparr>"
  have final: "handle_event (XmlStart raw as) p = handled (xml_name raw) as False ?q'" by (simp add: handle_start_split Let_def)
  have "\<not> invalid ?q'" using assms(2) calm_handled [of ?q' "xml_name raw" as False] unfolding final by (auto simp: calm_def)
  then have "\<not> invalid ?q" by simp
  from opened_spec [OF assms(1) this] obtain s' where s': "\<not> invalid p" "open_element (xml_name raw) s = Some s'"
    "s' = (xml_name raw # fst s, 1)" "oc_depth ?q = length (fst s) + 1" "oc_stack ?q = fst s" "oc_root_seen ?q" "\<not> oc_root_closed ?q" by blast
  have "last (xml_name raw # fst s) = ''coveragesession''"
    using s'(2) assms(1) by (auto simp: open_element_def simulates_def split: if_splits)
  then have "simulates ?q' s'" using s' by (simp add: simulates_def)
  then have "simulates (handled (xml_name raw) as False ?q') s'" by (rule simulates_calm [OF calm_handled])
  then show ?thesis using s'(1,2) final by auto
qed

lemma empty_simulates:
  assumes "simulates p s" and "\<not> invalid (handle_event (XmlEmpty raw as) p)"
  shows "\<not> invalid p \<and> (\<exists>s'. doc_step (XmlEmpty raw as) s = Some s' \<and> simulates (handle_event (XmlEmpty raw as) p) s')"
proof -
  let ?q = "opened (xml_name raw) p"
  let ?r = "handled (xml_name raw) as True ?q"
  have final: "handle_event (XmlEmpty raw as) p = close_empty (xml_name raw) ?r" by (simp add: handle_start_split Let_def)
  have "\<not> invalid ?r" using assms(2) unfolding final by (auto simp: close_empty_def Let_def split: if_splits)
  then have "\<not> invalid ?q" using calm_handled [of ?q "xml_name raw" as True] by (auto simp: calm_def)
  from opened_spec [OF assms(1) this] obtain s' where s': "\<not> invalid p" "open_element (xml_name raw) s = Some s'"
    "s' = (xml_name raw # fst s, 1)" "oc_depth ?q = length (fst s) + 1" "oc_stack ?q = fst s" "oc_root_seen ?q" "\<not> oc_root_closed ?q" by blast
  have "oc_depth ?r = length (fst s) + 1" "oc_stack ?r = fst s" "oc_root_seen ?r" "\<not> oc_root_closed ?r"
    using calm_handled [of ?q "xml_name raw" as True] s' by (auto simp: calm_def)
  moreover have "fst s = [] \<longrightarrow> xml_name raw = ''coveragesession''" using s'(2) by (auto simp: open_element_def split: if_splits)
  ultimately have "simulates (close_empty (xml_name raw) ?r) (fst s, 1)"
    using assms(1) by (auto simp: simulates_def close_empty_def Let_def)
  moreover have "doc_step (XmlEmpty raw as) s = Some (fst s, 1)" using s'(2,3) by (simp add: close_element_def)
  ultimately show ?thesis using s'(1) final by auto
qed

definition closed :: "string \<Rightarrow> oc_parser \<Rightarrow> oc_parser" where
  "closed name p =
     (let matches = (case oc_stack p of [] \<Rightarrow> False | expected # _ \<Rightarrow> expected = name);
          p = p\<lparr>oc_stack := tl (oc_stack p)\<rparr>;
          p = (if matches then p else oc_reject (''mismatched OpenCover XML closing tag '' @ [CHR 0x27] @ name @ [CHR 0x27]) p);
          p = (if name = ''method'' then p\<lparr>oc_method_file := None, oc_method_uid := None, oc_method_file_uid := None,
            oc_method_anchor := None\<rparr> else p);
          p = (if name = ''coveragesession'' \<and> oc_depth p = 1 then p\<lparr>oc_root_closed := True\<rparr> else p) in
      p\<lparr>oc_depth := oc_depth p - 1\<rparr>)"

lemma handle_end_split: "handle_end raw p = closed (xml_name raw) (close_method_child (xml_name raw) p)"
  unfolding handle_end_def closed_def Let_def ..

lemma closed_facts:
  "invalid (closed name p) \<longleftrightarrow> invalid p \<or> (case oc_stack p of [] \<Rightarrow> True | n # _ \<Rightarrow> n \<noteq> name)"
  "oc_stack (closed name p) = tl (oc_stack p)" "oc_depth (closed name p) = oc_depth p - 1"
  "oc_root_seen (closed name p) = oc_root_seen p"
  "oc_root_closed (closed name p) = (oc_root_closed p \<or> name = ''coveragesession'' \<and> oc_depth p = 1)"
  by (auto simp: closed_def Let_def oc_reject_def split: list.split)

lemma closed_simulates:
  assumes "simulates q s" and "\<not> invalid (closed name q)"
  shows "\<not> invalid q \<and> (\<exists>s'. close_element name s = Some s' \<and> simulates (closed name q) s')"
proof -
  obtain ns where ns: "fst s = name # ns" "\<not> invalid q"
    using assms by (auto simp: closed_facts simulates_def split: list.splits)
  have "simulates (closed name q) (ns, snd s)" using assms(1) by (auto simp: simulates_def closed_facts ns)
  then show ?thesis by (simp add: close_element_def ns)
qed

lemma end_simulates:
  assumes "simulates p s" and "\<not> invalid (handle_event (XmlEnd raw) p)"
  shows "\<not> invalid p \<and> (\<exists>s'. doc_step (XmlEnd raw) s = Some s' \<and> simulates (handle_event (XmlEnd raw) p) s')"
proof -
  have calm: "calm p (close_method_child (xml_name raw) p)" by (rule calm_child)
  from closed_simulates [OF simulates_calm [OF this assms(1)]] assms(2)
  have "\<not> invalid (close_method_child (xml_name raw) p)"
    "\<exists>s'. close_element (xml_name raw) s = Some s' \<and> simulates (handle_end raw p) s'"
    by (simp_all add: handle_end_split)
  then show ?thesis using calm by (auto simp: calm_def)
qed

lemma reject_facts:
  "invalid (oc_reject d p)" "oc_depth (oc_reject d p) = oc_depth p" "oc_stack (oc_reject d p) = oc_stack p"
  "oc_root_seen (oc_reject d p) = oc_root_seen p" "oc_root_closed (oc_reject d p) = oc_root_closed p"
  "parsed_incomplete (oc_parsed (oc_reject d p)) = parsed_incomplete (oc_parsed p)"
  "oc_records (oc_reject d p) = oc_records p" "oc_summary (oc_reject d p) = oc_summary p"
  "invalid (oc_truncate d p) = invalid p" "parsed_incomplete (oc_parsed (oc_truncate d p))"
  "oc_records (oc_truncate d p) = oc_records p" "oc_summary (oc_truncate d p) = oc_summary p"
  "oc_depth (oc_truncate d p) = oc_depth p" "oc_stack (oc_truncate d p) = oc_stack p"
  "oc_root_seen (oc_truncate d p) = oc_root_seen p"
  by (simp_all add: oc_reject_def oc_truncate_def)

lemma handle_text_facts:
  "invalid (handle_text t p) \<longleftrightarrow> invalid p \<or> length t > MAX_XML_TEXT \<or> oc_depth p = 0 \<and> t \<noteq> []"
  "oc_stack (handle_text t p) = oc_stack p" "oc_depth (handle_text t p) = oc_depth p"
  "oc_root_seen (handle_text t p) = oc_root_seen p" "oc_root_closed (handle_text t p) = oc_root_closed p"
  unfolding handle_text_def Let_def by (simp_all add: reject_facts)

lemma event_simulates:
  assumes "simulates p s" and "\<not> invalid (handle_event e p)"
  shows "\<not> invalid p \<and> (\<exists>s'. doc_step e s = Some s' \<and> simulates (handle_event e p) s')"
proof (cases e)
  case (XmlText t)
  then show ?thesis using assms
    by (simp add: handle_text_facts simulates_def)
qed (use assms start_simulates empty_simulates end_simulates in \<open>auto simp: reject_facts\<close>)

lemma invalid_stays: "invalid p \<Longrightarrow> invalid (handle_event e p)"
proof -
  assume p: "invalid p"
  have start: "invalid (handle_start raw as b p)" for raw as b
  proof -
    have "invalid (opened (xml_name raw) p)"
      using p by (simp add: opened_def handle_root_def oc_reject_def Let_def)
    then have "invalid (handled (xml_name raw) as b (if b then opened (xml_name raw) p
        else (opened (xml_name raw) p)\<lparr>oc_stack := xml_name raw # oc_stack (opened (xml_name raw) p)\<rparr>))"
      using calm_handled by (auto simp: calm_def)
    then show ?thesis by (cases b) (auto simp: handle_start_split Let_def close_empty_def)
  qed
  have "invalid (close_method_child name p)" for name using calm_child(2) [of p name] p by (simp add: calm_def)
  then have "invalid (handle_end raw p)" for raw by (simp add: handle_end_split closed_facts)
  with start p show ?thesis by (cases e) (simp_all add: handle_text_facts reject_facts)
qed

lemma invalid_stays_run: "invalid p \<Longrightarrow> invalid (fold handle_event es p)"
  by (induction es arbitrary: p) (simp_all add: invalid_stays)

lemma finish_flags:
  "invalid p \<Longrightarrow> invalid (oc_finish p)" "\<not> oc_root_seen p \<Longrightarrow> invalid (oc_finish p)"
  "parsed_incomplete (oc_parsed p) \<Longrightarrow> parsed_incomplete (oc_parsed (oc_finish p))"
  "oc_stack p \<noteq> [] \<Longrightarrow> parsed_incomplete (oc_parsed (oc_finish p))"
proof -
  define p1 where "p1 = (if \<not> oc_root_seen p then oc_reject ''OpenCover document root must be CoverageSession'' p else p)"
  define p2 where "p2 = (if oc_depth p1 \<noteq> 0 \<or> oc_stack p1 \<noteq> [] then oc_truncate ''truncated OpenCover XML document'' p1 else p1)"
  obtain p3 where p3: "oc_finish p = (let q = p3\<lparr>oc_parsed := (oc_parsed p3)\<lparr>parsed_records := map snd (oc_records p3),
      parsed_saw := oc_records p3 \<noteq> []\<rparr>\<rparr> in
      if oc_records q = [] \<and> \<not> parsed_invalid (oc_parsed q) \<and> \<not> parsed_incomplete (oc_parsed q)
      then oc_truncate ''OpenCover document contains no coverage records'' q else q)" "p3 = p2 \<or> (\<exists>d. p3 = oc_reject d p2)"
  proof
    let ?p3 = "case oc_summary p2 of None \<Rightarrow> p2 | Some (a, b, c, d) \<Rightarrow>
            if a \<noteq> oc_sequence_count p2 \<or> b \<noteq> oc_visited_sequence_count p2 \<or> c \<noteq> oc_branch_count p2 \<or>
              d \<noteq> oc_visited_branch_count p2
            then oc_reject ''OpenCover Summary counters contradict sequence or branch records'' p2 else p2"
    show "oc_finish p = (let q = ?p3\<lparr>oc_parsed := (oc_parsed ?p3)\<lparr>parsed_records := map snd (oc_records ?p3),
      parsed_saw := oc_records ?p3 \<noteq> []\<rparr>\<rparr> in
      if oc_records q = [] \<and> \<not> parsed_invalid (oc_parsed q) \<and> \<not> parsed_incomplete (oc_parsed q)
      then oc_truncate ''OpenCover document contains no coverage records'' q else q)"
      unfolding oc_finish_def Let_def p2_def p1_def by (rule refl)
    show "?p3 = p2 \<or> (\<exists>d. ?p3 = oc_reject d p2)" by (cases "oc_summary p2") (auto split: prod.split)
  qed
  have "invalid p3 \<longrightarrow> invalid (oc_finish p)" "parsed_incomplete (oc_parsed p3) \<longrightarrow> parsed_incomplete (oc_parsed (oc_finish p))"
    by (simp_all add: p3(1) Let_def reject_facts)
  moreover have "invalid p2 \<longrightarrow> invalid p3" "parsed_incomplete (oc_parsed p2) \<longrightarrow> parsed_incomplete (oc_parsed p3)"
    using p3(2) by (auto simp: reject_facts)
  moreover have "invalid p \<or> \<not> oc_root_seen p \<longrightarrow> invalid p2"
    "parsed_incomplete (oc_parsed p) \<or> oc_stack p \<noteq> [] \<longrightarrow> parsed_incomplete (oc_parsed p2)"
    by (simp_all add: p1_def p2_def reject_facts)
  ultimately show "invalid p \<Longrightarrow> invalid (oc_finish p)" "\<not> oc_root_seen p \<Longrightarrow> invalid (oc_finish p)"
    "parsed_incomplete (oc_parsed p) \<Longrightarrow> parsed_incomplete (oc_parsed (oc_finish p))"
    "oc_stack p \<noteq> [] \<Longrightarrow> parsed_incomplete (oc_parsed (oc_finish p))" by simp_all
qed

lemma events_simulate:
  assumes "simulates p s" and "\<not> invalid (fold handle_event es p)"
  shows "\<exists>s'. doc_run es s = Some s' \<and> simulates (fold handle_event es p) s'"
  using assms
proof (induction es arbitrary: p s)
  case (Cons e es)
  have "\<not> invalid (handle_event e p)" using Cons.prems(2) invalid_stays_run by auto
  then obtain s' where "doc_step e s = Some s'" "simulates (handle_event e p) s'"
    using event_simulates [OF Cons.prems(1)] by blast
  with Cons show ?case by simp
qed simp

text \<open>C13: The OpenCover reader refines the recognizer of documents: a report read neither as invalid nor as incomplete
  is a text the tokenizer accepts whose elements are properly nested within the depth limit under a single
  \<open>CoverageSession\<close> root, without document types, entities, overlong or stray text.\<close>

theorem opencover_document:
  assumes "parse_opencover rx content ds = (p, ds')" and "\<not> parsed_invalid p" and "\<not> parsed_incomplete p"
  shows "\<exists>events. rx content = (events, None) \<and> doc_run events ([], 0) = Some ([], 1)"
proof -
  obtain events e where rx: "rx content = (events, e)" by (cases "rx content")
  let ?q = "fold handle_event events (oc_new ds)"
  have "trim content \<noteq> []" using assms by (auto simp: parse_opencover_def parsed_coverage_default_def)
  then have p: "p = oc_parsed (oc_finish (oc_error e ?q))" using assms(1) rx by (auto simp: parse_opencover_def Let_def)
  have "e = None"
    using finish_flags [of "oc_error e ?q"] assms(2,3) unfolding p by (cases e) (auto simp: oc_error_def reject_facts split: if_splits)
  then have valid: "\<not> invalid ?q" using finish_flags(1) [of ?q] assms(2) unfolding p by (auto simp: oc_error_def)
  have "simulates (oc_new ds) ([], 0)" by (simp add: simulates_def oc_new_def)
  from events_simulate [OF this valid] obtain s where s: "doc_run events ([], 0) = Some s" "simulates ?q s" by blast
  have "oc_root_seen ?q \<and> oc_stack ?q = []"
    using finish_flags(2,4) [of ?q] assms(2,3) \<open>e = None\<close> unfolding p by (auto simp: oc_error_def)
  then have "s = ([], 1)" using s(2) by (cases s) (simp add: simulates_def)
  then show ?thesis using rx \<open>e = None\<close> s(1) by simp
qed


lemma opencover_document_witness:
  defines "tokenizer \<equiv> \<lambda>content::string. ([XmlStart ''CoverageSession'' [],
      XmlEmpty ''File'' [Attribute ''uid'' ''1'', Attribute ''path'' ''a''],
      XmlEmpty ''Branch'' [Attribute ''line'' ''3'', Attribute ''vc'' ''0'', Attribute ''path'' ''0'', Attribute ''fileid'' ''1''],
      XmlEnd ''CoverageSession''], None :: string option)"
  shows "\<exists>events. tokenizer ''x'' = (events, None) \<and> doc_run events ([], 0) = Some ([], 1)"
proof -
  let ?p1 = "(oc_new [])\<lparr>oc_depth := 1, oc_root_seen := True, oc_stack := [''coveragesession'']\<rparr>"
  define p2 where "p2 = ?p1\<lparr>oc_files := [(''1'', ''a'', None)]\<rparr>"
  define as where "as = bt_put ''fileid'' ''1'' (bt_put ''path'' ''0'' (bt_put ''vc'' ''0'' [(''line'', ''3'')]))"
  have e1: "handle_event (XmlStart ''CoverageSession'' []) (oc_new []) = ?p1"
    unfolding oc_new_def parsed_coverage_default_def by code_simp
  have e2: "handle_event (XmlEmpty ''File'' [Attribute ''uid'' ''1'', Attribute ''path'' ''a'']) ?p1 = p2"
    unfolding p2_def oc_new_def parsed_coverage_default_def by code_simp
  have attrs: "attr_any as [''sl'', ''line''] = Some ''3''" "attr_any as [''vc'', ''visitcount''] = Some ''0''"
    "branch_identity as \<noteq> []" unfolding as_def by code_simp+
  have numbers: "parse_u32 ''3'' = Some 3" "parse_nonnegative_u64 ''0'' = Some 0"
  proof -
    have "decimal 3 = ''3''" "decimal 0 = ''0''" by code_simp+
    then show "parse_u32 ''3'' = Some 3" "parse_nonnegative_u64 ''0'' = Some 0"
      using parse_u32_decimal [of 3] parse_u64_decimal [of 0] by simp_all
  qed
  let ?p = "p2\<lparr>oc_depth := 2\<rparr>"
  have point: "point_uid as ?p = Some ''1''" "point_path ''branch point'' (Some ''1'') ?p = Inr ''a''" "uid_hash (Some ''1'') ?p = None"
    unfolding as_def p2_def oc_new_def parsed_coverage_default_def by code_simp+
  have rs: "oc_records p2 = []" "oc_summary p2 = None" "oc_root_seen p2" "oc_depth p2 = 1" "oc_stack p2 = [''coveragesession'']"
    "\<not> invalid p2" "\<not> parsed_incomplete (oc_parsed p2)" "oc_method_child p2 = None" "\<not> oc_root_closed p2"
    by (simp_all add: p2_def oc_new_def parsed_coverage_default_def)
  have "\<exists>f. handle_branch_point as ?p = count_branch False (edit_record ''a'' f (update_file_record ''a'' None ?p))"
    unfolding handle_branch_point_def attrs(1,2) numbers point Let_def bind.bind_lunit option.case sum.case if_not_P [OF attrs(3)]
    by (simp, rule exI, rule refl)
  then obtain f where e3: "handle_branch_point as ?p = count_branch False (edit_record ''a'' f (update_file_record ''a'' None ?p))" ..
  have "update_file_record ''a'' None ?p = ?p\<lparr>oc_records := [(''a'', parsed_file_default\<lparr>pf_path := ''a''\<rparr>)]\<rparr>"
    by (simp add: update_file_record_def Let_def rs parsed_file_default_def)
  then obtain r where e3: "handle_branch_point as ?p = count_branch False (?p\<lparr>oc_records := [(''a'', r)]\<rparr>)"
    using e3 by (simp add: edit_record_def)
  have names: "xml_name ''CoverageSession'' = ''coveragesession''" "xml_name ''Branch'' = ''branch''" "xml_name ''line'' = ''line''"
    "xml_name ''path'' = ''path''" "xml_name ''vc'' = ''vc''" "xml_name ''fileid'' = ''fileid''" by code_simp+
  let ?as = "[Attribute ''line'' ''3'', Attribute ''vc'' ''0'', Attribute ''path'' ''0'', Attribute ''fileid'' ''1'']"
  have "xml_attributes ?as p = (as, p)" for p
    unfolding xml_attributes_def as_def by (simp add: xml_attribute_step_def names del: bt_put.simps(2))
  then have e3: "handle_event (XmlEmpty ''Branch'' ?as) p2 = count_branch False (p2\<lparr>oc_records := [(''a'', r)]\<rparr>)" (is "_ = ?p3")
  proof -
    assume as: "\<And>p. xml_attributes ?as p = (as, p)"
    have "opened ''branch'' p2 = ?p"
      using rs by (simp add: opened_def handle_root_def MAX_XML_DEPTH_def Let_def numeral_2_eq_2)
    moreover have "handled ''branch'' ?as True ?p = handle_branch_point as ?p"
      by (simp add: handled_def start_method_child_def as handle_element_def)
    ultimately show ?thesis using e3 rs
      by (simp add: handle_start_split names close_empty_def count_branch_def)
  qed
  have e4: "handle_event (XmlEnd ''CoverageSession'') ?p3 = ?p3\<lparr>oc_stack := [], oc_root_closed := True, oc_depth := 0\<rparr>" (is "_ = ?p4")
    using rs by (simp add: handle_end_def names close_method_child_def count_branch_def Let_def)
  have "oc_finish ?p4 = ?p4\<lparr>oc_parsed := (oc_parsed ?p4)\<lparr>parsed_records := [r], parsed_saw := True\<rparr>\<rparr>"
    using rs by (simp add: oc_finish_def count_branch_def Let_def)
  then have finish: "\<not> invalid (oc_finish ?p4) \<and> \<not> parsed_incomplete (oc_parsed (oc_finish ?p4))"
    using rs by (simp add: count_branch_def)
  have "fold handle_event (fst (tokenizer ''x'')) (oc_new []) = ?p4"
    unfolding tokenizer_def fst_conv fold_simps o_def e1 e2 e3 e4 ..
  moreover have "trim ''x'' \<noteq> []" by code_simp
  ultimately have "parse_opencover tokenizer ''x'' [] = (oc_parsed (oc_finish ?p4), oc_diagnostics (oc_finish ?p4))"
    by (simp add: parse_opencover_def tokenizer_def oc_error_def Let_def)
  then show ?thesis by (rule opencover_document) (simp_all add: finish)
qed

end
