(* ===== verification/Spec2Isabelle.thy ===== *)
theory Spec2Isabelle
  imports CfgScc CfgDom CfgSpec Facts FixEngine OrdMap Assessments GateScopes BaselineSpec CoverageSpec OpenCoverSpec
begin

text \<open>
  \<^bold>\<open>What is verified.\<close> hoonarqube analyses source trees with one analyzer per language and reports issues.
  Everything the analyzers share is in a few crates: control-flow graphs and dataflow solving
  (\<open>crates/hoonarqube-dataflow\<close>), the report types with positions, fixes, snapshots and assessments
  (\<open>crates/hoonarqube-ir\<close>), and the assessment services over them, quality gates and the comparison with a
  baseline (\<open>crates/hoonarqube-core/src/assessment\<close>). These crates are modelled here.

  \<^bold>\<open>How the parts interact.\<close> An analyzer lowers a function to a \<open>ControlFlowSpec\<close>; \<open>CfgBuilder\<close> turns it into a
  \<open>Cfg\<close>; \<open>solve_dataflow\<close> computes facts of a lattice over it. The issues found carry ranges, quick fixes and
  flows; \<open>apply_fixes\<close> rewrites the text. From the reports and the source bytes an \<open>AssessmentReport\<close> is built: one
  snapshot per file, with digests of its lines and an identity for each finding. The baseline comparison matches the
  snapshots of two assessments into a \<open>NewCodeReport\<close>; coverage artifacts are imported against the sources into a
  \<open>CoverageReport\<close>; the gates evaluate conditions over the report, its coverage and its new code; the service accepts a claimed gate result only when it follows from the report.

  \<^bold>\<open>The model.\<close> A definition has the name of the function it translates (a prefix or suffix resolves clashes with HOL
  constants). Structs are records, enums datatypes, \<open>u32\<close> and \<open>u64\<close> words, \<open>usize\<close> a \<open>nat\<close> with the checks of the
  code written out, bytes and strings HOL strings, \<open>f64\<close> a 64-bit word with the binary64 format decoded. A panic is \<open>None\<close>,
  a \<open>Result\<close> a sum, so a function that can do both returns an option of a sum. \<open>BTreeMap\<close> is a list of
  bindings in key order (\<open>OrdMap\<close>), and a loop is a recursive function over what remains to visit. Panic freedom is
  therefore stated as a result of the form \<open>Some\<close>, and termination is part of the definitions, except for the
  dataflow worklist, where it is proved under the ascending chain condition of the lattice.

  \<^bold>\<open>Theories.\<close>
  \<^item> \<open>Prelude\<close>, \<open>OrdMap\<close>: checked accesses, results, ordered maps; the locale \<open>keyed_store\<close> carries the loops over maps.
  \<^item> \<open>Cfg\<close>, \<open>CfgReach\<close>, \<open>CfgDfs\<close>, \<open>CfgScc\<close>, \<open>CfgDom\<close> (\<open>dataflow/src/cfg.rs\<close>): the graph and its updates, reachability and
    pruning, depth-first orders, strongly connected components and cycles, dominators with the
    interval numbering that answers queries. Each algorithm is proved equal to its definition by paths.
  \<^item> \<open>CfgBuilder\<close>, \<open>CfgSpec\<close> (\<open>builder.rs\<close>, \<open>spec.rs\<close>): the builder's frontier, and the action-stack machine that lowers
    structured control flow; the machine refines a structural recursion, never panics within the id space and leaves
    no stuck block.
  \<^item> \<open>Solver\<close>, \<open>Facts\<close> (\<open>solve.rs\<close>, \<open>facts.rs\<close>): the worklist solver over a locale of fact lattices, and its
    interpretations: reaching definitions, liveness, taint and must-analyses, with their meaning by paths.
  \<^item> \<open>SourceText\<close>, \<open>Findings\<close>, \<open>FixEngine\<close> (\<open>ir/src/lib.rs\<close>): UTF-8 text, positions, ranges, edits, fixes and issues with their
    deserializers, and the edit engine, which equals sequential rewriting of compatible edits.
  \<^item> \<open>Paths\<close>, \<open>SourceLines\<close>, \<open>Snapshots\<close>, \<open>Artifacts\<close>, \<open>Assessments\<close> (\<open>ir/src/assessment.rs\<close>): lexical path
    normalization, line splitting in two styles, finding identities and snapshots, all assessment artifacts with their
    validation, their assembly and the reconciliation with the reports, and exact coverage totals.
  \<^item> \<open>F64\<close>, \<open>Gates\<close>, \<open>GateNumbers\<close>, \<open>GateEvaluation\<close>, \<open>GateScopes\<close> (\<open>core/src/assessment/gates.rs\<close> and the claim check
    of \<open>service/src/lib.rs\<close>): binary64 arithmetic with rounding to nearest even, the metrics, the exact comparison of
    counters with thresholds, the verdict of a gate, the new-code scope.
  \<^item> \<open>LineAlignment\<close>, \<open>Counterparts\<close>, \<open>Baseline\<close>, \<open>BaselineSpec\<close> (\<open>core/src/assessment/baseline.rs\<close>): the bounded dynamic
    programs, specified by maximum order-preserving matchings of equal lines; the pairing of files; the
    classification of findings; and what its report means, validates as and is accepted by.
  \<^item> \<open>TextScan\<close>, \<open>SemanticLines\<close>, \<open>CoveragePaths\<close>, \<open>Lcov\<close>, \<open>OpenCover\<close>, \<open>CoverageImport\<close> (\<open>core/src/assessment/coverage.rs\<close>,
    with the languages of \<open>core/src/lib.rs\<close> and the physical lines of \<open>core/src/source_facts.rs\<close>): the resolution of report
    paths, the state machines of the two readers, the aggregation by source line, the import. \<open>CoverageActions\<close> turns an
    import into a sequence of merges and diagnostics, \<open>CoverageMerge\<close> and \<open>CoverageCounts\<close> give its meaning as a set of
    measurements; \<open>LcovSpec\<close> has the round trip with a writer and the recovery of the LCOV reader, \<open>OpenCoverSpec\<close> the
    simulation of a recognizer of documents, \<open>CoverageSpec\<close> the properties of the report.

  \<^bold>\<open>Bounds.\<close> The limits of the code are constants of the model (table cells, pair and line work, changed lines, the \<open>u32\<close>
  id space). No fuel is used: every loop is structural or has a termination proof. The dynamic programs hold \<open>u32\<close> values
  in tables of at most 4,000,000 cells, so no entry wraps, which \<open>align_lines_correct\<close> includes.

  \<^bold>\<open>Parameters.\<close> SHA-256 (the \<open>sha2\<close> crate) is the argument \<open>sha\<close>; where the shape of a digest matters its length of 32
  bytes is a hypothesis, and where distinctness matters the absence of a collision on the hashed inputs. MD5, Base64, Unicode
  lower case and the XML tokenizer (the \<open>quick-xml\<close> crate: a text to its events, up to the end or an error) are the fields of
  \<open>import_externals\<close>. Transfer functions
  and lattices of the solver are arguments, as they are in the code. Texts for people (gate diagnostics, the rendering of an
  error inside a baseline diagnostic) are values or a parameter: nothing reads them back.

  \<^bold>\<open>Findings.\<close> \<open>normalize_path\<close> is not idempotent on names that look like drives (\<open>normalize_path_idempotent\<close> states the exact
  exception), so some snapshots are rejected by their own validation. The documentation of \<open>has_edge\<close> and of
  \<open>CoverageCounter::percentage\<close> promises more than the code does. The importer lists files in the byte order of their path strings
  while the validation of its report asks for the component order (\<open>import_validates\<close> and its witness).

  \<^bold>\<open>Not modelled.\<close> The language analyzers (hundreds of independent rules over the syntax trees of third-party
  parsers), the rule catalog (embedded tables read through serde), the command line, the HTTP service and its SQLite store,
  serialization (serde; only hand-written checks are modelled), the parity records (plain data), and the collection of source
  facts (tokens and metrics over tree-sitter trees; the physical lines are modelled).

  \<^bold>\<open>Plan.\<close> Duplication detection (\<open>core/src/duplication.rs\<close>) over token streams as its input.
\<close>

end
